(* ===== verification/Prelude.thy ===== *)
theory Prelude
  imports Main "HOL-Library.Word"
begin

text \<open>
  Shared vocabulary of the development: machine integers, the ways in which the kernel code can
  fail, the error monad that carries them, little-endian accesses to byte memory, and the lemma
  collections the component theories use.
\<close>

unbundle bit_operations_syntax

type_synonym u8 = "8 word"
type_synonym u16 = "16 word"
type_synonym u32 = "32 word"
type_synonym u64 = "64 word"

text \<open>
  What can stop the code: an access outside the object a pointer points into (undefined behaviour
  in C++), a call of \<^verbatim>\<open>kpanic\<close>, which prints a message and spins for ever, a loop or
  recursion that does not end, an exception of the processor, or the end of the process. An operation of the kernel that can do any of these returns a sum
  whose left side says which.
\<close>

datatype fault = OutOfBounds | Panic string | Hang | Trap string | Exit u32

type_synonym 'a exec = "fault + 'a"

fun bindE :: "'a exec \<Rightarrow> ('a \<Rightarrow> 'b exec) \<Rightarrow> 'b exec" where
  "bindE (Inl e) f = Inl e"
| "bindE (Inr x) f = f x"

named_theorems exec_simps "equations of the error monad"
named_theorems rd_simps "reads of little-endian values from byte memory"

lemma bindE_cong [fundef_cong]:
  "m = m' \<Longrightarrow> (\<And>x. m' = Inr x \<Longrightarrow> f x = g x) \<Longrightarrow> bindE m f = bindE m' g"
  by (cases m') auto

lemma bindE_Inr_iff [exec_simps]: "bindE m f = Inr y \<longleftrightarrow> (\<exists>x. m = Inr x \<and> f x = Inr y)"
  by (cases m) auto

lemma bindE_Inl_iff [exec_simps]:
  "bindE m f = Inl e \<longleftrightarrow> m = Inl e \<or> (\<exists>x. m = Inr x \<and> f x = Inl e)"
  by (cases m) auto

lemma bindE_Inr_right [simp]: "bindE m Inr = m"
  by (cases m) auto

lemma bindE_assoc: "bindE (bindE m f) g = bindE m (\<lambda>x. bindE (f x) g)"
  by (cases m) auto

lemma bindE_split_asm_Inr [elim!]:
  assumes "bindE m f = Inr y"
  obtains x where "m = Inr x" and "f x = Inr y"
  using assms by (auto simp: bindE_Inr_iff)

section \<open>Bytes\<close>

text \<open>The bytes of an ASCII literal.\<close>

definition bytes :: "string \<Rightarrow> u8 list" where
  "bytes s = List.map (\<lambda>c. word_of_nat (of_char c)) s"

lemma bytes_Nil [simp]: "bytes [] = []"
  by (simp add: bytes_def)

lemma bytes_Cons [simp]: "bytes (c # s) = word_of_nat (of_char c) # bytes s"
  by (simp add: bytes_def)

lemma length_bytes [simp]: "length (bytes s) = length s"
  by (simp add: bytes_def)

text \<open>
  A pointer into a block of byte memory is the block and an offset of the machine's width, so that
  pointer arithmetic wraps around as it does on the machine; an access outside the block faults.
\<close>

definition rd8 :: "u8 list \<Rightarrow> u32 \<Rightarrow> u8 exec" where
  "rd8 m p = (if unat p < length m then Inr (m ! unat p) else Inl OutOfBounds)"

definition le16 :: "u8 \<Rightarrow> u8 \<Rightarrow> u16" where
  "le16 a b = ucast a OR push_bit 8 (ucast b)"

definition le32 :: "u8 \<Rightarrow> u8 \<Rightarrow> u8 \<Rightarrow> u8 \<Rightarrow> u32" where
  "le32 a b c d = ucast a OR push_bit 8 (ucast b) OR push_bit 16 (ucast c) OR push_bit 24 (ucast d)"

definition rd16 :: "u8 list \<Rightarrow> u32 \<Rightarrow> u16 exec" where
  "rd16 m p = (let i = unat p in
     if i + 1 < length m then Inr (le16 (m ! i) (m ! (i + 1))) else Inl OutOfBounds)"

definition rd32 :: "u8 list \<Rightarrow> u32 \<Rightarrow> u32 exec" where
  "rd32 m p = (let i = unat p in
     if i + 3 < length m then Inr (le32 (m ! i) (m ! (i + 1)) (m ! (i + 2)) (m ! (i + 3)))
     else Inl OutOfBounds)"

text \<open>The bytes of a word, lowest first, and that reading them back gives the word.\<close>

definition bytes16 :: "u16 \<Rightarrow> u8 list" where
  "bytes16 v = [ucast (v AND 0xFF), ucast (drop_bit 8 v AND 0xFF)]"

definition bytes32 :: "u32 \<Rightarrow> u8 list" where
  "bytes32 v = [ucast (v AND 0xFF), ucast (drop_bit 8 v AND 0xFF),
                ucast (drop_bit 16 v AND 0xFF), ucast (drop_bit 24 v AND 0xFF)]"

lemma length_bytes16 [simp]: "length (bytes16 v) = 2"
  by (simp add: bytes16_def)

lemma length_bytes32 [simp]: "length (bytes32 v) = 4"
  by (simp add: bytes32_def)

lemma bit_0xFF: "bit (0xFF :: 'a::len word) n \<longleftrightarrow> n < 8 \<and> n < LENGTH('a)"
proof -
  have "(0xFF :: 'a word) = mask 8"
    by (simp add: mask_eq_exp_minus_1)
  then show ?thesis
    by (simp only: bit_mask_iff possible_bit_word) auto
qed

lemma ucast_and_0xFF [simp]: "(ucast (v AND 0xFF :: 'a::len word) :: u8) = ucast v"
  by (rule bit_word_eqI) (simp only: bit_ucast_iff bit_and_iff bit_0xFF, auto dest: bit_imp_le_length)

lemma le16_bytes [simp]: "le16 (ucast v) (ucast (drop_bit 8 v)) = v"
  unfolding le16_def
  by (rule bit_word_eqI) (auto simp: bit_simps)

lemma le32_bytes [simp]:
  "le32 (ucast v) (ucast (drop_bit 8 v)) (ucast (drop_bit 16 v)) (ucast (drop_bit 24 v)) = v"
  unfolding le32_def
proof (rule bit_word_eqI)
  fix n assume "n < LENGTH(32)"
  then consider "n < 8" | "8 \<le> n \<and> n < 16" | "16 \<le> n \<and> n < 24" | "24 \<le> n \<and> n < 32"
    by force
  then show "bit (ucast (ucast v :: u8) OR push_bit 8 (ucast (ucast (drop_bit 8 v) :: u8)) OR
      push_bit 16 (ucast (ucast (drop_bit 16 v) :: u8)) OR
      push_bit 24 (ucast (ucast (drop_bit 24 v) :: u8)) :: u32) n = bit v n"
    by cases (auto simp: bit_simps)
qed

lemma unat_of_nat32 [simp]: "n < 2 ^ 32 \<Longrightarrow> unat (word_of_nat n :: u32) = n"
  by (simp add: unat_of_nat)

lemma unat_of_nat16 [simp]: "n < 2 ^ 16 \<Longrightarrow> unat (word_of_nat n :: u16) = n"
  by (simp add: unat_of_nat)

lemma unat_dec [simp]:
  assumes "unat w = Suc n"
  shows "unat (w - 1) = n"
proof -
  have "(1 :: 'a::len word) \<le> w"
    using assms by (simp add: word_le_nat_alt)
  then have "unat (w - 1) = unat w - unat (1 :: 'a word)"
    by (rule unat_sub)
  then show ?thesis
    using assms by simp
qed

lemma unat_plus_nat:
  assumes "unat (w :: 'a::len word) + n < 2 ^ LENGTH('a)"
  shows "unat (w + word_of_nat n) = unat w + n"
proof -
  have "unat (word_of_nat n :: 'a word) = n"
    using assms by (simp add: unat_of_nat)
  then show ?thesis
    using assms by (simp add: unat_word_ariths)
qed

lemma sint_small: "unat (w :: u32) < 2 ^ 31 \<Longrightarrow> sint w = int (unat w)"
proof -
  assume "unat w < 2 ^ 31"
  then have lt: "int (unat w) < int (2 ^ 31)"
    by (simp only: of_nat_less_iff)
  have "- (2 ^ 31) \<le> uint w"
    by (rule order_trans [of _ 0]) simp_all
  then have "signed_take_bit 31 (uint w) = uint w"
    using lt by (intro signed_take_bit_int_eq_self) simp_all
  then show "sint w = int (unat w)"
    by (simp add: sint_uint)
qed

lemma unat_ucast_64 [simp]: "unat (ucast (w :: u32) :: u64) = unat w"
proof -
  have "unat w < 2 ^ 64"
    using unsigned_less [of w, where 'a = nat] by simp
  then show ?thesis
    by (simp add: unsigned_ucast_eq take_bit_nat_eq_self)
qed

lemma nat_sint: "\<not> sint (v :: u32) < 0 \<Longrightarrow> nat (sint v) = unat v"
proof -
  assume n: "\<not> sint v < 0"
  have "v = word_of_int (sint v)"
    by simp
  then have "uint v = uint (word_of_int (sint v) :: u32)"
    by simp
  then have u: "uint v = sint v mod 2 ^ 32"
    by (simp only: uint_word_of_int) simp
  have "sint v < 2 ^ 31"
    using sint_less [of v] by simp
  then have m: "sint v mod 2 ^ 32 = sint v"
    using n by (intro mod_pos_pos_trivial) simp_all
  have "sint v = uint v"
    by (rule trans [OF m [symmetric] u [symmetric]])
  then have "nat (sint v) = nat (uint v)"
    by (rule arg_cong)
  also have "\<dots> = unat v"
    by (rule unat_eq_nat_uint [symmetric])
  finally show ?thesis .
qed

lemma unat_uminus_neg: "sint (v :: u32) < 0 \<Longrightarrow> unat (- v) = nat (- sint v)"
proof -
  assume n: "sint v < 0"
  have r: "- (2 ^ 31) \<le> sint v"
    using sint_ge [of v] by simp
  have "- v = word_of_int (- sint v)"
    by simp
  then have "uint (- v) = (- sint v) mod 2 ^ 32"
    by (simp only: uint_word_of_int) simp
  then have "uint (- v) = - sint v"
    using n r by simp
  then show ?thesis
    by (simp add: unat_eq_nat_uint)
qed

text \<open>The casts of the formatted output.\<close>

lemma ucast_ucast_8_32 [simp]: "(ucast (ucast (c :: u8) :: u32) :: u8) = c"
  by (rule bit_word_eqI) (simp add: bit_simps)

text \<open>A property of all bytes is one of 256 numbers, which evaluation decides.\<close>

lemma all_bytes: "list_all (\<lambda>n. P (word_of_nat n :: u8)) [0..<256] \<Longrightarrow> P c"
proof -
  assume a: "list_all (\<lambda>n. P (word_of_nat n :: u8)) [0..<256]"
  have "unat c < 256"
    using unsigned_less [of c, where 'a = nat] by simp
  then have "unat c \<in> set [0..<256]"
    by simp
  then have "P (word_of_nat (unat c))"
    using a unfolding list_all_iff by (rule bspec [rotated])
  then show ?thesis
    by simp
qed

end
