(* ===== verification/Heap.thy ===== *)
theory Heap
  imports Prelude
begin

text \<open>
  The kernel heap of \<^verbatim>\<open>src/mem/alloc.hpp\<close>: a chain of packed 9-byte \<^verbatim>\<open>HeapBlock\<close>
  headers from \<^verbatim>\<open>heapStart\<close>, each followed by its payload. The chain is the list of its
  blocks in the order of their \<^verbatim>\<open>next\<close> pointers; addresses and sizes are machine words,
  so the bounds test of \<^verbatim>\<open>alloc\<close> wraps around as it does on the machine.
  \<^verbatim>\<open>heapStart\<close> and \<^verbatim>\<open>heapEnd\<close> come from the linker script and are parameters.
\<close>

record hblock =
  hb_addr :: u32
  hb_size :: u32
  hb_inUse :: bool

record kheap =
  superBlock :: "hblock list"
  heapEnd :: u32

definition HEAPBLOCK_SIZE :: u32 where
  "HEAPBLOCK_SIZE = 9"

definition hb_payload :: "hblock \<Rightarrow> u32" where
  "hb_payload b = hb_addr b + HEAPBLOCK_SIZE"

definition heap_init :: "u32 \<Rightarrow> u32 \<Rightarrow> kheap" where
  "heap_init heapStart hend =
     \<lparr>superBlock = [\<lparr>hb_addr = heapStart, hb_size = 0, hb_inUse = True\<rparr>], heapEnd = hend\<rparr>"

text \<open>
  The loop of \<^verbatim>\<open>alloc\<close>: first fit among the free blocks, else a new block after the last
  one, else the null pointer 0. The second component is the chain afterwards.
\<close>

fun alloc_walk :: "u32 \<Rightarrow> u32 \<Rightarrow> hblock list \<Rightarrow> (u32 \<times> hblock list) exec" where
  "alloc_walk hend n [] = Inl OutOfBounds"
| "alloc_walk hend n (b # bs) =
     (if \<not> hb_inUse b \<and> hb_size b \<ge> n then Inr (hb_payload b, b\<lparr>hb_inUse := True\<rparr> # bs)
      else if bs = [] then
        (let nxt = hb_addr b + HEAPBLOCK_SIZE + hb_size b in
         if nxt + HEAPBLOCK_SIZE + n > hend then Inr (0, b # bs)
         else Inr (nxt + HEAPBLOCK_SIZE, [b, \<lparr>hb_addr = nxt, hb_size = n, hb_inUse = True\<rparr>]))
      else bindE (alloc_walk hend n bs) (\<lambda>(p, bs'). Inr (p, b # bs')))"

definition kalloc :: "kheap \<Rightarrow> u32 \<Rightarrow> (u32 \<times> kheap) exec" where
  "kalloc h n = bindE (alloc_walk (heapEnd h) n (superBlock h))
     (\<lambda>(p, bs). Inr (p, h\<lparr>superBlock := bs\<rparr>))"

text \<open>
  \<^verbatim>\<open>free\<close> clears the flag of the header before the payload without looking whether there
  is one: any other argument (the null pointer too) is a stray write.
\<close>

fun free_walk :: "u32 \<Rightarrow> hblock list \<Rightarrow> hblock list exec" where
  "free_walk mem [] = Inl OutOfBounds"
| "free_walk mem (b # bs) =
     (if hb_addr b = mem - HEAPBLOCK_SIZE then Inr (b\<lparr>hb_inUse := False\<rparr> # bs)
      else bindE (free_walk mem bs) (\<lambda>bs'. Inr (b # bs')))"

definition kfree :: "kheap \<Rightarrow> u32 \<Rightarrow> kheap exec" where
  "kfree h mem = bindE (free_walk mem (superBlock h)) (\<lambda>bs. Inr (h\<lparr>superBlock := bs\<rparr>))"

section \<open>The well-formed heap\<close>

text \<open>
  The blocks lie one behind the other from \<open>a\<close>, without gaps, up to at most \<open>e\<close>.
\<close>

fun chain :: "nat \<Rightarrow> hblock list \<Rightarrow> nat \<Rightarrow> bool" where
  "chain a [] e = (a \<le> e)"
| "chain a (b # bs) e = (unat (hb_addr b) = a \<and> chain (a + 9 + unat (hb_size b)) bs e)"

definition heap_inv :: "kheap \<Rightarrow> bool" where
  "heap_inv h \<longleftrightarrow> (case superBlock h of [] \<Rightarrow> False
     | b # bs \<Rightarrow> 0 < unat (hb_addr b) \<and> chain (unat (hb_addr b)) (b # bs) (unat (heapEnd h)))"

text \<open>
  The live allocations, from payload address to size. The super block counts as one, of size 0,
  that nobody frees.
\<close>

fun live_blocks :: "hblock list \<Rightarrow> (u32 \<rightharpoonup> u32)" where
  "live_blocks [] = Map.empty"
| "live_blocks (b # bs) =
     (if hb_inUse b then (live_blocks bs)(hb_payload b \<mapsto> hb_size b) else live_blocks bs)"

definition live :: "kheap \<Rightarrow> (u32 \<rightharpoonup> u32)" where
  "live h = live_blocks (superBlock h)"

text \<open>The request sizes for which the bounds test of \<^verbatim>\<open>alloc\<close> cannot wrap around.\<close>

definition sane_size :: "kheap \<Rightarrow> u32 \<Rightarrow> bool" where
  "sane_size h n \<longleftrightarrow> unat (heapEnd h) + 9 + unat n < 2 ^ 32"

lemma chain_le: "chain a bs e \<Longrightarrow> a \<le> e"
  by (induction bs arbitrary: a) force+

lemma chain_bounds:
  "chain a bs e \<Longrightarrow> b \<in> set bs \<Longrightarrow>
     a \<le> unat (hb_addr b) \<and> unat (hb_addr b) + 9 + unat (hb_size b) \<le> e"
proof (induction bs arbitrary: a)
  case (Cons c bs)
  then show ?case
    using chain_le [of "a + 9 + unat (hb_size c)" bs e] by fastforce
qed simp

lemma unat_hb_payload:
  assumes "unat (hb_addr b) + 9 + unat (hb_size b) \<le> unat (e :: u32)"
  shows "unat (hb_payload b) = unat (hb_addr b) + 9"
proof -
  have "unat e < 2 ^ 32"
    using unsigned_less [of e] by simp
  then show ?thesis
    using assms by (simp add: hb_payload_def HEAPBLOCK_SIZE_def unat_word_ariths)
qed

lemma live_blocks_dom:
  "live_blocks bs p = Some n \<Longrightarrow> \<exists>b \<in> set bs. hb_inUse b \<and> hb_payload b = p \<and> hb_size b = n"
  by (induction bs) (auto split: if_splits)

lemma live_blocks_below:
  assumes "chain a bs (unat (e :: u32))" and "unat p < a + 9"
  shows "live_blocks bs p = None"
proof (rule ccontr)
  assume "live_blocks bs p \<noteq> None"
  then obtain n where "live_blocks bs p = Some n"
    by blast
  then obtain b where b: "b \<in> set bs" "hb_payload b = p"
    using live_blocks_dom by blast
  with assms(1) have "unat p = unat (hb_addr b) + 9" "a \<le> unat (hb_addr b)"
    using chain_bounds unat_hb_payload [of b e] by blast+
  with assms(2) show False by simp
qed

lemma chain_Cons_below:
  assumes "chain a (b # bs) (unat (e :: u32))"
  shows "live_blocks bs (hb_payload b) = None"
    and "unat (hb_payload b) = a + 9"
proof -
  have "unat (hb_addr b) = a" "chain (a + 9 + unat (hb_size b)) bs (unat e)"
    using assms by auto
  moreover have "unat (hb_payload b) = unat (hb_addr b) + 9"
    using chain_bounds [OF assms, of b] unat_hb_payload [of b e] by simp
  ultimately show "live_blocks bs (hb_payload b) = None" "unat (hb_payload b) = a + 9"
    using live_blocks_below by auto
qed

lemma live_blocks_update_below:
  assumes "chain a (b # bs) (unat (e :: u32))"
  shows "live_blocks (b # bs) (hb_payload b) = (if hb_inUse b then Some (hb_size b) else None)"
  using chain_Cons_below [OF assms] by simp

lemma alloc_walk_append:
  assumes "chain a [b] (unat hend)" and "unat hend + 9 + unat n < 2 ^ 32"
    and "nxt = hb_addr b + HEAPBLOCK_SIZE + hb_size b" and "\<not> nxt + HEAPBLOCK_SIZE + n > hend"
  shows "chain a [b, \<lparr>hb_addr = nxt, hb_size = n, hb_inUse = True\<rparr>] (unat hend)"
    and "unat (nxt + HEAPBLOCK_SIZE) = a + 18 + unat (hb_size b)"
proof -
  have le: "a + 9 + unat (hb_size b) \<le> unat hend" and a: "unat (hb_addr b) = a"
    using assms(1) by auto
  then have nxt: "unat nxt = a + 9 + unat (hb_size b)"
    using assms(2,3) by (simp add: HEAPBLOCK_SIZE_def unat_word_ariths)
  moreover have "unat (nxt + HEAPBLOCK_SIZE + n) = unat nxt + 9 + unat n"
    using nxt le assms(2) by (simp add: HEAPBLOCK_SIZE_def unat_word_ariths)
  ultimately show "chain a [b, \<lparr>hb_addr = nxt, hb_size = n, hb_inUse = True\<rparr>] (unat hend)"
    using a assms(4) by (simp add: word_less_nat_alt)
  show "unat (nxt + HEAPBLOCK_SIZE) = a + 18 + unat (hb_size b)"
    using nxt le assms(2) by (simp add: HEAPBLOCK_SIZE_def unat_word_ariths)
qed

lemma alloc_walk_spec:
  assumes "chain a bs (unat hend)" and "bs \<noteq> []" and "unat hend + 9 + unat n < 2 ^ 32"
  shows "\<exists>p bs'. alloc_walk hend n bs = Inr (p, bs') \<and> chain a bs' (unat hend)
     \<and> bs' \<noteq> [] \<and> hb_addr (hd bs') = hb_addr (hd bs)
     \<and> (p = 0 \<longrightarrow> bs' = bs)
     \<and> (p \<noteq> 0 \<longrightarrow> a < unat p \<and> live_blocks bs p = None \<and>
          (\<exists>m \<ge> n. live_blocks bs' = (live_blocks bs)(p \<mapsto> m)))"
  using assms(1,2)
proof (induction bs arbitrary: a)
  case (Cons b bs)
  note below = chain_Cons_below [OF Cons.prems(1)]
  have ch: "unat (hb_addr b) = a" "chain (a + 9 + unat (hb_size b)) bs (unat hend)"
    using Cons.prems(1) by auto
  consider (fit) "\<not> hb_inUse b \<and> hb_size b \<ge> n"
    | (last) "\<not> (\<not> hb_inUse b \<and> hb_size b \<ge> n)" "bs = []"
    | (onward) "\<not> (\<not> hb_inUse b \<and> hb_size b \<ge> n)" "bs \<noteq> []"
    by blast
  then show ?case
  proof cases
    case fit
    then have "hb_payload (b\<lparr>hb_inUse := True\<rparr>) = hb_payload b"
      by (simp add: hb_payload_def)
    with fit ch below show ?thesis
      by (auto simp: fun_upd_def intro!: exI [of _ "hb_size b"])
  next
    case last
    show ?thesis
    proof (cases "hb_addr b + HEAPBLOCK_SIZE + hb_size b + HEAPBLOCK_SIZE + n > hend")
      case True
      with last Cons.prems show ?thesis by (auto simp: Let_def)
    next
      case False
      let ?nb = "\<lparr>hb_addr = hb_addr b + HEAPBLOCK_SIZE + hb_size b, hb_size = n, hb_inUse = True\<rparr>"
      have ch2: "chain a [b, ?nb] (unat hend)"
        and u: "unat (hb_payload ?nb) = a + 18 + unat (hb_size b)"
        using alloc_walk_append [OF _ assms(3) refl False] Cons.prems(1) last
        by (auto simp: hb_payload_def)
      moreover have "hb_payload ?nb \<noteq> hb_payload b"
        using u below(2) by auto
      ultimately have "live_blocks [b, ?nb] = (live_blocks [b])(hb_payload ?nb \<mapsto> n)"
        and "live_blocks [b] (hb_payload ?nb) = None"
        using below(1) last(2) by (auto simp: fun_upd_twist)
      with last False ch2 u show ?thesis
        by (auto simp: Let_def hb_payload_def fun_upd_def simp del: live_blocks.simps
            intro!: exI [of _ n])
    qed
  next
    case onward
    with Cons.IH [OF ch(2)] obtain p bs' where IH:
      "alloc_walk hend n bs = Inr (p, bs')" "chain (a + 9 + unat (hb_size b)) bs' (unat hend)"
      "p = 0 \<longrightarrow> bs' = bs"
      "p \<noteq> 0 \<longrightarrow> a + 9 + unat (hb_size b) < unat p \<and> live_blocks bs p = None \<and>
          (\<exists>m \<ge> n. live_blocks bs' = (live_blocks bs)(p \<mapsto> m))"
      by blast
    show ?thesis
    proof (cases "p = 0")
      case True
      with onward IH ch show ?thesis by auto
    next
      case False
      with IH(4) obtain m where m: "a + 9 + unat (hb_size b) < unat p" "live_blocks bs p = None"
        "m \<ge> n" "live_blocks bs' = (live_blocks bs)(p \<mapsto> m)"
        by blast
      then have "p \<noteq> hb_payload b"
        using below(2) by auto
      then have "live_blocks (b # bs) p = None"
        and "live_blocks (b # bs') = (live_blocks (b # bs))(p \<mapsto> m)"
        using m by (auto simp: fun_upd_twist)
      with onward IH(1-3) ch m(1,3) False show ?thesis
        by (auto simp: fun_upd_def simp del: live_blocks.simps intro!: exI [of _ m])
    qed
  qed
qed simp

lemma kalloc_spec:
  assumes "heap_inv h" and "sane_size h n"
  shows "\<exists>p h'. kalloc h n = Inr (p, h') \<and> heap_inv h' \<and> heapEnd h' = heapEnd h
     \<and> (p = 0 \<longrightarrow> h' = h)
     \<and> (p \<noteq> 0 \<longrightarrow> live h p = None \<and> (\<exists>m \<ge> n. live h' = (live h)(p \<mapsto> m)))"
proof -
  let ?bs = "superBlock h"
  from assms obtain b bs where bs: "?bs = b # bs" "0 < unat (hb_addr b)"
    and ch: "chain (unat (hb_addr b)) ?bs (unat (heapEnd h))"
    by (auto simp: heap_inv_def split: list.splits)
  have ne: "?bs \<noteq> []" and hd: "hb_addr (hd ?bs) = hb_addr b"
    using bs(1) by auto
  from alloc_walk_spec [OF ch ne assms(2) [unfolded sane_size_def]] obtain p bs' where w:
    "alloc_walk (heapEnd h) n ?bs = Inr (p, bs')" "chain (unat (hb_addr b)) bs' (unat (heapEnd h))"
    "bs' \<noteq> []" "hb_addr (hd bs') = hb_addr (hd ?bs)" "p = 0 \<longrightarrow> bs' = ?bs"
    "p \<noteq> 0 \<longrightarrow> live_blocks ?bs p = None \<and> (\<exists>m \<ge> n. live_blocks bs' = (live_blocks ?bs)(p \<mapsto> m))"
    by blast
  have "heap_inv (h\<lparr>superBlock := bs'\<rparr>)"
    using w(2-4) bs(2) hd by (cases bs') (auto simp: heap_inv_def)
  with w show ?thesis
    by (auto simp: kalloc_def live_def)
qed

lemma free_walk_spec:
  assumes "chain a bs (unat (e :: u32))" and "live_blocks bs p = Some n"
  shows "\<exists>bs'. free_walk p bs = Inr bs' \<and> chain a bs' (unat e)
     \<and> bs' \<noteq> [] \<and> hb_addr (hd bs') = hb_addr (hd bs)
     \<and> live_blocks bs' = (live_blocks bs)(p := None)"
  using assms
proof (induction bs arbitrary: a)
  case (Cons b bs)
  note below = chain_Cons_below [OF Cons.prems(1)]
  have ch: "unat (hb_addr b) = a" "chain (a + 9 + unat (hb_size b)) bs (unat e)"
    using Cons.prems(1) by auto
  show ?case
  proof (cases "p = hb_payload b")
    case True
    then show ?thesis
      using Cons.prems ch below
      by (auto simp: hb_payload_def split: if_splits)
  next
    case False
    then have "live_blocks bs p = Some n"
      using Cons.prems(2) by (auto split: if_splits)
    from Cons.IH [OF ch(2) this] obtain bs' where IH: "free_walk p bs = Inr bs'"
      "chain (a + 9 + unat (hb_size b)) bs' (unat e)" "live_blocks bs' = (live_blocks bs)(p := None)"
      by blast
    have "hb_addr b \<noteq> p - HEAPBLOCK_SIZE"
      using False by (auto simp: hb_payload_def)
    with IH ch False show ?thesis
      by (auto simp: fun_upd_twist)
  qed
qed simp

lemma kfree_spec:
  assumes "heap_inv h" and "live h p = Some n"
  shows "\<exists>h'. kfree h p = Inr h' \<and> heap_inv h' \<and> heapEnd h' = heapEnd h
     \<and> live h' = (live h)(p := None)"
proof -
  let ?bs = "superBlock h"
  from assms obtain b bs where bs: "?bs = b # bs" "0 < unat (hb_addr b)"
    and ch: "chain (unat (hb_addr b)) ?bs (unat (heapEnd h))"
    by (auto simp: heap_inv_def split: list.splits)
  have hd: "hb_addr (hd ?bs) = hb_addr b"
    using bs(1) by auto
  from free_walk_spec [OF ch assms(2) [unfolded live_def]] obtain bs' where w:
    "free_walk p ?bs = Inr bs'" "chain (unat (hb_addr b)) bs' (unat (heapEnd h))"
    "bs' \<noteq> []" "hb_addr (hd bs') = hb_addr (hd ?bs)" "live_blocks bs' = (live_blocks ?bs)(p := None)"
    by blast
  have "heap_inv (h\<lparr>superBlock := bs'\<rparr>)"
    using w(2-4) bs(2) hd by (cases bs') (auto simp: heap_inv_def)
  with w show ?thesis
    by (auto simp: kfree_def live_def)
qed

text \<open>Two live allocations never overlap, and both lie inside the heap.\<close>

lemma live_blocks_range:
  assumes "chain a bs (unat (e :: u32))" and "live_blocks bs p = Some n"
  shows "a + 9 \<le> unat p \<and> unat p + unat n \<le> unat e"
proof -
  obtain b where "b \<in> set bs" "hb_payload b = p" "hb_size b = n"
    using live_blocks_dom [OF assms(2)] by blast
  then show ?thesis
    using chain_bounds [OF assms(1), of b] unat_hb_payload [of b e] by auto
qed

lemma live_blocks_disjoint:
  assumes "chain a bs (unat (e :: u32))" and "live_blocks bs p = Some n" and "live_blocks bs q = Some m"
    and "p \<noteq> q"
  shows "unat p + unat n < unat q \<or> unat q + unat m < unat p"
  using assms
proof (induction bs arbitrary: a)
  case (Cons b bs)
  note below = chain_Cons_below [OF Cons.prems(1)]
  have ch: "unat (hb_addr b) = a" "chain (a + 9 + unat (hb_size b)) bs (unat e)"
    using Cons.prems(1) by auto
  show ?case
  proof (cases "p = hb_payload b \<or> q = hb_payload b")
    case True
    with Cons.prems below show ?thesis
      using live_blocks_range [OF ch(2), of p n] live_blocks_range [OF ch(2), of q m]
      by (auto split: if_splits)
  next
    case False
    with Cons.prems show ?thesis
      using Cons.IH [OF ch(2)] by (auto split: if_splits)
  qed
qed simp

lemma heap_init_inv:
  "0 < unat a \<Longrightarrow> unat a + 9 \<le> unat e \<Longrightarrow> heap_inv (heap_init a e)"
  by (simp add: heap_inv_def heap_init_def)

section \<open>The allocator as an interface\<close>

text \<open>
  What the kernel code relies on when it calls \<^verbatim>\<open>KernelAllocator\<close>: an allocation is new,
  at least as large as asked for, and leaves the other allocations alone; releasing an allocation
  removes it and nothing else. \<open>fits\<close> says which requests the allocator can be asked for.
\<close>

locale block_allocator =
  fixes ok :: "'h \<Rightarrow> bool"
    and owned :: "'h \<Rightarrow> (u32 \<rightharpoonup> u32)"
    and fits :: "'h \<Rightarrow> u32 \<Rightarrow> bool"
    and alloc :: "'h \<Rightarrow> u32 \<Rightarrow> (u32 \<times> 'h) exec"
    and release :: "'h \<Rightarrow> u32 \<Rightarrow> 'h exec"
  assumes alloc_law: "ok h \<Longrightarrow> fits h n \<Longrightarrow>
      \<exists>p h'. alloc h n = Inr (p, h') \<and> ok h' \<and> fits h' = fits h \<and> (p = 0 \<longrightarrow> h' = h)
        \<and> (p \<noteq> 0 \<longrightarrow> owned h p = None \<and> (\<exists>m \<ge> n. owned h' = (owned h)(p \<mapsto> m)))"
    and release_law: "ok h \<Longrightarrow> owned h p = Some n \<Longrightarrow>
      \<exists>h'. release h p = Inr h' \<and> ok h' \<and> fits h' = fits h \<and> owned h' = (owned h)(p := None)"
begin

lemma alloc_fresh:
  assumes "ok h" and "fits h n" and "alloc h n = Inr (p, h')" and "p \<noteq> 0"
  obtains m where "ok h'" and "fits h' = fits h" and "owned h p = None" and "m \<ge> n"
    and "owned h' = (owned h)(p \<mapsto> m)"
  using alloc_law [OF assms(1,2)] assms(3,4) by auto

lemma alloc_null: "ok h \<Longrightarrow> fits h n \<Longrightarrow> alloc h n = Inr (0, h') \<Longrightarrow> h' = h"
  using alloc_law [of h n] by auto

text \<open>The way every growing buffer of the kernel moves: allocate the new block, free the old.\<close>

lemma replace:
  assumes "ok h" and "fits h k" and "alloc h k = Inr (q, h1)" and "q \<noteq> 0" and "owned h p = Some n"
  shows "\<exists>h2 m. release h1 p = Inr h2 \<and> ok h2 \<and> fits h2 = fits h \<and> m \<ge> k \<and> q \<noteq> p
           \<and> owned h2 = (owned h)(p := None, q \<mapsto> m)"
proof -
  obtain m where m: "ok h1" "fits h1 = fits h" "owned h q = None" "m \<ge> k"
    "owned h1 = (owned h)(q \<mapsto> m)"
    using alloc_fresh [OF assms(1-4)] by blast
  then have pq: "q \<noteq> p" and "owned h1 p = Some n"
    using assms(5) by auto
  from release_law [OF m(1) this(2)] m pq show ?thesis
    by (auto simp: fun_upd_twist)
qed

text \<open>A buffer that is allocated and freed again leaves no trace in the allocations.\<close>

lemma scratch:
  assumes "ok h" and "fits h n" and "alloc h n = Inr (p, h1)" and "p \<noteq> 0"
  shows "\<exists>h2. release h1 p = Inr h2 \<and> ok h2 \<and> owned h2 = owned h"
proof -
  obtain m where m: "ok h1" "owned h p = None" "owned h1 = (owned h)(p \<mapsto> m)"
    using alloc_fresh [OF assms] by blast
  with release_law [OF m(1), of p m] show ?thesis
    by (auto simp: fun_upd_idem)
qed

end

lemma sane_size_cong: "heapEnd h' = heapEnd h \<Longrightarrow> sane_size h' = sane_size h"
  by (simp add: sane_size_def fun_eq_iff)

interpretation kh: block_allocator heap_inv live sane_size kalloc kfree
proof unfold_locales
  fix h n assume "heap_inv h" "sane_size h n"
  from kalloc_spec [OF this] show "\<exists>p h'. kalloc h n = Inr (p, h') \<and> heap_inv h' \<and>
      sane_size h' = sane_size h \<and> (p = 0 \<longrightarrow> h' = h) \<and>
      (p \<noteq> 0 \<longrightarrow> live h p = None \<and> (\<exists>m \<ge> n. live h' = (live h)(p \<mapsto> m)))"
    using sane_size_cong by metis
next
  fix h p n assume "heap_inv h" "live h p = Some n"
  from kfree_spec [OF this] show "\<exists>h'. kfree h p = Inr h' \<and> heap_inv h' \<and>
      sane_size h' = sane_size h \<and> live h' = (live h)(p := None)"
    using sane_size_cong by metis
qed

lemma free_walk_frees:
  assumes "chain a bs (unat (e :: u32))" and "live_blocks bs p = Some m" and "free_walk p bs = Inr bs'"
  shows "\<exists>b \<in> set bs'. \<not> hb_inUse b \<and> hb_size b = m"
  using assms
proof (induction bs arbitrary: a bs')
  case (Cons b bs)
  have ch: "chain (a + 9 + unat (hb_size b)) bs (unat e)"
    using Cons.prems(1) by auto
  show ?case
  proof (cases "p = hb_payload b")
    case True
    with Cons.prems chain_Cons_below(1) [OF Cons.prems(1)] show ?thesis
      by (auto simp: hb_payload_def split: if_splits)
  next
    case False
    with Cons.prems Cons.IH [OF ch] show ?thesis
      by (fastforce simp: hb_payload_def exec_simps split: if_splits)
  qed
qed simp

text \<open>When the allocator answers null: no free block is large enough and the tail is used up.\<close>

fun chain_end :: "hblock list \<Rightarrow> nat" where
  "chain_end [] = 0"
| "chain_end [b] = unat (hb_addr b) + 9 + unat (hb_size b)"
| "chain_end (b # bs) = chain_end bs"

lemma alloc_walk_null_iff:
  assumes "chain a bs (unat hend)" and "bs \<noteq> []" and "unat hend + 9 + unat n < 2 ^ 32"
  shows "(\<exists>bs'. alloc_walk hend n bs = Inr (0, bs')) \<longleftrightarrow>
     list_all (\<lambda>b. hb_inUse b \<or> hb_size b < n) bs \<and> unat hend < chain_end bs + 9 + unat n"
  using assms(1,2)
proof (induction bs arbitrary: a)
  case (Cons b bs)
  have nz: "hb_payload b \<noteq> 0"
    using chain_Cons_below(2) [OF Cons.prems(1)] by auto
  have ch: "unat (hb_addr b) = a" "chain (a + 9 + unat (hb_size b)) bs (unat hend)"
    using Cons.prems(1) by auto
  show ?case
  proof (cases "bs = []")
    case True
    define nxt where "nxt = hb_addr b + HEAPBLOCK_SIZE + hb_size b"
    have le: "a + 9 + unat (hb_size b) \<le> unat hend"
      using ch True by simp
    then have "unat nxt = a + 9 + unat (hb_size b)"
      using ch(1) assms(3) by (simp add: nxt_def HEAPBLOCK_SIZE_def unat_word_ariths)
    moreover from this have "unat (nxt + HEAPBLOCK_SIZE) = unat nxt + 9"
      and "unat (nxt + HEAPBLOCK_SIZE + n) = unat nxt + 9 + unat n"
      using le assms(3) by (simp_all add: HEAPBLOCK_SIZE_def unat_word_ariths)
    ultimately have "nxt + HEAPBLOCK_SIZE \<noteq> 0"
      and "nxt + HEAPBLOCK_SIZE + n > hend \<longleftrightarrow> unat hend < a + 9 + unat (hb_size b) + 9 + unat n"
      by (auto simp: word_less_nat_alt)
    with True nz ch(1) show ?thesis
      by (auto simp: Let_def not_le nxt_def [symmetric])
  next
    case False
    then have "chain_end (b # bs) = chain_end bs"
      by (cases bs) auto
    note ce = this and IH = Cons.IH [OF ch(2) False]
    show ?thesis
    proof (cases "\<not> hb_inUse b \<and> hb_size b \<ge> n")
      case True
      with nz show ?thesis by auto
    next
      case no: False
      then have "alloc_walk hend n (b # bs) = bindE (alloc_walk hend n bs) (\<lambda>(p, bs'). Inr (p, b # bs'))"
        using False by auto
      with IH ce no show ?thesis
        by (auto simp: exec_simps not_le simp del: alloc_walk.simps chain_end.simps)
    qed
  qed
qed simp

text \<open>
  How far the bytes behind a payload reach before the header of the next block, or the end of the heap
  when there is none: what a program can write there without touching another block.
\<close>

fun room_walk :: "nat \<Rightarrow> u32 \<Rightarrow> hblock list \<Rightarrow> nat" where
  "room_walk e q [] = 0"
| "room_walk e q (b # bs) =
     (if hb_payload b = q then (case bs of [] \<Rightarrow> e - unat q | c # _ \<Rightarrow> unat (hb_addr c) - unat q) else room_walk e q bs)"

definition heap_room :: "kheap \<Rightarrow> u32 \<Rightarrow> nat" where
  "heap_room h q = room_walk (unat (heapEnd h)) q (superBlock h)"

lemma room_walk_live:
  "chain a bs (unat (e :: u32)) \<Longrightarrow> live_blocks bs q = Some m \<Longrightarrow> unat m \<le> room_walk (unat e) q bs"
proof (induction bs arbitrary: a)
  case (Cons b bs)
  note b = chain_Cons_below [OF Cons.prems(1)]
  show ?case
  proof (cases "hb_payload b = q")
    case True
    then have "m = hb_size b"
      using Cons.prems(2) b(1) by (auto split: if_splits)
    then show ?thesis
      using Cons.prems(1) b(2) True by (cases bs) auto
  next
    case False
    then show ?thesis
      using Cons by (auto split: if_splits)
  qed
qed simp

lemma kalloc_room:
  assumes "heap_inv h" and "sane_size h n" and "kalloc h n = Inr (q, h')" and "q \<noteq> 0"
  shows "unat n \<le> heap_room h' q"
proof -
  obtain m where m: "heap_inv h'" "n \<le> m" "live h' = (live h)(q \<mapsto> m)"
    using kh.alloc_fresh [OF assms] by blast
  obtain a where "chain a (superBlock h') (unat (heapEnd h'))"
    using m(1) by (auto simp: heap_inv_def split: list.splits)
  from room_walk_live [OF this, of q m] m(2,3) show ?thesis
    by (simp add: heap_room_def live_def word_le_nat_alt)
qed

section \<open>Properties\<close>

text \<open>
  C3: in a well-formed heap, and for a request so small that heap end, header and request together stay
  below \<open>2 ^ 32\<close> (the condition under which the bounds test of the code cannot wrap around),
  \<^verbatim>\<open>KernelAllocator::alloc\<close> answers and keeps the heap well formed. The null pointer leaves
  the heap as it was; any other pointer is a new allocation of at least the size asked for, inside the
  heap and apart from every other live allocation, all of which stay in place.
\<close>

theorem alloc_returns_fresh_block:
  assumes "heap_inv h" and "sane_size h n"
  shows "\<exists>p h'. kalloc h n = Inr (p, h') \<and> heap_inv h' \<and> (p = 0 \<longrightarrow> h' = h) \<and>
     (p \<noteq> 0 \<longrightarrow> (\<exists>m \<ge> n. live h' = (live h)(p \<mapsto> m)
       \<and> unat p + unat m \<le> unat (heapEnd h)
       \<and> (\<forall>q k. live h q = Some k \<longrightarrow> unat p + unat m < unat q \<or> unat q + unat k < unat p)))"
proof -
  from kh.alloc_law [OF assms] obtain p h' where r: "kalloc h n = Inr (p, h')" "heap_inv h'" "p = 0 \<longrightarrow> h' = h"
    by blast
  have e: "heapEnd h' = heapEnd h"
    using kalloc_spec [OF assms] r(1) by auto
  from r(2) obtain a where ch: "chain a (superBlock h') (unat (heapEnd h'))"
    by (auto simp: heap_inv_def split: list.splits)
  have "\<exists>m \<ge> n. live h' = (live h)(p \<mapsto> m) \<and> unat p + unat m \<le> unat (heapEnd h)
      \<and> (\<forall>q k. live h q = Some k \<longrightarrow> unat p + unat m < unat q \<or> unat q + unat k < unat p)" if nn: "p \<noteq> 0"
  proof -
    obtain m where m: "live h p = None" "m \<ge> n" "live h' = (live h)(p \<mapsto> m)"
      using kh.alloc_fresh [OF assms r(1) nn] by blast
    have p: "live_blocks (superBlock h') p = Some m"
      using m(3) by (simp add: live_def)
    have "unat p + unat m < unat q \<or> unat q + unat k < unat p" if "live h q = Some k" for q k
      using live_blocks_disjoint [OF ch p, of q k] that m(1,3) by (cases "p = q") (auto simp: live_def)
    with m live_blocks_range [OF ch p] e show ?thesis
      by auto
  qed
  with r show ?thesis
    by blast
qed

theorem alloc_returns_fresh_block_witness:
  "\<exists>h'. kalloc (heap_init 0x100000 0x200000) 16 = Inr (0x100012, h') \<and> heap_inv h' \<and>
     (\<exists>m \<ge> 16. live h' 0x100012 = Some m)"
proof -
  let ?h = "heap_init 0x100000 0x200000"
  obtain h0 where h0: "kalloc ?h 16 = Inr (0x100012, h0)"
    by (simp add: kalloc_def heap_init_def HEAPBLOCK_SIZE_def)
  have "heap_inv ?h" "sane_size ?h 16"
    using heap_init_inv [of "0x100000" "0x200000"] by (simp_all add: sane_size_def heap_init_def)
  from alloc_returns_fresh_block [OF this] h0 show ?thesis
    by auto
qed

lemma kalloc_null_iff:
  assumes "heap_inv h" and "sane_size h n"
  shows "(\<exists>h'. kalloc h n = Inr (0, h')) \<longleftrightarrow>
     list_all (\<lambda>b. hb_inUse b \<or> hb_size b < n) (superBlock h)
     \<and> unat (heapEnd h) < chain_end (superBlock h) + 9 + unat n"
proof -
  from assms(1) obtain a where "chain a (superBlock h) (unat (heapEnd h))" "superBlock h \<noteq> []"
    by (auto simp: heap_inv_def split: list.splits)
  from alloc_walk_null_iff [OF this assms(2) [unfolded sane_size_def]] show ?thesis
    by (auto simp: kalloc_def exec_simps)
qed

text \<open>
  \<^verbatim>\<open>KernelAllocator::alloc\<close> gives up (returns null) exactly when every block is in use or
  too small and the space behind the last block cannot hold another header and the request: first
  fit misses nothing.
\<close>

theorem alloc_null_iff_full:
  assumes "heap_inv h" and "sane_size h n"
  shows "(\<exists>h'. kalloc h n = Inr (0, h')) \<longleftrightarrow>
     list_all (\<lambda>b. hb_inUse b \<or> hb_size b < n) (superBlock h)
     \<and> unat (heapEnd h) < chain_end (superBlock h) + 9 + unat n"
  using assms by (rule kalloc_null_iff)

theorem alloc_null_iff_full_witness:
  "(\<exists>h'. kalloc (heap_init 0x100000 0x100020) 16 = Inr (0, h'))
   \<and> \<not> (\<exists>h'. kalloc (heap_init 0x100000 0x100030) 16 = Inr (0, h'))"
proof -
  let ?h1 = "heap_init 0x100000 0x100020" and ?h2 = "heap_init 0x100000 0x100030"
  have 1: "heap_inv ?h1" "sane_size ?h1 16" and 2: "heap_inv ?h2" "sane_size ?h2 16"
    by (simp_all add: heap_init_inv sane_size_def) (simp_all add: heap_init_def)
  show ?thesis
    unfolding alloc_null_iff_full [OF 1] alloc_null_iff_full [OF 2]
    by (simp add: heap_init_def)
qed

text \<open>C36: \<^verbatim>\<open>KernelAllocator::free\<close> of a live allocation removes that allocation and no other,
  and afterwards every request up to the size of the freed block, and so small that the bounds test cannot
  wrap around, can be served.
\<close>

theorem free_makes_room:
  assumes "heap_inv h" and "live h p = Some m"
  shows "\<exists>h'. kfree h p = Inr h' \<and> heap_inv h' \<and> live h' = (live h)(p := None)
     \<and> (\<forall>n \<le> m. sane_size h n \<longrightarrow> (\<exists>q h''. kalloc h' n = Inr (q, h'') \<and> q \<noteq> 0))"
proof -
  from kh.release_law [OF assms] obtain h' where h': "kfree h p = Inr h'" "heap_inv h'"
    "sane_size h' = sane_size h" "live h' = (live h)(p := None)"
    by blast
  from assms(1) obtain a where ch: "chain a (superBlock h) (unat (heapEnd h))"
    by (auto simp: heap_inv_def split: list.splits)
  from h'(1) have "free_walk p (superBlock h) = Inr (superBlock h')"
    by (auto simp: kfree_def)
  from free_walk_frees [OF ch assms(2) [unfolded live_def] this]
  have "\<exists>b \<in> set (superBlock h'). \<not> hb_inUse b \<and> hb_size b = m" .
  then have "\<exists>q h''. kalloc h' n = Inr (q, h'') \<and> q \<noteq> 0" if "n \<le> m" "sane_size h n" for n
    using kalloc_null_iff [OF h'(2), of n] kh.alloc_law [OF h'(2), of n] h'(3) that
    by (fastforce simp: list_all_iff not_less)
  with h' show ?thesis by blast
qed

theorem free_makes_room_witness:
  "\<exists>h1 h2 q h3. kalloc (heap_init 0x100000 0x100030) 24 = Inr (0x100012, h1)
      \<and> kfree h1 0x100012 = Inr h2 \<and> kalloc h2 16 = Inr (q, h3) \<and> q \<noteq> 0"
proof -
  let ?h = "heap_init 0x100000 0x100030"
  let ?h1 = "\<lparr>superBlock = [\<lparr>hb_addr = 0x100000, hb_size = 0, hb_inUse = True\<rparr>,
       \<lparr>hb_addr = 0x100009, hb_size = 24, hb_inUse = True\<rparr>], heapEnd = 0x100030\<rparr>"
  have a: "kalloc ?h 24 = Inr (0x100012, ?h1)"
    by (simp add: kalloc_def heap_init_def HEAPBLOCK_SIZE_def)
  have h1: "heap_inv ?h1" and l: "live ?h1 0x100012 = Some 24" and s: "sane_size ?h1 16"
    by (simp_all add: heap_inv_def live_def hb_payload_def HEAPBLOCK_SIZE_def sane_size_def)
  have le: "16 \<le> (24 :: u32)"
    by simp
  from free_makes_room [OF h1 l] s le show ?thesis
    using a by blast
qed

text \<open>
  The bounds test of \<^verbatim>\<open>KernelAllocator::alloc\<close> adds before it compares, so a request
  near \<open>2 ^ 32\<close> wraps around it: on a fresh one-megabyte heap a request of 4294967040 bytes
  succeeds, and the block it hands out runs past the end of the heap.
\<close>

theorem alloc_bounds_test_wraps:
  "\<exists>h'. heap_inv (heap_init 0x100000 0x200000)
      \<and> kalloc (heap_init 0x100000 0x200000) 0xFFFFFF00 = Inr (0x100012, h')
      \<and> live h' 0x100012 = Some 0xFFFFFF00 \<and> \<not> heap_inv h'"
proof -
  let ?h' = "\<lparr>superBlock = [\<lparr>hb_addr = 0x100000, hb_size = 0, hb_inUse = True\<rparr>,
       \<lparr>hb_addr = 0x100009, hb_size = 0xFFFFFF00, hb_inUse = True\<rparr>], heapEnd = 0x200000\<rparr>"
  have "kalloc (heap_init 0x100000 0x200000) 0xFFFFFF00 = Inr (0x100012, ?h')"
    by (simp add: kalloc_def heap_init_def HEAPBLOCK_SIZE_def)
  moreover have "live ?h' 0x100012 = Some 0xFFFFFF00"
    by (simp add: live_def hb_payload_def HEAPBLOCK_SIZE_def)
  moreover have "\<not> heap_inv ?h'"
    by (simp add: heap_inv_def)
  moreover have "heap_inv (heap_init 0x100000 0x200000)"
    by (rule heap_init_inv) simp_all
  ultimately show ?thesis
    by blast
qed

end
