(* ===== verification/CString.thy ===== *)
theory CString
  imports Prelude
begin

text \<open>
  The character and C-string helpers of \<^verbatim>\<open>src/gen/alpha.hpp\<close>,
  \<^verbatim>\<open>src/lib/cstring.hpp\<close> and \<^verbatim>\<open>src/mem/utils.hpp\<close>. A \<^verbatim>\<open>const char*\<close> is
  the list of the bytes from the pointer to the end of the object it points into, so \<open>p + 1\<close> is
  the tail; reading past the end of the object is the fault \<open>OutOfBounds\<close>. A \<^verbatim>\<open>char*\<close>
  that is written through is such a list too, and the operation returns its new contents.
  \<^verbatim>\<open>char\<close> is signed on this target, so its comparisons read the byte with \<open>sint\<close>.
\<close>

type_synonym i32 = "32 word"

definition cstr :: "u8 list \<Rightarrow> u8 list" where
  "cstr s = takeWhile (\<lambda>c. c \<noteq> 0) s"

abbreviation terminated :: "u8 list \<Rightarrow> bool" where
  "terminated s \<equiv> 0 \<in> set s"

named_theorems cstr_specs "what each string operation computes on terminated strings"

section \<open>Characters\<close>

definition toUpper :: "u8 \<Rightarrow> u8" where
  "toUpper c = (if sint c \<ge> 97 \<and> sint c \<le> 122 then c - 97 + 65 else c)"

definition toLower :: "u8 \<Rightarrow> u8" where
  "toLower c = (if sint c \<ge> 65 \<and> sint c \<le> 90 then c - 65 + 97 else c)"

definition isalpha :: "u8 \<Rightarrow> bool" where
  "isalpha c = (sint c \<ge> 97 \<and> sint c \<le> 122 \<or> sint c \<ge> 65 \<and> sint c \<le> 90)"

definition isLower :: "u8 \<Rightarrow> bool" where
  "isLower c = (sint c \<ge> 97 \<and> sint c \<le> 122)"

definition isdigit :: "u8 \<Rightarrow> bool" where
  "isdigit c = (sint c \<ge> 48 \<and> sint c \<le> 57)"

fun strToUpper :: "u8 list \<Rightarrow> u8 list exec" where
  "strToUpper [] = Inl OutOfBounds"
| "strToUpper (c # s) =
     (if c \<noteq> 0 then bindE (strToUpper s) (\<lambda>s'. Inr (toUpper c # s')) else Inr (c # s))"

section \<open>Numbers\<close>

fun strIsDigit_loop :: "u8 list \<Rightarrow> bool exec" where
  "strIsDigit_loop [] = Inl OutOfBounds"
| "strIsDigit_loop (c # s) =
     (if c \<noteq> 0 then (if \<not> isdigit c then Inr False else strIsDigit_loop s) else Inr True)"

fun strIsDigit :: "u8 list \<Rightarrow> bool exec" where
  "strIsDigit [] = Inl OutOfBounds"
| "strIsDigit (c # s) = (if c = 0 then Inr False else strIsDigit_loop (c # s))"

text \<open>
  \<^verbatim>\<open>stoi\<close>: the accumulator is an \<^verbatim>\<open>i32\<close>, whose arithmetic wraps around on this target.
\<close>

fun stoi_loop :: "i32 \<Rightarrow> u8 list \<Rightarrow> i32 option exec" where
  "stoi_loop result [] = Inl OutOfBounds"
| "stoi_loop result (c # s) =
     (if c \<noteq> 0 then
        (if \<not> isdigit c then Inr None
         else stoi_loop (result * 10 + (scast c - 48)) s)
      else Inr (Some result))"

fun stoi :: "u8 list \<Rightarrow> i32 exec" where
  "stoi [] = Inl OutOfBounds"
| "stoi (c # s) =
     (let negative = (c = 45); str = (if negative then s else c # s) in
      bindE (stoi_loop 0 str) (\<lambda>r. case r of
          None \<Rightarrow> Inr 0
        | Some result \<Rightarrow> Inr (if negative then - result else result)))"

fun strIsNumber_loop :: "u8 list \<Rightarrow> bool exec" where
  "strIsNumber_loop [] = Inl OutOfBounds"
| "strIsNumber_loop (c # s) =
     (if c \<noteq> 0 then (if sint c < 48 \<or> sint c > 57 then Inr False else strIsNumber_loop s)
      else Inr True)"

fun strIsNumber :: "u8 list \<Rightarrow> bool exec" where
  "strIsNumber [] = Inl OutOfBounds"
| "strIsNumber (c # s) =
     (if c = 0 then Inr False
      else (let str = (if c = 45 \<or> c = 43 then s else c # s) in
        case str of [] \<Rightarrow> Inl OutOfBounds
        | d # _ \<Rightarrow> if d = 0 then Inr False else strIsNumber_loop str))"

section \<open>Lengths and searches\<close>

fun strlen_loop :: "u32 \<Rightarrow> u8 list \<Rightarrow> u32 exec" where
  "strlen_loop i [] = Inl OutOfBounds"
| "strlen_loop i (c # s) = (let i' = i + 1 in if c \<noteq> 0 then strlen_loop i' s else Inr (i' - 1))"

definition strlen :: "u8 list \<Rightarrow> u32 exec" where
  "strlen s = strlen_loop 0 s"

fun strlenSpecChar_loop :: "u32 \<Rightarrow> u8 list \<Rightarrow> u8 \<Rightarrow> u32 exec" where
  "strlenSpecChar_loop len [] target = Inl OutOfBounds"
| "strlenSpecChar_loop len (c # s) target =
     (if c \<noteq> 0 \<and> c \<noteq> target then strlenSpecChar_loop (len + 1) s target else Inr len)"

definition strlenSpecChar :: "u8 list \<Rightarrow> u8 \<Rightarrow> u32 exec" where
  "strlenSpecChar str target = strlenSpecChar_loop 0 str target"

text \<open>\<^verbatim>\<open>findChar\<close> answers 0 both for a match at position 0 and for no match.\<close>

fun findChar_loop :: "u32 \<Rightarrow> u8 list \<Rightarrow> u8 \<Rightarrow> u32 exec" where
  "findChar_loop i [] target = Inl OutOfBounds"
| "findChar_loop i (c # s) target =
     (if c \<noteq> 0 then (if c = target then Inr i else findChar_loop (i + 1) s target) else Inr 0)"

definition findChar :: "u8 list \<Rightarrow> u8 \<Rightarrow> u32 exec" where
  "findChar str target = findChar_loop 0 str target"

fun countOccurence_loop :: "u32 \<Rightarrow> u8 list \<Rightarrow> u8 \<Rightarrow> u32 exec" where
  "countOccurence_loop count [] c = Inl OutOfBounds"
| "countOccurence_loop count (x # s) c =
     (if x \<noteq> 0 then countOccurence_loop (if x = c then count + 1 else count) s c else Inr count)"

definition countOccurence :: "u8 list \<Rightarrow> u8 \<Rightarrow> u32 exec" where
  "countOccurence s c = countOccurence_loop 0 s c"

section \<open>Comparisons\<close>

fun strcmp :: "u8 list \<Rightarrow> u8 list \<Rightarrow> int exec" where
  "strcmp (x # a) (y # b) = (if x \<noteq> 0 \<and> x = y then strcmp a b else Inr (uint x - uint y))"
| "strcmp _ _ = Inl OutOfBounds"

definition streq :: "u8 list \<Rightarrow> u8 list \<Rightarrow> bool exec" where
  "streq a b = bindE (strcmp a b) (\<lambda>r. Inr (r = 0))"

fun streqi :: "u8 list \<Rightarrow> u8 list \<Rightarrow> bool exec" where
  "streqi (x # a) (y # b) =
     (if x \<noteq> 0 \<and> y \<noteq> 0 then (if toUpper x \<noteq> toUpper y then Inr False else streqi a b)
      else Inr (x = y))"
| "streqi _ _ = Inl OutOfBounds"

fun strBeginsWith :: "u8 list \<Rightarrow> u8 list \<Rightarrow> bool exec" where
  "strBeginsWith str [] = Inl OutOfBounds"
| "strBeginsWith str (p # prefix) =
     (if p = 0 then Inr True
      else (case str of [] \<Rightarrow> Inl OutOfBounds
        | c # s \<Rightarrow> if c \<noteq> p then Inr False else strBeginsWith s prefix))"

fun memcmp_loop :: "u8 list \<Rightarrow> u8 list \<Rightarrow> nat \<Rightarrow> int exec" where
  "memcmp_loop a b 0 = Inr 0"
| "memcmp_loop (x # a) (y # b) (Suc n) =
     (if x \<noteq> y then Inr (uint x - uint y) else memcmp_loop a b n)"
| "memcmp_loop _ _ (Suc n) = Inl OutOfBounds"

definition memcmp :: "u8 list \<Rightarrow> u8 list \<Rightarrow> u32 \<Rightarrow> int exec" where
  "memcmp a b n = memcmp_loop a b (unat n)"

section \<open>Copies\<close>

fun strcpy :: "u8 list \<Rightarrow> u8 list \<Rightarrow> u8 list exec" where
  "strcpy dest [] = Inl OutOfBounds"
| "strcpy [] (c # src) = Inl OutOfBounds"
| "strcpy (d # dest) (c # src) =
     (if c \<noteq> 0 then bindE (strcpy dest src) (\<lambda>r. Inr (c # r)) else Inr (0 # dest))"

fun strcpyLen_loop :: "u8 list \<Rightarrow> u8 list \<Rightarrow> nat \<Rightarrow> u8 list exec" where
  "strcpyLen_loop [] src 0 = Inl OutOfBounds"
| "strcpyLen_loop (d # dest) src 0 = Inr (0 # dest)"
| "strcpyLen_loop (d # dest) (c # src) (Suc n) =
     bindE (strcpyLen_loop dest src n) (\<lambda>r. Inr (c # r))"
| "strcpyLen_loop _ _ (Suc n) = Inl OutOfBounds"

definition strcpyLen :: "u8 list \<Rightarrow> u8 list \<Rightarrow> u32 \<Rightarrow> u8 list exec" where
  "strcpyLen dest src len = strcpyLen_loop dest src (unat len)"

text \<open>The second loop of \<^verbatim>\<open>strcat\<close> copies the terminator with the characters.\<close>

fun strcat_copy :: "u8 list \<Rightarrow> u8 list \<Rightarrow> u8 list exec" where
  "strcat_copy (d # dest) (c # src) =
     (if c \<noteq> 0 then bindE (strcat_copy dest src) (\<lambda>r. Inr (c # r)) else Inr (c # dest))"
| "strcat_copy _ _ = Inl OutOfBounds"

fun strcat :: "u8 list \<Rightarrow> u8 list \<Rightarrow> u8 list exec" where
  "strcat [] src = Inl OutOfBounds"
| "strcat (d # dest) src =
     (if d \<noteq> 0 then bindE (strcat dest src) (\<lambda>r. Inr (d # r)) else strcat_copy (d # dest) src)"

fun stradd_copy :: "u8 list \<Rightarrow> u8 list \<Rightarrow> u8 list exec" where
  "stradd_copy dest [] = Inl OutOfBounds"
| "stradd_copy [] (c # src) = Inl OutOfBounds"
| "stradd_copy (d # dest) (c # src) =
     (if c \<noteq> 0 then bindE (stradd_copy dest src) (\<lambda>r. Inr (c # r)) else Inr (0 # dest))"

fun stradd :: "u8 list \<Rightarrow> u8 list \<Rightarrow> u8 list exec" where
  "stradd [] src = Inl OutOfBounds"
| "stradd (d # dest) src =
     (if d \<noteq> 0 then bindE (stradd dest src) (\<lambda>r. Inr (d # r)) else stradd_copy (d # dest) src)"

fun memcpy_loop :: "u8 list \<Rightarrow> u8 list \<Rightarrow> nat \<Rightarrow> u8 list exec" where
  "memcpy_loop d s 0 = Inr d"
| "memcpy_loop (x # d) (y # s) (Suc n) = bindE (memcpy_loop d s n) (\<lambda>r. Inr (y # r))"
| "memcpy_loop _ _ (Suc n) = Inl OutOfBounds"

definition memcpy :: "u8 list \<Rightarrow> u8 list \<Rightarrow> u32 \<Rightarrow> u8 list exec" where
  "memcpy dest src n = memcpy_loop dest src (unat n)"

text \<open>\<^verbatim>\<open>memset\<close> counts a signed length down to zero; a negative length writes nothing.\<close>

fun memset_loop :: "u8 list \<Rightarrow> u8 \<Rightarrow> nat \<Rightarrow> u8 list exec" where
  "memset_loop b c 0 = Inr b"
| "memset_loop (x # b) c (Suc n) = bindE (memset_loop b c n) (\<lambda>r. Inr (c # r))"
| "memset_loop [] c (Suc n) = Inl OutOfBounds"

definition memset :: "u8 list \<Rightarrow> i32 \<Rightarrow> i32 \<Rightarrow> u8 list exec" where
  "memset b c len = memset_loop b (ucast c) (nat (sint len))"

section \<open>What the operations compute\<close>

lemma cstr_Nil [simp]: "cstr [] = []"
  by (simp add: cstr_def)

lemma cstr_Cons [simp]: "cstr (c # s) = (if c = 0 then [] else c # cstr s)"
  by (simp add: cstr_def)

lemma nul_notin_cstr [simp]: "0 \<notin> set (cstr s)"
  by (induction s) auto

lemma cstr_append_nul: "0 \<notin> set s \<Longrightarrow> cstr (s @ 0 # t) = s"
  by (induction s) auto

lemma cstr_length_le: "length (cstr s) \<le> length s"
  by (simp add: cstr_def length_takeWhile_le)

lemma cstr_length_less: "terminated s \<Longrightarrow> length (cstr s) < length s"
  by (induction s) auto

lemma terminated_split: "terminated s \<Longrightarrow> \<exists>t. s = cstr s @ 0 # t"
  by (induction s) auto

lemma strlen_loop_eq:
  "strlen_loop i s = (if terminated s then Inr (i + word_of_nat (length (cstr s))) else Inl OutOfBounds)"
  by (induction i s rule: strlen_loop.induct) (auto simp: Let_def add.assoc)

lemma strlen_eq [cstr_specs]:
  "strlen s = (if terminated s then Inr (word_of_nat (length (cstr s))) else Inl OutOfBounds)"
  by (simp add: strlen_def strlen_loop_eq)

lemma strlenSpecChar_loop_eq:
  "terminated s \<Longrightarrow> strlenSpecChar_loop i s t =
     Inr (i + word_of_nat (length (takeWhile (\<lambda>c. c \<noteq> t) (cstr s))))"
  by (induction i s t rule: strlenSpecChar_loop.induct) (auto simp: add.assoc)

lemma strlenSpecChar_eq [cstr_specs]:
  "terminated s \<Longrightarrow>
    strlenSpecChar s t = Inr (word_of_nat (length (takeWhile (\<lambda>c. c \<noteq> t) (cstr s))))"
  by (simp add: strlenSpecChar_def strlenSpecChar_loop_eq)

lemma findChar_loop_eq:
  "terminated s \<Longrightarrow> findChar_loop i s t =
     Inr (if t \<in> set (cstr s) then i + word_of_nat (length (takeWhile (\<lambda>c. c \<noteq> t) (cstr s))) else 0)"
  by (induction i s t rule: findChar_loop.induct) (auto simp: add.assoc)

lemma findChar_eq [cstr_specs]:
  "terminated s \<Longrightarrow> findChar s t =
     Inr (if t \<in> set (cstr s) then word_of_nat (length (takeWhile (\<lambda>c. c \<noteq> t) (cstr s))) else 0)"
  by (simp add: findChar_def findChar_loop_eq)

lemma countOccurence_loop_eq:
  "terminated s \<Longrightarrow> countOccurence_loop n s c = Inr (n + word_of_nat (count_list (cstr s) c))"
  by (induction n s c rule: countOccurence_loop.induct) (auto simp: add.assoc)

lemma countOccurence_eq [cstr_specs]:
  "terminated s \<Longrightarrow> countOccurence s c = Inr (word_of_nat (count_list (cstr s) c))"
  by (simp add: countOccurence_def countOccurence_loop_eq)

lemma strcmp_zero_iff:
  "terminated a \<Longrightarrow> terminated b \<Longrightarrow> \<exists>r. strcmp a b = Inr r \<and> (r = 0 \<longleftrightarrow> cstr a = cstr b)"
  by (induction a b rule: strcmp.induct)
    (auto split: if_splits dest: unsigned_word_eqI simp: unsigned_eq_0_iff)

lemma streq_eq [cstr_specs]:
  "terminated a \<Longrightarrow> terminated b \<Longrightarrow> streq a b = Inr (cstr a = cstr b)"
  using strcmp_zero_iff [of a b] by (auto simp: streq_def)

lemma streqi_eq [cstr_specs]:
  "terminated a \<Longrightarrow> terminated b \<Longrightarrow>
    streqi a b = Inr (List.map toUpper (cstr a) = List.map toUpper (cstr b))"
  by (induction a b rule: streqi.induct) auto

lemma strcpy_eq [cstr_specs]:
  "terminated src \<Longrightarrow> length (cstr src) < length dest \<Longrightarrow>
    strcpy dest src = Inr (cstr src @ 0 # drop (Suc (length (cstr src))) dest)"
  by (induction dest src rule: strcpy.induct) auto

lemma strcpy_overflow:
  "terminated src \<Longrightarrow> length dest \<le> length (cstr src) \<Longrightarrow> strcpy dest src = Inl OutOfBounds"
  by (induction dest src rule: strcpy.induct) auto

lemma strcpyLen_loop_eq:
  "n \<le> length src \<Longrightarrow> n < length dest \<Longrightarrow>
    strcpyLen_loop dest src n = Inr (take n src @ 0 # drop (Suc n) dest)"
  by (induction dest src n rule: strcpyLen_loop.induct) auto

lemma strcpyLen_loop_short:
  "length dest \<le> n \<Longrightarrow> strcpyLen_loop dest src n = Inl OutOfBounds"
  by (induction dest src n rule: strcpyLen_loop.induct) auto

lemma stradd_copy_strcpy: "stradd_copy dest src = strcpy dest src"
  by (induction dest src rule: stradd_copy.induct) auto

lemma strcat_copy_strcpy: "strcat_copy dest src = strcpy dest src"
proof (induction src arbitrary: dest)
  case Nil
  then show ?case by (cases dest) auto
next
  case (Cons c src)
  then show ?case by (cases dest) auto
qed

lemma strcat_stradd: "strcat dest src = stradd dest src"
  by (induction dest) (auto simp: strcat_copy_strcpy stradd_copy_strcpy)

lemma strcat_eq [cstr_specs]:
  "terminated dest \<Longrightarrow> terminated src \<Longrightarrow> length (cstr dest) + length (cstr src) < length dest \<Longrightarrow>
    strcat dest src = Inr (cstr dest @ cstr src @
      0 # drop (Suc (length (cstr dest) + length (cstr src))) dest)"
  by (induction dest) (auto simp: strcat_copy_strcpy strcpy_eq)

lemma strToUpper_eq [cstr_specs]:
  "terminated s \<Longrightarrow> strToUpper s = Inr (List.map toUpper (cstr s) @ drop (length (cstr s)) s)"
  by (induction s) auto

lemma strBeginsWith_eq [cstr_specs]:
  "terminated p \<Longrightarrow> terminated s \<Longrightarrow>
    strBeginsWith s p = Inr (take (length (cstr p)) (cstr s) = cstr p)"
  by (induction s p rule: strBeginsWith.induct) (auto split: list.splits)

lemma memcmp_loop_zero_iff:
  "n \<le> length a \<Longrightarrow> n \<le> length b \<Longrightarrow>
    \<exists>r. memcmp_loop a b n = Inr r \<and> (r = 0 \<longleftrightarrow> take n a = take n b)"
  by (induction a b n rule: memcmp_loop.induct) (auto dest: unsigned_word_eqI)

lemma memcpy_loop_eq:
  "n \<le> length src \<Longrightarrow> n \<le> length dest \<Longrightarrow>
    memcpy_loop dest src n = Inr (take n src @ drop n dest)"
  by (induction dest src n rule: memcpy_loop.induct) auto

lemma memset_loop_eq:
  "n \<le> length b \<Longrightarrow> memset_loop b c n = Inr (replicate n c @ drop n b)"
  by (induction b c n rule: memset_loop.induct) auto

end
