(* ===== verification/StringView.thy ===== *)
theory StringView
  imports CString
begin

text \<open>
  \<^verbatim>\<open>StringView\<close> of \<^verbatim>\<open>src/lib/sv.hpp\<close>: a pointer and a length, without a copy. The
  pointer is the list of the bytes from it to the end of the object it points into.
\<close>

record sview =
  sv_raw :: "u8 list"
  sv_len :: u32

abbreviation sv :: "u8 list \<Rightarrow> u32 \<Rightarrow> sview" where
  "sv r n \<equiv> \<lparr>sv_raw = r, sv_len = n\<rparr>"

definition sv_of_cstr :: "u8 list \<Rightarrow> sview exec" where
  "sv_of_cstr src = bindE (strlen src) (\<lambda>n. Inr (sv src n))"

text \<open>\<^verbatim>\<open>toCStr\<close> copies into a zeroed heap buffer of \<open>len + 1\<close> bytes.\<close>

definition sv_toCStr :: "sview \<Rightarrow> u8 list exec" where
  "sv_toCStr s = memcpy_loop (replicate (unat (sv_len s + 1)) 0) (sv_raw s) (unat (sv_len s))"

text \<open>The comparison loop the view operations share: stop at the first difference.\<close>

fun sv_cmp :: "u8 list \<Rightarrow> u8 list \<Rightarrow> nat \<Rightarrow> bool exec" where
  "sv_cmp a b 0 = Inr True"
| "sv_cmp (x # a) (y # b) (Suc n) = (if x \<noteq> y then Inr False else sv_cmp a b n)"
| "sv_cmp _ _ (Suc n) = Inl OutOfBounds"

definition sv_startsWith :: "sview \<Rightarrow> sview \<Rightarrow> bool exec" where
  "sv_startsWith s p =
     (if sv_len p > sv_len s then Inr False
      else sv_cmp (sv_raw p) (sv_raw s) (unat (sv_len p)))"

definition sv_eq :: "sview \<Rightarrow> sview \<Rightarrow> bool exec" where
  "sv_eq s t =
     (if sv_len s \<noteq> sv_len t then Inr False
      else sv_cmp (sv_raw s) (sv_raw t) (unat (sv_len s)))"

definition sv_endsWith :: "sview \<Rightarrow> sview \<Rightarrow> bool exec" where
  "sv_endsWith s suffix =
     (if sv_len suffix > sv_len s then Inr False
      else (let start = sv_len s - sv_len suffix in
        sv_cmp (drop (unat start) (sv_raw s)) (sv_raw suffix) (unat (sv_len suffix))))"

definition sv_offsl :: "sview \<Rightarrow> u32 \<Rightarrow> sview" where
  "sv_offsl s am = s\<lparr>sv_len := sv_len s - am\<rparr>"

definition sv_offsr :: "sview \<Rightarrow> u32 \<Rightarrow> sview" where
  "sv_offsr s am = s\<lparr>sv_len := sv_len s + am\<rparr>"

definition sv_skipr :: "sview \<Rightarrow> u32 \<Rightarrow> sview" where
  "sv_skipr s am = s\<lparr>sv_raw := drop (unat am) (sv_raw s)\<rparr>"

section \<open>Views inside their object\<close>

definition sv_valid :: "sview \<Rightarrow> bool" where
  "sv_valid s \<longleftrightarrow> unat (sv_len s) \<le> length (sv_raw s) \<and> unat (sv_len s) + 1 < 2 ^ 32"

definition sv_bytes :: "sview \<Rightarrow> u8 list" where
  "sv_bytes s = take (unat (sv_len s)) (sv_raw s)"

lemma sv_cmp_eq:
  "n \<le> length a \<Longrightarrow> n \<le> length b \<Longrightarrow> sv_cmp a b n = Inr (take n a = take n b)"
  by (induction a b n rule: sv_cmp.induct) auto

lemma length_sv_bytes: "sv_valid s \<Longrightarrow> length (sv_bytes s) = unat (sv_len s)"
  by (simp add: sv_valid_def sv_bytes_def)

lemma sv_eq_spec:
  assumes "sv_valid s" and "sv_valid t"
  shows "sv_eq s t = Inr (sv_bytes s = sv_bytes t)"
proof (cases "sv_len s = sv_len t")
  case True
  with assms show ?thesis
    by (simp add: sv_eq_def sv_cmp_eq sv_valid_def sv_bytes_def)
next
  case False
  then have "length (sv_bytes s) \<noteq> length (sv_bytes t)"
    using assms by (simp add: length_sv_bytes word_unat_eq_iff)
  then have "sv_bytes s \<noteq> sv_bytes t"
    by metis
  with False show ?thesis
    by (simp add: sv_eq_def)
qed

lemma sv_startsWith_spec:
  "sv_valid s \<Longrightarrow> sv_valid p \<Longrightarrow>
     sv_startsWith s p = Inr (take (length (sv_bytes p)) (sv_bytes s) = sv_bytes p)"
  using length_sv_bytes [of s] length_sv_bytes [of p]
  by (auto simp: sv_startsWith_def sv_cmp_eq sv_valid_def sv_bytes_def word_less_nat_alt min_def
      not_less dest: arg_cong [where f = length])

lemma sv_endsWith_spec:
  assumes "sv_valid s" and "sv_valid t"
  shows "sv_endsWith s t =
     Inr (length (sv_bytes t) \<le> length (sv_bytes s) \<and>
          drop (length (sv_bytes s) - length (sv_bytes t)) (sv_bytes s) = sv_bytes t)"
proof (cases "sv_len t > sv_len s")
  case True
  then show ?thesis
    using length_sv_bytes [OF assms(1)] length_sv_bytes [OF assms(2)]
    by (simp add: sv_endsWith_def word_less_nat_alt)
next
  case False
  then have le: "unat (sv_len t) \<le> unat (sv_len s)"
    by (simp add: word_less_nat_alt)
  then have "unat (sv_len s - sv_len t) = unat (sv_len s) - unat (sv_len t)"
    by (simp add: unat_sub word_le_nat_alt)
  moreover from assms le have "unat (sv_len t) \<le> length (drop (unat (sv_len s) - unat (sv_len t)) (sv_raw s))"
    and "unat (sv_len t) \<le> length (sv_raw t)"
    by (auto simp: sv_valid_def)
  note sv_cmp_eq [OF this]
  ultimately show ?thesis
    using False le assms
    using length_sv_bytes [OF assms(1)] length_sv_bytes [OF assms(2)]
    by (simp add: sv_endsWith_def sv_cmp_eq sv_valid_def sv_bytes_def drop_take)
qed

lemma sv_toCStr_spec: "sv_valid s \<Longrightarrow> sv_toCStr s = Inr (sv_bytes s @ [0])"
proof -
  assume v: "sv_valid s"
  then have "unat (sv_len s + 1) = Suc (unat (sv_len s))"
    by (simp add: sv_valid_def unat_word_ariths)
  moreover have "drop n (replicate (Suc n) (0 :: u8)) = [0]" for n :: nat
    unfolding drop_replicate
    by simp
  ultimately show ?thesis
    using v by (simp add: sv_toCStr_def memcpy_loop_eq sv_valid_def sv_bytes_def del: replicate_Suc)
qed

end
