(* ===== verification/RivFs.thy ===== *)
theory RivFs
  imports StringView
begin

text \<open>
  The read-only initramfs reader of \<^verbatim>\<open>src/drivers/fs/rivfs/rivfs.hpp\<close>. The image is the
  byte list at address \<open>rawFsMemloc\<close>; a pointer into it is its 32-bit offset from there, so
  pointer arithmetic wraps around and a read outside the image is a fault (the code checks no
  bound). \<^verbatim>\<open>File\<close> keeps absolute addresses, as the code does. The serial log lines are left
  out, and heap allocation of the temporary copies is taken to succeed.
\<close>

record rivfs =
  rawFsMemloc :: u32
  rawFs :: "u8 list"
  fphOff :: "u32 option"  \<comment> \<open>the pointer \<open>fph\<close>, null until the check has run\<close>

record rfile =
  startPos :: u32
  contsSvPos :: u32

record rdir =
  dirStartPos :: u32
  constPos :: u32

record dirIterator =
  dirPos :: u32
  filePos :: u32
  dirsRemaining :: u16
  filesRemaining :: u16

definition SIZEOF_FPH :: u32 where "SIZEOF_FPH = 16"
definition SIZEOF_LATTER :: u32 where "SIZEOF_LATTER = 16"
definition SLASH :: u8 where "SLASH = 0x2F"

definition INITIAL_MAGIC :: "u8 list" where "INITIAL_MAGIC = bytes ''rivfs''"

text \<open>The packed fields of \<^verbatim>\<open>FilePositionHeader\<close> and of \<^verbatim>\<open>DirEntryLatter\<close>, which share a layout.\<close>

definition hdr_dirHdrAm :: "u8 list \<Rightarrow> u32 \<Rightarrow> u16 exec" where "hdr_dirHdrAm m p = rd16 m p"
definition hdr_fAm :: "u8 list \<Rightarrow> u32 \<Rightarrow> u16 exec" where "hdr_fAm m p = rd16 m (p + 2)"
definition hdr_dirstart :: "u8 list \<Rightarrow> u32 \<Rightarrow> u32 exec" where "hdr_dirstart m p = rd32 m (p + 4)"
definition hdr_fstart :: "u8 list \<Rightarrow> u32 \<Rightarrow> u32 exec" where "hdr_fstart m p = rd32 m (p + 8)"

definition fph_of :: "rivfs \<Rightarrow> u32 exec" where
  "fph_of fs = (case fphOff fs of None \<Rightarrow> Inl OutOfBounds | Some p \<Rightarrow> Inr p)"

text \<open>The constructor.\<close>

definition RivFs_new :: "u32 \<Rightarrow> u8 list \<Rightarrow> rivfs" where
  "RivFs_new memloc img = \<lparr>rawFsMemloc = memloc, rawFs = img, fphOff = None\<rparr>"

text \<open>
  \<^verbatim>\<open>checkCorrectness\<close>: the magic, the header size, the read-only flag and the two start
  offsets; it sets \<open>fph\<close> on the way.
\<close>

definition checkCorrectness :: "rivfs \<Rightarrow> (bool \<times> rivfs) exec" where
  "checkCorrectness fs =
     bindE (memcmp (rawFs fs) INITIAL_MAGIC 5) (\<lambda>c.
     if c \<noteq> 0 then Inr (False, fs) else
     bindE (rd32 (rawFs fs) 5) (\<lambda>fphSize.
     if fphSize \<noteq> SIZEOF_FPH then Inr (False, fs) else
     bindE (rd32 (rawFs fs) 9) (\<lambda>fphPos.
     if fphPos = 0 then Inr (False, fs) else
     bindE (rd32 (rawFs fs) 15) (\<lambda>flgs.
     if flgs AND 1 = 0 then Inr (False, fs) else
     (let fs' = fs\<lparr>fphOff := Some fphPos\<rparr> in
     bindE (hdr_dirstart (rawFs fs) fphPos) (\<lambda>dirstart.
     if dirstart = 0 then Inr (False, fs') else
     bindE (hdr_fstart (rawFs fs) fphPos) (\<lambda>fstart.
     if fstart = 0 then Inr (False, fs') else Inr (True, fs'))))))))"

section \<open>Scanning the entries of a directory\<close>

text \<open>
  The name of an entry is compared through the pointer after its length word: the view of the
  name, then the byte loop.
\<close>

definition entry_name :: "u8 list \<Rightarrow> u32 \<Rightarrow> u32 \<Rightarrow> sview" where
  "entry_name m off svLen = sv (drop (unat (off + 4)) m) svLen"

definition same_name :: "u8 list \<Rightarrow> u32 \<Rightarrow> u32 \<Rightarrow> sview \<Rightarrow> bool exec" where
  "same_name m off svLen needed =
     (if svLen = sv_len needed
      then sv_cmp (sv_raw (entry_name m off svLen)) (sv_raw needed) (unat svLen)
      else Inr False)"

text \<open>
  The file loop of \<^verbatim>\<open>findInDir\<close> and of \<^verbatim>\<open>open\<close>: at most \<open>n\<close> file entries from offset
  \<open>off\<close>; \<open>None\<close> is the error value of \<^verbatim>\<open>Expected\<close>.
\<close>

fun scan_files :: "rivfs \<Rightarrow> sview \<Rightarrow> nat \<Rightarrow> u32 \<Rightarrow> rfile option exec" where
  "scan_files fs needed 0 off = Inr None"
| "scan_files fs needed (Suc n) off =
     bindE (rd32 (rawFs fs) off) (\<lambda>svLen.
     if svLen = 0 then Inr None else
     bindE (same_name (rawFs fs) off svLen needed) (\<lambda>same.
     if same then Inr (Some \<lparr>startPos = rawFsMemloc fs + off,
                             contsSvPos = rawFsMemloc fs + off + 4 + svLen\<rparr>)
     else bindE (rd32 (rawFs fs) (off + 4 + svLen)) (\<lambda>contsLen.
       scan_files fs needed n (off + 4 + svLen + 4 + contsLen))))"

text \<open>The directory loop: the offset of the entry with the wanted name.\<close>

fun scan_dirs :: "u8 list \<Rightarrow> sview \<Rightarrow> nat \<Rightarrow> u32 \<Rightarrow> u32 option exec" where
  "scan_dirs m needed 0 off = Inr None"
| "scan_dirs m needed (Suc n) off =
     bindE (rd32 m off) (\<lambda>svLen.
     if svLen = 0 then Inr None else
     bindE (same_name m off svLen needed) (\<lambda>same.
     if same then Inr (Some off)
     else scan_dirs m needed n (off + 4 + svLen + SIZEOF_LATTER)))"

text \<open>
  \<^verbatim>\<open>findInDir\<close> recurses on what is left of the path. The first argument bounds the depth of
  the recursion; \<open>RivFsTermination\<close> shows that one unit per byte of the path is enough.
\<close>

fun findInDir :: "nat \<Rightarrow> rivfs \<Rightarrow> u32 \<Rightarrow> sview \<Rightarrow> bool \<Rightarrow> rfile option exec" where
  "findInDir 0 fs dirEntry fn isDir = Inl Hang"
| "findInDir (Suc k) fs dirEntry fn isDir =
     bindE (sv_toCStr fn) (\<lambda>fnCStrTmp.
     bindE (findChar fnCStrTmp SLASH) (\<lambda>slashPos.
     let hasSlash = (slashPos \<noteq> 0);
         nameLen = (if hasSlash then slashPos else sv_len fn);
         needed = sv (sv_raw fn) nameLen
     in
     bindE (rd32 (rawFs fs) dirEntry) (\<lambda>ownFilenamePart.
     let latter = dirEntry + 4 + ownFilenamePart in
     if \<not> hasSlash \<and> \<not> isDir then
       bindE (hdr_fstart (rawFs fs) latter) (\<lambda>fStart.
       bindE (hdr_fAm (rawFs fs) latter) (\<lambda>fileAm.
       scan_files fs needed (unat fileAm) fStart))
     else
       bindE (hdr_dirstart (rawFs fs) latter) (\<lambda>dirStart.
       bindE (hdr_dirHdrAm (rawFs fs) latter) (\<lambda>dirHdrAm.
       bindE (scan_dirs (rawFs fs) needed (unat dirHdrAm) dirStart) (\<lambda>r. case r of
         None \<Rightarrow> Inr None
       | Some childDirEntry \<Rightarrow>
           (let consumed = nameLen + 1 in
            if sv_len fn \<le> consumed then Inr None else
            let remaining = sv (drop (unat consumed) (sv_raw fn)) (sv_len fn - consumed) in
            bindE (findChar (sv_raw remaining) SLASH) (\<lambda>q.
            findInDir k fs childDirEntry remaining (q \<noteq> 0)))))))))"

section \<open>Opening and reading a file\<close>

lemma drop_unat_Cons_shorter:
  assumes "len \<noteq> 0" and "drop (unat (len :: u32)) xs = d # rest"
  shows "length rest < length xs" and "length (d # rest) < length xs"
proof -
  have "0 < unat len"
    using assms(1) by (simp add: unat_gt_0)
  moreover have "length xs - unat len = Suc (length rest)"
    using arg_cong [OF assms(2), of length] by simp
  ultimately show "length rest < length xs" and "length (d # rest) < length xs"
    by simp_all
qed

text \<open>
  The path splitter of \<^verbatim>\<open>open\<close>: the non-empty components, each with the flag whether a slash
  follows it.
\<close>

function split_path :: "u8 list \<Rightarrow> (sview \<times> bool) list exec" where
  "split_path [] = Inl OutOfBounds"
| "split_path (c # s) =
     (if c = 0 then Inr [] else
      bindE (strlenSpecChar (c # s) SLASH) (\<lambda>len.
      if len = 0 then split_path s else
      (case drop (unat len) (c # s) of
        [] \<Rightarrow> Inl OutOfBounds
      | d # rest \<Rightarrow>
          bindE (split_path (if d = SLASH then rest else d # rest)) (\<lambda>r.
          Inr ((sv (c # s) len, d = SLASH) # r)))))"
  by pat_completeness auto

termination
proof (relation "measure length", goal_cases)
  case (3 c s len d rest)
  then show ?case
    using drop_unat_Cons_shorter [of len "c # s" d rest] by auto
qed auto

definition rivfs_open :: "rivfs \<Rightarrow> u8 list option \<Rightarrow> rfile option exec" where
  "rivfs_open fs path =
     (case path of None \<Rightarrow> Inr None | Some [] \<Rightarrow> Inl OutOfBounds
      | Some (c # fp) \<Rightarrow>
        if c \<noteq> SLASH then Inr None else
        bindE (split_path fp) (\<lambda>svArr. case svArr of
          [] \<Rightarrow> Inr None
        | [(sv0, _)] \<Rightarrow>
            bindE (fph_of fs) (\<lambda>fph.
            bindE (hdr_fstart (rawFs fs) fph) (\<lambda>fstart.
            bindE (hdr_fAm (rawFs fs) fph) (\<lambda>fAm.
            scan_files fs sv0 (unat fAm) fstart)))
        | (sv0, isDir0) # _ \<Rightarrow>
            if \<not> isDir0 then Inr None else
            bindE (fph_of fs) (\<lambda>fph.
            bindE (hdr_dirstart (rawFs fs) fph) (\<lambda>dirstart.
            bindE (hdr_dirHdrAm (rawFs fs) fph) (\<lambda>dirHdrAm.
            bindE (scan_dirs (rawFs fs) sv0 (unat dirHdrAm) dirstart) (\<lambda>r. case r of
              None \<Rightarrow> Inr None
            | Some newDirEntry \<Rightarrow>
                bindE (findChar fp SLASH) (\<lambda>firstSlash.
                if firstSlash = 0 then Inr None else
                bindE (strlen (c # fp)) (\<lambda>n.
                let newFp = sv (drop (unat (firstSlash + 1)) fp) (n - 1 - firstSlash - 1) in
                bindE (findChar (sv_raw newFp) SLASH) (\<lambda>q.
                findInDir (Suc (length fp)) fs newDirEntry newFp (q \<noteq> 0))))))))))"

text \<open>\<^verbatim>\<open>filesize\<close> and \<^verbatim>\<open>read\<close> dereference the absolute addresses of the file.\<close>

definition filesize :: "rivfs \<Rightarrow> rfile \<Rightarrow> u32 exec" where
  "filesize fs f = rd32 (rawFs fs) (contsSvPos f - rawFsMemloc fs)"

definition rivfs_read :: "rivfs \<Rightarrow> rfile \<Rightarrow> u8 list \<Rightarrow> u8 list exec" where
  "rivfs_read fs f obuf =
     bindE (rd32 (rawFs fs) (startPos f - rawFsMemloc fs)) (\<lambda>nameLen.
     bindE (filesize fs f) (\<lambda>n.
     strcpyLen obuf (drop (unat (startPos f - rawFsMemloc fs + nameLen + 8)) (rawFs fs)) n))"

section \<open>Directory iteration\<close>

text \<open>
  The entry loop of \<^verbatim>\<open>getDirIt\<close>: like \<open>scan_dirs\<close>, but on a mismatch the read position
  \<^verbatim>\<open>currentDir\<close> moves on, and on a match it moves into the directory found.
\<close>

fun getDirIt_scan :: "u8 list \<Rightarrow> sview \<Rightarrow> nat \<Rightarrow> u32 \<Rightarrow> dirIterator option exec" where
  "getDirIt_scan m wanted 0 currentDir = Inr None"
| "getDirIt_scan m wanted (Suc n) currentDir =
     bindE (rd32 m currentDir) (\<lambda>nameLen.
     if nameLen = 0 then Inr None else
     bindE (sv_eq (entry_name m currentDir nameLen) wanted) (\<lambda>same.
     let latter = currentDir + 4 + nameLen in
     if same then
       bindE (hdr_dirstart m latter) (\<lambda>dirStart.
       bindE (hdr_fstart m latter) (\<lambda>fStart.
       bindE (hdr_dirHdrAm m latter) (\<lambda>dirHdrAm.
       bindE (hdr_fAm m latter) (\<lambda>fileAm.
       Inr (Some \<lparr>dirPos = dirStart, filePos = fStart,
                  dirsRemaining = dirHdrAm, filesRemaining = fileAm\<rparr>)))))
     else getDirIt_scan m wanted n (latter + SIZEOF_LATTER)))"

text \<open>
  The component loop. Its argument \<open>dirCount\<close> is the \<^verbatim>\<open>dirHdrAm\<close> of the root directory in
  every round: the code never updates it when it descends.
\<close>

function getDirIt_loop :: "u8 list \<Rightarrow> nat \<Rightarrow> dirIterator \<Rightarrow> u32 \<Rightarrow> u8 list \<Rightarrow> dirIterator option exec" where
  "getDirIt_loop m dirCount ret currentDir [] = Inl OutOfBounds"
| "getDirIt_loop m dirCount ret currentDir (c # s) =
     (if c = 0 then Inr (Some ret) else
      bindE (strlenSpecChar (c # s) SLASH) (\<lambda>len.
      if len = 0 then Inr None else
      bindE (getDirIt_scan m (sv (c # s) len) dirCount currentDir) (\<lambda>r. case r of
        None \<Rightarrow> Inr None
      | Some it \<Rightarrow>
          (case drop (unat len) (c # s) of
            [] \<Rightarrow> Inl OutOfBounds
          | d # rest \<Rightarrow>
              getDirIt_loop m dirCount it (dirPos it) (if d = SLASH then rest else d # rest)))))"
  by pat_completeness auto
termination
proof (relation "measure (\<lambda>(m, n, it, p, s). length s)", goal_cases)
  case (2 m dirCount ret currentDir c s len r it d rest)
  then show ?case
    using drop_unat_Cons_shorter [of len "c # s" d rest] by auto
qed auto

definition getDirIt :: "rivfs \<Rightarrow> u8 list \<Rightarrow> dirIterator option exec" where
  "getDirIt fs path =
     (case path of [] \<Rightarrow> Inl OutOfBounds
      | c # fp \<Rightarrow>
        if c \<noteq> SLASH then Inr None else
        bindE (fph_of fs) (\<lambda>fph.
        bindE (hdr_dirstart (rawFs fs) fph) (\<lambda>dirstart.
        bindE (hdr_fstart (rawFs fs) fph) (\<lambda>fstart.
        bindE (hdr_dirHdrAm (rawFs fs) fph) (\<lambda>dirHdrAm.
        bindE (hdr_fAm (rawFs fs) fph) (\<lambda>fAm.
        getDirIt_loop (rawFs fs) (unat dirHdrAm)
          \<lparr>dirPos = dirstart, filePos = fstart, dirsRemaining = dirHdrAm, filesRemaining = fAm\<rparr>
          dirstart fp))))))"

text \<open>
  \<^verbatim>\<open>dirItGetNextFile\<close>: the name and the file. It stores the \<^emph>\<open>relative\<close> position of the
  entry in \<^verbatim>\<open>startPos\<close> but the absolute address in \<^verbatim>\<open>contsSvPos\<close>.
\<close>

definition dirItGetNextFile :: "rivfs \<Rightarrow> dirIterator \<Rightarrow> ((sview \<times> rfile) option \<times> dirIterator) exec" where
  "dirItGetNextFile fs it =
     (if filesRemaining it \<noteq> 0 then
        (let it1 = it\<lparr>filesRemaining := filesRemaining it - 1\<rparr> in
         bindE (rd32 (rawFs fs) (filePos it)) (\<lambda>svLen.
         if svLen = 0 then Inr (None, it1\<lparr>filesRemaining := 0\<rparr>) else
         let namePos = filePos it + 4; contsPos = namePos + svLen in
         bindE (rd32 (rawFs fs) contsPos) (\<lambda>contsLen.
         Inr (Some (sv (drop (unat namePos) (rawFs fs)) svLen,
                    \<lparr>startPos = filePos it, contsSvPos = rawFsMemloc fs + contsPos\<rparr>),
              it1\<lparr>filePos := contsPos + 4 + contsLen\<rparr>))))
      else Inr (None, it))"

definition dirItGetNextDir :: "rivfs \<Rightarrow> dirIterator \<Rightarrow> ((sview \<times> rdir) option \<times> dirIterator) exec" where
  "dirItGetNextDir fs it =
     (if dirsRemaining it \<noteq> 0 then
        (let it1 = it\<lparr>dirsRemaining := dirsRemaining it - 1\<rparr> in
         bindE (rd32 (rawFs fs) (dirPos it)) (\<lambda>svLen.
         if svLen = 0 then Inr (None, it1\<lparr>dirsRemaining := 0\<rparr>) else
         let namePos = dirPos it + 4 in
         Inr (Some (sv (drop (unat namePos) (rawFs fs)) svLen,
                    \<lparr>dirStartPos = dirPos it, constPos = namePos + svLen\<rparr>),
              it1\<lparr>dirPos := namePos + svLen + SIZEOF_LATTER\<rparr>)))
      else Inr (None, it))"

text \<open>\<^verbatim>\<open>openFileInDirData\<close>: the file loop again, over the directory an iterator found.\<close>

fun openFile_scan :: "rivfs \<Rightarrow> sview \<Rightarrow> nat \<Rightarrow> u32 \<Rightarrow> rfile option exec" where
  "openFile_scan fs fn 0 off = Inr None"
| "openFile_scan fs fn (Suc n) off =
     bindE (rd32 (rawFs fs) off) (\<lambda>svLen.
     if svLen = 0 then Inr None else
     bindE (sv_eq (entry_name (rawFs fs) off svLen) fn) (\<lambda>same.
     if same then Inr (Some \<lparr>startPos = rawFsMemloc fs + off,
                             contsSvPos = rawFsMemloc fs + (off + 4 + svLen)\<rparr>)
     else bindE (rd32 (rawFs fs) (off + 4 + svLen)) (\<lambda>contsLen.
       openFile_scan fs fn n (off + 4 + svLen + 4 + contsLen))))"

definition openFileInDirData :: "rivfs \<Rightarrow> rdir \<Rightarrow> sview \<Rightarrow> rfile option exec" where
  "openFileInDirData fs dd fn =
     bindE (hdr_fstart (rawFs fs) (constPos dd)) (\<lambda>fStart.
     bindE (hdr_fAm (rawFs fs) (constPos dd)) (\<lambda>fileAm.
     openFile_scan fs fn (unat fileAm) fStart))"

end
