(* ===== verification/RivFsTermination.thy ===== *)
theory RivFsTermination
  imports RivFs
begin

text \<open>
  The lookups of the initramfs reader end on every image, well formed or not. Each loop of the
  reader is bounded by a 16-bit count or walks down a string; only the recursion of
  \<^const>\<open>findInDir\<close> carries fuel, and the length of the path bounds it.
\<close>

definition ends :: "'a exec \<Rightarrow> bool" where
  "ends m \<longleftrightarrow> m \<noteq> Inl Hang"

named_theorems ends_intros "operations that end"

lemma ends_basic [ends_intros]: "ends (Inr x)" "ends (Inl OutOfBounds)"
  by (simp_all add: ends_def)

lemma ends_bindE [ends_intros]:
  "ends m \<Longrightarrow> (\<And>x. m = Inr x \<Longrightarrow> ends (f x)) \<Longrightarrow> ends (bindE m f)"
  by (cases m) (auto simp: ends_def)

lemma ends_If [ends_intros]: "(c \<Longrightarrow> ends a) \<Longrightarrow> (\<not> c \<Longrightarrow> ends b) \<Longrightarrow> ends (if c then a else b)"
  by simp

lemma ends_option [ends_intros]:
  "(r = None \<Longrightarrow> ends a) \<Longrightarrow> (\<And>x. r = Some x \<Longrightarrow> ends (b x)) \<Longrightarrow>
     ends (case r of None \<Rightarrow> a | Some x \<Rightarrow> b x)"
  by (cases r) auto

lemma ends_list [ends_intros]:
  "(xs = [] \<Longrightarrow> ends a) \<Longrightarrow> (\<And>y ys. xs = y # ys \<Longrightarrow> ends (b y ys)) \<Longrightarrow>
     ends (case xs of [] \<Rightarrow> a | y # ys \<Rightarrow> b y ys)"
  by (cases xs) auto

lemma ends_rd [ends_intros]: "ends (rd16 m p)" "ends (rd32 m p)"
  by (auto simp: rd16_def rd32_def Let_def intro: ends_intros)

lemma ends_hdr [ends_intros]:
  "ends (hdr_dirHdrAm m p)" "ends (hdr_fAm m p)" "ends (hdr_dirstart m p)" "ends (hdr_fstart m p)"
  "ends (fph_of fs)"
  by (auto simp: hdr_dirHdrAm_def hdr_fAm_def hdr_dirstart_def hdr_fstart_def fph_of_def
      intro: ends_intros)

lemma ends_string_loops [ends_intros]:
  "ends (strlen_loop i s)" "ends (findChar_loop i s t)" "ends (strlenSpecChar_loop i s t)"
  by (induction s arbitrary: i) (auto simp: Let_def intro: ends_intros)

lemma ends_string [ends_intros]:
  "ends (strlen s)" "ends (findChar s t)" "ends (strlenSpecChar s t)"
  by (simp_all add: strlen_def findChar_def strlenSpecChar_def ends_string_loops)

lemma ends_memcpy_loop [ends_intros]: "ends (memcpy_loop d s n)"
  by (induction d s n rule: memcpy_loop.induct) (auto intro: ends_intros)

lemma ends_sv_cmp [ends_intros]: "ends (sv_cmp a b n)"
  by (induction a b n rule: sv_cmp.induct) (auto intro: ends_intros)

lemma ends_view [ends_intros]: "ends (sv_toCStr v)" "ends (same_name m off len w)"
  by (auto simp: sv_toCStr_def same_name_def intro: ends_intros)

lemma ends_scan_files [ends_intros]: "ends (scan_files fs w n off)"
  by (induction n arbitrary: off) (auto intro!: ends_intros)

lemma ends_scan_dirs [ends_intros]: "ends (scan_dirs m w n off)"
  by (induction n arbitrary: off) (auto intro!: ends_intros)

lemma ends_split_path [ends_intros]: "ends (split_path s)"
  by (induction s rule: split_path.induct) (auto intro!: ends_intros)

section \<open>The remaining path shrinks\<close>

lemma memcpy_loop_length: "memcpy_loop d s n = Inr r \<Longrightarrow> length r = length d \<and> n \<le> length d"
  by (induction d s n arbitrary: r rule: memcpy_loop.induct) (auto simp: exec_simps)

lemma findChar_loop_bound:
  "findChar_loop i s t = Inr r \<Longrightarrow> unat i + length s < 2 ^ 32 \<Longrightarrow>
     r = 0 \<or> unat r < unat i + length s"
proof (induction i s t rule: findChar_loop.induct)
  case (2 i c s t)
  then show ?case
    by (cases "c = 0 \<or> c = t") (auto simp: unat_word_ariths split: if_splits)
qed simp

lemma remaining_shorter:
  assumes "sv_toCStr fn = Inr r" and "findChar r SLASH = Inr slash"
    and "\<not> sv_len fn \<le> (if slash \<noteq> 0 then slash else sv_len fn) + 1"
  shows "unat (sv_len fn - ((if slash \<noteq> 0 then slash else sv_len fn) + 1)) < unat (sv_len fn)"
proof -
  let ?n = "if slash \<noteq> 0 then slash else sv_len fn"
  have len: "length r = unat (sv_len fn + 1)" "unat (sv_len fn) \<le> unat (sv_len fn + 1)"
    using memcpy_loop_length [OF assms(1) [unfolded sv_toCStr_def]] by auto
  have "unat (sv_len fn) \<noteq> 2 ^ 32 - 1"
    using len(2) by (auto simp: unat_word_ariths)
  then have lt: "unat (sv_len fn) + 1 < 2 ^ 32"
    using unsigned_less [of "sv_len fn", where 'a = nat] by simp
  then have sz: "unat (sv_len fn + 1) = unat (sv_len fn) + 1"
    by (simp add: unat_word_ariths)
  have "slash = 0 \<or> unat slash < unat (sv_len fn) + 1"
    using findChar_loop_bound [OF assms(2) [unfolded findChar_def]] len sz lt by simp
  then have "unat ?n + 1 < 2 ^ 32"
    using lt by auto
  then have "unat (?n + 1) = unat ?n + 1"
    by (simp add: unat_word_ariths)
  moreover have "unat (sv_len fn - (?n + 1)) = unat (sv_len fn) - unat (?n + 1)"
    using assms(3) by (intro unat_sub) simp
  moreover have "unat (?n + 1) < unat (sv_len fn)"
    using assms(3) by (simp add: word_le_nat_alt not_le)
  ultimately show ?thesis
    by simp
qed

lemma ends_findInDir: "unat (sv_len fn) < k \<Longrightarrow> ends (findInDir k fs dirEntry fn isDir)"
proof (induction k fs dirEntry fn isDir rule: findInDir.induct)
  case (2 k fs dirEntry fn isDir)
  then show ?case
    unfolding findInDir.simps Let_def
    by (intro ends_intros "2.IH" refl; (assumption | simp)?)
      (use remaining_shorter "2.prems" in fastforce)+
qed simp

lemma length_takeWhile_in: "x \<in> set s \<Longrightarrow> length (takeWhile (\<lambda>c. c \<noteq> x) s) < length s"
  by (induction s) auto

lemma rest_of_path_short:
  assumes "findChar fp SLASH = Inr slash" and "slash \<noteq> 0" and "strlen (SLASH # fp) = Inr n"
    and "length fp + 1 < 2 ^ 32"
  shows "unat (n - 1 - slash - 1) < Suc (length fp)"
proof -
  have t: "terminated fp" and n: "n = 1 + word_of_nat (length (cstr fp))"
    using assms(3) by (auto simp: strlen_eq SLASH_def split: if_splits)
  let ?k = "length (takeWhile (\<lambda>c. c \<noteq> SLASH) (cstr fp))"
  have k: "slash = word_of_nat ?k" "SLASH \<in> set (cstr fp)"
    using assms(1,2) t by (auto simp: findChar_eq split: if_splits)
  have "?k < length (cstr fp)"
    using k(2) length_takeWhile_in by fast
  moreover have "length (cstr fp) \<le> length fp"
    by (rule cstr_length_le)
  moreover have "n - 1 - slash - 1 = word_of_nat (length (cstr fp) - ?k - 1)"
    using \<open>?k < length (cstr fp)\<close> by (simp add: n k(1) of_nat_diff)
  moreover have "unat (word_of_nat (length (cstr fp) - ?k - 1) :: u32) = length (cstr fp) - ?k - 1"
    using calculation(2) assms(4) by (intro unat_of_nat32) simp
  ultimately have "unat (n - 1 - slash - 1) = length (cstr fp) - ?k - 1"
    by metis
  then show ?thesis
    using cstr_length_le [of fp] by linarith
qed

lemma ends_rivfs_open: "length path < 2 ^ 32 \<Longrightarrow> ends (rivfs_open fs (Some path))"
proof (cases path)
  case (Cons c fp)
  assume "length path < 2 ^ 32"
  then have l: "length fp + 1 < 2 ^ 32"
    using Cons by simp
  show ?thesis
    unfolding rivfs_open_def Cons option.case list.case prod.case_distrib Let_def
    by (intro ends_intros ends_findInDir; (auto intro!: ends_intros rest_of_path_short l; fail)?)
      (auto intro!: ends_intros ends_findInDir simp del: findInDir.simps dest: rest_of_path_short [OF _ _ _ l])
qed (simp add: rivfs_open_def ends_basic)

text \<open>C25: \<^verbatim>\<open>open\<close> returns on every image and every path below 4 GiB, whatever the
  image's bytes say.\<close>

theorem rivfs_open_no_hang: "length path < 2 ^ 32 \<Longrightarrow> rivfs_open fs (Some path) \<noteq> Inl Hang"
  using ends_rivfs_open [of path fs] by (simp add: ends_def)

theorem rivfs_open_no_hang_witness:
  "rivfs_open (RivFs_new 0x1000 [0xFF, 0xFF]) (Some (bytes ''/a/b'' @ [0])) \<noteq> Inl Hang"
  by (rule rivfs_open_no_hang) simp

end
