(* ===== verification/GenFs.thy ===== *)
theory GenFs
  imports RivFs
begin

text \<open>
  The image builder \<^verbatim>\<open>initramfs/genfs/src/main.cpp\<close>. A directory of the host is the list of
  its entries in the order in which \<^verbatim>\<open>directory_iterator\<close> gives them, the same in both passes
  over it; the output vector is a byte list that only grows. \<^verbatim>\<open>DirEntry\<close>'s constructor leaves
  its field \<^verbatim>\<open>flgs\<close> uninitialised and \<^verbatim>\<open>withName\<close> writes it out: what happens to be there
  is the parameter \<open>junk\<close>, a function of the position at which the entry is written.
\<close>

datatype fsnode = FFile "u8 list" "u8 list" | FDir "u8 list" "fsnode list"

record builtDir =
  bd_dirstart :: u32
  bd_fstart :: u32
  bd_dirHdrAm :: u16
  bd_fAm :: u16

definition pushU16LE :: "u8 list \<Rightarrow> u16 \<Rightarrow> u8 list" where
  "pushU16LE out v = out @ [ucast (v AND 0xFF), ucast (drop_bit 8 v AND 0xFF)]"

definition pushU32LE :: "u8 list \<Rightarrow> u32 \<Rightarrow> u8 list" where
  "pushU32LE out v = out @ [ucast (v AND 0xFF), ucast (drop_bit 8 v AND 0xFF),
     ucast (drop_bit 16 v AND 0xFF), ucast (drop_bit 24 v AND 0xFF)]"

text \<open>\<^verbatim>\<open>DirEntry::withName\<close> and \<^verbatim>\<open>eof\<close>, \<^verbatim>\<open>FileEntry::genf\<close> and \<^verbatim>\<open>eof\<close>.\<close>

definition withName :: "u32 \<Rightarrow> builtDir \<Rightarrow> u8 list \<Rightarrow> u8 list" where
  "withName flgs b dn =
     (let ret = pushU32LE [] (word_of_nat (length dn)) @ dn;
          ret = pushU16LE ret (bd_dirHdrAm b);
          ret = pushU16LE ret (bd_fAm b);
          ret = pushU32LE ret (bd_dirstart b);
          ret = pushU32LE ret (bd_fstart b)
      in pushU32LE ret flgs)"

definition dir_eof :: "u8 list" where
  "dir_eof = pushU32LE [] 0"

definition genf :: "u8 list \<Rightarrow> u8 list \<Rightarrow> u8 list" where
  "genf conts fn =
     pushU32LE (pushU32LE [] (word_of_nat (length fn)) @ fn) (word_of_nat (length conts)) @ conts"

definition file_eof :: "u8 list" where
  "file_eof = pushU32LE (pushU32LE [] 0) 0"

text \<open>\<^verbatim>\<open>writeFileList\<close>: the start offset, the count (in 16 bits) and the grown buffer.\<close>

fun writeFiles :: "u8 list \<Rightarrow> u16 \<Rightarrow> fsnode list \<Rightarrow> u8 list \<times> u16" where
  "writeFiles buf fAm [] = (buf, fAm)"
| "writeFiles buf fAm (FDir _ _ # es) = writeFiles buf fAm es"
| "writeFiles buf fAm (FFile fname conts # es) = writeFiles (buf @ genf conts fname) (fAm + 1) es"

definition writeFileList :: "u8 list \<Rightarrow> fsnode list \<Rightarrow> u32 \<times> u16 \<times> u8 list" where
  "writeFileList buf es =
     (let fstart = word_of_nat (length buf); (buf', fAm) = writeFiles buf 0 es
      in (fstart, fAm, buf' @ file_eof))"

text \<open>The entries of the subdirectories, written once all of them have been built.\<close>

fun writeDirs :: "(u32 \<Rightarrow> u32) \<Rightarrow> u8 list \<Rightarrow> (u8 list \<times> builtDir) list \<Rightarrow> u8 list" where
  "writeDirs junk buf [] = buf"
| "writeDirs junk buf ((name, b) # ps) =
     writeDirs junk (buf @ withName (junk (word_of_nat (length buf))) b name) ps"

text \<open>
  \<^verbatim>\<open>buildDir\<close> writes the file list, recurses into the subdirectories in order, and only then
  writes their entries, whose offsets are known by now.
\<close>

function (sequential) buildDir :: "(u32 \<Rightarrow> u32) \<Rightarrow> u8 list \<Rightarrow> fsnode list \<Rightarrow> u8 list \<times> builtDir"
  and buildSubdirs :: "(u32 \<Rightarrow> u32) \<Rightarrow> u8 list \<Rightarrow> fsnode list \<Rightarrow> u8 list \<times> (u8 list \<times> builtDir) list"
where
  "buildDir junk buf es =
     (let (fstart, fAm, buf1) = writeFileList buf es;
          (buf2, subdirs) = buildSubdirs junk buf1 es;
          dirstart = word_of_nat (length buf2);
          buf3 = writeDirs junk buf2 subdirs @ dir_eof
      in (buf3, \<lparr>bd_dirstart = dirstart, bd_fstart = fstart,
                 bd_dirHdrAm = word_of_nat (length subdirs), bd_fAm = fAm\<rparr>))"
| "buildSubdirs junk buf [] = (buf, [])"
| "buildSubdirs junk buf (FFile _ _ # es) = buildSubdirs junk buf es"
| "buildSubdirs junk buf (FDir name sub # es) =
     (let (buf1, b) = buildDir junk buf sub;
          (buf2, ps) = buildSubdirs junk buf1 es
      in (buf2, (name, b) # ps))"
  by pat_completeness auto
termination
  by (relation "measure (\<lambda>x. case x of Inl (j, buf, es) \<Rightarrow> Suc (2 * size_list size es)
                                      | Inr (j, buf, es) \<Rightarrow> 2 * size_list size es)") auto

text \<open>The two headers, as the 19 and 16 bytes of the packed structures.\<close>

definition RivFsHeader_bytes :: "u32 \<Rightarrow> u32 \<Rightarrow> u8 \<Rightarrow> u8 \<Rightarrow> u32 \<Rightarrow> u8 list" where
  "RivFsHeader_bytes fphSize fphPos v0 v1 flgs =
     pushU32LE (pushU32LE (pushU32LE (bytes ''rivfs'') fphSize) fphPos @ [v0, v1]) flgs"

definition FilePositionHeader_bytes :: "u16 \<Rightarrow> u16 \<Rightarrow> u32 \<Rightarrow> u32 \<Rightarrow> u32 \<Rightarrow> u8 list" where
  "FilePositionHeader_bytes dirHdrAm fAm dirstart fstart flgs =
     pushU32LE (pushU32LE (pushU32LE (pushU16LE (pushU16LE [] dirHdrAm) fAm) dirstart) fstart) flgs"

text \<open>
  \<^verbatim>\<open>main\<close>, from the point where the input directory is known to exist: 35 zero bytes stand in
  for the headers, which are copied over them at the end.
\<close>

definition genfs_image :: "(u32 \<Rightarrow> u32) \<Rightarrow> fsnode list \<Rightarrow> u8 list" where
  "genfs_image junk es =
     (let buf0 = replicate 35 0;
          (rootFstart, rootFAm, buf1) = writeFileList buf0 es;
          (buf2, rootSubdirs) = buildSubdirs junk buf1 es;
          rootDirstart = word_of_nat (length buf2);
          buf3 = writeDirs junk buf2 rootSubdirs @ dir_eof;
          hdr = RivFsHeader_bytes 16 19 0 0 1;
          fph = FilePositionHeader_bytes (word_of_nat (length rootSubdirs)) rootFAm
                  rootDirstart rootFstart 0;
          buf4 = hdr @ drop 19 buf3
      in take 19 buf4 @ fph @ drop 35 buf4)"

section \<open>The layout the builder produces\<close>

definition segment :: "u8 list \<Rightarrow> nat \<Rightarrow> u8 list \<Rightarrow> bool" where
  "segment m off bs \<longleftrightarrow> off + length bs \<le> length m \<and> take (length bs) (drop off m) = bs"

lemma push_bytes: "pushU16LE out h = out @ bytes16 h" "pushU32LE out v = out @ bytes32 v"
  by (simp_all add: pushU16LE_def pushU32LE_def bytes16_def bytes32_def)

lemma withName_eq:
  "withName f b dn = bytes32 (word_of_nat (length dn)) @ dn @ bytes16 (bd_dirHdrAm b) @
     bytes16 (bd_fAm b) @ bytes32 (bd_dirstart b) @ bytes32 (bd_fstart b) @ bytes32 f"
  by (simp add: withName_def push_bytes)

lemma genf_eq:
  "genf d n = bytes32 (word_of_nat (length n)) @ n @ bytes32 (word_of_nat (length d)) @ d"
  by (simp add: genf_def push_bytes)

lemma eof_eq: "dir_eof = bytes32 0" "file_eof = bytes32 0 @ bytes32 0"
  by (simp_all add: dir_eof_def file_eof_def push_bytes)

lemma length_withName [simp]: "length (withName f b dn) = length dn + 20"
  by (simp add: withName_eq)

lemma length_genf [simp]: "length (genf d n) = length n + length d + 8"
  by (simp add: genf_eq)

lemma segment_append:
  "segment m off (xs @ ys) \<longleftrightarrow> segment m off xs \<and> segment m (off + length xs) ys"
proof (cases "off + length (xs @ ys) \<le> length m")
  case True
  have "take (length xs + length ys) (drop off m) =
      take (length xs) (drop off m) @ take (length ys) (drop (off + length xs) m)"
    by (simp add: take_add add.commute)
  moreover have "length (take (length xs) (drop off m)) = length xs"
    using True by simp
  ultimately show ?thesis
    using True unfolding segment_def by (simp add: append_eq_append_conv)
next
  case False
  then show ?thesis
    by (simp add: segment_def)
qed

lemma segment_rd32:
  assumes "segment m off (bytes32 v)" and "length m < 2 ^ 32"
  shows "rd32 m (word_of_nat off) = Inr v"
proof -
  have off: "off + 4 \<le> length m" and eq: "take 4 (drop off m) = bytes32 v"
    using assms(1) by (auto simp: segment_def)
  have nth: "m ! (off + i) = bytes32 v ! i" if "i < 4" for i
    using arg_cong [OF eq, of "\<lambda>l. l ! i"] that off by simp
  have "unat (word_of_nat off :: u32) = off"
    using assms(2) off by simp
  moreover have "m ! off = bytes32 v ! 0"
    using nth [of 0] by simp
  ultimately show ?thesis
    using off nth [of 1] nth [of 2] nth [of 3] by (simp add: rd32_def bytes32_def)
qed

lemma segment_rd16:
  assumes "segment m off (bytes16 v)" and "length m < 2 ^ 32"
  shows "rd16 m (word_of_nat off) = Inr v"
proof -
  have off: "off + 2 \<le> length m" and eq: "take 2 (drop off m) = bytes16 v"
    using assms(1) by (auto simp: segment_def)
  have nth: "m ! (off + i) = bytes16 v ! i" if "i < 2" for i
    using arg_cong [OF eq, of "\<lambda>l. l ! i"] that off by simp
  have "unat (word_of_nat off :: u32) = off"
    using assms(2) off by simp
  moreover have "m ! off = bytes16 v ! 0"
    using nth [of 0] by simp
  ultimately show ?thesis
    using off nth [of 1] by (simp add: rd16_def bytes16_def)
qed

end
