(* ===== verification/RivFsRoundtrip.thy ===== *)
theory RivFsRoundtrip
  imports GenFs
begin

text \<open>
  The reader of \<^verbatim>\<open>rivfs.hpp\<close> against the builder of \<^verbatim>\<open>genfs\<close>: the specification is lookup
  of a path in the tree of directories that went into the image.
\<close>

section \<open>The specification: lookup in the tree\<close>

fun files_of :: "fsnode list \<Rightarrow> (u8 list \<times> u8 list) list" where
  "files_of [] = []"
| "files_of (FFile n d # es) = (n, d) # files_of es"
| "files_of (FDir n sub # es) = files_of es"

fun dirs_of :: "fsnode list \<Rightarrow> (u8 list \<times> fsnode list) list" where
  "dirs_of [] = []"
| "dirs_of (FFile n d # es) = dirs_of es"
| "dirs_of (FDir n sub # es) = (n, sub) # dirs_of es"

fun lookup_path :: "fsnode list \<Rightarrow> u8 list list \<Rightarrow> u8 list option" where
  "lookup_path es [] = None"
| "lookup_path es [n] = map_of (files_of es) n"
| "lookup_path es (n # c # cs) =
     (case map_of (dirs_of es) n of None \<Rightarrow> None | Some sub \<Rightarrow> lookup_path sub (c # cs))"

text \<open>Names a path can hold, and directories whose counts fit their 16-bit fields.\<close>

definition name_ok :: "u8 list \<Rightarrow> bool" where
  "name_ok n \<longleftrightarrow> n \<noteq> [] \<and> SLASH \<notin> set n \<and> 0 \<notin> set n"

fun node_ok :: "fsnode \<Rightarrow> bool" where
  "node_ok (FFile n d) = name_ok n"
| "node_ok (FDir n sub) = (name_ok n \<and> length (files_of sub) < 2 ^ 16 \<and> length (dirs_of sub) < 2 ^ 16
     \<and> list_all node_ok sub)"

definition tree_ok :: "fsnode list \<Rightarrow> bool" where
  "tree_ok es \<longleftrightarrow> length (files_of es) < 2 ^ 16 \<and> length (dirs_of es) < 2 ^ 16 \<and> list_all node_ok es"

fun join :: "u8 list list \<Rightarrow> u8 list" where
  "join [] = []"
| "join [n] = n"
| "join (n # c # cs) = n @ SLASH # join (c # cs)"

lemma tree_ok_files: "list_all node_ok es \<Longrightarrow> (n, d) \<in> set (files_of es) \<Longrightarrow> name_ok n"
  by (induction es rule: files_of.induct) auto

lemma tree_ok_dirs: "list_all node_ok es \<Longrightarrow> (n, sub) \<in> set (dirs_of es) \<Longrightarrow> name_ok n \<and> tree_ok sub"
  by (induction es rule: dirs_of.induct) (auto simp: tree_ok_def)

section \<open>Scanning well-laid-out entries\<close>

fun files_at :: "u8 list \<Rightarrow> nat \<Rightarrow> (u8 list \<times> u8 list) list \<Rightarrow> bool" where
  "files_at m off [] = segment m off (bytes32 0)"
| "files_at m off ((n, d) # fs) =
     (segment m off (genf d n) \<and> files_at m (off + length n + length d + 8) fs)"

fun dirs_at :: "u8 list \<Rightarrow> nat \<Rightarrow> (u8 list \<times> builtDir) list \<Rightarrow> bool" where
  "dirs_at m off [] = segment m off (bytes32 0)"
| "dirs_at m off ((n, b) # ps) =
     ((\<exists>f. segment m off (withName f b n)) \<and> dirs_at m (off + length n + 20) ps)"

definition names :: "sview \<Rightarrow> u8 list \<Rightarrow> bool" where
  "names s n \<longleftrightarrow> unat (sv_len s) = length n \<and> take (length n) (sv_raw s) = n"

lemma segment_bound: "segment m off bs \<Longrightarrow> off + length bs \<le> length m"
  by (simp add: segment_def)

lemma same_name_segment:
  assumes "segment m (off + 4) n" and "length m < 2 ^ 32" and "names needed nb"
  shows "same_name m (word_of_nat off) (word_of_nat (length n)) needed = Inr (n = nb)"
proof -
  have b: "off + 4 + length n \<le> length m"
    using segment_bound [OF assms(1)] by simp
  have "(word_of_nat off + 4 :: u32) = word_of_nat (off + 4)"
    by simp
  then have off: "unat (word_of_nat off + 4 :: u32) = off + 4"
    using b assms(2) by (simp del: of_nat_add)
  have len: "unat (word_of_nat (length n) :: u32) = length n"
    using b assms(2) by simp
  show ?thesis
  proof (cases "length n = length nb")
    case True
    then have eq: "word_of_nat (length n) = sv_len needed"
      using assms(3) len by (simp add: names_def word_unat_eq_iff)
    moreover have "length nb \<le> length (sv_raw needed)"
      using assms(3) by (metis names_def length_take min.absorb_iff2 min.commute)
    ultimately show ?thesis
      using assms(1,3) b off len True
      by (simp add: same_name_def entry_name_def sv_cmp_eq names_def segment_def)
  next
    case False
    then have "word_of_nat (length n) \<noteq> sv_len needed"
      using assms(3) len by (auto simp: names_def)
    with False show ?thesis
      by (auto simp: same_name_def)
  qed
qed

text \<open>The position and content of the first file of a list with a given name.\<close>

fun file_pos :: "(u8 list \<times> u8 list) list \<Rightarrow> u8 list \<Rightarrow> nat \<Rightarrow> (nat \<times> u8 list) option" where
  "file_pos [] nm off = None"
| "file_pos ((n, d) # L) nm off =
     (if n = nm then Some (off, d) else file_pos L nm (off + length n + length d + 8))"

fun dir_pos :: "(u8 list \<times> builtDir) list \<Rightarrow> u8 list \<Rightarrow> nat \<Rightarrow> (nat \<times> builtDir) option" where
  "dir_pos [] nm off = None"
| "dir_pos ((n, b) # L) nm off =
     (if n = nm then Some (off, b) else dir_pos L nm (off + length n + 20))"

lemma map_of_file_pos: "map_of L nm = map_option snd (file_pos L nm off)"
  by (induction L nm off rule: file_pos.induct) auto

lemma map_of_dir_pos: "map_of L nm = map_option snd (dir_pos L nm off)"
  by (induction L nm off rule: dir_pos.induct) auto

lemma file_pos_segment:
  "files_at m off L \<Longrightarrow> file_pos L nm off = Some (p, d) \<Longrightarrow> segment m p (genf d nm)"
  by (induction L nm off rule: file_pos.induct) (auto split: if_splits)

lemma dir_pos_segment:
  "dirs_at m off L \<Longrightarrow> dir_pos L nm off = Some (p, b) \<Longrightarrow> \<exists>f. segment m p (withName f b nm)"
  by (induction L nm off rule: dir_pos.induct) (auto split: if_splits)

definition rfile_at :: "rivfs \<Rightarrow> nat \<Rightarrow> u8 list \<Rightarrow> rfile" where
  "rfile_at fs p n = \<lparr>startPos = rawFsMemloc fs + word_of_nat p,
                      contsSvPos = rawFsMemloc fs + word_of_nat p + 4 + word_of_nat (length n)\<rparr>"

lemma of_nat_neq_0: "0 < n \<Longrightarrow> n < 2 ^ 32 \<Longrightarrow> (word_of_nat n :: u32) \<noteq> 0"
  by (metis unat_of_nat32 unat_0 less_irrefl)

lemma genf_segments:
  assumes "segment m off (genf d n)"
  shows "segment m off (bytes32 (word_of_nat (length n)))" and "segment m (off + 4) n"
    and "segment m (off + 4 + length n) (bytes32 (word_of_nat (length d)))"
    and "segment m (off + 8 + length n) d"
  using assms by (simp_all add: genf_eq segment_append add.commute add.left_commute)

lemma scan_files_spec:
  assumes "files_at (rawFs fs) off L" and "length (rawFs fs) < 2 ^ 32" and "names needed nm"
    and "\<forall>(n, d) \<in> set L. n \<noteq> []"
  shows "scan_files fs needed (length L) (word_of_nat off) =
     Inr (map_option (\<lambda>(p, d). rfile_at fs p nm) (file_pos L nm off))"
  using assms(1,4)
proof (induction L arbitrary: off)
  case Nil
  then show ?case by simp
next
  case (Cons x L)
  obtain n d where x: "x = (n, d)"
    by (cases x)
  have seg: "segment (rawFs fs) off (genf d n)"
    and rest: "files_at (rawFs fs) (off + length n + length d + 8) L"
    using Cons.prems(1) x by auto
  note s = genf_segments [OF seg]
  have b: "off + 8 + length n + length d \<le> length (rawFs fs)"
    using segment_bound [OF seg] by simp
  have nz: "(word_of_nat (length n) :: u32) \<noteq> 0"
    using of_nat_neq_0 Cons.prems(2) x b assms(2) by auto
  have rd: "rd32 (rawFs fs) (word_of_nat off) = Inr (word_of_nat (length n))"
    using segment_rd32 [OF s(1) assms(2)] .
  have rd2: "rd32 (rawFs fs) (word_of_nat off + 4 + word_of_nat (length n)) = Inr (word_of_nat (length d))"
    using segment_rd32 [OF s(3) assms(2)] by simp
  have nxt: "(word_of_nat off + 4 + word_of_nat (length n) + 4 + word_of_nat (length d) :: u32) =
      word_of_nat (off + length n + length d + 8)"
    by simp
  show ?case
    using Cons.IH [OF rest] Cons.prems(2) same_name_segment [OF s(2) assms(2,3)] rd rd2 nz nxt x
    by (simp add: rfile_at_def del: of_nat_add)
qed

lemma withName_segments:
  assumes "segment m off (withName f b n)"
  shows "segment m off (bytes32 (word_of_nat (length n)))" and "segment m (off + 4) n"
    and "segment m (off + 4 + length n) (bytes16 (bd_dirHdrAm b))"
    and "segment m (off + 6 + length n) (bytes16 (bd_fAm b))"
    and "segment m (off + 8 + length n) (bytes32 (bd_dirstart b))"
    and "segment m (off + 12 + length n) (bytes32 (bd_fstart b))"
  using assms by (simp_all add: withName_eq segment_append add.commute add.left_commute)

lemma scan_dirs_spec:
  assumes "dirs_at m off L" and "length m < 2 ^ 32" and "names needed nm"
    and "\<forall>(n, b) \<in> set L. n \<noteq> []"
  shows "scan_dirs m needed (length L) (word_of_nat off) =
     Inr (map_option (\<lambda>(p, b). word_of_nat p) (dir_pos L nm off))"
  using assms(1,4)
proof (induction L arbitrary: off)
  case Nil
  then show ?case by simp
next
  case (Cons x L)
  obtain n b where x: "x = (n, b)"
    by (cases x)
  obtain f where seg: "segment m off (withName f b n)"
    and rest: "dirs_at m (off + length n + 20) L"
    using Cons.prems(1) x by auto
  note s = withName_segments [OF seg]
  have b: "off + length n + 20 \<le> length m"
    using segment_bound [OF seg] by simp
  have nz: "(word_of_nat (length n) :: u32) \<noteq> 0"
    using of_nat_neq_0 Cons.prems(2) x b assms(2) by auto
  have rd: "rd32 m (word_of_nat off) = Inr (word_of_nat (length n))"
    using segment_rd32 [OF s(1) assms(2)] .
  have nxt: "(word_of_nat off + 4 + word_of_nat (length n) + SIZEOF_LATTER :: u32) =
      word_of_nat (off + length n + 20)"
    by (simp add: SIZEOF_LATTER_def)
  show ?case
    using Cons.IH [OF rest] Cons.prems(2) same_name_segment [OF s(2) assms(2,3)] rd nz nxt x
    by (simp del: of_nat_add)
qed

section \<open>What the builder leaves in the image\<close>

inductive dir_ok :: "u8 list \<Rightarrow> builtDir \<Rightarrow> fsnode list \<Rightarrow> bool"
  and subs_ok :: "u8 list \<Rightarrow> (u8 list \<times> builtDir) list \<Rightarrow> (u8 list \<times> fsnode list) list \<Rightarrow> bool"
where
  dir_okI: "35 \<le> unat (bd_fstart b) \<Longrightarrow> files_at m (unat (bd_fstart b)) (files_of es) \<Longrightarrow>
    unat (bd_fAm b) = length (files_of es) \<Longrightarrow> subs_ok m ps (dirs_of es) \<Longrightarrow>
    35 \<le> unat (bd_dirstart b) \<Longrightarrow> dirs_at m (unat (bd_dirstart b)) ps \<Longrightarrow>
    unat (bd_dirHdrAm b) = length ps \<Longrightarrow> dir_ok m b es"
| subs_ok_Nil: "subs_ok m [] []"
| subs_ok_Cons: "dir_ok m b sub \<Longrightarrow> subs_ok m ps ds \<Longrightarrow> subs_ok m ((n, b) # ps) ((n, sub) # ds)"

inductive_cases dir_okE: "dir_ok m b es"
lemma subs_ok_length: "subs_ok m ps ds \<Longrightarrow> length ps = length ds"
  by (induction ps arbitrary: ds) (auto elim: subs_ok.cases)

inductive_cases subs_ok_ConsE: "subs_ok m ps ((n, sub) # ds)"

text \<open>Changes of the image that keep what lies behind its two headers.\<close>

definition keeps :: "u8 list \<Rightarrow> u8 list \<Rightarrow> bool" where
  "keeps m m' \<longleftrightarrow> (\<forall>off bs. 35 \<le> off \<longrightarrow> segment m off bs \<longrightarrow> segment m' off bs)"

lemma keeps_refl [simp]: "keeps m m"
  by (simp add: keeps_def)

lemma keeps_append [simp]: "keeps m (m @ x)"
  by (auto simp: keeps_def segment_def)

lemma keeps_headers:
  "length hdr = 35 \<Longrightarrow> keeps m (hdr @ drop 35 m)"
  by (auto simp: keeps_def segment_def)

lemma files_at_keeps: "keeps m m' \<Longrightarrow> 35 \<le> off \<Longrightarrow> files_at m off L \<Longrightarrow> files_at m' off L"
  by (induction m off L rule: files_at.induct) (auto simp: keeps_def)

lemma dirs_at_keeps: "keeps m m' \<Longrightarrow> 35 \<le> off \<Longrightarrow> dirs_at m off L \<Longrightarrow> dirs_at m' off L"
  by (induction m off L rule: dirs_at.induct) (auto simp: keeps_def)

lemma dir_ok_keeps:
  shows "dir_ok m b es \<Longrightarrow> keeps m m' \<Longrightarrow> dir_ok m' b es"
    and "subs_ok m ps ds \<Longrightarrow> keeps m m' \<Longrightarrow> subs_ok m' ps ds"
  by (induction rule: dir_ok_subs_ok.inducts)
    (auto intro!: dir_ok_subs_ok.intros intro: files_at_keeps dirs_at_keeps)

lemma writeFiles_eq:
  "writeFiles buf k es = (buf @ concat (List.map (\<lambda>(n, d). genf d n) (files_of es)),
                          k + word_of_nat (length (files_of es)))"
  by (induction buf k es rule: writeFiles.induct) (auto simp: add.assoc)

lemma files_at_written:
  "files_at (buf @ concat (List.map (\<lambda>(n, d). genf d n) L) @ file_eof @ x) (length buf) L"
proof (induction L arbitrary: buf)
  case Nil
  then show ?case by (simp add: segment_def eof_eq)
next
  case (Cons y L)
  obtain n d where y: "y = (n, d)"
    by (cases y)
  have "segment (buf @ genf d n @ z) (length buf) (genf d n)" for z
    by (simp add: segment_def)
  moreover have "files_at ((buf @ genf d n) @ concat (List.map (\<lambda>(n, d). genf d n) L) @ file_eof @ x)
      (length (buf @ genf d n)) L"
    by (rule Cons.IH)
  then have "files_at (buf @ genf d n @ concat (List.map (\<lambda>(n, d). genf d n) L) @ file_eof @ x)
      (length buf + length n + length d + 8) L"
    by (simp add: add.assoc)
  ultimately show ?case
    using y by simp
qed

lemma writeDirs_append: "\<exists>x. writeDirs junk buf ps = buf @ x"
  by (induction junk buf ps rule: writeDirs.induct) auto

lemma dirs_at_written: "dirs_at (writeDirs junk buf ps @ dir_eof @ x) (length buf) ps"
proof (induction junk buf ps rule: writeDirs.induct)
  case (1 junk buf)
  then show ?case by (simp add: segment_def eof_eq)
next
  case (2 junk buf name b ps)
  let ?w = "withName (junk (word_of_nat (length buf))) b name"
  obtain y where "writeDirs junk (buf @ ?w) ps = (buf @ ?w) @ y"
    using writeDirs_append by blast
  then have "segment (writeDirs junk (buf @ ?w) ps @ dir_eof @ x) (length buf) ?w"
    by (simp add: segment_def)
  with 2 show ?case
    by (auto simp: add.assoc)
qed

lemma writeFileList_eq:
  "writeFileList buf es = (word_of_nat (length buf), word_of_nat (length (files_of es)),
     buf @ concat (List.map (\<lambda>(n, d). genf d n) (files_of es)) @ file_eof)"
  by (simp add: writeFileList_def writeFiles_eq)

lemma build_append:
  shows "\<exists>x. fst (buildDir junk buf es) = buf @ x"
    and "\<exists>x. fst (buildSubdirs junk buf es) = buf @ x"
proof (induction junk buf es and junk buf es rule: buildDir_buildSubdirs.induct)
  case (1 junk buf es)
  let ?b1 = "buf @ concat (List.map (\<lambda>(n, d). genf d n) (files_of es)) @ file_eof"
  obtain x where x: "fst (buildSubdirs junk ?b1 es) = ?b1 @ x"
    using 1 [OF writeFileList_eq [symmetric] refl refl] by auto
  obtain b2 ps where s: "buildSubdirs junk ?b1 es = (b2, ps)"
    by (cases "buildSubdirs junk ?b1 es")
  obtain y where "writeDirs junk b2 ps = b2 @ y"
    using writeDirs_append by blast
  with x s show ?case
    by (simp add: writeFileList_eq)
next
  case (4 junk buf name sub es)
  obtain b1 b where d: "buildDir junk buf sub = (b1, b)"
    by (cases "buildDir junk buf sub")
  obtain b2 ps where s: "buildSubdirs junk b1 es = (b2, ps)"
    by (cases "buildSubdirs junk b1 es")
  obtain x y where "b1 = buf @ x" and "b2 = b1 @ y"
    using "4.IH"(1) "4.IH"(2) [OF d [symmetric] refl] d s by auto
  with d s show ?case
    by (simp del: buildDir.simps)
qed auto

text \<open>
  The builder's result, by induction over the tree: whatever it has appended since describes the
  directory, as long as the image stays below 4 GiB and the counts fit.
\<close>

lemma build_ok:
  shows "buildDir junk buf es = (m, b) \<Longrightarrow> tree_ok es \<Longrightarrow> 35 \<le> length buf \<Longrightarrow> length m < 2 ^ 32 \<Longrightarrow>
      dir_ok m b es"
    and "buildSubdirs junk buf es = (m, ps) \<Longrightarrow> list_all node_ok es \<Longrightarrow> 35 \<le> length buf \<Longrightarrow>
      length m < 2 ^ 32 \<Longrightarrow> subs_ok m ps (dirs_of es)"
proof (induction junk buf es and junk buf es arbitrary: m b and m ps
    rule: buildDir_buildSubdirs.induct)
  case (1 junk buf es)
  let ?c = "concat (List.map (\<lambda>(n, d). genf d n) (files_of es))"
  let ?b1 = "buf @ ?c @ file_eof"
  obtain b2 ps where s: "buildSubdirs junk ?b1 es = (b2, ps)"
    by (cases "buildSubdirs junk ?b1 es")
  obtain y where y: "writeDirs junk b2 ps = b2 @ y"
    using writeDirs_append by blast
  obtain x where x: "b2 = ?b1 @ x"
    using build_append(2) [of junk ?b1 es] s by auto
  have m: "m = b2 @ y @ dir_eof" and mw: "m = writeDirs junk b2 ps @ dir_eof @ []"
    and b: "b = \<lparr>bd_dirstart = word_of_nat (length b2), bd_fstart = word_of_nat (length buf),
      bd_dirHdrAm = word_of_nat (length ps), bd_fAm = word_of_nat (length (files_of es))\<rparr>"
    using "1.prems"(1) s y by (simp_all add: writeFileList_eq)
  have l: "length buf < 2 ^ 32" "length b2 < 2 ^ 32" "35 \<le> length b2"
    using "1.prems"(3,4) m x by simp_all
  have "subs_ok b2 ps (dirs_of es)"
    using "1.IH" [OF writeFileList_eq [symmetric] refl refl s] "1.prems"(2,3) l(2) by (simp add: tree_ok_def)
  then have subs: "subs_ok m ps (dirs_of es)"
    using dir_ok_keeps(2) keeps_append m by simp
  then have len: "length ps = length (dirs_of es)"
    by (rule subs_ok_length)
  have "files_at m (length buf) (files_of es)"
    using files_at_written [of buf "files_of es" "x @ y @ dir_eof"] m x by simp
  moreover have "dirs_at m (length b2) ps"
    unfolding mw by (rule dirs_at_written)
  ultimately show ?case
    using subs len l "1.prems"(2,3) by (intro dir_okI [where ps = ps]) (simp_all add: b tree_ok_def)
next
  case (4 junk buf name sub es)
  obtain b1 b where d: "buildDir junk buf sub = (b1, b)"
    by (cases "buildDir junk buf sub")
  obtain b2 qs where s: "buildSubdirs junk b1 es = (b2, qs)"
    by (cases "buildSubdirs junk b1 es")
  obtain x where x: "b2 = b1 @ x"
    using build_append(2) [of junk b1 es] s by auto
  obtain y where y: "b1 = buf @ y"
    using build_append(1) [of junk buf sub] d by auto
  have mp: "m = b2" "ps = (name, b) # qs"
    using "4.prems"(1) d s by (simp_all del: buildDir.simps)
  have "dir_ok b1 b sub"
    using "4.IH"(1) [OF d] "4.prems"(2-4) mp x by (simp add: tree_ok_def)
  then have "dir_ok b2 b sub"
    using dir_ok_keeps(1) x by simp
  moreover have "subs_ok b2 qs (dirs_of es)"
    using "4.IH"(2) [OF d [symmetric] refl s] "4.prems"(2-4) mp y by simp
  ultimately show ?case
    using mp by (auto intro: dir_ok_subs_ok.intros)
qed (auto intro: dir_ok_subs_ok.intros)

section \<open>Looking up in a well-formed image\<close>

definition opens :: "rivfs \<Rightarrow> u8 list \<Rightarrow> u8 list option \<Rightarrow> rfile option \<Rightarrow> bool" where
  "opens fs nm spec r = (case spec of None \<Rightarrow> r = None
     | Some d \<Rightarrow> \<exists>p. segment (rawFs fs) p (genf d nm) \<and> r = Some (rfile_at fs p nm))"

lemma dir_files:
  assumes "dir_ok (rawFs fs) b es" and "tree_ok es" and "length (rawFs fs) < 2 ^ 32" and "names needed nm"
  obtains r where "scan_files fs needed (unat (bd_fAm b)) (bd_fstart b) = Inr r"
    and "opens fs nm (map_of (files_of es) nm) r"
proof -
  let ?p = "file_pos (files_of es) nm (unat (bd_fstart b))"
  have at: "files_at (rawFs fs) (unat (bd_fstart b)) (files_of es)"
    and len: "unat (bd_fAm b) = length (files_of es)"
    using assms(1) by (auto elim: dir_okE)
  have "\<forall>(n, d) \<in> set (files_of es). n \<noteq> []"
    using tree_ok_files assms(2) by (fastforce simp: tree_ok_def name_ok_def)
  note scan_files_spec [OF at assms(3,4) this]
  then have "scan_files fs needed (unat (bd_fAm b)) (bd_fstart b) =
      Inr (map_option (\<lambda>(p, d). rfile_at fs p nm) ?p)"
    by (simp add: len)
  moreover have "opens fs nm (map_of (files_of es) nm) (map_option (\<lambda>(p, d). rfile_at fs p nm) ?p)"
    using file_pos_segment [OF at]
    by (auto simp: opens_def map_of_file_pos [of _ _ "unat (bd_fstart b)"] split: option.split)
  ultimately show thesis
    by (rule that)
qed

lemma subs_ok_dir_pos:
  "subs_ok m ps ds \<Longrightarrow> dir_pos ps nm off = None \<longleftrightarrow> map_of ds nm = None"
  "subs_ok m ps ds \<Longrightarrow> dir_pos ps nm off = Some (p, b) \<Longrightarrow>
     \<exists>sub. map_of ds nm = Some sub \<and> dir_ok m b sub"
  by (induction ds arbitrary: ps off)
    (auto elim!: subs_ok_ConsE elim: subs_ok.cases split: if_splits)

lemma subs_ok_names: "subs_ok m ps ds \<Longrightarrow> List.map fst ps = List.map fst ds"
  by (induction ds arbitrary: ps) (auto elim!: subs_ok_ConsE elim: subs_ok.cases)

lemma dir_dirs:
  assumes "dir_ok m b es" and "tree_ok es" and "length m < 2 ^ 32" and "names needed nm"
  obtains "scan_dirs m needed (unat (bd_dirHdrAm b)) (bd_dirstart b) = Inr None"
      and "map_of (dirs_of es) nm = None"
  | p b' sub f where "scan_dirs m needed (unat (bd_dirHdrAm b)) (bd_dirstart b) = Inr (Some (word_of_nat p))"
      and "map_of (dirs_of es) nm = Some sub" and "dir_ok m b' sub" and "tree_ok sub"
      and "segment m p (withName f b' nm)"
proof -
  obtain ps where subs: "subs_ok m ps (dirs_of es)"
    and at: "dirs_at m (unat (bd_dirstart b)) ps" and len: "unat (bd_dirHdrAm b) = length ps"
    using assms(1) by (auto elim: dir_okE)
  have "n \<noteq> []" if "(n, c) \<in> set ps" for n c
  proof -
    have "n \<in> fst ` set ps"
      using that by force
    then have "n \<in> fst ` set (dirs_of es)"
      using subs_ok_names [OF subs] by (metis list.set_map)
    then show ?thesis
      using tree_ok_dirs assms(2) by (force simp: tree_ok_def name_ok_def)
  qed
  then have "\<forall>(n, c) \<in> set ps. n \<noteq> []"
    by auto
  note scan = scan_dirs_spec [OF at assms(3,4) this]
  let ?p = "dir_pos ps nm (unat (bd_dirstart b))"
  show thesis
  proof (cases ?p)
    case None
    then show thesis
      using scan subs_ok_dir_pos(1) [OF subs, of nm] len that(1) by simp
  next
    case (Some y)
    obtain p b' where y: "y = (p, b')"
      by (cases y)
    obtain sub where sub: "map_of (dirs_of es) nm = Some sub" and ok: "dir_ok m b' sub"
      using subs_ok_dir_pos(2) [OF subs] Some y by blast
    obtain f where "segment m p (withName f b' nm)"
      using dir_pos_segment [OF at] Some y by blast
    moreover have "tree_ok sub"
      using tree_ok_dirs map_of_SomeD [OF sub] assms(2) by (auto simp: tree_ok_def)
    moreover have "scan_dirs m needed (unat (bd_dirHdrAm b)) (bd_dirstart b) = Inr (Some (word_of_nat p))"
      using scan Some y len by simp
    ultimately show thesis
      using that(2) sub ok by blast
  qed
qed

section \<open>Paths\<close>

definition pathv :: "sview \<Rightarrow> u8 list list \<Rightarrow> bool" where
  "pathv fn cs \<longleftrightarrow> (\<exists>t. sv_raw fn = join cs @ 0 # t) \<and> unat (sv_len fn) = length (join cs) \<and>
     length (join cs) + 2 < 2 ^ 32 \<and> cs \<noteq> [] \<and> list_all name_ok cs"

lemma terminated_append [simp]: "terminated (s @ 0 # t)"
  by (induction s) auto

lemma join_nul: "list_all name_ok cs \<Longrightarrow> 0 \<notin> set (join cs)"
  by (induction cs rule: join.induct) (auto simp: name_ok_def SLASH_def)

lemma join_Cons: "join (n # cs) = n @ (if cs = [] then [] else SLASH # join cs)"
  by (cases cs) auto

lemma takeWhile_notin: "x \<notin> set n \<Longrightarrow> takeWhile (\<lambda>c. c \<noteq> x) n = n"
  by (induction n) auto

lemma takeWhile_append_in: "x \<notin> set n \<Longrightarrow> takeWhile (\<lambda>c. c \<noteq> x) (n @ x # t) = n"
  by (induction n) auto

lemma takeWhile_join:
  "name_ok n \<Longrightarrow> takeWhile (\<lambda>c. c \<noteq> SLASH) (join (n # cs)) = n"
  by (simp add: join_Cons name_ok_def takeWhile_notin takeWhile_append_in)

lemma slash_in_join: "name_ok n \<Longrightarrow> SLASH \<in> set (join (n # cs)) \<longleftrightarrow> cs \<noteq> []"
  by (simp add: join_Cons name_ok_def)

lemma findChar_join:
  assumes "list_all name_ok (n # cs)"
  shows "findChar (join (n # cs) @ 0 # t) SLASH = Inr (if cs = [] then 0 else word_of_nat (length n))"
  using assms by (simp add: findChar_eq cstr_append_nul join_nul takeWhile_join slash_in_join
      del: join.simps)

lemma pathv_Cons:
  assumes "pathv fn (n # cs)"
  shows "sv_toCStr fn = Inr (join (n # cs) @ [0])"
    and "findChar (sv_raw fn) SLASH = Inr (if cs = [] then 0 else word_of_nat (length n))"
    and "names (sv (sv_raw fn) (if cs = [] then sv_len fn else word_of_nat (length n))) n"
    and "(word_of_nat (length n) :: u32) \<noteq> 0"
proof -
  obtain t where t: "sv_raw fn = join (n # cs) @ 0 # t"
    using assms by (auto simp: pathv_def)
  have "sv_valid fn" and "sv_bytes fn = join (n # cs)"
    using assms t by (auto simp: pathv_def sv_valid_def sv_bytes_def)
  then show "sv_toCStr fn = Inr (join (n # cs) @ [0])"
    by (simp add: sv_toCStr_spec)
  show "findChar (sv_raw fn) SLASH = Inr (if cs = [] then 0 else word_of_nat (length n))"
    using t findChar_join assms by (simp add: pathv_def)
  have l: "0 < length n" "length n < 2 ^ 32"
    using assms by (auto simp: pathv_def join_Cons name_ok_def)
  then show "(word_of_nat (length n) :: u32) \<noteq> 0"
    by (rule of_nat_neq_0)
  show "names (sv (sv_raw fn) (if cs = [] then sv_len fn else word_of_nat (length n))) n"
    using assms t l by (auto simp: names_def pathv_def join_Cons)
qed

lemma pathv_rest:
  assumes "pathv fn (n # c # cs)"
  defines "consumed \<equiv> word_of_nat (length n) + 1"
  shows "consumed < sv_len fn"
    and "pathv (sv (drop (unat consumed) (sv_raw fn)) (sv_len fn - consumed)) (c # cs)"
proof -
  obtain t where t: "sv_raw fn = join (n # c # cs) @ 0 # t"
    and l: "unat (sv_len fn) = length n + 1 + length (join (c # cs))"
    and b: "length n + 1 + length (join (c # cs)) + 2 < 2 ^ 32"
    using assms by (auto simp: pathv_def)
  have "unat (word_of_nat (length n + 1) :: u32) = length n + 1"
    using b by (intro unat_of_nat32) simp
  then have u: "unat consumed = length n + 1"
    by (simp add: consumed_def add.commute)
  have ne: "join (c # cs) \<noteq> []"
    using assms(1) by (auto simp: pathv_def join_Cons name_ok_def)
  then show "consumed < sv_len fn"
    using u l by (simp add: word_less_nat_alt)
  then have "unat (sv_len fn - consumed) = length (join (c # cs))"
    using u l by (simp add: unat_sub word_le_nat_alt word_less_nat_alt)
  then show "pathv (sv (drop (unat consumed) (sv_raw fn)) (sv_len fn - consumed)) (c # cs)"
    using assms(1) b t u by (auto simp: pathv_def)
qed

section \<open>\<open>findInDir\<close> and \<open>open\<close>\<close>

lemma withName_reads:
  assumes "segment m off (withName f b dn)" and "length m < 2 ^ 32"
  shows "rd32 m (word_of_nat off) = Inr (word_of_nat (length dn))"
    and "hdr_dirHdrAm m (word_of_nat off + 4 + word_of_nat (length dn)) = Inr (bd_dirHdrAm b)"
    and "hdr_fAm m (word_of_nat off + 4 + word_of_nat (length dn)) = Inr (bd_fAm b)"
    and "hdr_dirstart m (word_of_nat off + 4 + word_of_nat (length dn)) = Inr (bd_dirstart b)"
    and "hdr_fstart m (word_of_nat off + 4 + word_of_nat (length dn)) = Inr (bd_fstart b)"
  using segment_rd32 [OF withName_segments(1) [OF assms(1)] assms(2)]
    segment_rd16 [OF withName_segments(3) [OF assms(1)] assms(2)]
    segment_rd16 [OF withName_segments(4) [OF assms(1)] assms(2)]
    segment_rd32 [OF withName_segments(5) [OF assms(1)] assms(2)]
    segment_rd32 [OF withName_segments(6) [OF assms(1)] assms(2)]
  by (simp_all add: hdr_dirHdrAm_def hdr_fAm_def hdr_dirstart_def hdr_fstart_def add_ac)

lemma findInDir_file:
  assumes "dir_ok (rawFs fs) b es" and "segment (rawFs fs) off (withName f b dn)"
    and "tree_ok es" and "length (rawFs fs) < 2 ^ 32" and "pathv fn [n]"
  shows "\<exists>r. findInDir (Suc k) fs (word_of_nat off) fn False = Inr r \<and>
             opens fs n (map_of (files_of es) n) r"
proof -
  note p = pathv_Cons [OF assms(5)]
  have c: "findChar (join [n] @ [0]) SLASH = Inr 0"
    using findChar_join [of n "[]" "[]"] assms(5) by (simp add: pathv_def)
  obtain r where "scan_files fs (sv (sv_raw fn) (sv_len fn)) (unat (bd_fAm b)) (bd_fstart b) = Inr r"
    and "opens fs n (map_of (files_of es) n) r"
    using dir_files [OF assms(1,3,4)] p(3) by auto
  then show ?thesis
    using p(1) c withName_reads [OF assms(2,4)] by simp
qed

lemma findInDir_correct:
  assumes "dir_ok (rawFs fs) b es" and "segment (rawFs fs) off (withName f b dn)"
    and "tree_ok es" and "length (rawFs fs) < 2 ^ 32" and "pathv fn cs" and "length cs \<le> k"
  shows "\<exists>r. findInDir k fs (word_of_nat off) fn (length cs > 1) = Inr r \<and>
             opens fs (last cs) (lookup_path es cs) r"
  using assms(1-3,5,6)
proof (induction es cs arbitrary: b off f dn fn k rule: lookup_path.induct)
  case (1 es)
  then show ?case
    by (simp add: pathv_def)
next
  case (2 es n)
  then obtain k' where "k = Suc k'"
    by (cases k) auto
  with 2 findInDir_file assms(4) show ?case
    by simp
next
  case (3 es n c cs)
  obtain k' where k: "k = Suc k'" and k': "length (c # cs) \<le> k'"
    using "3.prems"(5) by (cases k) auto
  note p = pathv_Cons [OF "3.prems"(4)] and rest = pathv_rest [OF "3.prems"(4)]
    and reads = withName_reads [OF "3.prems"(2) assms(4)]
  have fc: "findChar (join (n # c # cs) @ [0]) SLASH = Inr (word_of_nat (length n))"
    using findChar_join [of n "c # cs" "[]"] "3.prems"(4) by (simp add: pathv_def)
  have nm: "names (sv (sv_raw fn) (word_of_nat (length n))) n"
    using p(3) by simp
  let ?rem = "sv (drop (unat (word_of_nat (length n) + 1 :: u32)) (sv_raw fn))
                 (sv_len fn - (word_of_nat (length n) + 1))"
  have q: "findChar (sv_raw ?rem) SLASH = Inr (if cs = [] then 0 else word_of_nat (length c))"
    and cz: "(word_of_nat (length c) :: u32) \<noteq> 0"
    using pathv_Cons(2,4) [OF rest(2)] by blast+
  show ?case
    using "3.prems"(1,3) assms(4) nm
  proof (cases rule: dir_dirs)
    case 1
    then show ?thesis
      using p(1,4) fc reads k by (simp add: opens_def del: join.simps)
  next
    case (2 p' b' sub f')
    have "\<exists>r. findInDir k' fs (word_of_nat p') ?rem (length (c # cs) > 1) = Inr r \<and>
        opens fs (last (c # cs)) (lookup_path sub (c # cs)) r"
      by (rule "3.IH" [OF 2(2,3,5,4) rest(2) k'])
    moreover have "\<not> sv_len fn \<le> word_of_nat (length n) + 1"
      using rest(1) by simp
    moreover have "findInDir k fs (word_of_nat off) fn (length (n # c # cs) > 1) =
        findInDir k' fs (word_of_nat p') ?rem (length (c # cs) > 1)"
      using calculation(2) 2(1) p(1,4) fc reads k q cz by (simp add: Let_def del: join.simps)
    ultimately show ?thesis
      using 2(2) by simp
  qed
qed

lemma split_path_join:
  assumes "list_all name_ok cs" and "length (join cs) < 2 ^ 32"
  shows "\<exists>r. split_path (join cs @ 0 # t) = Inr r \<and> length r = length cs \<and>
     (case cs of [] \<Rightarrow> True
      | n # ns \<Rightarrow> hd r = (sv (join cs @ 0 # t) (word_of_nat (length n)), ns \<noteq> []))"
  using assms
proof (induction cs)
  case Nil
  then show ?case by simp
next
  case (Cons n cs)
  obtain c n' where n: "n = c # n'" "c \<noteq> 0"
    using Cons.prems(1) by (cases n) (auto simp: name_ok_def)
  have nb: "length n < 2 ^ 32" "length (join cs) < 2 ^ 32"
    using Cons.prems(2) by (simp_all add: join_Cons split: if_splits)
  have len: "strlenSpecChar (join (n # cs) @ 0 # t) SLASH = Inr (word_of_nat (length n))"
    using Cons.prems(1) by (simp add: strlenSpecChar_eq cstr_append_nul join_nul takeWhile_join
        del: join.simps)
  have nz: "(word_of_nat (length n) :: u32) \<noteq> 0"
    using nb n by (intro of_nat_neq_0) simp_all
  obtain r where r: "split_path (join cs @ 0 # t) = Inr r" and rl: "length r = length cs"
    using Cons.IH Cons.prems(1) nb by auto
  have "drop (unat (word_of_nat (length n) :: u32)) (join (n # cs) @ 0 # t) =
      (if cs = [] then 0 # t else SLASH # join cs @ 0 # t)"
    using nb by (simp add: join_Cons)
  moreover have "split_path (0 # t) = Inr []"
    by simp
  moreover obtain x where "join (n # cs) @ 0 # t = c # x"
    using n by (simp add: join_Cons)
  ultimately have "split_path (join (n # cs) @ 0 # t) =
      Inr ((sv (join (n # cs) @ 0 # t) (word_of_nat (length n)), cs \<noteq> []) # r)"
    using r rl len nz n(2) by (auto simp: SLASH_def)
  then show ?case
    using rl by simp
qed

text \<open>What the two headers of a good image say.\<close>

lemma rivfs_open_dirs:
  assumes "fphOff fs = Some fph" and "hdr_dirHdrAm (rawFs fs) fph = Inr am"
    and "hdr_dirstart (rawFs fs) fph = Inr start"
    and "split_path fp = Inr r" and "\<exists>x r'. r = (v, True) # x # r'"
    and "scan_dirs (rawFs fs) v (unat am) start = Inr (Some off)"
    and "findChar fp SLASH = Inr slash" and "slash \<noteq> 0" and "strlen (SLASH # fp) = Inr (1 + len)"
    and "findChar (drop (unat (slash + 1)) fp) SLASH = Inr q"
  shows "rivfs_open fs (Some (SLASH # fp)) =
    findInDir (Suc (length fp)) fs off (sv (drop (unat (slash + 1)) fp) (len - (slash + 1))) (q \<noteq> 0)"
  using assms by (auto simp: rivfs_open_def fph_of_def diff_diff_add simp del: findInDir.simps)

lemma rivfs_open_correct:
  assumes "fphOff fs = Some fph" and "length (rawFs fs) < 2 ^ 32"
    and "dir_ok (rawFs fs) b es" and "tree_ok es"
    and "hdr_dirHdrAm (rawFs fs) fph = Inr (bd_dirHdrAm b)" and "hdr_fAm (rawFs fs) fph = Inr (bd_fAm b)"
    and "hdr_dirstart (rawFs fs) fph = Inr (bd_dirstart b)" and "hdr_fstart (rawFs fs) fph = Inr (bd_fstart b)"
    and "cs \<noteq> []" and "list_all name_ok cs" and "length (join cs) + 2 < 2 ^ 32"
  shows "\<exists>r. rivfs_open fs (Some (SLASH # join cs @ [0])) = Inr r \<and>
     opens fs (last cs) (lookup_path es cs) r"
proof -
  obtain n ns where cs: "cs = n # ns"
    using assms(9) by (cases cs) auto
  let ?fp = "join cs @ [0]"
  have jl: "length (join cs) < 2 ^ 32"
    using assms(11) by simp
  obtain r where r: "split_path ?fp = Inr r" "length r = length cs"
      "hd r = (sv ?fp (word_of_nat (length n)), ns \<noteq> [])"
    using split_path_join [OF assms(10) jl, of "[]"] cs by auto
  then obtain r' where r': "r = (sv ?fp (word_of_nat (length n)), ns \<noteq> []) # r'"
      "length r' = length ns"
    using cs by (cases r) auto
  have nn: "names (sv ?fp (word_of_nat (length n))) n"
    using assms(11) cs by (simp add: names_def join_Cons)
  show ?thesis
  proof (cases ns)
    case Nil
    obtain x where "scan_files fs (sv ?fp (word_of_nat (length n))) (unat (bd_fAm b)) (bd_fstart b) = Inr x"
      and "opens fs n (map_of (files_of es) n) x"
      using dir_files [OF assms(3,4,2) nn] by auto
    then show ?thesis
      using r(1) r' assms(1,6,8) cs Nil by (simp add: rivfs_open_def fph_of_def)
  next
    case (Cons c cs')
    let ?w = "sv ?fp (word_of_nat (length ?fp - 1))"
    have pv: "pathv ?w (n # c # cs')"
      using assms(10,11) cs Cons unat_of_nat32 [OF jl] by (auto simp: pathv_def)
    note p = pathv_Cons [OF pv] and rest = pathv_rest [OF pv]
    have sl: "strlen (SLASH # ?fp) = Inr (1 + word_of_nat (length (join cs)))"
      using join_nul [OF assms(10)] by (simp add: strlen_eq cstr_append_nul SLASH_def)
    let ?rem = "sv (drop (unat (word_of_nat (length n) + 1 :: u32)) ?fp)
                   (word_of_nat (length (join cs)) - (word_of_nat (length n) + 1))"
    obtain q where q: "findChar (drop (unat (word_of_nat (length n) + 1 :: u32)) ?fp) SLASH = Inr q"
      and qz: "q \<noteq> 0 \<longleftrightarrow> length (c # cs') > 1"
      using pathv_Cons(2,4) [OF rest(2)] by simp
    have fc: "findChar ?fp SLASH = Inr (word_of_nat (length n))"
      using p(2) by simp
    show ?thesis
      using assms(3,4,2) nn
    proof (cases rule: dir_dirs)
      case 1
      then show ?thesis
        using r(1) r' assms(1,5,7) cs Cons by (cases r') (simp_all add: rivfs_open_def fph_of_def opens_def)
    next
      case (2 p' b' sub f')
      have k: "length (c # cs') \<le> Suc (length ?fp)"
      proof -
        have "length cs \<le> Suc (length (join cs))" for cs
          by (induction cs rule: join.induct) auto
        from this [of cs] show ?thesis
          using cs Cons by simp
      qed
      have pvr: "pathv ?rem (c # cs')"
        using rest(2) by (simp add: cs)
      have "\<exists>r. findInDir (Suc (length ?fp)) fs (word_of_nat p') ?rem (length (c # cs') > 1) = Inr r \<and>
          opens fs (last (c # cs')) (lookup_path sub (c # cs')) r"
        by (rule findInDir_correct [OF 2(3,5,4) assms(2) pvr k])
      moreover have "rivfs_open fs (Some (SLASH # ?fp)) =
          findInDir (Suc (length ?fp)) fs (word_of_nat p') ?rem (length (c # cs') > 1)"
        by (rule rivfs_open_dirs [OF assms(1,5,7) r(1) _ 2(1) fc p(4) sl q, unfolded qz])
          (use r' Cons in \<open>cases r', simp_all\<close>)
      ultimately show ?thesis
        using cs Cons 2(2) by simp
    qed
  qed
qed

section \<open>The whole image\<close>

lemma header_lengths:
  "length (RivFsHeader_bytes n p v0 v1 f) = 19" "length (FilePositionHeader_bytes d a s t f) = 16"
  by (simp_all add: RivFsHeader_bytes_def FilePositionHeader_bytes_def push_bytes)

lemma genfs_image_eq:
  assumes "buildDir junk (replicate 35 0) es = (m, b)"
  shows "genfs_image junk es = RivFsHeader_bytes 16 19 0 0 1 @
     FilePositionHeader_bytes (bd_dirHdrAm b) (bd_fAm b) (bd_dirstart b) (bd_fstart b) 0 @ drop 35 m"
proof -
  obtain fstart fAm m1 where w: "writeFileList (replicate 35 0) es = (fstart, fAm, m1)"
    by (cases "writeFileList (replicate 35 0) es")
  obtain m2 ps where s: "buildSubdirs junk m1 es = (m2, ps)"
    by (cases "buildSubdirs junk m1 es")
  have "drop 16 (drop 19 m') = drop 35 m'" for m' :: "u8 list"
    by simp
  then show ?thesis
    using assms w s by (auto simp: genfs_image_def header_lengths)
qed

lemma length_genfs_image:
  assumes "buildDir junk (replicate 35 0) es = (m, b)"
  shows "length (genfs_image junk es) = length m"
proof -
  have "35 \<le> length m"
    using build_append(1) [of junk "replicate 35 0" es] assms by auto
  then show ?thesis
    by (simp add: genfs_image_eq [OF assms] header_lengths)
qed

lemma RivFsHeader_segments:
  assumes "m = RivFsHeader_bytes a b v0 v1 f @ x" and "length m < 2 ^ 32"
  shows "rd32 m 5 = Inr a" and "rd32 m 9 = Inr b" and "rd32 m 15 = Inr f" and "take 5 m = INITIAL_MAGIC"
proof -
  have "segment m 5 (bytes32 a)" "segment m 9 (bytes32 b)" "segment m 15 (bytes32 f)"
    using assms(1)
    by (simp_all add: segment_def RivFsHeader_bytes_def push_bytes drop_Cons' drop_append)
  then show "rd32 m 5 = Inr a" "rd32 m 9 = Inr b" "rd32 m 15 = Inr f"
    using segment_rd32 [of m _ _] assms(2) by fastforce+
  show "take 5 m = INITIAL_MAGIC"
    using assms(1) by (simp add: RivFsHeader_bytes_def push_bytes INITIAL_MAGIC_def)
qed

lemma FilePositionHeader_reads:
  assumes "segment m off (FilePositionHeader_bytes d a s t f)" and "length m < 2 ^ 32"
  shows "hdr_dirHdrAm m (word_of_nat off) = Inr d" and "hdr_fAm m (word_of_nat off) = Inr a"
    and "hdr_dirstart m (word_of_nat off) = Inr s" and "hdr_fstart m (word_of_nat off) = Inr t"
proof -
  have "segment m off (bytes16 d)" "segment m (off + 2) (bytes16 a)"
    and "segment m (off + 4) (bytes32 s)" "segment m (off + 8) (bytes32 t)"
    using assms(1)
    by (simp_all add: FilePositionHeader_bytes_def push_bytes segment_append add.commute eval_nat_numeral)
  then show "hdr_dirHdrAm m (word_of_nat off) = Inr d" and "hdr_fAm m (word_of_nat off) = Inr a"
    and "hdr_dirstart m (word_of_nat off) = Inr s" and "hdr_fstart m (word_of_nat off) = Inr t"
    using segment_rd16 [of m off d] segment_rd16 [of m "off + 2" a]
      segment_rd32 [of m "off + 4" s] segment_rd32 [of m "off + 8" t] assms(2)
    by (simp_all add: hdr_dirHdrAm_def hdr_fAm_def hdr_dirstart_def hdr_fstart_def add_ac)
qed

lemma opened_reads:
  assumes "segment (rawFs fs) p (genf d n)" and "length (rawFs fs) < 2 ^ 32" and "f = rfile_at fs p n"
  shows "filesize fs f = Inr (word_of_nat (length d))"
    and "length d < length obuf \<Longrightarrow>
      rivfs_read fs f obuf = Inr (d @ 0 # drop (Suc (length d)) obuf)"
    and "length obuf \<le> length d \<Longrightarrow> rivfs_read fs f obuf = Inl OutOfBounds"
proof -
  note s = genf_segments [OF assms(1)]
  have b: "p + 8 + length n + length d \<le> length (rawFs fs)"
    using segment_bound [OF assms(1)] by simp
  show size: "filesize fs f = Inr (word_of_nat (length d))"
    using segment_rd32 [OF s(3) assms(2)] assms(3) by (simp add: filesize_def rfile_at_def add.assoc)
  have rd: "rd32 (rawFs fs) (startPos f - rawFsMemloc fs) = Inr (word_of_nat (length n))"
    using segment_rd32 [OF s(1) assms(2)] assms(3) by (simp add: rfile_at_def)
  have "startPos f - rawFsMemloc fs + word_of_nat (length n) + 8 = word_of_nat (p + 8 + length n)"
    using assms(3) by (simp add: rfile_at_def add_ac)
  moreover have "unat (word_of_nat (p + 8 + length n) :: u32) = p + 8 + length n"
    using b assms(2) by (intro unat_of_nat32) simp
  ultimately have off: "unat (startPos f - rawFsMemloc fs + word_of_nat (length n) + 8) = p + 8 + length n"
    by metis
  have len: "unat (word_of_nat (length d) :: u32) = length d"
    using b assms(2) by (intro unat_of_nat32) simp
  have conts: "take (length d) (drop (p + 8 + length n) (rawFs fs)) = d"
    using s(4) by (simp add: segment_def add_ac)
  show "rivfs_read fs f obuf = Inr (d @ 0 # drop (Suc (length d)) obuf)" if "length d < length obuf"
    using rd size off len conts that b by (simp add: rivfs_read_def strcpyLen_def strcpyLen_loop_eq)
  show "rivfs_read fs f obuf = Inl OutOfBounds" if "length obuf \<le> length d"
    using rd size len that by (simp add: rivfs_read_def strcpyLen_def strcpyLen_loop_short)
qed

lemma genfs_image_ok:
  assumes "tree_ok es" and "length (genfs_image junk es) < 2 ^ 32"
  obtains b where "dir_ok (genfs_image junk es) b es"
    and "segment (genfs_image junk es) 19
           (FilePositionHeader_bytes (bd_dirHdrAm b) (bd_fAm b) (bd_dirstart b) (bd_fstart b) 0)"
proof -
  obtain m b where build: "buildDir junk (replicate 35 0) es = (m, b)"
    by (cases "buildDir junk (replicate 35 0) es")
  note img = genfs_image_eq [OF build]
  have "dir_ok m b es"
    using build_ok(1) [OF build assms(1)] assms(2) length_genfs_image [OF build] by simp
  moreover have "keeps m (genfs_image junk es)"
    using keeps_headers [of "RivFsHeader_bytes 16 19 0 0 1 @ FilePositionHeader_bytes (bd_dirHdrAm b)
      (bd_fAm b) (bd_dirstart b) (bd_fstart b) 0" m] img by (simp add: header_lengths)
  ultimately show thesis
    using that [of b] dir_ok_keeps(1) img by (simp add: segment_def header_lengths)
qed

text \<open>The size of an image.\<close>

fun node_size :: "fsnode \<Rightarrow> nat" where
  "node_size (FFile n d) = 8 + length n + length d"
| "node_size (FDir n sub) = 32 + length n + sum_list (List.map node_size sub)"

definition files_size :: "fsnode list \<Rightarrow> nat" where
  "files_size es = sum_list (List.map (\<lambda>(n, d). 8 + length n + length d) (files_of es))"

definition dirs_size :: "fsnode list \<Rightarrow> nat" where
  "dirs_size es = sum_list (List.map (\<lambda>(n, sub). 32 + length n + sum_list (List.map node_size sub)) (dirs_of es))"

lemma nodes_size: "sum_list (List.map node_size es) = files_size es + dirs_size es"
  by (induction es rule: files_of.induct) (auto simp: files_size_def dirs_size_def)

lemma length_writeFiles: "length (fst (writeFiles buf f es)) = length buf + files_size es"
  by (induction buf f es rule: writeFiles.induct) (auto simp: files_size_def genf_eq)

lemma length_writeDirs: "length (writeDirs junk buf ps) = length buf + sum_list (List.map (\<lambda>p. 20 + length (fst p)) ps)"
  by (induction junk buf ps rule: writeDirs.induct) (auto simp: withName_eq)

lemma length_build:
  "length (fst (buildDir junk buf es)) = length buf + 12 + sum_list (List.map node_size es)"
  "length (fst (buildSubdirs junk buf es)) + sum_list (List.map (\<lambda>p. 20 + length (fst p)) (snd (buildSubdirs junk buf es))) =
     length buf + dirs_size es"
proof (induction junk buf es and junk buf es rule: buildDir_buildSubdirs.induct)
  case (1 junk buf es)
  obtain b1 f where w: "writeFiles buf 0 es = (b1, f)"
    by (cases "writeFiles buf 0 es")
  obtain b2 ps where b: "buildSubdirs junk (b1 @ file_eof) es = (b2, ps)"
    by (cases "buildSubdirs junk (b1 @ file_eof) es")
  have "length b2 + sum_list (List.map (\<lambda>p. 20 + length (fst p)) ps) = length (b1 @ file_eof) + dirs_size es"
    using "1" w b by (simp add: writeFileList_def Let_def)
  moreover have "length b1 = length buf + files_size es"
    using length_writeFiles [of buf 0 es] w by simp
  ultimately show ?case
    using w b by (simp add: writeFileList_def Let_def length_writeDirs nodes_size eof_eq)
qed (auto simp: dirs_size_def Let_def split: prod.split)

lemma length_image: "length (genfs_image junk es) = 47 + sum_list (List.map node_size es)"
  using length_build(1) [of junk "replicate 35 0" es] length_genfs_image
  by (cases "buildDir junk (replicate 35 0) es") simp

lemma checkCorrectness_image:
  assumes "tree_ok es" and "length (genfs_image junk es) < 2 ^ 32"
  shows "checkCorrectness (RivFs_new base (genfs_image junk es)) =
     Inr (True, \<lparr>rawFsMemloc = base, rawFs = genfs_image junk es, fphOff = Some 19\<rparr>)"
proof -
  let ?m = "genfs_image junk es"
  obtain b where ok: "dir_ok ?m b es" and seg: "segment ?m 19
      (FilePositionHeader_bytes (bd_dirHdrAm b) (bd_fAm b) (bd_dirstart b) (bd_fstart b) 0)"
    using genfs_image_ok [OF assms] .
  obtain x where "?m = RivFsHeader_bytes 16 19 0 0 1 @ x"
    using genfs_image_eq by (cases "buildDir junk (replicate 35 0) es") blast
  note hdr = RivFsHeader_segments [OF this assms(2)]
  have "5 \<le> length ?m"
    using arg_cong [OF hdr(4), of length] by (simp add: INITIAL_MAGIC_def)
  then obtain r where "memcmp ?m INITIAL_MAGIC 5 = Inr r" and "r = 0"
    using memcmp_loop_zero_iff [of 5 ?m INITIAL_MAGIC] hdr(4)
    by (auto simp: memcmp_def INITIAL_MAGIC_def)
  moreover have "bd_dirstart b \<noteq> 0" "bd_fstart b \<noteq> 0"
    using ok by (auto elim!: dir_okE)
  ultimately show ?thesis
    using hdr FilePositionHeader_reads [OF seg assms(2)]
    by (simp add: checkCorrectness_def RivFs_new_def SIZEOF_FPH_def)
qed

lemma genfs_open_eq:
  assumes "tree_ok es" and "length (genfs_image junk es) < 2 ^ 32"
    and "cs \<noteq> []" and "list_all name_ok cs" and "length (join cs) + 2 < 2 ^ 32"
    and fs: "fs = \<lparr>rawFsMemloc = base, rawFs = genfs_image junk es, fphOff = Some 19\<rparr>"
  shows "\<exists>r. rivfs_open fs (Some (SLASH # join cs @ [0])) = Inr r \<and>
     (case lookup_path es cs of None \<Rightarrow> r = None
      | Some d \<Rightarrow> \<exists>f. r = Some f \<and> filesize fs f = Inr (word_of_nat (length d)) \<and>
          (\<forall>obuf. rivfs_read fs f obuf =
             (if length d < length obuf then Inr (d @ 0 # drop (Suc (length d)) obuf)
              else Inl OutOfBounds)))"
proof -
  let ?m = "genfs_image junk es"
  obtain b where ok: "dir_ok ?m b es" and seg: "segment ?m 19
      (FilePositionHeader_bytes (bd_dirHdrAm b) (bd_fAm b) (bd_dirstart b) (bd_fstart b) 0)"
    using genfs_image_ok [OF assms(1,2)] .
  note rd = FilePositionHeader_reads [OF seg assms(2)]
  obtain r where r: "rivfs_open fs (Some (SLASH # join cs @ [0])) = Inr r"
    and o: "opens fs (last cs) (lookup_path es cs) r"
    using rivfs_open_correct [of fs 19 b es cs] assms ok rd by auto
  then show ?thesis
    using opened_reads [of fs _ _ "last cs"] assms(2) unfolding fs
    by (fastforce simp: opens_def not_less split: option.splits)
qed

text \<open>C2: An image that genfs built from a directory tree passes \<^verbatim>\<open>checkCorrectness\<close>, and
  opening any path in it agrees with lookup of that path in the tree: an absent file gives the
  error, a present one a file whose size and whose bytes, read into a buffer with room for the
  terminator, are the file's content.\<close>

theorem genfs_open_roundtrip:
  assumes "tree_ok es" and "length (genfs_image junk es) < 2 ^ 32"
    and "cs \<noteq> []" and "list_all name_ok cs" and "length (join cs) + 2 < 2 ^ 32"
  shows "\<exists>fs r. checkCorrectness (RivFs_new base (genfs_image junk es)) = Inr (True, fs) \<and>
     rivfs_open fs (Some (SLASH # join cs @ [0])) = Inr r \<and>
     (case lookup_path es cs of None \<Rightarrow> r = None
      | Some d \<Rightarrow> \<exists>f. r = Some f \<and> filesize fs f = Inr (word_of_nat (length d)) \<and>
          (\<forall>obuf. rivfs_read fs f obuf =
             (if length d < length obuf then Inr (d @ 0 # drop (Suc (length d)) obuf)
              else Inl OutOfBounds)))"
  using checkCorrectness_image [OF assms(1,2)] genfs_open_eq [OF assms refl, of base] by blast

text \<open>A small tree the examples use, and the theorem on it.\<close>

definition sample_tree :: "fsnode list" where
  "sample_tree = [FFile (bytes ''a'') (bytes ''hi''),
     FDir (bytes ''d'') [FDir (bytes ''x'') [], FDir (bytes ''y'') [FFile (bytes ''b'') (bytes ''k'')]]]"

lemma sample_tree_ok: "tree_ok sample_tree"
  by (simp add: sample_tree_def tree_ok_def name_ok_def SLASH_def)

lemma sample_image_length: "length (genfs_image (\<lambda>_. 0) sample_tree) = 167"
  by code_simp

theorem genfs_open_roundtrip_witness:
  "\<exists>fs r. checkCorrectness (RivFs_new 0x100000 (genfs_image (\<lambda>_. 0) sample_tree)) = Inr (True, fs) \<and>
     rivfs_open fs (Some (bytes ''/d/y/b'' @ [0])) = Inr r \<and>
     (\<exists>f. r = Some f \<and> filesize fs f = Inr 1 \<and>
        rivfs_read fs f [7, 7] = Inr (bytes ''k'' @ [0]) \<and> rivfs_read fs f [7] = Inl OutOfBounds)"
proof -
  have l: "length (genfs_image (\<lambda>_. 0) sample_tree) < 2 ^ 32"
    unfolding sample_image_length by simp
  have p: "SLASH # join [bytes ''d'', bytes ''y'', bytes ''b''] @ [0] = bytes ''/d/y/b'' @ [0]"
    by (simp add: SLASH_def)
  have "lookup_path sample_tree [bytes ''d'', bytes ''y'', bytes ''b''] = Some (bytes ''k'')"
    by (simp add: sample_tree_def)
  with genfs_open_roundtrip [OF sample_tree_ok l, where base = "0x100000"
      and cs = "[bytes ''d'', bytes ''y'', bytes ''b'']", unfolded p]
  show ?thesis
    by (auto simp: name_ok_def SLASH_def)
qed

end
