(* ===== verification/RivFsIterate.thy ===== *)
theory RivFsIterate
  imports RivFsRoundtrip
begin

text \<open>
  Directory iteration over an image that genfs built: what \<^verbatim>\<open>getDirIt\<close>, \<^verbatim>\<open>dirItGetNextFile\<close>
  and \<^verbatim>\<open>dirItGetNextDir\<close> enumerate, and where they disagree with \<^verbatim>\<open>open\<close>.
\<close>

section \<open>The client's loop over an iterator\<close>

text \<open>\<^verbatim>\<open>while (next().hasVal())\<close>: the names and the remaining iterator.\<close>

fun all_files :: "nat \<Rightarrow> rivfs \<Rightarrow> dirIterator \<Rightarrow> (u8 list list \<times> dirIterator) exec" where
  "all_files 0 fs it = Inl Hang"
| "all_files (Suc k) fs it =
     bindE (dirItGetNextFile fs it) (\<lambda>(r, it'). case r of
       None \<Rightarrow> Inr ([], it')
     | Some (nm, f) \<Rightarrow> bindE (all_files k fs it') (\<lambda>(ns, it''). Inr (sv_bytes nm # ns, it'')))"

fun all_dirs :: "nat \<Rightarrow> rivfs \<Rightarrow> dirIterator \<Rightarrow> (u8 list list \<times> dirIterator) exec" where
  "all_dirs 0 fs it = Inl Hang"
| "all_dirs (Suc k) fs it =
     bindE (dirItGetNextDir fs it) (\<lambda>(r, it'). case r of
       None \<Rightarrow> Inr ([], it')
     | Some (nm, d) \<Rightarrow> bindE (all_dirs k fs it') (\<lambda>(ns, it''). Inr (sv_bytes nm # ns, it'')))"

section \<open>Enumeration\<close>

lemma segment_drop:
  assumes "segment m off n" and "length m < 2 ^ 32"
  shows "sv_bytes (sv (drop (unat (word_of_nat off :: u32)) m) (word_of_nat (length n))) = n"
proof -
  have "off < 2 ^ 32" and "length n < 2 ^ 32"
    using segment_bound [OF assms(1)] assms(2) by auto
  then show ?thesis
    using assms(1) by (simp add: sv_bytes_def segment_def)
qed

lemma all_files_spec:
  assumes "files_at (rawFs fs) off L" and "length (rawFs fs) < 2 ^ 32"
    and "\<forall>(n, d) \<in> set L. n \<noteq> []" and "filePos it = word_of_nat off"
    and "unat (filesRemaining it) = length L" and "length L < k"
  shows "\<exists>it'. all_files k fs it = Inr (List.map fst L, it') \<and> filesRemaining it' = 0 \<and>
     dirPos it' = dirPos it \<and> dirsRemaining it' = dirsRemaining it"
  using assms(1,3-)
proof (induction L arbitrary: off it k)
  case Nil
  then obtain k' where "k = Suc k'"
    by (cases k) auto
  moreover have "filesRemaining it = 0"
    using Nil.prems(4) by (simp add: unat_eq_0)
  ultimately show ?case
    by (simp add: dirItGetNextFile_def)
next
  case (Cons x L)
  obtain n d where x: "x = (n, d)"
    by (cases x)
  obtain k' where k: "k = Suc k'" and k': "length L < k'"
    using Cons.prems(5) by (cases k) auto
  have seg: "segment (rawFs fs) off (genf d n)"
    and rest: "files_at (rawFs fs) (off + length n + length d + 8) L"
    using Cons.prems(1) x by auto
  note s = genf_segments [OF seg]
  have b: "off + 8 + length n + length d \<le> length (rawFs fs)"
    using segment_bound [OF seg] by simp
  have nz: "(word_of_nat (length n) :: u32) \<noteq> 0"
    using of_nat_neq_0 Cons.prems(2) x b assms(2) by auto
  have rd: "rd32 (rawFs fs) (filePos it) = Inr (word_of_nat (length n))"
    using segment_rd32 [OF s(1) assms(2)] Cons.prems(3) by simp
  have rd2: "rd32 (rawFs fs) (filePos it + 4 + word_of_nat (length n)) = Inr (word_of_nat (length d))"
    using segment_rd32 [OF s(3) assms(2)] Cons.prems(3) by (simp add: add_ac)
  have nm: "sv_bytes (sv (drop (unat (filePos it + 4)) (rawFs fs)) (word_of_nat (length n))) = n"
    using segment_drop [OF s(2) assms(2)] Cons.prems(3) by (simp add: add.commute)
  have rem: "filesRemaining it \<noteq> 0" "unat (filesRemaining it - 1) = length L"
    using Cons.prems(4) by auto
  let ?it = "it\<lparr>filesRemaining := filesRemaining it - 1,
                 filePos := filePos it + 4 + word_of_nat (length n) + 4 + word_of_nat (length d)\<rparr>"
  have nxt: "dirItGetNextFile fs it = Inr (Some (sv (drop (unat (filePos it + 4)) (rawFs fs)) (word_of_nat (length n)),
      \<lparr>startPos = filePos it, contsSvPos = rawFsMemloc fs + (filePos it + 4 + word_of_nat (length n))\<rparr>), ?it)"
    using rd rd2 rem(1) nz by (simp add: dirItGetNextFile_def Let_def)
  have "filePos ?it = word_of_nat (off + length n + length d + 8)"
    using Cons.prems(3) by simp
  then obtain it' where "all_files k' fs ?it = Inr (List.map fst L, it')" "filesRemaining it' = 0"
      "dirPos it' = dirPos it" "dirsRemaining it' = dirsRemaining it"
    using Cons.IH [OF rest, of ?it k'] Cons.prems(2) rem(2) k' by auto
  then show ?case
    using nxt nm x k by simp
qed

lemma all_dirs_spec:
  assumes "dirs_at (rawFs fs) off L" and "length (rawFs fs) < 2 ^ 32"
    and "\<forall>(n, d) \<in> set L. n \<noteq> []" and "dirPos it = word_of_nat off"
    and "unat (dirsRemaining it) = length L" and "length L < k"
  shows "\<exists>it'. all_dirs k fs it = Inr (List.map fst L, it') \<and> dirsRemaining it' = 0"
  using assms(1,3-)
proof (induction L arbitrary: off it k)
  case Nil
  then obtain k' where "k = Suc k'"
    by (cases k) auto
  moreover have "dirsRemaining it = 0"
    using Nil.prems(4) by (simp add: unat_eq_0)
  ultimately show ?case
    by (simp add: dirItGetNextDir_def)
next
  case (Cons x L)
  obtain n b where x: "x = (n, b)"
    by (cases x)
  obtain k' where k: "k = Suc k'" and k': "length L < k'"
    using Cons.prems(5) by (cases k) auto
  obtain f where seg: "segment (rawFs fs) off (withName f b n)"
    and rest: "dirs_at (rawFs fs) (off + length n + 20) L"
    using Cons.prems(1) x by auto
  note s = withName_segments [OF seg]
  have b: "off + length n + 20 \<le> length (rawFs fs)"
    using segment_bound [OF seg] by simp
  have nz: "(word_of_nat (length n) :: u32) \<noteq> 0"
    using of_nat_neq_0 Cons.prems(2) x b assms(2) by auto
  have rd: "rd32 (rawFs fs) (dirPos it) = Inr (word_of_nat (length n))"
    using segment_rd32 [OF s(1) assms(2)] Cons.prems(3) by simp
  have nm: "sv_bytes (sv (drop (unat (dirPos it + 4)) (rawFs fs)) (word_of_nat (length n))) = n"
    using segment_drop [OF s(2) assms(2)] Cons.prems(3) by (simp add: add.commute)
  have rem: "dirsRemaining it \<noteq> 0" "unat (dirsRemaining it - 1) = length L"
    using Cons.prems(4) by auto
  let ?it = "it\<lparr>dirsRemaining := dirsRemaining it - 1,
                 dirPos := dirPos it + 4 + word_of_nat (length n) + SIZEOF_LATTER\<rparr>"
  have nxt: "dirItGetNextDir fs it = Inr (Some (sv (drop (unat (dirPos it + 4)) (rawFs fs)) (word_of_nat (length n)),
      \<lparr>dirStartPos = dirPos it, constPos = dirPos it + 4 + word_of_nat (length n)\<rparr>), ?it)"
    using rd rem(1) nz by (simp add: dirItGetNextDir_def Let_def)
  have "dirPos ?it = word_of_nat (off + length n + 20)"
    using Cons.prems(3) by (simp add: SIZEOF_LATTER_def)
  then obtain it' where "all_dirs k' fs ?it = Inr (List.map fst L, it')" "dirsRemaining it' = 0"
    using Cons.IH [OF rest, of ?it k'] Cons.prems(2) rem(2) k' by auto
  then show ?case
    using nxt nm x k by simp
qed

text \<open>C26: The iterator that \<^verbatim>\<open>getDirIt("/")\<close> gives on an image genfs built enumerates the
  files of the root directory and then its subdirectories, each once and in their order, and is
  then used up.\<close>

theorem getDirIt_enumerates_root:
  assumes "tree_ok es" and "length (genfs_image junk es) < 2 ^ 32" and "length es < k"
    and "fs = \<lparr>rawFsMemloc = base, rawFs = genfs_image junk es, fphOff = Some 19\<rparr>"
  shows "\<exists>it it' it''. getDirIt fs [SLASH, 0] = Inr (Some it) \<and>
     all_files k fs it = Inr (List.map fst (files_of es), it') \<and>
     all_dirs k fs it' = Inr (List.map fst (dirs_of es), it'') \<and> dirsRemaining it'' = 0"
proof -
  let ?m = "genfs_image junk es"
  obtain b where ok: "dir_ok ?m b es" and seg: "segment ?m 19
      (FilePositionHeader_bytes (bd_dirHdrAm b) (bd_fAm b) (bd_dirstart b) (bd_fstart b) 0)"
    using genfs_image_ok [OF assms(1,2)] .
  note rd = FilePositionHeader_reads [OF seg assms(2)]
  let ?it = "\<lparr>dirPos = bd_dirstart b, filePos = bd_fstart b, dirsRemaining = bd_dirHdrAm b,
              filesRemaining = bd_fAm b\<rparr>"
  have it: "getDirIt fs [SLASH, 0] = Inr (Some ?it)"
    using rd by (simp add: getDirIt_def assms(4) fph_of_def)
  obtain ps where at: "files_at ?m (unat (bd_fstart b)) (files_of es)"
      "unat (bd_fAm b) = length (files_of es)" "subs_ok ?m ps (dirs_of es)"
      "dirs_at ?m (unat (bd_dirstart b)) ps" "unat (bd_dirHdrAm b) = length ps"
    using ok by (auto elim: dir_okE)
  note nms = subs_ok_names [OF at(3)]
  have "length (files_of es) \<le> length es" "length (dirs_of es) \<le> length es"
    by (induction es rule: files_of.induct) auto
  then have k: "length (files_of es) < k" "length ps < k"
    using assms(3) subs_ok_length [OF at(3)] by simp_all
  have ne: "\<forall>(n, d) \<in> set (files_of es). n \<noteq> []"
    using tree_ok_files assms(1) by (fastforce simp: tree_ok_def name_ok_def)
  have "n \<noteq> []" if "n \<in> set (List.map fst (dirs_of es))" for n
    using that tree_ok_dirs assms(1) by (fastforce simp: tree_ok_def name_ok_def)
  then have ned: "\<forall>(n, d) \<in> set ps. n \<noteq> []"
    unfolding nms [symmetric] by force
  obtain it' where it': "all_files k fs ?it = Inr (List.map fst (files_of es), it')"
      "dirPos it' = bd_dirstart b" "dirsRemaining it' = bd_dirHdrAm b"
    using all_files_spec [of fs "unat (bd_fstart b)" "files_of es" ?it k] at(1,2) ne k(1) assms(2,4)
    by auto
  obtain it'' where "all_dirs k fs it' = Inr (List.map fst (dirs_of es), it'')" "dirsRemaining it'' = 0"
    using all_dirs_spec [of fs "unat (bd_dirstart b)" ps it' k] at(4,5) ned k(2) assms(2,4) it' nms
    by auto
  then show ?thesis
    using it it' by blast
qed

theorem getDirIt_enumerates_root_witness:
  "\<exists>fs it it' it''. getDirIt fs [SLASH, 0] = Inr (Some it) \<and>
     all_files 3 fs it = Inr ([bytes ''a''], it') \<and> all_dirs 3 fs it' = Inr ([bytes ''d''], it'')"
  using getDirIt_enumerates_root [OF sample_tree_ok _ _ refl, where junk = "\<lambda>_. 0" and k = 3
      and base = 0, unfolded sample_image_length]
  by (force simp: sample_tree_def)

section \<open>Where iteration and opening disagree\<close>

definition sample_fs :: rivfs where
  "sample_fs = \<lparr>rawFsMemloc = 0x100000, rawFs = genfs_image (\<lambda>_. 0) sample_tree, fphOff = Some 19\<rparr>"

lemma sample_getDirIt_y: "getDirIt sample_fs (bytes ''/d/y'' @ [0]) = Inr None"
  by code_simp

lemma sample_getDirIt_x: "getDirIt sample_fs (bytes ''/d/x'' @ [0]) =
    Inr (Some \<lparr>dirPos = 70, filePos = 62, dirsRemaining = 0, filesRemaining = 0\<rparr>)"
  by code_simp

lemma sample_open_b: "rivfs_open sample_fs (Some (bytes ''/d/y/b'' @ [0])) =
    Inr (Some \<lparr>startPos = 0x10004A, contsSvPos = 0x10004F\<rparr>)"
  by code_simp

lemma sample_next_file: "bindE (dirItGetNextFile sample_fs
     \<lparr>dirPos = 142, filePos = 35, dirsRemaining = 1, filesRemaining = 1\<rparr>)
   (\<lambda>(r, it). Inr (map_option snd r)) = Inr (Some \<lparr>startPos = 35, contsSvPos = 0x100028\<rparr>)"
  by code_simp

lemma sample_filesize: "filesize sample_fs \<lparr>startPos = 35, contsSvPos = 0x100028\<rparr> = Inr 2"
  by code_simp

lemma sample_read_iterated:
  "rivfs_read sample_fs \<lparr>startPos = 35, contsSvPos = 0x100028\<rparr> [0, 0, 0] = Inl OutOfBounds"
  by (simp add: rivfs_read_def rd32_def sample_fs_def sample_image_length)

lemma sample_open_a: "rivfs_open sample_fs (Some (bytes ''/a'' @ [0])) =
    Inr (Some \<lparr>startPos = 0x100023, contsSvPos = 0x100028\<rparr>)"
  by code_simp

lemma sample_read_a:
  "rivfs_read sample_fs \<lparr>startPos = 0x100023, contsSvPos = 0x100028\<rparr> [0, 0, 0] =
    Inr (bytes ''hi'' @ [0])"
  by code_simp

text \<open>\<^verbatim>\<open>getDirIt\<close> searches every level of the path with the number of
  subdirectories of the \<^emph>\<open>root\<close>. In an image whose root has one subdirectory \<^verbatim>\<open>d\<close> with
  the two subdirectories \<^verbatim>\<open>x\<close> and \<^verbatim>\<open>y\<close> it finds \<^verbatim>\<open>/d/x\<close> and not \<^verbatim>\<open>/d/y\<close>, while
  \<^verbatim>\<open>open\<close> does find the file \<^verbatim>\<open>/d/y/b\<close>.\<close>

theorem getDirIt_root_count:
  "getDirIt sample_fs (bytes ''/d/y'' @ [0]) = Inr None \<and>
   getDirIt sample_fs (bytes ''/d/x'' @ [0]) =
     Inr (Some \<lparr>dirPos = 70, filePos = 62, dirsRemaining = 0, filesRemaining = 0\<rparr>) \<and>
   rivfs_open sample_fs (Some (bytes ''/d/y/b'' @ [0])) =
     Inr (Some \<lparr>startPos = 0x10004A, contsSvPos = 0x10004F\<rparr>)"
  using sample_getDirIt_y sample_getDirIt_x sample_open_b by blast

text \<open>The file that an iterator hands out has a position relative to the image in
  \<^verbatim>\<open>startPos\<close>, where \<^verbatim>\<open>read\<close> expects an address: its size is right, but reading it goes
  outside the image (here, for an image at 1 MiB), while the same file opened by path can be
  read.\<close>

theorem iterator_file_unreadable:
  "bindE (dirItGetNextFile sample_fs
       \<lparr>dirPos = 142, filePos = 35, dirsRemaining = 1, filesRemaining = 1\<rparr>)
     (\<lambda>(r, it). Inr (map_option snd r)) = Inr (Some \<lparr>startPos = 35, contsSvPos = 0x100028\<rparr>) \<and>
   filesize sample_fs \<lparr>startPos = 35, contsSvPos = 0x100028\<rparr> = Inr 2 \<and>
   rivfs_read sample_fs \<lparr>startPos = 35, contsSvPos = 0x100028\<rparr> [0, 0, 0] = Inl OutOfBounds \<and>
   rivfs_open sample_fs (Some (bytes ''/a'' @ [0])) =
     Inr (Some \<lparr>startPos = 0x100023, contsSvPos = 0x100028\<rparr>) \<and>
   rivfs_read sample_fs \<lparr>startPos = 0x100023, contsSvPos = 0x100028\<rparr> [0, 0, 0] =
     Inr (bytes ''hi'' @ [0])"
  using sample_next_file sample_filesize sample_read_iterated sample_open_a sample_read_a by blast

end
