(* ===== verification/Frames.thy ===== *)
theory Frames
  imports CString
begin

text \<open>
  The physical frame allocator of \<^verbatim>\<open>src/mem/page.hpp\<close>: one bit per 4 KiB frame, set
  while the frame is in use. A frame is handed out by its address.
\<close>

record frames =
  bitmap :: "u8 list"
  totalFrames :: u32

definition FRAME_SIZE :: u32 where "FRAME_SIZE = 4096"

definition frames_init :: "u32 \<Rightarrow> u8 list \<Rightarrow> frames exec" where
  "frames_init memSizeBytes bitmapStorage =
     (let total = memSizeBytes div FRAME_SIZE in
      bindE (memset bitmapStorage 0 ((total + 7) div 8)) (\<lambda>b.
      Inr \<lparr>bitmap = b, totalFrames = total\<rparr>))"

text \<open>The mask \<^verbatim>\<open>1 << (i % 8)\<close> is an \<^verbatim>\<open>int\<close>, to which the byte is promoted.\<close>

definition frame_bit :: "u32 \<Rightarrow> u32" where
  "frame_bit i = push_bit (unat (i mod 8)) 1"

definition frame_isUsed :: "frames \<Rightarrow> u32 \<Rightarrow> bool exec" where
  "frame_isUsed fa i = bindE (rd8 (bitmap fa) (i div 8)) (\<lambda>b. Inr (ucast b AND frame_bit i \<noteq> 0))"

definition frame_markUsed :: "frames \<Rightarrow> u32 \<Rightarrow> frames exec" where
  "frame_markUsed fa i = bindE (rd8 (bitmap fa) (i div 8)) (\<lambda>b.
     Inr (fa\<lparr>bitmap := (bitmap fa)[unat (i div 8) := ucast (ucast b OR frame_bit i)]\<rparr>))"

definition frame_markFree :: "frames \<Rightarrow> u32 \<Rightarrow> frames exec" where
  "frame_markFree fa i = bindE (rd8 (bitmap fa) (i div 8)) (\<lambda>b.
     Inr (fa\<lparr>bitmap := (bitmap fa)[unat (i div 8) := ucast (ucast b AND NOT (frame_bit i))]\<rparr>))"

text \<open>\<^verbatim>\<open>allocFrame\<close>: the first frame from \<open>i\<close> on that is not used, or the null pointer.\<close>

fun allocFrame_from :: "frames \<Rightarrow> u32 \<Rightarrow> nat \<Rightarrow> (u32 \<times> frames) exec" where
  "allocFrame_from fa i 0 = Inr (0, fa)"
| "allocFrame_from fa i (Suc n) =
     bindE (frame_isUsed fa i) (\<lambda>u.
     if \<not> u then bindE (frame_markUsed fa i) (\<lambda>fa'. Inr (i * FRAME_SIZE, fa'))
     else allocFrame_from fa (i + 1) n)"

definition allocFrame :: "frames \<Rightarrow> (u32 \<times> frames) exec" where
  "allocFrame fa = allocFrame_from fa 0 (unat (totalFrames fa))"

definition freeFrame :: "frames \<Rightarrow> u32 \<Rightarrow> frames exec" where
  "freeFrame fa addr = frame_markFree fa (addr div FRAME_SIZE)"

section \<open>The set of used frames\<close>

definition used :: "frames \<Rightarrow> nat \<Rightarrow> bool" where
  "used fa k \<longleftrightarrow> bit (bitmap fa ! (k div 8)) (k mod 8)"

definition frames_inv :: "frames \<Rightarrow> bool" where
  "frames_inv fa \<longleftrightarrow> unat (totalFrames fa) \<le> 8 * length (bitmap fa) \<and> unat (totalFrames fa) \<le> 2 ^ 20"

lemma unat_mod8: "unat (i mod 8 :: u32) = unat i mod 8"
  by (simp add: unat_mod)

lemma unat_div8: "unat (i div 8 :: u32) = unat i div 8"
  by (simp add: unat_div)

lemma bit_frame_bit: "bit (frame_bit i) n \<longleftrightarrow> n = unat i mod 8"
proof -
  have "unat i mod 8 < 32"
    by (rule less_trans [of _ 8]) simp_all
  then show ?thesis
    by (auto simp: frame_bit_def unat_mod8 bit_simps)
qed

lemma and_frame_bit: "ucast (b :: u8) AND frame_bit i \<noteq> 0 \<longleftrightarrow> bit b (unat i mod 8)"
proof -
  have "unat i mod 8 < 32"
    by (rule less_trans [of _ 8]) simp_all
  then show ?thesis
    by (auto simp: bit_eq_iff [where 'a = "32 word"] bit_simps bit_frame_bit)
qed

lemma bit_mark: "n < 8 \<Longrightarrow> bit (ucast (ucast b OR frame_bit i) :: u8) n \<longleftrightarrow> bit b n \<or> n = unat i mod 8"
  "n < 8 \<Longrightarrow> bit (ucast (ucast b AND NOT (frame_bit i)) :: u8) n \<longleftrightarrow> bit b n \<and> n \<noteq> unat i mod 8"
  by (auto simp: bit_simps bit_frame_bit)

lemma frame_isUsed_eq:
  "unat i < 8 * length (bitmap fa) \<Longrightarrow> frame_isUsed fa i = Inr (used fa (unat i))"
  by (simp add: frame_isUsed_def rd8_def unat_div8 and_frame_bit used_def less_mult_imp_div_less mult.commute)

lemma mark_spec:
  assumes "unat i < 8 * length (bitmap fa)"
  shows "\<exists>fa'. frame_markUsed fa i = Inr fa' \<and> totalFrames fa' = totalFrames fa \<and>
       length (bitmap fa') = length (bitmap fa) \<and> (\<forall>k. used fa' k \<longleftrightarrow> used fa k \<or> k = unat i)"
    and "\<exists>fa'. frame_markFree fa i = Inr fa' \<and> totalFrames fa' = totalFrames fa \<and>
       length (bitmap fa') = length (bitmap fa) \<and> (\<forall>k. used fa' k \<longleftrightarrow> used fa k \<and> k \<noteq> unat i)"
proof -
  have lt: "unat i div 8 < length (bitmap fa)"
    using assms by (simp add: less_mult_imp_div_less mult.commute)
  have eq: "k = unat i \<longleftrightarrow> k div 8 = unat i div 8 \<and> k mod 8 = unat i mod 8" for k
    by (metis div_mult_mod_eq)
  have m: "k mod 8 < 8" for k :: nat
    by simp
  show "\<exists>fa'. frame_markUsed fa i = Inr fa' \<and> totalFrames fa' = totalFrames fa \<and>
       length (bitmap fa') = length (bitmap fa) \<and> (\<forall>k. used fa' k \<longleftrightarrow> used fa k \<or> k = unat i)"
    using lt by (auto simp: frame_markUsed_def rd8_def unat_div8 used_def nth_list_update eq bit_mark [OF m])
  show "\<exists>fa'. frame_markFree fa i = Inr fa' \<and> totalFrames fa' = totalFrames fa \<and>
       length (bitmap fa') = length (bitmap fa) \<and> (\<forall>k. used fa' k \<longleftrightarrow> used fa k \<and> k \<noteq> unat i)"
    using lt by (auto simp: frame_markFree_def rd8_def unat_div8 used_def nth_list_update eq bit_mark [OF m])
qed

lemma allocFrame_from_spec:
  assumes "unat i + n \<le> 8 * length (bitmap fa)" and "unat i + n \<le> 2 ^ 20"
  shows "(\<forall>k. unat i \<le> k \<and> k < unat i + n \<longrightarrow> used fa k) \<and> allocFrame_from fa i n = Inr (0, fa) \<or>
    (\<exists>k fa'. unat i \<le> k \<and> k < unat i + n \<and> \<not> used fa k \<and> (\<forall>j. unat i \<le> j \<and> j < k \<longrightarrow> used fa j) \<and>
       allocFrame_from fa i n = Inr (word_of_nat k * FRAME_SIZE, fa') \<and> totalFrames fa' = totalFrames fa \<and>
       length (bitmap fa') = length (bitmap fa) \<and> (\<forall>j. used fa' j \<longleftrightarrow> used fa j \<or> j = k))"
  using assms
proof (induction fa i n rule: allocFrame_from.induct)
  case (1 fa i)
  show ?case by (rule disjI1) auto
next
  case (2 fa i n)
  have u: "frame_isUsed fa i = Inr (used fa (unat i))"
    using "2.prems" by (intro frame_isUsed_eq) simp
  show ?case
  proof (cases "used fa (unat i)")
    case True
    have i1: "unat (i + 1) = unat i + 1"
      using "2.prems" by (simp add: unat_word_ariths)
    from 2(1) [OF u] "2.prems" True i1 consider
      "\<forall>k. unat i + 1 \<le> k \<and> k < unat i + 1 + n \<longrightarrow> used fa k" "allocFrame_from fa (i + 1) n = Inr (0, fa)"
      | k fa' where "unat i + 1 \<le> k" "k < unat i + 1 + n" "\<not> used fa k"
         "\<forall>j. unat i + 1 \<le> j \<and> j < k \<longrightarrow> used fa j"
         "allocFrame_from fa (i + 1) n = Inr (word_of_nat k * FRAME_SIZE, fa')" "totalFrames fa' = totalFrames fa"
         "length (bitmap fa') = length (bitmap fa)" "\<forall>j. used fa' j \<longleftrightarrow> used fa j \<or> j = k"
      by (simp add: i1) blast
    then show ?thesis
    proof cases
      case 1
      have "used fa k" if "unat i \<le> k" "k < unat i + Suc n" for k
        using 1(1) True that by (cases "k = unat i") auto
      then show ?thesis
        using 1(2) True u by (intro disjI1) simp
    next
      case 2
      have "used fa j" if "unat i \<le> j" "j < k" for j
        using 2(4) True that by (cases "j = unat i") auto
      then show ?thesis
        using 2 True u by (intro disjI2 exI [of _ k] exI [of _ fa']) auto
    qed
  next
    case False
    have "unat i < 8 * length (bitmap fa)"
      using "2.prems" by simp
    from mark_spec(1) [OF this] obtain fa' where "frame_markUsed fa i = Inr fa'"
      "totalFrames fa' = totalFrames fa" "length (bitmap fa') = length (bitmap fa)"
      "\<forall>k. used fa' k \<longleftrightarrow> used fa k \<or> k = unat i"
      by blast
    with False u have "allocFrame_from fa i (Suc n) = Inr (word_of_nat (unat i) * FRAME_SIZE, fa')"
      and "totalFrames fa' = totalFrames fa" and "length (bitmap fa') = length (bitmap fa)"
      and "\<forall>j. used fa' j \<longleftrightarrow> used fa j \<or> j = unat i"
      by simp_all
    moreover have "\<forall>j. unat i \<le> j \<and> j < unat i \<longrightarrow> used fa j"
      by auto
    ultimately show ?thesis
      using False by (intro disjI2 exI [of _ "unat i"] exI [of _ fa']) simp
  qed
qed

text \<open>The frames in use, as addresses.\<close>

definition used_frames :: "frames \<Rightarrow> u32 set" where
  "used_frames fa = {word_of_nat k * FRAME_SIZE |k. k < unat (totalFrames fa) \<and> used fa k}"

lemma frame_addr: "k < 2 ^ 20 \<Longrightarrow> unat (word_of_nat k * FRAME_SIZE) = k * 4096"
  by (simp add: FRAME_SIZE_def unat_word_ariths)

lemma frame_addr_inj: "j < 2 ^ 20 \<Longrightarrow> k < 2 ^ 20 \<Longrightarrow>
   word_of_nat j * FRAME_SIZE = word_of_nat k * FRAME_SIZE \<longleftrightarrow> j = k"
  by (metis frame_addr mult_cancel2 zero_neq_numeral)

lemma used_frames_iff:
  assumes "frames_inv fa" and "k < unat (totalFrames fa)"
  shows "word_of_nat k * FRAME_SIZE \<in> used_frames fa \<longleftrightarrow> used fa k"
proof -
  have "j < 2 ^ 20" if "j < unat (totalFrames fa)" for j
    using assms(1) that by (simp add: frames_inv_def)
  then show ?thesis
    using assms(2) frame_addr_inj by (auto simp: used_frames_def)
qed

lemma allocFrame_spec:
  assumes "frames_inv fa"
  obtains "allocFrame fa = Inr (0, fa)" and "\<forall>k < unat (totalFrames fa). used fa k"
  | k fa' where "allocFrame fa = Inr (word_of_nat k * FRAME_SIZE, fa')" and "k < unat (totalFrames fa)"
      and "\<not> used fa k" and "\<forall>j < k. used fa j" and "\<forall>j. used fa' j \<longleftrightarrow> used fa j \<or> j = k"
      and "totalFrames fa' = totalFrames fa" and "frames_inv fa'"
proof -
  let ?n = "unat (totalFrames fa)"
  have b: "unat (0 :: u32) + ?n \<le> 8 * length (bitmap fa)" "unat (0 :: u32) + ?n \<le> 2 ^ 20"
    using assms by (simp_all add: frames_inv_def)
  from allocFrame_from_spec [OF b] show thesis
  proof (elim disjE exE conjE, goal_cases)
    case 1
    then show thesis
      by (intro that(1)) (simp_all add: allocFrame_def)
  next
    case (2 k fa')
    then show thesis
      using b by (intro that(2) [of k fa']) (simp_all add: allocFrame_def frames_inv_def)
  qed
qed

text \<open>
  \<^verbatim>\<open>allocFrame\<close> hands out the lowest frame that is not in use and marks that one and no
  other; it gives up, without a change, exactly when all frames are in use.
\<close>

theorem allocFrame_lowest_free:
  assumes "frames_inv fa"
  shows "\<exists>p fa'. allocFrame fa = Inr (p, fa') \<and> frames_inv fa' \<and> totalFrames fa' = totalFrames fa \<and>
     (if \<forall>k < unat (totalFrames fa). used fa k then p = 0 \<and> fa' = fa
      else \<exists>k < unat (totalFrames fa). unat p = k * 4096 \<and> \<not> used fa k \<and> (\<forall>j < k. used fa j) \<and>
             (\<forall>j. used fa' j \<longleftrightarrow> used fa j \<or> j = k))"
  using assms
proof (cases rule: allocFrame_spec)
  case 1
  then show ?thesis
    using assms by simp
next
  case (2 k fa')
  then have "unat (word_of_nat k * FRAME_SIZE) = k * 4096"
    using assms by (intro frame_addr) (simp add: frames_inv_def)
  with 2 show ?thesis
    by auto
qed

theorem allocFrame_lowest_free_witness:
  "\<exists>p fa'. allocFrame \<lparr>bitmap = [7], totalFrames = 8\<rparr> = Inr (p, fa') \<and> unat p = 3 * 4096 \<and>
     (\<forall>j. used fa' j \<longleftrightarrow> used \<lparr>bitmap = [7], totalFrames = 8\<rparr> j \<or> j = 3)"
proof -
  let ?fa = "\<lparr>bitmap = [7], totalFrames = 8\<rparr>"
  have inv: "frames_inv ?fa"
    by (simp add: frames_inv_def)
  have free: "\<not> used ?fa 3" "3 < unat (totalFrames ?fa)" and low: "used ?fa 0" "used ?fa 1" "used ?fa 2"
    by (simp_all add: used_def)
  from free have some: "\<not> (\<forall>k < unat (totalFrames ?fa). used ?fa k)"
    by blast
  from allocFrame_lowest_free [OF inv] obtain p fa' k where
    r: "allocFrame ?fa = Inr (p, fa')" "unat p = k * 4096" "\<not> used ?fa k" "\<forall>j < k. used ?fa j"
    "\<forall>j. used fa' j \<longleftrightarrow> used ?fa j \<or> j = k"
    unfolding if_not_P [OF some] by blast
  have "\<not> 3 < k" and "k \<noteq> 0" "k \<noteq> 1" "k \<noteq> 2"
    using r(3,4) free(1) low by metis+
  then have "k = 3"
    by simp
  with r show ?thesis
    by blast
qed

text \<open>
  Freeing the frame that was just handed out leaves the same frames in use as before, and the
  next request gets the same frame again.
\<close>

theorem freeFrame_undoes_allocFrame:
  assumes "frames_inv fa" and "allocFrame fa = Inr (p, fa')" and "p \<noteq> 0"
  shows "\<exists>fa''. freeFrame fa' p = Inr fa'' \<and> frames_inv fa'' \<and> (\<forall>j. used fa'' j \<longleftrightarrow> used fa j) \<and>
     (\<exists>fa3. allocFrame fa'' = Inr (p, fa3))"
  using assms(1)
proof (cases rule: allocFrame_spec)
  case 1
  then show ?thesis
    using assms(2,3) by simp
next
  case (2 k fa1)
  then have eq: "fa1 = fa'" "p = word_of_nat k * FRAME_SIZE"
    using assms(2) by auto
  have k: "k < 2 ^ 20" "k < 8 * length (bitmap fa')"
    using 2(2,6,7) eq by (auto simp: frames_inv_def)
  have pk: "unat (p div FRAME_SIZE) = k"
    using frame_addr [OF k(1)] eq by (simp add: unat_div) (simp add: FRAME_SIZE_def)
  with mark_spec(2) [of "p div FRAME_SIZE" fa'] k(2) obtain fa'' where f: "freeFrame fa' p = Inr fa''"
    "totalFrames fa'' = totalFrames fa'" "length (bitmap fa'') = length (bitmap fa')"
    "\<forall>j. used fa'' j \<longleftrightarrow> used fa' j \<and> j \<noteq> k"
    by (auto simp: freeFrame_def)
  then have inv: "frames_inv fa''"
    using 2(7) eq by (simp add: frames_inv_def)
  have used: "\<forall>j. used fa'' j \<longleftrightarrow> used fa j"
    using f(4) 2(3,5) eq by auto
  from inv have "\<exists>fa3. allocFrame fa'' = Inr (p, fa3)"
  proof (cases rule: allocFrame_spec)
    case 1
    then show ?thesis
      using f(2) used 2(2,3,6) eq by auto
  next
    case (2 j fa3)
    then have "j = k"
      using used \<open>\<not> used fa k\<close> \<open>\<forall>j < k. used fa j\<close> by (metis linorder_neqE_nat)
    with 2 eq show ?thesis
      by blast
  qed
  with f(1) inv used show ?thesis
    by blast
qed

theorem freeFrame_undoes_allocFrame_witness:
  "\<exists>fa' fa''. allocFrame \<lparr>bitmap = [1], totalFrames = 8\<rparr> = Inr (4096, fa') \<and> freeFrame fa' 4096 = Inr fa'' \<and>
     (\<forall>j. used fa'' j \<longleftrightarrow> used \<lparr>bitmap = [1], totalFrames = 8\<rparr> j)"
proof -
  have inv: "frames_inv \<lparr>bitmap = [1], totalFrames = 8\<rparr>"
    by (simp add: frames_inv_def)
  have "allocFrame \<lparr>bitmap = [1], totalFrames = 8\<rparr> = Inr (4096, \<lparr>bitmap = [3], totalFrames = 8\<rparr>)"
    by code_simp
  with freeFrame_undoes_allocFrame [OF inv this] show ?thesis
    by auto
qed

text \<open>
  A fresh allocator hands out frame 0 first, by its address 0, which a caller takes for the null
  pointer and so for exhausted memory: \<^verbatim>\<open>kernelMain\<close> has to mark frame 0 itself.
\<close>

theorem allocFrame_fresh_is_null:
  "\<exists>fa fa'. frames_init 0x20000 [9, 9, 9, 9] = Inr fa \<and> list_all (\<lambda>k. \<not> used fa k) [0..<32] \<and>
     allocFrame fa = Inr (0, fa') \<and> used fa' 0"
proof -
  have "frames_init 0x20000 [9, 9, 9, 9] = Inr \<lparr>bitmap = [0, 0, 0, 0], totalFrames = 32\<rparr>"
    by code_simp
  moreover have "allocFrame \<lparr>bitmap = [0, 0, 0, 0], totalFrames = 32\<rparr> =
      Inr (0, \<lparr>bitmap = [1, 0, 0, 0], totalFrames = 32\<rparr>)"
    by code_simp
  moreover have "list_all (\<lambda>k. \<not> used \<lparr>bitmap = [0, 0, 0, 0], totalFrames = 32\<rparr> k) [0..<32]"
    by code_simp
  moreover have "used \<lparr>bitmap = [1, 0, 0, 0], totalFrames = 32\<rparr> 0"
    by (simp add: used_def)
  ultimately show ?thesis
    by blast
qed

section \<open>The frame provider interface\<close>

text \<open>
  What the users of physical memory (program loading, \<^verbatim>\<open>mmap\<close>, process stacks) rely on: an
  allocation that succeeds hands out a page-aligned frame that was not in use and is from then on.
\<close>

inductive alloc_steps :: "('s \<Rightarrow> (u32 \<times> 's) exec) \<Rightarrow> 's \<Rightarrow> u32 list \<Rightarrow> 's \<Rightarrow> bool" for alloc where
  alloc_none: "alloc_steps alloc s [] s"
| alloc_one: "alloc s = Inr (p, s1) \<Longrightarrow> p \<noteq> 0 \<Longrightarrow> alloc_steps alloc s1 ps s2 \<Longrightarrow>
    alloc_steps alloc s (p # ps) s2"

inductive_cases alloc_steps_ConsE: "alloc_steps alloc s (p # ps) s'"

locale frame_provider =
  fixes inv :: "'s \<Rightarrow> bool" and inuse :: "'s \<Rightarrow> u32 set" and alloc :: "'s \<Rightarrow> (u32 \<times> 's) exec"
  assumes alloc_total: "inv s \<Longrightarrow> \<exists>p s'. alloc s = Inr (p, s')"
    and alloc_none_law: "inv s \<Longrightarrow> alloc s = Inr (0, s') \<Longrightarrow> s' = s"
    and alloc_some_law: "inv s \<Longrightarrow> alloc s = Inr (p, s') \<Longrightarrow> p \<noteq> 0 \<Longrightarrow>
       inv s' \<and> p \<notin> inuse s \<and> inuse s' = insert p (inuse s) \<and> p AND 0xFFF = 0"
begin

lemma steps_fresh:
  "alloc_steps alloc s ps s' \<Longrightarrow> inv s \<Longrightarrow>
     inv s' \<and> distinct ps \<and> set ps \<inter> inuse s = {} \<and> inuse s' = inuse s \<union> set ps \<and>
     (\<forall>p \<in> set ps. p AND 0xFFF = 0)"
proof (induction rule: alloc_steps.induct)
  case (alloc_one s p s1 ps s2)
  then show ?case
    using alloc_some_law [of s p s1] by auto
qed simp

lemma steps_snoc:
  assumes "alloc_steps alloc s ps s1" and "alloc s1 = Inr (p, s2)" and "p \<noteq> 0"
  shows "alloc_steps alloc s (ps @ [p]) s2"
  using assms
  by (induction rule: alloc_steps.induct) (auto intro: alloc_steps.intros)

end

text \<open>The allocator of the kernel, once frame 0 is marked as \<^verbatim>\<open>kernelMain\<close> does.\<close>

definition frames_ready :: "frames \<Rightarrow> bool" where
  "frames_ready fa \<longleftrightarrow> frames_inv fa \<and> 0 < unat (totalFrames fa) \<and> used fa 0"

lemma frame_aligned: "(word_of_nat k * FRAME_SIZE) AND 0xFFF = 0"
proof -
  have m: "(0xFFF :: u32) = mask 12"
    by (simp add: mask_eq_exp_minus_1)
  have "word_of_nat k * FRAME_SIZE = push_bit 12 (word_of_nat k :: u32)"
    by (simp add: push_bit_eq_mult FRAME_SIZE_def)
  then show ?thesis
    unfolding m by (simp only: take_bit_eq_mask [symmetric]) (simp add: take_bit_push_bit)
qed

lemma frames_ready_alloc:
  assumes "frames_ready fa" and "allocFrame fa = Inr (p, fa')"
  shows "p = 0 \<longrightarrow> fa' = fa"
    and "p \<noteq> 0 \<longrightarrow> frames_ready fa' \<and> p \<notin> used_frames fa \<and> used_frames fa' = insert p (used_frames fa) \<and>
      p AND 0xFFF = 0"
proof -
  have inv: "frames_inv fa"
    using assms(1) by (simp add: frames_ready_def)
  have "(p = 0 \<and> fa' = fa) \<or> (p \<noteq> 0 \<and> frames_ready fa' \<and> p \<notin> used_frames fa \<and>
      used_frames fa' = insert p (used_frames fa) \<and> p AND 0xFFF = 0)"
    using inv
  proof (cases rule: allocFrame_spec)
    case 1
    then show ?thesis
      using assms(2) by simp
  next
    case (2 k fa1)
    have eq: "fa1 = fa'" "p = word_of_nat k * FRAME_SIZE"
      using 2(1) assms(2) by auto
    have k: "k < 2 ^ 20"
      using 2(2) inv by (simp add: frames_inv_def)
    have "k \<noteq> 0"
      using 2(3) assms(1) unfolding frames_ready_def by metis
    then have "p \<noteq> 0"
      using frame_addr [OF k] eq by auto
    moreover have "frames_ready fa'"
      using 2(5-7) eq assms(1) by (simp add: frames_ready_def)
    moreover have "p \<notin> used_frames fa"
      using used_frames_iff [OF inv 2(2)] 2(3) eq by simp
    moreover have "used_frames fa' = insert p (used_frames fa)"
      using 2(2,5,6) eq unfolding used_frames_def by auto
    ultimately show ?thesis
      using frame_aligned eq by blast
  qed
  then show "p = 0 \<longrightarrow> fa' = fa" and "p \<noteq> 0 \<longrightarrow> frames_ready fa' \<and> p \<notin> used_frames fa \<and>
      used_frames fa' = insert p (used_frames fa) \<and> p AND 0xFFF = 0"
    by blast+
qed

interpretation pf: frame_provider frames_ready used_frames allocFrame
proof
  fix s assume "frames_ready s"
  then have "frames_inv s"
    by (simp add: frames_ready_def)
  then show "\<exists>p s'. allocFrame s = Inr (p, s')"
    by (cases rule: allocFrame_spec) auto
next
  fix s p s' assume "frames_ready s" "allocFrame s = Inr (p, s')" "p \<noteq> 0"
  then show "frames_ready s' \<and> p \<notin> used_frames s \<and> used_frames s' = insert p (used_frames s) \<and> p AND 0xFFF = 0"
    using frames_ready_alloc(2) by blast
qed (use frames_ready_alloc(1) in blast)

end
