(* ===== verification/Mmu.thy ===== *)
theory Mmu
  imports Prelude
begin

text \<open>
  Paging, \<^verbatim>\<open>src/mem/mmu/mmu.hpp\<close>. Page directories and page tables are 1024-word pages in
  one store, from their addresses, so that a directory entry refers to its table the way the
  machine sees it: by the upper 20 bits. The addresses of the static arrays and of the boot stack come
  from the linker and are fields that nothing changes. The loads of \<^verbatim>\<open>cr3\<close> and the TLB
  invalidations have no counterpart in the state.
\<close>

record mmu =
  mm_pages :: "u32 \<Rightarrow> u32 list option"
  nextPageTable :: u32
  nextDirectory :: u32
  activeDirectory :: u32
  pageDirectory :: u32
  firstPageTable :: u32
  pageTables :: u32
  processDirectories :: u32
  stack_bottom :: u32
  stack_top :: u32

definition FLAGS_PRESENT :: u32 where "FLAGS_PRESENT = 1"
definition FLAGS_WRITABLE :: u32 where "FLAGS_WRITABLE = 2"
definition STACK_BEGIN :: u32 where "STACK_BEGIN = 0xBFFF0000"

definition PAGE_MASK :: u32 where "PAGE_MASK = 0xFFFFF000"

text \<open>Entry \<open>i\<close> of the page at \<open>a\<close>.\<close>

definition mm_get :: "mmu \<Rightarrow> u32 \<Rightarrow> u32 \<Rightarrow> u32 exec" where
  "mm_get m a i = (case mm_pages m a of None \<Rightarrow> Inl OutOfBounds
     | Some p \<Rightarrow> if unat i < length p then Inr (p ! unat i) else Inl OutOfBounds)"

definition mm_put :: "mmu \<Rightarrow> u32 \<Rightarrow> u32 \<Rightarrow> u32 \<Rightarrow> mmu exec" where
  "mm_put m a i v = (case mm_pages m a of None \<Rightarrow> Inl OutOfBounds
     | Some p \<Rightarrow> if unat i < length p then Inr (m\<lparr>mm_pages := (mm_pages m)(a \<mapsto> p[unat i := v])\<rparr>)
               else Inl OutOfBounds)"

definition dirIndex :: "u32 \<Rightarrow> u32" where "dirIndex v = drop_bit 22 v"
definition tabIndex :: "u32 \<Rightarrow> u32" where "tabIndex v = drop_bit 12 v AND 0x3FF"

text \<open>\<^verbatim>\<open>Mmu::init\<close>: the first 4 MiB are identity mapped.\<close>

definition mmu_init :: "mmu \<Rightarrow> mmu" where
  "mmu_init m = m\<lparr>mm_pages := (mm_pages m)
       (firstPageTable m \<mapsto> List.map (\<lambda>i. (word_of_nat i * 0x1000) OR 3) [0..<1024],
        pageDirectory m \<mapsto> (replicate 1024 2)[0 := firstPageTable m OR 3]),
     activeDirectory := pageDirectory m\<rparr>"

text \<open>\<^verbatim>\<open>mapPageIn\<close>: the table comes from the directory, or is the next of the sixteen.\<close>

definition tableFor :: "mmu \<Rightarrow> u32 \<Rightarrow> u32 \<Rightarrow> (u32 \<times> mmu) exec" where
  "tableFor m dir di = bindE (mm_get m dir di) (\<lambda>pde.
     if pde AND 1 = 0 then
       (if nextPageTable m \<ge> 16 then Inl (Panic ''No more page tables: Should fix this'')
        else let t = pageTables m + nextPageTable m * 4096;
                 m1 = m\<lparr>nextPageTable := nextPageTable m + 1,
                        mm_pages := (mm_pages m)(t \<mapsto> replicate 1024 2)\<rparr>
             in bindE (mm_put m1 dir di (t OR 3)) (\<lambda>m2. Inr (t, m2)))
     else Inr (pde AND PAGE_MASK, m))"

definition mapPageIn :: "mmu \<Rightarrow> u32 \<Rightarrow> u32 \<Rightarrow> u32 \<Rightarrow> u32 \<Rightarrow> mmu exec" where
  "mapPageIn m dir phys virt flgs =
     bindE (tableFor m dir (dirIndex virt)) (\<lambda>(t, m').
     mm_put m' t (tabIndex virt) ((phys AND PAGE_MASK) OR flgs OR 1))"

definition mapPage :: "mmu \<Rightarrow> u32 \<Rightarrow> u32 \<Rightarrow> u32 \<Rightarrow> mmu exec" where
  "mapPage m phys virt flgs = mapPageIn m (pageDirectory m) phys virt flgs"

definition unmapPage :: "mmu \<Rightarrow> u32 \<Rightarrow> mmu exec" where
  "unmapPage m virt = bindE (mm_get m (pageDirectory m) (dirIndex virt)) (\<lambda>pde.
     if pde AND FLAGS_PRESENT = 0 then Inr m
     else mm_put m (pde AND PAGE_MASK) (tabIndex virt) 0)"

text \<open>
  The loop \<^verbatim>\<open>for (addr = a; addr < e; addr += 0x1000)\<close> that maps each page to itself. It
  would not end if \<open>addr\<close> wrapped around below \<open>e\<close>; the fuel is the number of pages of the range.
\<close>

fun mapIdentity :: "nat \<Rightarrow> mmu \<Rightarrow> u32 \<Rightarrow> u32 \<Rightarrow> u32 \<Rightarrow> mmu exec" where
  "mapIdentity 0 m dir addr e = (if addr < e then Inl Hang else Inr m)"
| "mapIdentity (Suc k) m dir addr e =
     (if addr < e
      then bindE (mapPageIn m dir addr addr FLAGS_WRITABLE) (\<lambda>m'. mapIdentity k m' dir (addr + 0x1000) e)
      else Inr m)"

definition mapRange :: "mmu \<Rightarrow> u32 \<Rightarrow> u32 \<Rightarrow> u32 \<Rightarrow> mmu exec" where
  "mapRange m dir a e = mapIdentity (Suc (unat (e - a) div 0x1000)) m dir a e"

definition createAddressSpace :: "mmu \<Rightarrow> (u32 \<times> mmu) exec" where
  "createAddressSpace m =
     (if nextDirectory m \<ge> 16 then Inl (Panic ''No more process address spaces: Should fix this'')
      else let dir = processDirectories m + nextDirectory m * 4096 in
        (case mm_pages m (pageDirectory m) of None \<Rightarrow> Inl OutOfBounds
         | Some kd \<Rightarrow>
             bindE (mapRange (m\<lparr>nextDirectory := nextDirectory m + 1,
                                mm_pages := (mm_pages m)(dir \<mapsto> kd)\<rparr>) dir (stack_bottom m) (stack_top m)) (\<lambda>m1.
             let stackPde = dirIndex STACK_BEGIN in
             bindE (mm_get m1 (activeDirectory m1) stackPde) (\<lambda>pde.
             bindE (mm_put m1 dir stackPde pde) (\<lambda>m2. Inr (dir, m2))))))"

definition switchAddressSpace :: "mmu \<Rightarrow> u32 \<Rightarrow> mmu" where
  "switchAddressSpace m dir = (if dir = activeDirectory m then m else m\<lparr>activeDirectory := dir\<rparr>)"

section \<open>What the machine sees\<close>

text \<open>The page walk of the processor: the physical address behind a virtual one.\<close>

definition translate :: "mmu \<Rightarrow> u32 \<Rightarrow> u32 \<Rightarrow> u32 option" where
  "translate m dir v = (case mm_get m dir (dirIndex v) of Inl _ \<Rightarrow> None
     | Inr pde \<Rightarrow> if pde AND 1 = 0 then None else
         (case mm_get m (pde AND PAGE_MASK) (tabIndex v) of Inl _ \<Rightarrow> None
          | Inr pte \<Rightarrow> if pte AND 1 = 0 then None else Some ((pte AND PAGE_MASK) OR (v AND 0xFFF))))"

definition same_page :: "u32 \<Rightarrow> u32 \<Rightarrow> bool" where
  "same_page v w \<longleftrightarrow> v AND PAGE_MASK = w AND PAGE_MASK"

lemma bit_PAGE_MASK: "bit PAGE_MASK n \<longleftrightarrow> 12 \<le> n \<and> n < 32"
proof -
  have eq: "PAGE_MASK = NOT (mask 12)"
    by (simp add: PAGE_MASK_def mask_eq_exp_minus_1)
  show ?thesis
    unfolding eq by (simp only: bit_not_iff bit_mask_iff possible_bit_word) auto
qed

lemma bit_masks:
  "bit (0x3FF :: u32) n \<longleftrightarrow> n < 10" "bit (0xFFF :: u32) n \<longleftrightarrow> n < 12"
proof -
  have eq: "(0x3FF :: u32) = mask 10" "(0xFFF :: u32) = mask 12"
    by (simp_all add: mask_eq_exp_minus_1)
  show "bit (0x3FF :: u32) n \<longleftrightarrow> n < 10" "bit (0xFFF :: u32) n \<longleftrightarrow> n < 12"
    unfolding eq by (simp_all only: bit_mask_iff possible_bit_word) auto
qed

lemma dirIndex_bound: "unat (dirIndex v) < 1024"
proof -
  have "unat v < 2 ^ 32"
    using unsigned_less [of v] by simp
  moreover have "unat (dirIndex v) = unat v div 2 ^ 22"
    by (simp add: dirIndex_def unat_drop_bit_eq drop_bit_eq_div unat_div)
  ultimately show ?thesis
    by (simp add: less_mult_imp_div_less)
qed

lemma tabIndex_bound: "unat (tabIndex v) < 1024"
proof -
  have "drop_bit 12 v AND 0x3FF = take_bit 10 (drop_bit 12 v)"
    by (simp add: take_bit_eq_mask mask_eq_exp_minus_1)
  then have "unat (tabIndex v) = take_bit 10 (unat (drop_bit 12 v))"
    by (simp add: tabIndex_def unsigned_take_bit_eq)
  also have "\<dots> < 2 ^ 10"
    by (rule take_bit_nat_less_exp)
  finally show ?thesis by simp
qed

lemma same_page_iff: "same_page v w \<longleftrightarrow> dirIndex v = dirIndex w \<and> tabIndex v = tabIndex w"
proof
  assume s: "same_page v w"
  have b: "bit v n = bit w n" if "12 \<le> n" for n
  proof (cases "n < 32")
    case True
    have "bit (v AND PAGE_MASK) n = bit (w AND PAGE_MASK) n"
      using s by (simp add: same_page_def)
    then show ?thesis
      using that True by (simp add: bit_simps bit_PAGE_MASK)
  next
    case False
    then show ?thesis
      by (auto dest: bit_imp_le_length)
  qed
  have "dirIndex v = dirIndex w"
    unfolding dirIndex_def by (rule bit_word_eqI) (simp add: bit_simps b)
  moreover have "tabIndex v = tabIndex w"
    unfolding tabIndex_def by (rule bit_word_eqI) (simp only: bit_and_iff bit_drop_bit_eq o_def b le_add1)
  ultimately show "dirIndex v = dirIndex w \<and> tabIndex v = tabIndex w"
    by blast
next
  assume e: "dirIndex v = dirIndex w \<and> tabIndex v = tabIndex w"
  have "bit v n = bit w n" if n: "12 \<le> n" "n < 32" for n
  proof (cases "n < 22")
    case True
    have "bit (tabIndex v) (n - 12) = bit (tabIndex w) (n - 12)"
      using e by simp
    moreover have "n - 12 < 10"
      using n True by simp
    ultimately show ?thesis
      using n by (simp only: tabIndex_def bit_and_iff bit_drop_bit_eq o_def bit_masks) simp
  next
    case False
    have "bit (dirIndex v) (n - 22) = bit (dirIndex w) (n - 22)"
      using e by simp
    then show ?thesis
      using n False by (simp add: dirIndex_def bit_simps)
  qed
  then show "same_page v w"
    unfolding same_page_def by (intro bit_word_eqI) (auto simp: bit_and_iff bit_PAGE_MASK)
qed

lemma pte_mask:
  assumes "flgs AND PAGE_MASK = 0"
  shows "((p AND PAGE_MASK) OR flgs OR 1) AND PAGE_MASK = p AND PAGE_MASK"
proof (rule bit_word_eqI)
  fix n assume "n < LENGTH(32)"
  have "\<not> (bit flgs n \<and> bit PAGE_MASK n)"
    using assms by (metis bit_and_iff bit_0_eq bot_apply bot_bool_def)
  moreover have "bit PAGE_MASK n \<Longrightarrow> n \<noteq> 0"
    by (simp add: bit_PAGE_MASK)
  ultimately show "bit ((p AND PAGE_MASK OR flgs OR 1) AND PAGE_MASK) n = bit (p AND PAGE_MASK) n"
    by (auto simp: bit_and_iff bit_or_iff bit_1_iff)
qed

lemma pte_present: "(x OR y OR 1) AND 1 \<noteq> (0 :: u32)"
proof -
  have "bit ((x OR y OR 1) AND 1 :: u32) 0"
    by (simp add: bit_and_iff bit_or_iff)
  then show ?thesis
    by auto
qed

section \<open>Well-formed directories\<close>

text \<open>The tables of the static array that have not been handed out yet.\<close>

definition tables_free :: "mmu \<Rightarrow> u32 set" where
  "tables_free m = {pageTables m + word_of_nat k * 4096 |k. unat (nextPageTable m) \<le> k \<and> k < 16}"

text \<open>
  A directory whose present entries refer to pages of the store, one table each, none of
  them the directory itself or still to be handed out.
\<close>

definition entries_ok :: "mmu \<Rightarrow> u32 \<Rightarrow> u32 list \<Rightarrow> bool" where
  "entries_ok m dir d \<longleftrightarrow> length d = 1024 \<and>
     (\<forall>i < 1024. d ! i AND 1 \<noteq> 0 \<longrightarrow> (\<exists>t. mm_pages m (d ! i AND PAGE_MASK) = Some t \<and> length t = 1024) \<and>
        d ! i AND PAGE_MASK \<noteq> dir \<and> d ! i AND PAGE_MASK \<notin> tables_free m) \<and>
     (\<forall>i < 1024. \<forall>j < 1024. i \<noteq> j \<longrightarrow> d ! i AND 1 \<noteq> 0 \<longrightarrow> d ! j AND 1 \<noteq> 0 \<longrightarrow>
        d ! i AND PAGE_MASK \<noteq> d ! j AND PAGE_MASK)"

definition dir_wf :: "mmu \<Rightarrow> u32 \<Rightarrow> bool" where
  "dir_wf m dir \<longleftrightarrow> (\<exists>d. mm_pages m dir = Some d \<and> entries_ok m dir d) \<and>
     dir \<notin> tables_free m \<and> pageTables m AND 0xFFF = 0"

lemma page_aligned: "a AND 0xFFF = 0 \<Longrightarrow> a AND PAGE_MASK = a"
proof (rule bit_word_eqI)
  fix n assume a: "a AND 0xFFF = 0" and n: "n < LENGTH(32)"
  have "\<not> (bit a n \<and> bit (0xFFF :: u32) n)"
    using a by (metis bit_and_iff bit_0_eq bot_apply bot_bool_def)
  then have "\<not> (bit a n \<and> n < 12)"
    by (simp only: bit_masks not_False_eq_True)
  then show "bit (a AND PAGE_MASK) n = bit a n"
    using n by (auto simp: bit_and_iff bit_PAGE_MASK)
qed

lemma aligned_table: "a AND 0xFFF = 0 \<Longrightarrow> (a + word_of_nat k * 4096) AND 0xFFF = (0 :: u32)"
proof -
  assume a: "a AND 0xFFF = 0"
  have low: "\<not> bit a n" if "n < 12" for n
  proof -
    have "\<not> (bit a n \<and> bit (0xFFF :: u32) n)"
      using a by (metis bit_and_iff bit_0_eq bot_apply bot_bool_def)
    then show ?thesis
      using that by (simp only: bit_masks simp_thms)
  qed
  have "a = push_bit 12 (drop_bit 12 a)"
  proof (rule bit_word_eqI)
    fix n assume "n < LENGTH(32)"
    then show "bit a n = bit (push_bit 12 (drop_bit 12 a)) n"
      using low [of n] by (cases "n < 12") (simp_all add: bit_simps)
  qed
  moreover have "word_of_nat k * 4096 = push_bit 12 (word_of_nat k :: u32)"
    by (simp add: push_bit_eq_mult)
  ultimately have "a + word_of_nat k * 4096 = push_bit 12 (drop_bit 12 a + word_of_nat k)"
    by (metis push_bit_add)
  then have "\<not> bit ((a + word_of_nat k * 4096) AND 0xFFF) n" for n
    by (simp only: bit_and_iff bit_masks) (simp add: bit_simps)
  then show ?thesis
    by (intro bit_word_eqI) simp
qed

lemma mask_or3: "t AND 0xFFF = 0 \<Longrightarrow> (t OR 3) AND PAGE_MASK = t \<and> (t OR 3) AND 1 \<noteq> 0"
proof -
  assume t: "t AND 0xFFF = 0"
  have eq: "(3 :: u32) = mask 2"
    by (simp add: mask_eq_exp_minus_1)
  have "\<not> bit (3 :: u32) n" if "12 \<le> n" for n
    unfolding eq using that by (simp only: bit_mask_iff) simp
  then have "bit ((t OR 3) AND PAGE_MASK) n = bit (t AND PAGE_MASK) n" for n
    by (auto simp: bit_and_iff bit_or_iff bit_PAGE_MASK)
  then have "(t OR 3) AND PAGE_MASK = t AND PAGE_MASK"
    by (intro bit_word_eqI) simp
  moreover have "bit ((t OR 3) AND 1 :: u32) 0"
    by (simp add: bit_and_iff bit_or_iff)
  ultimately show ?thesis
    using page_aligned [OF t] by auto
qed

lemma table_addr_inj:
  "j < 16 \<Longrightarrow> k < 16 \<Longrightarrow> a + word_of_nat j * 4096 = a + word_of_nat k * (4096 :: u32) \<Longrightarrow> j = k"
proof -
  assume jk: "j < 16" "k < 16" and eq: "a + word_of_nat j * 4096 = a + word_of_nat k * (4096 :: u32)"
  have u: "unat (word_of_nat i * (4096 :: u32)) = i * 4096" if "i < 16" for i
    using that by (simp add: unat_word_ariths)
  from eq have "unat (word_of_nat j * (4096 :: u32)) = unat (word_of_nat k * (4096 :: u32))"
    by simp
  then have "j * 4096 = k * 4096"
    by (simp only: u jk)
  then show "j = k"
    by simp
qed

text \<open>The present table entry for a page, if there is one.\<close>

definition entry :: "mmu \<Rightarrow> u32 \<Rightarrow> u32 \<Rightarrow> u32 \<Rightarrow> u32 option" where
  "entry m dir i j = (case mm_get m dir i of Inl _ \<Rightarrow> None
     | Inr pde \<Rightarrow> if pde AND 1 = 0 then None else
         (case mm_get m (pde AND PAGE_MASK) j of Inl _ \<Rightarrow> None
          | Inr pte \<Rightarrow> if pte AND 1 = 0 then None else Some pte))"

definition present :: "mmu \<Rightarrow> u32 \<Rightarrow> u32 \<Rightarrow> bool" where
  "present m dir i = (case mm_get m dir i of Inl _ \<Rightarrow> False | Inr pde \<Rightarrow> pde AND 1 \<noteq> 0)"

abbreviation has_table :: "mmu \<Rightarrow> u32 \<Rightarrow> u32 \<Rightarrow> bool" where
  "has_table m dir v \<equiv> present m dir (dirIndex v)"

lemma translate_entry:
  "translate m dir v =
     map_option (\<lambda>pte. (pte AND PAGE_MASK) OR (v AND 0xFFF)) (entry m dir (dirIndex v) (tabIndex v))"
  by (simp add: translate_def entry_def split: sum.split)

lemma dir_wfE:
  assumes "dir_wf m dir"
  obtains d where "mm_pages m dir = Some d" and "length d = 1024"
    and "\<And>i. i < 1024 \<Longrightarrow> d ! i AND 1 \<noteq> 0 \<Longrightarrow> \<exists>t. mm_pages m (d ! i AND PAGE_MASK) = Some t \<and> length t = 1024"
    and "\<And>i. i < 1024 \<Longrightarrow> d ! i AND 1 \<noteq> 0 \<Longrightarrow> d ! i AND PAGE_MASK \<noteq> dir"
    and "\<And>i. i < 1024 \<Longrightarrow> d ! i AND 1 \<noteq> 0 \<Longrightarrow> d ! i AND PAGE_MASK \<notin> tables_free m"
    and "\<And>i j. i < 1024 \<Longrightarrow> j < 1024 \<Longrightarrow> i \<noteq> j \<Longrightarrow> d ! i AND 1 \<noteq> 0 \<Longrightarrow> d ! j AND 1 \<noteq> 0 \<Longrightarrow>
        d ! i AND PAGE_MASK \<noteq> d ! j AND PAGE_MASK"
    and "dir \<notin> tables_free m" and "pageTables m AND 0xFFF = 0"
  using assms unfolding dir_wf_def entries_ok_def by blast

text \<open>The directory entry is present: only the table changes.\<close>

lemma map_present:
  assumes wf: "dir_wf m dir" and d: "mm_pages m dir = Some d" and di: "unat di < 1024" and ti: "unat ti < 1024"
    and p: "d ! unat di AND 1 \<noteq> 0"
  shows "\<exists>m'. bindE (tableFor m dir di) (\<lambda>(t, m'). mm_put m' t ti v) = Inr m' \<and> dir_wf m' dir \<and>
     (\<forall>i j. unat i < 1024 \<longrightarrow> unat j < 1024 \<longrightarrow>
        entry m' dir i j = (if i = di \<and> j = ti then (if v AND 1 = 0 then None else Some v) else entry m dir i j)) \<and>
     (\<forall>i. present m' dir i \<longleftrightarrow> present m dir i \<or> i = di) \<and> m' = m\<lparr>mm_pages := mm_pages m'\<rparr>"
proof -
  obtain d' where d': "mm_pages m dir = Some d'" and l: "length d' = 1024"
    and tab: "\<And>i. i < 1024 \<Longrightarrow> d' ! i AND 1 \<noteq> 0 \<Longrightarrow> \<exists>t. mm_pages m (d' ! i AND PAGE_MASK) = Some t \<and> length t = 1024"
    and ndir: "\<And>i. i < 1024 \<Longrightarrow> d' ! i AND 1 \<noteq> 0 \<Longrightarrow> d' ! i AND PAGE_MASK \<noteq> dir"
    and nfree: "\<And>i. i < 1024 \<Longrightarrow> d' ! i AND 1 \<noteq> 0 \<Longrightarrow> d' ! i AND PAGE_MASK \<notin> tables_free m"
    and inj: "\<And>i j. i < 1024 \<Longrightarrow> j < 1024 \<Longrightarrow> i \<noteq> j \<Longrightarrow> d' ! i AND 1 \<noteq> 0 \<Longrightarrow> d' ! j AND 1 \<noteq> 0 \<Longrightarrow>
        d' ! i AND PAGE_MASK \<noteq> d' ! j AND PAGE_MASK"
    and rest: "dir \<notin> tables_free m" "pageTables m AND 0xFFF = 0"
    using wf by (elim dir_wfE) blast
  have [simp]: "d' = d"
    using d d' by simp
  let ?t = "d ! unat di AND PAGE_MASK"
  obtain t where t: "mm_pages m ?t = Some t" "length t = 1024"
    using tab [OF di] p by auto
  have nd: "?t \<noteq> dir"
    using ndir [OF di] p by auto
  let ?m = "m\<lparr>mm_pages := (mm_pages m)(?t \<mapsto> t[unat ti := v])\<rparr>"
  have r: "bindE (tableFor m dir di) (\<lambda>(t, m'). mm_put m' t ti v) = Inr ?m"
    using d l di p t ti by (simp add: tableFor_def mm_get_def mm_put_def)
  have free: "tables_free ?m = tables_free m"
    by (simp add: tables_free_def)
  have "entries_ok ?m dir d"
    unfolding entries_ok_def free using l tab ndir nfree inj t by auto
  then have wf': "dir_wf ?m dir"
    unfolding dir_wf_def free using d nd rest by auto
  have "entry ?m dir i j = (if i = di \<and> j = ti then (if v AND 1 = 0 then None else Some v) else entry m dir i j)"
    if ij: "unat i < 1024" "unat j < 1024" for i j
  proof (cases "i = di")
    case True
    then show ?thesis
      using d l di p t ti ij nd by (simp add: entry_def mm_get_def nth_list_update word_unat_eq_iff)
  next
    case False
    then have "unat i \<noteq> unat di"
      by (simp add: word_unat_eq_iff)
    then have "d ! unat i AND PAGE_MASK \<noteq> ?t" if "d ! unat i AND 1 \<noteq> 0"
      using inj [OF ij(1) di] p that by auto
    then show ?thesis
      using False d nd ij l by (auto simp: entry_def mm_get_def)
  qed
  moreover have "present ?m dir i \<longleftrightarrow> present m dir i \<or> i = di" for i
    using d l di p nd by (auto simp: present_def mm_get_def)
  ultimately show ?thesis
    using r wf' by (intro exI [of _ ?m]) simp
qed

text \<open>The directory entry is absent: the next table is taken, all of its entries absent.\<close>

lemma map_absent:
  assumes wf: "dir_wf m dir" and d: "mm_pages m dir = Some d" and di: "unat di < 1024" and ti: "unat ti < 1024"
    and p: "d ! unat di AND 1 = 0" and v: "v AND 1 \<noteq> 0" and n: "nextPageTable m < 16"
  shows "\<exists>m'. bindE (tableFor m dir di) (\<lambda>(t, m'). mm_put m' t ti v) = Inr m' \<and> dir_wf m' dir \<and>
     (\<forall>i j. unat i < 1024 \<longrightarrow> unat j < 1024 \<longrightarrow>
        entry m' dir i j = (if i = di \<and> j = ti then Some v else entry m dir i j)) \<and>
     (\<forall>i. present m' dir i \<longleftrightarrow> present m dir i \<or> i = di) \<and> m' = m\<lparr>nextPageTable := nextPageTable m + 1, mm_pages := mm_pages m'\<rparr>"
proof -
  obtain d' where d': "mm_pages m dir = Some d'" and l: "length d' = 1024"
    and tab: "\<And>i. i < 1024 \<Longrightarrow> d' ! i AND 1 \<noteq> 0 \<Longrightarrow> \<exists>t. mm_pages m (d' ! i AND PAGE_MASK) = Some t \<and> length t = 1024"
    and ndir: "\<And>i. i < 1024 \<Longrightarrow> d' ! i AND 1 \<noteq> 0 \<Longrightarrow> d' ! i AND PAGE_MASK \<noteq> dir"
    and nfree: "\<And>i. i < 1024 \<Longrightarrow> d' ! i AND 1 \<noteq> 0 \<Longrightarrow> d' ! i AND PAGE_MASK \<notin> tables_free m"
    and inj: "\<And>i j. i < 1024 \<Longrightarrow> j < 1024 \<Longrightarrow> i \<noteq> j \<Longrightarrow> d' ! i AND 1 \<noteq> 0 \<Longrightarrow> d' ! j AND 1 \<noteq> 0 \<Longrightarrow>
        d' ! i AND PAGE_MASK \<noteq> d' ! j AND PAGE_MASK"
    and rest: "dir \<notin> tables_free m" "pageTables m AND 0xFFF = 0"
    using wf by (elim dir_wfE) blast
  have [simp]: "d' = d"
    using d d' by simp
  let ?k = "unat (nextPageTable m)"
  let ?t = "pageTables m + nextPageTable m * 4096"
  have k: "?k < 16"
    using n by (simp add: word_less_nat_alt)
  have tk: "?t = pageTables m + word_of_nat ?k * 4096"
    by simp
  have tf: "?t \<in> tables_free m"
    unfolding tables_free_def using k tk by blast
  have nd: "?t \<noteq> dir"
    using tf rest(1) by auto
  have al: "(?t OR 3) AND PAGE_MASK = ?t" "(?t OR 3) AND 1 \<noteq> 0"
    using mask_or3 [OF aligned_table [OF rest(2), of ?k]] by simp_all
  let ?d = "d[unat di := ?t OR 3]"
  let ?m = "m\<lparr>nextPageTable := nextPageTable m + 1,
      mm_pages := (mm_pages m)(?t \<mapsto> (replicate 1024 2)[unat ti := v], dir \<mapsto> ?d)\<rparr>"
  have "\<not> 16 \<le> nextPageTable m"
    using n by simp
  moreover have "(mm_pages m)(?t \<mapsto> replicate 1024 2, dir \<mapsto> ?d, ?t \<mapsto> (replicate 1024 2)[unat ti := v]) =
      (mm_pages m)(?t \<mapsto> (replicate 1024 2)[unat ti := v], dir \<mapsto> ?d)"
    using nd by auto
  ultimately have r: "bindE (tableFor m dir di) (\<lambda>(t, m'). mm_put m' t ti v) = Inr ?m"
    using d l di p ti nd by (simp add: tableFor_def mm_get_def mm_put_def Let_def)
  have k1: "unat (nextPageTable m + 1) = ?k + 1"
    using k by (simp add: unat_word_ariths)
  have free: "tables_free ?m = tables_free m - {?t}"
  proof -
    have "x \<in> tables_free ?m \<longleftrightarrow> x \<in> tables_free m \<and> x \<noteq> ?t" for x
    proof
      assume "x \<in> tables_free ?m"
      then obtain j where j: "x = pageTables m + word_of_nat j * 4096" "?k + 1 \<le> j" "j < 16"
        unfolding tables_free_def using k1 by auto
      have "x \<noteq> ?t"
        using table_addr_inj [OF j(3) k] j(1,2) tk by force
      moreover have "?k \<le> j"
        using j(2) by simp
      ultimately show "x \<in> tables_free m \<and> x \<noteq> ?t"
        unfolding tables_free_def using j(1,3) by blast
    next
      assume "x \<in> tables_free m \<and> x \<noteq> ?t"
      then obtain j where j: "x = pageTables m + word_of_nat j * 4096" "?k \<le> j" "j < 16"
        unfolding tables_free_def by blast
      moreover have "j \<noteq> ?k"
        using j(1) tk \<open>x \<in> tables_free m \<and> x \<noteq> ?t\<close> by metis
      ultimately have "unat (nextPageTable ?m) \<le> j"
        using k1 by simp
      with j(1,3) show "x \<in> tables_free ?m"
        unfolding tables_free_def by auto
    qed
    then show ?thesis
      by blast
  qed
  have nt: "d ! i AND PAGE_MASK \<noteq> ?t" if "i < 1024" "d ! i AND 1 \<noteq> 0" for i
    using nfree [of i] tf that by auto
  have "entries_ok ?m dir ?d"
    unfolding entries_ok_def free using l tab ndir nfree inj nt nt [THEN not_sym] al nd di
    by (auto simp: nth_list_update)
  then have wf': "dir_wf ?m dir"
    unfolding dir_wf_def free using rest by auto
  have two: "(2 :: u32) AND 1 = 0"
    by simp
  have "entry ?m dir i j = (if i = di \<and> j = ti then Some v else entry m dir i j)"
    if ij: "unat i < 1024" "unat j < 1024" for i j
  proof (cases "i = di")
    case True
    then show ?thesis
      using d l di p ti v ij nd al two
      by (simp add: entry_def mm_get_def nth_list_update word_unat_eq_iff del: and_one_eq)
  next
    case False
    then have "unat i \<noteq> unat di"
      by (simp add: word_unat_eq_iff)
    then show ?thesis
      using False d nd ij l nt [OF ij(1)] ndir [OF ij(1)] by (auto simp: entry_def mm_get_def)
  qed
  moreover have "present ?m dir i \<longleftrightarrow> present m dir i \<or> i = di" for i
    using d l di al by (simp add: present_def mm_get_def nth_list_update word_unat_eq_iff)
  ultimately show ?thesis
    using r wf' by (intro exI [of _ ?m]) simp
qed

section \<open>Mapping a page\<close>

text \<open>The addresses and counters that mapping does not touch.\<close>

definition same_layout :: "mmu \<Rightarrow> mmu \<Rightarrow> bool" where
  "same_layout m m' \<longleftrightarrow> nextDirectory m' = nextDirectory m \<and> activeDirectory m' = activeDirectory m \<and>
     pageDirectory m' = pageDirectory m \<and> pageTables m' = pageTables m \<and>
     processDirectories m' = processDirectories m \<and> stack_bottom m' = stack_bottom m \<and> stack_top m' = stack_top m"

lemma same_layout_trans: "same_layout m m1 \<Longrightarrow> same_layout m1 m2 \<Longrightarrow> same_layout m m2"
  by (simp add: same_layout_def)

lemma mm_put_layout: "mm_put m a i v = Inr m' \<Longrightarrow> same_layout m m'"
  by (auto simp: mm_put_def same_layout_def split: option.splits if_splits)

lemma mapPageIn_layout:
  assumes "mapPageIn m dir phys v flgs = Inr m'"
  shows "same_layout m m'"
proof -
  obtain t m1 where t: "tableFor m dir (dirIndex v) = Inr (t, m1)" and p: "mm_put m1 t (tabIndex v) ((phys AND PAGE_MASK) OR flgs OR 1) = Inr m'"
    using assms by (auto simp: mapPageIn_def)
  have "same_layout m m1"
    using t mm_put_layout by (fastforce simp: tableFor_def Let_def same_layout_def split: if_splits)
  then show ?thesis
    using mm_put_layout [OF p] by (rule same_layout_trans)
qed

lemma mapIdentity_layout: "mapIdentity k m dir a e = Inr m' \<Longrightarrow> same_layout m m'"
proof (induction k arbitrary: m a)
  case (Suc k)
  show ?case
  proof (cases "a < e")
    case True
    then obtain m1 where "mapPageIn m dir a a FLAGS_WRITABLE = Inr m1" "mapIdentity k m1 dir (a + 0x1000) e = Inr m'"
      using Suc.prems by auto
    then show ?thesis
      using Suc.IH mapPageIn_layout same_layout_trans by blast
  next
    case False
    then show ?thesis
      using Suc.prems by (simp add: same_layout_def)
  qed
qed (simp add: same_layout_def split: if_splits)

text \<open>The directory is the next one of the array, which then counts as handed out.\<close>

lemma createAddressSpace_takes_next:
  assumes "createAddressSpace m = Inr (dir, m')"
  shows "nextDirectory m < 16" and "dir = processDirectories m + nextDirectory m * 4096"
    and "nextDirectory m' = nextDirectory m + 1" and "processDirectories m' = processDirectories m"
    and "pageDirectory m' = pageDirectory m"
proof -
  obtain kd m1 pde where c: "nextDirectory m < 16" "dir = processDirectories m + nextDirectory m * 4096"
    "mapRange (m\<lparr>nextDirectory := nextDirectory m + 1, mm_pages := (mm_pages m)(dir \<mapsto> kd)\<rparr>) dir (stack_bottom m) (stack_top m) = Inr m1"
    "mm_put m1 dir (dirIndex STACK_BEGIN) pde = Inr m'"
    using assms by (auto simp: createAddressSpace_def Let_def not_le split: if_splits option.splits)
  note l = same_layout_trans [OF mapIdentity_layout [OF c(3) [unfolded mapRange_def]] mm_put_layout [OF c(4)]]
  show "nextDirectory m < 16" "dir = processDirectories m + nextDirectory m * 4096"
    "nextDirectory m' = nextDirectory m + 1" "processDirectories m' = processDirectories m" "pageDirectory m' = pageDirectory m"
    using c(1,2) l by (simp_all add: same_layout_def)
qed

lemma mapPageIn_spec:
  assumes wf: "dir_wf m dir" and f: "flgs AND PAGE_MASK = 0" and n: "has_table m dir v \<or> nextPageTable m < 16"
  shows "\<exists>m'. mapPageIn m dir phys v flgs = Inr m' \<and> dir_wf m' dir \<and> same_layout m m' \<and>
     nextPageTable m' = (if has_table m dir v then nextPageTable m else nextPageTable m + 1) \<and>
     (\<forall>i. present m' dir i \<longleftrightarrow> present m dir i \<or> i = dirIndex v) \<and>
     (\<forall>w. translate m' dir w =
        (if same_page v w then Some ((phys AND PAGE_MASK) OR (w AND 0xFFF)) else translate m dir w))"
proof -
  obtain d where d: "mm_pages m dir = Some d" "length d = 1024"
    using wf by (elim dir_wfE) blast
  have ht: "has_table m dir v \<longleftrightarrow> d ! unat (dirIndex v) AND 1 \<noteq> 0"
    using d dirIndex_bound by (simp add: present_def mm_get_def)
  let ?v = "(phys AND PAGE_MASK) OR flgs OR 1"
  note map = map_present [OF wf d(1) dirIndex_bound [of v] tabIndex_bound [of v], where v = ?v, unfolded if_not_P [OF pte_present]]
    map_absent [OF wf d(1) dirIndex_bound [of v] tabIndex_bound [of v] _ pte_present]
  obtain m' where m': "mapPageIn m dir phys v flgs = Inr m'" "dir_wf m' dir" "same_layout m m'"
    "nextPageTable m' = (if has_table m dir v then nextPageTable m else nextPageTable m + 1)"
    "\<forall>i. present m' dir i \<longleftrightarrow> present m dir i \<or> i = dirIndex v"
    and e: "\<forall>i j. unat i < 1024 \<longrightarrow> unat j < 1024 \<longrightarrow>
        entry m' dir i j = (if i = dirIndex v \<and> j = tabIndex v then Some ?v else entry m dir i j)"
  proof (cases "has_table m dir v")
    case True
    then have "d ! unat (dirIndex v) AND 1 \<noteq> 0"
      using ht by simp
    from map(1) [OF this] obtain m' where "bindE (tableFor m dir (dirIndex v)) (\<lambda>(t, m'). mm_put m' t (tabIndex v) ?v) = Inr m'"
      "dir_wf m' dir" and eq: "m' = m\<lparr>mm_pages := mm_pages m'\<rparr>"
      and "\<forall>i j. unat i < 1024 \<longrightarrow> unat j < 1024 \<longrightarrow>
        entry m' dir i j = (if i = dirIndex v \<and> j = tabIndex v then Some ?v else entry m dir i j)"
      and "\<forall>i. present m' dir i \<longleftrightarrow> present m dir i \<or> i = dirIndex v"
      by (elim exE conjE) (rule that, assumption+)
    moreover have "same_layout m m'" "nextPageTable m' = nextPageTable m"
      by (subst eq, simp add: same_layout_def)+
    ultimately show thesis
      using that True by (simp add: mapPageIn_def)
  next
    case False
    then have "d ! unat (dirIndex v) AND 1 = 0" and "nextPageTable m < 16"
      using ht n by simp_all
    from map(2) [OF this, of "phys AND PAGE_MASK" flgs] obtain m' where "bindE (tableFor m dir (dirIndex v)) (\<lambda>(t, m'). mm_put m' t (tabIndex v) ?v) = Inr m'"
      "dir_wf m' dir" and eq: "m' = m\<lparr>nextPageTable := nextPageTable m + 1, mm_pages := mm_pages m'\<rparr>"
      and "\<forall>i j. unat i < 1024 \<longrightarrow> unat j < 1024 \<longrightarrow>
        entry m' dir i j = (if i = dirIndex v \<and> j = tabIndex v then Some ?v else entry m dir i j)"
      and "\<forall>i. present m' dir i \<longleftrightarrow> present m dir i \<or> i = dirIndex v"
      by (elim exE conjE) (rule that, assumption+)
    moreover have "same_layout m m'" "nextPageTable m' = nextPageTable m + 1"
      by (subst eq, simp add: same_layout_def)+
    ultimately show thesis
      using that False by (simp add: mapPageIn_def)
  qed
  have "translate m' dir w =
        (if same_page v w then Some ((phys AND PAGE_MASK) OR (w AND 0xFFF)) else translate m dir w)" for w
    using e dirIndex_bound [of w] tabIndex_bound [of w] pte_mask [OF f, of phys]
    by (auto simp: translate_entry same_page_iff)
  with m' show ?thesis
    by blast
qed

lemma mapPageIn_panics:
  assumes "dir_wf m dir" and "\<not> has_table m dir v" and "\<not> nextPageTable m < 16"
  shows "mapPageIn m dir phys v flgs = Inl (Panic ''No more page tables: Should fix this'')"
proof -
  obtain d where d: "mm_pages m dir = Some d" "length d = 1024"
    using assms(1) by (elim dir_wfE) blast
  moreover have "16 \<le> nextPageTable m"
    using assms(3) by simp
  ultimately show ?thesis
    using assms(2) dirIndex_bound [of v]
    by (simp add: mapPageIn_def tableFor_def present_def mm_get_def)
qed

text \<open>C18: \<^verbatim>\<open>mapPageIn\<close> makes the virtual page translate to the physical one and changes the
  translation of no other page of the directory, whether the table was there or had to be
  taken from the sixteen; when it has to take one and none is left, the kernel panics.\<close>

theorem mapPageIn_maps:
  assumes "dir_wf m dir" and "flgs AND PAGE_MASK = 0"
  shows "if has_table m dir v \<or> nextPageTable m < 16
     then \<exists>m'. mapPageIn m dir phys v flgs = Inr m' \<and> dir_wf m' dir \<and>
       (\<forall>w. translate m' dir w =
          (if same_page v w then Some ((phys AND PAGE_MASK) OR (w AND 0xFFF)) else translate m dir w))
     else mapPageIn m dir phys v flgs = Inl (Panic ''No more page tables: Should fix this'')"
proof (cases "has_table m dir v \<or> nextPageTable m < 16")
  case True
  from mapPageIn_spec [OF assms True, of phys] show ?thesis
    unfolding if_P [OF True] by blast
next
  case False
  then show ?thesis
    using mapPageIn_panics [OF assms(1)] by simp
qed

section \<open>Identity mapping of a range\<close>

lemma page_split: "(v AND PAGE_MASK) OR (v AND 0xFFF) = v"
proof (rule bit_word_eqI)
  fix n assume "n < LENGTH(32)"
  then show "bit ((v AND PAGE_MASK) OR (v AND 0xFFF)) n = bit v n"
    by (simp only: bit_or_iff bit_and_iff bit_PAGE_MASK bit_masks) auto
qed

lemma same_page_identity: "same_page v w \<Longrightarrow> (v AND PAGE_MASK) OR (w AND 0xFFF) = w"
  by (simp add: same_page_def page_split)

lemma PAGE_MASK_div: "unat (v AND PAGE_MASK) = unat v div 4096 * 4096"
proof -
  have "v AND PAGE_MASK = push_bit 12 (drop_bit 12 v)"
  proof (rule bit_word_eqI)
    fix n assume "n < LENGTH(32)"
    then show "bit (v AND PAGE_MASK) n = bit (push_bit 12 (drop_bit 12 v)) n"
      by (cases "n < 12") (simp_all add: bit_and_iff bit_PAGE_MASK bit_simps)
  qed
  also have "unat \<dots> = unat (drop_bit 12 v) * 2 ^ 12 mod 2 ^ 32"
    by (simp add: push_bit_eq_mult unat_word_ariths)
  also have "unat (drop_bit 12 v) = unat v div 4096"
    by (simp add: unat_drop_bit_eq drop_bit_eq_div unat_div)
  also have "unat v div 4096 * 2 ^ 12 mod 2 ^ 32 = unat v div 4096 * 2 ^ 12"
  proof -
    have "unat v < 2 ^ 32"
      using unsigned_less [of v] by simp
    then have "unat v div 4096 * 2 ^ 12 < 2 ^ 32"
      by (simp add: order.strict_trans1 [OF div_times_less_eq_dividend])
    then show ?thesis
      by (rule mod_less)
  qed
  finally show ?thesis by simp
qed

lemma same_page_div: "same_page v w \<longleftrightarrow> unat v div 4096 = unat w div 4096"
  by (simp add: same_page_def word_unat_eq_iff PAGE_MASK_div)

lemma unat_dirIndex: "unat (dirIndex v) = unat v div 2 ^ 22"
  by (simp add: dirIndex_def unat_drop_bit_eq drop_bit_eq_div unat_div)

lemma dirIndex_mono: "v \<le> w \<Longrightarrow> dirIndex v \<le> dirIndex w"
  by (simp add: word_le_nat_alt unat_dirIndex div_le_mono)

text \<open>
  The loop keeps every translation outside the pages it visits. One unit of fuel for each page is
  enough, and one unused page table for each of the directory entries \<open>S\<close> that are missing.
\<close>

lemma mapIdentity_spec:
  assumes "dir_wf m dir" and "unat a mod 4096 = 0" and "unat e + 4096 \<le> 2 ^ 32"
    and "unat e \<le> unat a + 4096 * k" and "finite S" and "\<forall>v. a \<le> v \<and> v < e \<longrightarrow> dirIndex v \<in> S"
    and "card {i \<in> S. \<not> present m dir i} + unat (nextPageTable m) \<le> 16"
  shows "\<exists>m'. mapIdentity k m dir a e = Inr m' \<and> dir_wf m' dir \<and> same_layout m m' \<and>
     (\<forall>w. translate m' dir w =
        (if unat a div 4096 \<le> unat w div 4096 \<and> unat w div 4096 * 4096 < unat e then Some w
         else translate m dir w))"
  using assms(1-4,6,7)
proof (induction k m dir a e rule: mapIdentity.induct)
  case (1 m dir addr e)
  have "\<not> (unat addr div 4096 \<le> unat w div 4096 \<and> unat w div 4096 * 4096 < unat e)" for w :: u32
    using "1.prems"(2,4) by auto
  then show ?case
    using "1.prems" by (auto simp: word_less_nat_alt same_layout_def)
next
  case (2 k m dir addr e)
  show ?case
  proof (cases "addr < e")
    case False
    then have "\<not> (unat addr div 4096 \<le> unat w div 4096 \<and> unat w div 4096 * 4096 < unat e)" for w :: u32
      using "2.prems"(2) by (auto simp: word_less_nat_alt)
    with False "2.prems"(1) show ?thesis
      by (auto simp: same_layout_def)
  next
    case True
    let ?M = "{i \<in> S. \<not> present m dir i}"
    have f: "FLAGS_WRITABLE AND PAGE_MASK = 0"
      by (simp add: FLAGS_WRITABLE_def PAGE_MASK_def)
    have fin: "finite ?M"
      using assms(5) by simp
    have inS: "dirIndex addr \<in> S"
      using "2.prems"(5) True by blast
    have n: "nextPageTable m < 16" if "\<not> has_table m dir addr"
    proof -
      have "dirIndex addr \<in> ?M"
        using inS that by blast
      then have "0 < card ?M"
        using fin card_gt_0_iff by blast
      then show ?thesis
        using "2.prems"(6) by (simp add: word_less_nat_alt)
    qed
    then have "has_table m dir addr \<or> nextPageTable m < 16"
      by blast
    from mapPageIn_spec [OF "2.prems"(1) f this] obtain m1 where m1:
      "mapPageIn m dir addr addr FLAGS_WRITABLE = Inr m1" "dir_wf m1 dir" "same_layout m m1"
      "nextPageTable m1 = (if has_table m dir addr then nextPageTable m else nextPageTable m + 1)"
      "\<forall>i. present m1 dir i \<longleftrightarrow> present m dir i \<or> i = dirIndex addr"
      and tr: "\<forall>w. translate m1 dir w =
        (if same_page addr w then Some ((addr AND PAGE_MASK) OR (w AND 0xFFF)) else translate m dir w)"
      by blast
    have a1: "unat (addr + 0x1000) = unat addr + 4096"
      using True "2.prems"(3) by (simp add: word_less_nat_alt unat_word_ariths)
    have "{i \<in> S. \<not> present m1 dir i} = ?M - {dirIndex addr}"
      using m1(5) by blast
    then have tabs: "card {i \<in> S. \<not> present m1 dir i} + unat (nextPageTable m1) \<le> 16"
    proof (cases "has_table m dir addr")
      case True
      then show ?thesis
        using "2.prems"(6) m1(4) \<open>{i \<in> S. \<not> present m1 dir i} = ?M - {dirIndex addr}\<close> by simp
    next
      case False
      then have mem: "dirIndex addr \<in> ?M"
        using inS by blast
      have "card (?M - {dirIndex addr}) = card ?M - 1"
        by (rule card_Diff_singleton [OF mem])
      moreover have "0 < card ?M"
        using mem fin card_gt_0_iff by blast
      moreover have "unat (nextPageTable m1) = unat (nextPageTable m) + 1"
        using m1(4) n [OF False] False by (simp add: unat_word_ariths word_less_nat_alt)
      ultimately show ?thesis
        using "2.prems"(6) \<open>{i \<in> S. \<not> present m1 dir i} = ?M - {dirIndex addr}\<close> by simp
    qed
    have p: "unat (addr + 0x1000) mod 4096 = 0" "unat e \<le> unat (addr + 0x1000) + 4096 * k"
      using "2.prems"(2,4) a1 by simp_all
    have S: "\<forall>v. addr + 0x1000 \<le> v \<and> v < e \<longrightarrow> dirIndex v \<in> S"
      using "2.prems"(5) a1 by (auto simp: word_le_nat_alt)
    from "2.IH" [OF True m1(1,2) p(1) "2.prems"(3) p(2) S tabs] obtain m' where m':
      "mapIdentity k m1 dir (addr + 0x1000) e = Inr m'" "dir_wf m' dir" "same_layout m1 m'"
      and tr': "\<forall>w. translate m' dir w =
        (if unat (addr + 0x1000) div 4096 \<le> unat w div 4096 \<and> unat w div 4096 * 4096 < unat e then Some w
         else translate m1 dir w)"
      by blast
    have "translate m' dir w = (if unat addr div 4096 \<le> unat w div 4096 \<and> unat w div 4096 * 4096 < unat e
        then Some w else translate m dir w)" for w
    proof (cases "same_page addr w")
      case True
      then have "unat w div 4096 = unat addr div 4096"
        by (simp add: same_page_div)
      moreover have "unat addr div 4096 * 4096 = unat addr"
        using "2.prems"(2) by auto
      ultimately show ?thesis
        using tr tr' a1 True \<open>addr < e\<close> same_page_identity [OF True] by (simp add: word_less_nat_alt)
    next
      case False
      then have "unat addr div 4096 \<le> unat w div 4096 \<longleftrightarrow> unat addr div 4096 + 1 \<le> unat w div 4096"
        by (auto simp: same_page_div)
      moreover have "(unat addr + 4096) div 4096 = unat addr div 4096 + 1"
        by simp
      ultimately show ?thesis
        using tr tr' a1 False by simp
    qed
    moreover have "same_layout m m'"
      using m1(3) m'(3) by (simp add: same_layout_def)
    ultimately show ?thesis
      using True m1(1) m'(1,2) by auto
  qed
qed

text \<open>The loops of \<^verbatim>\<open>kernelMain\<close> over the frame buffer and the heap, and the one of
  \<^verbatim>\<open>createAddressSpace\<close> over the boot stack, map each page of a page-aligned range to itself and keep every
  other translation, and they end; this needs an unused page table for each directory entry of the
  range that is missing.\<close>

theorem mapRange_identity:
  assumes "dir_wf m dir" and "unat a mod 4096 = 0" and "a < e" and "unat e + 4096 \<le> 2 ^ 32"
    and "card {i. dirIndex a \<le> i \<and> i \<le> dirIndex (e - 1) \<and> \<not> present m dir i} + unat (nextPageTable m) \<le> 16"
  shows "\<exists>m'. mapRange m dir a e = Inr m' \<and> dir_wf m' dir \<and>
     (\<forall>w. translate m' dir w =
        (if a \<le> w AND PAGE_MASK \<and> w AND PAGE_MASK < e then Some w else translate m dir w))"
proof -
  let ?k = "Suc (unat (e - a) div 0x1000)" and ?S = "{i. dirIndex a \<le> i \<and> i \<le> dirIndex (e - 1)}"
  have u: "unat (e - a) = unat e - unat a"
    using assms(3) by (simp add: unat_sub)
  have k: "unat e \<le> unat a + 4096 * ?k"
    using assms(3) u by (simp add: word_less_nat_alt)
  have a: "unat a = unat a div 4096 * 4096"
    using assms(2) by auto
  have S: "\<forall>v. a \<le> v \<and> v < e \<longrightarrow> dirIndex v \<in> ?S"
  proof (intro allI impI)
    fix v assume v: "a \<le> v \<and> v < e"
    then have "e \<noteq> 0"
      by auto
    then have "unat (e - 1) = unat e - 1"
      by (rule unat_minus_one)
    moreover have "unat v < unat e"
      using v by (simp add: word_less_nat_alt)
    ultimately have "v \<le> e - 1"
      unfolding word_le_nat_alt by linarith
    with v show "dirIndex v \<in> ?S"
      by (simp add: dirIndex_mono)
  qed
  have n: "card {i \<in> ?S. \<not> present m dir i} + unat (nextPageTable m) \<le> 16"
    using assms(5) by (simp add: conj_assoc)
  have "a \<le> w AND PAGE_MASK \<longleftrightarrow> unat a div 4096 \<le> unat w div 4096" for w
  proof -
    have "unat a \<le> unat w div 4096 * 4096 \<longleftrightarrow> unat a div 4096 \<le> unat w div 4096"
      by (subst a) simp
    then show ?thesis
      by (simp add: word_le_nat_alt PAGE_MASK_div)
  qed
  moreover have "w AND PAGE_MASK < e \<longleftrightarrow> unat w div 4096 * 4096 < unat e" for w
    by (simp add: word_less_nat_alt PAGE_MASK_div)
  moreover obtain m' where "mapRange m dir a e = Inr m'" "dir_wf m' dir"
    "\<forall>w. translate m' dir w =
        (if unat a div 4096 \<le> unat w div 4096 \<and> unat w div 4096 * 4096 < unat e then Some w
         else translate m dir w)"
    using mapIdentity_spec [OF assms(1,2,4) k _ S n] unfolding mapRange_def by auto
  ultimately show ?thesis
    by (intro exI [of _ m']) simp
qed

section \<open>The start of the kernel directory\<close>

lemma shift_tabIndex:
  assumes "dirIndex w = 0"
  shows "word_of_nat (unat (tabIndex w)) * 0x1000 = w AND PAGE_MASK"
proof -
  have high: "\<not> bit w n" if "22 \<le> n" for n
  proof -
    have "\<not> bit (dirIndex w) (n - 22)"
      using assms by simp
    then show ?thesis
      using that by (simp add: dirIndex_def bit_simps)
  qed
  have "word_of_nat (unat (tabIndex w)) * 0x1000 = push_bit 12 (tabIndex w)"
    by (simp add: push_bit_eq_mult)
  also have "\<dots> = w AND PAGE_MASK"
  proof (rule bit_word_eqI)
    fix n assume n: "n < LENGTH(32)"
    consider "n < 12" | "12 \<le> n" "n < 22" | "22 \<le> n"
      by linarith
    then show "bit (push_bit 12 (tabIndex w)) n = bit (w AND PAGE_MASK) n"
    proof cases
      case 2
      then have "n - 12 < 10"
        by simp
      then show ?thesis
        using n 2 by (simp add: bit_push_bit_iff bit_and_iff bit_PAGE_MASK)
          (simp only: tabIndex_def bit_and_iff bit_masks bit_drop_bit_eq o_def, simp)
    next
      case 3
      then have "\<not> n - 12 < 10"
        by simp
      then have "\<not> bit (tabIndex w) (n - 12)"
        by (simp only: tabIndex_def bit_and_iff bit_masks simp_thms)
      then show ?thesis
        using n 3 high by (simp add: bit_push_bit_iff bit_and_iff)
    qed (use n in \<open>simp add: bit_push_bit_iff bit_and_iff bit_PAGE_MASK\<close>)
  qed
  finally show ?thesis .
qed

lemma two_absent: "(2 :: u32) AND 1 = 0"
  by simp

lemma mmu_init_spec:
  assumes "pageTables m AND 0xFFF = 0" and "firstPageTable m AND 0xFFF = 0"
    and "firstPageTable m \<noteq> pageDirectory m" and "pageDirectory m \<notin> tables_free m"
    and "firstPageTable m \<notin> tables_free m"
  shows "dir_wf (mmu_init m) (pageDirectory m) \<and> activeDirectory (mmu_init m) = pageDirectory m \<and>
     (\<forall>w. translate (mmu_init m) (pageDirectory m) w = (if w < 0x400000 then Some w else None))"
proof -
  let ?m = "mmu_init m" and ?d = "(replicate 1024 2)[0 := firstPageTable m OR 3]"
  let ?t = "List.map (\<lambda>i. (word_of_nat i * 0x1000) OR 3) [0..<1024] :: u32 list"
  have pages: "mm_pages ?m (pageDirectory m) = Some ?d" "mm_pages ?m (firstPageTable m) = Some ?t"
    using assms(3) by (auto simp: mmu_init_def)
  have free: "tables_free ?m = tables_free m" and pt: "pageTables ?m = pageTables m"
    by (simp_all add: tables_free_def mmu_init_def)
  note fp = mask_or3 [OF assms(2)]
  have d: "?d ! i = (if i = 0 then firstPageTable m OR 3 else 2)" if "i < 1024" for i
    using that by (simp add: nth_list_update)
  have len: "length ?d = 1024" "length ?t = 1024"
    by (simp_all del: upt_rec_numeral)
  have ok: "entries_ok ?m (pageDirectory m) ?d"
    unfolding entries_ok_def free
    using len pages fp assms(3,5) two_absent by (simp add: d del: and_one_eq)
  have wf: "dir_wf ?m (pageDirectory m)"
    unfolding dir_wf_def free pt using ok pages assms(1,4) by blast
  have "translate ?m (pageDirectory m) w = (if w < 0x400000 then Some w else None)" for w
  proof (cases "dirIndex w = 0")
    case True
    then have lt: "w < 0x400000"
      using unat_dirIndex [of w] by (simp add: word_less_nat_alt div_eq_0_iff)
    have tb: "unat (tabIndex w) < length ?t" "unat (tabIndex w) < 1024"
      using tabIndex_bound [of w] len(2) by simp_all
    have a: "word_of_nat (unat (tabIndex w)) * 0x1000 AND 0xFFF = (0 :: u32)"
      using aligned_table [of 0 "unat (tabIndex w)"] by simp
    have e: "?t ! unat (tabIndex w) = (w AND PAGE_MASK) OR 3"
      using tb(2) shift_tabIndex [OF True] by (simp del: upt_rec_numeral)
    have "mm_get ?m (pageDirectory m) 0 = Inr (firstPageTable m OR 3)"
      using pages(1) len(1) by (simp add: mm_get_def d)
    moreover have "mm_get ?m (firstPageTable m) (tabIndex w) = Inr ((w AND PAGE_MASK) OR 3)"
      using pages(2) tb e by (simp add: mm_get_def del: upt_rec_numeral)
    moreover have "((w AND PAGE_MASK) OR 3) AND PAGE_MASK = w AND PAGE_MASK"
      and "((w AND PAGE_MASK) OR 3) AND 1 \<noteq> 0"
      using mask_or3 [OF a] unfolding shift_tabIndex [OF True] by blast+
    ultimately show ?thesis
      using True fp lt by (simp add: translate_def page_split del: and_one_eq)
  next
    case False
    then have "\<not> w < 0x400000" "unat (dirIndex w) \<noteq> 0"
      using unat_dirIndex [of w] by (auto simp: word_less_nat_alt word_unat_eq_iff)
    moreover have "?d ! unat (dirIndex w) = 2"
      using d [OF dirIndex_bound [of w]] calculation(2) by simp
    ultimately show ?thesis
      using pages(1) len(1) dirIndex_bound [of w] two_absent
      by (simp add: translate_def mm_get_def del: and_one_eq)
  qed
  with wf show ?thesis
    by (simp add: mmu_init_def)
qed

text \<open>After \<^verbatim>\<open>Mmu::init\<close> the kernel directory is well formed and maps exactly the first
  4 MiB, each address to itself.\<close>

theorem mmu_init_identity:
  assumes "pageTables m AND 0xFFF = 0" and "firstPageTable m AND 0xFFF = 0"
    and "firstPageTable m \<noteq> pageDirectory m" and "pageDirectory m \<notin> tables_free m"
    and "firstPageTable m \<notin> tables_free m"
  shows "dir_wf (mmu_init m) (pageDirectory m) \<and> activeDirectory (mmu_init m) = pageDirectory m \<and>
     (\<forall>w. translate (mmu_init m) (pageDirectory m) w = (if w < 0x400000 then Some w else None))"
  using assms by (rule mmu_init_spec)

section \<open>A new address space\<close>

lemma mm_put_other_entry:
  assumes "dir_wf m dir" and "mm_put m dir i v = Inr m'" and "dirIndex w \<noteq> i"
  shows "translate m' dir w = translate m dir w"
proof -
  obtain d where d: "mm_pages m dir = Some d" "length d = 1024"
    and nd: "\<And>i. i < 1024 \<Longrightarrow> d ! i AND 1 \<noteq> 0 \<Longrightarrow> d ! i AND PAGE_MASK \<noteq> dir"
    using assms(1) by (elim dir_wfE) blast
  have m': "m' = m\<lparr>mm_pages := (mm_pages m)(dir \<mapsto> d[unat i := v])\<rparr>"
    using assms(2) d(1) by (simp add: mm_put_def split: if_splits)
  have "unat (dirIndex w) \<noteq> unat i"
    using assms(3) by (simp add: word_unat_eq_iff)
  then have "d[unat i := v] ! unat (dirIndex w) = d ! unat (dirIndex w)"
    by simp
  then show ?thesis
    using d nd [OF dirIndex_bound [of w]] dirIndex_bound [of w]
    by (simp add: translate_def mm_get_def m' del: and_one_eq)
qed

lemma dir_wf_copy:
  assumes "dir_wf m k" and "mm_pages m k = Some kd" and "dir \<notin> tables_free m"
    and "\<forall>i < 1024. kd ! i AND 1 \<noteq> 0 \<longrightarrow> kd ! i AND PAGE_MASK \<noteq> dir"
    and m'_def: "m' = m\<lparr>nextDirectory := n, mm_pages := (mm_pages m)(dir \<mapsto> kd)\<rparr>"
  shows "dir_wf m' dir" and "\<forall>w. translate m' dir w = translate m k w"
    and "\<forall>i. present m' dir i \<longleftrightarrow> present m k i"
proof -
  have ok: "entries_ok m k kd" and al: "pageTables m AND 0xFFF = 0"
    using assms(1,2) by (auto simp: dir_wf_def)
  have free: "tables_free m' = tables_free m"
    by (simp add: tables_free_def m'_def)
  have "entries_ok m' dir kd"
    using ok assms(4) unfolding entries_ok_def free by (auto simp: m'_def)
  then show "dir_wf m' dir"
    unfolding dir_wf_def free using assms(3) al by (auto simp: m'_def)
  have "kd ! unat (dirIndex w) AND 1 \<noteq> 0 \<Longrightarrow> kd ! unat (dirIndex w) AND PAGE_MASK \<noteq> dir" for w
    using assms(4) dirIndex_bound by blast
  then show "\<forall>w. translate m' dir w = translate m k w"
    using assms(2) by (auto simp: translate_def mm_get_def m'_def split: option.splits)
  show "\<forall>i. present m' dir i \<longleftrightarrow> present m k i"
    using assms(2) by (simp add: present_def mm_get_def m'_def)
qed

text \<open>Pages stay where they are, and keep their size.\<close>

definition keeps_pages :: "mmu \<Rightarrow> mmu \<Rightarrow> bool" where
  "keeps_pages m m' \<longleftrightarrow> (\<forall>a p. mm_pages m a = Some p \<and> length p = 1024 \<longrightarrow>
     (\<exists>p'. mm_pages m' a = Some p' \<and> length p' = 1024))"

lemma keeps_pages_refl [simp]: "keeps_pages m m"
  by (simp add: keeps_pages_def)

lemma keeps_pages_trans: "keeps_pages m m1 \<Longrightarrow> keeps_pages m1 m2 \<Longrightarrow> keeps_pages m m2"
  unfolding keeps_pages_def by blast

lemma mm_put_keeps_pages: "mm_put m a i v = Inr m' \<Longrightarrow> keeps_pages m m'"
  by (auto simp: mm_put_def keeps_pages_def split: option.splits if_splits)

lemma mapPageIn_keeps_pages:
  assumes "mapPageIn m dir phys v flgs = Inr m'"
  shows "keeps_pages m m'"
proof -
  obtain t m1 where t: "tableFor m dir (dirIndex v) = Inr (t, m1)"
    and put: "mm_put m1 t (tabIndex v) ((phys AND PAGE_MASK) OR flgs OR 1) = Inr m'"
    using assms by (auto simp: mapPageIn_def exec_simps)
  have "keeps_pages m m1"
  proof (cases "mm_get m dir (dirIndex v)")
    case (Inr pde)
    show ?thesis
    proof (cases "pde AND 1 = 0")
      case True
      let ?t = "pageTables m + nextPageTable m * 4096"
      let ?m = "m\<lparr>nextPageTable := nextPageTable m + 1, mm_pages := (mm_pages m)(?t \<mapsto> replicate 1024 2)\<rparr>"
      have "mm_put ?m dir (dirIndex v) (?t OR 3) = Inr m1"
        using t Inr True by (auto simp: tableFor_def Let_def exec_simps split: if_splits)
      then have put1: "keeps_pages ?m m1"
        by (rule mm_put_keeps_pages)
      have "keeps_pages m ?m"
        by (auto simp: keeps_pages_def)
      then show ?thesis
        using put1 by (rule keeps_pages_trans)
    next
      case False
      then show ?thesis
        using t Inr by (auto simp: tableFor_def)
    qed
  qed (use t in \<open>auto simp: tableFor_def\<close>)
  then show ?thesis
    using mm_put_keeps_pages [OF put] by (rule keeps_pages_trans)
qed

lemma mapIdentity_keeps_pages: "mapIdentity k m dir a e = Inr m' \<Longrightarrow> keeps_pages m m'"
proof (induction k m dir a e rule: mapIdentity.induct)
  case (2 k m dir addr e)
  show ?case
  proof (cases "addr < e")
    case True
    then have "bindE (mapPageIn m dir addr addr FLAGS_WRITABLE) (\<lambda>m'. mapIdentity k m' dir (addr + 0x1000) e) = Inr m'"
      using "2.prems" by simp
    then obtain m1 where "mapPageIn m dir addr addr FLAGS_WRITABLE = Inr m1" "mapIdentity k m1 dir (addr + 0x1000) e = Inr m'"
      by (rule bindE_split_asm_Inr)
    with "2.IH" [OF True] show ?thesis
      using mapPageIn_keeps_pages keeps_pages_trans by blast
  qed (use "2.prems" in simp)
qed (auto split: if_splits)

text \<open>What the loop over the boot stack needs: its fuel and its range, and that the copied entries name other pages.\<close>

lemma mapRange_fuel: "unat e \<le> unat a + 4096 * Suc (unat (e - a) div 0x1000)" for a e :: u32
proof (cases "a \<le> e")
  case True
  then have "unat (e - a) = unat e - unat a"
    by (rule unat_sub)
  then show ?thesis by simp
qed (simp add: word_le_nat_alt)

lemma page_in_range:
  assumes "unat a mod 4096 = 0"
  shows "unat a div 4096 \<le> unat w div 4096 \<and> unat w div 4096 * 4096 < unat e \<longleftrightarrow> a \<le> w AND PAGE_MASK \<and> w AND PAGE_MASK < e"
proof -
  have "unat a div 4096 * 4096 = unat a"
    using assms by auto
  moreover have "unat a div 4096 * 4096 \<le> unat w div 4096 * 4096 \<longleftrightarrow> unat a div 4096 \<le> unat w div 4096"
    by simp
  ultimately show ?thesis
    by (simp add: word_le_nat_alt word_less_nat_alt PAGE_MASK_div)
qed

lemma entries_avoid:
  assumes "mm_pages m pd = Some kd" and "length kd = 1024"
    and "\<forall>i pde. unat i < 1024 \<longrightarrow> mm_get m pd i = Inr pde \<longrightarrow> pde AND 1 \<noteq> 0 \<longrightarrow> pde AND PAGE_MASK \<noteq> dir"
  shows "\<forall>i < 1024. kd ! i AND 1 \<noteq> 0 \<longrightarrow> kd ! i AND PAGE_MASK \<noteq> dir"
proof (intro allI impI)
  fix i :: nat assume i: "i < 1024" "kd ! i AND 1 \<noteq> 0"
  have u: "unat (word_of_nat i :: u32) = i"
    using i(1) by (intro unat_of_nat32) simp
  then have "mm_get m pd (word_of_nat i) = Inr (kd ! i)"
    using assms(1,2) i(1) by (simp add: mm_get_def)
  then show "kd ! i AND PAGE_MASK \<noteq> dir"
    using assms(3) i u by metis
qed

text \<open>C17: \<^verbatim>\<open>createAddressSpace\<close> gives a directory that maps the boot stack to itself and
  everything else as the kernel directory does, except the 4 MiB of the process stack, where it
  maps what the active directory maps. (The next directory of the static array must not be one of
  the pages already in use, and the kernel directory must have the tables of the boot stack.)\<close>

theorem createAddressSpace_inherits:
  assumes wf: "dir_wf m (pageDirectory m)" and n: "nextDirectory m < 16" "nextPageTable m \<le> 16"
    and dir: "dir = processDirectories m + nextDirectory m * 4096"
    and fresh: "dir \<notin> tables_free m" "activeDirectory m \<noteq> dir"
      "\<forall>i pde. unat i < 1024 \<longrightarrow> mm_get m (pageDirectory m) i = Inr pde \<longrightarrow> pde AND 1 \<noteq> 0 \<longrightarrow> pde AND PAGE_MASK \<noteq> dir"
    and active: "mm_pages m (activeDirectory m) = Some ad" "length ad = 1024"
    and stack: "unat (stack_bottom m) mod 4096 = 0" "unat (stack_top m) + 4096 \<le> 2 ^ 32"
      "\<forall>v. stack_bottom m \<le> v \<and> v < stack_top m \<longrightarrow> has_table m (pageDirectory m) v"
  shows "\<exists>m'. createAddressSpace m = Inr (dir, m') \<and>
     (\<forall>w. dirIndex w \<noteq> dirIndex STACK_BEGIN \<longrightarrow> translate m' dir w =
        (if stack_bottom m \<le> w AND PAGE_MASK \<and> w AND PAGE_MASK < stack_top m then Some w
         else translate m (pageDirectory m) w))"
proof -
  let ?a = "stack_bottom m" and ?e = "stack_top m"
  obtain kd where kd: "mm_pages m (pageDirectory m) = Some kd" "length kd = 1024"
    using wf by (elim dir_wfE) blast
  let ?m = "m\<lparr>nextDirectory := nextDirectory m + 1, mm_pages := (mm_pages m)(dir \<mapsto> kd)\<rparr>"
  note copy = dir_wf_copy [OF wf kd(1) fresh(1) entries_avoid [OF kd fresh(3)] refl, of "nextDirectory m + 1"]
  let ?S = "{i. present ?m dir i}"
  have S: "\<forall>v. ?a \<le> v \<and> v < ?e \<longrightarrow> dirIndex v \<in> ?S"
    using stack(3) copy(3) by blast
  have c: "card {i \<in> ?S. \<not> present ?m dir i} + unat (nextPageTable ?m) \<le> 16"
    using n(2) by (simp add: word_le_nat_alt)
  from mapIdentity_spec [OF copy(1) stack(1,2) mapRange_fuel _ S c] obtain m1 where m1:
    "mapRange ?m dir ?a ?e = Inr m1" "dir_wf m1 dir" "same_layout ?m m1"
    and tr: "\<forall>w. translate m1 dir w =
        (if unat ?a div 4096 \<le> unat w div 4096 \<and> unat w div 4096 * 4096 < unat ?e then Some w
         else translate ?m dir w)"
    unfolding mapRange_def by auto
  have kp: "keeps_pages ?m m1"
    using m1(1) mapIdentity_keeps_pages unfolding mapRange_def by blast
  have ap: "mm_pages ?m (activeDirectory m) = Some ad"
    using active fresh(2) by simp
  have act: "activeDirectory m1 = activeDirectory m"
    using m1(3) by (simp add: same_layout_def)
  obtain pde where pde: "mm_get m1 (activeDirectory m1) (dirIndex STACK_BEGIN) = Inr pde"
    using kp ap active(2) act dirIndex_bound [of STACK_BEGIN] by (auto simp: keeps_pages_def mm_get_def)
  obtain d1 where d1: "mm_pages m1 dir = Some d1" "length d1 = 1024"
    using m1(2) by (elim dir_wfE) blast
  obtain m2 where m2: "mm_put m1 dir (dirIndex STACK_BEGIN) pde = Inr m2"
    using d1 dirIndex_bound [of STACK_BEGIN] by (simp add: mm_put_def)
  have res: "createAddressSpace m = Inr (dir, m2)"
    using n(1) kd(1) m1(1) pde m2 dir by (simp add: createAddressSpace_def Let_def not_le [symmetric])
  have "translate m1 dir w = (if ?a \<le> w AND PAGE_MASK \<and> w AND PAGE_MASK < ?e then Some w
       else translate m (pageDirectory m) w)" for w
    using tr copy(2) by (simp add: page_in_range [OF stack(1)])
  moreover have "translate m2 dir w = translate m1 dir w" if "dirIndex w \<noteq> dirIndex STACK_BEGIN" for w
    using mm_put_other_entry [OF m1(2) m2 that] .
  ultimately show ?thesis
    using res by (intro exI [of _ m2]) simp
qed

section \<open>Unmapping, and shared tables\<close>

text \<open>\<^verbatim>\<open>unmapPage\<close> takes the page out of the kernel directory and changes the
  translation of no other page there; it never fails, also where no table is.\<close>

theorem unmapPage_unmaps:
  assumes "dir_wf m (pageDirectory m)"
  shows "\<exists>m'. unmapPage m v = Inr m' \<and> dir_wf m' (pageDirectory m) \<and>
     (\<forall>w. translate m' (pageDirectory m) w =
        (if same_page v w then None else translate m (pageDirectory m) w))"
proof -
  let ?k = "pageDirectory m"
  obtain d where d: "mm_pages m ?k = Some d" "length d = 1024"
    using assms by (elim dir_wfE) blast
  have get: "mm_get m ?k (dirIndex v) = Inr (d ! unat (dirIndex v))"
    using d dirIndex_bound [of v] by (simp add: mm_get_def)
  show ?thesis
  proof (cases "d ! unat (dirIndex v) AND 1 = 0")
    case True
    then have "translate m ?k w = None" if "same_page v w" for w
      using that get by (simp add: translate_def same_page_iff)
    moreover have "unmapPage m v = Inr m"
      using get True by (simp add: unmapPage_def FLAGS_PRESENT_def)
    ultimately show ?thesis
      using assms by auto
  next
    case False
    let ?t = "d ! unat (dirIndex v) AND PAGE_MASK"
    from map_present [OF assms d(1) dirIndex_bound [of v] tabIndex_bound [of v] False, where v = 0]
    obtain m' where m': "bindE (tableFor m ?k (dirIndex v)) (\<lambda>(t, m'). mm_put m' t (tabIndex v) 0) = Inr m'"
      "dir_wf m' ?k" and e: "\<forall>i j. unat i < 1024 \<longrightarrow> unat j < 1024 \<longrightarrow> entry m' ?k i j =
         (if i = dirIndex v \<and> j = tabIndex v then (if 0 AND 1 = (0 :: u32) then None else Some 0) else entry m ?k i j)"
      by (elim exE conjE) (rule that, assumption+)
    have "tableFor m ?k (dirIndex v) = Inr (?t, m)"
      using get False by (simp add: tableFor_def)
    then have "unmapPage m v = Inr m'"
      using m'(1) get False by (simp add: unmapPage_def FLAGS_PRESENT_def)
    moreover have "translate m' ?k w = (if same_page v w then None else translate m ?k w)" for w
      using e dirIndex_bound [of w] tabIndex_bound [of w] by (auto simp: translate_entry same_page_iff)
    ultimately show ?thesis
      using m'(2) by blast
  qed
qed

text \<open>Page tables are shared between the directories that refer to them: what
  \<^verbatim>\<open>mapPageIn\<close> maps for one directory through a table it inherited is mapped from then on in every
  other directory with that table, the kernel's included.\<close>

theorem shared_table_mapping_visible:
  assumes "dir_wf m dir" and "dir_wf m dir2" and "flgs AND PAGE_MASK = 0" and "has_table m dir v"
    and "mm_get m dir2 (dirIndex v) = mm_get m dir (dirIndex v)"
  shows "\<exists>m'. mapPageIn m dir phys v flgs = Inr m' \<and>
     translate m' dir2 v = Some ((phys AND PAGE_MASK) OR (v AND 0xFFF))"
proof -
  obtain d where d: "mm_pages m dir = Some d" "length d = 1024"
    and tab: "\<And>i. i < 1024 \<Longrightarrow> d ! i AND 1 \<noteq> 0 \<Longrightarrow> \<exists>t. mm_pages m (d ! i AND PAGE_MASK) = Some t \<and> length t = 1024"
    using assms(1) by (elim dir_wfE) blast
  obtain d2 where d2: "mm_pages m dir2 = Some d2" "length d2 = 1024"
    and nd2: "\<And>i. i < 1024 \<Longrightarrow> d2 ! i AND 1 \<noteq> 0 \<Longrightarrow> d2 ! i AND PAGE_MASK \<noteq> dir2"
    using assms(2) by (elim dir_wfE) blast
  let ?i = "unat (dirIndex v)"
  have eq: "d2 ! ?i = d ! ?i" and p: "d ! ?i AND 1 \<noteq> 0"
    using assms(4,5) d d2 dirIndex_bound [of v] by (auto simp: present_def mm_get_def)
  obtain t where t: "mm_pages m (d ! ?i AND PAGE_MASK) = Some t" "length t = 1024"
    using tab [OF dirIndex_bound p] by blast
  let ?v = "(phys AND PAGE_MASK) OR flgs OR 1"
  let ?m = "m\<lparr>mm_pages := (mm_pages m)(d ! ?i AND PAGE_MASK \<mapsto> t[unat (tabIndex v) := ?v])\<rparr>"
  have "tableFor m dir (dirIndex v) = Inr (d ! ?i AND PAGE_MASK, m)"
    using d p dirIndex_bound [of v] by (simp add: tableFor_def mm_get_def)
  then have "mapPageIn m dir phys v flgs = Inr ?m"
    using t tabIndex_bound [of v] by (simp add: mapPageIn_def mm_put_def)
  moreover have "d ! ?i AND PAGE_MASK \<noteq> dir2"
    using nd2 [OF dirIndex_bound [of v]] eq p by simp
  then have "translate ?m dir2 v = Some ((phys AND PAGE_MASK) OR (v AND 0xFFF))"
    using d2 eq p t dirIndex_bound [of v] tabIndex_bound [of v] pte_present [of "phys AND PAGE_MASK" flgs]
      pte_mask [OF assms(3), of phys]
    by (simp add: translate_def mm_get_def del: and_one_eq)
  ultimately show ?thesis
    by blast
qed

section \<open>A small machine\<close>

definition mmu0 :: mmu where
  "mmu0 = \<lparr>mm_pages = Map.empty, nextPageTable = 0, nextDirectory = 0, activeDirectory = 0,
     pageDirectory = 0x101000, firstPageTable = 0x102000, pageTables = 0x110000,
     processDirectories = 0x120000, stack_bottom = 0x130000, stack_top = 0x132000\<rparr>"

lemma tables_free_range:
  assumes "x \<in> tables_free m" and "unat (pageTables m) + 65536 \<le> 2 ^ 32"
  shows "unat (pageTables m) \<le> unat x \<and> unat x < unat (pageTables m) + 65536"
proof -
  obtain k where k: "x = pageTables m + word_of_nat k * 4096" "k < 16"
    using assms(1) by (auto simp: tables_free_def)
  have "unat (word_of_nat k * 4096 :: u32) = k * 4096"
    using k(2) by (simp add: unat_word_ariths)
  then have "unat x = unat (pageTables m) + k * 4096"
    using k assms(2) by (simp add: unat_word_ariths)
  then show ?thesis
    using k(2) by simp
qed

lemma mmu0_free: "x \<in> tables_free mmu0 \<Longrightarrow> 0x110000 \<le> unat x \<and> unat x < 0x120000"
  using tables_free_range [of x mmu0] by (simp add: mmu0_def)

lemma mmu0_init:
  "pageTables mmu0 AND 0xFFF = 0" "firstPageTable mmu0 AND 0xFFF = 0"
  "firstPageTable mmu0 \<noteq> pageDirectory mmu0" "pageDirectory mmu0 \<notin> tables_free mmu0"
  "firstPageTable mmu0 \<notin> tables_free mmu0"
  using mmu0_free [of "pageDirectory mmu0"] mmu0_free [of "firstPageTable mmu0"] by (auto simp: mmu0_def)

theorem mmu_init_identity_witness:
  "dir_wf (mmu_init mmu0) 0x101000 \<and> translate (mmu_init mmu0) 0x101000 0x3FFFFF = Some 0x3FFFFF \<and>
   translate (mmu_init mmu0) 0x101000 0x400000 = None"
  using mmu_init_identity [OF mmu0_init] by (simp add: mmu0_def)

lemma mmu0_wf: "dir_wf (mmu_init mmu0) 0x101000"
  and mmu0_translate: "translate (mmu_init mmu0) 0x101000 w = (if w < 0x400000 then Some w else None)"
  and mmu0_kernel: "pageDirectory (mmu_init mmu0) = 0x101000"
  using mmu_init_spec [OF mmu0_init] by (simp_all add: mmu0_def mmu_init_def)

lemma translate_has_table: "translate m dir w = Some p \<Longrightarrow> has_table m dir w"
  by (auto simp: translate_def present_def split: sum.splits if_splits)

lemma flags_ok: "3 AND PAGE_MASK = 0"
  by (simp add: PAGE_MASK_def)

theorem mapPageIn_maps_witness:
  "\<exists>m'. mapPageIn (mmu_init mmu0) 0x101000 0x5000 0x40000000 3 = Inr m' \<and>
     translate m' 0x101000 0x40000123 = Some 0x5123 \<and> translate m' 0x101000 0x1234 = Some 0x1234"
proof -
  have n: "has_table (mmu_init mmu0) 0x101000 0x40000000 \<or> nextPageTable (mmu_init mmu0) < 16"
    by (simp add: mmu0_def mmu_init_def)
  from mapPageIn_maps [OF mmu0_wf flags_ok, of "0x40000000" "0x5000", unfolded if_P [OF n]]
  obtain m' where "mapPageIn (mmu_init mmu0) 0x101000 0x5000 0x40000000 3 = Inr m'"
    and "\<forall>w. translate m' 0x101000 w = (if same_page 0x40000000 w
       then Some ((0x5000 AND PAGE_MASK) OR (w AND 0xFFF)) else translate (mmu_init mmu0) 0x101000 w)"
    by blast
  then show ?thesis
    by (simp add: same_page_def PAGE_MASK_def mmu0_translate)
qed

theorem mapRange_identity_witness:
  "\<exists>m'. mapRange (mmu_init mmu0) 0x101000 0x500000 0x502000 = Inr m' \<and>
     translate m' 0x101000 0x501FFF = Some 0x501FFF \<and> translate m' 0x101000 0x502000 = None"
proof -
  let ?S = "{i. dirIndex 0x500000 \<le> i \<and> i \<le> dirIndex (0x502000 - 1) \<and> \<not> present (mmu_init mmu0) 0x101000 i}"
  have "?S \<subseteq> {1}"
    by (auto simp: dirIndex_def)
  then have "card ?S \<le> 1"
    using card_mono [of "{1}" ?S] by simp
  then have "card ?S + unat (nextPageTable (mmu_init mmu0)) \<le> 16"
    by (simp add: mmu0_def mmu_init_def)
  from mapRange_identity [OF mmu0_wf _ _ _ this] show ?thesis
    by (fastforce simp: PAGE_MASK_def mmu0_translate)
qed

theorem unmapPage_unmaps_witness:
  "\<exists>m'. unmapPage (mmu_init mmu0) 0x3000 = Inr m' \<and> translate m' 0x101000 0x3456 = None \<and>
     translate m' 0x101000 0x4000 = Some 0x4000"
  using unmapPage_unmaps [of "mmu_init mmu0" "0x3000"] mmu0_wf
  by (fastforce simp: mmu0_kernel mmu0_translate same_page_def PAGE_MASK_def)

lemma mmu0_entries: "mm_get (mmu_init mmu0) 0x101000 i = Inr pde \<Longrightarrow> pde AND 1 \<noteq> 0 \<Longrightarrow> pde = 0x102003"
  by (auto simp: mm_get_def mmu_init_def mmu0_def nth_list_update split: if_splits simp del: and_one_eq)

theorem createAddressSpace_inherits_witness:
  "\<exists>m'. createAddressSpace (mmu_init mmu0) = Inr (0x120000, m') \<and> translate m' 0x120000 0x3000 = Some 0x3000"
proof -
  let ?m = "mmu_init mmu0"
  have dir: "0x120000 = processDirectories ?m + nextDirectory ?m * 4096"
    and n: "nextDirectory ?m < 16" "nextPageTable ?m \<le> 16" and act: "activeDirectory ?m = 0x101000"
    and stack: "stack_bottom ?m = 0x130000" "stack_top ?m = 0x132000"
    by (simp_all add: mmu0_def mmu_init_def)
  obtain ad where ad: "mm_pages ?m 0x101000 = Some ad" "length ad = 1024"
    using mmu0_wf by (elim dir_wfE) blast
  have free: "0x120000 \<notin> tables_free ?m"
    using mmu0_free [of "0x120000"] by (auto simp: tables_free_def mmu_init_def)
  have pde: "\<forall>i pde. unat i < 1024 \<longrightarrow> mm_get ?m (pageDirectory ?m) i = Inr pde \<longrightarrow> pde AND 1 \<noteq> 0 \<longrightarrow>
      pde AND PAGE_MASK \<noteq> 0x120000"
  proof (intro allI impI)
    fix i pde assume "mm_get ?m (pageDirectory ?m) i = Inr pde" "pde AND 1 \<noteq> 0"
    then have "pde = 0x102003"
      unfolding mmu0_kernel by (rule mmu0_entries)
    then show "pde AND PAGE_MASK \<noteq> 0x120000"
      by (simp add: PAGE_MASK_def)
  qed
  have tabs: "\<forall>v. stack_bottom ?m \<le> v \<and> v < stack_top ?m \<longrightarrow> has_table ?m (pageDirectory ?m) v"
  proof (intro allI impI)
    fix v assume "stack_bottom ?m \<le> v \<and> v < stack_top ?m"
    then have "v < 0x400000"
      unfolding stack by (auto simp: word_less_nat_alt word_le_nat_alt)
    then show "has_table ?m (pageDirectory ?m) v"
      using translate_has_table [of ?m "0x101000" v v] by (simp add: mmu0_translate mmu0_kernel)
  qed
  show ?thesis
    using createAddressSpace_inherits [OF _ n dir free _ pde _ ad(2) _ _ tabs] mmu0_wf ad(1) act
    by (fastforce simp: mmu0_kernel stack mmu0_translate dirIndex_def STACK_BEGIN_def PAGE_MASK_def)
qed

lemma dir_wf_add_page:
  assumes "dir_wf m k" and "dir \<noteq> k" and "length x = 1024"
  shows "dir_wf (m\<lparr>mm_pages := (mm_pages m)(dir \<mapsto> x)\<rparr>) k"
proof -
  have free: "tables_free (m\<lparr>mm_pages := p\<rparr>) = tables_free m" for p
    by (simp add: tables_free_def)
  show ?thesis
    using assms unfolding dir_wf_def entries_ok_def free by auto
qed

theorem shared_table_mapping_visible_witness:
  "\<exists>m m'. mapPageIn m 0x120000 0x5000 0x3000 3 = Inr m' \<and> translate m' 0x101000 0x3000 = Some 0x5000"
proof -
  let ?b = "mmu_init mmu0"
  obtain kd where kd: "mm_pages ?b 0x101000 = Some kd" "length kd = 1024"
    using mmu0_wf by (elim dir_wfE) blast
  let ?m = "?b\<lparr>nextDirectory := 0, mm_pages := (mm_pages ?b)(0x120000 \<mapsto> kd)\<rparr>"
  have m: "?m = ?b\<lparr>mm_pages := (mm_pages ?b)(0x120000 \<mapsto> kd)\<rparr>"
    by (simp add: mmu_init_def mmu0_def)
  have free: "0x120000 \<notin> tables_free ?b"
    using mmu0_free [of "0x120000"] by (auto simp: tables_free_def mmu_init_def)
  have nt: "\<forall>i < 1024. kd ! i AND 1 \<noteq> 0 \<longrightarrow> kd ! i AND PAGE_MASK \<noteq> 0x120000"
  proof (intro allI impI)
    fix i :: nat assume i: "i < 1024" "kd ! i AND 1 \<noteq> 0"
    have "unat (word_of_nat i :: u32) = i"
      using i(1) by (intro unat_of_nat32) simp
    then have "mm_get ?b 0x101000 (word_of_nat i) = Inr (kd ! i)"
      using kd i(1) by (simp add: mm_get_def)
    from mmu0_entries [OF this i(2)] show "kd ! i AND PAGE_MASK \<noteq> 0x120000"
      by (simp add: PAGE_MASK_def)
  qed
  note copy = dir_wf_copy [OF mmu0_wf kd(1) free nt refl, of 0]
  have wf2: "dir_wf ?m 0x101000"
    unfolding m by (rule dir_wf_add_page [OF mmu0_wf _ kd(2)]) simp
  have "has_table ?m 0x120000 0x3000"
    using copy(2) translate_has_table [of ?m "0x120000" "0x3000" "0x3000"] by (simp add: mmu0_translate)
  moreover have "mm_get ?m 0x101000 (dirIndex 0x3000) = mm_get ?m 0x120000 (dirIndex 0x3000)"
    using kd by (simp add: mm_get_def)
  ultimately show ?thesis
    using shared_table_mapping_visible [OF copy(1) wf2 flags_ok, of "0x3000" "0x5000"]
    by (force simp: PAGE_MASK_def)
qed

end
