(* ===== verification/Process.thy ===== *)
theory Process
  imports Frames Mmu
begin

text \<open>
  Processes, \<^verbatim>\<open>src/proc/process.cpp\<close>, the ELF loader \<^verbatim>\<open>src/proc/ELF/loader.hpp\<close> and the
  \<^verbatim>\<open>Mmap\<close> system call of \<^verbatim>\<open>src/drivers/interrupts/sysc/handler.cpp\<close>, over the frame
  allocator and the paging structures. \<open>ks_phys\<close> is the content of physical memory outside the
  paging structures; the image of an ELF file is a byte list of its own. Kernel heap
  allocations are taken to succeed and log lines are left out.
\<close>

datatype priveledge = User | Driver | Kernel
datatype importance = REQ | OPT

record regstate =
  r_eax :: u32
  r_ebx :: u32
  r_ecx :: u32
  r_edx :: u32
  r_esi :: u32
  r_edi :: u32
  r_ebp :: u32
  r_esp :: u32
  r_eip :: u32
  r_eflags :: u32
  r_cs :: u32
  r_ss :: u32
  r_ds :: u32
  r_es :: u32
  r_fs :: u32
  r_gs :: u32

text \<open>Pairs of \<^verbatim>\<open>PhysToVirt\<close> are (physical, virtual).\<close>

record process =
  pid :: u32
  pname :: "u8 list"
  srcFp :: "u8 list"
  priv :: priveledge
  pages :: "(u32 \<times> u32) list"
  stackPages :: "(u32 \<times> u32) list"
  state :: regstate
  entryPoint :: u32
  importance :: importance
  procDir :: u32
  heapBrk :: u32

record kstate =
  ks_frames :: frames
  ks_mmu :: mmu
  ks_phys :: "u32 \<Rightarrow> u8"
  processes :: "process list"
  latestPid :: u32
  activeProcessPid :: u32

definition STACK_SIZE :: u32 where "STACK_SIZE = 0x10000"
definition RW :: u32 where "RW = FLAGS_PRESENT OR FLAGS_WRITABLE"

definition getNewPid :: "kstate \<Rightarrow> u32 \<times> kstate" where
  "getNewPid k = (latestPid k, k\<lparr>latestPid := latestPid k + 1\<rparr>)"

section \<open>The \<open>Mmap\<close> system call\<close>

text \<open>
  The loop: one frame for each page until memory is exhausted; the first component counts the
  pages mapped.
\<close>

fun mmap_loop :: "nat \<Rightarrow> kstate \<Rightarrow> u32 \<Rightarrow> u32 \<Rightarrow> u32 \<Rightarrow> (u32 \<times> kstate) exec" where
  "mmap_loop 0 k dir virt mapped = Inr (mapped, k)"
| "mmap_loop (Suc n) k dir virt mapped =
     bindE (allocFrame (ks_frames k)) (\<lambda>(frame, fa).
     if frame = 0 then Inr (mapped, k\<lparr>ks_frames := fa\<rparr>) else
     bindE (mapPageIn (ks_mmu k) dir frame virt RW) (\<lambda>m.
     mmap_loop n (k\<lparr>ks_frames := fa, ks_mmu := m\<rparr>) dir (virt + 4096) (mapped + 1)))"

text \<open>The process with the active pid, the last one in the list if there are several.\<close>

fun find_proc :: "process list \<Rightarrow> u32 \<Rightarrow> nat \<Rightarrow> nat option \<Rightarrow> nat option" where
  "find_proc [] p i acc = acc"
| "find_proc (v # vs) p i acc = find_proc vs p (Suc i) (if pid v = p then Some i else acc)"

text \<open>The result is the value of \<^verbatim>\<open>eax\<close>.\<close>

definition sys_mmap :: "kstate \<Rightarrow> u32 \<Rightarrow> (u32 \<times> kstate) exec" where
  "sys_mmap k edi = (case find_proc (processes k) (activeProcessPid k) 0 None of
      None \<Rightarrow> Inr (0, k)
    | Some i \<Rightarrow>
        let proc = processes k ! i;
            size = (edi + 4095) AND NOT 4095;
            virtBase = heapBrk proc;
            pageCount = size div 4096
        in bindE (mmap_loop (unat pageCount) k (procDir proc) virtBase 0) (\<lambda>(mapped, k').
           if mapped < pageCount then Inr (0, k')
           else Inr (virtBase, k'\<lparr>processes := (processes k')[i := proc\<lparr>heapBrk := heapBrk proc + size\<rparr>]\<rparr>)))"

section \<open>Running a process\<close>

text \<open>The stack loop of \<^verbatim>\<open>Process::run\<close>; it does not look whether a frame was there.\<close>

fun stack_loop :: "nat \<Rightarrow> u32 \<Rightarrow> kstate \<Rightarrow> process \<Rightarrow> (process \<times> kstate) exec" where
  "stack_loop 0 i k p = Inr (p, k)"
| "stack_loop (Suc n) i k p =
     bindE (allocFrame (ks_frames k)) (\<lambda>(frame, fa).
     let virt = STACK_BEGIN - i * 4096; p' = p\<lparr>stackPages := stackPages p @ [(frame, virt)]\<rparr> in
     bindE (mapPageIn (ks_mmu k) (procDir p) frame virt RW) (\<lambda>m.
     stack_loop n (i + 1) (k\<lparr>ks_frames := fa, ks_mmu := m\<rparr>) p'))"

text \<open>
  \<^verbatim>\<open>run\<close> does not return: the result is the process, the state and the arguments of
  \<^verbatim>\<open>finalRun\<close>.
\<close>

definition process_run :: "kstate \<Rightarrow> process \<Rightarrow> importance \<Rightarrow> (process \<times> kstate \<times> u32 \<times> u32 \<times> u32) exec" where
  "process_run k p imp =
     (let p1 = p\<lparr>importance := imp\<rparr>; stackPagesf = (STACK_SIZE + 4095) div 4096 in
      bindE (mm_put (ks_mmu k) (procDir p) (dirIndex STACK_BEGIN) 0) (\<lambda>m.
      bindE (stack_loop (unat stackPagesf) 0 (k\<lparr>ks_mmu := m\<rparr>) p1) (\<lambda>(p2, k2).
      let k3 = k2\<lparr>activeProcessPid := pid p2, ks_mmu := (ks_mmu k2)\<lparr>activeDirectory := procDir p2\<rparr>\<rparr>
      in Inr (p2, k3, entryPoint p2, STACK_BEGIN, procDir p2))))"

definition process_exit :: "process \<Rightarrow> u8 \<Rightarrow> unit exec" where
  "process_exit p code =
     (if importance p = REQ then Inl (Panic (''Required process exited: '' @ List.map (\<lambda>b. char_of (unat b)) (pname p)))
      else Inr ())"

text \<open>\<^verbatim>\<open>ctxtSwitch\<close>: the state at the jump into \<^verbatim>\<open>resumeProcess\<close>, with its register file.\<close>

definition ctxtSwitch :: "kstate \<Rightarrow> process \<Rightarrow> (kstate \<times> regstate) exec" where
  "ctxtSwitch k p =
     (let k1 = k\<lparr>activeProcessPid := pid p\<rparr> in
      if priv p = Driver then Inl (Panic ''Context switching to a process marked 'Driver' is forbidden.'')
      else if r_eip (state p) = 0 \<or> r_esp (state p) = 0 then Inl (Panic ''ctxtSwitch got a zeroed RegisterState'')
      else Inr (k1\<lparr>ks_mmu := (ks_mmu k1)\<lparr>activeDirectory := procDir p\<rparr>\<rparr>, state p))"

section \<open>The ELF loader\<close>

definition ELF_MAGIC :: "u8 list" where "ELF_MAGIC = [0x7F, 0x45, 0x4C, 0x46]"

definition elf_bitness :: "u8 list \<Rightarrow> u8 exec" where "elf_bitness e = rd8 e 4"
definition elf_endianness :: "u8 list \<Rightarrow> u8 exec" where "elf_endianness e = rd8 e 5"
definition elf_osAbi :: "u8 list \<Rightarrow> u8 exec" where "elf_osAbi e = rd8 e 7"
definition elf_abiVersion :: "u8 list \<Rightarrow> u8 exec" where "elf_abiVersion e = rd8 e 8"
definition elf_type :: "u8 list \<Rightarrow> u16 exec" where "elf_type e = rd16 e 16"
definition elf_instructionSet :: "u8 list \<Rightarrow> u16 exec" where "elf_instructionSet e = rd16 e 18"
definition elf_version :: "u8 list \<Rightarrow> u32 exec" where "elf_version e = rd32 e 20"
definition elf_programEntry :: "u8 list \<Rightarrow> u32 exec" where "elf_programEntry e = rd32 e 24"
definition elf_phoff :: "u8 list \<Rightarrow> u32 exec" where "elf_phoff e = rd32 e 28"
definition elf_phentsize :: "u8 list \<Rightarrow> u16 exec" where "elf_phentsize e = rd16 e 42"
definition elf_phnum :: "u8 list \<Rightarrow> u16 exec" where "elf_phnum e = rd16 e 44"

definition elf_isValid :: "u8 list \<Rightarrow> bool exec" where
  "elf_isValid e =
     bindE (if 4 \<le> length e then Inr (take 4 e = ELF_MAGIC) else Inl OutOfBounds) (\<lambda>magic.
     if \<not> magic then Inr False else
     bindE (elf_bitness e) (\<lambda>b. if b \<noteq> 1 then Inr False else
     bindE (elf_endianness e) (\<lambda>en. if en \<noteq> 1 then Inr False else
     bindE (elf_version e) (\<lambda>v. if v \<noteq> 1 then Inr False else
     bindE (elf_osAbi e) (\<lambda>abi. if abi \<noteq> 0 then Inr False else
     bindE (elf_abiVersion e) (\<lambda>av. if av \<noteq> 0 then Inr False else
     bindE (elf_type e) (\<lambda>t. if t \<noteq> 2 then Inr False else
     bindE (elf_instructionSet e) (\<lambda>is. if is \<noteq> 3 then Inr False else
     bindE (elf_version e) (\<lambda>v. Inr (v = 1))))))))))"

record progHeader =
  ph_segmentKind :: u32
  ph_contentsOffset :: u32
  ph_virtualAddrStart :: u32
  ph_segmentFilesize :: u32
  ph_memSize :: u32

definition rd_progHeader :: "u8 list \<Rightarrow> u32 \<Rightarrow> progHeader exec" where
  "rd_progHeader e p =
     bindE (rd32 e p) (\<lambda>kind. bindE (rd32 e (p + 4)) (\<lambda>off. bindE (rd32 e (p + 8)) (\<lambda>va.
     bindE (rd32 e (p + 16)) (\<lambda>fs. bindE (rd32 e (p + 20)) (\<lambda>ms.
     Inr \<lparr>ph_segmentKind = kind, ph_contentsOffset = off, ph_virtualAddrStart = va,
          ph_segmentFilesize = fs, ph_memSize = ms\<rparr>)))))"

text \<open>The pages of a segment: a fresh frame for each, mapped and recorded.\<close>

fun load_pages :: "nat \<Rightarrow> u32 \<Rightarrow> kstate \<Rightarrow> process \<Rightarrow> (process \<times> kstate) exec" where
  "load_pages 0 virt k p = Inr (p, k)"
| "load_pages (Suc n) virt k p =
     bindE (allocFrame (ks_frames k)) (\<lambda>(frame, fa).
     if frame = 0 then Inl (Panic ''Out of memory'') else
     bindE (mapPageIn (ks_mmu k) (procDir p) frame virt RW) (\<lambda>m.
     load_pages n (virt + 4096) (k\<lparr>ks_frames := fa, ks_mmu := m\<rparr>)
       (p\<lparr>pages := pages p @ [(frame, virt)]\<rparr>)))"

text \<open>Stores through the page tables of a directory; an address that is not mapped faults.\<close>

fun vwrite :: "mmu \<Rightarrow> u32 \<Rightarrow> (u32 \<Rightarrow> u8) \<Rightarrow> u32 \<Rightarrow> u8 list \<Rightarrow> (u32 \<Rightarrow> u8) exec" where
  "vwrite m dir ph v [] = Inr ph"
| "vwrite m dir ph v (b # bs) =
     (case translate m dir v of None \<Rightarrow> Inl OutOfBounds
      | Some a \<Rightarrow> vwrite m dir (ph(a := b)) (v + 1) bs)"

definition vread :: "mmu \<Rightarrow> u32 \<Rightarrow> (u32 \<Rightarrow> u8) \<Rightarrow> u32 \<Rightarrow> u8 option" where
  "vread m dir ph v = map_option ph (translate m dir v)"

definition load_segment :: "u8 list \<Rightarrow> progHeader \<Rightarrow> kstate \<Rightarrow> process \<Rightarrow> (process \<times> kstate) exec" where
  "load_segment e ph k p =
     (let va = ph_virtualAddrStart ph;
          vaddrBase = va AND NOT 0xFFF;
          vaddrEnd = (va + ph_memSize ph + 4095) AND NOT 0xFFF;
          pageCount = (vaddrEnd - vaddrBase) div 4096;
          off = unat (ph_contentsOffset ph); fsz = unat (ph_segmentFilesize ph);
          zeros = nat (sint (ph_memSize ph - ph_segmentFilesize ph))
      in bindE (load_pages (unat pageCount) vaddrBase k p) (\<lambda>(p1, k1).
         if off + fsz \<le> length e then
           bindE (vwrite (ks_mmu k1) (procDir p1) (ks_phys k1) va (take fsz (drop off e))) (\<lambda>ph1.
           bindE (vwrite (ks_mmu k1) (procDir p1) ph1 (va + ph_segmentFilesize ph) (replicate zeros 0)) (\<lambda>ph2.
           Inr (p1, k1\<lparr>ks_phys := ph2\<rparr>)))
         else Inl OutOfBounds))"

text \<open>The loop over the program headers; only the kind \<^verbatim>\<open>LOAD\<close> is looked at.\<close>

fun load_headers :: "nat \<Rightarrow> u8 list \<Rightarrow> u32 \<Rightarrow> u32 \<Rightarrow> kstate \<Rightarrow> process \<Rightarrow> (process \<times> kstate) exec" where
  "load_headers 0 e pos entsize k p = Inr (p, k)"
| "load_headers (Suc n) e pos entsize k p =
     bindE (rd_progHeader e pos) (\<lambda>ph.
     bindE (if ph_segmentKind ph = 1 then load_segment e ph k p else Inr (p, k)) (\<lambda>(p1, k1).
     load_headers n e (pos + entsize) entsize k1 p1))"

definition initial_state :: "u32 \<Rightarrow> regstate" where
  "initial_state pe = \<lparr>r_eax = 0, r_ebx = 0, r_ecx = 0, r_edx = 0, r_esi = 0, r_edi = 0, r_ebp = 0,
     r_esp = STACK_BEGIN, r_eip = pe, r_eflags = 0x202, r_cs = 0x08, r_ss = 0x10, r_ds = 0x10,
     r_es = 0x10, r_fs = 0x10, r_gs = 0x10\<rparr>"

definition elf_load :: "u8 list \<Rightarrow> u8 list \<Rightarrow> kstate \<Rightarrow> u8 list \<Rightarrow> priveledge \<Rightarrow> (process \<times> kstate) exec" where
  "elf_load fp e k name pl =
     (let (newPid, k0) = getNewPid k in
      bindE (createAddressSpace (ks_mmu k0)) (\<lambda>(dir, m).
      let k1 = k0\<lparr>ks_mmu := m\<rparr>;
          p0 = \<lparr>pid = newPid, pname = name, srcFp = fp, priv = pl, pages = [], stackPages = [],
                state = initial_state 0, entryPoint = 0, importance = REQ, procDir = dir,
                heapBrk = 0x50000000\<rparr>
      in
      bindE (elf_phoff e) (\<lambda>phoff. bindE (elf_phnum e) (\<lambda>phnum. bindE (elf_phentsize e) (\<lambda>phent.
      bindE (load_headers (unat phnum) e phoff (ucast phent) k1 p0) (\<lambda>(p1, k2).
      bindE (elf_programEntry e) (\<lambda>pe.
      let p2 = p1\<lparr>state := initial_state pe, entryPoint := pe\<rparr>
      in Inr (p2, k2\<lparr>processes := processes k2 @ [p2]\<rparr>))))))))"

section \<open>Pages mapped one behind the other\<close>

text \<open>
  The translation once the frames \<open>ps\<close> are mapped from \<open>virt\<close> on, over the translation \<open>old\<close>.
\<close>

definition seg_translate :: "u32 list \<Rightarrow> u32 \<Rightarrow> (u32 \<Rightarrow> u32 option) \<Rightarrow> u32 \<Rightarrow> u32 option" where
  "seg_translate ps virt old w =
     (let i = (unat w - unat virt) div 4096 in
      if unat virt \<le> unat w \<and> i < length ps then Some ((ps ! i) OR (w AND 0xFFF)) else old w)"

lemma seg_translate_Nil [simp]: "seg_translate [] virt old = old"
  by (rule ext) (simp add: seg_translate_def)

lemma same_page_from:
  assumes "unat virt mod 4096 = 0"
  shows "same_page virt w \<longleftrightarrow> unat virt \<le> unat w \<and> (unat w - unat virt) div 4096 = 0"
proof -
  have v: "unat virt = unat virt div 4096 * 4096"
    using assms by auto
  have "unat virt div 4096 = unat w div 4096 \<longleftrightarrow> unat virt \<le> unat w \<and> unat w - unat virt < 4096"
  proof -
    have "unat w = unat w div 4096 * 4096 + unat w mod 4096" "unat w mod 4096 < 4096"
      by simp_all
    then show ?thesis
      using v by linarith
  qed
  then show ?thesis
    by (simp add: same_page_div div_eq_0_iff)
qed

lemma seg_translate_Cons:
  assumes "unat virt mod 4096 = 0" and "unat virt + 4096 < 2 ^ 32"
  shows "seg_translate (p # ps) virt old w =
     seg_translate ps (virt + 4096) (\<lambda>w. if same_page virt w then Some (p OR (w AND 0xFFF)) else old w) w"
proof -
  have u: "unat (virt + 4096) = unat virt + 4096"
    using assms(2) by (simp add: unat_word_ariths)
  show ?thesis
  proof (cases "same_page virt w")
    case True
    then have "unat virt \<le> unat w" "(unat w - unat virt) div 4096 = 0"
      using same_page_from [OF assms(1)] by auto
    moreover have "\<not> unat (virt + 4096) \<le> unat w"
      using calculation u by (simp add: div_eq_0_iff)
    ultimately show ?thesis
      using True by (simp add: seg_translate_def)
  next
    case False
    show ?thesis
    proof (cases "unat virt \<le> unat w")
      case True
      then have "(unat w - unat virt) div 4096 \<noteq> 0"
        using False same_page_from [OF assms(1)] by auto
      then have ge: "4096 \<le> unat w - unat virt"
        by (simp add: div_eq_0_iff)
      then have "(unat w - unat virt) div 4096 = Suc ((unat w - unat (virt + 4096)) div 4096)"
        using u le_div_geq [of 4096 "unat w - unat virt"] by simp
      moreover have "unat virt + 4096 \<le> unat w"
        using ge by linarith
      ultimately show ?thesis
        using True False u by (simp add: seg_translate_def)
    qed (use False u in \<open>simp add: seg_translate_def\<close>)
  qed
qed

lemma RW_mask: "RW AND PAGE_MASK = 0"
  by (simp add: RW_def FLAGS_PRESENT_def FLAGS_WRITABLE_def PAGE_MASK_def)

lemma next_page_aligned:
  "unat (virt :: u32) mod 4096 = 0 \<Longrightarrow> unat virt + 4096 < 2 ^ 32 \<Longrightarrow> unat (virt + 4096) mod 4096 = 0"
  by (simp add: unat_word_ariths)

text \<open>One round of such a loop, when it does not run out of page tables.\<close>

lemma map_fresh:
  assumes "dir_wf m dir" and "frame AND 0xFFF = 0"
  obtains "mapPageIn m dir frame virt RW = Inl (Panic ''No more page tables: Should fix this'')"
  | m' where "mapPageIn m dir frame virt RW = Inr m'" and "dir_wf m' dir" and "same_layout m m'"
      and "translate m' dir = (\<lambda>w. if same_page virt w then Some (frame OR (w AND 0xFFF)) else translate m dir w)"
proof (cases "has_table m dir virt \<or> nextPageTable m < 16")
  case True
  from mapPageIn_spec [OF assms(1) RW_mask this, of frame] obtain m' where
    m': "mapPageIn m dir frame virt RW = Inr m'" "dir_wf m' dir" "same_layout m m'"
    and tr: "\<forall>w. translate m' dir w =
        (if same_page virt w then Some ((frame AND PAGE_MASK) OR (w AND 0xFFF)) else translate m dir w)"
    by blast
  have "translate m' dir = (\<lambda>w. if same_page virt w then Some (frame OR (w AND 0xFFF)) else translate m dir w)"
    using tr page_aligned [OF assms(2)] by (intro ext) simp
  with m' show thesis
    by (rule that(2))
next
  case False
  then show thesis
    using that(1) mapPageIn_panics [OF assms(1)] by blast
qed

definition NO_TABLES :: fault where "NO_TABLES = Panic ''No more page tables: Should fix this''"

lemma mmap_loop_spec:
  assumes "dir_wf (ks_mmu k) dir" and "frames_ready (ks_frames k)" and "unat virt mod 4096 = 0"
    and "unat virt + 4096 * n < 2 ^ 32"
  shows "mmap_loop n k dir virt mapped = Inl NO_TABLES \<or>
    (\<exists>ps k'. mmap_loop n k dir virt mapped = Inr (mapped + word_of_nat (length ps), k') \<and> length ps \<le> n \<and>
       alloc_steps allocFrame (ks_frames k) ps (ks_frames k') \<and>
       (length ps < n \<longrightarrow> allocFrame (ks_frames k') = Inr (0, ks_frames k')) \<and>
       dir_wf (ks_mmu k') dir \<and> k' = k\<lparr>ks_frames := ks_frames k', ks_mmu := ks_mmu k'\<rparr> \<and>
       translate (ks_mmu k') dir = seg_translate ps virt (translate (ks_mmu k) dir))"
  using assms
proof (induction n k dir virt mapped rule: mmap_loop.induct)
  case (1 k dir virt mapped)
  then show ?case
    by (intro disjI2 exI [of _ "[]"] exI [of _ k]) (simp add: alloc_none)
next
  case (2 n k dir virt mapped)
  obtain p fa where a: "allocFrame (ks_frames k) = Inr (p, fa)"
    using pf.alloc_total [OF "2.prems"(2)] by blast
  show ?case
  proof (cases "p = 0")
    case True
    then have "fa = ks_frames k"
      using pf.alloc_none_law "2.prems"(2) a by blast
    then show ?thesis
      using a True "2.prems"(1) by (intro disjI2 exI [of _ "[]"] exI [of _ k]) (simp add: alloc_none)
  next
    case False
    note law = pf.alloc_some_law [OF "2.prems"(2) a False]
    from "2.prems"(1) law have "dir_wf (ks_mmu k) dir" "p AND 0xFFF = 0"
      by auto
    then show ?thesis
    proof (cases rule: map_fresh [where virt = virt])
      case 1
      then show ?thesis
        using a False by (simp add: NO_TABLES_def)
    next
      case (2 m)
      let ?k = "k\<lparr>ks_frames := fa, ks_mmu := m\<rparr>"
      have v: "unat virt + 4096 < 2 ^ 32"
        using "2.prems"(4) by simp
      have u: "unat (virt + 4096) = unat virt + 4096"
        using v by (simp add: unat_word_ariths)
      have step: "mmap_loop (Suc n) k dir virt mapped = mmap_loop n ?k dir (virt + 4096) (mapped + 1)"
        using a False 2(1) by simp
      have prem: "dir_wf (ks_mmu ?k) dir" "frames_ready (ks_frames ?k)" "unat (virt + 4096) mod 4096 = 0"
        "unat (virt + 4096) + 4096 * n < 2 ^ 32"
        using 2(2) law next_page_aligned [OF "2.prems"(3) v] "2.prems"(4) u by simp_all
      have "mmap_loop n ?k dir (virt + 4096) (mapped + 1) = Inl NO_TABLES \<or>
        (\<exists>ps k'. mmap_loop n ?k dir (virt + 4096) (mapped + 1) = Inr (mapped + 1 + word_of_nat (length ps), k') \<and>
           length ps \<le> n \<and> alloc_steps allocFrame (ks_frames ?k) ps (ks_frames k') \<and>
           (length ps < n \<longrightarrow> allocFrame (ks_frames k') = Inr (0, ks_frames k')) \<and>
           dir_wf (ks_mmu k') dir \<and> k' = ?k\<lparr>ks_frames := ks_frames k', ks_mmu := ks_mmu k'\<rparr> \<and>
           translate (ks_mmu k') dir = seg_translate ps (virt + 4096) (translate (ks_mmu ?k) dir))"
        using "2.IH" [OF a refl False 2(1)] prem by simp
      then show ?thesis
      proof (elim disjE exE conjE)
        assume "mmap_loop n ?k dir (virt + 4096) (mapped + 1) = Inl NO_TABLES"
        then show ?thesis
          using step by simp
      next
        fix ps k' assume r: "mmap_loop n ?k dir (virt + 4096) (mapped + 1) = Inr (mapped + 1 + word_of_nat (length ps), k')"
          "length ps \<le> n" "alloc_steps allocFrame (ks_frames ?k) ps (ks_frames k')"
          "length ps < n \<longrightarrow> allocFrame (ks_frames k') = Inr (0, ks_frames k')"
          "dir_wf (ks_mmu k') dir" and eq: "k' = ?k\<lparr>ks_frames := ks_frames k', ks_mmu := ks_mmu k'\<rparr>"
          and tr: "translate (ks_mmu k') dir = seg_translate ps (virt + 4096) (translate (ks_mmu ?k) dir)"
        have "alloc_steps allocFrame (ks_frames k) (p # ps) (ks_frames k')"
          using alloc_one [of allocFrame, OF a False] r(3) by simp
        moreover have "translate (ks_mmu k') dir = seg_translate (p # ps) virt (translate (ks_mmu k) dir)"
          using tr 2(4) seg_translate_Cons [OF "2.prems"(3) v] by (intro ext) simp
        moreover have "k' = k\<lparr>ks_frames := ks_frames k', ks_mmu := ks_mmu k'\<rparr>"
          by (subst eq) simp
        ultimately show ?thesis
          using r step by (intro disjI2 exI [of _ "p # ps"] exI [of _ k']) (simp add: add_ac)
      qed
    qed
  qed
qed

section \<open>\<open>Mmap\<close>\<close>

lemma find_proc_spec:
  "find_proc ps p i acc = Some j \<Longrightarrow>
     acc = Some j \<and> (\<forall>v \<in> set ps. pid v \<noteq> p) \<or> (i \<le> j \<and> j < i + length ps \<and> pid (ps ! (j - i)) = p)"
proof (induction ps p i acc rule: find_proc.induct)
  case (2 v vs p i acc)
  then consider "(if pid v = p then Some i else acc) = Some j" "\<forall>v \<in> set vs. pid v \<noteq> p"
    | "Suc i \<le> j" "j < Suc i + length vs" "pid (vs ! (j - Suc i)) = p"
    by auto
  then show ?case
  proof cases
    case 1
    then show ?thesis
      by (cases "pid v = p") auto
  next
    case 2
    then have "j - i = Suc (j - Suc i)"
      by simp
    with 2 show ?thesis
      by simp
  qed
qed simp

lemma NOT_4095: "x AND NOT 4095 = x AND PAGE_MASK"
proof (rule bit_word_eqI)
  fix n assume "n < LENGTH(32)"
  then show "bit (x AND NOT 4095) n = bit (x AND PAGE_MASK) n"
    by (simp only: bit_and_iff bit_not_iff bit_masks bit_PAGE_MASK possible_bit_word) auto
qed

text \<open>The size of a request, rounded up to whole pages.\<close>

lemma round_up:
  assumes "unat edi + 4095 < 2 ^ 32"
  shows "unat ((edi + 4095) AND PAGE_MASK) = (unat edi + 4095) div 4096 * 4096"
    and "unat (((edi + 4095) AND PAGE_MASK) div 4096) = (unat edi + 4095) div 4096"
proof -
  have "unat (edi + 4095) = unat edi + 4095"
    using assms by (simp add: unat_word_ariths)
  then show "unat ((edi + 4095) AND PAGE_MASK) = (unat edi + 4095) div 4096 * 4096"
    by (simp add: PAGE_MASK_div)
  then show "unat (((edi + 4095) AND PAGE_MASK) div 4096) = (unat edi + 4095) div 4096"
    by (simp add: unat_div)
qed

definition active_proc :: "kstate \<Rightarrow> nat \<Rightarrow> process \<Rightarrow> bool" where
  "active_proc k i p \<longleftrightarrow> find_proc (processes k) (activeProcessPid k) 0 None = Some i \<and> processes k ! i = p"

lemma sys_mmap_spec:
  assumes "active_proc k i p" and "dir_wf (ks_mmu k) (procDir p)" and "frames_ready (ks_frames k)"
    and "unat (heapBrk p) mod 4096 = 0" and "unat edi + 4095 < 2 ^ 32"
    and "unat (heapBrk p) + (unat edi + 4095) div 4096 * 4096 < 2 ^ 32"
  defines "n \<equiv> (unat edi + 4095) div 4096"
  shows "sys_mmap k edi = Inl NO_TABLES \<or>
    (\<exists>ps k' r. sys_mmap k edi = Inr (r, k') \<and> alloc_steps allocFrame (ks_frames k) ps (ks_frames k') \<and>
       translate (ks_mmu k') (procDir p) = seg_translate ps (heapBrk p) (translate (ks_mmu k) (procDir p)) \<and>
       (if length ps = n then r = heapBrk p \<and>
          k' = k\<lparr>ks_frames := ks_frames k', ks_mmu := ks_mmu k',
                 processes := (processes k)[i := p\<lparr>heapBrk := heapBrk p + word_of_nat (4096 * n)\<rparr>]\<rparr>
        else length ps < n \<and> r = 0 \<and> allocFrame (ks_frames k') = Inr (0, ks_frames k') \<and>
          k' = k\<lparr>ks_frames := ks_frames k', ks_mmu := ks_mmu k'\<rparr>))"
proof -
  let ?size = "(edi + 4095) AND NOT 4095"
  have n: "unat (?size div 4096) = n" and us: "unat ?size = 4096 * n"
    using round_up [OF assms(5)] unfolding NOT_4095 n_def by simp_all
  have w: "word_of_nat (unat x) = x" for x :: u32
    by simp
  have size: "?size = word_of_nat (4096 * n)"
    using us w by metis
  have n32: "n < 2 ^ 32"
    using assms(6) by (simp add: n_def)
  have pc: "?size div 4096 = word_of_nat n"
    using n w by metis
  have fit: "unat (heapBrk p) + 4096 * n < 2 ^ 32"
    using assms(6) by (simp add: n_def mult.commute)
  have p: "find_proc (processes k) (activeProcessPid k) 0 None = Some i" "processes k ! i = p"
    using assms(1) by (simp_all add: active_proc_def)
  have sys: "sys_mmap k edi = bindE (mmap_loop n k (procDir p) (heapBrk p) 0) (\<lambda>(mapped, k').
      if mapped < word_of_nat n then Inr (0, k')
      else Inr (heapBrk p, k'\<lparr>processes := (processes k')[i := p\<lparr>heapBrk := heapBrk p + word_of_nat (4096 * n)\<rparr>]\<rparr>))"
    unfolding sys_mmap_def Let_def p option.case pc unfolding size unat_of_nat32 [OF n32] ..
  from mmap_loop_spec [OF assms(2,3,4) fit, of 0] show ?thesis
  proof (elim disjE exE conjE)
    assume "mmap_loop n k (procDir p) (heapBrk p) 0 = Inl NO_TABLES"
    then show ?thesis
      using sys by simp
  next
    fix ps k' assume r: "mmap_loop n k (procDir p) (heapBrk p) 0 = Inr (0 + word_of_nat (length ps), k')"
      "length ps \<le> n" "alloc_steps allocFrame (ks_frames k) ps (ks_frames k')"
      "length ps < n \<longrightarrow> allocFrame (ks_frames k') = Inr (0, ks_frames k')"
      and eq: "k' = k\<lparr>ks_frames := ks_frames k', ks_mmu := ks_mmu k'\<rparr>"
      and tr: "translate (ks_mmu k') (procDir p) = seg_translate ps (heapBrk p) (translate (ks_mmu k) (procDir p))"
    have lt: "(word_of_nat (length ps) :: u32) < word_of_nat n \<longleftrightarrow> length ps < n"
      using r(2) n32 by (simp add: word_less_nat_alt)
    have procs: "processes k' = processes k"
      by (subst eq) simp
    show ?thesis
    proof (cases "length ps < n")
      case True
      then show ?thesis
        using sys r lt tr eq by (intro disjI2 exI [of _ ps] exI [of _ k'] exI [of _ 0]) simp
    next
      case False
      let ?k = "k'\<lparr>processes := (processes k)[i := p\<lparr>heapBrk := heapBrk p + word_of_nat (4096 * n)\<rparr>]\<rparr>"
      have "sys_mmap k edi = Inr (heapBrk p, ?k)"
        using sys r(1) lt False procs by simp
      moreover have "?k = k\<lparr>ks_frames := ks_frames ?k, ks_mmu := ks_mmu ?k,
          processes := (processes k)[i := p\<lparr>heapBrk := heapBrk p + word_of_nat (4096 * n)\<rparr>]\<rparr>"
        by (subst eq) simp
      ultimately show ?thesis
        using False r(2,3) tr by (intro disjI2 exI [of _ ps] exI [of _ ?k] exI [of _ "heapBrk p"]) simp
    qed
  qed
qed

text \<open>C19: \<^verbatim>\<open>Mmap\<close> of a size whose rounding does not wrap either returns the old break and
  gives the active process that many pages from there on: each byte translates to a byte of a
  frame of its own that was not in use and now is, every other address translates as before
  and the break moves up by the pages; or it returns 0 when frames run out (the break then
  stays), or the kernel panics for want of page tables.\<close>

theorem mmap_gives_fresh_pages:
  assumes "active_proc k i p" and "dir_wf (ks_mmu k) (procDir p)" and "frames_ready (ks_frames k)"
    and "unat (heapBrk p) mod 4096 = 0" and "unat edi + 4095 < 2 ^ 32"
    and "unat (heapBrk p) + (unat edi + 4095) div 4096 * 4096 < 2 ^ 32"
  shows "sys_mmap k edi = Inl NO_TABLES \<or>
    (\<exists>ps k' r. sys_mmap k edi = Inr (r, k') \<and> distinct ps \<and> set ps \<inter> used_frames (ks_frames k) = {} \<and>
       used_frames (ks_frames k') = used_frames (ks_frames k) \<union> set ps \<and>
       translate (ks_mmu k') (procDir p) = seg_translate ps (heapBrk p) (translate (ks_mmu k) (procDir p)) \<and>
       (if length ps = (unat edi + 4095) div 4096
        then r = heapBrk p \<and> heapBrk (processes k' ! i) = heapBrk p + word_of_nat (4096 * length ps)
        else r = 0 \<and> allocFrame (ks_frames k') = Inr (0, ks_frames k') \<and> processes k' = processes k))"
proof -
  let ?n = "(unat edi + 4095) div 4096"
  have i: "i < length (processes k)"
    using assms(1) find_proc_spec [of "processes k" "activeProcessPid k" 0 None i] by (simp add: active_proc_def)
  from sys_mmap_spec [OF assms] show ?thesis
  proof (elim disjE exE conjE)
    fix ps k' r assume r: "sys_mmap k edi = Inr (r, k')" "alloc_steps allocFrame (ks_frames k) ps (ks_frames k')"
      "translate (ks_mmu k') (procDir p) = seg_translate ps (heapBrk p) (translate (ks_mmu k) (procDir p))"
      and c: "if length ps = ?n then r = heapBrk p \<and>
          k' = k\<lparr>ks_frames := ks_frames k', ks_mmu := ks_mmu k',
                 processes := (processes k)[i := p\<lparr>heapBrk := heapBrk p + word_of_nat (4096 * ?n)\<rparr>]\<rparr>
        else length ps < ?n \<and> r = 0 \<and> allocFrame (ks_frames k') = Inr (0, ks_frames k') \<and>
          k' = k\<lparr>ks_frames := ks_frames k', ks_mmu := ks_mmu k'\<rparr>"
    have f: "distinct ps" "set ps \<inter> used_frames (ks_frames k) = {}"
      "used_frames (ks_frames k') = used_frames (ks_frames k) \<union> set ps"
      using pf.steps_fresh [OF r(2) assms(3)] by blast+
    have "if length ps = ?n
        then r = heapBrk p \<and> heapBrk (processes k' ! i) = heapBrk p + word_of_nat (4096 * length ps)
        else r = 0 \<and> allocFrame (ks_frames k') = Inr (0, ks_frames k') \<and> processes k' = processes k"
    proof (cases "length ps = ?n")
      case True
      then have eq: "k' = k\<lparr>ks_frames := ks_frames k', ks_mmu := ks_mmu k',
          processes := (processes k)[i := p\<lparr>heapBrk := heapBrk p + word_of_nat (4096 * ?n)\<rparr>]\<rparr>"
        and "r = heapBrk p"
        using c by simp_all
      moreover have "processes k' ! i = p\<lparr>heapBrk := heapBrk p + word_of_nat (4096 * ?n)\<rparr>"
        by (subst eq) (simp add: i)
      ultimately show ?thesis
        using True by simp
    next
      case False
      then have eq: "k' = k\<lparr>ks_frames := ks_frames k', ks_mmu := ks_mmu k'\<rparr>"
        using c by simp
      have "processes k' = processes k"
        by (subst eq) simp
      then show ?thesis
        using False c by simp
    qed
    then show ?thesis
      using r f by blast
  qed simp
qed

text \<open>The rounding of \<^verbatim>\<open>Mmap\<close> wraps around: a request within 4095 bytes of 4 GiB rounds to
  0 pages, and the call returns the break as if it had succeeded, without mapping anything.\<close>

theorem mmap_rounding_wraps:
  assumes "active_proc k i p" and "2 ^ 32 \<le> unat edi + 4095"
  shows "sys_mmap k edi = Inr (heapBrk p, k\<lparr>processes := (processes k)[i := p]\<rparr>)"
proof -
  have "unat (edi + 4095) = unat edi + 4095 - 2 ^ 32"
    using assms(2) unsigned_less [of edi, where 'a = nat]
    by (simp add: unat_word_ariths mod_if)
  then have "unat (edi + 4095) < 4096"
    using unsigned_less [of edi, where 'a = nat] by simp
  then have "(edi + 4095) AND NOT 4095 = 0"
    unfolding NOT_4095 by (simp add: word_unat_eq_iff PAGE_MASK_div)
  then show ?thesis
    using assms(1) by (simp add: sys_mmap_def active_proc_def Let_def)
qed

section \<open>Loading a segment\<close>

lemma load_pages_spec:
  assumes "dir_wf (ks_mmu k) (procDir p)" and "frames_ready (ks_frames k)" and "unat virt mod 4096 = 0"
    and "unat virt + 4096 * n < 2 ^ 32"
  shows "load_pages n virt k p \<in> {Inl NO_TABLES, Inl (Panic ''Out of memory'')} \<or>
    (\<exists>ps p' k'. load_pages n virt k p = Inr (p', k') \<and> length ps = n \<and>
       alloc_steps allocFrame (ks_frames k) ps (ks_frames k') \<and> dir_wf (ks_mmu k') (procDir p) \<and>
       k' = k\<lparr>ks_frames := ks_frames k', ks_mmu := ks_mmu k'\<rparr> \<and> p' = p\<lparr>pages := pages p'\<rparr> \<and>
       List.map fst (pages p') = List.map fst (pages p) @ ps \<and>
       translate (ks_mmu k') (procDir p) = seg_translate ps virt (translate (ks_mmu k) (procDir p)))"
  using assms
proof (induction n virt k p rule: load_pages.induct)
  case (1 virt k p)
  then show ?case
    by (intro disjI2 exI [of _ "[]"] exI [of _ p] exI [of _ k]) (simp add: alloc_none)
next
  case (2 n virt k p)
  obtain f fa where a: "allocFrame (ks_frames k) = Inr (f, fa)"
    using pf.alloc_total [OF "2.prems"(2)] by blast
  show ?case
  proof (cases "f = 0")
    case True
    then show ?thesis
      using a by simp
  next
    case False
    note law = pf.alloc_some_law [OF "2.prems"(2) a False]
    from "2.prems"(1) law have "dir_wf (ks_mmu k) (procDir p)" "f AND 0xFFF = 0"
      by auto
    then show ?thesis
    proof (cases rule: map_fresh [where virt = virt])
      case 1
      then show ?thesis
        using a False by (simp add: NO_TABLES_def)
    next
      case (2 m)
      let ?k = "k\<lparr>ks_frames := fa, ks_mmu := m\<rparr>" and ?p = "p\<lparr>pages := pages p @ [(f, virt)]\<rparr>"
      have v: "unat virt + 4096 < 2 ^ 32"
        using "2.prems"(4) by simp
      have u: "unat (virt + 4096) = unat virt + 4096"
        using v by (simp add: unat_word_ariths)
      have step: "load_pages (Suc n) virt k p = load_pages n (virt + 4096) ?k ?p"
        using a False 2(1) by simp
      have prem: "dir_wf (ks_mmu ?k) (procDir ?p)" "frames_ready (ks_frames ?k)"
        "unat (virt + 4096) mod 4096 = 0" "unat (virt + 4096) + 4096 * n < 2 ^ 32"
        using 2(2) law next_page_aligned [OF "2.prems"(3) v] "2.prems"(4) u by simp_all
      from "2.IH" [OF a refl False 2(1) prem] show ?thesis
      proof (elim disjE exE conjE)
        assume "load_pages n (virt + 4096) ?k ?p \<in> {Inl NO_TABLES, Inl (Panic ''Out of memory'')}"
        then show ?thesis
          using step by simp
      next
        fix ps p' k' assume r: "load_pages n (virt + 4096) ?k ?p = Inr (p', k')" "length ps = n"
          "alloc_steps allocFrame (ks_frames ?k) ps (ks_frames k')" "dir_wf (ks_mmu k') (procDir ?p)"
          "List.map fst (pages p') = List.map fst (pages ?p) @ ps"
          and eq: "k' = ?k\<lparr>ks_frames := ks_frames k', ks_mmu := ks_mmu k'\<rparr>" and eqp: "p' = ?p\<lparr>pages := pages p'\<rparr>"
          and tr: "translate (ks_mmu k') (procDir ?p) = seg_translate ps (virt + 4096) (translate (ks_mmu ?k) (procDir ?p))"
        have "alloc_steps allocFrame (ks_frames k) (f # ps) (ks_frames k')"
          using alloc_one [of allocFrame, OF a False] r(3) by simp
        moreover have "translate (ks_mmu k') (procDir p) = seg_translate (f # ps) virt (translate (ks_mmu k) (procDir p))"
          using tr 2(4) seg_translate_Cons [OF "2.prems"(3) v] by (intro ext) simp
        moreover have "k' = k\<lparr>ks_frames := ks_frames k', ks_mmu := ks_mmu k'\<rparr>"
          by (subst eq) simp
        moreover have "p' = p\<lparr>pages := pages p'\<rparr>"
          by (subst eqp) simp
        ultimately show ?thesis
          using r step
          by (intro disjI2 exI [of _ "f # ps"] exI [of _ p'] exI [of _ k']) simp
      qed
    qed
  qed
qed

lemma vwrite_spec:
  assumes "\<And>i. i < length bs \<Longrightarrow> translate m dir (v + word_of_nat i) = Some (f i)"
    and "inj_on f {..<length bs}"
  shows "\<exists>ph'. vwrite m dir ph v bs = Inr ph' \<and> (\<forall>i < length bs. ph' (f i) = bs ! i) \<and>
     (\<forall>a. a \<notin> f ` {..<length bs} \<longrightarrow> ph' a = ph a)"
  using assms
proof (induction bs arbitrary: ph v f)
  case (Cons b bs)
  have t0: "translate m dir v = Some (f 0)"
    using Cons.prems(1) [of 0] by simp
  have t: "translate m dir (v + 1 + word_of_nat i) = Some (f (Suc i))" if "i < length bs" for i
    using Cons.prems(1) [of "Suc i"] that by (simp add: add_ac)
  have inj: "inj_on (\<lambda>i. f (Suc i)) {..<length bs}"
    using Cons.prems(2) by (auto simp: inj_on_def)
  from Cons.IH [OF t inj, of "ph(f 0 := b)"] obtain ph' where ph':
    "vwrite m dir (ph(f 0 := b)) (v + 1) bs = Inr ph'" "\<forall>i < length bs. ph' (f (Suc i)) = bs ! i"
    "\<forall>a. a \<notin> (\<lambda>i. f (Suc i)) ` {..<length bs} \<longrightarrow> ph' a = (ph(f 0 := b)) a"
    by blast
  have "f 0 \<notin> (\<lambda>i. f (Suc i)) ` {..<length bs}"
    using Cons.prems(2) by (auto simp: inj_on_def)
  then have f0: "ph' (f 0) = b"
    using ph'(3) by simp
  have "ph' (f i) = (b # bs) ! i" if "i < length (b # bs)" for i
    using that f0 ph'(2) by (cases i) auto
  moreover have "ph' a = ph a" if a: "a \<notin> f ` {..<length (b # bs)}" for a
  proof -
    have "a \<noteq> f 0"
      using a by auto
    moreover have "a \<notin> (\<lambda>i. f (Suc i)) ` {..<length bs}"
    proof
      assume "a \<in> (\<lambda>i. f (Suc i)) ` {..<length bs}"
      then obtain i where "i < length bs" "a = f (Suc i)"
        by blast
      then show False
        using a by (metis Suc_less_eq imageI length_Cons lessThan_iff)
    qed
    ultimately show ?thesis
      using ph'(3) by simp
  qed
  ultimately show ?case
    using t0 ph'(1) by auto
qed simp

text \<open>Two bytes of a run of pages with distinct, aligned frames have different physical addresses.\<close>

lemma aligned_or: "p AND 0xFFF = 0 \<Longrightarrow> unat (p OR (w AND 0xFFF) :: u32) = unat p + unat w mod 4096"
proof -
  assume p: "p AND 0xFFF = 0"
  have "p AND (w AND 0xFFF) = (p AND 0xFFF) AND w"
    by (simp only: and.commute and.left_commute)
  then have "p AND (w AND 0xFFF) = 0"
    unfolding p by simp
  then have "p OR (w AND 0xFFF) = p + (w AND 0xFFF)"
    by (rule disjunctive_add_eq_or [symmetric])
  moreover have m: "w AND 0xFFF = w mod 4096"
    using take_bit_eq_mask [of 12 w] by (simp add: take_bit_eq_mod mask_eq_exp_minus_1)
  moreover have "unat p + unat w mod 4096 < 2 ^ 32"
  proof -
    have "unat p = unat p div 4096 * 4096"
      using PAGE_MASK_div [of p] page_aligned [OF p] by simp
    moreover have "unat p div 4096 < 1048576"
      using unsigned_less [of p, where 'a = nat] by (simp add: less_mult_imp_div_less)
    moreover have "unat w mod 4096 < 4096"
      by simp
    ultimately have "unat p + unat w mod 4096 < 1048576 * 4096"
      by linarith
    then show ?thesis
      by simp
  qed
  ultimately show ?thesis
    by (simp add: unat_word_ariths unat_mod)
qed

lemma aligned_or_inj:
  fixes p q v w :: u32
  assumes "p AND 0xFFF = 0" and "q AND 0xFFF = 0" and "p OR (v AND 0xFFF) = q OR (w AND 0xFFF)"
  shows "p = q \<and> unat v mod 4096 = unat w mod 4096"
proof -
  have d: "unat a mod 4096 = 0" if "a AND 0xFFF = 0" for a :: u32
    using PAGE_MASK_div [of a] page_aligned [OF that] by (metis mod_mult_self2_is_0)
  have "unat p + unat v mod 4096 = unat q + unat w mod 4096"
    using assms(3) aligned_or [OF assms(1)] aligned_or [OF assms(2)] by metis
  moreover have "(unat p + unat v mod 4096) mod 4096 = unat v mod 4096"
    "(unat q + unat w mod 4096) mod 4096 = unat w mod 4096"
    using d [OF assms(1)] d [OF assms(2)] by (simp_all add: mod_add_eq [symmetric])
  ultimately show ?thesis
    by (metis add_right_cancel word_unat_eq_iff)
qed

lemma seg_translate_inj:
  assumes "distinct ps" and "\<forall>p \<in> set ps. p AND 0xFFF = 0" and "unat virt mod 4096 = 0"
    and "unat virt \<le> unat v" and "unat v < unat virt + 4096 * length ps"
    and "unat virt \<le> unat w" and "unat w < unat virt + 4096 * length ps"
    and "seg_translate ps virt old v = seg_translate ps virt old w"
  shows "v = w"
proof -
  let ?i = "(unat v - unat virt) div 4096" and ?j = "(unat w - unat virt) div 4096"
  have ij: "?i < length ps" "?j < length ps"
    using assms(4-7) by (simp_all add: less_mult_imp_div_less mult.commute less_diff_conv2)
  have "ps ! ?i OR (v AND 0xFFF) = ps ! ?j OR (w AND 0xFFF)"
    using assms(4,6,8) ij by (simp add: seg_translate_def)
  then have e: "ps ! ?i = ps ! ?j" "unat v mod 4096 = unat w mod 4096"
    using aligned_or_inj [of "ps ! ?i" "ps ! ?j" v w] assms(2) ij nth_mem by auto
  then have "?i = ?j"
    using assms(1) ij by (simp add: nth_eq_iff_index_eq)
  moreover have "(unat v - unat virt) mod 4096 = unat v mod 4096" "(unat w - unat virt) mod 4096 = unat w mod 4096"
    using assms(3,4,6) by (metis add_0 le_add_diff_inverse mod_add_left_eq)+
  ultimately have "unat v - unat virt = unat w - unat virt"
    using e(2) by (metis div_mult_mod_eq)
  then show ?thesis
    using assms(4,6) by (simp add: word_unat_eq_iff)
qed

text \<open>The whole segment in terms of the bytes it shows to the process.\<close>

definition segment_sane :: "u8 list \<Rightarrow> progHeader \<Rightarrow> bool" where
  "segment_sane e ph \<longleftrightarrow> unat (ph_virtualAddrStart ph) + unat (ph_memSize ph) + 4095 < 2 ^ 32 \<and>
     ph_segmentFilesize ph \<le> ph_memSize ph \<and> unat (ph_memSize ph) < 2 ^ 31 \<and>
     unat (ph_contentsOffset ph) + unat (ph_segmentFilesize ph) \<le> length e"

lemma page_count:
  fixes va ms :: u32
  assumes "unat va + unat ms + 4095 < 2 ^ 32"
  defines "base \<equiv> va AND NOT 0xFFF" and "e \<equiv> (va + ms + 4095) AND NOT 0xFFF"
  shows "unat base = unat va div 4096 * 4096" and "unat base mod 4096 = 0" and "unat base \<le> unat va"
    and "unat va + unat ms \<le> unat base + 4096 * unat ((e - base) div 4096)"
    and "unat base + 4096 * unat ((e - base) div 4096) < 2 ^ 32"
proof -
  have sum: "unat (va + ms + 4095) = unat va + unat ms + 4095"
    using assms(1) by (simp add: unat_word_ariths)
  have b: "unat base = unat va div 4096 * 4096"
    unfolding base_def using NOT_4095 [of va] by (simp add: PAGE_MASK_div)
  have e: "unat e = (unat va + unat ms + 4095) div 4096 * 4096"
    unfolding e_def using NOT_4095 [of "va + ms + 4095"] sum by (simp add: PAGE_MASK_div)
  have le: "unat base \<le> unat e"
    unfolding b e by (simp add: div_le_mono)
  have "unat (e - base) = unat e - unat base"
    using le by (intro unat_sub) (simp add: word_le_nat_alt)
  also have "\<dots> = ((unat va + unat ms + 4095) div 4096 - unat va div 4096) * 4096"
    unfolding b e by (simp add: diff_mult_distrib)
  finally have c: "4096 * unat ((e - base) div 4096) = unat e - unat base"
    by (simp add: unat_div b e diff_mult_distrib2 mult.commute)
  show "unat base = unat va div 4096 * 4096" "unat base mod 4096 = 0" "unat base \<le> unat va"
    unfolding b by simp_all
  have "unat va + unat ms \<le> unat e"
    unfolding e using div_mult_mod_eq [of "unat va + unat ms + 4095" 4096]
      mod_less_divisor [of 4096 "unat va + unat ms + 4095"] by linarith
  then show "unat va + unat ms \<le> unat base + 4096 * unat ((e - base) div 4096)"
    unfolding c using le by simp
  show "unat base + 4096 * unat ((e - base) div 4096) < 2 ^ 32"
    unfolding c using le unsigned_less [of e, where 'a = nat] by simp
qed

lemma unat_add_of_nat: "unat (va :: u32) + i < 2 ^ 32 \<Longrightarrow> unat (va + word_of_nat i) = unat va + i"
  by (simp add: unat_word_ariths)

lemma load_segment_spec:
  assumes wf: "dir_wf (ks_mmu k) (procDir p)" and fr: "frames_ready (ks_frames k)" and sane: "segment_sane e ph"
  defines "va \<equiv> ph_virtualAddrStart ph" and "fsz \<equiv> unat (ph_segmentFilesize ph)"
    and "msz \<equiv> unat (ph_memSize ph)" and "off \<equiv> unat (ph_contentsOffset ph)"
  shows "load_segment e ph k p \<in> {Inl NO_TABLES, Inl (Panic ''Out of memory'')} \<or>
    (\<exists>ps p' k'. load_segment e ph k p = Inr (p', k') \<and>
       alloc_steps allocFrame (ks_frames k) ps (ks_frames k') \<and> procDir p' = procDir p \<and>
       dir_wf (ks_mmu k') (procDir p) \<and> processes k' = processes k \<and>
       (\<forall>i < msz. vread (ks_mmu k') (procDir p) (ks_phys k') (va + word_of_nat i) =
          Some (if i < fsz then e ! (off + i) else 0)) \<and>
       translate (ks_mmu k') (procDir p) = seg_translate ps (va AND NOT 0xFFF) (translate (ks_mmu k) (procDir p)))"
proof -
  let ?base = "va AND NOT 0xFFF" and ?stop = "(va + ph_memSize ph + 4095) AND NOT 0xFFF"
  let ?n = "unat ((?stop - ?base) div 4096)"
  have s: "unat va + msz + 4095 < 2 ^ 32" "fsz \<le> msz" "msz < 2 ^ 31" "off + fsz \<le> length e"
    using sane by (simp_all add: segment_sane_def va_def fsz_def msz_def off_def word_le_nat_alt)
  note pc = page_count [OF s(1) [unfolded msz_def]]
  have zeros: "nat (sint (ph_memSize ph - ph_segmentFilesize ph)) = msz - fsz"
  proof -
    have u: "unat (ph_memSize ph - ph_segmentFilesize ph) = msz - fsz"
      using s(2) by (simp add: unat_sub word_le_nat_alt fsz_def msz_def)
    then have "unat (ph_memSize ph - ph_segmentFilesize ph) < 2 ^ 31"
      using s(3) by simp
    then show ?thesis
      using u by (simp add: sint_small)
  qed
  from load_pages_spec [OF wf fr pc(2,5)] show ?thesis
  proof (elim disjE exE conjE)
    assume "load_pages ?n ?base k p \<in> {Inl NO_TABLES, Inl (Panic ''Out of memory'')}"
    then show ?thesis
      by (auto simp: load_segment_def Let_def va_def)
  next
    fix ps p' k' assume r: "load_pages ?n ?base k p = Inr (p', k')" "length ps = ?n"
      "alloc_steps allocFrame (ks_frames k) ps (ks_frames k')" "dir_wf (ks_mmu k') (procDir p)"
      and eq: "k' = k\<lparr>ks_frames := ks_frames k', ks_mmu := ks_mmu k'\<rparr>" and eqp: "p' = p\<lparr>pages := pages p'\<rparr>"
      and tr: "translate (ks_mmu k') (procDir p) = seg_translate ps ?base (translate (ks_mmu k) (procDir p))"
    have dir: "procDir p' = procDir p" and procs: "processes k' = processes k" and ph: "ks_phys k' = ks_phys k"
      by (subst eqp, simp) (subst eq, simp)+
    have fresh: "distinct ps" "\<forall>q \<in> set ps. q AND 0xFFF = 0"
      using pf.steps_fresh [OF r(3) fr] by blast+
    define f where "f i = the (translate (ks_mmu k') (procDir p) (va + word_of_nat i))" for i
    have uv: "unat (va + word_of_nat i) = unat va + i" if "i < msz" for i
      using s(1) that by (intro unat_add_of_nat) simp
    have rng: "unat ?base \<le> unat (va + word_of_nat i)" "unat (va + word_of_nat i) < unat ?base + 4096 * length ps"
      if "i < msz" for i
      using uv [OF that] pc(3,4) that r(2) by (simp_all add: msz_def)
    have tf: "translate (ks_mmu k') (procDir p) (va + word_of_nat i) = Some (f i)" if "i < msz" for i
    proof -
      have "(unat (va + word_of_nat i) - unat ?base) div 4096 < length ps"
        using rng [OF that] by (simp add: less_mult_imp_div_less mult.commute less_diff_conv2)
      then show ?thesis
        using rng [OF that] by (simp add: f_def tr seg_translate_def)
    qed
    have inj: "inj_on f {..<msz}"
    proof (rule inj_onI)
      fix i j assume ij: "i \<in> {..<msz}" "j \<in> {..<msz}" "f i = f j"
      then have lt: "i < msz" "j < msz"
        by auto
      have "seg_translate ps ?base (translate (ks_mmu k) (procDir p)) (va + word_of_nat i) =
          seg_translate ps ?base (translate (ks_mmu k) (procDir p)) (va + word_of_nat j)"
        using tf [OF lt(1)] tf [OF lt(2)] ij(3) unfolding tr by simp
      from seg_translate_inj [OF fresh pc(2) rng [OF lt(1)] rng [OF lt(2)] this]
      have "unat (va + word_of_nat i) = unat (va + word_of_nat j)"
        by simp
      then show "i = j"
        using uv [OF lt(1)] uv [OF lt(2)] by simp
    qed
    let ?bs = "take fsz (drop off e)"
    have lb: "length ?bs = fsz"
      using s(4) by simp
    have "translate (ks_mmu k') (procDir p) (va + word_of_nat i) = Some (f i)" if "i < length ?bs" for i
      using tf that lb s(2) by simp
    moreover have "inj_on f {..<length ?bs}"
      using inj lb s(2) by (auto intro: inj_on_subset)
    ultimately obtain ph1 where w1: "vwrite (ks_mmu k') (procDir p) (ks_phys k') va ?bs = Inr ph1"
      "\<forall>i < length ?bs. ph1 (f i) = ?bs ! i"
      using vwrite_spec [of ?bs "ks_mmu k'" "procDir p" va f "ks_phys k'"] by blast
    let ?zs = "replicate (msz - fsz) (0 :: u8)"
    have "translate (ks_mmu k') (procDir p) (va + ph_segmentFilesize ph + word_of_nat i) = Some (f (fsz + i))"
      if "i < length ?zs" for i
      using tf [of "fsz + i"] that by (simp add: fsz_def add.assoc)
    moreover have "inj_on (\<lambda>i. f (fsz + i)) {..<length ?zs}"
    proof (rule inj_onI)
      fix i j assume "i \<in> {..<length ?zs}" "j \<in> {..<length ?zs}" "f (fsz + i) = f (fsz + j)"
      then have "fsz + i = fsz + j"
        by (intro inj_onD [OF inj]) auto
      then show "i = j"
        by simp
    qed
    ultimately obtain ph2 where w2:
      "vwrite (ks_mmu k') (procDir p) ph1 (va + ph_segmentFilesize ph) ?zs = Inr ph2"
      "\<forall>i < length ?zs. ph2 (f (fsz + i)) = ?zs ! i"
      "\<forall>a. a \<notin> (\<lambda>i. f (fsz + i)) ` {..<length ?zs} \<longrightarrow> ph2 a = ph1 a"
      using vwrite_spec [of ?zs "ks_mmu k'" "procDir p" "va + ph_segmentFilesize ph" "\<lambda>i. f (fsz + i)" ph1] by blast
    let ?k = "k'\<lparr>ks_phys := ph2\<rparr>"
    have res: "load_segment e ph k p = Inr (p', ?k)"
      using r(1) w1(1) w2(1) zeros s(4) dir
      by (simp add: load_segment_def Let_def va_def fsz_def off_def)
    have "vread (ks_mmu ?k) (procDir p) (ks_phys ?k) (va + word_of_nat i) =
        Some (if i < fsz then e ! (off + i) else 0)" if i: "i < msz" for i
    proof (cases "i < fsz")
      case True
      have "f i \<notin> (\<lambda>i. f (fsz + i)) ` {..<length ?zs}"
      proof
        assume "f i \<in> (\<lambda>i. f (fsz + i)) ` {..<length ?zs}"
        then obtain j where j: "j < msz - fsz" "f i = f (fsz + j)"
          by auto
        then have "i = fsz + j"
          using i by (intro inj_onD [OF inj]) auto
        then show False
          using True by simp
      qed
      then show ?thesis
        using True w1(2) w2(3) tf [OF i] lb s(4) by (simp add: vread_def)
    next
      case False
      then have "i = fsz + (i - fsz)" "i - fsz < msz - fsz"
        using i by auto
      then have "ph2 (f i) = 0"
        using w2(2) by (metis length_replicate nth_replicate)
      then show ?thesis
        using False tf [OF i] by (simp add: vread_def)
    qed
    then show ?thesis
      using res r dir procs tr by (intro disjI2 exI [of _ ps] exI [of _ p'] exI [of _ ?k]) simp
  qed
qed

text \<open>C6: loading a \<^verbatim>\<open>LOAD\<close> segment (one that does not wrap around, whose file part is not larger
  than its memory part and lies in the file) makes the process see the file's bytes from its
  start and zeros behind them up to its memory size, on frames that were not in use, and
  leaves every address outside its pages alone; else the kernel panics, out of frames or of
  page tables.\<close>

theorem load_segment_shows_file:
  assumes "dir_wf (ks_mmu k) (procDir p)" and "frames_ready (ks_frames k)" and "segment_sane e ph"
  shows "load_segment e ph k p \<in> {Inl NO_TABLES, Inl (Panic ''Out of memory'')} \<or>
    (\<exists>ps p' k'. load_segment e ph k p = Inr (p', k') \<and> distinct ps \<and>
       set ps \<inter> used_frames (ks_frames k) = {} \<and> used_frames (ks_frames k') = used_frames (ks_frames k) \<union> set ps \<and>
       (\<forall>i < unat (ph_memSize ph).
          vread (ks_mmu k') (procDir p) (ks_phys k') (ph_virtualAddrStart ph + word_of_nat i) =
            Some (if i < unat (ph_segmentFilesize ph) then e ! (unat (ph_contentsOffset ph) + i) else 0)) \<and>
       translate (ks_mmu k') (procDir p) =
         seg_translate ps (ph_virtualAddrStart ph AND NOT 0xFFF) (translate (ks_mmu k) (procDir p)))"
proof -
  have fresh: "alloc_steps allocFrame (ks_frames k) ps fa \<Longrightarrow> distinct ps \<and> set ps \<inter> used_frames (ks_frames k) = {} \<and>
     used_frames fa = used_frames (ks_frames k) \<union> set ps" for ps fa
    using pf.steps_fresh assms(2) by blast
  from load_segment_spec [OF assms] show ?thesis
  proof (elim disjE exE conjE)
    fix ps p' k' assume r: "load_segment e ph k p = Inr (p', k')"
      "alloc_steps allocFrame (ks_frames k) ps (ks_frames k')"
      "\<forall>i < unat (ph_memSize ph).
          vread (ks_mmu k') (procDir p) (ks_phys k') (ph_virtualAddrStart ph + word_of_nat i) =
            Some (if i < unat (ph_segmentFilesize ph) then e ! (unat (ph_contentsOffset ph) + i) else 0)"
      "translate (ks_mmu k') (procDir p) =
         seg_translate ps (ph_virtualAddrStart ph AND NOT 0xFFF) (translate (ks_mmu k) (procDir p))"
    then show ?thesis
      using fresh [OF r(2)] by (intro disjI2 exI [of _ ps] exI [of _ p'] exI [of _ k']) simp
  qed (rule disjI1)
qed

section \<open>The stack of a process\<close>

lemma dir_wf_clear:
  assumes "dir_wf m dir"
  shows "\<exists>m'. mm_put m dir (dirIndex v) 0 = Inr m' \<and> dir_wf m' dir \<and>
     (\<forall>w. translate m' dir w = (if dirIndex w = dirIndex v then None else translate m dir w))"
proof -
  let ?i = "dirIndex v"
  obtain d where d: "mm_pages m dir = Some d" "entries_ok m dir d"
    and r: "dir \<notin> tables_free m" "pageTables m AND 0xFFF = 0"
    using assms by (auto simp: dir_wf_def)
  have l: "length d = 1024"
    using d(2) by (simp add: entries_ok_def)
  let ?d = "d[unat ?i := 0]"
  let ?m = "m\<lparr>mm_pages := (mm_pages m)(dir \<mapsto> ?d)\<rparr>"
  have put: "mm_put m dir ?i 0 = Inr ?m"
    using d l dirIndex_bound [of v] by (simp add: mm_put_def)
  have free: "tables_free ?m = tables_free m"
    by (simp add: tables_free_def)
  have same: "?d ! i = d ! i" if "i < 1024" "?d ! i AND 1 \<noteq> 0" for i
    using that l by (cases "i = unat ?i") simp_all
  have tab: "(\<exists>t. mm_pages m (d ! i AND PAGE_MASK) = Some t \<and> length t = 1024) \<and>
      d ! i AND PAGE_MASK \<noteq> dir \<and> d ! i AND PAGE_MASK \<notin> tables_free m" if "i < 1024" "d ! i AND 1 \<noteq> 0" for i
    using d(2) that unfolding entries_ok_def by blast
  have inj: "d ! i AND PAGE_MASK \<noteq> d ! j AND PAGE_MASK"
    if "i < 1024" "j < 1024" "i \<noteq> j" "d ! i AND 1 \<noteq> 0" "d ! j AND 1 \<noteq> 0" for i j
    using d(2) that unfolding entries_ok_def by blast
  have "entries_ok ?m dir ?d"
    unfolding entries_ok_def free
  proof (intro conjI allI impI)
    fix i assume i: "i < 1024" "?d ! i AND 1 \<noteq> 0"
    have e: "?d ! i = d ! i" and p: "d ! i AND 1 \<noteq> 0"
      using same [OF i] i(2) by auto
    show "?d ! i AND PAGE_MASK \<noteq> dir" and "?d ! i AND PAGE_MASK \<notin> tables_free m"
      unfolding e using tab [OF i(1) p] by blast+
    show "\<exists>t. mm_pages ?m (?d ! i AND PAGE_MASK) = Some t \<and> length t = 1024"
      unfolding e using tab [OF i(1) p] by simp
    fix j assume j: "j < 1024" "i \<noteq> j" "?d ! j AND 1 \<noteq> 0"
    have ej: "?d ! j = d ! j" and pj: "d ! j AND 1 \<noteq> 0"
      using same [OF j(1,3)] j(3) by auto
    show "?d ! i AND PAGE_MASK \<noteq> ?d ! j AND PAGE_MASK"
      unfolding e ej by (rule inj [OF i(1) j(1,2) p pj])
  qed (simp add: l)
  then have wf: "dir_wf ?m dir"
    unfolding dir_wf_def free using r by auto
  have "translate ?m dir w = None" if "dirIndex w = ?i" for w
    using that l dirIndex_bound [of v] by (simp add: translate_def mm_get_def)
  moreover have "translate ?m dir w = translate m dir w" if "dirIndex w \<noteq> ?i" for w
    using mm_put_other_entry [OF assms put that] .
  ultimately show ?thesis
    using put wf by auto
qed

lemma stack_loop_spec:
  assumes "dir_wf (ks_mmu k) (procDir p)" and "frames_ready (ks_frames k)"
    and "has_table (ks_mmu k) (procDir p) STACK_BEGIN \<or> nextPageTable (ks_mmu k) < 16"
    and "\<forall>j < n. dirIndex (STACK_BEGIN - (i + word_of_nat j) * 4096) = dirIndex STACK_BEGIN"
  shows "\<exists>p' k'. stack_loop n i k p = Inr (p', k') \<and> procDir p' = procDir p \<and> pid p' = pid p \<and>
       entryPoint p' = entryPoint p \<and>
       (\<forall>w. translate (ks_mmu k') (procDir p) w \<noteq> None \<longleftrightarrow>
          (\<exists>j < n. same_page (STACK_BEGIN - (i + word_of_nat j) * 4096) w) \<or> translate (ks_mmu k) (procDir p) w \<noteq> None)"
  using assms
proof (induction n i k p rule: stack_loop.induct)
  case (1 i k p)
  then show ?case
    by simp
next
  case (2 n i k p)
  obtain f fa where a: "allocFrame (ks_frames k) = Inr (f, fa)"
    using pf.alloc_total [OF "2.prems"(2)] by blast
  have fr: "frames_ready fa"
    using pf.alloc_none_law [OF "2.prems"(2), of fa] pf.alloc_some_law [OF "2.prems"(2) a] a "2.prems"(2)
    by (cases "f = 0") auto
  let ?v = "STACK_BEGIN - i * 4096"
  let ?p = "p\<lparr>stackPages := stackPages p @ [(f, ?v)]\<rparr>"
  have dv: "dirIndex ?v = dirIndex STACK_BEGIN"
    using "2.prems"(4) [THEN spec, of 0] by simp
  have "has_table (ks_mmu k) (procDir p) ?v \<or> nextPageTable (ks_mmu k) < 16"
    using "2.prems"(3) dv by simp
  from mapPageIn_spec [OF "2.prems"(1) RW_mask this, of f] obtain m where
    m: "mapPageIn (ks_mmu k) (procDir p) f ?v RW = Inr m" "dir_wf m (procDir p)"
    "\<forall>i. present m (procDir p) i \<longleftrightarrow> present (ks_mmu k) (procDir p) i \<or> i = dirIndex ?v"
    and tr: "\<forall>w. translate m (procDir p) w =
        (if same_page ?v w then Some ((f AND PAGE_MASK) OR (w AND 0xFFF)) else translate (ks_mmu k) (procDir p) w)"
    by blast
  let ?k = "k\<lparr>ks_frames := fa, ks_mmu := m\<rparr>"
  have step: "stack_loop (Suc n) i k p = stack_loop n (i + 1) ?k ?p"
    using a m(1) by (simp add: Let_def)
  have d: "\<forall>j < n. dirIndex (STACK_BEGIN - (i + 1 + word_of_nat j) * 4096) = dirIndex STACK_BEGIN"
  proof (intro allI impI)
    fix j assume "j < n"
    then show "dirIndex (STACK_BEGIN - (i + 1 + word_of_nat j) * 4096) = dirIndex STACK_BEGIN"
      using "2.prems"(4) [THEN spec, of "Suc j"] by (simp add: add.assoc)
  qed
  have prem: "dir_wf (ks_mmu ?k) (procDir ?p)" "frames_ready (ks_frames ?k)"
    "has_table (ks_mmu ?k) (procDir ?p) STACK_BEGIN \<or> nextPageTable (ks_mmu ?k) < 16"
    using m(2,3) fr dv by simp_all
  have dom: "translate m (procDir p) w \<noteq> None \<longleftrightarrow> same_page ?v w \<or> translate (ks_mmu k) (procDir p) w \<noteq> None" for w
    using tr by simp
  have ex: "(\<exists>j < Suc n. same_page (STACK_BEGIN - (i + word_of_nat j) * 4096) w) \<longleftrightarrow>
      same_page ?v w \<or> (\<exists>j < n. same_page (STACK_BEGIN - (i + 1 + word_of_nat j) * 4096) w)" for w
  proof -
    have "(\<exists>j < Suc n. P j) \<longleftrightarrow> P 0 \<or> (\<exists>j < n. P (Suc j))" for P
      by (auto simp: less_Suc_eq_0_disj)
    then show ?thesis
      by (simp add: add.assoc)
  qed
  from "2.IH" [OF a refl refl refl m(1) prem d] show ?case
    unfolding step ex using dom by auto
qed

lemma stack_page_number:
  assumes "j < (16 :: nat)"
  shows "unat (STACK_BEGIN - (0 + word_of_nat j) * 4096) = (0xBFFF0 - j) * 4096"
proof -
  have "unat (word_of_nat j * 4096 :: u32) = j * 4096"
    using assms by (simp add: unat_word_ariths)
  moreover from this have "word_of_nat j * 4096 \<le> STACK_BEGIN"
    using assms by (simp add: word_le_nat_alt STACK_BEGIN_def)
  ultimately show ?thesis
    by (simp add: unat_sub STACK_BEGIN_def diff_mult_distrib)
qed

lemma stack_pages_one_table:
  "\<forall>j < (16 :: nat). dirIndex (STACK_BEGIN - (0 + word_of_nat j) * 4096) = dirIndex STACK_BEGIN"
proof (intro allI impI)
  fix j :: nat assume j: "j < 16"
  have "(0xBFFF0 - j) * 4096 div 4194304 = (0xBFFF0 - j) div 1024"
    using div_mult_mult2 [of "4096 :: nat" "0xBFFF0 - j" 1024] by simp
  then have "unat (dirIndex (STACK_BEGIN - (0 + word_of_nat j) * 4096)) = unat (dirIndex STACK_BEGIN)"
    unfolding unat_dirIndex stack_page_number [OF j] using j by (simp add: STACK_BEGIN_def)
  then show "dirIndex (STACK_BEGIN - (0 + word_of_nat j) * 4096) = dirIndex STACK_BEGIN"
    by (simp add: word_unat_eq_iff)
qed

lemma stack_pages_range:
  "(\<exists>j < (16 :: nat). same_page (STACK_BEGIN - (0 + word_of_nat j) * 4096) w) \<longleftrightarrow> 0xBFFE1000 \<le> w \<and> w < 0xBFFF1000"
proof -
  have s: "same_page (STACK_BEGIN - (0 + word_of_nat j) * 4096) w \<longleftrightarrow> 0xBFFF0 - j = unat w div 4096" if "j < 16" for j
    unfolding same_page_div stack_page_number [OF that] by simp
  have "(\<exists>j < (16 :: nat). same_page (STACK_BEGIN - (0 + word_of_nat j) * 4096) w) \<longleftrightarrow>
      (\<exists>j < 16. 0xBFFF0 - j = unat w div 4096)"
    using s by blast
  also have "\<dots> \<longleftrightarrow> 0xBFFE1 \<le> unat w div 4096 \<and> unat w div 4096 \<le> 0xBFFF0"
  proof
    assume h: "0xBFFE1 \<le> unat w div 4096 \<and> unat w div 4096 \<le> 0xBFFF0"
    then show "\<exists>j < 16. 0xBFFF0 - j = unat w div 4096"
      by (intro exI [of _ "0xBFFF0 - unat w div 4096"]) auto
  qed auto
  also have "\<dots> \<longleftrightarrow> 0xBFFE1000 \<le> w \<and> w < 0xBFFF1000"
  proof -
    have "unat w = unat w div 4096 * 4096 + unat w mod 4096" "unat w mod 4096 < 4096"
      by simp_all
    then have "0xBFFE1 \<le> unat w div 4096 \<longleftrightarrow> 0xBFFE1 * 4096 \<le> unat w"
      and "unat w div 4096 \<le> 0xBFFF0 \<longleftrightarrow> unat w < 0xBFFF1 * 4096"
      by linarith+
    then show ?thesis
      by (simp add: word_le_nat_alt word_less_nat_alt)
  qed
  finally show ?thesis .
qed

text \<open>\<^verbatim>\<open>Process::run\<close> gives the process a stack of sixteen pages and leaves every other
  4 MiB alone. The pages go from 0xBFFE1000 up to the one that starts at \<^verbatim>\<open>STACK_BEGIN\<close>, which a
  descending stack never touches: the lowest page of the declared stack, from \<^verbatim>\<open>STACK_END\<close>,
  is not mapped.\<close>

theorem run_maps_stack:
  assumes "dir_wf (ks_mmu k) (procDir p)" and "frames_ready (ks_frames k)" and "nextPageTable (ks_mmu k) < 16"
  shows "\<exists>p' k'. process_run k p imp = Inr (p', k', entryPoint p, STACK_BEGIN, procDir p) \<and>
       activeProcessPid k' = pid p \<and> activeDirectory (ks_mmu k') = procDir p \<and>
       (\<forall>w. translate (ks_mmu k') (procDir p) w \<noteq> None \<longleftrightarrow>
          (0xBFFE1000 \<le> w \<and> w < 0xBFFF1000) \<or>
          (dirIndex w \<noteq> dirIndex STACK_BEGIN \<and> translate (ks_mmu k) (procDir p) w \<noteq> None)) \<and>
       translate (ks_mmu k') (procDir p) (STACK_BEGIN - STACK_SIZE) = None"
proof -
  obtain m where m: "mm_put (ks_mmu k) (procDir p) (dirIndex STACK_BEGIN) 0 = Inr m" "dir_wf m (procDir p)"
    and tr: "\<forall>w. translate m (procDir p) w =
       (if dirIndex w = dirIndex STACK_BEGIN then None else translate (ks_mmu k) (procDir p) w)"
    using dir_wf_clear [OF assms(1)] by blast
  let ?k = "k\<lparr>ks_mmu := m\<rparr>" and ?p = "p\<lparr>importance := imp\<rparr>"
  have n: "unat ((STACK_SIZE + 4095) div 4096 :: u32) = 16"
    by (simp add: STACK_SIZE_def)
  have prem: "dir_wf (ks_mmu ?k) (procDir ?p)" "frames_ready (ks_frames ?k)"
    using m(2) assms(2) by simp_all
  have sent: "dirIndex (STACK_BEGIN - STACK_SIZE) = dirIndex STACK_BEGIN"
    "\<not> 0xBFFE1000 \<le> STACK_BEGIN - STACK_SIZE"
    by (simp_all add: STACK_BEGIN_def STACK_SIZE_def dirIndex_def)
  have get: "mm_get (m'\<lparr>activeDirectory := x\<rparr>) = mm_get m'" for m' x
    by (intro ext) (simp add: mm_get_def)
  have act: "translate (m'\<lparr>activeDirectory := x\<rparr>) = translate m'" for m' x
    unfolding translate_def get ..
  have "nextPageTable m = nextPageTable (ks_mmu k)"
    using m(1) by (auto simp: mm_put_def split: option.splits if_splits)
  then have "has_table (ks_mmu ?k) (procDir ?p) STACK_BEGIN \<or> nextPageTable (ks_mmu ?k) < 16"
    using assms(3) by simp
  from stack_loop_spec [OF prem this stack_pages_one_table] obtain p' k' where
    r: "stack_loop 16 0 ?k ?p = Inr (p', k')" "procDir p' = procDir ?p" "pid p' = pid ?p"
      "entryPoint p' = entryPoint ?p"
    and dom: "\<forall>w. translate (ks_mmu k') (procDir ?p) w \<noteq> None \<longleftrightarrow>
        (\<exists>j < (16 :: nat). same_page (STACK_BEGIN - (0 + word_of_nat j) * 4096) w) \<or> translate (ks_mmu ?k) (procDir ?p) w \<noteq> None"
    by blast
  let ?k' = "k'\<lparr>activeProcessPid := pid p, ks_mmu := (ks_mmu k')\<lparr>activeDirectory := procDir p\<rparr>\<rparr>"
  have "process_run k p imp = Inr (p', ?k', entryPoint p, STACK_BEGIN, procDir p)"
    using m(1) n r by (simp add: process_run_def Let_def)
  moreover have d: "translate (ks_mmu ?k') (procDir p) w \<noteq> None \<longleftrightarrow> (0xBFFE1000 \<le> w \<and> w < 0xBFFF1000) \<or>
      (dirIndex w \<noteq> dirIndex STACK_BEGIN \<and> translate (ks_mmu k) (procDir p) w \<noteq> None)" for w
    using dom tr unfolding stack_pages_range by (simp add: act)
  moreover have "translate (ks_mmu ?k') (procDir p) (STACK_BEGIN - STACK_SIZE) = None"
    using d [of "STACK_BEGIN - STACK_SIZE"] sent by blast
  ultimately show ?thesis
    by (intro exI [of _ p'] exI [of _ ?k']) simp
qed

text \<open>A context switch never resumes a driver process or a process with a zero instruction or
  stack pointer: it panics, and otherwise hands the saved registers to the processor with the
  process' directory and pid active.\<close>

theorem ctxtSwitch_checks:
  "(\<exists>k'. ctxtSwitch k p = Inr (k', state p) \<and> activeProcessPid k' = pid p \<and>
      activeDirectory (ks_mmu k') = procDir p \<and> processes k' = processes k \<and> ks_frames k' = ks_frames k) \<longleftrightarrow>
   priv p \<noteq> Driver \<and> r_eip (state p) \<noteq> 0 \<and> r_esp (state p) \<noteq> 0"
  by (auto simp: ctxtSwitch_def Let_def)

section \<open>The whole load\<close>

lemma load_pages_keeps:
  "load_pages n virt k p = Inr (p', k') \<Longrightarrow> processes k' = processes k \<and> latestPid k' = latestPid k \<and>
     activeProcessPid k' = activeProcessPid k \<and> p' = p\<lparr>pages := pages p'\<rparr> \<and> same_layout (ks_mmu k) (ks_mmu k')"
proof (induction n virt k p rule: load_pages.induct)
  case (2 n virt k p)
  then obtain f fa m where a: "allocFrame (ks_frames k) = Inr (f, fa)" "f \<noteq> 0"
    "mapPageIn (ks_mmu k) (procDir p) f virt RW = Inr m"
    and r: "load_pages n (virt + 4096) (k\<lparr>ks_frames := fa, ks_mmu := m\<rparr>) (p\<lparr>pages := pages p @ [(f, virt)]\<rparr>) = Inr (p', k')"
    by (auto split: if_splits)
  from "2.IH" [OF a(1) refl a(2,3) r] show ?case
    using same_layout_trans [OF mapPageIn_layout [OF a(3)]] by (cases p') auto
qed (simp add: same_layout_def)

lemma load_segment_keeps:
  assumes "load_segment e ph k p = Inr (p', k')"
  shows "processes k' = processes k \<and> latestPid k' = latestPid k \<and>
     activeProcessPid k' = activeProcessPid k \<and> p' = p\<lparr>pages := pages p'\<rparr> \<and> same_layout (ks_mmu k) (ks_mmu k')"
  using assms load_pages_keeps by (fastforce simp: load_segment_def Let_def split: if_splits)

lemma load_headers_keeps:
  "load_headers n e pos sz k p = Inr (p', k') \<Longrightarrow> processes k' = processes k \<and> latestPid k' = latestPid k \<and>
     activeProcessPid k' = activeProcessPid k \<and> p' = p\<lparr>pages := pages p'\<rparr> \<and> same_layout (ks_mmu k) (ks_mmu k')"
proof (induction n e pos sz k p rule: load_headers.induct)
  case (2 n e pos sz k p)
  then obtain ph p1 k1 where h: "rd_progHeader e pos = Inr ph"
    and s: "(if ph_segmentKind ph = 1 then load_segment e ph k p else Inr (p, k)) = Inr (p1, k1)"
    and r: "load_headers n e (pos + sz) sz k1 p1 = Inr (p', k')"
    by auto
  have "processes k1 = processes k \<and> latestPid k1 = latestPid k \<and>
     activeProcessPid k1 = activeProcessPid k \<and> p1 = p\<lparr>pages := pages p1\<rparr> \<and> same_layout (ks_mmu k) (ks_mmu k1)"
    using s load_segment_keeps by (cases "ph_segmentKind ph = 1") (auto simp: same_layout_def)
  then show ?case
    using "2.IH" [OF h s refl r] by (cases p', cases p1, cases p) (auto simp: same_layout_def)
qed (simp add: same_layout_def)

lemma elf_load_registers:
  assumes "elf_load fp e k name pl = Inr (p, k')"
  shows "processes k' = processes k @ [p] \<and> pid p = latestPid k \<and> latestPid k' = latestPid k + 1 \<and>
     activeProcessPid k' = activeProcessPid k \<and> pname p = name \<and> priv p = pl \<and> heapBrk p = 0x50000000 \<and>
     elf_programEntry e = Inr (entryPoint p) \<and> r_eip (state p) = entryPoint p \<and>
     r_esp (state p) = STACK_BEGIN \<and> r_eflags (state p) = 0x202 \<and>
     (\<exists>m. createAddressSpace (ks_mmu k) = Inr (procDir p, m))"
proof -
  let ?k0 = "k\<lparr>latestPid := latestPid k + 1\<rparr>"
  from assms obtain dir m phoff phnum phent p1 k2 pe where
    c: "createAddressSpace (ks_mmu k) = Inr (dir, m)" "elf_programEntry e = Inr pe"
    and l: "load_headers (unat (phnum :: u16)) e phoff (ucast (phent :: u16)) (?k0\<lparr>ks_mmu := m\<rparr>)
        \<lparr>pid = latestPid k, pname = name, srcFp = fp, priv = pl, pages = [], stackPages = [],
         state = initial_state 0, entryPoint = 0, importance = REQ, procDir = dir, heapBrk = 0x50000000\<rparr> = Inr (p1, k2)"
    and r: "p = p1\<lparr>state := initial_state pe, entryPoint := pe\<rparr>" "k' = k2\<lparr>processes := processes k2 @ [p]\<rparr>"
    by (auto simp: elf_load_def getNewPid_def Let_def)
  from load_headers_keeps [OF l] show ?thesis
    using c r by (cases p1) (auto simp: initial_state_def)
qed

text \<open>
  The directories of the processes: each is one of those handed out from the static array, no two
  processes share one, and the directory of the kernel is not in the array.
\<close>

definition dirs_apart :: "kstate \<Rightarrow> bool" where
  "dirs_apart k \<longleftrightarrow> (\<forall>i<16. pageDirectory (ks_mmu k) \<noteq> processDirectories (ks_mmu k) + i * 4096) \<and>
     (\<forall>q \<in> set (processes k). \<exists>i < nextDirectory (ks_mmu k). procDir q = processDirectories (ks_mmu k) + i * 4096) \<and>
     distinct (List.map procDir (processes k))"

lemma array_slots: "i < 16 \<Longrightarrow> j < 16 \<Longrightarrow> (b :: u32) + i * 4096 = b + j * 4096 \<longleftrightarrow> i = j"
proof -
  assume "i < 16" "j < 16"
  then have "unat (i * 4096) = unat i * 4096" "unat (j * 4096) = unat j * 4096"
    by (simp_all add: unat_word_ariths word_less_nat_alt)
  then show ?thesis
    by (metis add_left_cancel mult_right_cancel word_unat_eq_iff zero_neq_numeral)
qed

lemma elf_load_directory:
  assumes "elf_load fp e k name pl = Inr (p, k')"
  shows "nextDirectory (ks_mmu k) < 16 \<and> procDir p = processDirectories (ks_mmu k) + nextDirectory (ks_mmu k) * 4096 \<and>
    nextDirectory (ks_mmu k') = nextDirectory (ks_mmu k) + 1 \<and> processDirectories (ks_mmu k') = processDirectories (ks_mmu k) \<and>
    pageDirectory (ks_mmu k') = pageDirectory (ks_mmu k)"
proof -
  let ?k0 = "k\<lparr>latestPid := latestPid k + 1\<rparr>"
  from assms obtain dir m phoff phnum phent p1 k2 pe where
    c: "createAddressSpace (ks_mmu k) = Inr (dir, m)"
    and l: "load_headers (unat (phnum :: u16)) e phoff (ucast (phent :: u16)) (?k0\<lparr>ks_mmu := m\<rparr>)
        \<lparr>pid = latestPid k, pname = name, srcFp = fp, priv = pl, pages = [], stackPages = [],
         state = initial_state 0, entryPoint = 0, importance = REQ, procDir = dir, heapBrk = 0x50000000\<rparr> = Inr (p1, k2)"
    and r: "p = p1\<lparr>state := initial_state pe, entryPoint := pe\<rparr>" "k' = k2\<lparr>processes := processes k2 @ [p]\<rparr>"
    by (auto simp: elf_load_def getNewPid_def Let_def)
  from load_headers_keeps [OF l] createAddressSpace_takes_next [OF c] show ?thesis
    using r by (cases p1) (auto simp: same_layout_def)
qed

lemma elf_load_dirs_apart:
  assumes "elf_load fp e k name pl = Inr (p, k')" and "dirs_apart k"
  shows "dirs_apart k'" and "procDir p \<noteq> pageDirectory (ks_mmu k)" and "procDir p \<notin> procDir ` set (processes k)"
proof -
  let ?b = "processDirectories (ks_mmu k)" and ?n = "nextDirectory (ks_mmu k)"
  have d: "?n < 16" "procDir p = ?b + ?n * 4096" "nextDirectory (ks_mmu k') = ?n + 1" "processDirectories (ks_mmu k') = ?b"
    "pageDirectory (ks_mmu k') = pageDirectory (ks_mmu k)"
    using elf_load_directory [OF assms(1)] by blast+
  have ps: "processes k' = processes k @ [p]"
    using elf_load_registers [OF assms(1)] by blast
  have a: "\<forall>i<16. pageDirectory (ks_mmu k) \<noteq> ?b + i * 4096" "\<forall>q \<in> set (processes k). \<exists>i < ?n. procDir q = ?b + i * 4096"
    "distinct (List.map procDir (processes k))"
    using assms(2) unfolding dirs_apart_def by blast+
  show "procDir p \<noteq> pageDirectory (ks_mmu k)"
    using a(1) d(1,2) by metis
  show new: "procDir p \<notin> procDir ` set (processes k)"
  proof
    assume "procDir p \<in> procDir ` set (processes k)"
    then obtain i where "i < ?n" "?b + ?n * 4096 = ?b + i * 4096"
      using a(2) d(2) by fastforce
    then show False
      using array_slots [of ?n i ?b] d(1) less_trans [of i ?n 16] by auto
  qed
  have n: "?n < ?n + 1" and le: "i < ?n \<Longrightarrow> i < ?n + 1" for i
    using d(1) by (auto simp: word_less_nat_alt unat_word_ariths)
  have "\<exists>i < ?n + 1. procDir q = ?b + i * 4096" if "q \<in> set (processes k')" for q
  proof (cases "q = p")
    case True
    then show ?thesis
      using d(2) n by blast
  next
    case False
    then have "q \<in> set (processes k)"
      using that ps by simp
    then show ?thesis
      using a(2) le by blast
  qed
  moreover have "distinct (List.map procDir (processes k'))"
    using a(3) new by (simp add: ps)
  ultimately show "dirs_apart k'"
    unfolding dirs_apart_def d(3-5) using a(1) by blast
qed

text \<open>C5: a successful \<^verbatim>\<open>ElfExecutable::load\<close> appends exactly one process, with the next pid, the
  entry point of the header as instruction pointer, the stack pointer at \<^verbatim>\<open>STACK_BEGIN\<close> and
  interrupts enabled, and does not switch to it. Its directory is the next one of the static array, which then
  counts as handed out; while the processes have directories of their own from that array, the new
  one is neither the kernel's nor that of another process, and they still have directories of their own.\<close>

theorem elf_load_registers_process:
  assumes "elf_load fp e k name pl = Inr (p, k')"
  shows "processes k' = processes k @ [p] \<and> pid p = latestPid k \<and> latestPid k' = latestPid k + 1 \<and>
     activeProcessPid k' = activeProcessPid k \<and> pname p = name \<and> priv p = pl \<and> heapBrk p = 0x50000000 \<and>
     elf_programEntry e = Inr (entryPoint p) \<and> r_eip (state p) = entryPoint p \<and>
     r_esp (state p) = STACK_BEGIN \<and> r_eflags (state p) = 0x202 \<and>
     (\<exists>m. createAddressSpace (ks_mmu k) = Inr (procDir p, m)) \<and>
     procDir p = processDirectories (ks_mmu k) + nextDirectory (ks_mmu k) * 4096 \<and>
     nextDirectory (ks_mmu k') = nextDirectory (ks_mmu k) + 1 \<and>
     (dirs_apart k \<longrightarrow> dirs_apart k' \<and> procDir p \<noteq> pageDirectory (ks_mmu k) \<and> procDir p \<notin> procDir ` set (processes k))"
  using elf_load_registers [OF assms] elf_load_directory [OF assms] elf_load_dirs_apart [OF assms] by simp

section \<open>A small kernel\<close>

definition p0 :: process where
  "p0 = \<lparr>pid = 1, pname = [], srcFp = [], priv = Kernel, pages = [], stackPages = [], state = initial_state 0,
     entryPoint = 0x8000, importance = OPT, procDir = 0x101000, heapBrk = 0x50000000\<rparr>"

definition kernel0 :: kstate where
  "kernel0 = \<lparr>ks_frames = \<lparr>bitmap = [1, 0, 0], totalFrames = 24\<rparr>, ks_mmu = mmu_init mmu0, ks_phys = (\<lambda>_. 0),
     processes = [p0], latestPid = 2, activeProcessPid = 1\<rparr>"

lemma kernel0_wf:
  "dir_wf (ks_mmu kernel0) (procDir p0)" "frames_ready (ks_frames kernel0)" "active_proc kernel0 0 p0"
  "nextPageTable (ks_mmu kernel0) < 16"
  using mmu0_wf by (simp_all add: kernel0_def p0_def mmu0_def mmu_init_def frames_ready_def frames_inv_def used_def active_proc_def)

text \<open>Two frames of the small kernel, and two pages in one fresh table.\<close>

lemma kernel0_frames:
  "allocFrame (ks_frames kernel0) = Inr (0x1000, \<lparr>bitmap = [3, 0, 0], totalFrames = 24\<rparr>)"
  "allocFrame \<lparr>bitmap = [3, 0, 0], totalFrames = 24\<rparr> = Inr (0x2000, \<lparr>bitmap = [7, 0, 0], totalFrames = 24\<rparr>)"
  unfolding kernel0_def kstate.simps by code_simp+

lemma map_two:
  assumes "dir_wf m dir" and "nextPageTable m < 16" and "dirIndex (v + 4096) = dirIndex v"
  obtains m1 m2 where "mapPageIn m dir f1 v RW = Inr m1" and "mapPageIn m1 dir f2 (v + 4096) RW = Inr m2"
proof -
  from mapPageIn_spec [OF assms(1) RW_mask disjI2 [OF assms(2)], of f1 v] obtain m1 where
    m1: "mapPageIn m dir f1 v RW = Inr m1" "dir_wf m1 dir" "has_table m1 dir v"
    by blast
  then have "has_table m1 dir (v + 4096) \<or> nextPageTable m1 < 16"
    by (simp add: assms(3))
  from mapPageIn_spec [OF m1(2) RW_mask this, of f2] obtain m2 where
    "mapPageIn m1 dir f2 (v + 4096) RW = Inr m2"
    by blast
  with m1(1) show thesis
    by (rule that)
qed

lemma two_rounds:
  "mmap_loop 2 = mmap_loop (Suc (Suc 0))" "load_pages 2 = load_pages (Suc (Suc 0))"
  by (simp_all add: numeral_2_eq_2)

lemma kernel0_two_pages:
  assumes "dirIndex (v + 4096) = dirIndex v"
  obtains m1 m2 where "mapPageIn (ks_mmu kernel0) 0x101000 0x1000 v RW = Inr m1"
    and "mapPageIn m1 0x101000 0x2000 (v + 4096) RW = Inr m2"
proof (rule map_two [OF _ _ assms])
  show "dir_wf (ks_mmu kernel0) 0x101000"
    using kernel0_wf(1) by (simp add: p0_def)
  show "nextPageTable (ks_mmu kernel0) < 16"
    by (rule kernel0_wf(4))
qed (rule that)

theorem mmap_gives_fresh_pages_witness:
  "\<exists>ps k' r. sys_mmap kernel0 5000 = Inr (r, k') \<and> distinct ps \<and>
     translate (ks_mmu k') 0x101000 = seg_translate ps 0x50000000 (translate (ks_mmu kernel0) 0x101000) \<and>
     (length ps = 2 \<longrightarrow> r = 0x50000000)"
proof -
  have p: "unat (heapBrk p0) mod 4096 = 0" "unat (5000 :: u32) + 4095 < 2 ^ 32"
    "unat (heapBrk p0) + (unat (5000 :: u32) + 4095) div 4096 * 4096 < 2 ^ 32"
    and d: "procDir p0 = 0x101000" "heapBrk p0 = 0x50000000"
    by (simp_all add: p0_def)
  have "dirIndex (0x50000000 + 4096) = dirIndex 0x50000000"
    by (simp add: dirIndex_def)
  then obtain m1 m2 where "mapPageIn (ks_mmu kernel0) 0x101000 0x1000 0x50000000 RW = Inr m1"
    "mapPageIn m1 0x101000 0x2000 (0x50000000 + 4096) RW = Inr m2"
    by (rule kernel0_two_pages)
  moreover have "find_proc (processes kernel0) (activeProcessPid kernel0) 0 None = Some 0"
    "processes kernel0 ! 0 = p0"
    by (simp_all add: kernel0_def p0_def)
  ultimately have "\<not> isl (sys_mmap kernel0 5000)"
    using kernel0_frames d by (simp add: sys_mmap_def Let_def two_rounds)
  then have "sys_mmap kernel0 5000 \<noteq> Inl NO_TABLES"
    by auto
  with mmap_gives_fresh_pages [OF kernel0_wf(3,1,2) p] show ?thesis
    unfolding d by (elim disjE exE conjE) (blast, simp, metis)
qed

theorem mmap_rounding_wraps_witness:
  "sys_mmap kernel0 0xFFFFF001 = Inr (0x50000000, kernel0\<lparr>processes := [p0]\<rparr>)"
proof -
  have "2 ^ 32 \<le> unat (0xFFFFF001 :: u32) + 4095"
    by simp
  from mmap_rounding_wraps [OF kernel0_wf(3) this] show ?thesis
    by (simp add: kernel0_def p0_def)
qed

definition sample_header :: progHeader where
  "sample_header = \<lparr>ph_segmentKind = 1, ph_contentsOffset = 1, ph_virtualAddrStart = 0x40000FFE,
     ph_segmentFilesize = 3, ph_memSize = 8\<rparr>"

lemma vwrite_fault: "vwrite m dir ph v bs = Inl x \<Longrightarrow> x = OutOfBounds"
  by (induction m dir ph v bs rule: vwrite.induct) (auto split: option.splits)

lemma sample_pages:
  "load_segment [9, 1, 2, 3] sample_header kernel0 p0 \<notin> {Inl NO_TABLES, Inl (Panic ''Out of memory'')}"
proof -
  have "dirIndex (0x40000000 + 4096) = dirIndex 0x40000000"
    by (simp add: dirIndex_def)
  then obtain m1 m2 where "mapPageIn (ks_mmu kernel0) 0x101000 0x1000 0x40000000 RW = Inr m1"
    "mapPageIn m1 0x101000 0x2000 (0x40000000 + 4096) RW = Inr m2"
    by (rule kernel0_two_pages)
  then have "\<not> isl (load_pages 2 0x40000000 kernel0 p0)"
    using kernel0_frames by (simp add: two_rounds p0_def)
  then obtain p1 k1 where "load_pages 2 0x40000000 kernel0 p0 = Inr (p1, k1)"
    by (metis isl_def sum.exhaust prod.exhaust)
  then show ?thesis
    by (auto simp: load_segment_def sample_header_def Let_def NO_TABLES_def bindE_Inl_iff simp del: vwrite.simps dest!: vwrite_fault split: if_splits)
qed

theorem load_segment_shows_file_witness:
  "\<exists>p' k'. load_segment [9, 1, 2, 3] sample_header kernel0 p0 = Inr (p', k') \<and>
     vread (ks_mmu k') 0x101000 (ks_phys k') 0x40001000 = Some 3 \<and>
     vread (ks_mmu k') 0x101000 (ks_phys k') 0x40001001 = Some 0"
proof -
  have s: "segment_sane [9, 1, 2, 3] sample_header"
    by (simp add: segment_sane_def sample_header_def)
  from load_segment_shows_file [OF kernel0_wf(1,2) s] sample_pages obtain p' k' where
    r: "load_segment [9, 1, 2, 3] sample_header kernel0 p0 = Inr (p', k')"
    "\<forall>i < unat (ph_memSize sample_header).
          vread (ks_mmu k') (procDir p0) (ks_phys k') (ph_virtualAddrStart sample_header + word_of_nat i) =
            Some (if i < unat (ph_segmentFilesize sample_header)
                  then [9, 1, 2, 3] ! (unat (ph_contentsOffset sample_header) + i) else 0)"
    by blast
  have "vread (ks_mmu k') 0x101000 (ks_phys k') 0x40001000 = Some 3"
    using r(2) [THEN spec, of 2] by (simp add: sample_header_def p0_def)
  moreover have "vread (ks_mmu k') 0x101000 (ks_phys k') 0x40001001 = Some 0"
    using r(2) [THEN spec, of 3] by (simp add: sample_header_def p0_def)
  ultimately show ?thesis
    using r(1) by blast
qed

theorem run_maps_stack_witness:
  "\<exists>p' k'. process_run kernel0 p0 REQ = Inr (p', k', 0x8000, STACK_BEGIN, 0x101000) \<and>
     translate (ks_mmu k') 0x101000 0xBFFEFFFC \<noteq> None \<and> translate (ks_mmu k') 0x101000 0xBFFE0FFC = None"
proof -
  from run_maps_stack [OF kernel0_wf(1,2,4), of REQ] obtain p' k' where
    r: "process_run kernel0 p0 REQ = Inr (p', k', entryPoint p0, STACK_BEGIN, procDir p0)"
    and d: "\<forall>w. translate (ks_mmu k') (procDir p0) w \<noteq> None \<longleftrightarrow> (0xBFFE1000 \<le> w \<and> w < 0xBFFF1000) \<or>
          (dirIndex w \<noteq> dirIndex STACK_BEGIN \<and> translate (ks_mmu kernel0) (procDir p0) w \<noteq> None)"
    by blast
  have "translate (ks_mmu k') (procDir p0) 0xBFFEFFFC \<noteq> None"
    using d [THEN spec, of "0xBFFEFFFC"] by simp
  moreover have "translate (ks_mmu k') (procDir p0) 0xBFFE0FFC = None"
    using d [THEN spec, of "0xBFFE0FFC"] by (simp add: dirIndex_def STACK_BEGIN_def)
  ultimately show ?thesis
    using r by (simp add: p0_def)
qed


definition kernel1 :: kstate where
  "kernel1 = kernel0\<lparr>ks_mmu := (mmu_init mmu0)\<lparr>stack_bottom := 0, stack_top := 0\<rparr>\<rparr>"

text \<open>An image of 52 bytes without program headers, its entry point at 0x08048054.\<close>

definition sample_elf :: "u8 list" where
  "sample_elf = ELF_MAGIC @ [1, 1, 1] @ replicate 9 0 @ [2, 0, 3, 0, 1, 0, 0, 0, 0x54, 0x80, 4, 8, 52, 0, 0, 0] @ replicate 20 0"

lemma kernel1_space:
  obtains m where "createAddressSpace (ks_mmu kernel1) = Inr (0x120000, m)"
proof -
  let ?m = "(mmu_init mmu0)\<lparr>stack_bottom := 0, stack_top := 0\<rparr>"
  obtain ad where ad: "mm_pages ?m 0x101000 = Some ad" "length ad = 1024"
    using mmu0_wf by (elim dir_wfE) simp
  have "nextDirectory ?m = 0" "processDirectories ?m = 0x120000" "activeDirectory ?m = 0x101000" "pageDirectory ?m = 0x101000"
    by (simp_all add: mmu0_def mmu_init_def)
  then have "\<exists>m. createAddressSpace ?m = Inr (0x120000, m)"
    using ad by (simp add: createAddressSpace_def mapRange_def mm_get_def mm_put_def dirIndex_def STACK_BEGIN_def Let_def)
  then show thesis
    using that by (auto simp: kernel1_def)
qed

theorem elf_load_registers_process_witness:
  "\<exists>p k'. elf_load [] sample_elf (kernel1\<lparr>processes := []\<rparr>) [0x73] User = Inr (p, k') \<and> processes k' = [p] \<and>
     r_eip (state p) = 0x08048054 \<and> pid p = 2 \<and> latestPid k' = 3 \<and> procDir p = 0x120000 \<and> dirs_apart k'"
proof -
  let ?k = "kernel1\<lparr>processes := []\<rparr>"
  obtain m where m: "createAddressSpace (ks_mmu ?k) = Inr (0x120000, m)"
    using kernel1_space by auto
  have hdr: "elf_phoff sample_elf = Inr 52" "elf_phnum sample_elf = Inr 0" "elf_phentsize sample_elf = Inr 0"
    "elf_programEntry sample_elf = Inr 0x08048054"
    by code_simp+
  obtain p k' where r: "elf_load [] sample_elf ?k [0x73] User = Inr (p, k')"
    using m hdr by (simp add: elf_load_def getNewPid_def Let_def)
  have mmu: "pageDirectory (ks_mmu ?k) = 0x101000" "processDirectories (ks_mmu ?k) = 0x120000" "nextDirectory (ks_mmu ?k) = 0"
    "processDirectories (ks_mmu kernel1) = 0x120000" "nextDirectory (ks_mmu kernel1) = 0"
    by (simp_all add: kernel1_def mmu_init_def mmu0_def)
  have "dirs_apart ?k"
    unfolding dirs_apart_def mmu
  proof (intro conjI allI impI)
    fix i :: u32 assume "i < 16"
    then have "unat (0x120000 + i * 4096) = 0x120000 + unat i * 4096"
      by (simp add: unat_word_ariths word_less_nat_alt)
    then have "unat (0x120000 + i * 4096) \<noteq> unat (0x101000 :: u32)"
      by simp
    then show "0x101000 \<noteq> 0x120000 + i * 4096"
      by metis
  qed simp_all
  with elf_load_registers_process [OF r] have "processes k' = [p]" "pid p = latestPid kernel1"
    "latestPid k' = latestPid kernel1 + 1" "elf_programEntry sample_elf = Inr (r_eip (state p))" "dirs_apart k'" "procDir p = 0x120000"
    by (simp_all add: mmu)
  then show ?thesis
    using r hdr(4) by (simp add: kernel1_def kernel0_def)
qed

end
