(* ===== verification/Radix.thy ===== *)
theory Radix
  imports CString
begin

text \<open>
  Numbers as digits. The programs print numbers by filling a buffer with the digits from the
  lowest on and emitting it backwards; \<open>radix\<close> is the text they mean. Reading it back is the
  loop of \<^verbatim>\<open>stou\<close>, \<^verbatim>\<open>src/sbinSrc/de/gen/alpha.h\<close>.
\<close>

definition digit_char :: "nat \<Rightarrow> u8" where
  "digit_char d = (if d < 10 then word_of_nat (48 + d) else word_of_nat (87 + d))"

fun radix :: "nat \<Rightarrow> nat \<Rightarrow> u8 list" where
  "radix b n = (if n < b \<or> b < 2 then [digit_char n] else radix b (n div b) @ [digit_char (n mod b)])"

declare radix.simps [simp del]

text \<open>The digits from the lowest on, none for zero.\<close>

fun low_digits :: "nat \<Rightarrow> nat \<Rightarrow> nat list" where
  "low_digits b n = (if n = 0 \<or> b < 2 then [] else n mod b # low_digits b (n div b))"

declare low_digits.simps [simp del]

lemma low_digits_0 [simp]: "low_digits b 0 = []"
  by (simp add: low_digits.simps)

lemma low_digits_radix:
  assumes "2 \<le> b" and "0 < n"
  shows "List.map digit_char (rev (low_digits b n)) = radix b n"
  using assms
proof (induction b n rule: low_digits.induct)
  case (1 b n)
  show ?case
  proof (cases "n < b")
    case True
    then show ?thesis
      using "1.prems" by (simp add: low_digits.simps [of b n] radix.simps [of b n])
  next
    case False
    then have "0 < n div b"
      using "1.prems" by (simp add: div_greater_zero_iff)
    then show ?thesis
      using "1.IH" "1.prems" False by (simp add: low_digits.simps [of b n] radix.simps [of b n])
  qed
qed

lemma length_radix: "2 \<le> b \<Longrightarrow> 0 < n \<Longrightarrow> length (low_digits b n) = length (radix b n)"
  using arg_cong [OF low_digits_radix, of b n length] by simp

lemma length_low_digits:
  assumes "n < b ^ k" and "2 \<le> b"
  shows "length (low_digits b n) \<le> k"
  using assms
proof (induction k arbitrary: n)
  case 0
  then show ?case
    by (simp add: low_digits.simps)
next
  case (Suc k)
  have "n div b < b ^ k"
    using Suc.prems by (simp add: div_less_iff_less_mult mult.commute)
  then show ?case
    using Suc by (simp add: low_digits.simps [of b n])
qed

lemma radix_u32_length: "length (radix 10 (unat (w :: u32))) \<le> 10"
proof (cases "unat w = 0")
  case True
  then show ?thesis
    by (simp add: radix.simps)
next
  case False
  have "unat w < 10 ^ 10"
    using unsigned_less [of w, where 'a = nat] by simp
  then show ?thesis
    using length_low_digits [of "unat w" 10 10] length_radix [of 10 "unat w"] False by simp
qed

lemma low_digits_less: "2 \<le> b \<Longrightarrow> d \<in> set (low_digits b n) \<Longrightarrow> d < b"
proof (induction b n rule: low_digits.induct)
  case (1 b n)
  then show ?case
    by (subst (asm) (2) low_digits.simps) (auto split: if_splits)
qed

lemma radix_not_Nil [simp]: "radix b n \<noteq> []"
  by (simp add: radix.simps)

lemma digit_char_10: "d < 10 \<Longrightarrow> unat (digit_char d) = 48 + d"
  by (simp add: digit_char_def unat_of_nat del: of_nat_add)

lemma digit_char_range: "d < 16 \<Longrightarrow> 48 \<le> digit_char d \<and> digit_char d \<le> 102"
  by (auto simp: digit_char_def word_le_nat_alt unat_of_nat simp del: of_nat_add)

lemma radix_range:
  "2 \<le> b \<Longrightarrow> b \<le> 16 \<Longrightarrow> c \<in> set (radix b n) \<Longrightarrow> 48 \<le> c \<and> c \<le> 102"
proof (induction b n rule: radix.induct)
  case (1 b n)
  show ?case
  proof (cases "n < b")
    case True
    then show ?thesis
      using "1.prems" digit_char_range [of n] by (simp add: radix.simps [of b n])
  next
    case False
    then have "c = digit_char (n mod b) \<or> c \<in> set (radix b (n div b))"
      using "1.prems" by (auto simp: radix.simps [of b n])
    moreover have "n mod b < 16"
      using "1.prems" mod_less_divisor [of b n] by linarith
    ultimately show ?thesis
      using "1.IH" "1.prems" False digit_char_range [of "n mod b"] by auto
  qed
qed

lemma radix10_digit: "c \<in> set (radix 10 n) \<Longrightarrow> 48 \<le> c \<and> c \<le> 57"
proof (induction "10 :: nat" n rule: radix.induct)
  case (1 n)
  have d: "48 \<le> digit_char d \<and> digit_char d \<le> 57" if "d < 10" for d
    using that by (simp add: digit_char_def word_le_nat_alt unat_of_nat del: of_nat_add)
  show ?case
    using 1 d [of n] d [of "n mod 10"] by (auto simp: radix.simps [of 10 n] split: if_splits)
qed

lemma radix_nul: "2 \<le> b \<Longrightarrow> b \<le> 16 \<Longrightarrow> 0 \<notin> set (radix b n)"
  using radix_range [of b 0 n] by fastforce

section \<open>Reading a number back\<close>

text \<open>\<^verbatim>\<open>stou\<close>: the value read so far, and the rest of the text.\<close>

fun stou_loop :: "u32 \<Rightarrow> u8 list \<Rightarrow> u32 exec" where
  "stou_loop result [] = Inl OutOfBounds"
| "stou_loop result (c # s) =
     (if sint c \<ge> 48 \<and> sint c \<le> 57 then stou_loop (result * 10 + (scast c - 48)) s else Inr result)"

definition stou :: "u8 list \<Rightarrow> u32 exec" where
  "stou s = stou_loop 0 s"

lemma sint_ascii: "(c :: u8) < 128 \<Longrightarrow> sint c = int (unat c)"
proof -
  assume "c < 128"
  then have "int (unat c) < int 128"
    by (simp only: of_nat_less_iff) (simp add: word_less_nat_alt)
  then have "signed_take_bit 7 (uint c) = uint c"
    by (intro signed_take_bit_int_eq_self) (auto intro: order_trans [of _ 0])
  then show ?thesis
    by (simp add: sint_uint)
qed

lemma scast_ascii: "(c :: u8) < 128 \<Longrightarrow> (scast c :: u32) = word_of_nat (unat c)"
  by (simp add: scast_eq sint_ascii)

lemma digit_step:
  assumes "d < 10"
  shows "sint (digit_char d) \<ge> 48 \<and> sint (digit_char d) \<le> 57"
    and "(scast (digit_char d) :: u32) - 48 = word_of_nat d"
proof -
  have u: "unat (digit_char d) = 48 + d" and lt: "digit_char d < 128"
    using assms digit_char_10 [OF assms] by (simp_all add: word_less_nat_alt)
  show "sint (digit_char d) \<ge> 48 \<and> sint (digit_char d) \<le> 57"
    using u assms by (simp add: sint_ascii [OF lt])
  show "(scast (digit_char d) :: u32) - 48 = word_of_nat d"
    by (simp add: scast_ascii [OF lt] u)
qed

lemma stou_loop_radix:
  "stou_loop (word_of_nat a) (radix 10 n @ s) =
     stou_loop (word_of_nat (a * 10 ^ length (radix 10 n) + n)) s"
proof (induction "10 :: nat" n arbitrary: a s rule: radix.induct)
  case (1 n)
  show ?case
  proof (cases "n < 10")
    case True
    then show ?thesis
      using digit_step [OF True] by (simp add: radix.simps [of 10 n])
  next
    case False
    have m: "n mod 10 < 10"
      by simp
    have e: "(a * 10 ^ length (radix 10 (n div 10)) + n div 10) * 10 + n mod 10 =
        a * (10 * 10 ^ length (radix 10 (n div 10))) + n"
      by (simp add: algebra_simps)
    have "stou_loop (word_of_nat a) (radix 10 n @ s) =
        stou_loop (word_of_nat (a * 10 ^ length (radix 10 (n div 10)) + n div 10)) (digit_char (n mod 10) # s)"
      using "1" False by (simp add: radix.simps [of 10 n])
    also have "\<dots> = stou_loop (word_of_nat ((a * 10 ^ length (radix 10 (n div 10)) + n div 10) * 10 + n mod 10)) s"
      using digit_step [OF m] by (simp only: stou_loop.simps simp_thms if_True of_nat_add of_nat_mult of_nat_numeral)
    finally show ?thesis
      unfolding e using False by (simp add: radix.simps [of 10 n])
  qed
qed

lemma stou_radix:
  assumes "n < 2 ^ 32" and "\<not> (sint c \<ge> 48 \<and> sint c \<le> 57)"
  shows "stou (radix 10 n @ c # s) = Inr (word_of_nat n)"
  using stou_loop_radix [of 0 n "c # s"] assms by (auto simp: stou_def)

section \<open>Decimal digits of a word\<close>

text \<open>
  The loop that the kernel's formatters share: decimal digits stored from the lowest on; the fuel
  is the room in the buffer.
\<close>

fun dec_digits :: "nat \<Rightarrow> u32 \<Rightarrow> u8 list exec" where
  "dec_digits k n =
     (if n = 0 then Inr []
      else case k of 0 \<Rightarrow> Inl OutOfBounds
        | Suc k' \<Rightarrow> bindE (dec_digits k' (n div 10)) (\<lambda>tmp. Inr (ucast (48 + n mod 10) # tmp)))"

declare dec_digits.simps [simp del]

lemma dec_digit: "(ucast (48 + n mod 10 :: u32) :: u8) = digit_char (unat n mod 10)"
proof -
  have "n mod 10 = word_of_nat (unat n mod 10)"
    by (simp add: word_arith_nat_mod)
  moreover have "unat n mod 10 \<in> set [0..<10]"
    by simp
  moreover have "list_all (\<lambda>d. (ucast (48 + word_of_nat d :: u32) :: u8) = digit_char d) [0..<10]"
    by code_simp
  ultimately show ?thesis
    by (simp only: list_all_iff)
qed

lemma dec_digits_low:
  "unat n < 10 ^ k \<Longrightarrow> dec_digits k n = Inr (List.map digit_char (low_digits 10 (unat n)))"
proof (induction k arbitrary: n)
  case 0
  then show ?case
    by (simp add: dec_digits.simps unat_eq_0)
next
  case (Suc k)
  have "unat (n div 10) < 10 ^ k"
    using Suc.prems by (simp add: unat_div less_mult_imp_div_less mult.commute)
  note ih = Suc.IH [OF this]
  show ?case
  proof (cases "n = 0")
    case False
    then show ?thesis
      using ih by (simp add: dec_digits.simps [of "Suc k"] low_digits.simps [of 10 "unat n"] dec_digit unat_div unat_eq_0)
  qed (simp add: dec_digits.simps)
qed

lemma dec_digits_radix:
  assumes "n \<noteq> 0" and "unat n < 10 ^ k"
  obtains tmp where "dec_digits k n = Inr tmp" and "rev tmp = radix 10 (unat n)"
  using dec_digits_low [OF assms(2)] low_digits_radix [of 10 "unat n"] assms(1)
  by (auto simp: rev_map unat_gt_0)

text \<open>The signed reading of the kernel.\<close>

lemma radix_digits: "list_all isdigit (radix 10 n)"
proof -
  have "isdigit c" if "48 \<le> c" "c \<le> 57" for c
  proof -
    have u: "48 \<le> unat c" "unat c \<le> 57"
      using that by (simp_all add: word_le_nat_alt)
    then have lt: "c < 128"
      by (simp add: word_less_nat_alt)
    show ?thesis
      unfolding isdigit_def sint_ascii [OF lt] using u by linarith
  qed
  then show ?thesis
    using radix10_digit by (auto simp: list_all_iff)
qed

lemma stoi_loop_radix:
  "stoi_loop (word_of_nat a) (radix 10 n @ [0]) = Inr (Some (word_of_nat (a * 10 ^ length (radix 10 n) + n)))"
proof -
  have step: "stoi_loop (word_of_nat a) (radix 10 n @ s) =
     stoi_loop (word_of_nat (a * 10 ^ length (radix 10 n) + n)) s" for s
  proof (induction "10 :: nat" n arbitrary: a s rule: radix.induct)
    case (1 n)
    have d: "digit_char m \<noteq> 0 \<and> isdigit (digit_char m) \<and> (scast (digit_char m) :: u32) - 48 = word_of_nat m"
      if "m < 10" for m
      using that digit_step [OF that] digit_char_10 [OF that] by (auto simp: isdigit_def)
    show ?case
    proof (cases "n < 10")
      case True
      then show ?thesis
        using d [OF True] by (simp add: radix.simps [of 10 n])
    next
      case False
      have m: "n mod 10 < 10"
        by simp
      have e: "(a * 10 ^ length (radix 10 (n div 10)) + n div 10) * 10 + n mod 10 =
          a * (10 * 10 ^ length (radix 10 (n div 10))) + n"
        by (simp add: algebra_simps)
      have "stoi_loop (word_of_nat a) (radix 10 n @ s) =
          stoi_loop (word_of_nat (a * 10 ^ length (radix 10 (n div 10)) + n div 10)) (digit_char (n mod 10) # s)"
        using "1" False by (simp add: radix.simps [of 10 n])
      also have "\<dots> = stoi_loop (word_of_nat ((a * 10 ^ length (radix 10 (n div 10)) + n div 10) * 10 + n mod 10)) s"
        using d [OF m]
        by (simp only: stoi_loop.simps simp_thms if_True if_False of_nat_add of_nat_mult of_nat_numeral)
      finally show ?thesis
        unfolding e using False by (simp add: radix.simps [of 10 n])
    qed
  qed
  show ?thesis
    by (simp add: step)
qed

lemma stoi_radix: "stoi (radix 10 (unat v) @ [0]) = Inr v"
proof -
  obtain c s where cs: "radix 10 (unat v) = c # s"
    by (cases "radix 10 (unat v)") auto
  have "c \<noteq> 45"
    using radix10_digit [of c "unat v"] cs by auto
  moreover have "stoi_loop 0 (radix 10 (unat v) @ [0]) = Inr (Some v)"
    using stoi_loop_radix [of 0 "unat v"] by simp
  ultimately show ?thesis
    using cs by simp
qed

end
