(* ===== verification/Stdio.thy ===== *)
theory Stdio
  imports Radix
begin

text \<open>
  The output of the user programs, \<^verbatim>\<open>src/sbinSrc/de/sys/stdio.c\<close> (the copy under
  \<^verbatim>\<open>src/sbinSrc/sched\<close> is the same): \<^verbatim>\<open>printf\<close> formats into one page from
  \<^verbatim>\<open>mmap\<close>, without a bound of its own, and writes the page up to its first zero byte. A store
  behind the page faults. A format string is its bytes with the terminator; an argument is a word
  or the memory a string argument points to.
\<close>

datatype farg = AInt u32 | AStr "u8 list"

abbreviation PAGE :: nat where "PAGE \<equiv> 4096"

text \<open>The output buffer is its filled part.\<close>

definition appendChar :: "u8 list \<Rightarrow> u8 \<Rightarrow> u8 list exec" where
  "appendChar out c = (if length out < PAGE then Inr (out @ [c]) else Inl OutOfBounds)"

fun appendStr :: "u8 list \<Rightarrow> u8 list \<Rightarrow> u8 list exec" where
  "appendStr out [] = Inl OutOfBounds"
| "appendStr out (c # s) =
     (if c = 0 then Inr out else bindE (appendChar out c) (\<lambda>out'. appendStr out' s))"

text \<open>The digits in \<^verbatim>\<open>tmp[64]\<close>, lowest first; the fuel is the room left in it.\<close>

definition num_digit :: "u32 \<Rightarrow> u8" where
  "num_digit d = ucast (if d < 10 then 48 + d else 97 + d - 10)"

fun num_digits :: "nat \<Rightarrow> u64 \<Rightarrow> u32 \<Rightarrow> u8 list exec" where
  "num_digits k n base =
     (if n = 0 then Inr []
      else if base = 0 then Inl (Trap ''divide error'')
      else case k of 0 \<Rightarrow> Inl OutOfBounds
        | Suc k' \<Rightarrow> bindE (num_digits k' (n div ucast base) base)
             (\<lambda>tmp. Inr (num_digit (ucast (n mod ucast base)) # tmp)))"

declare num_digits.simps [simp del]

fun append_back :: "u8 list \<Rightarrow> u8 list \<Rightarrow> u8 list exec" where
  "append_back out [] = Inr out"
| "append_back out (c # cs) = bindE (appendChar out c) (\<lambda>out'. append_back out' cs)"

definition appendNum :: "u8 list \<Rightarrow> u64 \<Rightarrow> u32 \<Rightarrow> u8 list exec" where
  "appendNum out n base =
     (if n = 0 then appendChar out 48
      else bindE (num_digits 64 n base) (\<lambda>tmp. append_back out (rev tmp)))"

text \<open>
  One conversion: the arguments left and the buffer. Taking an argument of the other kind, or
  one too many, is undefined.
\<close>

definition fmt_directive :: "u8 \<Rightarrow> farg list \<Rightarrow> u8 list \<Rightarrow> (farg list \<times> u8 list) exec" where
  "fmt_directive d args out =
     (if d = 37 then bindE (appendChar out 37) (\<lambda>out'. Inr (args, out'))
      else if d = 115 then
        (case args of AStr s # r \<Rightarrow> bindE (appendStr out s) (\<lambda>out'. Inr (r, out')) | _ \<Rightarrow> Inl OutOfBounds)
      else if d = 99 then
        (case args of AInt v # r \<Rightarrow> bindE (appendChar out (ucast v)) (\<lambda>out'. Inr (r, out')) | _ \<Rightarrow> Inl OutOfBounds)
      else if d = 117 then
        (case args of AInt v # r \<Rightarrow> bindE (appendNum out (ucast v) 10) (\<lambda>out'. Inr (r, out')) | _ \<Rightarrow> Inl OutOfBounds)
      else if d = 100 then
        (case args of AInt v # r \<Rightarrow>
           bindE (if sint v < 0 then appendChar out 45 else Inr out) (\<lambda>out1.
           bindE (appendNum out1 (ucast (if sint v < 0 then - v else v)) 10) (\<lambda>out'. Inr (r, out')))
         | _ \<Rightarrow> Inl OutOfBounds)
      else if d = 120 then
        (case args of AInt v # r \<Rightarrow> bindE (appendNum out (ucast v) 16) (\<lambda>out'. Inr (r, out')) | _ \<Rightarrow> Inl OutOfBounds)
      else Inr (args, out))"

text \<open>The loop over the format; a lone percent sign at the end makes it read past the terminator.\<close>

fun fmt_loop :: "u8 list \<Rightarrow> farg list \<Rightarrow> u8 list \<Rightarrow> u8 list exec" where
  "fmt_loop [] args out = Inl OutOfBounds"
| "fmt_loop (c # cs) args out =
     (if c = 0 then Inr out
      else if c \<noteq> 37 then bindE (appendChar out c) (\<lambda>out'. fmt_loop cs args out')
      else (case cs of [] \<Rightarrow> Inl OutOfBounds
        | d # ds \<Rightarrow> bindE (fmt_directive d args out) (\<lambda>(args', out'). fmt_loop ds args' out')))"

text \<open>The bytes given to \<^verbatim>\<open>write\<close>.\<close>

definition puts_bytes :: "u8 list \<Rightarrow> u8 list exec" where
  "puts_bytes s = bindE (strlen s) (\<lambda>n. Inr (take (unat n) s))"

definition user_printf :: "u8 list \<Rightarrow> farg list \<Rightarrow> u8 list exec" where
  "user_printf fmt args =
     bindE (fmt_loop fmt args []) (\<lambda>out. bindE (appendChar out 0) puts_bytes)"

definition user_logf :: "u8 list \<Rightarrow> farg list \<Rightarrow> u8 list exec" where
  "user_logf fmt args =
     bindE (fmt_loop fmt args []) (\<lambda>out. bindE (appendChar out 0) puts_bytes)"

section \<open>What a format means\<close>

datatype piece = Lit u8 | Percent | PStr "u8 list" | PUnsigned u32 | PSigned u32 | PHex u32 | PChar u8

fun piece_fmt :: "piece \<Rightarrow> u8 list" where
  "piece_fmt (Lit c) = [c]"
| "piece_fmt Percent = [37, 37]"
| "piece_fmt (PStr s) = [37, 115]"
| "piece_fmt (PUnsigned v) = [37, 117]"
| "piece_fmt (PSigned v) = [37, 100]"
| "piece_fmt (PHex v) = [37, 120]"
| "piece_fmt (PChar c) = [37, 99]"

fun piece_args :: "piece \<Rightarrow> farg list" where
  "piece_args (PStr s) = [AStr s]"
| "piece_args (PUnsigned v) = [AInt v]"
| "piece_args (PSigned v) = [AInt v]"
| "piece_args (PHex v) = [AInt v]"
| "piece_args (PChar c) = [AInt (ucast c)]"
| "piece_args _ = []"

fun piece_text :: "piece \<Rightarrow> u8 list" where
  "piece_text (Lit c) = [c]"
| "piece_text Percent = [37]"
| "piece_text (PStr s) = cstr s"
| "piece_text (PUnsigned v) = radix 10 (unat v)"
| "piece_text (PSigned v) = (if sint v < 0 then 45 # radix 10 (nat (- sint v)) else radix 10 (nat (sint v)))"
| "piece_text (PHex v) = radix 16 (unat v)"
| "piece_text (PChar c) = [c]"

fun piece_ok :: "piece \<Rightarrow> bool" where
  "piece_ok (Lit c) \<longleftrightarrow> c \<noteq> 0 \<and> c \<noteq> 37"
| "piece_ok (PStr s) \<longleftrightarrow> terminated s"
| "piece_ok (PChar c) \<longleftrightarrow> c \<noteq> 0"
| "piece_ok _ \<longleftrightarrow> True"

definition format_of :: "piece list \<Rightarrow> u8 list" where
  "format_of ps = concat (List.map piece_fmt ps) @ [0]"

definition args_of :: "piece list \<Rightarrow> farg list" where
  "args_of ps = concat (List.map piece_args ps)"

definition text_of :: "piece list \<Rightarrow> u8 list" where
  "text_of ps = concat (List.map piece_text ps)"

text \<open>Appending a text of several bytes, in one step.\<close>

definition append_text :: "u8 list \<Rightarrow> u8 list \<Rightarrow> u8 list exec" where
  "append_text out t = (if length out + length t \<le> PAGE \<or> t = [] then Inr (out @ t) else Inl OutOfBounds)"

lemma append_text_Cons:
  "bindE (appendChar out c) (\<lambda>out'. append_text out' t) = append_text out (c # t)"
  by (auto simp: append_text_def appendChar_def)

lemma appendChar_text: "appendChar out c = append_text out [c]"
  by (auto simp: append_text_def appendChar_def)

lemma append_text_append:
  "bindE (append_text out s) (\<lambda>out'. append_text out' t) = append_text out (s @ t)"
  by (auto simp: append_text_def)

lemma append_back_text: "append_back out cs = append_text out cs"
proof (induction cs arbitrary: out)
  case (Cons c cs)
  then show ?case
    using append_text_Cons [of out c cs] by simp
qed (simp add: append_text_def)

lemma appendStr_text: "terminated s \<Longrightarrow> appendStr out s = append_text out (cstr s)"
proof (induction s arbitrary: out)
  case (Cons c s)
  then show ?case
    using append_text_Cons [of out c "cstr s"] by (cases "c = 0") (auto simp: append_text_def)
qed simp

lemma num_digit_char: "d < 16 \<Longrightarrow> num_digit (word_of_nat d) = digit_char d"
proof -
  assume "d < 16"
  then have "d \<in> set [0..<16]"
    by simp
  moreover have "list_all (\<lambda>d. num_digit (word_of_nat d) = digit_char d) [0..<16]"
    by code_simp
  ultimately show ?thesis
    by (simp add: list_all_iff)
qed

lemma num_digits_low:
  assumes "2 \<le> unat base" and "unat base \<le> 16" and "unat n < 2 ^ k"
  shows "num_digits k n base = Inr (List.map digit_char (low_digits (unat base) (unat n)))"
  using assms
proof (induction k arbitrary: n)
  case 0
  then have "n = 0"
    by (simp add: unat_eq_0)
  then show ?case
    by (simp add: num_digits.simps)
next
  case (Suc k)
  show ?case
  proof (cases "n = 0")
    case False
    have b: "unat (ucast base :: u64) = unat base"
      by simp
    have dv: "unat (n div ucast base) = unat n div unat base"
      and md: "unat (n mod ucast base) = unat n mod unat base"
      by (simp_all add: unat_div unat_mod b)
    have "unat n div unat base \<le> unat n div 2"
      using Suc.prems(1) by (simp add: div_le_mono2)
    then have lt: "unat (n div ucast base) < 2 ^ k"
      unfolding dv using Suc.prems(3) by (simp add: less_mult_imp_div_less mult.commute)
    have m: "unat n mod unat base < 16"
      using Suc.prems(1,2) mod_less_divisor [of "unat base" "unat n"] by linarith
    have "(ucast (n mod ucast base) :: u32) = word_of_nat (unat n mod unat base)"
      unfolding md [symmetric] by simp
    then have "num_digit (ucast (n mod ucast base)) = digit_char (unat n mod unat base)"
      using num_digit_char [OF m] by simp
    moreover have "base \<noteq> 0" "unat n \<noteq> 0"
      using Suc.prems(1) False by (auto simp: unat_eq_0)
    ultimately show ?thesis
      using Suc.IH [OF Suc.prems(1,2) lt] False Suc.prems(1)
      by (simp add: num_digits.simps [of "Suc k"] low_digits.simps [of "unat base" "unat n"] dv)
  qed (simp add: num_digits.simps)
qed

lemma appendNum_text:
  assumes "2 \<le> unat base" and "unat base \<le> 16"
  shows "appendNum out n base = append_text out (radix (unat base) (unat n))"
proof (cases "n = 0")
  case True
  then show ?thesis
    using assms by (simp add: appendNum_def appendChar_text radix.simps [of "unat base" 0] digit_char_def)
next
  case False
  have "unat n < 2 ^ 64"
    using unsigned_less [of n, where 'a = nat] by simp
  note num = num_digits_low [OF assms this]
  have "rev (List.map digit_char (low_digits (unat base) (unat n))) = radix (unat base) (unat n)"
    using low_digits_radix [of "unat base" "unat n"] assms(1) False by (simp add: rev_map unat_gt_0)
  then show ?thesis
    using False by (simp add: appendNum_def num append_back_text)
qed


lemma fmt_directive_piece:
  assumes "piece_ok p" and "\<not> (\<exists>c. p = Lit c)"
  shows "\<exists>d. piece_fmt p = [37, d] \<and>
    fmt_directive d (piece_args p @ r) out = bindE (append_text out (piece_text p)) (\<lambda>out'. Inr (r, out'))"
proof (cases p)
  case (PSigned v)
  have c: "bindE (append_text out [45]) (\<lambda>o1. bindE (append_text o1 t) f) = bindE (append_text out (45 # t)) f" for t f
    using append_text_append [of out "[45]" t] by (metis append_Cons append_Nil bindE_assoc)
  show ?thesis
  proof (cases "sint v < 0")
    case True
    then show ?thesis
      using PSigned c by (simp add: fmt_directive_def appendNum_text unat_uminus_neg appendChar_text)
  next
    case False
    have "nat (sint v) = unat v"
      using False by (rule nat_sint)
    then show ?thesis
      using PSigned False by (simp add: fmt_directive_def appendNum_text)
  qed
qed (use assms in \<open>auto simp: fmt_directive_def appendNum_text appendChar_text appendStr_text\<close>)

lemma fmt_loop_pieces:
  "list_all piece_ok ps \<Longrightarrow>
     fmt_loop (format_of ps) (args_of ps) out = append_text out (text_of ps)"
proof (induction ps arbitrary: out)
  case Nil
  then show ?case
    by (simp add: format_of_def text_of_def append_text_def)
next
  case (Cons p ps)
  have f: "format_of (p # ps) = piece_fmt p @ format_of ps" "args_of (p # ps) = piece_args p @ args_of ps"
    "text_of (p # ps) = piece_text p @ text_of ps"
    by (simp_all add: format_of_def args_of_def text_of_def)
  have ih: "fmt_loop (format_of ps) (args_of ps) = (\<lambda>o1. append_text o1 (text_of ps))"
    using Cons by (intro ext) simp
  show ?case
  proof (cases "\<exists>c. p = Lit c")
    case True
    then show ?thesis
      using Cons.prems f ih append_text_Cons by auto
  next
    case False
    from fmt_directive_piece [OF _ False, of "args_of ps" out] Cons.prems obtain d where
      "piece_fmt p = [37, d]" "fmt_directive d (piece_args p @ args_of ps) out =
        bindE (append_text out (piece_text p)) (\<lambda>out'. Inr (args_of ps, out'))"
      by auto
    then show ?thesis
      using f ih append_text_append by (simp add: bindE_assoc)
  qed
qed

lemma user_printf_eq:
  assumes "list_all piece_ok ps"
  shows "user_printf (format_of ps) (args_of ps) =
    (if length (text_of ps) < PAGE then Inr (text_of ps) else Inl OutOfBounds)"
proof -
  have "0 \<notin> set (piece_text p)" if "piece_ok p" for p
    using that radix_nul by (cases p) auto
  then have "0 \<notin> set (text_of ps)"
    using assms by (auto simp: text_of_def list_all_iff)
  then have "puts_bytes (text_of ps @ [0]) = Inr (text_of ps)" if "length (text_of ps) < PAGE"
    using that cstr_append_nul [of "text_of ps" "[]"] by (simp add: puts_bytes_def strlen_eq)
  then show ?thesis
    unfolding user_printf_def fmt_loop_pieces [OF assms]
    by (auto simp: append_text_def appendChar_def)
qed

text \<open>\<^verbatim>\<open>printf\<close> prints what its format means, whatever mix of conversions it has, up to 4095
  bytes; a longer text runs over the page it formats into.\<close>

theorem user_printf_formats:
  assumes "list_all piece_ok ps"
  shows "user_printf (format_of ps) (args_of ps) =
    (if length (text_of ps) < PAGE then Inr (text_of ps) else Inl OutOfBounds)"
  by (rule user_printf_eq [OF assms])

theorem user_printf_formats_witness:
  "user_printf (bytes ''x=%u, %d%%'' @ [0]) [AInt 42, AInt (- 7)] = Inr (bytes ''x=42, -7%'')"
proof -
  let ?ps = "[Lit 120, Lit 61, PUnsigned 42, Lit 44, Lit 32, PSigned (- 7), Percent]"
  have "format_of ?ps = bytes ''x=%u, %d%%'' @ [0]" "args_of ?ps = [AInt 42, AInt (- 7)]"
    "text_of ?ps = bytes ''x=42, -7%''"
    by code_simp+
  then show ?thesis
    using user_printf_formats [of ?ps] by simp
qed

end
