(* ===== verification/SerialLog.thy ===== *)
theory SerialLog
  imports Stdio
begin

text \<open>
  The kernel log, \<^verbatim>\<open>src/gen/serial.hpp\<close> in the debug build: \<^verbatim>\<open>writef\<close> and \<^verbatim>\<open>logf\<close>
  format into a buffer of 256 bytes on the stack and send it over the serial port. The state of
  the port is left out, its transmitter always gets ready; the result of an operation is the bytes
  sent. Literals and strings stop at the end of the buffer, numbers do not.
\<close>

abbreviation SBUF :: nat where "SBUF \<equiv> 256"

definition sbuf_put :: "u8 list \<Rightarrow> u8 \<Rightarrow> u8 list exec" where
  "sbuf_put buf c = (if length buf < SBUF then Inr (buf @ [c]) else Inl OutOfBounds)"

fun serial_str :: "u8 list \<Rightarrow> u8 list \<Rightarrow> u8 list exec" where
  "serial_str buf [] = Inl OutOfBounds"
| "serial_str buf (c # s) =
     (if c \<noteq> 0 \<and> length buf < SBUF - 1 then bindE (sbuf_put buf c) (\<lambda>b. serial_str b s) else Inr buf)"

text \<open>The hexadecimal digits in \<^verbatim>\<open>tmp[16]\<close>, lowest first; the fuel is the room left in it.\<close>

fun serial_hex :: "nat \<Rightarrow> u32 \<Rightarrow> u8 list exec" where
  "serial_hex k n =
     (if n = 0 then Inr []
      else case k of 0 \<Rightarrow> Inl OutOfBounds
        | Suc k' \<Rightarrow> bindE (serial_hex k' (drop_bit 4 n)) (\<lambda>tmp.
            let digit = n AND 0xF in
            Inr ((if digit < 10 then ucast (48 + digit) else ucast (65 + digit - 10)) # tmp)))"

declare serial_hex.simps [simp del]

fun sbuf_puts :: "u8 list \<Rightarrow> u8 list \<Rightarrow> u8 list exec" where
  "sbuf_puts buf [] = Inr buf"
| "sbuf_puts buf (c # cs) = bindE (sbuf_put buf c) (\<lambda>b. sbuf_puts b cs)"

definition serial_directive :: "u8 \<Rightarrow> farg list \<Rightarrow> u8 list \<Rightarrow> (farg list \<times> u8 list) exec" where
  "serial_directive d args buf =
     (if d = 115 then
        (case args of AStr s # r \<Rightarrow> bindE (serial_str buf s) (\<lambda>b. Inr (r, b)) | _ \<Rightarrow> Inl OutOfBounds)
      else if d = 99 then
        (case args of AInt v # r \<Rightarrow> bindE (sbuf_put buf (ucast v)) (\<lambda>b. Inr (r, b)) | _ \<Rightarrow> Inl OutOfBounds)
      else if d = 117 then
        (case args of AInt n # r \<Rightarrow>
           bindE (if n = 0 then Inr [48] else dec_digits 16 n) (\<lambda>tmp.
           bindE (sbuf_puts buf (rev tmp)) (\<lambda>b. Inr (r, b))) | _ \<Rightarrow> Inl OutOfBounds)
      else if d = 120 then
        (case args of AInt n # r \<Rightarrow>
           bindE (if n = 0 then Inr [48] else serial_hex 16 n) (\<lambda>tmp.
           bindE (sbuf_puts buf (rev tmp)) (\<lambda>b. Inr (r, b))) | _ \<Rightarrow> Inl OutOfBounds)
      else Inr (args, buf))"

fun serial_loop :: "u8 list \<Rightarrow> farg list \<Rightarrow> u8 list \<Rightarrow> u8 list exec" where
  "serial_loop [] args buf = Inl OutOfBounds"
| "serial_loop (c # cs) args buf =
     (if c = 0 \<or> \<not> length buf < SBUF - 1 then Inr buf
      else if c \<noteq> 37 then bindE (sbuf_put buf c) (\<lambda>b. serial_loop cs args b)
      else (case cs of [] \<Rightarrow> Inl OutOfBounds
        | d # ds \<Rightarrow> bindE (serial_directive d args buf) (\<lambda>(args', b). serial_loop ds args' b)))"

text \<open>\<^verbatim>\<open>writes\<close> sends the bytes up to the terminator.\<close>

definition serial_writes :: "u8 list \<Rightarrow> u8 list exec" where
  "serial_writes s = (if terminated s then Inr (cstr s) else Inl OutOfBounds)"

definition serial_log :: "u8 list \<Rightarrow> u8 list exec" where
  "serial_log mes = bindE (serial_writes mes) (\<lambda>s. Inr (bytes ''[LOG]: '' @ s @ [10]))"

definition serial_writef :: "u8 list \<Rightarrow> farg list \<Rightarrow> u8 list exec" where
  "serial_writef fmt args =
     bindE (serial_loop fmt args []) (\<lambda>buf. bindE (sbuf_put buf 0) (\<lambda>b.
     bindE (serial_writes b) (\<lambda>s. Inr (s @ [10]))))"

definition serial_logf :: "u8 list \<Rightarrow> farg list \<Rightarrow> u8 list exec" where
  "serial_logf fmt args =
     bindE (serial_loop fmt args []) (\<lambda>buf. bindE (sbuf_put buf 0) (\<lambda>b.
     bindE (serial_writes b) (\<lambda>s. Inr (bytes ''[LOG]: '' @ s @ [10]))))"

section \<open>What is sent\<close>

text \<open>The conversions this formatter has: no percent sign, no signed numbers, capital digits.\<close>

fun serial_ok :: "piece \<Rightarrow> bool" where
  "serial_ok Percent \<longleftrightarrow> False"
| "serial_ok (PSigned v) \<longleftrightarrow> False"
| "serial_ok p \<longleftrightarrow> piece_ok p"

fun serial_text :: "piece \<Rightarrow> u8 list" where
  "serial_text (PHex v) = List.map toUpper (radix 16 (unat v))"
| "serial_text p = piece_text p"

fun numeric :: "piece \<Rightarrow> bool" where
  "numeric (PUnsigned v) \<longleftrightarrow> True"
| "numeric (PHex v) \<longleftrightarrow> True"
| "numeric p \<longleftrightarrow> False"

lemma sbuf_puts_eq:
  "length buf \<le> SBUF \<Longrightarrow>
     sbuf_puts buf cs = (if length buf + length cs \<le> SBUF then Inr (buf @ cs) else Inl OutOfBounds)"
  by (induction cs arbitrary: buf) (auto simp: sbuf_put_def)

lemma serial_str_eq:
  "terminated s \<Longrightarrow> length buf < SBUF \<Longrightarrow> serial_str buf s = Inr (buf @ take (SBUF - 1 - length buf) (cstr s))"
proof (induction s arbitrary: buf)
  case (Cons c s)
  show ?case
  proof (cases "c \<noteq> 0 \<and> length buf < SBUF - 1")
    case True
    then have "SBUF - 1 - length buf = Suc (SBUF - 1 - length (buf @ [c]))"
      by (simp, linarith)
    then show ?thesis
      using Cons True by (simp add: sbuf_put_def)
  qed (use Cons in auto)
qed simp

lemma hex_digit:
  "(let digit = n AND 0xF in if digit < 10 then ucast (48 + digit :: u32) else ucast (65 + digit - 10)) =
     toUpper (digit_char (unat n mod 16))"
proof -
  have "n AND 0xF = take_bit 4 n"
    by (simp add: take_bit_eq_mask mask_eq_exp_minus_1)
  then have "n AND 0xF = word_of_nat (unat n mod 16)"
    by (simp add: take_bit_eq_mod word_arith_nat_mod)
  moreover have "unat n mod 16 \<in> set [0..<16]"
    by simp
  moreover have "list_all (\<lambda>d. (let digit = word_of_nat d in if digit < 10 then ucast (48 + digit :: u32)
      else ucast (65 + digit - 10)) = toUpper (digit_char d)) [0..<16]"
    by code_simp
  ultimately show ?thesis
    by (simp only: list_all_iff)
qed

lemma serial_hex_low:
  "unat n < 16 ^ k \<Longrightarrow> serial_hex k n = Inr (List.map (toUpper \<circ> digit_char) (low_digits 16 (unat n)))"
proof (induction k arbitrary: n)
  case 0
  then show ?case
    by (simp add: serial_hex.simps unat_eq_0)
next
  case (Suc k)
  have d: "unat (drop_bit 4 n) = unat n div 16"
    by (simp add: drop_bit_eq_div unat_div)
  then have "unat (drop_bit 4 n) < 16 ^ k"
    using Suc.prems by (simp add: less_mult_imp_div_less mult.commute)
  note ih = Suc.IH [OF this]
  show ?case
  proof (cases "n = 0")
    case False
    then show ?thesis
      using ih hex_digit [of n] by (simp add: serial_hex.simps [of "Suc k"] low_digits.simps [of 16 "unat n"] d unat_eq_0 Let_def)
  qed (simp add: serial_hex.simps)
qed


text \<open>The loop over the pieces of a format.\<close>

fun serial_fold :: "u8 list \<Rightarrow> piece list \<Rightarrow> u8 list exec" where
  "serial_fold buf [] = Inr buf"
| "serial_fold buf (p # ps) =
     (if \<not> length buf < SBUF - 1 then Inr buf
      else if numeric p then
        (if length buf + length (serial_text p) \<le> SBUF then serial_fold (buf @ serial_text p) ps
         else Inl OutOfBounds)
      else serial_fold (buf @ take (SBUF - 1 - length buf) (serial_text p)) ps)"

lemma radix_0: "radix 10 0 = [48]" "List.map toUpper (radix 16 0) = [48]"
  by (simp_all add: radix.simps digit_char_def toUpper_def)

lemma serial_directive_piece:
  assumes "serial_ok p" and "\<not> (\<exists>c. p = Lit c)" and "length buf < SBUF - 1"
  shows "\<exists>d. piece_fmt p = [37, d] \<and> serial_directive d (piece_args p @ r) buf =
    (if numeric p then (if length buf + length (serial_text p) \<le> SBUF then Inr (r, buf @ serial_text p)
                        else Inl OutOfBounds)
     else Inr (r, buf @ take (SBUF - 1 - length buf) (serial_text p)))"
proof (cases p)
  case (PUnsigned v)
  have "unat v < 10 ^ 16"
    using unsigned_less [of v, where 'a = nat] by simp
  note low = dec_digits_low [OF this]
  have "rev (List.map digit_char (low_digits 10 (unat v))) = radix 10 (unat v)" if "v \<noteq> 0"
    using low_digits_radix [of 10 "unat v"] that by (simp add: rev_map unat_gt_0)
  then show ?thesis
    using PUnsigned low assms(3) sbuf_puts_eq [of buf]
    by (cases "v = 0") (simp_all add: serial_directive_def radix_0 length_radix unat_gt_0)
next
  case (PHex v)
  have "unat v < 16 ^ 16"
    using unsigned_less [of v, where 'a = nat] by simp
  note low = serial_hex_low [OF this]
  have "rev (List.map (toUpper \<circ> digit_char) (low_digits 16 (unat v))) = List.map toUpper (radix 16 (unat v))"
    if "v \<noteq> 0"
    using arg_cong [OF low_digits_radix [of 16 "unat v"], of "List.map toUpper"] that
    by (simp add: rev_map unat_gt_0)
  then show ?thesis
    using PHex low assms(3) sbuf_puts_eq [of buf]
    by (cases "v = 0") (simp_all add: serial_directive_def radix_0 length_radix unat_gt_0)
next
  case (PStr s)
  then show ?thesis
    using assms serial_str_eq [of s buf] by (simp add: serial_directive_def)
next
  case (PChar c)
  have "take (SBUF - 1 - length buf) [c] = [c]"
    using assms(3) by (cases "SBUF - 1 - length buf") simp_all
  then show ?thesis
    using PChar assms by (simp add: serial_directive_def sbuf_put_def)
qed (use assms in auto)

lemma serial_loop_pieces:
  "list_all serial_ok ps \<Longrightarrow> serial_loop (format_of ps) (args_of ps) buf = serial_fold buf ps"
proof (induction ps arbitrary: buf)
  case Nil
  then show ?case
    by (simp add: format_of_def)
next
  case (Cons p ps)
  have f: "format_of (p # ps) = piece_fmt p @ format_of ps" "args_of (p # ps) = piece_args p @ args_of ps"
    by (simp_all add: format_of_def args_of_def)
  have ih: "serial_loop (format_of ps) (args_of ps) = (\<lambda>b. serial_fold b ps)"
    using Cons by (intro ext) simp
  show ?case
  proof (cases "\<not> length buf < SBUF - 1")
    case True
    then show ?thesis
      unfolding f by (cases p) auto
  next
    case small: False
    show ?thesis
    proof (cases "\<exists>c. p = Lit c")
      case True
      then obtain c where c: "p = Lit c" "c \<noteq> 0" "c \<noteq> 37"
        using Cons.prems by auto
      have "take (SBUF - 1 - length buf) [c] = [c]"
        using small by (cases "SBUF - 1 - length buf") simp_all
      then show ?thesis
        unfolding f using c small ih by (simp add: sbuf_put_def)
    next
      case False
      from serial_directive_piece [OF _ False, of buf "args_of ps"] Cons.prems small obtain d where
        "piece_fmt p = [37, d]" "serial_directive d (piece_args p @ args_of ps) buf =
          (if numeric p then (if length buf + length (serial_text p) \<le> SBUF
             then Inr (args_of ps, buf @ serial_text p) else Inl OutOfBounds)
           else Inr (args_of ps, buf @ take (SBUF - 1 - length buf) (serial_text p)))"
        by auto
      then show ?thesis
        using f ih small by auto
    qed
  qed
qed

definition serial_texts :: "piece list \<Rightarrow> u8 list" where
  "serial_texts ps = concat (List.map serial_text ps)"

lemma serial_fold_text:
  assumes "length buf \<le> SBUF - 1"
    and "(\<exists>p \<in> set ps. numeric p) \<longrightarrow> length buf + length (serial_texts ps) \<le> SBUF - 1"
  shows "serial_fold buf ps = Inr (take (SBUF - 1) (buf @ serial_texts ps))"
  using assms
proof (induction ps arbitrary: buf)
  case (Cons p ps)
  have t: "serial_texts (p # ps) = serial_text p @ serial_texts ps"
    by (simp add: serial_texts_def)
  show ?case
  proof (cases "length buf < SBUF - 1")
    case True
    show ?thesis
    proof (cases "\<exists>p \<in> set (p # ps). numeric p")
      case num: True
      then have len: "length buf + length (serial_text p) + length (serial_texts ps) \<le> SBUF - 1"
        using Cons.prems(2) t by simp
      then have "serial_fold (buf @ serial_text p) ps = Inr (take (SBUF - 1) (buf @ serial_texts (p # ps)))"
        using Cons.IH [of "buf @ serial_text p"] t by simp
      then show ?thesis
        using True len by simp
    next
      case False
      let ?b = "buf @ take (SBUF - 1 - length buf) (serial_text p)"
      have "serial_fold ?b ps = Inr (take (SBUF - 1) (?b @ serial_texts ps))"
        using False True by (intro Cons.IH) auto
      moreover have "take (SBUF - 1) (?b @ serial_texts ps) = take (SBUF - 1) (buf @ serial_texts (p # ps))"
        using True by (auto simp: t min_def)
      ultimately show ?thesis
        using True False by simp
    qed
  next
    case False
    then show ?thesis
      using Cons.prems(1) by simp
  qed
qed (simp add: serial_texts_def)

lemma toUpper_nul: "toUpper c = 0 \<Longrightarrow> c = 0"
proof -
  assume "toUpper c = 0"
  moreover have "c \<in> word_of_nat ` set [0..<256]"
    using unsigned_less [of c, where 'a = nat]
    by (intro image_eqI [of _ _ "unat c"]) simp_all
  moreover have "list_all (\<lambda>n. toUpper (word_of_nat n) = 0 \<longrightarrow> (word_of_nat n :: u8) = 0) [0..<256]"
    by code_simp
  ultimately show ?thesis
    by (auto simp: list_all_iff)
qed

lemma serial_texts_nul: "list_all serial_ok ps \<Longrightarrow> 0 \<notin> set (serial_texts ps)"
proof -
  have "0 \<notin> set (serial_text p)" if "serial_ok p" for p
    using that radix_nul by (cases p) (auto dest!: toUpper_nul)
  then show "list_all serial_ok ps \<Longrightarrow> 0 \<notin> set (serial_texts ps)"
    by (auto simp: serial_texts_def list_all_iff)
qed

lemma serial_logf_eq:
  assumes "list_all serial_ok ps" and "\<not> list_ex numeric ps \<or> length (serial_texts ps) \<le> SBUF - 1"
  shows "serial_logf (format_of ps) (args_of ps) =
    Inr (bytes ''[LOG]: '' @ take (SBUF - 1) (serial_texts ps) @ [10])"
proof -
  have "serial_fold [] ps = Inr (take (SBUF - 1) (serial_texts ps))"
    using assms(2) by (subst serial_fold_text) (auto simp: list_ex_iff)
  moreover have "0 \<notin> set (take (SBUF - 1) (serial_texts ps))"
    using serial_texts_nul [OF assms(1)] by (meson in_set_takeD)
  ultimately show ?thesis
    by (simp add: serial_logf_def serial_loop_pieces [OF assms(1)] sbuf_put_def serial_writes_def cstr_append_nul)
qed

text \<open>\<^verbatim>\<open>logf\<close> sends the text its format means between the prefix and a newline, cut to 255
  bytes when no number is in it; with numbers in it this holds as long as the text fits.\<close>

theorem serial_logf_sends:
  assumes "list_all serial_ok ps" and "\<not> list_ex numeric ps \<or> length (serial_texts ps) \<le> SBUF - 1"
  shows "serial_logf (format_of ps) (args_of ps) =
    Inr (bytes ''[LOG]: '' @ take (SBUF - 1) (serial_texts ps) @ [10])"
  by (rule serial_logf_eq [OF assms])

theorem serial_logf_sends_witness:
  "serial_logf (bytes ''pid %u at %x'' @ [0]) [AInt 7, AInt 0xBEEF] = Inr (bytes ''[LOG]: pid 7 at BEEF'' @ [10])"
proof -
  let ?ps = "[Lit 112, Lit 105, Lit 100, Lit 32, PUnsigned 7, Lit 32, Lit 97, Lit 116, Lit 32, PHex 0xBEEF]"
  have "format_of ?ps = bytes ''pid %u at %x'' @ [0]" "args_of ?ps = [AInt 7, AInt 0xBEEF]"
    "serial_texts ?ps = bytes ''pid 7 at BEEF''"
    by (simp_all add: format_of_def args_of_def serial_texts_def radix.simps digit_char_def toUpper_def)
  moreover have "list_all serial_ok ?ps"
    by code_simp
  ultimately show ?thesis
    using serial_logf_sends [of ?ps] by simp
qed

text \<open>The digits of a number are stored without looking at the end of the buffer: a number
  behind a string of almost 255 bytes makes \<^verbatim>\<open>logf\<close> write past its 256 bytes of stack, and this
  happens exactly when string and number are longer than 255 bytes together.\<close>

theorem serial_logf_overruns:
  assumes "terminated s" and "length (cstr s) < SBUF - 1"
  shows "serial_logf (bytes ''%s%u'' @ [0]) [AStr s, AInt v] = Inl OutOfBounds \<longleftrightarrow>
    SBUF - 1 < length (cstr s) + length (radix 10 (unat v))"
proof -
  have ok: "list_all serial_ok [PStr s, PUnsigned v]"
    using assms by simp
  have "format_of [PStr s, PUnsigned v] = bytes ''%s%u'' @ [0]" "args_of [PStr s, PUnsigned v] = [AStr s, AInt v]"
    by (simp_all add: format_of_def args_of_def)
  note loop = serial_loop_pieces [OF ok, unfolded this]
  have "0 \<notin> set (cstr s @ radix 10 (unat v))"
    using radix_nul by simp
  then have "cstr ((cstr s @ radix 10 (unat v)) @ [0]) = cstr s @ radix 10 (unat v)"
    by (rule cstr_append_nul)
  then show ?thesis
    unfolding serial_logf_def loop using assms by (auto simp: sbuf_put_def serial_writes_def)
qed

theorem serial_logf_overruns_witness:
  "serial_logf (bytes ''%s%u'' @ [0]) [AStr (replicate 250 65 @ [0]), AInt 1000000] = Inl OutOfBounds"
proof -
  have c: "cstr (replicate 250 65 @ [0]) = replicate 250 65"
    by (rule cstr_append_nul) simp
  have "length (radix 10 (unat (1000000 :: u32))) = 7"
    by (simp add: radix.simps)
  then show ?thesis
    using serial_logf_overruns [of "replicate 250 65 @ [0]" 1000000] unfolding c by simp
qed

end
