(* ===== verification/Str.thy ===== *)
theory Str
  imports Radix
begin

text \<open>
  The kernel's string class, \<^verbatim>\<open>src/lib/str.hpp\<close>: a terminated buffer with its length and
  capacity. The memory a fresh allocation holds is an argument of the operations, \<open>al n\<close> the
  content of the next block of \<open>n\<close> bytes; allocations are taken to succeed, and freeing the old
  buffer is not part of the state.
\<close>

record kstr =
  s_buf :: "u8 list"
  s_len :: u32
  s_cap :: u32

definition MINIMUM_STR_SIZE :: u32 where "MINIMUM_STR_SIZE = 5"

definition str_new :: "(nat \<Rightarrow> u8 list) \<Rightarrow> kstr exec" where
  "str_new al = bindE (memset (al 5) 0 5) (\<lambda>b. Inr \<lparr>s_buf = b, s_len = 0, s_cap = MINIMUM_STR_SIZE\<rparr>)"

definition str_from :: "(nat \<Rightarrow> u8 list) \<Rightarrow> u8 list \<Rightarrow> kstr exec" where
  "str_from al s =
     bindE (strlen s) (\<lambda>n.
     let allocSize = (if n \<ge> MINIMUM_STR_SIZE then n + MINIMUM_STR_SIZE else MINIMUM_STR_SIZE) in
     bindE (strcpy (al (unat allocSize)) s) (\<lambda>b. Inr \<lparr>s_buf = b, s_len = n, s_cap = allocSize\<rparr>))"

definition str_grow :: "(nat \<Rightarrow> u8 list) \<Rightarrow> kstr \<Rightarrow> kstr exec" where
  "str_grow al st =
     bindE (strcpy (al (unat (s_cap st * 2))) (s_buf st)) (\<lambda>b. Inr (st\<lparr>s_buf := b, s_cap := s_cap st * 2\<rparr>))"

text \<open>
  The loop of \<^verbatim>\<open>operator+=(const char*)\<close>; the capacity doubles until it is large enough, which
  takes less than 32 rounds unless it wraps around.
\<close>

fun str_reserve :: "nat \<Rightarrow> (nat \<Rightarrow> u8 list) \<Rightarrow> kstr \<Rightarrow> u32 \<Rightarrow> kstr exec" where
  "str_reserve k al st n =
     (if s_len st + n \<ge> s_cap st
      then (case k of 0 \<Rightarrow> Inl Hang | Suc k' \<Rightarrow> bindE (str_grow al st) (\<lambda>st'. str_reserve k' al st' n))
      else Inr st)"

declare str_reserve.simps [simp del]

definition str_add :: "(nat \<Rightarrow> u8 list) \<Rightarrow> kstr \<Rightarrow> u8 list \<Rightarrow> kstr exec" where
  "str_add al st s =
     bindE (strlen s) (\<lambda>n.
     bindE (str_reserve 32 al st n) (\<lambda>st1.
     bindE (stradd (s_buf st1) s) (\<lambda>b. Inr (st1\<lparr>s_buf := b, s_len := s_len st1 + n\<rparr>))))"

definition poke :: "u8 list \<Rightarrow> u32 \<Rightarrow> u8 \<Rightarrow> u8 list exec" where
  "poke b i c = (if unat i < length b then Inr (b[unat i := c]) else Inl OutOfBounds)"

definition str_addc :: "(nat \<Rightarrow> u8 list) \<Rightarrow> kstr \<Rightarrow> u8 \<Rightarrow> kstr exec" where
  "str_addc al st c =
     bindE (strlen (s_buf st)) (\<lambda>curLen.
     let st0 = st\<lparr>s_len := s_len st + 1\<rparr> in
     bindE (if s_len st0 \<ge> s_cap st0 then str_grow al st0 else Inr st0) (\<lambda>st1.
     bindE (poke (s_buf st1) curLen c) (\<lambda>b1.
     bindE (poke b1 (curLen + 1) 0) (\<lambda>b2. Inr (st1\<lparr>s_buf := b2\<rparr>)))))"

text \<open>Characters one by one: \<^verbatim>\<open>operator+=(StringView)\<close> and the digits of a number.\<close>

fun str_addcs :: "(nat \<Rightarrow> u8 list) \<Rightarrow> kstr \<Rightarrow> u8 list \<Rightarrow> kstr exec" where
  "str_addcs al st [] = Inr st"
| "str_addcs al st (c # cs) = bindE (str_addc al st c) (\<lambda>st'. str_addcs al st' cs)"

definition str_add_str :: "(nat \<Rightarrow> u8 list) \<Rightarrow> kstr \<Rightarrow> kstr \<Rightarrow> kstr exec" where
  "str_add_str al st s = str_add al st (s_buf s)"

definition str_clear :: "kstr \<Rightarrow> kstr exec" where
  "str_clear st = bindE (poke (s_buf st) 0 0) (\<lambda>b. Inr (st\<lparr>s_len := 0, s_buf := b\<rparr>))"

definition str_fromi :: "(nat \<Rightarrow> u8 list) \<Rightarrow> kstr \<Rightarrow> u32 \<Rightarrow> kstr exec" where
  "str_fromi al st n =
     bindE (str_clear st) (\<lambda>st0.
     if n = 0 then str_addc al st0 48
     else bindE (if sint n < 0 then str_addc al st0 45 else Inr st0) (\<lambda>st1.
          let n' = (if sint n < 0 then - n else n) in
          bindE (if sint n' > 0 then dec_digits 12 n' else Inr []) (\<lambda>tmp. str_addcs al st1 (rev tmp))))"

definition str_fromu :: "(nat \<Rightarrow> u8 list) \<Rightarrow> kstr \<Rightarrow> u32 \<Rightarrow> kstr exec" where
  "str_fromu al st n =
     bindE (str_clear st) (\<lambda>st0.
     if n = 0 then str_addc al st0 48
     else bindE (dec_digits 11 n) (\<lambda>tmp. str_addcs al st0 (rev tmp)))"

section \<open>The invariant\<close>

definition str_inv :: "kstr \<Rightarrow> bool" where
  "str_inv st \<longleftrightarrow> length (s_buf st) = unat (s_cap st) \<and> terminated (s_buf st) \<and>
     length (cstr (s_buf st)) = unat (s_len st) \<and> s_len st < s_cap st \<and> MINIMUM_STR_SIZE \<le> s_cap st"

definition content :: "kstr \<Rightarrow> u8 list" where
  "content st = cstr (s_buf st)"

definition sane_alloc :: "(nat \<Rightarrow> u8 list) \<Rightarrow> bool" where
  "sane_alloc al \<longleftrightarrow> (\<forall>n. length (al n) = n)"

lemma content_length: "str_inv st \<Longrightarrow> length (content st) = unat (s_len st)"
  by (simp add: str_inv_def content_def)

lemma str_inv_cap: "str_inv st \<Longrightarrow> 5 \<le> unat (s_cap st) \<and> length (content st) < unat (s_cap st)"
  by (simp add: str_inv_def content_def MINIMUM_STR_SIZE_def word_le_nat_alt word_less_nat_alt)

lemma str_new_spec: "sane_alloc al \<Longrightarrow> \<exists>st. str_new al = Inr st \<and> str_inv st \<and> content st = []"
proof -
  assume "sane_alloc al"
  moreover have "replicate 5 (0 :: u8) = [0, 0, 0, 0, 0]"
    by (simp add: eval_nat_numeral)
  ultimately show ?thesis
    by (simp add: str_new_def memset_def sane_alloc_def memset_loop_eq str_inv_def content_def MINIMUM_STR_SIZE_def)
qed

lemma grown_buffer:
  assumes "terminated b" and "length (cstr b) < n" and "length d = n"
  obtains b' where "strcpy d b = Inr b'" and "length b' = n" and "terminated b'" and "cstr b' = cstr b"
proof
  show "strcpy d b = Inr (cstr b @ 0 # drop (Suc (length (cstr b))) d)"
    using assms by (simp add: strcpy_eq)
  show "cstr (cstr b @ 0 # drop (Suc (length (cstr b))) d) = cstr b"
    by (rule cstr_append_nul) simp
qed (use assms in auto)

text \<open>Growing while the buffer may be full.\<close>

lemma str_grow_spec:
  assumes al: "sane_alloc al" and b: "length (s_buf st) = unat (s_cap st)" "terminated (s_buf st)"
    and c: "length (cstr (s_buf st)) < unat (s_cap st)" "unat (s_cap st) < 2 ^ 31"
  obtains b' where "str_grow al st = Inr (st\<lparr>s_buf := b', s_cap := s_cap st * 2\<rparr>)"
    and "length b' = unat (s_cap st * 2)" and "terminated b'" and "cstr b' = cstr (s_buf st)"
    and "unat (s_cap st * 2) = 2 * unat (s_cap st)"
proof -
  have d: "unat (s_cap st * 2) = 2 * unat (s_cap st)"
    using c(2) by (simp add: unat_word_ariths)
  have "length (cstr (s_buf st)) < unat (s_cap st * 2)" "length (al (unat (s_cap st * 2))) = unat (s_cap st * 2)"
    using c(1) d al by (simp_all add: sane_alloc_def)
  from grown_buffer [OF b(2) this] obtain b' where "strcpy (al (unat (s_cap st * 2))) (s_buf st) = Inr b'"
    "length b' = unat (s_cap st * 2)" "terminated b'" "cstr b' = cstr (s_buf st)"
    by blast
  then show thesis
    using that [of b'] d by (simp add: str_grow_def)
qed

lemma str_reserve_spec:
  assumes "sane_alloc al" and "str_inv st" and "unat (s_len st) + unat n < 2 ^ 30"
    and "unat (s_len st) + unat n < unat (s_cap st) * 2 ^ k"
  shows "\<exists>st'. str_reserve k al st n = Inr st' \<and> str_inv st' \<and> content st' = content st \<and> s_len st' = s_len st \<and>
     unat (s_len st) + unat n < unat (s_cap st')"
  using assms
proof (induction k arbitrary: st)
  have u: "unat (s_len st + n) = unat (s_len st) + unat n" if "unat (s_len st) + unat n < 2 ^ 30" for st
    using that by (simp add: unat_word_ariths)
  {
    case 0
    then show ?case
      using u [of st] by (simp add: str_reserve.simps word_le_nat_alt)
  next
    case (Suc k)
    show ?case
    proof (cases "s_len st + n \<ge> s_cap st")
      case True
      then have ge: "unat (s_cap st) \<le> unat (s_len st) + unat n"
        using u [of st] Suc.prems(3) by (simp add: word_le_nat_alt)
      have c: "length (s_buf st) = unat (s_cap st)" "terminated (s_buf st)"
        "length (cstr (s_buf st)) < unat (s_cap st)" "unat (s_cap st) < 2 ^ 31"
        using Suc.prems(2,3) ge str_inv_cap [of st] by (simp_all add: str_inv_def content_def)
      from str_grow_spec [OF Suc.prems(1) c] obtain b' where
        g: "str_grow al st = Inr (st\<lparr>s_buf := b', s_cap := s_cap st * 2\<rparr>)" (is "_ = Inr ?st")
        "length b' = unat (s_cap st * 2)" "terminated b'" "cstr b' = cstr (s_buf st)"
        "unat (s_cap st * 2) = 2 * unat (s_cap st)"
        by blast
      have inv: "str_inv ?st" "content ?st = content st"
        using Suc.prems(2) g by (auto simp: str_inv_def content_def MINIMUM_STR_SIZE_def word_le_nat_alt word_less_nat_alt)
      have "unat (s_len ?st) + unat n < 2 ^ 30" "unat (s_len ?st) + unat n < unat (s_cap ?st) * 2 ^ k"
        using Suc.prems(3,4) g(5) by simp_all
      from Suc.IH [OF Suc.prems(1) inv(1) this] show ?thesis
        using True g(1) inv(2) by (auto simp: str_reserve.simps [of "Suc k" al st])
    next
      case False
      then show ?thesis
        using Suc.prems u [of st] by (simp add: str_reserve.simps [of "Suc k"] word_le_nat_alt)
    qed
  }
qed


abbreviation STR_MAX :: nat where "STR_MAX \<equiv> 2 ^ 30"

lemma str_add_spec:
  assumes al: "sane_alloc al" and inv: "str_inv st" and s: "terminated s"
    and len: "length (content st) + length (cstr s) < STR_MAX"
  shows "\<exists>st'. str_add al st s = Inr st' \<and> str_inv st' \<and> content st' = content st @ cstr s"
proof -
  let ?n = "word_of_nat (length (cstr s)) :: u32"
  have n: "unat ?n = length (cstr s)"
    using len by simp
  have l: "unat (s_len st) + unat ?n < 2 ^ 30"
    using len content_length [OF inv] n by simp
  moreover have "unat (s_len st) + unat ?n < unat (s_cap st) * 2 ^ 32"
    using l str_inv_cap [OF inv] by simp
  ultimately obtain st1 where st1: "str_reserve 32 al st ?n = Inr st1" "str_inv st1" "content st1 = content st"
    "s_len st1 = s_len st" "unat (s_len st) + unat ?n < unat (s_cap st1)"
    using str_reserve_spec [OF al inv] by blast
  let ?b = "cstr (s_buf st1) @ cstr s @ 0 # drop (Suc (length (cstr (s_buf st1)) + length (cstr s))) (s_buf st1)"
  have b1: "terminated (s_buf st1)" "length (cstr (s_buf st1)) = unat (s_len st)" "length (s_buf st1) = unat (s_cap st1)"
    using st1(2,4) by (simp_all add: str_inv_def)
  then have add: "stradd (s_buf st1) s = Inr ?b"
    using strcat_eq [OF b1(1) s] st1(5) n by (simp add: strcat_stradd)
  have "0 \<notin> set (cstr (s_buf st1) @ cstr s)"
    by simp
  from cstr_append_nul [OF this] have c: "cstr ?b = cstr (s_buf st1) @ cstr s"
    by simp
  have u: "unat (s_len st + ?n) = unat (s_len st) + length (cstr s)"
    using l n by (simp add: unat_word_ariths)
  let ?st = "st1\<lparr>s_buf := ?b, s_len := s_len st1 + ?n\<rparr>"
  have "length ?b = unat (s_cap st1)"
    using b1 st1(5) n by simp
  then have "str_inv ?st" "content ?st = content st @ cstr s"
    using st1 b1 c u n by (simp_all add: str_inv_def content_def word_less_nat_alt)
  moreover have "str_add al st s = Inr ?st"
    using s st1(1) add by (simp add: str_add_def strlen_eq)
  ultimately show ?thesis
    by blast
qed

lemma list_update_terminator:
  assumes "terminated b" and "Suc (length (cstr b)) < length b" and "c \<noteq> 0"
  shows "cstr (b[length (cstr b) := c, Suc (length (cstr b)) := 0]) = cstr b @ [c]"
    and "terminated (b[length (cstr b) := c, Suc (length (cstr b)) := 0])"
proof -
  obtain t where t: "b = cstr b @ 0 # t"
    using terminated_split [OF assms(1)] by blast
  have "length b = length (cstr b) + Suc (length t)"
    using arg_cong [OF t, of length] by simp
  then have "t \<noteq> []"
    using assms(2) by auto
  then obtain x r where r: "t = x # r"
    by (cases t) auto
  have "(p @ 0 # x # r)[length p := c, Suc (length p) := 0] = (p @ [c]) @ 0 # r" for p
    by (induction p) simp_all
  then have e: "b[length (cstr b) := c, Suc (length (cstr b)) := 0] = (cstr b @ [c]) @ 0 # r"
    using t r by metis
  show "cstr (b[length (cstr b) := c, Suc (length (cstr b)) := 0]) = cstr b @ [c]"
    unfolding e by (rule cstr_append_nul) (use assms(3) in auto)
  show "terminated (b[length (cstr b) := c, Suc (length (cstr b)) := 0])"
    unfolding e by simp
qed

lemma str_addc_spec:
  assumes al: "sane_alloc al" and inv: "str_inv st" and c: "c \<noteq> 0"
    and len: "length (content st) + 1 < STR_MAX"
  shows "\<exists>st'. str_addc al st c = Inr st' \<and> str_inv st' \<and> content st' = content st @ [c]"
proof -
  let ?n = "length (content st)" and ?st0 = "st\<lparr>s_len := s_len st + 1\<rparr>"
  have n: "unat (s_len st) = ?n" "unat (s_len st + 1) = ?n + 1"
    using content_length [OF inv] len by (simp_all add: unat_word_ariths)
  have inv0: "length (s_buf ?st0) = unat (s_cap ?st0)" "terminated (s_buf ?st0)"
    "length (cstr (s_buf ?st0)) < unat (s_cap ?st0)" "cstr (s_buf ?st0) = content st"
    using inv str_inv_cap [OF inv] by (simp_all add: str_inv_def content_def)
  have "\<exists>st1. (if s_len ?st0 \<ge> s_cap ?st0 then str_grow al ?st0 else Inr ?st0) = Inr st1 \<and>
      length (s_buf st1) = unat (s_cap st1) \<and> terminated (s_buf st1) \<and> cstr (s_buf st1) = content st \<and>
      ?n + 1 < unat (s_cap st1) \<and> s_len st1 = s_len st + 1 \<and> 5 \<le> unat (s_cap st1)"
  proof (cases "s_len ?st0 \<ge> s_cap ?st0")
    case True
    then have "unat (s_cap ?st0) < 2 ^ 31"
      using n len by (simp add: word_le_nat_alt)
    from str_grow_spec [OF al inv0(1-3) this] obtain b' where
      "str_grow al ?st0 = Inr (?st0\<lparr>s_buf := b', s_cap := s_cap ?st0 * 2\<rparr>)" "length b' = unat (s_cap ?st0 * 2)"
      "terminated b'" "cstr b' = cstr (s_buf ?st0)" "unat (s_cap ?st0 * 2) = 2 * unat (s_cap ?st0)"
      by blast
    then show ?thesis
      using True inv0 str_inv_cap [OF inv] by auto
  next
    case False
    then have "?n + 1 < unat (s_cap ?st0)"
      using n by (simp add: word_le_nat_alt)
    then show ?thesis
      using False inv0 str_inv_cap [OF inv] by auto
  qed
  then obtain st1 where st1: "(if s_len ?st0 \<ge> s_cap ?st0 then str_grow al ?st0 else Inr ?st0) = Inr st1"
    "length (s_buf st1) = unat (s_cap st1)" "terminated (s_buf st1)" "cstr (s_buf st1) = content st"
    "?n + 1 < unat (s_cap st1)" "s_len st1 = s_len st + 1" "5 \<le> unat (s_cap st1)"
    by blast
  let ?b = "(s_buf st1)[?n := c, Suc ?n := 0]"
  have "cstr ?b = content st @ [c]" "terminated ?b"
    using list_update_terminator [OF st1(3) _ c] st1(2,4,5) by simp_all
  then have "str_inv (st1\<lparr>s_buf := ?b\<rparr>)" "content (st1\<lparr>s_buf := ?b\<rparr>) = content st @ [c]"
    using st1 n by (simp_all add: str_inv_def content_def word_less_nat_alt word_le_nat_alt MINIMUM_STR_SIZE_def)
  moreover have "strlen (s_buf st) = Inr (s_len st)"
    using inv0(2,4) n(1) by (simp add: strlen_eq) (metis of_nat_unat ucast_id)
  then have "str_addc al st c = Inr (st1\<lparr>s_buf := ?b\<rparr>)"
    using st1 n by (simp add: str_addc_def poke_def Let_def)
  ultimately show ?thesis
    by blast
qed

lemma str_addcs_spec:
  assumes "sane_alloc al" and "str_inv st" and "0 \<notin> set cs" and "length (content st) + length cs < STR_MAX"
  shows "\<exists>st'. str_addcs al st cs = Inr st' \<and> str_inv st' \<and> content st' = content st @ cs"
  using assms(2-)
proof (induction cs arbitrary: st)
  case (Cons c cs)
  obtain st1 where st1: "str_addc al st c = Inr st1" "str_inv st1" "content st1 = content st @ [c]"
    using str_addc_spec [OF assms(1) Cons.prems(1), of c] Cons.prems by auto
  then show ?case
    using Cons.IH [OF st1(2)] Cons.prems by auto
qed simp

lemma str_clear_spec:
  assumes "str_inv st"
  shows "\<exists>st'. str_clear st = Inr st' \<and> str_inv st' \<and> content st' = []"
proof -
  obtain x b where "s_buf st = x # b"
    using str_inv_cap [OF assms] assms by (cases "s_buf st") (auto simp: str_inv_def)
  then show ?thesis
    using assms str_inv_cap [OF assms]
    by (auto simp: str_clear_def poke_def str_inv_def content_def word_less_nat_alt)
qed

lemma str_fromu_spec:
  assumes al: "sane_alloc al" and inv: "str_inv st"
  shows "\<exists>st'. str_fromu al st n = Inr st' \<and> str_inv st' \<and> content st' = radix 10 (unat n)"
proof -
  obtain st0 where st0: "str_clear st = Inr st0" "str_inv st0" "content st0 = []"
    using str_clear_spec [OF inv] by blast
  have lt: "unat n < 10 ^ 11"
    using unsigned_less [of n, where 'a = nat] by simp
  have len: "length (radix 10 (unat n)) < STR_MAX" if "n \<noteq> 0"
    using length_low_digits [OF lt] length_radix [of 10 "unat n"] that by (simp add: unat_gt_0)
  show ?thesis
  proof (cases "n = 0")
    case True
    then show ?thesis
      using st0 str_addc_spec [OF al st0(2), of 48]
      by (auto simp: str_fromu_def radix.simps digit_char_def)
  next
    case False
    from dec_digits_radix [OF False lt] obtain tmp where
      tmp: "dec_digits 11 n = Inr tmp" "rev tmp = radix 10 (unat n)"
      by blast
    have "\<exists>st'. str_addcs al st0 (rev tmp) = Inr st' \<and> str_inv st' \<and> content st' = content st0 @ rev tmp"
      using st0 len [OF False] radix_nul [of 10] tmp(2) by (intro str_addcs_spec [OF al]) auto
    then show ?thesis
      using st0 tmp False by (simp add: str_fromu_def)
  qed
qed


lemma sint_uminus:
  assumes "sint (n :: u32) < 0" and "n \<noteq> 0x80000000"
  shows "sint (- n) > 0" and "unat (- n) = nat (- sint n)"
proof -
  show u: "unat (- n) = nat (- sint n)"
    using assms(1) by (rule unat_uminus_neg)
  have "- (2 ^ 31) \<le> sint n"
    using sint_ge [of n] by simp
  moreover have "sint n \<noteq> - (2 ^ 31)"
  proof
    assume "sint n = - (2 ^ 31)"
    then have "(word_of_int (sint n) :: u32) = 0x80000000"
      by simp
    then show False
      using assms(2) by simp
  qed
  ultimately have "unat (- n) < 2 ^ 31" "0 < unat (- n)"
    using u assms(1) by auto
  moreover from this(1) have "sint (- n) = int (unat (- n))"
    by (intro sint_small) simp
  ultimately show "sint (- n) > 0"
    by (simp only: of_nat_0_less_iff)
qed

lemma sint_positive: "0 \<le> sint (n :: u32) \<Longrightarrow> n \<noteq> 0 \<Longrightarrow> 0 < sint n"
proof -
  assume n: "0 \<le> sint n" "n \<noteq> 0"
  have "sint n \<noteq> 0"
  proof
    assume "sint n = 0"
    then have "(word_of_int (sint n) :: u32) = 0"
      by (simp only: of_int_0)
    then show False
      using n(2) by simp
  qed
  with n(1) show ?thesis
    by linarith
qed

text \<open>The signed number as text; negating the least integer does not make it positive.\<close>

definition signed_text :: "u32 \<Rightarrow> u8 list" where
  "signed_text n =
     (if n = 0x80000000 then [45]
      else if sint n < 0 then 45 # radix 10 (nat (- sint n)) else radix 10 (nat (sint n)))"

lemma str_fromi_spec:
  assumes al: "sane_alloc al" and inv: "str_inv st"
  shows "\<exists>st'. str_fromi al st n = Inr st' \<and> str_inv st' \<and> content st' = signed_text n"
proof -
  obtain st0 where st0: "str_clear st = Inr st0" "str_inv st0" "content st0 = []"
    using str_clear_spec [OF inv] by blast
  have lt: "unat m < 10 ^ 12" for m :: u32
    using unsigned_less [of m, where 'a = nat] by simp
  have len: "Suc (length (radix 10 (unat m))) < STR_MAX" if "m \<noteq> 0" for m :: u32
    using length_low_digits [OF lt, of m] length_radix [of 10 "unat m"] that by (simp add: unat_gt_0)
  obtain sg where sg: "str_addc al st0 45 = Inr sg" "str_inv sg" "content sg = [45]"
    using str_addc_spec [OF al st0(2), of 45] st0(3) by auto
  have digits: "\<exists>st'. bindE (dec_digits 12 m) (\<lambda>tmp. str_addcs al s (rev tmp)) = Inr st' \<and> str_inv st' \<and>
      content st' = content s @ radix 10 (unat m)"
    if s: "str_inv s" "length (content s) \<le> 1" and m: "m \<noteq> 0" for s m
  proof -
    from dec_digits_radix [OF m lt] obtain tmp where
      tmp: "dec_digits 12 m = Inr tmp" "rev tmp = radix 10 (unat m)"
      by blast
    have "\<exists>st'. str_addcs al s (rev tmp) = Inr st' \<and> str_inv st' \<and> content st' = content s @ rev tmp"
      using s len [OF m] radix_nul [of 10] tmp(2) by (intro str_addcs_spec [OF al]) auto
    with tmp show ?thesis
      by simp
  qed
  consider "n = 0" | "n = 0x80000000" | "sint n < 0" "n \<noteq> 0x80000000" | "0 < sint n"
    using sint_positive [of n] by linarith
  then show ?thesis
  proof cases
    case 1
    then show ?thesis
      using st0 str_addc_spec [OF al st0(2), of 48]
      by (auto simp: str_fromi_def signed_text_def radix.simps digit_char_def)
  next
    case 2
    then show ?thesis
      using st0 sg by (simp add: str_fromi_def signed_text_def)
  next
    case 3
    have "- n \<noteq> 0"
      using 3(1) by auto
    then show ?thesis
      using 3 st0 sg digits [OF sg(2), of "- n"] sint_uminus [OF 3]
      by (auto simp: str_fromi_def signed_text_def Let_def)
  next
    case 4
    then have "n \<noteq> 0" "n \<noteq> 0x80000000" "nat (sint n) = unat n"
      using nat_sint [of n] by auto
    then show ?thesis
      using 4 st0 digits [OF st0(2), of n] by (auto simp: str_fromi_def signed_text_def Let_def)
  qed
qed

lemma str_from_spec:
  assumes al: "sane_alloc al" and t: "terminated s" and len: "length (cstr s) < STR_MAX"
  shows "\<exists>st. str_from al s = Inr st \<and> str_inv st \<and> content st = cstr s"
proof -
  define n where "n = length (cstr s)"
  define c :: u32 where "c = (if 5 \<le> n then word_of_nat (n + 5) else 5)"
  have n: "unat (word_of_nat n :: u32) = n" and c: "unat c = (if 5 \<le> n then n + 5 else 5)"
    using len unfolding c_def n_def by (simp_all del: of_nat_add)
  have cap: "(if (word_of_nat n :: u32) \<ge> MINIMUM_STR_SIZE then word_of_nat n + MINIMUM_STR_SIZE else MINIMUM_STR_SIZE) = c"
    using n by (simp add: c_def MINIMUM_STR_SIZE_def word_le_nat_alt)
  have b: "strcpy (al (unat c)) s = Inr (cstr s @ 0 # drop (Suc n) (al (unat c)))"
    using strcpy_eq [OF t, of "al (unat c)"] al c by (simp add: n_def sane_alloc_def)
  have "str_from al s = Inr \<lparr>s_buf = cstr s @ 0 # drop (Suc n) (al (unat c)), s_len = word_of_nat n, s_cap = c\<rparr>"
    using t cap b by (simp add: str_from_def strlen_eq n_def [symmetric] Let_def)
  then show ?thesis
    using al c n by (auto simp: str_inv_def content_def cstr_append_nul sane_alloc_def MINIMUM_STR_SIZE_def
        word_less_nat_alt word_le_nat_alt n_def [symmetric])
qed

section \<open>Building a text\<close>

text \<open>
  What the users of the class rely on: an append makes the text longer by what is appended, as
  long as the text stays below \<open>room\<close> bytes.
\<close>

locale text_builder =
  fixes ready :: "'s \<Rightarrow> bool" and shown :: "'s \<Rightarrow> u8 list"
    and add :: "'s \<Rightarrow> u8 list \<Rightarrow> 's exec" and addc :: "'s \<Rightarrow> u8 \<Rightarrow> 's exec" and room :: nat
  assumes add_law: "ready s \<Longrightarrow> terminated t \<Longrightarrow> length (shown s) + length (cstr t) < room \<Longrightarrow>
      \<exists>s'. add s t = Inr s' \<and> ready s' \<and> shown s' = shown s @ cstr t"
    and addc_law: "ready s \<Longrightarrow> c \<noteq> 0 \<Longrightarrow> length (shown s) + 1 < room \<Longrightarrow>
      \<exists>s'. addc s c = Inr s' \<and> ready s' \<and> shown s' = shown s @ [c]"
begin

definition gives :: "'s exec \<Rightarrow> u8 list \<Rightarrow> bool" where
  "gives r t \<longleftrightarrow> (\<exists>s. r = Inr s \<and> ready s \<and> shown s = t)"

lemma gives_Inr [intro]: "ready s \<Longrightarrow> shown s = t \<Longrightarrow> gives (Inr s) t"
  by (auto simp: gives_def)

lemma gives_add:
  assumes "ready s" and "terminated t" and "length (shown s) + length (cstr t) < room"
    and "\<And>s'. ready s' \<Longrightarrow> shown s' = shown s @ cstr t \<Longrightarrow> gives (f s') r"
  shows "gives (bindE (add s t) f) r"
  using add_law [OF assms(1-3)] assms(4) by (auto simp: gives_def)

lemma gives_addc:
  assumes "ready s" and "c \<noteq> 0" and "length (shown s) + 1 < room"
    and "\<And>s'. ready s' \<Longrightarrow> shown s' = shown s @ [c] \<Longrightarrow> gives (f s') r"
  shows "gives (bindE (addc s c) f) r"
  using addc_law [OF assms(1-3)] assms(4) by (auto simp: gives_def)

lemma gives_bind:
  assumes "gives m t" and "\<And>s'. ready s' \<Longrightarrow> shown s' = t \<Longrightarrow> gives (f s') r"
  shows "gives (bindE m f) r"
  using assms by (auto simp: gives_def)

end

interpretation sb: text_builder "\<lambda>st. sane_alloc al \<and> str_inv st" content "str_add al" "str_addc al" STR_MAX
  for al
  by unfold_locales (use str_add_spec str_addc_spec in auto)

section \<open>What the class promises\<close>

text \<open>Whatever memory the allocator hands out, appending a terminated string keeps the
  length, the capacity and the terminator of the buffer right and makes the content longer by
  exactly that string, growing the buffer as often as needed (up to 1 GiB, where the capacity
  would wrap around).\<close>

theorem str_add_appends:
  assumes "sane_alloc al" and "str_inv st" and "terminated s"
    and "length (content st) + length (cstr s) < STR_MAX"
  shows "\<exists>st'. str_add al st s = Inr st' \<and> str_inv st' \<and> content st' = content st @ cstr s"
  using assms by (rule str_add_spec)

text \<open>\<^verbatim>\<open>fromi\<close> replaces the content by the decimal text of the number, except for the least
  32-bit integer, of which only the sign is left.\<close>

theorem str_fromi_prints:
  assumes "sane_alloc al" and "str_inv st"
  shows "\<exists>st'. str_fromi al st n = Inr st' \<and> str_inv st' \<and> content st' = signed_text n"
  using assms by (rule str_fromi_spec)

definition zeros :: "nat \<Rightarrow> u8 list" where "zeros n = replicate n 0"

definition str_hi :: kstr where "str_hi = \<lparr>s_buf = [104, 105, 0, 0, 0], s_len = 2, s_cap = 5\<rparr>"

lemma sample_inv: "sane_alloc zeros" "str_inv str_hi" "content str_hi = bytes ''hi''"
  by (simp_all add: sane_alloc_def zeros_def str_inv_def str_hi_def content_def MINIMUM_STR_SIZE_def)

theorem str_add_appends_witness:
  "\<exists>st'. str_add zeros str_hi (bytes '' there'' @ [0]) = Inr st' \<and> content st' = bytes ''hi there''"
proof -
  have t: "terminated (bytes '' there'' @ [0])" "cstr (bytes '' there'' @ [0]) = bytes '' there''"
    by simp_all
  then have "length (content str_hi) + length (cstr (bytes '' there'' @ [0])) < STR_MAX"
    by (simp add: sample_inv(3))
  from str_add_appends [OF sample_inv(1,2) t(1) this] show ?thesis
    unfolding t(2) sample_inv(3) by auto
qed

theorem str_fromi_prints_witness:
  "\<exists>st'. str_fromi zeros str_hi 0x80000000 = Inr st' \<and> content st' = bytes ''-''"
  using str_fromi_prints [OF sample_inv(1,2), of "0x80000000"] by (auto simp: signed_text_def)

end
