(* ===== verification/Rap.thy ===== *)
theory Rap
  imports Str StringView
begin

text \<open>
  The table of kernel functions that user programs call, \<^verbatim>\<open>/krn/virt/func.rap\<close>. The kernel
  prints it (\<^verbatim>\<open>RapFileSubDriver\<close> of \<^verbatim>\<open>src/drivers/fs/virtkrn/virtkrn.hpp\<close>, over the class of theory
  \<open>Str\<close>); user programs parse it with \<^verbatim>\<open>src/sbinSrc/de/rap/rap.c\<close> and the kernel has a parser of its
  own, \<^verbatim>\<open>src/rap/rap.hpp\<close>. Strings the sources write as literals are byte lists without the
  terminator. A pointer into the text being parsed is the list of the bytes from it on.
\<close>

section \<open>Printing\<close>

record rparam =
  rp_type :: "u8 list"
  rp_name :: "u8 list"

record rfunc =
  rf_raw :: u32
  rf_name :: "u8 list"
  rf_params :: "rparam list"

fun rap_params :: "(nat \<Rightarrow> u8 list) \<Rightarrow> kstr \<Rightarrow> rparam list \<Rightarrow> kstr exec" where
  "rap_params al out [] = Inr out"
| "rap_params al out (p # ps) =
     bindE (str_add al out (rp_type p @ [0])) (\<lambda>o1. bindE (str_addc al o1 32) (\<lambda>o2.
     bindE (str_add al o2 (rp_name p @ [0])) (\<lambda>o3. bindE (str_addc al o3 32) (\<lambda>o4. rap_params al o4 ps))))"

definition rap_toStr :: "(nat \<Rightarrow> u8 list) \<Rightarrow> kstr \<Rightarrow> rfunc \<Rightarrow> kstr exec" where
  "rap_toStr al out f =
     bindE (str_add al out (rf_name f @ [0])) (\<lambda>o1. bindE (str_addc al o1 40) (\<lambda>o2.
     bindE (rap_params al o2 (rf_params f)) (\<lambda>o3.
     bindE (if rf_params f = [] then str_addc al o3 32 else Inr o3) (\<lambda>o4.
     bindE (str_addc al o4 41) (\<lambda>o5. bindE (str_addc al o5 61) (\<lambda>o6.
     bindE (str_new al) (\<lambda>t0. bindE (str_fromu al t0 (rf_raw f)) (\<lambda>t. str_add_str al o6 t))))))))"

text \<open>The copy into the caller's buffer, \<open>ind\<close> the position reached in it.\<close>

fun rap_copy :: "u8 list \<Rightarrow> nat \<Rightarrow> u8 list \<Rightarrow> u32 \<Rightarrow> u32 \<Rightarrow> (u8 list \<times> u32) exec" where
  "rap_copy cs 0 obuf ind len = Inr (obuf, ind)"
| "rap_copy cs (Suc n) obuf ind len =
     (if ind < len
      then (case cs of [] \<Rightarrow> Inl OutOfBounds
        | c # cs' \<Rightarrow> bindE (poke obuf ind c) (\<lambda>b. rap_copy cs' n b (ind + 1) len))
      else Inr (obuf, ind))"

fun rap_read_loop :: "(nat \<Rightarrow> u8 list) \<Rightarrow> rfunc list \<Rightarrow> u8 list \<Rightarrow> u32 \<Rightarrow> u32 \<Rightarrow> u8 list exec" where
  "rap_read_loop al [] obuf ind len = Inr obuf"
| "rap_read_loop al (f # fs) obuf ind len =
     bindE (str_new al) (\<lambda>s0. bindE (rap_toStr al s0 f) (\<lambda>s.
     bindE (rap_copy (s_buf s) (unat (s_len s)) obuf ind len) (\<lambda>(b, i).
     if i < len then bindE (poke b i 10) (\<lambda>b'. rap_read_loop al fs b' (i + 1) len)
     else rap_read_loop al fs b i len)))"

definition rap_read :: "(nat \<Rightarrow> u8 list) \<Rightarrow> rfunc list \<Rightarrow> u8 list \<Rightarrow> u32 \<Rightarrow> u8 list exec" where
  "rap_read al fs obuf len = rap_read_loop al fs obuf 0 len"

text \<open>The table \<^verbatim>\<open>init\<close> builds; the addresses of the functions are an argument.\<close>

definition rap_init :: "(nat \<Rightarrow> u32) \<Rightarrow> rfunc list" where
  "rap_init addr =
     [\<lparr>rf_raw = addr 0, rf_name = bytes ''putPixel'', rf_params =
        [\<lparr>rp_type = bytes ''u32'', rp_name = bytes ''argb''\<rparr>, \<lparr>rp_type = bytes ''u32'', rp_name = bytes ''x''\<rparr>,
         \<lparr>rp_type = bytes ''u32'', rp_name = bytes ''y''\<rparr>]\<rparr>,
      \<lparr>rf_raw = addr 1, rf_name = bytes ''getScreenWidth'', rf_params = []\<rparr>,
      \<lparr>rf_raw = addr 2, rf_name = bytes ''getFbPhysAddr'', rf_params = []\<rparr>,
      \<lparr>rf_raw = addr 3, rf_name = bytes ''getScreenHeight'', rf_params = []\<rparr>,
      \<lparr>rf_raw = addr 4, rf_name = bytes ''getFbSizeBytes'', rf_params = []\<rparr>,
      \<lparr>rf_raw = addr 5, rf_name = bytes ''getFbPitch'', rf_params = []\<rparr>,
      \<lparr>rf_raw = addr 6, rf_name = bytes ''loadProcess'', rf_params =
        [\<lparr>rp_type = bytes ''str'', rp_name = bytes ''fp''\<rparr>, \<lparr>rp_type = bytes ''str'', rp_name = bytes ''procname''\<rparr>,
         \<lparr>rp_type = bytes ''u8'', rp_name = bytes ''enum_ProcessPriveledgeLevel_priv''\<rparr>]\<rparr>,
      \<lparr>rf_raw = addr 7, rf_name = bytes ''runProcess'', rf_params = [\<lparr>rp_type = bytes ''ptr'', rp_name = bytes ''proc''\<rparr>]\<rparr>,
      \<lparr>rf_raw = addr 8, rf_name = bytes ''getProcessList'', rf_params = []\<rparr>,
      \<lparr>rf_raw = addr 9, rf_name = bytes ''procCtxtSwitch'', rf_params = [\<lparr>rp_type = bytes ''ptr'', rp_name = bytes ''proc''\<rparr>]\<rparr>,
      \<lparr>rf_raw = addr 10, rf_name = bytes ''getpid'', rf_params = []\<rparr>]"

section \<open>The parser of the user programs\<close>

text \<open>
  \<^verbatim>\<open>strlenSpecChar\<close> of \<^verbatim>\<open>src/sbinSrc/de/gen/string.h\<close> looks for the character only: unlike
  the kernel's it does not stop at the end of the string.
\<close>

fun ustrlenSpecChar_loop :: "u32 \<Rightarrow> u8 list \<Rightarrow> u8 \<Rightarrow> u32 exec" where
  "ustrlenSpecChar_loop i [] t = Inl OutOfBounds"
| "ustrlenSpecChar_loop i (c # s) t =
     (let i' = i + 1 in if c \<noteq> t then ustrlenSpecChar_loop i' s t else Inr (i' - 1))"

definition ustrlenSpecChar :: "u8 list \<Rightarrow> u8 \<Rightarrow> u32 exec" where
  "ustrlenSpecChar s t = ustrlenSpecChar_loop 0 s t"

record uentry =
  ue_name :: "u8 list"
  ue_addr :: u32
  ue_params :: "(u8 list \<times> u8 list) list"

text \<open>
  A string copied out with \<^verbatim>\<open>strcpyLen\<close> is its bytes and a terminator. The array of the
  parameters has room for 16; each round eats at least a character.
\<close>

definition ucopy :: "u8 list \<Rightarrow> nat \<Rightarrow> u8 list exec" where
  "ucopy s n = strcpyLen_loop (replicate (Suc n) 0) s n"

fun parse_params :: "nat \<Rightarrow> u8 list \<Rightarrow> (u8 list \<times> u8 list) list \<Rightarrow> ((u8 list \<times> u8 list) list \<times> u8 list) exec" where
  "parse_params k s acc =
     (case s of [] \<Rightarrow> Inl OutOfBounds
      | c # _ \<Rightarrow>
        if c = 41 then Inr (acc, s)
        else bindE (ustrlenSpecChar s 32) (\<lambda>n.
          if n = 0 then Inr (acc, s)
          else (case k of 0 \<Rightarrow> Inl OutOfBounds
            | Suc k' \<Rightarrow>
              bindE (ucopy s (unat n)) (\<lambda>ty.
              let s1 = drop (Suc (unat n)) s in
              bindE (ustrlenSpecChar s1 32) (\<lambda>m.
              bindE (ucopy s1 (unat m)) (\<lambda>nm.
              let s2 = drop (unat m) s1 in
              case s2 of [] \<Rightarrow> Inl OutOfBounds
              | d # r \<Rightarrow> parse_params k' (if d = 32 then r else s2) (acc @ [(ty, nm)])))))))"

declare parse_params.simps [simp del]

fun skip_past :: "u8 \<Rightarrow> u8 list \<Rightarrow> u8 list exec" where
  "skip_past t [] = Inl OutOfBounds"
| "skip_past t (c # s) = (if c \<noteq> t then skip_past t s else Inr s)"

definition parse_entry :: "u8 list \<Rightarrow> (uentry \<times> u8 list) exec" where
  "parse_entry s =
     bindE (ustrlenSpecChar s 40) (\<lambda>n.
     bindE (ucopy s (unat n)) (\<lambda>name.
     bindE (parse_params 16 (drop (Suc (unat n)) s) []) (\<lambda>(ps, s1).
     bindE (skip_past 61 s1) (\<lambda>s2.
     bindE (ustrlenSpecChar s2 10) (\<lambda>m.
     bindE (ucopy s2 (unat m)) (\<lambda>sBuf.
     bindE (stou sBuf) (\<lambda>a.
     let s3 = drop (unat m) s2 in
     case s3 of [] \<Rightarrow> Inl OutOfBounds
     | d # r \<Rightarrow> Inr (\<lparr>ue_name = name, ue_addr = a, ue_params = ps\<rparr>, if d = 10 then r else s3))))))))"

text \<open>The entries; the array has as many as there are newlines.\<close>

fun parse_entries :: "nat \<Rightarrow> u8 list \<Rightarrow> uentry list exec" where
  "parse_entries k s =
     (case s of [] \<Rightarrow> Inl OutOfBounds
      | c # _ \<Rightarrow>
        if c = 0 then Inr []
        else (case k of 0 \<Rightarrow> Inl OutOfBounds
          | Suc k' \<Rightarrow> bindE (parse_entry s) (\<lambda>(e, s'). bindE (parse_entries k' s') (\<lambda>es. Inr (e # es)))))"

declare parse_entries.simps [simp del]

definition parseRap :: "u8 list \<Rightarrow> uentry list exec" where
  "parseRap buf = bindE (countOccurence buf 10) (\<lambda>n. parse_entries (unat n) buf)"

fun getRapAddr :: "uentry list \<Rightarrow> u8 list \<Rightarrow> u32 exec" where
  "getRapAddr [] func = Inr 0"
| "getRapAddr (e # es) func =
     bindE (streq (ue_name e) func) (\<lambda>b. if b then Inr (ue_addr e) else getRapAddr es func)"

section \<open>The text of the table\<close>

fun param_text :: "rparam \<Rightarrow> u8 list" where
  "param_text p = rp_type p @ [32] @ rp_name p @ [32]"

definition params_text :: "rparam list \<Rightarrow> u8 list" where
  "params_text ps = concat (List.map param_text ps)"

definition func_text :: "rfunc \<Rightarrow> u8 list" where
  "func_text f = rf_name f @ [40] @ params_text (rf_params f) @ (if rf_params f = [] then [32] else []) @
     [41, 61] @ radix 10 (unat (rf_raw f))"

definition table_text :: "rfunc list \<Rightarrow> u8 list" where
  "table_text fs = concat (List.map (\<lambda>f. func_text f @ [10]) fs)"

text \<open>Names the format can carry.\<close>

definition param_ok :: "rparam \<Rightarrow> bool" where
  "param_ok p \<longleftrightarrow> rp_type p \<noteq> [] \<and> hd (rp_type p) \<noteq> 41 \<and>
     list_all (\<lambda>c. c \<notin> {0, 10, 32}) (rp_type p) \<and> list_all (\<lambda>c. c \<notin> {0, 10, 32}) (rp_name p)"

definition func_ok :: "rfunc \<Rightarrow> bool" where
  "func_ok f \<longleftrightarrow> list_all (\<lambda>c. c \<notin> {0, 10, 40}) (rf_name f) \<and> length (rf_params f) \<le> 16 \<and>
     list_all param_ok (rf_params f)"

lemma params_text_Cons: "params_text (p # ps) = param_text p @ params_text ps"
  by (simp add: params_text_def)

lemma table_text_Cons: "table_text (f # fs) = func_text f @ [10] @ table_text fs"
  by (simp add: table_text_def)

lemma param_nul: "param_ok p \<Longrightarrow> 0 \<notin> set (rp_type p) \<and> 0 \<notin> set (rp_name p)"
  by (auto simp: param_ok_def list_all_iff)

lemma cstr_literal: "0 \<notin> set s \<Longrightarrow> cstr (s @ [0]) = s"
  using cstr_append_nul [of s "[]"] by simp

lemma rap_params_gives:
  "sane_alloc al \<Longrightarrow> str_inv st \<Longrightarrow> list_all param_ok ps \<Longrightarrow> length (content st) + length (params_text ps) < STR_MAX \<Longrightarrow>
     sb.gives al (rap_params al st ps) (content st @ params_text ps)"
proof (induction ps arbitrary: st)
  case Nil
  then show ?case
    unfolding rap_params.simps by (intro sb.gives_Inr) (simp_all add: params_text_def)
next
  case (Cons p ps)
  note len = Cons.prems(4)
  have c: "cstr (rp_type p @ [0]) = rp_type p" "cstr (rp_name p @ [0]) = rp_name p"
    using Cons.prems(3) param_nul [of p] by (auto simp: cstr_literal)
  show ?case
    unfolding rap_params.simps
  proof (rule sb.gives_add)
    fix o1 assume o1: "sane_alloc al \<and> str_inv o1" "content o1 = content st @ cstr (rp_type p @ [0])"
    show "sb.gives al (bindE (str_addc al o1 32) (\<lambda>o2. bindE (str_add al o2 (rp_name p @ [0])) (\<lambda>o3.
        bindE (str_addc al o3 32) (\<lambda>o4. rap_params al o4 ps)))) (content st @ params_text (p # ps))"
    proof (rule sb.gives_addc [OF o1(1)])
      fix o2 assume o2: "sane_alloc al \<and> str_inv o2" "content o2 = content o1 @ [32]"
      show "sb.gives al (bindE (str_add al o2 (rp_name p @ [0])) (\<lambda>o3.
          bindE (str_addc al o3 32) (\<lambda>o4. rap_params al o4 ps))) (content st @ params_text (p # ps))"
      proof (rule sb.gives_add [OF o2(1)])
        fix o3 assume o3: "sane_alloc al \<and> str_inv o3" "content o3 = content o2 @ cstr (rp_name p @ [0])"
        show "sb.gives al (bindE (str_addc al o3 32) (\<lambda>o4. rap_params al o4 ps)) (content st @ params_text (p # ps))"
        proof (rule sb.gives_addc [OF o3(1)])
          fix o4 assume o4: "sane_alloc al \<and> str_inv o4" "content o4 = content o3 @ [32]"
          then have "sb.gives al (rap_params al o4 ps) (content o4 @ params_text ps)"
            using Cons.prems o1 o2 o3 c len by (intro Cons.IH) (auto simp: params_text_Cons)
          then show "sb.gives al (rap_params al o4 ps) (content st @ params_text (p # ps))"
            using o1 o2 o3 o4 c by (simp add: params_text_Cons)
        qed (use o1 o2 o3 len c in \<open>simp_all add: params_text_Cons\<close>)
      qed (use o1 o2 len c in \<open>simp_all add: params_text_Cons\<close>)
    qed (use o1 len c in \<open>simp_all add: params_text_Cons\<close>)
  qed (use Cons.prems len c in \<open>simp_all add: params_text_Cons\<close>)
qed


lemma rap_toStr_gives:
  assumes al: "sane_alloc al" and inv: "str_inv st" and ok: "func_ok f"
    and len: "length (content st) + length (func_text f) < STR_MAX"
  shows "sb.gives al (rap_toStr al st f) (content st @ func_text f)"
proof -
  have c: "cstr (rf_name f @ [0]) = rf_name f"
    using ok by (intro cstr_literal) (auto simp: func_ok_def list_all_iff)
  have ps: "list_all param_ok (rf_params f)"
    using ok by (simp add: func_ok_def)
  note l = len [unfolded func_text_def, simplified]
  let ?sp = "if rf_params f = [] then [32] else [] :: u8 list"
  show ?thesis
    unfolding rap_toStr_def
  proof (rule sb.gives_add)
    fix o1 assume o1: "sane_alloc al \<and> str_inv o1" "content o1 = content st @ cstr (rf_name f @ [0])"
    show "sb.gives al (bindE (str_addc al o1 40) (\<lambda>o2.
     bindE (rap_params al o2 (rf_params f)) (\<lambda>o3.
     bindE (if rf_params f = [] then str_addc al o3 32 else Inr o3) (\<lambda>o4.
     bindE (str_addc al o4 41) (\<lambda>o5. bindE (str_addc al o5 61) (\<lambda>o6.
     bindE (str_new al) (\<lambda>t0. bindE (str_fromu al t0 (rf_raw f)) (\<lambda>t. str_add_str al o6 t)))))))) (content st @ func_text f)"
    proof (rule sb.gives_addc [OF o1(1)])
      fix o2 assume o2: "sane_alloc al \<and> str_inv o2" "content o2 = content o1 @ [40]"
      show "sb.gives al (bindE (rap_params al o2 (rf_params f)) (\<lambda>o3.
         bindE (if rf_params f = [] then str_addc al o3 32 else Inr o3) (\<lambda>o4.
         bindE (str_addc al o4 41) (\<lambda>o5. bindE (str_addc al o5 61) (\<lambda>o6.
         bindE (str_new al) (\<lambda>t0. bindE (str_fromu al t0 (rf_raw f)) (\<lambda>t. str_add_str al o6 t))))))) (content st @ func_text f)"
      proof (rule sb.gives_bind)
        show "sb.gives al (rap_params al o2 (rf_params f)) (content o2 @ params_text (rf_params f))"
          using o1 o2 l c ps by (intro rap_params_gives) auto
        fix o3 assume o3: "sane_alloc al \<and> str_inv o3" "content o3 = content o2 @ params_text (rf_params f)"
        show "sb.gives al (bindE (if rf_params f = [] then str_addc al o3 32 else Inr o3) (\<lambda>o4.
           bindE (str_addc al o4 41) (\<lambda>o5. bindE (str_addc al o5 61) (\<lambda>o6.
           bindE (str_new al) (\<lambda>t0. bindE (str_fromu al t0 (rf_raw f)) (\<lambda>t. str_add_str al o6 t)))))) (content st @ func_text f)"
        proof (rule sb.gives_bind)
          show "sb.gives al (if rf_params f = [] then str_addc al o3 32 else Inr o3) (content o3 @ ?sp)"
          proof (cases "rf_params f = []")
            case True
            then have "length (content o3) + 1 < STR_MAX"
              using o1 o2 o3 l c by (simp add: params_text_def)
            from sb.addc_law [OF o3(1) _ this, of 32] True show ?thesis
              by (simp add: sb.gives_def)
          next
            case False
            then have e: "(if rf_params f = [] then str_addc al o3 32 else Inr o3) = Inr o3" "?sp = []"
              by simp_all
            show ?thesis
              unfolding e by (rule sb.gives_Inr [OF o3(1)]) simp
          qed
          fix o4 assume o4: "sane_alloc al \<and> str_inv o4" "content o4 = content o3 @ ?sp"
          show "sb.gives al (bindE (str_addc al o4 41) (\<lambda>o5. bindE (str_addc al o5 61) (\<lambda>o6.
            bindE (str_new al) (\<lambda>t0. bindE (str_fromu al t0 (rf_raw f)) (\<lambda>t. str_add_str al o6 t))))) (content st @ func_text f)"
          proof (rule sb.gives_addc [OF o4(1)])
            fix o5 assume o5: "sane_alloc al \<and> str_inv o5" "content o5 = content o4 @ [41]"
            show "sb.gives al (bindE (str_addc al o5 61) (\<lambda>o6.
              bindE (str_new al) (\<lambda>t0. bindE (str_fromu al t0 (rf_raw f)) (\<lambda>t. str_add_str al o6 t)))) (content st @ func_text f)"
            proof (rule sb.gives_addc [OF o5(1)])
              fix o6 assume o6: "sane_alloc al \<and> str_inv o6" "content o6 = content o5 @ [61]"
              obtain t0 where t0: "str_new al = Inr t0" "str_inv t0"
                using str_new_spec [OF al] by blast
              obtain t where t: "str_fromu al t0 (rf_raw f) = Inr t" "str_inv t" "content t = radix 10 (unat (rf_raw f))"
                using str_fromu_spec [OF al t0(2)] by blast
              have "length (content o6) + length (cstr (s_buf t)) < STR_MAX"
                using o1 o2 o3 o4 o5 o6 t(3) l c by (simp add: content_def split: if_splits)
              moreover have "terminated (s_buf t)"
                using t(2) by (simp add: str_inv_def)
              ultimately obtain s' where "str_add al o6 (s_buf t) = Inr s'" "sane_alloc al \<and> str_inv s'"
                "content s' = content o6 @ cstr (s_buf t)"
                using sb.add_law [OF o6(1)] by blast
              then show "sb.gives al (bindE (str_new al) (\<lambda>t0. bindE (str_fromu al t0 (rf_raw f)) (\<lambda>t. str_add_str al o6 t)))
                  (content st @ func_text f)"
                unfolding sb.gives_def using t0(1) t o1 o2 o3 o4 o5 o6 c
                by (simp add: str_add_str_def func_text_def content_def)
            qed (use o1 o2 o3 o4 o5 l c in \<open>simp_all split: if_splits\<close>)
          qed (use o1 o2 o3 o4 l c in \<open>simp_all split: if_splits\<close>)
        qed
      qed
    qed (use o1 l c in simp_all)
  qed (use al inv l c in simp_all)
qed

lemma rap_copy_spec:
  "n \<le> length cs \<Longrightarrow> unat ind + n < unat len \<Longrightarrow> unat len \<le> length obuf \<Longrightarrow>
     rap_copy cs n obuf ind len =
       Inr (take (unat ind) obuf @ take n cs @ drop (unat ind + n) obuf, ind + word_of_nat n)"
proof (induction cs n obuf ind len rule: rap_copy.induct)
  case (2 cs n obuf ind len)
  obtain c cs' where cs: "cs = c # cs'"
    using "2.prems"(1) by (cases cs) auto
  have lt: "ind < len" and u: "unat (ind + 1) = unat ind + 1"
    using "2.prems"(2) unsigned_less [of len, where 'a = nat] by (simp_all add: word_less_nat_alt unat_word_ariths)
  have "poke obuf ind c = Inr (obuf[unat ind := c])"
    using "2.prems" by (simp add: poke_def)
  moreover have "take (Suc (unat ind)) (obuf[unat ind := c]) = take (unat ind) obuf @ [c]"
    using "2.prems" by (simp add: take_Suc_conv_app_nth)
  ultimately show ?case
    using "2.IH" [OF lt cs, of "obuf[unat ind := c]"] "2.prems" cs lt u by (simp add: add.commute add.left_commute)
qed simp

lemma rap_read_loop_spec:
  assumes "sane_alloc al"
  shows "list_all func_ok fs \<Longrightarrow> unat ind + length (table_text fs) < unat len \<Longrightarrow> unat len \<le> length obuf \<Longrightarrow>
     unat len < STR_MAX \<Longrightarrow>
     rap_read_loop al fs obuf ind len =
       Inr (take (unat ind) obuf @ table_text fs @ drop (unat ind + length (table_text fs)) obuf)"
proof (induction fs arbitrary: obuf ind)
  case Nil
  then show ?case
    by (simp add: table_text_def)
next
  case (Cons f fs)
  note [simp] = table_text_Cons
  obtain s0 where s0: "str_new al = Inr s0" "str_inv s0" "content s0 = []"
    using str_new_spec [OF assms] by blast
  have "sb.gives al (rap_toStr al s0 f) (content s0 @ func_text f)"
    using Cons.prems s0 by (intro rap_toStr_gives [OF assms]) auto
  then obtain s where s: "rap_toStr al s0 f = Inr s" "str_inv s" "content s = func_text f"
    using s0(3) by (auto simp: sb.gives_def)
  let ?n = "length (func_text f)"
  have len: "unat (s_len s) = ?n"
    using content_length [OF s(2)] s(3) by simp
  have w: "takeWhile (\<lambda>c. c \<noteq> 0) (s_buf s) = func_text f"
    using s(3) by (simp add: content_def cstr_def)
  have tk: "take ?n (s_buf s) = func_text f" "?n \<le> length (s_buf s)"
    using takeWhile_eq_take [of "\<lambda>c. c \<noteq> 0" "s_buf s"] length_takeWhile_le [of "\<lambda>c. c \<noteq> 0" "s_buf s"]
    unfolding w by simp_all
  let ?b = "take (unat ind) obuf @ func_text f @ drop (unat ind + ?n) obuf"
  have "rap_copy (s_buf s) (unat (s_len s)) obuf ind len = Inr (?b, ind + word_of_nat ?n)"
    using Cons.prems tk unfolding len by (subst rap_copy_spec) auto
  moreover have u: "unat (ind + word_of_nat ?n) = unat ind + ?n" "unat (ind + word_of_nat ?n + 1) = unat ind + ?n + 1"
    using Cons.prems by (simp_all add: unat_word_ariths)
  then have lt: "ind + word_of_nat ?n < len"
    using Cons.prems by (simp add: word_less_nat_alt)
  have lb: "length ?b = length obuf"
    using Cons.prems by simp
  let ?b' = "take (unat ind) obuf @ func_text f @ [10] @ drop (unat ind + ?n + 1) obuf"
  have dr: "drop (unat ind + ?n) obuf = obuf ! (unat ind + ?n) # drop (unat ind + ?n + 1) obuf"
    using Cons_nth_drop_Suc [of "unat ind + ?n" obuf] Cons.prems by simp
  have "poke ?b (ind + word_of_nat ?n) 10 = Inr ?b'"
    unfolding poke_def u lb dr using Cons.prems by (simp add: list_update_append min_def)
  moreover have "rap_read_loop al fs ?b' (ind + word_of_nat ?n + 1) len =
      Inr (take (unat ind + ?n + 1) ?b' @ table_text fs @ drop (unat ind + ?n + 1 + length (table_text fs)) ?b')"
    using Cons.prems u(2) by (subst Cons.IH) simp_all
  moreover have "take (unat ind + ?n + 1) ?b' = take (unat ind) obuf @ func_text f @ [10]"
    "drop (unat ind + ?n + 1 + length (table_text fs)) ?b' = drop (unat ind + length (table_text (f # fs))) obuf"
    using Cons.prems by (simp_all add: add_ac)
  ultimately show ?case
    using s0(1) s(1) lt by simp
qed


section \<open>Parsing it back\<close>

lemma ustrlenSpecChar_loop_eq:
  "t \<notin> set a \<Longrightarrow> ustrlenSpecChar_loop i (a @ t # s) t = Inr (i + word_of_nat (length a))"
  by (induction a arbitrary: i) (auto simp: add_ac Let_def)

lemma ustrlenSpecChar_eq: "t \<notin> set a \<Longrightarrow> ustrlenSpecChar (a @ t # s) t = Inr (word_of_nat (length a))"
  by (simp add: ustrlenSpecChar_def ustrlenSpecChar_loop_eq)

lemma ucopy_eq: "ucopy (a @ s) (length a) = Inr (a @ [0])"
proof -
  have "drop (Suc (length a)) (replicate (Suc (length a)) (0 :: u8)) = []"
    by simp
  then show ?thesis
    unfolding ucopy_def by (subst strcpyLen_loop_eq) simp_all
qed

definition uparam :: "rparam \<Rightarrow> u8 list \<times> u8 list" where
  "uparam p = (rp_type p @ [0], rp_name p @ [0])"

definition entry_of :: "rfunc \<Rightarrow> uentry" where
  "entry_of f = \<lparr>ue_name = rf_name f @ [0], ue_addr = rf_raw f, ue_params = List.map uparam (rf_params f)\<rparr>"

lemma parse_params_text:
  "length ps \<le> k \<Longrightarrow> list_all param_ok ps \<Longrightarrow> length (params_text ps) < 2 ^ 32 \<Longrightarrow>
     parse_params k (params_text ps @ 41 # r) acc = Inr (acc @ List.map uparam ps, 41 # r)"
proof (induction ps arbitrary: k acc)
  case Nil
  then show ?case
    by (simp add: params_text_def parse_params.simps)
next
  case (Cons p ps)
  obtain k' where k: "k = Suc k'" "length ps \<le> k'"
    using Cons.prems(1) by (cases k) auto
  have ok: "rp_type p \<noteq> []" "hd (rp_type p) \<noteq> 41" "32 \<notin> set (rp_type p)" "32 \<notin> set (rp_name p)"
    using Cons.prems(2) by (auto simp: param_ok_def list_all_iff)
  have len: "length (rp_type p) < 2 ^ 32" "length (rp_name p) < 2 ^ 32" "length (params_text ps) < 2 ^ 32"
    using Cons.prems(3) by (simp_all add: params_text_Cons)
  obtain c t where ct: "rp_type p = c # t" "c \<noteq> 41"
    using ok(1,2) by (cases "rp_type p") auto
  let ?s1 = "rp_name p @ 32 # params_text ps @ 41 # r"
  let ?s = "rp_type p @ 32 # ?s1"
  have n: "ustrlenSpecChar ?s 32 = Inr (word_of_nat (length (rp_type p)))"
    "ustrlenSpecChar ?s1 32 = Inr (word_of_nat (length (rp_name p)))"
    using ok by (simp_all add: ustrlenSpecChar_eq)
  have u: "unat (word_of_nat (length (rp_type p)) :: u32) = length (rp_type p)"
    "unat (word_of_nat (length (rp_name p)) :: u32) = length (rp_name p)"
    using len by simp_all
  have z: "(word_of_nat (length (rp_type p)) :: u32) \<noteq> 0"
    using u(1) ok(1) by (metis length_0_conv unat_0)
  have d: "drop (Suc (length (rp_type p))) ?s = ?s1" "drop (length (rp_name p)) ?s1 = 32 # params_text ps @ 41 # r"
    by simp_all
  have "parse_params k ?s acc = parse_params k' (params_text ps @ 41 # r) (acc @ [uparam p])"
    unfolding parse_params.simps [of k] using ct z k(1)
    by (simp add: n [unfolded ct(1), simplified] u [unfolded ct(1), simplified] ucopy_eq [of "c # t", simplified]
        ucopy_eq [of "rp_name p"] Let_def uparam_def n(2) u(2))
  also have "\<dots> = Inr (acc @ List.map uparam (p # ps), 41 # r)"
    using Cons.IH [OF k(2)] Cons.prems(2) len(3) by simp
  finally show ?case
    by (simp add: params_text_Cons)
qed

lemma skip_past_eq: "t \<notin> set a \<Longrightarrow> skip_past t (a @ t # s) = Inr s"
  by (induction a) auto

lemma parse_entry_text:
  assumes ok: "func_ok f" and len: "length (func_text f) < 2 ^ 32"
  shows "parse_entry (func_text f @ 10 # r) = Inr (entry_of f, r)"
proof -
  let ?num = "radix 10 (unat (rf_raw f))"
  let ?tail = "[41, 61] @ ?num @ 10 # r"
  have name: "40 \<notin> set (rf_name f)" and ps: "length (rf_params f) \<le> 16" "list_all param_ok (rf_params f)"
    using ok by (auto simp: func_ok_def list_all_iff)
  have l: "length (rf_name f) < 2 ^ 32" "length (params_text (rf_params f)) < 2 ^ 32" "length ?num < 2 ^ 32"
    using len by (simp_all add: func_text_def)
  have nl: "10 \<notin> set ?num"
    using radix10_digit [of 10 "unat (rf_raw f)"] by fastforce
  have params: "\<exists>s1. parse_params 16 (params_text (rf_params f) @ (if rf_params f = [] then [32] else []) @ ?tail) [] =
      Inr (List.map uparam (rf_params f), s1) \<and> skip_past 61 s1 = Inr (?num @ 10 # r)"
  proof (cases "rf_params f = []")
    case True
    have "ustrlenSpecChar (32 # ?tail) 32 = Inr 0"
      using ustrlenSpecChar_eq [of 32 "[]" ?tail] by simp
    then show ?thesis
      using True by (simp add: params_text_def parse_params.simps)
  next
    case False
    then show ?thesis
      using parse_params_text [OF ps l(2), of "61 # ?num @ 10 # r" "[]"] by simp
  qed
  have st: "stou (?num @ [0]) = Inr (rf_raw f)"
    using stou_radix [of "unat (rf_raw f)" 0 "[]"] unsigned_less [of "rf_raw f", where 'a = nat] by simp
  have e: "func_text f @ 10 # r = rf_name f @ 40 # params_text (rf_params f) @ (if rf_params f = [] then [32] else []) @ ?tail"
    by (simp add: func_text_def)
  have un: "unat (word_of_nat (length (rf_name f)) :: u32) = length (rf_name f)"
    "unat (word_of_nat (length ?num) :: u32) = length ?num"
    using l by simp_all
  have dr: "drop (Suc (length (rf_name f))) (rf_name f @ 40 # x) = x" "drop (length ?num) (?num @ 10 # r) = 10 # r" for x
    by simp_all
  show ?thesis
    unfolding e parse_entry_def ustrlenSpecChar_eq [OF name] bindE.simps un ucopy_eq dr
    using params
    by (elim exE conjE)
      (simp add: ustrlenSpecChar_eq [OF nl] un ucopy_eq st entry_of_def Let_def)
qed

lemma parse_entries_table:
  "list_all func_ok fs \<Longrightarrow> length (table_text fs) < 2 ^ 32 \<Longrightarrow>
     parse_entries (length fs) (table_text fs @ 0 # r) = Inr (List.map entry_of fs)"
proof (induction fs)
  case Nil
  then show ?case
    by (simp add: table_text_def parse_entries.simps)
next
  case (Cons f fs)
  have len: "length (func_text f) < 2 ^ 32" "length (table_text fs) < 2 ^ 32"
    using Cons.prems(2) by (simp_all add: table_text_Cons)
  have ok: "func_ok f" "list_all func_ok fs"
    using Cons.prems(1) by simp_all
  obtain c t where ct: "func_text f = c # t" "c \<noteq> 0"
    using ok(1) by (cases "rf_name f") (auto simp: func_text_def func_ok_def)
  have pe: "parse_entry (func_text f @ 10 # table_text fs @ 0 # r) = Inr (entry_of f, table_text fs @ 0 # r)"
    by (rule parse_entry_text [OF ok(1) len(1)])
  then show ?case
    using Cons.IH [OF ok(2) len(2)] ct by (simp add: table_text_Cons parse_entries.simps [of "Suc (length fs)"])
qed

lemma func_text_plain: "func_ok f \<Longrightarrow> c \<in> {0, 10} \<Longrightarrow> c \<notin> set (func_text f)"
proof -
  assume ok: "func_ok f" and c: "c \<in> {0, 10}"
  have "c \<notin> set (radix 10 (unat (rf_raw f)))"
    using radix10_digit [of c "unat (rf_raw f)"] c by fastforce
  moreover have "c \<notin> set (params_text (rf_params f))"
    using ok c by (auto simp: func_ok_def params_text_def param_ok_def list_all_iff)
  ultimately show "c \<notin> set (func_text f)"
    using ok c by (auto simp: func_text_def func_ok_def list_all_iff)
qed

lemma table_nul: "list_all func_ok fs \<Longrightarrow> 0 \<notin> set (table_text fs)"
  using func_text_plain by (induction fs) (auto simp: table_text_def)

lemma table_newlines: "list_all func_ok fs \<Longrightarrow> count_list (table_text fs) 10 = length fs"
proof (induction fs)
  case (Cons f fs)
  then have "10 \<notin> set (func_text f)"
    using func_text_plain [of f 10] by simp
  then show ?case
    using Cons by (simp add: table_text_Cons count_list_0_iff)
qed (simp add: table_text_def)

lemma getRapAddr_entries:
  assumes "list_all func_ok fs" and "0 \<notin> set n"
  shows "getRapAddr (List.map entry_of fs) (n @ [0]) =
     Inr (case List.find (\<lambda>f. rf_name f = n) fs of None \<Rightarrow> 0 | Some f \<Rightarrow> rf_raw f)"
  using assms
proof (induction fs)
  case (Cons f fs)
  have "0 \<notin> set (rf_name f)"
    using Cons.prems(1) by (auto simp: func_ok_def list_all_iff)
  then show ?case
    using Cons by (simp add: entry_of_def streq_eq cstr_literal)
qed simp

text \<open>C7: the table of kernel functions survives the way to a user program: what \<^verbatim>\<open>parseRap\<close>
  gets out of the file that the kernel prints is the kernel's table, and \<^verbatim>\<open>getRapAddr\<close> finds
  for a name the address of the first function with it, or null.\<close>

theorem rap_table_roundtrip:
  assumes "sane_alloc al" and "list_all func_ok fs" and "length (table_text fs) < 0x10000"
  shows "\<exists>obuf es. rap_read al fs (replicate 0x10000 0) 0x10000 = Inr obuf \<and> parseRap obuf = Inr es \<and>
     es = List.map entry_of fs \<and>
     (\<forall>n. 0 \<notin> set n \<longrightarrow> getRapAddr es (n @ [0]) =
        Inr (case List.find (\<lambda>f. rf_name f = n) fs of None \<Rightarrow> 0 | Some f \<Rightarrow> rf_raw f))"
proof -
  let ?n = "length (table_text fs)"
  let ?obuf = "table_text fs @ 0 # replicate (0xFFFF - ?n) 0"
  have r: "drop ?n (replicate 0x10000 (0 :: u8)) = 0 # replicate (0xFFFF - ?n) 0"
  proof -
    have "0x10000 - ?n = Suc (0xFFFF - ?n)"
      using assms(3) by linarith
    then show ?thesis
      by (simp only: drop_replicate replicate_Suc)
  qed
  have "rap_read al fs (replicate 0x10000 0) 0x10000 =
      Inr (take (unat (0 :: u32)) (replicate 0x10000 0) @ table_text fs @
        drop (unat (0 :: u32) + ?n) (replicate 0x10000 0))"
    unfolding rap_read_def by (rule rap_read_loop_spec [OF assms(1,2)]) (use assms(3) in simp_all)
  then have read: "rap_read al fs (replicate 0x10000 0) 0x10000 = Inr ?obuf"
    unfolding r [symmetric] by simp
  have nul: "0 \<notin> set (table_text fs)"
    by (rule table_nul [OF assms(2)])
  have le: "length fs \<le> ?n"
    using count_le_length [of "table_text fs" 10] table_newlines [OF assms(2)] by simp
  have "countOccurence ?obuf 10 = Inr (word_of_nat (length fs))"
    by (simp add: countOccurence_eq cstr_append_nul [OF nul] table_newlines [OF assms(2)])
  moreover have "unat (word_of_nat (length fs) :: u32) = length fs"
    using le assms(3) by simp
  ultimately have "parseRap ?obuf = Inr (List.map entry_of fs)"
    using parse_entries_table [OF assms(2)] assms(3) by (simp add: parseRap_def)
  with read show ?thesis
    using getRapAddr_entries [OF assms(2)] by blast
qed

lemma rap_init_ok: "list_all func_ok (rap_init addr)"
  by (simp add: rap_init_def func_ok_def param_ok_def)

lemma length_radix10: "length (radix 10 (unat (w :: u32))) \<le> 10"
proof (cases "w = 0")
  case True
  then show ?thesis
    by (simp add: radix.simps)
next
  case False
  have "unat w < 10 ^ 10"
    using unsigned_less [of w, where 'a = nat] by simp
  then show ?thesis
    using length_low_digits [of "unat w" 10 10] length_radix [of 10 "unat w"] False by (simp add: unat_gt_0)
qed

lemma rap_init_small: "length (table_text (rap_init addr)) < 0x10000"
  using length_radix10 [of "addr 0"] length_radix10 [of "addr 1"] length_radix10 [of "addr 2"]
    length_radix10 [of "addr 3"] length_radix10 [of "addr 4"] length_radix10 [of "addr 5"]
    length_radix10 [of "addr 6"] length_radix10 [of "addr 7"] length_radix10 [of "addr 8"]
    length_radix10 [of "addr 9"] length_radix10 [of "addr 10"]
  by (simp add: rap_init_def table_text_def func_text_def params_text_def)

theorem rap_table_roundtrip_witness:
  "\<exists>obuf es. rap_read zeros (rap_init (\<lambda>i. 0xC0100000 + word_of_nat i)) (replicate 0x10000 0) 0x10000 = Inr obuf \<and>
     parseRap obuf = Inr es \<and> getRapAddr es (bytes ''getpid'' @ [0]) = Inr 0xC010000A"
proof -
  from rap_table_roundtrip [OF sample_inv(1) rap_init_ok rap_init_small, of "\<lambda>i. 0xC0100000 + word_of_nat i"]
  obtain obuf es where r: "rap_read zeros (rap_init (\<lambda>i. 0xC0100000 + word_of_nat i)) (replicate 0x10000 0) 0x10000 = Inr obuf"
    "parseRap obuf = Inr es"
    and a: "\<forall>n. 0 \<notin> set n \<longrightarrow> getRapAddr es (n @ [0]) = Inr (case List.find (\<lambda>f. rf_name f = n)
        (rap_init (\<lambda>i. 0xC0100000 + word_of_nat i)) of None \<Rightarrow> 0 | Some f \<Rightarrow> rf_raw f)"
    by blast
  have "getRapAddr es (bytes ''getpid'' @ [0]) = Inr 0xC010000A"
    using a [THEN spec, of "bytes ''getpid''"] by (simp add: rap_init_def)
  with r show ?thesis
    by blast
qed

end
