(* ===== verification/GrowingArray.thy ===== *)
theory GrowingArray
  imports Prelude
begin

text \<open>
  What the two growing arrays of the system have in common: how many elements a block of bytes
  holds, and the contract their clients rely on.
\<close>

text \<open>The elements that a number of bytes holds, and the slot at a byte offset.\<close>

definition slots :: "u32 \<Rightarrow> u32 \<Rightarrow> nat" where
  "slots n ts = unat (n * ts) div unat ts"

lemma slots_eq: "ts \<noteq> 0 \<Longrightarrow> unat n * unat ts < 2 ^ 32 \<Longrightarrow> slots n ts = unat n"
  by (simp add: slots_def unat_word_ariths unat_eq_0)

text \<open>What the clients of an array need: growing by one element, and checked access.\<close>

locale growing_array =
  fixes is_array :: "'v \<Rightarrow> 'a list \<Rightarrow> bool" and push :: "'v \<Rightarrow> 'a \<Rightarrow> 'v exec"
    and at :: "'v \<Rightarrow> u32 \<Rightarrow> 'a exec" and oob :: fault and bound :: nat
  assumes push_law: "is_array v xs \<Longrightarrow> length xs < bound \<Longrightarrow> \<exists>v'. push v x = Inr v' \<and> is_array v' (xs @ [x])"
    and at_law: "is_array v xs \<Longrightarrow> at v i =
        (if unat i < length xs then Inr (xs ! unat i) else Inl oob)"
begin

fun push_all :: "'v \<Rightarrow> 'a list \<Rightarrow> 'v exec" where
  "push_all v [] = Inr v"
| "push_all v (x # ys) = bindE (push v x) (\<lambda>v'. push_all v' ys)"

lemma push_all_is:
  "is_array v xs \<Longrightarrow> length xs + length ys \<le> bound \<Longrightarrow> \<exists>v'. push_all v ys = Inr v' \<and> is_array v' (xs @ ys)"
proof (induction ys arbitrary: v xs)
  case (Cons x ys)
  then obtain v' where "push v x = Inr v'" "is_array v' (xs @ [x])"
    using push_law [of v xs x] by auto
  then show ?case
    using Cons.IH [of v' "xs @ [x]"] Cons.prems by auto
qed simp

lemma at_pushed:
  assumes "is_array v xs" and "length xs + length ys \<le> bound" and "push_all v ys = Inr v'"
    and "unat i < length xs"
  shows "at v' i = at v i"
  using push_all_is [OF assms(1,2)] assms(3,4) at_law [OF assms(1), of i] at_law [of v' "xs @ ys" i]
  by (auto simp: nth_append)

end

end
