(* ===== verification/VelaVector.thy ===== *)
theory VelaVector
  imports GrowingArray
begin

text \<open>
  The growing array of the shader language, \<^verbatim>\<open>src/sbinSrc/de/lisp/lisp.c\<close>. The block \<open>arr\<close>
  points to is the list of its element slots, \<open>None\<close> one that was not written; \<^verbatim>\<open>mmap\<close> is taken
  to succeed. Sizes in bytes are products of 32-bit numbers and wrap around.
\<close>

record 'a vvec =
  vsize :: u32
  capac :: u32
  typesize :: u32
  vvarr :: "'a option list"

definition VEC_MIN_SIZE :: u32 where "VEC_MIN_SIZE = 5"

definition vectorInit :: "u32 \<Rightarrow> 'a vvec" where
  "vectorInit ts = \<lparr>vsize = 0, capac = VEC_MIN_SIZE, typesize = ts, vvarr = replicate (slots VEC_MIN_SIZE ts) None\<rparr>"

definition vec_resize :: "'a vvec \<Rightarrow> 'a vvec exec" where
  "vec_resize v =
     (let newCapac = capac v * 2;
          newArr = replicate (slots newCapac (typesize v)) None;
          n = slots (vsize v) (typesize v)
      in if n \<le> length newArr \<and> n \<le> length (vvarr v)
         then Inr (v\<lparr>vvarr := take n (vvarr v) @ drop n newArr, capac := newCapac\<rparr>)
         else Inl OutOfBounds)"

definition vectorPushBack :: "'a vvec \<Rightarrow> 'a \<Rightarrow> 'a vvec exec" where
  "vectorPushBack v e =
     bindE (if vsize v \<ge> capac v then vec_resize v else Inr v) (\<lambda>v1.
     let i = slots (vsize v1) (typesize v1) in
     if i < length (vvarr v1)
     then Inr (v1\<lparr>vvarr := (vvarr v1)[i := Some e], vsize := vsize v1 + 1\<rparr>)
     else Inl OutOfBounds)"

definition vectorAt :: "'a vvec \<Rightarrow> u32 \<Rightarrow> 'a exec" where
  "vectorAt v i =
     (if i \<ge> vsize v then Inl (Panic ''Vector OOB'')
      else let k = slots i (typesize v) in
        if k < length (vvarr v) then (case vvarr v ! k of None \<Rightarrow> Inl OutOfBounds | Some e \<Rightarrow> Inr e)
        else Inl OutOfBounds)"

text \<open>The list a vector stands for, as long as its block is smaller than 2 GiB.\<close>

definition vec_is :: "'a vvec \<Rightarrow> 'a list \<Rightarrow> bool" where
  "vec_is v xs \<longleftrightarrow> typesize v \<noteq> 0 \<and> unat (capac v) * unat (typesize v) < 2 ^ 32 \<and> 5 \<le> unat (capac v) \<and>
     unat (vsize v) = length xs \<and> length xs \<le> unat (capac v) \<and> length (vvarr v) = unat (capac v) \<and>
     take (length xs) (vvarr v) = List.map Some xs"

lemma slots_within:
  assumes "vec_is v xs" and "unat n \<le> unat (capac v)"
  shows "slots n (typesize v) = unat n"
proof (rule slots_eq)
  show "typesize v \<noteq> 0"
    using assms(1) by (simp add: vec_is_def)
  have "unat n * unat (typesize v) \<le> unat (capac v) * unat (typesize v)"
    using assms(2) by (rule mult_le_mono1)
  also have "\<dots> < 2 ^ 32"
    using assms(1) by (simp add: vec_is_def)
  finally show "unat n * unat (typesize v) < 2 ^ 32" .
qed

lemma vectorInit_is: "ts \<noteq> 0 \<Longrightarrow> 5 * unat ts < 2 ^ 32 \<Longrightarrow> vec_is (vectorInit ts) []"
  by (simp add: vec_is_def vectorInit_def VEC_MIN_SIZE_def slots_eq)

lemma vec_resize_is:
  assumes "vec_is v xs" and "length xs = unat (capac v)" and "2 * unat (capac v) * unat (typesize v) < 2 ^ 32"
  shows "\<exists>v'. vec_resize v = Inr v' \<and> vec_is v' xs \<and> length xs < unat (capac v') \<and>
    typesize v' = typesize v \<and> unat (capac v') = 2 * unat (capac v)"
proof -
  note inv = assms(1) [unfolded vec_is_def]
  have "1 \<le> unat (typesize v)"
    using inv by (simp add: Suc_le_eq unat_gt_0)
  then have "2 * unat (capac v) * 1 \<le> 2 * unat (capac v) * unat (typesize v)"
    by (rule mult_le_mono2)
  then have "2 * unat (capac v) * 1 < 2 ^ 32"
    using assms(3) by (rule le_less_trans)
  then have c: "unat (capac v * 2) = 2 * unat (capac v)"
    by (simp add: unat_word_ariths)
  have s: "slots (capac v * 2) (typesize v) = 2 * unat (capac v)"
    using slots_eq [of "typesize v" "capac v * 2"] inv assms(3) c by simp
  have n: "slots (vsize v) (typesize v) = length xs"
    using slots_within [OF assms(1), of "vsize v"] inv by simp
  let ?v = "v\<lparr>vvarr := vvarr v @ replicate (unat (capac v)) None, capac := capac v * 2\<rparr>"
  have full: "vvarr v = List.map Some xs"
    using inv assms(2) by (metis order_refl take_all)
  have "vec_resize v = Inr ?v"
    using inv assms(2) s n full by (simp add: vec_resize_def Let_def)
  moreover have "vec_is ?v xs"
    using inv assms(2,3) c by (simp add: vec_is_def)
  ultimately show ?thesis
    using c assms(2) inv by auto
qed

lemma push_is:
  assumes "vec_is v xs" and "2 * Suc (length xs) * unat (typesize v) < 2 ^ 32"
  shows "\<exists>v'. vectorPushBack v x = Inr v' \<and> vec_is v' (xs @ [x]) \<and> typesize v' = typesize v"
proof -
  note inv = assms(1) [unfolded vec_is_def]
  obtain v1 where v1: "(if vsize v \<ge> capac v then vec_resize v else Inr v) = Inr v1" "vec_is v1 xs"
    "length xs < unat (capac v1)" "typesize v1 = typesize v"
  proof (cases "vsize v \<ge> capac v")
    case True
    then have full: "length xs = unat (capac v)"
      using inv by (simp add: word_le_nat_alt)
    have "2 * length xs * unat (typesize v) \<le> 2 * Suc (length xs) * unat (typesize v)"
      by simp
    then have "2 * unat (capac v) * unat (typesize v) < 2 ^ 32"
      using assms(2) full by simp
    from vec_resize_is [OF assms(1) full this] True that show thesis
      by auto
  next
    case False
    then show thesis
      using that assms(1) inv by (simp add: word_le_nat_alt)
  qed
  note inv1 = v1(2) [unfolded vec_is_def]
  have i: "slots (vsize v1) (typesize v1) = length xs"
    using slots_within [OF v1(2), of "vsize v1"] inv1 by simp
  have "unat (capac v1) < 2 ^ 32"
    using unsigned_less [of "capac v1", where 'a = nat] by simp
  then have u: "unat (vsize v1 + 1) = length xs + 1"
    using inv1 v1(3) by (simp add: unat_word_ariths)
  let ?v = "v1\<lparr>vvarr := (vvarr v1)[length xs := Some x], vsize := vsize v1 + 1\<rparr>"
  have "vectorPushBack v x = Inr ?v"
    using v1(1,3) i inv1 by (simp add: vectorPushBack_def Let_def)
  moreover have "take (Suc (length xs)) ((vvarr v1)[length xs := Some x]) = List.map Some (xs @ [x])"
    using inv1 v1(3) by (simp add: take_Suc_conv_app_nth)
  then have "vec_is ?v (xs @ [x])"
    using inv1 v1(3) u by (simp add: vec_is_def)
  ultimately show ?thesis
    using v1(4) by auto
qed

lemma at_is:
  assumes "vec_is v xs"
  shows "vectorAt v i = (if unat i < length xs then Inr (xs ! unat i) else Inl (Panic ''Vector OOB''))"
proof (cases "unat i < length xs")
  case True
  note inv = assms [unfolded vec_is_def]
  have "slots i (typesize v) = unat i"
    using slots_within [OF assms, of i] inv True by simp
  moreover have "vvarr v ! unat i = Some (xs ! unat i)"
    using inv True by (metis nth_map nth_take)
  ultimately show ?thesis
    using inv True by (simp add: vectorAt_def word_le_nat_alt)
next
  case False
  then show ?thesis
    using assms by (simp add: vec_is_def vectorAt_def word_le_nat_alt)
qed

text \<open>The arrays of the interpreter: their elements have 4 to 24 bytes.\<close>

definition vela_array :: "'a vvec \<Rightarrow> 'a list \<Rightarrow> bool" where
  "vela_array v xs \<longleftrightarrow> vec_is v xs \<and> unat (typesize v) \<le> 24"

interpretation va: growing_array vela_array vectorPushBack vectorAt "Panic ''Vector OOB''" "2 ^ 26"
proof
  fix v :: "'a vvec" and xs x
  assume a: "vela_array v xs" "length xs < 2 ^ 26"
  have "2 * Suc (length xs) * unat (typesize v) \<le> 2 * 2 ^ 26 * 24"
    using a by (intro mult_le_mono) (simp_all add: vela_array_def)
  then show "\<exists>v'. vectorPushBack v x = Inr v' \<and> vela_array v' (xs @ [x])"
    using push_is [of v xs x] a(1) by (auto simp: vela_array_def)
qed (simp add: vela_array_def at_is)

text \<open>The growing array of the interpreter behaves like a list: pushing appends, whatever
  reallocations that takes, and an access gives the element or stops at an index out of range
  (for the element sizes the interpreter uses, up to 2^26 elements).\<close>

theorem vector_refines_list:
  assumes "vela_array v xs" and "length xs < 2 ^ 26"
  shows "\<exists>v'. vectorPushBack v x = Inr v' \<and> vela_array v' (xs @ [x]) \<and>
    (\<forall>i. vectorAt v' i = (if unat i < length (xs @ [x]) then Inr ((xs @ [x]) ! unat i)
                          else Inl (Panic ''Vector OOB'')))"
  using va.push_law [OF assms, of x] va.at_law by blast

theorem vector_refines_list_witness:
  "\<exists>v'. vectorPushBack (vectorInit 4) (7 :: u32) = Inr v' \<and> vectorAt v' 0 = Inr 7"
proof -
  have "vela_array (vectorInit 4 :: u32 vvec) []"
    using vectorInit_is [of 4] by (simp add: vela_array_def vectorInit_def)
  from vector_refines_list [OF this, of 7] show ?thesis
    by auto
qed

end
