(* ===== verification/VelaSyntax.thy ===== *)
theory VelaSyntax
  imports Stdio VelaVector
begin

text \<open>
  The shader language of the desktop, \<^verbatim>\<open>src/sbinSrc/de/lisp/lisp.c\<close>: views, tokens and the
  parser. The source text is the list of the bytes of its buffer from the current position on;
  a view into it is the bytes it shows. The token array and the item lists are lists, by theory
  \<open>VelaVector\<close>. A stop of the program (\<^verbatim>\<open>for (;;)\<close> behind a message) is a \<open>Panic\<close>.
\<close>

section \<open>Views\<close>

definition isSkippable :: "u8 \<Rightarrow> bool" where
  "isSkippable c \<longleftrightarrow> c = 32 \<or> c = 10 \<or> c = 9"

definition svEq :: "u8 list \<Rightarrow> u8 list \<Rightarrow> bool" where
  "svEq a b = (if length a \<noteq> length b then False else list_all (\<lambda>i. a ! i = b ! i) [0..<length a])"

text \<open>
  \<^verbatim>\<open>svEqLit\<close> looks at the characters of the view only. A name never holds a zero byte
  (\<open>tokenize_names\<close> below), so the comparison stops at the end of the literal at the latest.
\<close>

fun svEqLit :: "u8 list \<Rightarrow> string \<Rightarrow> bool" where
  "svEqLit [] lit = True"
| "svEqLit (c # cs) [] = False"
| "svEqLit (c # cs) (l # ls) = (if c \<noteq> word_of_nat (of_char l) then False else svEqLit cs ls)"

section \<open>Tokens\<close>

datatype ttype = TT_OPENPAREN | TT_CLOSEPAREN | TT_INTLIT | TT_STRLIT | TT_IDENT

record token =
  t_conts :: "u8 list"
  t_type :: ttype

definition makeToken :: "u8 list \<Rightarrow> ttype \<Rightarrow> token" where
  "makeToken c t = \<lparr>t_conts = c, t_type = t\<rparr>"

definition isIdent :: "u8 \<Rightarrow> bool" where
  "isIdent c \<longleftrightarrow> isalpha c \<or> isdigit c \<or> c \<in> {95, 45, 43, 42, 47, 37, 94, 38, 124, 126}"

text \<open>The scanning loops: the number of characters that satisfy the test.\<close>

fun scan_while :: "(u8 \<Rightarrow> bool) \<Rightarrow> u8 list \<Rightarrow> nat exec" where
  "scan_while P [] = Inl OutOfBounds"
| "scan_while P (c # s) = (if P c then bindE (scan_while P s) (\<lambda>n. Inr (Suc n)) else Inr 0)"

definition push_front :: "token \<Rightarrow> token list exec \<Rightarrow> token list exec" where
  "push_front t r = bindE r (\<lambda>ts. Inr (t # ts))"

lemma push_front_cong [fundef_cong]: "t = t' \<Longrightarrow> r = r' \<Longrightarrow> push_front t r = push_front t' r'"
  by simp

function tokenize :: "u8 list \<Rightarrow> token list exec" where
  "tokenize [] = Inl OutOfBounds"
| "tokenize (c # s) =
     (if c = 0 then Inr []
      else if isSkippable c then tokenize s
      else if c = 40 then push_front (makeToken [40] TT_OPENPAREN) (tokenize s)
      else if c = 41 then push_front (makeToken [41] TT_CLOSEPAREN) (tokenize s)
      else if c = 34 then
        bindE (scan_while (\<lambda>x. x \<noteq> 34) s) (\<lambda>n.
        push_front (makeToken (take n s) TT_STRLIT) (tokenize (drop (Suc n) s)))
      else if c = 59 then
        bindE (scan_while (\<lambda>x. x \<noteq> 10) (c # s)) (\<lambda>n. tokenize (drop n s))
      else if isdigit c then
        bindE (scan_while isdigit (c # s)) (\<lambda>n.
        push_front (makeToken (take n (c # s)) TT_INTLIT) (tokenize (drop (n - 1) s)))
      else if isIdent c then
        bindE (scan_while isIdent (c # s)) (\<lambda>n.
        push_front (makeToken (take n (c # s)) TT_IDENT) (tokenize (drop (n - 1) s)))
      else tokenize s)"
  by pat_completeness auto
termination
  by (relation "measure length") auto

text \<open>Debug output of the tokens.\<close>

fun token_name :: "ttype \<Rightarrow> string" where
  "token_name TT_OPENPAREN = ''OPENPAREN''"
| "token_name TT_CLOSEPAREN = ''CLOSEPAREN''"
| "token_name TT_INTLIT = ''INTLIT''"
| "token_name TT_STRLIT = ''STRLIT''"
| "token_name TT_IDENT = ''IDENT''"

definition printTok :: "token \<Rightarrow> u8 list exec" where
  "printTok t = user_printf (bytes ''Token {Type=%s,Conts=%s}'' @ [10, 0])
     [AStr (bytes (token_name (t_type t)) @ [0]), AStr (t_conts t @ [0])]"

fun printTs :: "token list \<Rightarrow> u8 list exec" where
  "printTs [] = Inr []"
| "printTs (t # ts) = bindE (printTok t) (\<lambda>o1. bindE (printTs ts) (\<lambda>o2. Inr (o1 @ o2)))"

section \<open>Expressions\<close>

datatype expr = EInt u32 | EString "u8 list" | ESymbol "u8 list" | EList "expr list"

text \<open>
  The parser over the token array; the recursion and its loop have fuel in common, one more than
  twice the number of tokens is always enough (\<open>parse_fuel_enough\<close>).
\<close>

definition token_at :: "token list \<Rightarrow> nat \<Rightarrow> token exec" where
  "token_at ts pos = (if pos < length ts then Inr (ts ! pos) else Inl (Panic ''Vector OOB''))"

fun parseExpr :: "nat \<Rightarrow> token list \<Rightarrow> nat \<Rightarrow> (expr \<times> nat) exec"
  and parseList :: "nat \<Rightarrow> token list \<Rightarrow> nat \<Rightarrow> expr list \<Rightarrow> (expr \<times> nat) exec" where
  "parseExpr 0 ts pos = Inl Hang"
| "parseExpr (Suc k) ts pos =
     bindE (token_at ts pos) (\<lambda>tok. case t_type tok of
         TT_INTLIT \<Rightarrow> bindE (stoi (t_conts tok @ [0])) (\<lambda>v. Inr (EInt v, pos + 1))
       | TT_STRLIT \<Rightarrow> Inr (EString (t_conts tok), pos + 1)
       | TT_IDENT \<Rightarrow> Inr (ESymbol (t_conts tok), pos + 1)
       | TT_OPENPAREN \<Rightarrow> parseList k ts (pos + 1) []
       | TT_CLOSEPAREN \<Rightarrow> Inl (Panic ''Unknown symbol''))"
| "parseList 0 ts pos items = Inl Hang"
| "parseList (Suc k) ts pos items =
     bindE (token_at ts pos) (\<lambda>tok.
     if t_type tok = TT_CLOSEPAREN then Inr (EList items, pos + 1)
     else bindE (parseExpr k ts pos) (\<lambda>(child, pos').
       parseList k ts pos' (items @ [child])))"

definition parse_fuel :: "token list \<Rightarrow> nat" where
  "parse_fuel ts = 2 * length ts + 1"

fun printIndent :: "nat \<Rightarrow> u8 list" where
  "printIndent 0 = []"
| "printIndent (Suc n) = bytes ''  '' @ printIndent n"

fun printExpr :: "expr \<Rightarrow> nat \<Rightarrow> u8 list exec" and printExprs :: "expr list \<Rightarrow> nat \<Rightarrow> u8 list exec" where
  "printExpr (EInt v) ind =
     bindE (user_printf (bytes ''INT: %u'' @ [10, 0]) [AInt v]) (\<lambda>t. Inr (printIndent ind @ t))"
| "printExpr (EString s) ind =
     bindE (user_printf (bytes ''STRING: \"%s\"'' @ [10, 0]) [AStr (s @ [0])]) (\<lambda>t. Inr (printIndent ind @ t))"
| "printExpr (ESymbol s) ind =
     bindE (user_printf (bytes ''SYMBOL: %s'' @ [10, 0]) [AStr (s @ [0])]) (\<lambda>t. Inr (printIndent ind @ t))"
| "printExpr (EList es) ind =
     bindE (user_printf (bytes ''LIST'' @ [10, 0]) []) (\<lambda>t.
     bindE (printExprs es (ind + 1)) (\<lambda>r. Inr (printIndent ind @ t @ r)))"
| "printExprs [] ind = Inr []"
| "printExprs (e # es) ind = bindE (printExpr e ind) (\<lambda>t. bindE (printExprs es ind) (\<lambda>r. Inr (t @ r)))"

section \<open>The printed form\<close>

text \<open>
  The text of an expression and the tokens it is made of. An integer is its decimal text, which
  only non-negative numbers have in this language; a list puts a space behind every item.
\<close>

fun expr_tokens :: "expr \<Rightarrow> token list" where
  "expr_tokens (EInt v) = [makeToken (radix 10 (unat v)) TT_INTLIT]"
| "expr_tokens (EString s) = [makeToken s TT_STRLIT]"
| "expr_tokens (ESymbol s) = [makeToken s TT_IDENT]"
| "expr_tokens (EList es) =
     makeToken [40] TT_OPENPAREN # concat (List.map expr_tokens es) @ [makeToken [41] TT_CLOSEPAREN]"

fun expr_text :: "expr \<Rightarrow> u8 list" where
  "expr_text (EInt v) = radix 10 (unat v)"
| "expr_text (EString s) = [34] @ s @ [34]"
| "expr_text (ESymbol s) = s"
| "expr_text (EList es) = [40] @ concat (List.map (\<lambda>e. expr_text e @ [32]) es) @ [41]"

text \<open>Expressions that have a text: names are made of name characters and do not start with a digit.\<close>

fun expr_ok :: "expr \<Rightarrow> bool" where
  "expr_ok (EInt v) \<longleftrightarrow> True"
| "expr_ok (EString s) \<longleftrightarrow> 34 \<notin> set s"
| "expr_ok (ESymbol s) \<longleftrightarrow> s \<noteq> [] \<and> list_all isIdent s \<and> \<not> isdigit (hd s)"
| "expr_ok (EList es) \<longleftrightarrow> list_all expr_ok es"

section \<open>The tokenizer on printed text\<close>

lemma scan_while_prefix: "list_all P a \<Longrightarrow> \<not> P t \<Longrightarrow> scan_while P (a @ t # s) = Inr (length a)"
  by (induction a) auto

lemma special_not_ident:
  "\<not> isIdent 0" "\<not> isIdent 32" "\<not> isIdent 10" "\<not> isIdent 9" "\<not> isIdent 40" "\<not> isIdent 41" "\<not> isIdent 34" "\<not> isIdent 59"
  by code_simp+

lemma ident_not_special: "isIdent c \<Longrightarrow> c \<noteq> 0 \<and> \<not> isSkippable c \<and> c \<noteq> 40 \<and> c \<noteq> 41 \<and> c \<noteq> 34 \<and> c \<noteq> 59"
  using special_not_ident by (auto simp: isSkippable_def)

lemma digit_ident: "isdigit c \<Longrightarrow> isIdent c"
  by (simp add: isIdent_def)


text \<open>The character behind an item does not prolong it.\<close>

lemma tokenize_run:
  assumes "list_all isIdent a" and "a \<noteq> []" and "\<not> isIdent t"
  shows "tokenize (a @ t # s) =
    (if isdigit (hd a) then bindE (scan_while isdigit (a @ t # s)) (\<lambda>n.
        push_front (makeToken (take n (a @ t # s)) TT_INTLIT) (tokenize (drop n (a @ t # s))))
     else push_front (makeToken a TT_IDENT) (tokenize (t # s)))"
proof -
  obtain c b where a: "a = c # b"
    using assms(2) by (cases a) auto
  have c: "isIdent c" "list_all isIdent (c # b)"
    using assms(1) a by auto
  note special = ident_not_special [OF c(1)]
  show ?thesis
  proof (cases "isdigit c")
    case True
    have pos: "n = Suc (n - 1)" if "scan_while isdigit (c # b @ t # s) = Inr n" for n
      using that True by auto
    have "bindE (scan_while isdigit (c # b @ t # s)) (\<lambda>n.
        push_front (makeToken (take n (c # b @ t # s)) TT_INTLIT) (tokenize (drop (n - 1) (b @ t # s)))) =
      bindE (scan_while isdigit (c # b @ t # s)) (\<lambda>n.
        push_front (makeToken (take n (c # b @ t # s)) TT_INTLIT) (tokenize (drop n (c # b @ t # s))))"
      by (intro bindE_cong refl) (metis drop_Suc_Cons pos)
    then show ?thesis
      unfolding a append_Cons tokenize.simps(2) using True special by simp
  next
    case False
    have "scan_while isIdent (c # b @ t # s) = Inr (length (c # b))"
      using scan_while_prefix [OF c(2) assms(3)] by simp
    then show ?thesis
      unfolding a append_Cons tokenize.simps(2) using False special c(1) by simp
  qed
qed

lemma digit_run:
  assumes "list_all isdigit a" and "a \<noteq> []" and "\<not> isIdent t"
  shows "tokenize (a @ t # s) = push_front (makeToken a TT_INTLIT) (tokenize (t # s))"
proof -
  have "list_all isIdent a" "isdigit (hd a)" "\<not> isdigit t"
    using assms digit_ident by (auto simp: list_all_iff)
  then show ?thesis
    using tokenize_run [OF _ assms(2,3), of s] scan_while_prefix [OF assms(1), of t s] by simp
qed

lemma name_run:
  assumes "list_all isIdent a" and "a \<noteq> []" and "\<not> isdigit (hd a)" and "\<not> isIdent t"
  shows "tokenize (a @ t # s) = push_front (makeToken a TT_IDENT) (tokenize (t # s))"
  using tokenize_run [OF assms(1,2,4)] assms(3) by simp

lemma string_run: "34 \<notin> set a \<Longrightarrow> tokenize ([34] @ a @ 34 # s) = push_front (makeToken a TT_STRLIT) (tokenize s)"
proof -
  assume "34 \<notin> set a"
  then have "list_all (\<lambda>x. x \<noteq> 34) a"
    by (auto simp: list_all_iff)
  from scan_while_prefix [OF this, of 34 s] show ?thesis
    by (simp add: isSkippable_def)
qed

definition push_fronts :: "token list \<Rightarrow> token list exec \<Rightarrow> token list exec" where
  "push_fronts ts r = bindE r (\<lambda>us. Inr (ts @ us))"

lemma push_fronts_simps:
  "push_front t r = push_fronts [t] r" "push_fronts ts (push_fronts us r) = push_fronts (ts @ us) r"
  "push_fronts [] r = r"
  by (cases r; simp add: push_front_def push_fronts_def)+

lemma tokenize_text:
  assumes "expr_ok e" and "\<not> isIdent t"
  shows "tokenize (expr_text e @ t # s) = push_fronts (expr_tokens e) (tokenize (t # s))"
  using assms
proof (induction e arbitrary: t s)
  case (EInt v)
  then show ?case
    using digit_run [OF radix_digits radix_not_Nil] by (simp add: push_fronts_simps)
next
  case (EString x)
  then show ?case
    using string_run [of x "t # s"] by (simp add: push_fronts_simps)
next
  case (ESymbol x)
  then show ?case
    using name_run [of x t s] by (simp add: push_fronts_simps)
next
  case (EList es)
  have sep: "\<not> isIdent 32" "\<not> isdigit 41" "\<not> isIdent 41"
    by code_simp+
  have items: "list_all expr_ok xs \<Longrightarrow> set xs \<subseteq> set es \<Longrightarrow>
      tokenize (concat (List.map (\<lambda>e. expr_text e @ [32]) xs) @ r) =
        push_fronts (concat (List.map expr_tokens xs)) (tokenize r)" for xs r
  proof (induction xs)
    case (Cons x xs)
    then have "tokenize (expr_text x @ 32 # u) = push_fronts (expr_tokens x) (tokenize u)" for u
      using EList.IH [of x 32 u] sep(1) by (simp add: isSkippable_def)
    then show ?case
      using Cons by (simp add: push_fronts_simps)
  qed (simp add: push_fronts_simps)
  have "tokenize (expr_text (EList es) @ t # s) =
      push_front (makeToken [40] TT_OPENPAREN)
        (tokenize (concat (List.map (\<lambda>e. expr_text e @ [32]) es) @ 41 # t # s))"
    by (simp add: isSkippable_def)
  also have "\<dots> = push_fronts (expr_tokens (EList es)) (tokenize (t # s))"
    using items [of es "41 # t # s"] EList.prems by (simp add: isSkippable_def push_fronts_simps)
  finally show ?case .
qed


text \<open>Everything the tokenizer makes a name of is made of name characters.\<close>

lemma scan_while_list: "scan_while P s = Inr n \<Longrightarrow> list_all P (take n s) \<and> n < length s"
proof (induction s arbitrary: n)
  case (Cons c s)
  then show ?case
    by (cases "P c") auto
qed simp

lemma tokenize_names:
  "tokenize s = Inr ts \<Longrightarrow> t \<in> set ts \<Longrightarrow> t_type t = TT_IDENT \<Longrightarrow> t_conts t \<noteq> [] \<and> list_all isIdent (t_conts t)"
proof (induction s arbitrary: ts rule: tokenize.induct)
  case (2 c s)
  note IH = "2.IH" and prems = "2.prems"
  consider "c = 0" | "c \<noteq> 0" "isSkippable c" | "c = 40" | "c = 41" | "c = 34" | "c = 59"
    | "c \<notin> {0, 40, 41, 34, 59}" "\<not> isSkippable c"
    by blast
  then show ?case
  proof cases
    case 1
    then show ?thesis
      using prems by simp
  next
    case 2
    then show ?thesis
      using IH(1) prems by simp
  next
    case 3
    then obtain us where "tokenize s = Inr us" "ts = makeToken [40] TT_OPENPAREN # us"
      using prems(1) by (auto simp: push_front_def isSkippable_def)
    then show ?thesis
      using IH(2) 3 prems(2,3) by (auto simp: makeToken_def isSkippable_def)
  next
    case 4
    then obtain us where "tokenize s = Inr us" "ts = makeToken [41] TT_CLOSEPAREN # us"
      using prems(1) by (auto simp: push_front_def isSkippable_def)
    then show ?thesis
      using IH(3) 4 prems(2,3) by (auto simp: makeToken_def isSkippable_def)
  next
    case 5
    then obtain n us where "scan_while (\<lambda>x. x \<noteq> 34) s = Inr n" "tokenize (drop (Suc n) s) = Inr us"
      "ts = makeToken (take n s) TT_STRLIT # us"
      using prems(1) by (auto simp: push_front_def isSkippable_def)
    then show ?thesis
      using IH(4) [of n us] 5 prems(2,3) by (auto simp: makeToken_def isSkippable_def)
  next
    case 6
    then obtain n where n: "scan_while (\<lambda>x. x \<noteq> 10) (c # s) = Inr n" "tokenize (drop n s) = Inr ts"
      using prems(1) by (auto simp: isSkippable_def simp del: scan_while.simps)
    then show ?thesis
      using IH(5) [of n ts] 6 prems(2,3) by (simp add: isSkippable_def)
  next
    case 7
    show ?thesis
    proof (cases "isdigit c")
      case True
      then obtain n us where n: "scan_while isdigit (c # s) = Inr n" "tokenize (drop (n - 1) s) = Inr us"
        "ts = makeToken (take n (c # s)) TT_INTLIT # us"
        using 7 prems(1) by (auto simp: push_front_def simp del: scan_while.simps)
      then show ?thesis
        using IH(6) [of n us] 7 True prems(2,3) by (auto simp: makeToken_def)
    next
      case nd: False
      show ?thesis
      proof (cases "isIdent c")
        case True
        then obtain n us where n: "scan_while isIdent (c # s) = Inr n" "tokenize (drop (n - 1) s) = Inr us"
          "ts = makeToken (take n (c # s)) TT_IDENT # us"
          using 7 nd prems(1) by (auto simp: push_front_def simp del: scan_while.simps)
        have "n \<noteq> 0"
          using n(1) True by auto
        then show ?thesis
          using IH(7) [of n us] scan_while_list [OF n(1)] n 7 nd True prems(2,3) by (auto simp: makeToken_def)
      next
        case False
        then show ?thesis
          using IH(8) 7 nd prems by simp
      qed
    qed
  qed
qed simp

section \<open>The parser on printed tokens\<close>

lemma tokens_nonempty: "0 < length (expr_tokens e)"
  by (cases e) simp_all

lemma token_at_append: "token_at (us @ t # vs) (length us) = Inr t"
  by (simp add: token_at_def)

lemma parse_list_tokens:
  assumes "\<And>e k us vs. e \<in> set es \<Longrightarrow> 2 * length (expr_tokens e) \<le> k \<Longrightarrow>
      parseExpr k (us @ expr_tokens e @ vs) (length us) = Inr (e, length us + length (expr_tokens e))"
    and "2 * length (concat (List.map expr_tokens es)) + 1 \<le> k"
  shows "parseList k (us @ concat (List.map expr_tokens es) @ makeToken [41] TT_CLOSEPAREN # vs) (length us) items =
      Inr (EList (items @ es), length us + length (concat (List.map expr_tokens es)) + 1)"
  using assms
proof (induction es arbitrary: k us items)
  case Nil
  then show ?case
    by (cases k) (simp_all add: token_at_append makeToken_def)
next
  case (Cons e es)
  let ?r = "concat (List.map expr_tokens es) @ makeToken [41] TT_CLOSEPAREN # vs"
  obtain k' where k: "k = Suc k'"
    using Cons.prems(2) by (cases k) auto
  have fuel: "2 * length (expr_tokens e) \<le> k'" "2 * length (concat (List.map expr_tokens es)) + 1 \<le> k'"
  proof -
    have "2 * x \<le> k' \<and> 2 * y + 1 \<le> k'" if "2 * (x + y) + 1 \<le> Suc k'" "0 < x" for x y
      using that by auto
    then show "2 * length (expr_tokens e) \<le> k'" "2 * length (concat (List.map expr_tokens es)) + 1 \<le> k'"
      using Cons.prems(2) tokens_nonempty [of e] unfolding k list.map concat.simps length_append by metis+
  qed
  obtain t us' where t: "expr_tokens e = t # us'"
    using tokens_nonempty [of e] by (cases "expr_tokens e") auto
  have "t_type t \<noteq> TT_CLOSEPAREN"
    using t by (cases e) (auto simp: makeToken_def)
  moreover have "parseExpr k' (us @ expr_tokens e @ ?r) (length us) = Inr (e, length us + length (expr_tokens e))"
    using Cons.prems(1) fuel(1) by simp
  moreover have "parseList k' ((us @ expr_tokens e) @ ?r) (length (us @ expr_tokens e)) (items @ [e]) =
      Inr (EList ((items @ [e]) @ es), length (us @ expr_tokens e) + length (concat (List.map expr_tokens es)) + 1)"
    using Cons.prems(1) fuel(2) by (intro Cons.IH) auto
  moreover have "token_at (us @ expr_tokens e @ ?r) (length us) = Inr t"
    using t token_at_append by simp
  ultimately show ?case
    using k by simp
qed

lemma parse_tokens:
  "2 * length (expr_tokens e) \<le> k \<Longrightarrow>
     parseExpr k (us @ expr_tokens e @ vs) (length us) = Inr (e, length us + length (expr_tokens e))"
proof (induction e arbitrary: k us vs)
  case (EInt v)
  then show ?case
    by (cases k) (simp_all add: token_at_append makeToken_def stoi_radix)
next
  case (EString s)
  then show ?case
    by (cases k) (simp_all add: token_at_append makeToken_def)
next
  case (ESymbol s)
  then show ?case
    by (cases k) (simp_all add: token_at_append makeToken_def)
next
  case (EList es)
  let ?o = "makeToken [40] TT_OPENPAREN"
  obtain k' where k: "k = Suc k'"
    using EList.prems by (cases k) auto
  have "parseList k' ((us @ [?o]) @ concat (List.map expr_tokens es) @ makeToken [41] TT_CLOSEPAREN # vs)
      (length (us @ [?o])) [] =
    Inr (EList ([] @ es), length (us @ [?o]) + length (concat (List.map expr_tokens es)) + 1)"
    by (rule parse_list_tokens) (use EList k in auto)
  then show ?case
    using k token_at_append [of us ?o] by (simp add: makeToken_def)
qed

text \<open>The parser never runs out of fuel.\<close>

lemma parse_advances:
  "parseExpr k ts pos = Inr (e, pos') \<Longrightarrow> pos < pos' \<and> pos' \<le> length ts"
  "parseList k ts pos items = Inr (e, pos') \<Longrightarrow> pos < pos' \<and> pos' \<le> length ts"
proof (induction k ts pos and k ts pos items arbitrary: e pos' and e pos' rule: parseExpr_parseList.induct)
  case (2 k ts pos)
  obtain tok where t: "token_at ts pos = Inr tok" "pos < length ts"
    using "2.prems" by (cases "pos < length ts") (auto simp: token_at_def)
  show ?case
  proof (cases "t_type tok")
    case TT_OPENPAREN
    then show ?thesis
      using 2 t by fastforce
  qed (use 2 t in auto)
next
  case (4 k ts pos items)
  obtain tok where t: "token_at ts pos = Inr tok" "pos < length ts"
    using "4.prems" by (cases "pos < length ts") (auto simp: token_at_def)
  show ?case
  proof (cases "t_type tok = TT_CLOSEPAREN")
    case True
    then show ?thesis
      using 4 t by auto
  next
    case False
    then obtain child p where c: "parseExpr k ts pos = Inr (child, p)"
      "parseList k ts p (items @ [child]) = Inr (e, pos')"
      using "4.prems" t by auto
    from "4.IH"(1) [OF t(1) False c(1)] "4.IH"(2) [OF t(1) False c(1) refl c(2)] show ?thesis
      by linarith
  qed
qed auto

lemma parse_fuel_enough:
  "2 * (length ts - pos) < k \<Longrightarrow> parseExpr k ts pos \<noteq> Inl Hang"
  "2 * (length ts - pos) + 1 < k \<Longrightarrow> parseList k ts pos items \<noteq> Inl Hang"
proof (induction k ts pos and k ts pos items rule: parseExpr_parseList.induct)
  case (2 k ts pos)
  have st: "stoi s \<noteq> Inl Hang" for s
  proof -
    have "stoi_loop r s \<noteq> Inl Hang" for r s
      by (induction r s rule: stoi_loop.induct) auto
    then show ?thesis
      by (cases s) (auto simp: Let_def bindE_Inl_iff split: option.splits if_splits)
  qed
  show ?case
  proof (cases "pos < length ts")
    case True
    then have "2 * (length ts - (pos + 1)) + 1 < k"
      using "2.prems" by linarith
    then show ?thesis
      using "2.IH" True st by (auto simp: token_at_def bindE_Inl_iff split: ttype.splits)
  qed (simp add: token_at_def)
next
  case (4 k ts pos items)
  show ?case
  proof (cases "pos < length ts \<and> t_type (ts ! pos) \<noteq> TT_CLOSEPAREN")
    case True
    then have tok: "token_at ts pos = Inr (ts ! pos)" "t_type (ts ! pos) \<noteq> TT_CLOSEPAREN"
      by (simp_all add: token_at_def)
    have "2 * (length ts - pos) < k"
      using "4.prems" by linarith
    note ne = "4.IH"(1) [OF tok this]
    show ?thesis
    proof (cases "parseExpr k ts pos")
      case (Inl f)
      then show ?thesis
        using ne tok by simp
    next
      case (Inr r)
      obtain child p where r: "r = (child, p)"
        by (cases r)
      have "pos < p" "p \<le> length ts"
        using parse_advances(1) Inr r by blast+
      then have "2 * (length ts - p) + 1 < k"
        using "4.prems" by linarith
      from "4.IH"(2) [OF tok Inr r [symmetric] this] show ?thesis
        using tok Inr r by simp
    qed
  qed (auto simp: token_at_def)
qed auto

section \<open>Where an expression ends\<close>

text \<open>
  The scan that looks for the bracket that closes a list, with a counter of the open ones in place of the
  parser's recursion: the number of tokens up to and with that bracket. An expression is one token, or a
  bracket and what the scan finds behind it.
\<close>

fun closes :: "nat \<Rightarrow> token list \<Rightarrow> nat option" where
  "closes depth [] = None"
| "closes depth (t # ts) =
     (case t_type t of
        TT_OPENPAREN \<Rightarrow> map_option Suc (closes (depth + 1) ts)
      | TT_CLOSEPAREN \<Rightarrow> (if depth = 0 then Some 1 else map_option Suc (closes (depth - 1) ts))
      | _ \<Rightarrow> map_option Suc (closes depth ts))"

fun expr_end :: "token list \<Rightarrow> nat option" where
  "expr_end [] = None"
| "expr_end (t # ts) =
     (case t_type t of TT_OPENPAREN \<Rightarrow> map_option Suc (closes 0 ts) | TT_CLOSEPAREN \<Rightarrow> None | _ \<Rightarrow> Some 1)"

lemma plus_Suc_fun: "(+) (Suc m) = (\<lambda>x. Suc (m + x))"
  by (simp add: fun_eq_iff)

lemma closes_add:
  "closes (a + Suc b) ts = (case closes a ts of None \<Rightarrow> None | Some n \<Rightarrow> map_option ((+) n) (closes b (drop n ts)))"
proof (induction ts arbitrary: a)
  case (Cons t ts)
  show ?case
  proof (cases a)
    case 0
    then show ?thesis
      using Cons.IH [of 0] Cons.IH [of 1]
      by (auto simp: plus_Suc_fun option.map_comp o_def split: ttype.splits option.splits)
  next
    case (Suc a')
    then show ?thesis
      using Cons.IH [of "Suc a'"] Cons.IH [of "Suc (Suc a')"] Cons.IH [of a']
      by (auto simp: plus_Suc_fun option.map_comp o_def split: ttype.splits option.splits)
  qed
qed simp

definition parse_gives :: "nat \<Rightarrow> nat option \<Rightarrow> string \<Rightarrow> (expr \<times> nat) exec \<Rightarrow> bool" where
  "parse_gives pos n msg r \<longleftrightarrow>
     (case n of Some n \<Rightarrow> (\<exists>e. r = Inr (e, pos + n)) | None \<Rightarrow> r = Inl (Panic msg))"

lemma stoi_total: "\<exists>v. stoi (s @ [0]) = Inr v"
proof -
  have "\<exists>v. stoi_loop r (s @ [0]) = Inr v" for r s
    by (induction s arbitrary: r) auto
  note loop = this [of 0]
  show ?thesis
  proof (cases s)
    case (Cons c u)
    obtain v1 v2 where "stoi_loop 0 (c # u @ [0]) = Inr v1" "stoi_loop 0 (u @ [0]) = Inr v2"
      using loop [of "c # u"] loop [of u] by auto
    then show ?thesis
      by (simp add: Cons Let_def split: option.split del: stoi_loop.simps)
  qed simp
qed

lemma drop_token: "pos < length ts \<Longrightarrow> drop pos ts = ts ! pos # drop (Suc pos) ts"
  by (simp add: Cons_nth_drop_Suc)

lemma parse_ends:
  "2 * (length ts - pos) < k \<Longrightarrow>
     parse_gives pos (expr_end (drop pos ts))
       (if pos < length ts \<and> t_type (ts ! pos) = TT_CLOSEPAREN then ''Unknown symbol'' else ''Vector OOB'') (parseExpr k ts pos)"
  "2 * (length ts - pos) + 1 < k \<Longrightarrow>
     parse_gives pos (closes 0 (drop pos ts)) ''Vector OOB'' (parseList k ts pos items)"
proof (induction k ts pos and k ts pos items rule: parseExpr_parseList.induct)
  case (2 k ts pos)
  show ?case
  proof (cases "pos < length ts")
    case True
    then have fuel: "2 * (length ts - (pos + 1)) + 1 < k"
      using "2.prems" by linarith
    obtain v where v: "stoi (t_conts (ts ! pos) @ [0]) = Inr v"
      using stoi_total by blast
    have tok: "token_at ts pos = Inr (ts ! pos)"
      using True by (simp add: token_at_def)
    show ?thesis
    proof (cases "t_type (ts ! pos)")
      case TT_OPENPAREN
      from "2.IH" [OF tok this fuel] show ?thesis
        using TT_OPENPAREN True tok by (auto simp: parse_gives_def drop_token split: option.splits)
    qed (use True tok v in \<open>simp_all add: parse_gives_def drop_token\<close>)
  qed (simp add: token_at_def parse_gives_def)
next
  case (4 k ts pos items)
  show ?case
  proof (cases "pos < length ts \<and> t_type (ts ! pos) \<noteq> TT_CLOSEPAREN")
    case True
    then have tok: "token_at ts pos = Inr (ts ! pos)" "t_type (ts ! pos) \<noteq> TT_CLOSEPAREN"
      by (simp_all add: token_at_def)
    have "2 * (length ts - pos) < k"
      using "4.prems" by linarith
    note child = "4.IH"(1) [OF tok this]
    have split: "closes 0 (drop pos ts) = (case expr_end (drop pos ts) of None \<Rightarrow> None
        | Some n \<Rightarrow> map_option ((+) n) (closes 0 (drop (pos + n) ts)))"
      using True tok(2) closes_add [of 0 0 "drop (Suc pos) ts"]
      by (cases "t_type (ts ! pos)")
        (auto simp: drop_token plus_Suc_fun option.map_comp o_def add.commute split: option.splits)
    show ?thesis
    proof (cases "expr_end (drop pos ts)")
      case None
      then show ?thesis
        using child tok split True by (simp add: parse_gives_def)
    next
      case (Some n)
      then obtain e where e: "parseExpr k ts pos = Inr (e, pos + n)"
        using child by (auto simp: parse_gives_def)
      have "pos < pos + n" "pos + n \<le> length ts"
        using parse_advances(1) [OF e] by blast+
      then have "2 * (length ts - (pos + n)) + 1 < k"
        using "4.prems" by linarith
      from "4.IH"(2) [OF tok e refl this] show ?thesis
        using tok e Some split by (auto simp: parse_gives_def split: option.splits)
    qed
  qed (auto simp: token_at_def parse_gives_def drop_token)
qed auto

text \<open>The kinds of the tokens between two positions.\<close>

definition kinds :: "token list \<Rightarrow> nat \<Rightarrow> nat \<Rightarrow> ttype list" where
  "kinds ts p q = List.map t_type (take (q - p) (drop p ts))"

lemma kinds_split: "p \<le> q \<Longrightarrow> q \<le> r \<Longrightarrow> kinds ts p r = kinds ts p q @ kinds ts q r"
proof -
  assume "p \<le> q" "q \<le> r"
  then have "take (r - p) (drop p ts) = take (q - p) (drop p ts) @ take (r - q) (drop q ts)"
    using take_add [of "q - p" "r - q" "drop p ts"] by (simp add: add.commute)
  then show ?thesis
    by (simp add: kinds_def)
qed

lemma kinds_one: "p < length ts \<Longrightarrow> kinds ts p (Suc p) = [t_type (ts ! p)]"
  by (simp add: kinds_def drop_token)

lemma parse_kinds:
  "parseExpr k ts pos = Inr (e, p) \<Longrightarrow> List.map t_type (expr_tokens e) = kinds ts pos p"
  "parseList k ts pos items = Inr (e, p) \<Longrightarrow>
     \<exists>es. e = EList (items @ es) \<and> List.map t_type (concat (List.map expr_tokens es)) @ [TT_CLOSEPAREN] = kinds ts pos p"
proof (induction k ts pos and k ts pos items arbitrary: e p and e p rule: parseExpr_parseList.induct)
  case (2 k ts pos)
  obtain tok where t: "token_at ts pos = Inr tok" "pos < length ts" "tok = ts ! pos"
    using "2.prems" by (cases "pos < length ts") (auto simp: token_at_def)
  show ?case
  proof (cases "t_type tok")
    case TT_OPENPAREN
    then have l: "parseList k ts (pos + 1) [] = Inr (e, p)"
      using "2.prems" t(1) by simp
    have "pos + 1 < p"
      using parse_advances(2) [OF l] by simp
    then have "kinds ts pos p = TT_OPENPAREN # kinds ts (pos + 1) p"
      using kinds_split [of pos "pos + 1" p ts] kinds_one [OF t(2)] TT_OPENPAREN t(3) by simp
    then show ?thesis
      using "2.IH" [OF t(1) TT_OPENPAREN l] by (auto simp: makeToken_def)
  qed (use "2.prems" t in \<open>auto simp: makeToken_def kinds_one\<close>)
next
  case (4 k ts pos items)
  obtain tok where t: "token_at ts pos = Inr tok" "pos < length ts" "tok = ts ! pos"
    using "4.prems" by (cases "pos < length ts") (auto simp: token_at_def)
  show ?case
  proof (cases "t_type tok = TT_CLOSEPAREN")
    case True
    then show ?thesis
      using "4.prems" t by (auto simp: kinds_one)
  next
    case False
    then obtain child q where c: "parseExpr k ts pos = Inr (child, q)"
      "parseList k ts q (items @ [child]) = Inr (e, p)"
      using "4.prems" t by auto
    obtain es where es: "e = EList ((items @ [child]) @ es)"
        "List.map t_type (concat (List.map expr_tokens es)) @ [TT_CLOSEPAREN] = kinds ts q p"
      using "4.IH"(2) [OF t(1) False c(1) refl c(2)] by blast
    have "kinds ts pos p = kinds ts pos q @ kinds ts q p"
      using kinds_split parse_advances(1) [OF c(1)] parse_advances(2) [OF c(2)] by simp
    then show ?thesis
      using es "4.IH"(1) [OF t(1) False c(1)] by (intro exI [of _ "child # es"]) simp
  qed
qed auto

section \<open>Properties\<close>

text \<open>C8: every expression that can be written down is read back as it was: the parser gets from
  the tokens of its text, followed by any text that does not continue it, exactly the
  expression, and goes on behind it.\<close>

theorem vela_parse_print:
  assumes "expr_ok e" and "\<not> isIdent t" and "tokenize (t # s) = Inr rest"
  shows "\<exists>ts. tokenize (expr_text e @ t # s) = Inr ts \<and>
    parseExpr (parse_fuel ts) ts 0 = Inr (e, length (expr_tokens e)) \<and> drop (length (expr_tokens e)) ts = rest"
proof (intro exI conjI)
  show "tokenize (expr_text e @ t # s) = Inr (expr_tokens e @ rest)"
    using tokenize_text [OF assms(1,2)] assms(3) by (simp add: push_fronts_def)
  show "parseExpr (parse_fuel (expr_tokens e @ rest)) (expr_tokens e @ rest) 0 = Inr (e, length (expr_tokens e))"
    using parse_tokens [of e "parse_fuel (expr_tokens e @ rest)" "[]" rest] by (simp add: parse_fuel_def)
qed simp

theorem vela_parse_print_witness:
  "\<exists>ts. tokenize (bytes ''(set x 12 )'' @ [0]) = Inr ts \<and>
    parseExpr (parse_fuel ts) ts 0 = Inr (EList [ESymbol (bytes ''set''), ESymbol (bytes ''x''), EInt 12], 5)"
proof -
  let ?e = "EList [ESymbol (bytes ''set''), ESymbol (bytes ''x''), EInt 12]"
  have "expr_ok ?e" "\<not> isIdent 0"
    by code_simp+
  moreover have "tokenize [0] = Inr []"
    by simp
  ultimately obtain ts where ts: "tokenize (expr_text ?e @ [0]) = Inr ts"
    "parseExpr (parse_fuel ts) ts 0 = Inr (?e, length (expr_tokens ?e))"
    using vela_parse_print [of ?e 0 "[]"] by blast
  have "expr_text ?e = bytes ''(set x 12 )''"
    by (simp add: radix.simps digit_char_def)
  moreover have "length (expr_tokens ?e) = 5"
    by simp
  ultimately show ?thesis
    using ts by metis
qed

text \<open>C35: The parser gives an expression exactly where the scan with the counter finds the end of one, and
  goes on right behind that end; the expression is made of tokens of the kinds that stand there. Where it finds none the parser does not return: it stops with its message in an
  endless loop (a \<open>Panic\<close> of the model), \<^verbatim>\<open>Unknown symbol\<close> for a closing bracket in the place of an
  expression and the message of \<^verbatim>\<open>vectorAt\<close> for tokens that end before the bracket does. The fuel of the model is never
  what stops it.\<close>

theorem vela_parser_decides:
  "case expr_end (drop pos ts) of
     Some n \<Rightarrow> \<exists>e. parseExpr (parse_fuel ts) ts pos = Inr (e, pos + n) \<and>
       List.map t_type (expr_tokens e) = kinds ts pos (pos + n)
   | None \<Rightarrow> parseExpr (parse_fuel ts) ts pos =
       Inl (Panic (if pos < length ts \<and> t_type (ts ! pos) = TT_CLOSEPAREN then ''Unknown symbol'' else ''Vector OOB''))"
proof -
  have "2 * (length ts - pos) < parse_fuel ts"
    by (simp add: parse_fuel_def)
  from parse_ends(1) [OF this] parse_kinds(1) [of "parse_fuel ts" ts pos] show ?thesis
    by (auto simp: parse_gives_def split: option.splits simp del: parseExpr.simps)
qed

text \<open>The first of two expressions ends behind its sixth token; cut behind the fourth it has no end.\<close>

lemma expr_end_examples:
  "map_option (\<lambda>ts. (expr_end ts, expr_end (take 4 ts))) (case tokenize (bytes ''(a (b)) c'' @ [0]) of Inl _ \<Rightarrow> None | Inr ts \<Rightarrow> Some ts) =
     Some (Some 6, None)"
  by code_simp

text \<open>The tokenizer looks for the closing quote of a string, and for the newline behind a
  comment, without looking for the end of the source: a string that is not closed, or a comment on
  the last line, makes it read past the buffer.\<close>

theorem vela_unterminated_overreads:
  assumes "34 \<notin> set s" and "10 \<notin> set r"
  shows "tokenize ([34] @ s @ [0]) = Inl OutOfBounds \<and> tokenize ([59] @ r @ [0]) = Inl OutOfBounds"
proof -
  have scan: "list_all P x \<Longrightarrow> scan_while P x = Inl OutOfBounds" for P x
    by (induction x) auto
  have "list_all (\<lambda>x. x \<noteq> 34) (s @ [0])" "list_all (\<lambda>x. x \<noteq> 10) (59 # r @ [0])"
    using assms by (auto simp: list_all_iff)
  from scan [OF this(1)] scan [OF this(2)] show ?thesis
    by (simp add: isSkippable_def del: scan_while.simps)
qed

theorem vela_unterminated_overreads_witness:
  "tokenize (bytes ''\"abc'' @ [0]) = Inl OutOfBounds"
  using vela_unterminated_overreads [of "bytes ''abc''" "[]"] by simp

end
