(* ===== verification/VelaEval.thy ===== *)
theory VelaEval
  imports VelaSyntax "HOL-Library.Signed_Division"
begin

text \<open>
  The interpreter of the shader language, \<^verbatim>\<open>src/sbinSrc/de/lisp/lisp.c\<close>. An \<^verbatim>\<open>int\<close> is its 32
  bits; sums, differences and products wrap around, as the unoptimised build computes them, and
  dividing the least integer by -1 is an exception of the processor. The state holds the global
  environment, the last returned value, the text printed and the pixels drawn.
\<close>

section \<open>Values and the environment\<close>

datatype val = VNone | VInt u32 | VString "u8 list"

text \<open>
  Reading \<^verbatim>\<open>intVal\<close> of a value that is not an integer shows what the union holds there: the
  length of a string, and zero for no value.
\<close>

fun intVal :: "val \<Rightarrow> u32" where
  "intVal VNone = 0"
| "intVal (VInt i) = i"
| "intVal (VString s) = word_of_nat (length s)"

record fentry =
  fn_name :: "u8 list"
  fn_params :: "u8 list list"
  fn_body :: "expr list"

record vela =
  v_functions :: "fentry list"
  v_variables :: "(u8 list \<times> val) list"
  v_last :: val
  v_out :: "u8 list"
  v_pixels :: "(u32 \<times> u32 \<times> u32) list"

definition vela_init :: vela where
  "vela_init = \<lparr>v_functions = [], v_variables = [], v_last = VNone, v_out = [], v_pixels = []\<rparr>"

definition addFunction :: "vela \<Rightarrow> fentry \<Rightarrow> vela" where
  "addFunction s f = s\<lparr>v_functions := v_functions s @ [f]\<rparr>"

fun findFunction :: "fentry list \<Rightarrow> u8 list \<Rightarrow> fentry option" where
  "findFunction [] n = None"
| "findFunction (f # fs) n = (if svEq (fn_name f) n then Some f else findFunction fs n)"

fun functionExists :: "fentry list \<Rightarrow> u8 list \<Rightarrow> bool" where
  "functionExists [] n = False"
| "functionExists (f # fs) n = (if svEq (fn_name f) n then True else functionExists fs n)"

fun var_exists :: "(u8 list \<times> val) list \<Rightarrow> u8 list \<Rightarrow> bool" where
  "var_exists [] n = False"
| "var_exists (e # es) n = (if svEq (fst e) n then True else var_exists es n)"

definition createVariable :: "(u8 list \<times> val) list \<Rightarrow> u8 list \<Rightarrow> val \<Rightarrow> (u8 list \<times> val) list" where
  "createVariable vs n v = (if var_exists vs n then vs else vs @ [(n, v)])"

text \<open>
  The search of \<^verbatim>\<open>setVariable\<close>: an empty table falls through to an access out of bounds, a
  table without the name stops at its last entry.
\<close>

fun setVariable_at :: "(u8 list \<times> val) list \<Rightarrow> u8 list \<Rightarrow> val \<Rightarrow> (u8 list \<times> val) list exec" where
  "setVariable_at [] n v = Inl (Panic ''Undefined variable'')"
| "setVariable_at (e # es) n v =
     (if svEq n (fst e) then Inr ((fst e, v) # es)
      else bindE (setVariable_at es n v) (\<lambda>es'. Inr (e # es')))"

definition setVariable :: "(u8 list \<times> val) list \<Rightarrow> u8 list \<Rightarrow> val \<Rightarrow> (u8 list \<times> val) list exec" where
  "setVariable vs n v = (if vs = [] then Inl (Panic ''Vector OOB'') else setVariable_at vs n v)"

fun getVariable :: "(u8 list \<times> val) list \<Rightarrow> u8 list \<Rightarrow> val exec" where
  "getVariable [] n = Inl (Panic ''Undefined variable'')"
| "getVariable (e # es) n = (if svEq (fst e) n then Inr (snd e) else getVariable es n)"

section \<open>The sine\<close>

definition sin_PI :: int where "sin_PI = 3141"
definition TWO_PI :: int where "TWO_PI = 6283"

function wrap_down :: "int \<Rightarrow> int" where
  "wrap_down x = (if x > sin_PI then wrap_down (x - TWO_PI) else x)"
  by pat_completeness auto
termination
  by (relation "measure (\<lambda>x. nat (x + 10000))") (auto simp: sin_PI_def TWO_PI_def)

function wrap_up :: "int \<Rightarrow> int" where
  "wrap_up x = (if x < - sin_PI then wrap_up (x + TWO_PI) else x)"
  by pat_completeness auto
termination
  by (relation "measure (\<lambda>x. nat (10000 - x))") (auto simp: sin_PI_def TWO_PI_def)

declare wrap_down.simps [simp del] wrap_up.simps [simp del]

text \<open>No intermediate result leaves the range of an \<^verbatim>\<open>int\<close>.\<close>

definition sin_parabola :: "int \<Rightarrow> int" where
  "sin_parabola x = (x * (1000 - ((if x < 0 then - x else x) * 1000) sdiv sin_PI)) sdiv 1000"

definition sin_correct :: "int \<Rightarrow> int" where
  "sin_correct y = (225 * ((y * (if y < 0 then - y else y)) sdiv 1000 - y)) sdiv 1000 + y"

definition sinInt :: "u32 \<Rightarrow> u32" where
  "sinInt x = word_of_int (sin_correct (sin_parabola (wrap_up (wrap_down (sint x)))))"

section \<open>Calling a list\<close>

type_synonym ev = "expr \<Rightarrow> vela \<Rightarrow> (val \<times> vela) exec"

definition item :: "expr list \<Rightarrow> nat \<Rightarrow> expr exec" where
  "item es i = (if i < length es then Inr (es ! i) else Inl (Panic ''Vector OOB''))"

definition vela_print :: "vela \<Rightarrow> u8 list \<Rightarrow> farg list \<Rightarrow> vela exec" where
  "vela_print s fmt args = bindE (user_printf fmt args) (\<lambda>t. Inr (s\<lparr>v_out := v_out s @ t\<rparr>))"

definition is_math :: "u8 list \<Rightarrow> bool" where
  "is_math name \<longleftrightarrow> svEqLit name ''+'' \<or> svEqLit name ''-'' \<or> svEqLit name ''*'' \<or> svEqLit name ''/'' \<or>
     svEqLit name ''%'' \<or> svEqLit name ''^'' \<or> svEqLit name ''&'' \<or> svEqLit name ''|'' \<or> svEqLit name ''~''"

definition least_int :: u32 where "least_int = 0x80000000"

definition math_op :: "u8 list \<Rightarrow> u32 \<Rightarrow> u32 \<Rightarrow> u32 exec" where
  "math_op name a b =
     (if svEqLit name ''+'' then Inr (a + b)
      else if svEqLit name ''-'' then Inr (a - b)
      else if svEqLit name ''*'' then Inr (a * b)
      else if svEqLit name ''/'' then
        (if b = 0 then Inr 0
         else if a = least_int \<and> b = - 1 then Inl (Trap ''divide error'')
         else Inr (word_of_int (sint a sdiv sint b)))
      else if svEqLit name ''%'' then
        (if b = 0 then Inr 0
         else if a = least_int \<and> b = - 1 then Inl (Trap ''divide error'')
         else Inr (word_of_int (sint a smod sint b)))
      else if svEqLit name ''^'' then Inr (a XOR b)
      else if svEqLit name ''&'' then Inr (a AND b)
      else if svEqLit name ''|'' then Inr (a OR b)
      else Inr (NOT a))"

definition exec_math :: "ev \<Rightarrow> u8 list \<Rightarrow> expr list \<Rightarrow> vela \<Rightarrow> (val \<times> vela) exec" where
  "exec_math ev name es s =
     bindE (item es 1) (\<lambda>a. bindE (item es 2) (\<lambda>b.
     bindE (ev a s) (\<lambda>(va, s1). bindE (ev b s1) (\<lambda>(vb, s2).
     case va of VInt x \<Rightarrow>
       (case vb of VInt y \<Rightarrow> bindE (math_op name x y) (\<lambda>r. Inr (VInt r, s2))
        | _ \<Rightarrow> Inl (Panic ''Invalid type (math op)''))
     | _ \<Rightarrow> Inl (Panic ''Invalid type (math op)'')))))"

definition exec_glob :: "ev \<Rightarrow> expr list \<Rightarrow> vela \<Rightarrow> (val \<times> vela) exec" where
  "exec_glob ev es s =
     bindE (item es 1) (\<lambda>symb. bindE (item es 2) (\<lambda>initExpr.
     case symb of ESymbol n \<Rightarrow>
       bindE (ev initExpr s) (\<lambda>(v, s1). Inr (VNone, s1\<lparr>v_variables := createVariable (v_variables s1) n v\<rparr>))
     | _ \<Rightarrow> Inl (Panic ''Invalid type for expr (expected symbol)'')))"

definition exec_set :: "ev \<Rightarrow> expr list \<Rightarrow> vela \<Rightarrow> (val \<times> vela) exec" where
  "exec_set ev es s =
     bindE (item es 1) (\<lambda>symb. bindE (item es 2) (\<lambda>initExpr.
     case symb of ESymbol n \<Rightarrow>
       bindE (ev initExpr s) (\<lambda>(v, s1).
       bindE (setVariable (v_variables s1) n v) (\<lambda>vs. Inr (VNone, s1\<lparr>v_variables := vs\<rparr>)))
     | _ \<Rightarrow> Inl (Panic ''Usage: (var <name> <init>)'')))"

text \<open>The colour: one byte for each of red, green and blue, whatever the arguments are.\<close>

definition exec_rgb :: "ev \<Rightarrow> expr list \<Rightarrow> vela \<Rightarrow> (val \<times> vela) exec" where
  "exec_rgb ev es s =
     bindE (item es 1) (\<lambda>e1. bindE (item es 2) (\<lambda>e2. bindE (item es 3) (\<lambda>e3.
     bindE (ev e1 s) (\<lambda>(v1, s1). bindE (ev e2 s1) (\<lambda>(v2, s2). bindE (ev e3 s2) (\<lambda>(v3, s3).
     Inr (VInt (le32 (ucast (intVal v3)) (ucast (intVal v2)) (ucast (intVal v1)) 0), s3)))))))"

definition exec_print :: "ev \<Rightarrow> u8 list \<Rightarrow> expr list \<Rightarrow> vela \<Rightarrow> (val \<times> vela) exec" where
  "exec_print ev end_of_line es s =
     bindE (item es 1) (\<lambda>arg. bindE (ev arg s) (\<lambda>(v, s1).
     bindE (case v of VString t \<Rightarrow> vela_print s1 (bytes ''%s'' @ end_of_line @ [0]) [AStr (t @ [0])]
       | VInt i \<Rightarrow> vela_print s1 (bytes ''%u'' @ end_of_line @ [0]) [AInt i]
       | VNone \<Rightarrow> Inr s1) (\<lambda>s2. Inr (VNone, s2))))"

text \<open>
  The parameter names of \<^verbatim>\<open>defun\<close>, copied as C strings; a later \<^verbatim>\<open>svFromLit\<close> reads them up to
  the terminator.
\<close>

fun param_names :: "expr list \<Rightarrow> u8 list list exec" where
  "param_names [] = Inr []"
| "param_names (e # es) =
     (case e of ESymbol n \<Rightarrow> bindE (param_names es) (\<lambda>ns. Inr (cstr n # ns))
      | _ \<Rightarrow> Inl (Panic ''Expected type symbol in defun''))"

definition exec_defun :: "expr list \<Rightarrow> vela \<Rightarrow> (val \<times> vela) exec" where
  "exec_defun es s =
     bindE (item es 1) (\<lambda>fname. bindE (item es 2) (\<lambda>args.
     case args of EList ps \<Rightarrow>
       (case fname of ESymbol n \<Rightarrow>
          bindE (vela_print s (bytes ''Function name: \"%s\"'' @ [10, 0]) [AStr (n @ [0])]) (\<lambda>s1.
          bindE (param_names ps) (\<lambda>ns.
          bindE (item es 3) (\<lambda>_.
          Inr (VNone, addFunction s1 \<lparr>fn_name = n, fn_params = ns, fn_body = drop 3 es\<rparr>))))
        | _ \<Rightarrow> Inl (Panic ''Expected symbol (function name)''))
     | _ \<Rightarrow> Inl (Panic ''Expected list (param list)'')))"

definition exec_typename :: "expr list \<Rightarrow> vela \<Rightarrow> (val \<times> vela) exec" where
  "exec_typename es s =
     bindE (item es 1) (\<lambda>arg. case arg of ESymbol n \<Rightarrow>
       bindE (getVariable (v_variables s) n) (\<lambda>v. Inr (VString (case v of
           VInt i \<Rightarrow> bytes ''Integer'' | VString t \<Rightarrow> bytes ''String'' | VNone \<Rightarrow> bytes ''None''), s))
     | _ \<Rightarrow> Inl (Exit 1))"

definition exec_sin :: "ev \<Rightarrow> expr list \<Rightarrow> vela \<Rightarrow> (val \<times> vela) exec" where
  "exec_sin ev es s =
     bindE (item es 1) (\<lambda>arg. bindE (ev arg s) (\<lambda>(v, s1).
     Inr (case v of VInt i \<Rightarrow> VInt (sinInt i) | _ \<Rightarrow> VInt 0, s1)))"

definition exec_ret :: "ev \<Rightarrow> expr list \<Rightarrow> vela \<Rightarrow> (val \<times> vela) exec" where
  "exec_ret ev es s =
     bindE (item es 1) (\<lambda>arg. bindE (ev arg s) (\<lambda>(v, s1). Inr (VNone, s1\<lparr>v_last := v\<rparr>)))"

text \<open>The parameters are global variables; the first item of the call is the function.\<close>

fun bind_params :: "ev \<Rightarrow> u8 list list \<Rightarrow> nat \<Rightarrow> expr list \<Rightarrow> vela \<Rightarrow> vela exec" where
  "bind_params ev [] i es s = Inr s"
| "bind_params ev (p # ps) i es s =
     (let s0 = s\<lparr>v_variables := createVariable (v_variables s) p (VInt 0)\<rparr> in
      bindE (item es (i + 1)) (\<lambda>arg. bindE (ev arg s0) (\<lambda>(v, s1).
      bindE (setVariable (v_variables s1) p v) (\<lambda>vs.
      bind_params ev ps (i + 1) es (s1\<lparr>v_variables := vs\<rparr>)))))"

fun run_body :: "ev \<Rightarrow> expr list \<Rightarrow> vela \<Rightarrow> vela exec" where
  "run_body ev [] s = Inr s"
| "run_body ev (e # es) s = bindE (ev e s) (\<lambda>(_, s1). run_body ev es s1)"

definition exec_call :: "ev \<Rightarrow> u8 list \<Rightarrow> expr list \<Rightarrow> vela \<Rightarrow> (val \<times> vela) exec" where
  "exec_call ev name es s =
     (case findFunction (v_functions s) name of
        None \<Rightarrow> Inl (Panic ''Unknown function'')
      | Some f \<Rightarrow>
          bindE (bind_params ev (fn_params f) 0 es s) (\<lambda>s1.
          bindE (run_body ev (fn_body f) s1) (\<lambda>s2. Inr (v_last s2, s2))))"

definition execList :: "ev \<Rightarrow> expr list \<Rightarrow> vela \<Rightarrow> (val \<times> vela) exec" where
  "execList ev es s =
     bindE (item es 0) (\<lambda>first. case first of ESymbol name \<Rightarrow>
       if is_math name then exec_math ev name es s
       else if svEqLit name ''glob'' then exec_glob ev es s
       else if svEqLit name ''set'' then exec_set ev es s
       else if svEqLit name ''rgb'' then exec_rgb ev es s
       else if svEqLit name ''print'' then exec_print ev [] es s
       else if svEqLit name ''defun'' then exec_defun es s
       else if svEqLit name ''println'' then exec_print ev [10] es s
       else if svEqLit name ''typename'' then exec_typename es s
       else if svEqLit name ''sin'' then exec_sin ev es s
       else if svEqLit name ''ret'' then exec_ret ev es s
       else exec_call ev name es s
     | _ \<Rightarrow> Inl (Panic ''First item is not callable''))"

text \<open>Evaluation; the fuel bounds the depth of the recursion.\<close>

fun execExpr :: "nat \<Rightarrow> expr \<Rightarrow> vela \<Rightarrow> (val \<times> vela) exec" where
  "execExpr 0 e s = Inl Hang"
| "execExpr (Suc k) e s =
     (case e of
        EInt i \<Rightarrow> Inr (VInt i, s)
      | EString t \<Rightarrow> Inr (VString t, s)
      | ESymbol n \<Rightarrow> bindE (getVariable (v_variables s) n) (\<lambda>v. Inr (v, s))
      | EList es \<Rightarrow> execList (execExpr k) es s)"

section \<open>Running a shader\<close>

fun run_top :: "nat \<Rightarrow> nat \<Rightarrow> token list \<Rightarrow> nat \<Rightarrow> vela \<Rightarrow> vela exec" where
  "run_top k n ts pos s =
     (if pos < length ts
      then (case n of 0 \<Rightarrow> Inl Hang | Suc n' \<Rightarrow>
        bindE (parseExpr (parse_fuel ts) ts pos) (\<lambda>(e, pos').
        bindE (execExpr k e s) (\<lambda>(_, s1). run_top k n' ts pos' s1)))
      else Inr s)"

declare run_top.simps [simp del]

definition frag_params :: "fentry \<Rightarrow> u32 \<Rightarrow> u32 \<Rightarrow> vela \<Rightarrow> vela exec" where
  "frag_params f x y s =
     (let p0 = fn_params f ! 0; p1 = fn_params f ! 1 in
      bindE (setVariable (createVariable (v_variables s) p0 (VInt 0)) p0 (VInt x)) (\<lambda>vs.
      bindE (setVariable (createVariable vs p1 (VInt 0)) p1 (VInt y)) (\<lambda>vs'.
      Inr (s\<lparr>v_variables := vs'\<rparr>))))"

definition frag_pixel :: "nat \<Rightarrow> fentry \<Rightarrow> u32 \<Rightarrow> u32 \<Rightarrow> vela \<Rightarrow> vela exec" where
  "frag_pixel k f x y s =
     bindE (frag_params f x y s) (\<lambda>s1. bindE (run_body (execExpr k) (fn_body f) s1) (\<lambda>s2.
     Inr (s2\<lparr>v_pixels := v_pixels s2 @ [(intVal (v_last s2), x, y)]\<rparr>)))"

fun frag_column :: "nat \<Rightarrow> fentry \<Rightarrow> u32 \<Rightarrow> u32 list \<Rightarrow> vela \<Rightarrow> vela exec" where
  "frag_column k f x [] s = Inr s"
| "frag_column k f x (y # ys) s = bindE (frag_pixel k f x y s) (\<lambda>s1. frag_column k f x ys s1)"

fun frag_screen :: "nat \<Rightarrow> fentry \<Rightarrow> u32 list \<Rightarrow> u32 list \<Rightarrow> vela \<Rightarrow> vela exec" where
  "frag_screen k f [] ys s = Inr s"
| "frag_screen k f (x # xs) ys s = bindE (frag_column k f x ys s) (\<lambda>s1. frag_screen k f xs ys s1)"

text \<open>The loops count from zero to the width and to the height.\<close>

definition upto_u32 :: "u32 \<Rightarrow> u32 list" where
  "upto_u32 n = List.map word_of_nat [0..<unat n]"

definition lispRun :: "nat \<Rightarrow> u32 \<Rightarrow> u32 \<Rightarrow> u8 list \<Rightarrow> vela exec" where
  "lispRun k screenWidth screenHeight code =
     bindE (tokenize code) (\<lambda>ts.
     bindE (run_top k (length ts) ts 0 vela_init) (\<lambda>s.
     case findFunction (v_functions s) (bytes ''fragment'') of
       None \<Rightarrow> Inl (Panic ''Expected fragment function: none was found.'')
     | Some f \<Rightarrow>
         if length (fn_params f) \<noteq> 2
         then Inl (Panic ''Invalid signature of fragment shader: expected paramc==2'')
         else frag_screen k f (upto_u32 screenWidth) (upto_u32 screenHeight) s))"

section \<open>The variables as a map\<close>

lemma svEq_eq [simp]: "svEq a b \<longleftrightarrow> a = b"
proof (cases "length a = length b")
  case True
  then show ?thesis
    by (auto simp: svEq_def list_all_iff intro: nth_equalityI)
next
  case False
  then show ?thesis
    by (auto simp: svEq_def)
qed

lemma var_exists_iff: "var_exists vs n \<longleftrightarrow> map_of vs n \<noteq> None"
  by (induction vs) auto

lemma map_of_createVariable:
  "map_of (createVariable vs n v) = (if map_of vs n = None then (map_of vs)(n \<mapsto> v) else map_of vs)"
  by (auto simp: createVariable_def var_exists_iff map_add_def fun_eq_iff split: option.splits)

lemma setVariable_at_map:
  "map_of vs n \<noteq> None \<Longrightarrow> \<exists>vs'. setVariable_at vs n v = Inr vs' \<and> map_of vs' = (map_of vs)(n \<mapsto> v) \<and> List.map fst vs' = List.map fst vs"
  by (induction vs) (auto simp: fun_eq_iff)

lemma setVariable_map:
  assumes "map_of vs n \<noteq> None"
  shows "\<exists>vs'. setVariable vs n v = Inr vs' \<and> map_of vs' = (map_of vs)(n \<mapsto> v) \<and> List.map fst vs' = List.map fst vs"
  using setVariable_at_map [OF assms, of v] assms by (cases vs) (simp_all only: setVariable_def, auto)

lemma setVariable_undefined:
  "map_of vs n = None \<Longrightarrow> isl (setVariable vs n v)"
proof -
  have "map_of vs n = None \<Longrightarrow> isl (setVariable_at vs n v)" for vs
    by (induction vs) (auto split: if_splits simp: isl_def)
  then show "map_of vs n = None \<Longrightarrow> isl (setVariable vs n v)"
    by (simp add: setVariable_def)
qed

lemma getVariable_map:
  "getVariable vs n = (case map_of vs n of None \<Rightarrow> Inl (Panic ''Undefined variable'') | Some v \<Rightarrow> Inr v)"
  by (induction vs) auto

end
