(* ===== verification/VelaShader.thy ===== *)
theory VelaShader
  imports VelaEval
begin

text \<open>
  What the shader language does: its variables, its sine, which names reach a function, when
  evaluation ends, and the picture the program of the documentation (\<^verbatim>\<open>docs/shaderlang.md\<close>) draws.
\<close>

section \<open>Variables\<close>

text \<open>\<^verbatim>\<open>glob\<close> and \<^verbatim>\<open>set\<close> keep one value for each name: creating a variable that exists
  changes nothing, setting one changes that variable only, and setting one that was not created
  stops the program.\<close>

theorem vela_variables_are_a_map:
  "map_of (createVariable vs n v) = (case map_of vs n of None \<Rightarrow> (map_of vs)(n \<mapsto> v) | Some _ \<Rightarrow> map_of vs) \<and>
   (case map_of vs n of
      None \<Rightarrow> isl (setVariable vs n v)
    | Some _ \<Rightarrow> (\<exists>vs'. setVariable vs n v = Inr vs' \<and> map_of vs' = (map_of vs)(n \<mapsto> v))) \<and>
   getVariable vs n = (case map_of vs n of None \<Rightarrow> Inl (Panic ''Undefined variable'') | Some x \<Rightarrow> Inr x)"
proof (cases "map_of vs n")
  case None
  then show ?thesis
    using map_of_createVariable [of vs n v] setVariable_undefined [of vs n v] getVariable_map [of vs n] by simp
next
  case (Some x)
  then have "map_of vs n \<noteq> None"
    by simp
  from setVariable_map [OF this, of v] Some show ?thesis
    using map_of_createVariable [of vs n v] getVariable_map [of vs n] by auto
qed

section \<open>The names that reach a function\<close>

text \<open>The comparison of a name with a keyword ends with the name, so every beginning of a
  keyword is that keyword: functions called \<^verbatim>\<open>s\<close>, \<^verbatim>\<open>p\<close>, \<^verbatim>\<open>r\<close>, \<^verbatim>\<open>g\<close>, \<^verbatim>\<open>d\<close>, \<^verbatim>\<open>t\<close> or
  \<^verbatim>\<open>re\<close> can be defined but never called, whatever the environment.\<close>

theorem vela_keyword_prefixes:
  "execList ev (ESymbol (bytes ''s'') # es) st = exec_set ev (ESymbol (bytes ''s'') # es) st \<and>
   execList ev (ESymbol (bytes ''p'') # es) st = exec_print ev [] (ESymbol (bytes ''p'') # es) st \<and>
   execList ev (ESymbol (bytes ''r'') # es) st = exec_rgb ev (ESymbol (bytes ''r'') # es) st \<and>
   execList ev (ESymbol (bytes ''g'') # es) st = exec_glob ev (ESymbol (bytes ''g'') # es) st \<and>
   execList ev (ESymbol (bytes ''d'') # es) st = exec_defun (ESymbol (bytes ''d'') # es) st \<and>
   execList ev (ESymbol (bytes ''t'') # es) st = exec_typename (ESymbol (bytes ''t'') # es) st \<and>
   execList ev (ESymbol (bytes ''re'') # es) st = exec_ret ev (ESymbol (bytes ''re'') # es) st"
  by (simp add: execList_def item_def is_math_def)

definition keyword :: "u8 list \<Rightarrow> bool" where
  "keyword n \<longleftrightarrow> is_math n \<or> svEqLit n ''glob'' \<or> svEqLit n ''set'' \<or> svEqLit n ''rgb'' \<or> svEqLit n ''print'' \<or>
     svEqLit n ''defun'' \<or> svEqLit n ''println'' \<or> svEqLit n ''typename'' \<or> svEqLit n ''sin'' \<or> svEqLit n ''ret''"

lemma execList_call: "\<not> keyword n \<Longrightarrow> execList ev (ESymbol n # es) s = exec_call ev n (ESymbol n # es) s"
  by (simp add: keyword_def execList_def item_def)

section \<open>When evaluation ends\<close>

text \<open>Expressions that call no function of the program, and how deep they are.\<close>

fun builtin_only :: "expr \<Rightarrow> bool" where
  "builtin_only (EList es) \<longleftrightarrow>
     (case es of ESymbol n # _ \<Rightarrow> keyword n | _ \<Rightarrow> True) \<and> list_all builtin_only es"
| "builtin_only _ \<longleftrightarrow> True"

fun depth :: "expr \<Rightarrow> nat" where
  "depth (EList es) = Suc (fold (\<lambda>e. max (depth e)) es 0)"
| "depth _ = 0"

lemma le_fold_max: "m \<le> fold (\<lambda>e. max (f e)) xs (m :: nat)"
proof (induction xs arbitrary: m)
  case (Cons y ys)
  show ?case
    using Cons.IH [of "max (f y) m"] by simp
qed simp

lemma fold_max: "x \<in> set xs \<Longrightarrow> f x \<le> fold (\<lambda>e. max (f e)) xs (m :: nat)"
proof (induction xs arbitrary: m)
  case (Cons y ys)
  then show ?case
    using le_fold_max [of "max (f y) m" f ys] by auto
qed simp

lemma depth_item: "e \<in> set es \<Longrightarrow> depth e < depth (EList es)"
  using fold_max [of e es depth 0] by simp

lemma no_hang_user: "user_printf fmt args \<noteq> Inl Hang"
proof -
  have app: "appendChar out c \<noteq> Inl Hang" for out c
    by (simp add: appendChar_def)
  have str: "appendStr out s \<noteq> Inl Hang" for out s
    by (induction out s rule: appendStr.induct) (auto simp: appendChar_def split: if_splits)
  have rev: "append_back out s \<noteq> Inl Hang" for out s
    by (induction out s rule: append_back.induct) (auto simp: appendChar_def split: if_splits)
  have digits: "num_digits k n base \<noteq> Inl Hang" for k n base
    by (induction k n base rule: num_digits.induct)
      (subst num_digits.simps, auto simp: bindE_Inl_iff split: nat.splits)
  have num: "appendNum out n base \<noteq> Inl Hang" for out n base
    using app rev digits by (auto simp: appendNum_def bindE_Inl_iff)
  have dir: "fmt_directive d as out \<noteq> Inl Hang" for d as out
    using app str num by (auto simp: fmt_directive_def bindE_Inl_iff split: list.splits farg.splits if_splits)
  have loop: "fmt_loop fmt as out \<noteq> Inl Hang" for fmt as out
    using app dir by (induction fmt as out rule: fmt_loop.induct) (auto simp: bindE_Inl_iff split: list.splits)
  show ?thesis
    using loop app by (auto simp: user_printf_def puts_bytes_def strlen_eq bindE_Inl_iff split: if_splits)
qed

lemma no_hang_state:
  "setVariable vs n v \<noteq> Inl Hang" "getVariable vs n \<noteq> Inl Hang" "item es i \<noteq> Inl Hang"
  "vela_print s fmt args \<noteq> Inl Hang" "param_names es \<noteq> Inl Hang" "math_op name a b \<noteq> Inl Hang"
proof -
  have "setVariable_at vs n v \<noteq> Inl Hang" for vs
    by (induction vs) (auto simp: bindE_Inl_iff)
  then show "setVariable vs n v \<noteq> Inl Hang"
    by (simp add: setVariable_def)
  show "getVariable vs n \<noteq> Inl Hang"
    by (induction vs) auto
  show "item es i \<noteq> Inl Hang"
    by (simp add: item_def)
  show "vela_print s fmt args \<noteq> Inl Hang"
    using no_hang_user by (simp add: vela_print_def bindE_Inl_iff)
  show "param_names es \<noteq> Inl Hang"
    by (induction es) (auto simp: bindE_Inl_iff split: expr.splits)
  show "math_op name a b \<noteq> Inl Hang"
    by (simp add: math_op_def)
qed

lemma item_in: "item es i = Inr e \<Longrightarrow> e \<in> set es"
  by (auto simp: item_def split: if_splits)

lemma no_hang_list:
  assumes ev: "\<And>e s. e \<in> set es \<Longrightarrow> ev e s \<noteq> Inl Hang" and kw: "case es of ESymbol n # _ \<Rightarrow> keyword n | _ \<Rightarrow> True"
  shows "execList ev es s \<noteq> Inl Hang"
proof -
  have ev': "ev e s \<noteq> Inl Hang" if "item es i = Inr e" for e i s
    using ev item_in [OF that] by blast
  note facts = ev' no_hang_state
  have "exec_math ev name es s \<noteq> Inl Hang" for name s
    using facts by (auto simp: exec_math_def bindE_Inl_iff split: val.splits)
  moreover have "exec_glob ev es s \<noteq> Inl Hang" "exec_set ev es s \<noteq> Inl Hang" for s
    using facts by (auto simp: exec_glob_def exec_set_def bindE_Inl_iff split: expr.splits)
  moreover have "exec_rgb ev es s \<noteq> Inl Hang" for s
    using facts by (auto simp: exec_rgb_def bindE_Inl_iff)
  moreover have "exec_print ev nl es s \<noteq> Inl Hang" for nl s
    using facts by (auto simp: exec_print_def bindE_Inl_iff split: val.splits)
  moreover have "exec_defun es s \<noteq> Inl Hang" "exec_typename es s \<noteq> Inl Hang" for s
    using facts by (auto simp: exec_defun_def exec_typename_def bindE_Inl_iff split: expr.splits)
  moreover have "exec_sin ev es s \<noteq> Inl Hang" "exec_ret ev es s \<noteq> Inl Hang" for s
    using facts by (auto simp: exec_sin_def exec_ret_def bindE_Inl_iff)
  moreover have "keyword n" if "item es 0 = Inr (ESymbol n)" for n
    using kw that by (cases es) (auto simp: item_def)
  ultimately show ?thesis
    using no_hang_state(3) [of es 0]
    by (auto simp: execList_def bindE_Inl_iff keyword_def split: expr.splits if_splits)
qed

lemma builtin_no_hang: "builtin_only e \<Longrightarrow> depth e < k \<Longrightarrow> execExpr k e s \<noteq> Inl Hang"
proof (induction k arbitrary: e s)
  case (Suc k)
  show ?case
  proof (cases e)
    case (EList es)
    have "execExpr k x s' \<noteq> Inl Hang" if "x \<in> set es" for x s'
      using Suc.IH [of x s'] Suc.prems EList that depth_item [OF that] by (auto simp: list_all_iff)
    then show ?thesis
      using no_hang_list [of es "execExpr k" s] Suc.prems EList by auto
  qed (use no_hang_state in \<open>auto simp: bindE_Inl_iff\<close>)
qed simp

text \<open>Evaluating an expression that calls no function of the program always ends, with a
  recursion no deeper than its nesting.\<close>

theorem vela_builtin_terminates:
  assumes "builtin_only e"
  shows "execExpr (Suc (depth e)) e s \<noteq> Inl Hang"
  using assms by (intro builtin_no_hang) simp_all

theorem vela_builtin_terminates_witness:
  "execExpr 3 (EList [ESymbol (bytes ''+''), EInt 1, EList [ESymbol (bytes ''*''), EInt 2, EInt 3]]) vela_init \<noteq> Inl Hang"
proof -
  let ?e = "EList [ESymbol (bytes ''+''), EInt 1, EList [ESymbol (bytes ''*''), EInt 2, EInt 3]]"
  have "builtin_only ?e" and d: "Suc (depth ?e) = 3"
    by (simp_all add: keyword_def is_math_def)
  from vela_builtin_terminates [OF this(1), of vela_init] show ?thesis
    unfolding d .
qed

text \<open>The language has no conditional, so a function that calls itself can never return: once
  the first expression of its body is a call of the function, no amount of time and stack is
  enough.\<close>

theorem vela_recursion_never_returns:
  assumes "\<not> keyword n" and "findFunction (v_functions s) n = Some \<lparr>fn_name = n, fn_params = [],
      fn_body = EList [ESymbol n] # es\<rparr>"
  shows "execExpr k (EList [ESymbol n]) s = Inl Hang"
  by (induction k) (simp_all add: execList_call [OF assms(1)] exec_call_def assms(2))

theorem vela_recursion_never_returns_witness:
  "execExpr 1000 (EList [ESymbol (bytes ''loop'')])
     (addFunction vela_init \<lparr>fn_name = bytes ''loop'', fn_params = [], fn_body = [EList [ESymbol (bytes ''loop'')]]\<rparr>) =
   Inl Hang"
proof -
  have k: "\<not> keyword (bytes ''loop'')"
    by (simp add: keyword_def is_math_def)
  show ?thesis
    by (rule vela_recursion_never_returns [OF k, of _ "[]"]) (simp add: addFunction_def vela_init_def)
qed

section \<open>The sine\<close>

lemma wrap_down_le: "wrap_down x \<le> sin_PI"
  by (induction x rule: wrap_down.induct) (subst wrap_down.simps, auto)

lemma wrap_up_range: "x \<le> sin_PI \<Longrightarrow> - sin_PI \<le> wrap_up x \<and> wrap_up x \<le> sin_PI"
  by (induction x rule: wrap_up.induct) (subst wrap_up.simps, subst wrap_up.simps, auto simp: sin_PI_def TWO_PI_def)

lemma sdiv_pos: "0 \<le> a \<Longrightarrow> 0 < n \<Longrightarrow> a sdiv n = a div (n :: int)"
  by (cases "a = 0") (simp_all add: signed_divide_int_def)

lemma sdiv_neg: "(- a) sdiv 1000 = - (a sdiv (1000 :: int))"
  by (simp add: signed_divide_int_def)

lemma sin_parabola_odd: "sin_parabola (- x) = - sin_parabola x"
  by (cases "x < 0"; cases "x = 0") (auto simp: sin_parabola_def sdiv_neg [symmetric] algebra_simps)

lemma sin_parabola_pos:
  assumes "0 \<le> x" and "x \<le> sin_PI"
  shows "0 \<le> sin_parabola x" and "sin_parabola x \<le> 787"
proof -
  define a where "a = (x * 1000) div sin_PI"
  have a: "a * 3141 \<le> x * 1000" "x * 1000 \<le> a * 3141 + 3140"
    unfolding a_def sin_PI_def by linarith+
  have le: "a \<le> 1000" "0 \<le> a"
    using a assms by (auto simp: sin_PI_def)
  have eq: "sin_parabola x = (x * (1000 - a)) div 1000"
    using assms le by (simp add: sin_parabola_def a_def sdiv_pos sin_PI_def)
  show "0 \<le> sin_parabola x"
    using le assms by (simp add: eq pos_imp_zdiv_nonneg_iff)
  have "0 \<le> (x - 1572) * (x - 1572)"
    by (rule zero_le_square)
  then have sq: "x * (3144 - x) \<le> 1572 * 1572"
    by (simp add: algebra_simps)
  have "x * (3141 * (1000 - a)) \<le> x * (3144140 - 1000 * x)"
    using a assms by (intro mult_left_mono) auto
  also have "\<dots> = 1000 * (x * (3144 - x)) + 140 * x"
    by (simp add: algebra_simps)
  also have "\<dots> \<le> 1000 * (1572 * 1572) + 140 * 3141"
    using sq assms by (simp add: sin_PI_def)
  finally have "x * (1000 - a) * 3141 \<le> 2471623740"
    by (simp add: algebra_simps)
  then have "x * (1000 - a) < 788000"
    by linarith
  then show "sin_parabola x \<le> 787"
    unfolding eq by linarith
qed

lemma sin_correct_odd: "sin_correct (- y) = - sin_correct y"
proof -
  have "sin_correct (- y) = - sin_correct y" if "0 < y" for y
  proof -
    have "(- y * y) sdiv 1000 = - ((y * y) sdiv 1000)"
      using sdiv_neg [of "y * y"] by simp
    moreover have "225 * (- ((y * y) sdiv 1000) + y) = - (225 * ((y * y) sdiv 1000 - y))"
      by (simp add: algebra_simps)
    ultimately show ?thesis
      using that sdiv_neg [of "225 * ((y * y) sdiv 1000 - y)"] by (simp add: sin_correct_def)
  qed
  from this [of y] this [of "- y"] show ?thesis
    by (cases "y = 0"; cases "0 < y") (auto simp: sin_correct_def)
qed

lemma sin_correct_pos:
  assumes "0 \<le> y" and "y \<le> 787"
  shows "0 \<le> sin_correct y" and "sin_correct y \<le> 787"
proof -
  define q where "q = (y * y) div 1000"
  have "y * y \<le> y * 787"
    using assms by (intro mult_left_mono)
  then have q: "0 \<le> q" "q \<le> y"
    using assms by (auto simp: q_def pos_imp_zdiv_nonneg_iff)
  have eq: "sin_correct y = - ((225 * (y - q)) div 1000) + y"
    using sdiv_neg [of "225 * (y - q)"] assms q
    by (simp add: sin_correct_def q_def sdiv_pos algebra_simps)
  show "0 \<le> sin_correct y" "sin_correct y \<le> 787"
    using q assms unfolding eq by (auto intro: order_trans [of _ "225 * (y - q)"])
qed

lemma sin_range: "\<bar>x\<bar> \<le> sin_PI \<Longrightarrow> \<bar>sin_correct (sin_parabola x)\<bar> \<le> 787"
proof -
  have pos: "\<bar>sin_correct (sin_parabola x)\<bar> \<le> 787" if "0 \<le> x" "x \<le> sin_PI" for x
    using sin_correct_pos [OF sin_parabola_pos [OF that]] by simp
  show "\<bar>x\<bar> \<le> sin_PI \<Longrightarrow> \<bar>sin_correct (sin_parabola x)\<bar> \<le> 787"
    using pos [of x] pos [of "- x"] by (cases "0 \<le> x") (auto simp: sin_parabola_odd sin_correct_odd)
qed

text \<open>Whatever the angle, in thousandths of a radian, the sine is within 787 of zero, so no step
  of it overflows and its value is the exact result of the arithmetic; it stops short of the 1000
  that the scale of the angle suggests: at a quarter turn it is 748.\<close>

theorem vela_sine_bounded:
  "sint (sinInt x) = sin_correct (sin_parabola (wrap_up (wrap_down (sint x)))) \<and>
   \<bar>sint (sinInt x)\<bar> \<le> 787 \<and> sinInt 1570 = 748"
proof -
  let ?v = "sin_correct (sin_parabola (wrap_up (wrap_down (sint x))))"
  have "\<bar>?v\<bar> \<le> 787"
    using wrap_up_range [OF wrap_down_le [of "sint x"]] by (intro sin_range) auto
  moreover from this have "sint (sinInt x) = ?v"
    unfolding sinInt_def by (intro signed_take_bit_int_eq_self [THEN trans [OF sint_sbintrunc']]) auto
  moreover have "sinInt 1570 = 748"
    by (simp add: sinInt_def sin_correct_def sin_parabola_def wrap_up.simps wrap_down.simps sin_PI_def TWO_PI_def
        signed_divide_int_def)
  ultimately show ?thesis
    by simp
qed

section \<open>Running a program\<close>

lemma expr_tokens_nonempty: "expr_tokens e \<noteq> []"
  by (cases e) auto

lemma run_top_body:
  "length es \<le> n \<Longrightarrow>
   run_top k n (us @ concat (List.map expr_tokens es)) (length us) s = run_body (execExpr k) es s"
proof (induction es arbitrary: n us s)
  case Nil
  then show ?case
    by (subst run_top.simps) simp
next
  case (Cons e es)
  then obtain m where n: "n = Suc m" "length es \<le> m"
    by (cases n) auto
  let ?ts = "us @ expr_tokens e @ concat (List.map expr_tokens es)"
  have "parseExpr (parse_fuel ?ts) ?ts (length us) = Inr (e, length us + length (expr_tokens e))"
    by (rule parse_tokens) (simp add: parse_fuel_def)
  moreover have "run_top k m ?ts (length us + length (expr_tokens e)) = run_body (execExpr k) es"
    using Cons.IH [OF n(2), of "us @ expr_tokens e"] by (intro ext) simp
  ultimately show ?case
    using expr_tokens_nonempty [of e] by (subst run_top.simps) (simp add: n)
qed

lemma length_le_concat_tokens: "length es \<le> length (concat (List.map expr_tokens es))"
proof (induction es)
  case (Cons e es)
  then show ?case
    using expr_tokens_nonempty [of e] by (cases "expr_tokens e") auto
qed simp

lemma lispRun_exprs:
  assumes "tokenize code = Inr (concat (List.map expr_tokens es))"
  shows "lispRun k w h code = bindE (run_body (execExpr k) es vela_init) (\<lambda>s.
     case findFunction (v_functions s) (bytes ''fragment'') of
       None \<Rightarrow> Inl (Panic ''Expected fragment function: none was found.'')
     | Some f \<Rightarrow>
         if length (fn_params f) \<noteq> 2
         then Inl (Panic ''Invalid signature of fragment shader: expected paramc==2'')
         else frag_screen k f (upto_u32 w) (upto_u32 h) s)"
  using run_top_body [of es "length (concat (List.map expr_tokens es))" k "[]" vela_init, OF length_le_concat_tokens] by (simp add: lispRun_def assms)

section \<open>The program of the documentation\<close>

definition doc_shader :: "u8 list" where
  "doc_shader = bytes (''(println \"Hello, world!\")'' @ [CHR 0x0A] @ ''(defun fragment (x y) '' @ [CHR 0x0A] @
     ''    (ret (^ (% x y) (% y x))))'' @ [CHR 0x0A]) @ [0]"

abbreviation sym :: "string \<Rightarrow> expr" where "sym n \<equiv> ESymbol (bytes n)"

definition doc_body :: expr where
  "doc_body = EList [sym ''ret'', EList [sym ''^'', EList [sym ''%'', sym ''x'', sym ''y''],
     EList [sym ''%'', sym ''y'', sym ''x'']]]"

definition doc_exprs :: "expr list" where
  "doc_exprs = [EList [sym ''println'', EString (bytes ''Hello, world!'')],
     EList [sym ''defun'', sym ''fragment'', EList [sym ''x'', sym ''y''], doc_body]]"

definition doc_fentry :: fentry where
  "doc_fentry = \<lparr>fn_name = bytes ''fragment'', fn_params = [bytes ''x'', bytes ''y''], fn_body = [doc_body]\<rparr>"

definition doc_text :: "u8 list" where
  "doc_text = bytes (''Hello, world!'' @ [CHR 0x0A] @ ''Function name: \"fragment\"'' @ [CHR 0x0A])"

definition doc_pixel :: "u32 \<Rightarrow> u32 \<Rightarrow> u32" where
  "doc_pixel x y = (if y = 0 then 0 else x mod y) XOR (if x = 0 then 0 else y mod x)"

lemma doc_tokens: "tokenize doc_shader = Inr (concat (List.map expr_tokens doc_exprs))"
  by code_simp

lemma map_of_get: "map_of vs n = Some v \<Longrightarrow> getVariable vs n = Inr v"
  by (simp add: getVariable_map)

lemma smod_uint:
  fixes x y :: u32
  assumes "unat x < 2 ^ 31" and "unat y < 2 ^ 31" and "y \<noteq> 0"
  shows "word_of_int (sint x smod sint y) = x mod y"
proof -
  have s: "sint z = uint z" if "unat z < 2 ^ 31" for z :: u32
  proof -
    from that have "int (unat z) < int (2 ^ 31)"
      by (simp only: of_nat_less_iff)
    then have "uint z < 2 ^ 31"
      by simp
    moreover have "- (2 ^ 31) \<le> uint z"
      by (rule order_trans [OF _ uint_ge_0]) simp
    ultimately show ?thesis
      unfolding sint_uint by (intro signed_take_bit_int_eq_self) simp_all
  qed
  have "sint x smod sint y = uint x mod uint y"
    using s [OF assms(1)] s [OF assms(2)] by (cases "x = 0") (auto simp: signed_modulo_int_def signed_divide_int_def)
  then show ?thesis
    by (simp add: word_mod_def)
qed

lemma exec_mod:
  assumes "map_of (v_variables s) a = Some (VInt x)" and "map_of (v_variables s) b = Some (VInt y)"
    and "unat x < 2 ^ 31" and "unat y < 2 ^ 31"
  shows "execExpr (Suc (Suc k)) (EList [sym ''%'', ESymbol a, ESymbol b]) s = Inr (VInt (if y = 0 then 0 else x mod y), s)"
proof -
  have "x \<noteq> least_int"
    using assms(3) by (auto simp: least_int_def)
  then have "math_op (bytes ''%'') x y = Inr (if y = 0 then 0 else x mod y)"
    using smod_uint [OF assms(3,4)] by (simp add: math_op_def)
  then show ?thesis
    using map_of_get [OF assms(1)] map_of_get [OF assms(2)]
    by (simp add: execList_def exec_math_def is_math_def item_def)
qed

definition holds_xy :: "vela \<Rightarrow> u32 \<Rightarrow> u32 \<Rightarrow> bool" where
  "holds_xy s x y \<longleftrightarrow>
     map_of (v_variables s) (bytes ''x'') = Some (VInt x) \<and> map_of (v_variables s) (bytes ''y'') = Some (VInt y)"

lemma exec_xor:
  assumes "execExpr k e1 s = Inr (VInt a, s)" and "execExpr k e2 s = Inr (VInt b, s)"
  shows "execExpr (Suc k) (EList [sym ''^'', e1, e2]) s = Inr (VInt (a XOR b), s)"
  by (simp add: assms execList_def exec_math_def is_math_def item_def math_op_def)

lemma exec_ret_value:
  assumes "execExpr k e s = Inr (v, s)"
  shows "execExpr (Suc k) (EList [sym ''ret'', e]) s = Inr (VNone, s\<lparr>v_last := v\<rparr>)"
  by (simp add: assms execList_def exec_ret_def is_math_def item_def)

lemma doc_body_value:
  assumes "holds_xy s x y" and "unat x < 2 ^ 31" and "unat y < 2 ^ 31"
  shows "execExpr (4 + k) doc_body s = Inr (VNone, s\<lparr>v_last := VInt (doc_pixel x y)\<rparr>)"
proof -
  have "4 + k = Suc (Suc (Suc (Suc k)))"
    by simp
  then show ?thesis
    using assms unfolding doc_body_def doc_pixel_def holds_xy_def
    by (simp only:) (intro exec_ret_value exec_xor exec_mod; simp)
qed

lemma frag_params_holds:
  "\<exists>vs. frag_params doc_fentry x y s = Inr (s\<lparr>v_variables := vs\<rparr>) \<and> holds_xy (s\<lparr>v_variables := vs\<rparr>) x y"
proof -
  have ex: "\<exists>vs'. setVariable (createVariable vs n (VInt 0)) n v = Inr vs' \<and> map_of vs' = (map_of vs)(n \<mapsto> v)" for vs n v
  proof -
    have "map_of (createVariable vs n (VInt 0)) n \<noteq> None"
      by (simp add: map_of_createVariable)
    from setVariable_map [OF this, of v] show ?thesis
      by (auto simp: map_of_createVariable fun_eq_iff split: if_splits)
  qed
  obtain vs where vs: "setVariable (createVariable (v_variables s) (bytes ''x'') (VInt 0)) (bytes ''x'') (VInt x) = Inr vs"
      "map_of vs (bytes ''x'') = Some (VInt x)"
    using ex [of "v_variables s" "bytes ''x''" "VInt x"] by auto
  obtain vs' where vs': "setVariable (createVariable vs (bytes ''y'') (VInt 0)) (bytes ''y'') (VInt y) = Inr vs'"
      "map_of vs' = (map_of vs)(bytes ''y'' \<mapsto> VInt y)"
    using ex [of vs "bytes ''y''" "VInt y"] by auto
  show ?thesis
    using vs vs' by (intro exI [of _ vs']) (simp add: frag_params_def doc_fentry_def holds_xy_def)
qed

lemma doc_frag_pixel:
  assumes "unat x < 2 ^ 31" and "unat y < 2 ^ 31" and "4 \<le> k"
  shows "\<exists>s'. frag_pixel k doc_fentry x y s = Inr s' \<and> v_out s' = v_out s \<and>
    v_pixels s' = v_pixels s @ [(doc_pixel x y, x, y)]"
proof -
  obtain vs where vs: "frag_params doc_fentry x y s = Inr (s\<lparr>v_variables := vs\<rparr>)" "holds_xy (s\<lparr>v_variables := vs\<rparr>) x y"
    using frag_params_holds by blast
  have "execExpr k doc_body (s\<lparr>v_variables := vs\<rparr>) =
      Inr (VNone, s\<lparr>v_variables := vs, v_last := VInt (doc_pixel x y)\<rparr>)"
    using doc_body_value [OF vs(2) assms(1,2), of "k - 4"] assms(3) by simp
  then show ?thesis
    using vs(1) by (simp add: frag_pixel_def doc_fentry_def)
qed

lemma doc_frag_column:
  assumes "unat x < 2 ^ 31" and "4 \<le> k"
  shows "\<forall>y\<in>set ys. unat y < 2 ^ 31 \<Longrightarrow>
    \<exists>s'. frag_column k doc_fentry x ys s = Inr s' \<and> v_out s' = v_out s \<and>
      v_pixels s' = v_pixels s @ List.map (\<lambda>y. (doc_pixel x y, x, y)) ys"
proof (induction ys arbitrary: s)
  case (Cons y ys)
  obtain s1 where "frag_pixel k doc_fentry x y s = Inr s1" "v_out s1 = v_out s"
      "v_pixels s1 = v_pixels s @ [(doc_pixel x y, x, y)]"
    using doc_frag_pixel [OF assms(1) _ assms(2), of y s] Cons.prems by auto
  then show ?case
    using Cons.IH [of s1] Cons.prems by auto
qed simp

lemma doc_frag_screen:
  assumes "4 \<le> k" and "\<forall>y\<in>set ys. unat y < 2 ^ 31"
  shows "\<forall>x\<in>set xs. unat x < 2 ^ 31 \<Longrightarrow>
    \<exists>s'. frag_screen k doc_fentry xs ys s = Inr s' \<and> v_out s' = v_out s \<and>
      v_pixels s' = v_pixels s @ concat (List.map (\<lambda>x. List.map (\<lambda>y. (doc_pixel x y, x, y)) ys) xs)"
proof (induction xs arbitrary: s)
  case (Cons x xs)
  obtain s1 where "frag_column k doc_fentry x ys s = Inr s1" "v_out s1 = v_out s"
      "v_pixels s1 = v_pixels s @ List.map (\<lambda>y. (doc_pixel x y, x, y)) ys"
    using doc_frag_column [OF _ assms, of x s] Cons.prems by auto
  then show ?case
    using Cons.IH [of s1] Cons.prems by auto
qed simp

lemma upto_u32_less: "unat n \<le> 2 ^ 31 \<Longrightarrow> \<forall>i\<in>set (upto_u32 n). unat i < 2 ^ 31"
proof -
  have "unat (word_of_nat i :: u32) \<le> i" for i
    by (simp add: unat_of_nat)
  then show "unat n \<le> 2 ^ 31 \<Longrightarrow> \<forall>i\<in>set (upto_u32 n). unat i < 2 ^ 31"
    by (force simp: upto_u32_def intro: le_less_trans)
qed

lemma doc_print:
  "user_printf (bytes ''%s'' @ [10] @ [0]) [AStr (bytes ''Hello, world!'' @ [0])] = Inr (bytes ''Hello, world!'' @ [10])"
  "user_printf (bytes ''Function name: \"%s\"'' @ [10, 0]) [AStr (bytes ''fragment'' @ [0])] =
     Inr (bytes ''Function name: \"fragment\"'' @ [10])"
  by code_simp+

lemma doc_println:
  "execExpr (Suc (Suc k)) (EList [sym ''println'', EString (bytes ''Hello, world!'')]) s =
     Inr (VNone, s\<lparr>v_out := v_out s @ bytes ''Hello, world!'' @ [10]\<rparr>)"
proof -
  have "vela_print s (bytes ''%s'' @ [10] @ [0]) [AStr (bytes ''Hello, world!'' @ [0])] =
      Inr (s\<lparr>v_out := v_out s @ bytes ''Hello, world!'' @ [10]\<rparr>)"
    unfolding vela_print_def doc_print by simp
  then show ?thesis
    by (simp add: execList_def exec_print_def is_math_def item_def)
qed

lemma doc_defun:
  "execExpr (Suc k) (EList [sym ''defun'', sym ''fragment'', EList [sym ''x'', sym ''y''], doc_body]) s =
     Inr (VNone, s\<lparr>v_out := v_out s @ bytes ''Function name: \"fragment\"'' @ [10],
       v_functions := v_functions s @ [doc_fentry]\<rparr>)"
proof -
  have "vela_print s (bytes ''Function name: \"%s\"'' @ [10, 0]) [AStr (bytes ''fragment'' @ [0])] =
      Inr (s\<lparr>v_out := v_out s @ bytes ''Function name: \"fragment\"'' @ [10]\<rparr>)"
    unfolding vela_print_def doc_print by simp
  moreover have "param_names [sym ''x'', sym ''y''] = Inr [bytes ''x'', bytes ''y'']"
    by code_simp
  ultimately show ?thesis
    by (simp add: execList_def exec_defun_def is_math_def item_def addFunction_def doc_fentry_def)
qed

lemma doc_setup:
  "\<exists>s. run_body (execExpr (Suc (Suc k))) doc_exprs vela_init = Inr s \<and> v_functions s = [doc_fentry] \<and>
     v_out s = doc_text \<and> v_pixels s = []"
proof -
  let ?s1 = "vela_init\<lparr>v_out := bytes ''Hello, world!'' @ [10]\<rparr>"
  let ?s2 = "?s1\<lparr>v_out := doc_text, v_functions := [doc_fentry]\<rparr>"
  have "execExpr (Suc (Suc k)) (EList [sym ''println'', EString (bytes ''Hello, world!'')]) vela_init = Inr (VNone, ?s1)"
    unfolding doc_println by (simp add: vela_init_def)
  moreover have "execExpr (Suc (Suc k)) (EList [sym ''defun'', sym ''fragment'', EList [sym ''x'', sym ''y''], doc_body]) ?s1 =
      Inr (VNone, ?s2)"
    unfolding doc_defun by (simp add: vela_init_def doc_text_def)
  ultimately have "run_body (execExpr (Suc (Suc k))) doc_exprs vela_init = Inr ?s2"
    by (simp only: doc_exprs_def run_body.simps bindE.simps prod.case)
  then show ?thesis
    by (intro exI [of _ ?s2] conjI) (simp_all add: vela_init_def)
qed

text \<open>C9: the example program of the documentation prints its greeting and the name of the function it
  defines, and then draws, column by column, the exclusive or of the two remainders of each pixel's
  coordinates, a remainder by zero being zero, on any screen the display can have.\<close>

theorem vela_doc_program:
  assumes "4 \<le> k" and "unat w \<le> 2 ^ 31" and "unat h \<le> 2 ^ 31"
  shows "\<exists>s. lispRun k w h doc_shader = Inr s \<and> v_out s = doc_text \<and>
    v_pixels s = concat (List.map (\<lambda>x. List.map (\<lambda>y. (doc_pixel x y, x, y)) (upto_u32 h)) (upto_u32 w))"
proof -
  obtain k' where k: "k = Suc (Suc k')"
    using assms(1) le_Suc_ex [of 2 k] by auto
  obtain s where s: "run_body (execExpr k) doc_exprs vela_init = Inr s" "v_functions s = [doc_fentry]"
      "v_out s = doc_text" "v_pixels s = []"
    using doc_setup [of k'] unfolding k by blast
  have "findFunction (v_functions s) (bytes ''fragment'') = Some doc_fentry"
    by (simp add: s doc_fentry_def)
  moreover have "length (fn_params doc_fentry) = 2"
    by (simp add: doc_fentry_def)
  ultimately have "lispRun k w h doc_shader = frag_screen k doc_fentry (upto_u32 w) (upto_u32 h) s"
    using s(1) by (simp add: lispRun_exprs [OF doc_tokens])
  then show ?thesis
    using doc_frag_screen [OF assms(1) upto_u32_less [OF assms(3)] upto_u32_less [OF assms(2)], of s] s(3,4) by simp
qed

theorem vela_doc_program_witness:
  "\<exists>s. lispRun 4 2 3 doc_shader = Inr s \<and> v_out s = doc_text \<and>
    v_pixels s = [(0, 0, 0), (0, 0, 1), (0, 0, 2), (0, 1, 0), (0, 1, 1), (1, 1, 2)]"
proof -
  have up: "upto_u32 2 = [0, 1]" "upto_u32 3 = [0, 1, 2]"
    by (simp_all add: upto_u32_def upt_rec)
  show ?thesis
    using vela_doc_program [of 4 2 3] unfolding up by (simp add: doc_pixel_def)
qed

end
