(* ===== verification/VelaTypes.thy ===== *)
theory VelaTypes
  imports VelaShader
begin

text \<open>
  A type system for the shader language of \<^verbatim>\<open>src/sbinSrc/de/lisp/lisp.c\<close>, which has none of its own: the
  interpreter stops the desktop at the first operand of a wrong kind, the first variable that is not
  there, the first text that is too long and at the one division whose quotient is not an \<^verbatim>\<open>int\<close>. A
  typed shader does none of these.
\<close>

section \<open>The builtin a name reaches\<close>

datatype builtin = Math | Glob | SetVar | Rgb | PrintOp "u8 list" | Defun | Typename | Sin | Ret

definition builtin_of :: "u8 list \<Rightarrow> builtin option" where
  "builtin_of n =
     (if is_math n then Some Math
      else if svEqLit n ''glob'' then Some Glob
      else if svEqLit n ''set'' then Some SetVar
      else if svEqLit n ''rgb'' then Some Rgb
      else if svEqLit n ''print'' then Some (PrintOp [])
      else if svEqLit n ''defun'' then Some Defun
      else if svEqLit n ''println'' then Some (PrintOp [10])
      else if svEqLit n ''typename'' then Some Typename
      else if svEqLit n ''sin'' then Some Sin
      else if svEqLit n ''ret'' then Some Ret
      else None)"

lemma execList_builtin:
  assumes "item es 0 = Inr (ESymbol n)" and "builtin_of n = Some b"
  shows "execList ev es s = (case b of
      Math \<Rightarrow> exec_math ev n es s | Glob \<Rightarrow> exec_glob ev es s | SetVar \<Rightarrow> exec_set ev es s | Rgb \<Rightarrow> exec_rgb ev es s
    | PrintOp l \<Rightarrow> exec_print ev l es s | Defun \<Rightarrow> exec_defun es s | Typename \<Rightarrow> exec_typename es s
    | Sin \<Rightarrow> exec_sin ev es s | Ret \<Rightarrow> exec_ret ev es s)"
  using assms unfolding execList_def builtin_of_def by (simp split: if_splits) auto

section \<open>Types\<close>

datatype ty = TyInt | TyStr | TyNone

text \<open>A string fits the page \<^verbatim>\<open>printf\<close> formats into, together with a newline and the terminator.\<close>

definition fits_page :: "u8 list \<Rightarrow> bool" where
  "fits_page t \<longleftrightarrow> length t < 4095"

fun val_ok :: "ty \<Rightarrow> val \<Rightarrow> bool" where
  "val_ok TyInt v \<longleftrightarrow> (case v of VInt i \<Rightarrow> True | _ \<Rightarrow> False)"
| "val_ok TyStr v \<longleftrightarrow> (case v of VString t \<Rightarrow> fits_page t | _ \<Rightarrow> False)"
| "val_ok TyNone v \<longleftrightarrow> v = VNone"

type_synonym tenv = "u8 list \<rightharpoonup> ty"

text \<open>
  The quotient is an \<^verbatim>\<open>int\<close>: the operation is no division, or its divisor is written out as another number
  than -1, zero included, or its dividend as another number than the least.
\<close>

definition literal_but :: "u32 \<Rightarrow> expr \<Rightarrow> bool" where
  "literal_but j e \<longleftrightarrow> (case e of EInt i \<Rightarrow> i \<noteq> j | _ \<Rightarrow> False)"

definition quotient_fits :: "u8 list \<Rightarrow> expr \<Rightarrow> expr \<Rightarrow> bool" where
  "quotient_fits n a b \<longleftrightarrow>
     \<not> (svEqLit n ''/'' \<or> svEqLit n ''%'') \<or> literal_but (- 1) b \<or> literal_but least_int a"

text \<open>
  \<open>G\<close> gives every variable its type and \<open>D\<close> is the set of those that are there; the expression has the
  type, and afterwards the variables of the last set are there. Calls and definitions of functions
  have no type.
\<close>

inductive typed :: "tenv \<Rightarrow> u8 list set \<Rightarrow> expr \<Rightarrow> ty \<Rightarrow> u8 list set \<Rightarrow> bool" for G where
  t_int: "typed G D (EInt i) TyInt D"
| t_str: "fits_page t \<Longrightarrow> typed G D (EString t) TyStr D"
| t_var: "n \<in> D \<Longrightarrow> G n = Some t \<Longrightarrow> typed G D (ESymbol n) t D"
| t_math: "item es 0 = Inr (ESymbol n) \<Longrightarrow> builtin_of n = Some Math \<Longrightarrow> item es 1 = Inr a \<Longrightarrow> item es 2 = Inr b \<Longrightarrow>
    quotient_fits n a b \<Longrightarrow> typed G D a TyInt D1 \<Longrightarrow> typed G D1 b TyInt D2 \<Longrightarrow> typed G D (EList es) TyInt D2"
| t_glob: "item es 0 = Inr (ESymbol n) \<Longrightarrow> builtin_of n = Some Glob \<Longrightarrow> item es 1 = Inr (ESymbol x) \<Longrightarrow> item es 2 = Inr b \<Longrightarrow>
    typed G D b t D1 \<Longrightarrow> G x = Some t \<Longrightarrow> typed G D (EList es) TyNone (insert x D1)"
| t_set: "item es 0 = Inr (ESymbol n) \<Longrightarrow> builtin_of n = Some SetVar \<Longrightarrow> item es 1 = Inr (ESymbol x) \<Longrightarrow> item es 2 = Inr b \<Longrightarrow>
    typed G D b t D1 \<Longrightarrow> G x = Some t \<Longrightarrow> x \<in> D1 \<Longrightarrow> typed G D (EList es) TyNone D1"
| t_rgb: "item es 0 = Inr (ESymbol n) \<Longrightarrow> builtin_of n = Some Rgb \<Longrightarrow> item es 1 = Inr a \<Longrightarrow> item es 2 = Inr b \<Longrightarrow> item es 3 = Inr c \<Longrightarrow>
    typed G D a t1 D1 \<Longrightarrow> typed G D1 b t2 D2 \<Longrightarrow> typed G D2 c t3 D3 \<Longrightarrow> typed G D (EList es) TyInt D3"
| t_print: "item es 0 = Inr (ESymbol n) \<Longrightarrow> builtin_of n = Some (PrintOp l) \<Longrightarrow> item es 1 = Inr a \<Longrightarrow>
    typed G D a t D1 \<Longrightarrow> typed G D (EList es) TyNone D1"
| t_typename: "item es 0 = Inr (ESymbol n) \<Longrightarrow> builtin_of n = Some Typename \<Longrightarrow> item es 1 = Inr (ESymbol x) \<Longrightarrow> x \<in> D \<Longrightarrow>
    typed G D (EList es) TyStr D"
| t_sin: "item es 0 = Inr (ESymbol n) \<Longrightarrow> builtin_of n = Some Sin \<Longrightarrow> item es 1 = Inr a \<Longrightarrow>
    typed G D a t D1 \<Longrightarrow> typed G D (EList es) TyInt D1"
| t_ret: "item es 0 = Inr (ESymbol n) \<Longrightarrow> builtin_of n = Some Ret \<Longrightarrow> item es 1 = Inr a \<Longrightarrow>
    typed G D a t D1 \<Longrightarrow> typed G D (EList es) TyNone D1"

inductive typed_seq :: "tenv \<Rightarrow> u8 list set \<Rightarrow> expr list \<Rightarrow> u8 list set \<Rightarrow> bool" for G where
  nil: "typed_seq G D [] D"
| cons: "typed G D e t D1 \<Longrightarrow> typed_seq G D1 es D2 \<Longrightarrow> typed_seq G D (e # es) D2"

section \<open>The environment of a typed program\<close>

definition env_ok :: "tenv \<Rightarrow> u8 list set \<Rightarrow> vela \<Rightarrow> bool" where
  "env_ok G D s \<longleftrightarrow> D \<subseteq> dom (map_of (v_variables s)) \<and>
     (\<forall>n v. map_of (v_variables s) n = Some v \<longrightarrow> (\<exists>t. G n = Some t \<and> val_ok t v))"

text \<open>What a typed expression leaves alone.\<close>

definition same_frame :: "vela \<Rightarrow> vela \<Rightarrow> bool" where
  "same_frame s s' \<longleftrightarrow> v_functions s' = v_functions s \<and> v_pixels s' = v_pixels s"

text \<open>The outcome of a typed expression: a value of its type.\<close>

definition fine :: "tenv \<Rightarrow> vela \<Rightarrow> ty \<Rightarrow> u8 list set \<Rightarrow> (val \<times> vela) exec \<Rightarrow> bool" where
  "fine G s t D r \<longleftrightarrow> (\<exists>v s'. r = Inr (v, s') \<and> val_ok t v \<and> env_ok G D s' \<and> same_frame s s')"

lemma fine_Inr: "val_ok t v \<Longrightarrow> env_ok G D s' \<Longrightarrow> same_frame s s' \<Longrightarrow> fine G s t D (Inr (v, s'))"
  by (simp add: fine_def)

lemma same_frame_refl [simp]: "same_frame s s"
  by (simp add: same_frame_def)

lemma same_frame_trans: "same_frame s1 s2 \<Longrightarrow> same_frame s2 s3 \<Longrightarrow> same_frame s1 s3"
  by (simp add: same_frame_def)

lemma fine_bind:
  assumes "fine G s t D m" and "\<And>v s1. val_ok t v \<Longrightarrow> env_ok G D s1 \<Longrightarrow> same_frame s s1 \<Longrightarrow> fine G s t' D' (f (v, s1))"
  shows "fine G s t' D' (bindE m f)"
proof (cases m)
  case (Inr r)
  then obtain v s1 where "m = Inr (v, s1)" "val_ok t v" "env_ok G D s1" "same_frame s s1"
    using assms(1) by (auto simp: fine_def)
  then show ?thesis
    using assms(2) by simp
qed (use assms(1) in \<open>simp add: fine_def\<close>)

lemma fine_frame: "fine G s1 t D r \<Longrightarrow> same_frame s s1 \<Longrightarrow> fine G s t D r"
  using same_frame_trans by (fastforce simp: fine_def)

lemma env_ok_subset: "env_ok G D s \<Longrightarrow> D' \<subseteq> D \<Longrightarrow> env_ok G D' s"
  by (auto simp: env_ok_def)

lemma env_ok_vars: "v_variables s' = v_variables s \<Longrightarrow> env_ok G D s' = env_ok G D s"
  by (simp add: env_ok_def)

lemma env_ok_get: "env_ok G D s \<Longrightarrow> n \<in> D \<Longrightarrow> \<exists>t v. getVariable (v_variables s) n = Inr v \<and> G n = Some t \<and> val_ok t v"
  by (auto simp: env_ok_def getVariable_map dom_def subset_iff split: option.splits)

lemma env_ok_create:
  assumes "env_ok G D s" and "G x = Some t" and "val_ok t v"
  shows "env_ok G (insert x D) (s\<lparr>v_variables := createVariable (v_variables s) x v\<rparr>)"
  using assms by (auto simp: env_ok_def map_of_createVariable)

lemma env_ok_set:
  assumes "env_ok G D s" and "G x = Some t" and "val_ok t v" and "x \<in> D"
  obtains vs where "setVariable (v_variables s) x v = Inr vs" and "env_ok G D (s\<lparr>v_variables := vs\<rparr>)"
proof -
  have "map_of (v_variables s) x \<noteq> None"
    using assms(1,4) by (auto simp: env_ok_def)
  from setVariable_map [OF this, of v] obtain vs where
    vs: "setVariable (v_variables s) x v = Inr vs" "map_of vs = (map_of (v_variables s))(x \<mapsto> v)"
    by blast
  then have "env_ok G D (s\<lparr>v_variables := vs\<rparr>)"
    using assms by (auto simp: env_ok_def)
  then show thesis
    using that vs(1) by blast
qed

section \<open>Evaluation of typed expressions\<close>

lemma print_ok:
  assumes "val_ok t v" and "l = [] \<or> l = [10]"
  shows "\<exists>out. (case v of VString t \<Rightarrow> vela_print s (bytes ''%s'' @ l @ [0]) [AStr (t @ [0])]
       | VInt i \<Rightarrow> vela_print s (bytes ''%u'' @ l @ [0]) [AInt i] | VNone \<Rightarrow> Inr s) = Inr (s\<lparr>v_out := out\<rparr>)"
proof -
  have p: "user_printf (format_of (p # List.map Lit l)) (args_of (p # List.map Lit l)) = Inr (text_of (p # List.map Lit l))"
    if "piece_ok p" "length (piece_text p) < 4095" for p
    using user_printf_eq [of "p # List.map Lit l"] that assms(2) by (auto simp: text_of_def)
  show ?thesis
  proof (cases v)
    case (VInt i)
    have "length (radix 10 (unat i)) \<le> 10"
      by (rule radix_u32_length)
    then have "user_printf (bytes ''%u'' @ l @ [0]) [AInt i] = Inr (text_of (PUnsigned i # List.map Lit l))"
      using p [of "PUnsigned i"] assms(2) by (auto simp: format_of_def args_of_def)
    then show ?thesis
      by (auto simp: VInt vela_print_def)
  next
    case (VString u)
    then have "length u < 4095"
      using assms(1) by (cases t) (simp_all add: fits_page_def)
    moreover have "length (cstr (u @ [0])) \<le> length u"
      using cstr_length_less [of "u @ [0]"] by simp
    ultimately have "user_printf (bytes ''%s'' @ l @ [0]) [AStr (u @ [0])] = Inr (text_of (PStr (u @ [0]) # List.map Lit l))"
      using p [of "PStr (u @ [0])"] assms(2) by (auto simp: format_of_def args_of_def)
    then show ?thesis
      by (auto simp: VString vela_print_def)
  next
    case VNone
    then show ?thesis
      by (intro exI [of _ "v_out s"]) simp
  qed
qed

lemma print_line: "builtin_of n = Some (PrintOp l) \<Longrightarrow> l = [] \<or> l = [10]"
  by (auto simp: builtin_of_def split: if_splits)

lemma math_fine:
  assumes "quotient_fits n a b" and "\<And>i. a = EInt i \<Longrightarrow> x = i" and "\<And>i. b = EInt i \<Longrightarrow> y = i"
  obtains r where "math_op n x y = Inr r"
proof -
  have "(svEqLit n ''/'' \<or> svEqLit n ''%'') \<longrightarrow> x \<noteq> least_int \<or> y \<noteq> - 1"
    using assms unfolding quotient_fits_def literal_but_def by (auto split: expr.splits)
  then have "\<exists>r. math_op n x y = Inr r"
    by (auto simp: math_op_def)
  then show thesis
    using that by blast
qed

text \<open>A number written out evaluates to itself.\<close>

lemma literal_value: "execExpr k e s = Inr (VInt x, s') \<Longrightarrow> e = EInt i \<Longrightarrow> x = i"
  by (cases k) simp_all

lemma fine_item: "fine G s t D (f e) \<Longrightarrow> item es i = Inr e \<Longrightarrow> fine G s t D (bindE (item es i) f)"
  by simp

text \<open>An argument of a list evaluates with the fuel that is left.\<close>

lemma item_depth: "item es i = Inr e \<Longrightarrow> depth (EList es) < Suc k \<Longrightarrow> depth e < k"
  using item_in depth_item by fastforce

lemma typed_runs:
  "typed G D e t D' \<Longrightarrow> env_ok G D s \<Longrightarrow> depth e < k \<Longrightarrow> fine G s t D' (execExpr k e s)"
proof (induction arbitrary: s k rule: typed.induct)
  case (t_int D i)
  then show ?case
    by (cases k) (auto intro: fine_Inr)
next
  case (t_str u D)
  then show ?case
    by (cases k) (auto intro: fine_Inr)
next
  case (t_var n D t)
  then obtain v where "getVariable (v_variables s) n = Inr v" "val_ok t v"
    using env_ok_get [OF t_var.prems(1) t_var.hyps(1)] by auto
  then show ?case
    using t_var.prems by (cases k) (auto intro: fine_Inr)
next
  case (t_math es n a b D D1 D2)
  then obtain k' where k: "k = Suc k'"
    by (cases k) auto
  note arg = item_depth [OF _ t_math.prems(2) [unfolded k]]
  have "execExpr k (EList es) s = exec_math (execExpr k') n es s"
    using execList_builtin [OF t_math.hyps(1,2)] by (simp add: k)
  moreover obtain va s1 where a: "execExpr k' a s = Inr (va, s1)" "val_ok TyInt va" "env_ok G D1 s1" "same_frame s s1"
    using t_math.IH(1) [OF t_math.prems(1) arg [OF t_math.hyps(3)]] by (auto simp: fine_def)
  moreover obtain vb s2 where b: "execExpr k' b s1 = Inr (vb, s2)" "val_ok TyInt vb" "env_ok G D2 s2" "same_frame s1 s2"
    using t_math.IH(2) [OF a(3) arg [OF t_math.hyps(4)]] by (auto simp: fine_def)
  moreover obtain x where x: "va = VInt x"
    using a(2) by (cases va) auto
  moreover obtain y where y: "vb = VInt y"
    using b(2) by (cases vb) auto
  moreover obtain r where "math_op n x y = Inr r"
    using math_fine [OF t_math.hyps(5) literal_value [OF a(1) [unfolded x]] literal_value [OF b(1) [unfolded y]]] .
  moreover have "same_frame s s2"
    using a(4) b(4) same_frame_trans by blast
  ultimately show ?case
    using t_math.hyps(3,4) by (simp add: exec_math_def fine_def)
next
  case (t_glob es n x b D t D1)
  then obtain k' where k: "k = Suc k'"
    by (cases k) auto
  have "fine G s t D1 (execExpr k' b s)"
    using t_glob.IH [OF t_glob.prems(1) item_depth [OF t_glob.hyps(4) t_glob.prems(2) [unfolded k]]] .
  then have "fine G s TyNone (insert x D1) (bindE (execExpr k' b s)
      (\<lambda>(v, s1). Inr (VNone, s1\<lparr>v_variables := createVariable (v_variables s1) x v\<rparr>)))"
    using env_ok_create t_glob.hyps(6) by (elim fine_bind) (auto simp: same_frame_def intro: fine_Inr)
  then show ?case
    using execList_builtin [OF t_glob.hyps(1,2)] t_glob.hyps(3,4) by (simp add: k exec_glob_def)
next
  case (t_set es n x b D t D1)
  then obtain k' where k: "k = Suc k'"
    by (cases k) auto
  have "fine G s t D1 (execExpr k' b s)"
    using t_set.IH [OF t_set.prems(1) item_depth [OF t_set.hyps(4) t_set.prems(2) [unfolded k]]] .
  then have "fine G s TyNone D1 (bindE (execExpr k' b s) (\<lambda>(v, s1).
      bindE (setVariable (v_variables s1) x v) (\<lambda>vs. Inr (VNone, s1\<lparr>v_variables := vs\<rparr>))))"
  proof (rule fine_bind)
    fix v s1 assume v: "val_ok t v" "env_ok G D1 s1" "same_frame s s1"
    obtain vs where "setVariable (v_variables s1) x v = Inr vs" "env_ok G D1 (s1\<lparr>v_variables := vs\<rparr>)"
      by (rule env_ok_set [OF v(2) t_set.hyps(6) v(1) t_set.hyps(7)])
    then show "fine G s TyNone D1 (case (v, s1) of (v, s1) \<Rightarrow>
        bindE (setVariable (v_variables s1) x v) (\<lambda>vs. Inr (VNone, s1\<lparr>v_variables := vs\<rparr>)))"
      using v(3) by (auto simp: same_frame_def intro: fine_Inr)
  qed
  then show ?case
    using execList_builtin [OF t_set.hyps(1,2)] t_set.hyps(3,4) by (simp add: k exec_set_def)
next
  case (t_rgb es n a b c D t1 D1 t2 D2 t3 D3)
  then obtain k' where k: "k = Suc k'"
    by (cases k) auto
  note arg = item_depth [OF _ t_rgb.prems(2) [unfolded k]]
  have c: "fine G s2 TyInt D3 (bindE (execExpr k' c s2) (\<lambda>(v3, s3). Inr (VInt (w v3), s3)))" if "env_ok G D2 s2" for s2 w
    by (rule fine_bind [OF t_rgb.IH(3) [OF that arg [OF t_rgb.hyps(5)]]]) (auto intro: fine_Inr)
  have b: "fine G s1 TyInt D3 (bindE (execExpr k' b s1) (\<lambda>(v2, s2). bindE (execExpr k' c s2) (\<lambda>(v3, s3). Inr (VInt (w v2 v3), s3))))"
    if "env_ok G D1 s1" for s1 w
    by (rule fine_bind [OF t_rgb.IH(2) [OF that arg [OF t_rgb.hyps(4)]]]) (auto intro: fine_frame c)
  have "fine G s TyInt D3 (bindE (execExpr k' a s) (\<lambda>(v1, s1). bindE (execExpr k' b s1) (\<lambda>(v2, s2).
      bindE (execExpr k' c s2) (\<lambda>(v3, s3). Inr (VInt (w v1 v2 v3), s3)))))" for w
    by (rule fine_bind [OF t_rgb.IH(1) [OF t_rgb.prems(1) arg [OF t_rgb.hyps(3)]]]) (auto intro: fine_frame b)
  then show ?case
    using execList_builtin [OF t_rgb.hyps(1,2)] t_rgb.hyps(3-5) by (simp add: k exec_rgb_def)
next
  case (t_print es n l a D t D1)
  then obtain k' where k: "k = Suc k'"
    by (cases k) auto
  note prints = print_ok [OF _ print_line [OF t_print.hyps(2)]]
  have "fine G s t D1 (execExpr k' a s)"
    using t_print.IH [OF t_print.prems(1) item_depth [OF t_print.hyps(3) t_print.prems(2) [unfolded k]]] .
  then have "fine G s TyNone D1 (exec_print (execExpr k') l es s)"
    unfolding exec_print_def t_print.hyps(3) bindE.simps
  proof (rule fine_bind)
    fix v s1 assume v: "val_ok t v" "env_ok G D1 s1" "same_frame s s1"
    obtain out where "(case v of VString t \<Rightarrow> vela_print s1 (bytes ''%s'' @ l @ [0]) [AStr (t @ [0])]
       | VInt i \<Rightarrow> vela_print s1 (bytes ''%u'' @ l @ [0]) [AInt i] | VNone \<Rightarrow> Inr s1) = Inr (s1\<lparr>v_out := out\<rparr>)"
      using prints [OF v(1)] by blast
    then show "fine G s TyNone D1 (case (v, s1) of (v, s1) \<Rightarrow> bindE (case v of VString t \<Rightarrow> vela_print s1 (bytes ''%s'' @ l @ [0]) [AStr (t @ [0])]
       | VInt i \<Rightarrow> vela_print s1 (bytes ''%u'' @ l @ [0]) [AInt i] | VNone \<Rightarrow> Inr s1) (\<lambda>s2. Inr (VNone, s2)))"
      using v(2,3) by (auto simp: same_frame_def env_ok_def intro: fine_Inr)
  qed
  then show ?case
    using execList_builtin [OF t_print.hyps(1,2)] by (simp add: k)
next
  case (t_typename es n x D)
  then obtain v where "getVariable (v_variables s) x = Inr v"
    using env_ok_get by blast
  then show ?case
    using t_typename execList_builtin [OF t_typename.hyps(1,2)]
    by (cases k) (auto simp: exec_typename_def fits_page_def intro!: fine_Inr split: val.split)
next
  case (t_sin es n a D t D1)
  then obtain k' where k: "k = Suc k'"
    by (cases k) auto
  have "fine G s t D1 (execExpr k' a s)"
    using t_sin.IH [OF t_sin.prems(1) item_depth [OF t_sin.hyps(3) t_sin.prems(2) [unfolded k]]] .
  then have "fine G s TyInt D1 (exec_sin (execExpr k') es s)"
    unfolding exec_sin_def t_sin.hyps(3) bindE.simps by (elim fine_bind) (auto intro!: fine_Inr split: val.split)
  then show ?case
    using execList_builtin [OF t_sin.hyps(1,2)] by (simp add: k)
next
  case (t_ret es n a D t D1)
  then obtain k' where k: "k = Suc k'"
    by (cases k) auto
  have "fine G s t D1 (execExpr k' a s)"
    using t_ret.IH [OF t_ret.prems(1) item_depth [OF t_ret.hyps(3) t_ret.prems(2) [unfolded k]]] .
  then have "fine G s TyNone D1 (exec_ret (execExpr k') es s)"
    unfolding exec_ret_def t_ret.hyps(3) bindE.simps
    by (elim fine_bind) (auto simp: same_frame_def env_ok_def intro!: fine_Inr)
  then show ?case
    using execList_builtin [OF t_ret.hyps(1,2)] by (simp add: k)
qed

section \<open>Sequences, functions and the screen\<close>

text \<open>The same for steps that have no value of their own.\<close>

definition fine_run :: "tenv \<Rightarrow> u8 list set \<Rightarrow> (vela \<Rightarrow> bool) \<Rightarrow> vela exec \<Rightarrow> bool" where
  "fine_run G D P r \<longleftrightarrow> (\<exists>s'. r = Inr s' \<and> env_ok G D s' \<and> P s')"

lemma fine_run_bind:
  assumes "fine_run G D P m" and "\<And>s1. env_ok G D s1 \<Longrightarrow> P s1 \<Longrightarrow> fine_run G D' Q (f s1)"
  shows "fine_run G D' Q (bindE m f)"
  using assms by (fastforce simp: fine_run_def)

lemma fine_run_subset: "fine_run G D P r \<Longrightarrow> D' \<subseteq> D \<Longrightarrow> (\<And>s. P s \<Longrightarrow> Q s) \<Longrightarrow> fine_run G D' Q r"
  using env_ok_subset by (fastforce simp: fine_run_def)

lemma typed_mono: "typed G D e t D' \<Longrightarrow> D \<subseteq> D'"
  by (induction rule: typed.induct) auto

lemma typed_seq_mono: "typed_seq G D es D' \<Longrightarrow> D \<subseteq> D'"
  by (induction rule: typed_seq.induct) (use typed_mono in blast)+

lemma typed_seq_runs:
  "typed_seq G D es D' \<Longrightarrow> env_ok G D s \<Longrightarrow> \<forall>e\<in>set es. depth e < k \<Longrightarrow>
   fine_run G D' (same_frame s) (run_body (execExpr k) es s)"
proof (induction arbitrary: s rule: typed_seq.induct)
  case (nil D)
  then show ?case
    by (simp add: fine_run_def)
next
  case (cons D e t D1 es D2)
  have "fine G s t D1 (execExpr k e s)"
    using typed_runs [OF cons.hyps(1) cons.prems(1)] cons.prems(2) by simp
  then obtain v s1 where s1: "execExpr k e s = Inr (v, s1)" "env_ok G D1 s1" "same_frame s s1"
    by (auto simp: fine_def)
  then show ?case
    using cons.IH [of s1] cons.prems(2) by (auto intro: fine_run_subset dest: same_frame_trans)
qed

text \<open>A fragment shader whose body is typed once its two parameters are there.\<close>

definition typed_fragment :: "tenv \<Rightarrow> u8 list set \<Rightarrow> fentry \<Rightarrow> bool" where
  "typed_fragment G D f \<longleftrightarrow> (\<exists>p q D'. fn_params f = [p, q] \<and> G p = Some TyInt \<and> G q = Some TyInt \<and>
     typed_seq G (insert q (insert p D)) (fn_body f) D')"

lemma env_ok_bind_param:
  assumes "env_ok G D s" and "G p = Some TyInt"
  shows "\<exists>vs. setVariable (createVariable (v_variables s) p (VInt 0)) p (VInt x) = Inr vs \<and>
    env_ok G (insert p D) (s\<lparr>v_variables := vs\<rparr>)"
proof -
  let ?s = "s\<lparr>v_variables := createVariable (v_variables s) p (VInt 0)\<rparr>"
  have "env_ok G (insert p D) ?s"
    using assms by (intro env_ok_create [of _ _ _ _ TyInt]) auto
  from env_ok_set [OF this assms(2), of "VInt x"] show ?thesis
    by auto
qed

lemma frag_params_ok:
  assumes "env_ok G D s" and "fn_params f = [p, q]" and "G p = Some TyInt" and "G q = Some TyInt"
  shows "fine_run G (insert q (insert p D)) (same_frame s) (frag_params f x y s)"
proof -
  obtain vs where vs: "setVariable (createVariable (v_variables s) p (VInt 0)) p (VInt x) = Inr vs"
      "env_ok G (insert p D) (s\<lparr>v_variables := vs\<rparr>)"
    using env_ok_bind_param [OF assms(1,3)] by blast
  obtain vs' where vs': "setVariable (createVariable vs q (VInt 0)) q (VInt y) = Inr vs'"
      "env_ok G (insert q (insert p D)) (s\<lparr>v_variables := vs'\<rparr>)"
    using env_ok_bind_param [OF vs(2) assms(4), of y] by auto
  show ?thesis
    using vs vs' assms(2) by (simp add: frag_params_def fine_run_def same_frame_def)
qed

text \<open>The coordinates of the pixels that are drawn, in order.\<close>

definition coords :: "vela \<Rightarrow> (u32 \<times> u32) list" where
  "coords s = List.map snd (v_pixels s)"

definition draws :: "vela \<Rightarrow> (u32 \<times> u32) list \<Rightarrow> vela \<Rightarrow> bool" where
  "draws s ps s' \<longleftrightarrow> v_functions s' = v_functions s \<and> coords s' = coords s @ ps"

lemma frag_pixel_ok:
  assumes f: "typed_fragment G D f" and s: "env_ok G D s" and k: "\<forall>e\<in>set (fn_body f). depth e < k"
  shows "fine_run G D (draws s [(x, y)]) (frag_pixel k f x y s)"
proof -
  obtain p q D' where pq: "fn_params f = [p, q]" "G p = Some TyInt" "G q = Some TyInt"
      and body: "typed_seq G (insert q (insert p D)) (fn_body f) D'"
    using f unfolding typed_fragment_def by blast
  have D: "D \<subseteq> D'"
    using typed_seq_mono [OF body] by blast
  have "fine_run G D' (same_frame s) (bindE (frag_params f x y s) (run_body (execExpr k) (fn_body f)))"
    by (rule fine_run_bind [OF frag_params_ok [OF s pq]], rule fine_run_subset [OF typed_seq_runs [OF body _ k]])
      (auto dest: same_frame_trans)
  then have "fine_run G D (draws s [(x, y)]) (bindE (bindE (frag_params f x y s) (run_body (execExpr k) (fn_body f)))
      (\<lambda>s2. Inr (s2\<lparr>v_pixels := v_pixels s2 @ [(intVal (v_last s2), x, y)]\<rparr>)))"
    using D by (elim fine_run_bind) (auto simp: fine_run_def draws_def coords_def same_frame_def env_ok_def)
  then show ?thesis
    by (simp add: frag_pixel_def bindE_assoc)
qed

lemma frag_column_ok:
  assumes "typed_fragment G D f" and "\<forall>e\<in>set (fn_body f). depth e < k"
  shows "env_ok G D s \<Longrightarrow> fine_run G D (draws s (List.map (Pair x) ys)) (frag_column k f x ys s)"
proof (induction ys arbitrary: s)
  case (Cons y ys)
  show ?case
    unfolding frag_column.simps
    by (rule fine_run_bind [OF frag_pixel_ok [OF assms(1) Cons.prems assms(2)]], rule fine_run_subset [OF Cons.IH])
      (auto simp: draws_def)
qed (simp add: fine_run_def draws_def)

lemma frag_screen_ok:
  assumes "typed_fragment G D f" and "\<forall>e\<in>set (fn_body f). depth e < k"
  shows "env_ok G D s \<Longrightarrow> fine_run G D (draws s (List.product xs ys)) (frag_screen k f xs ys s)"
proof (induction xs arbitrary: s)
  case (Cons x xs)
  show ?case
    unfolding frag_screen.simps
    by (rule fine_run_bind [OF frag_column_ok [OF assms Cons.prems]], rule fine_run_subset [OF Cons.IH])
      (auto simp: draws_def)
qed (simp add: fine_run_def draws_def)

text \<open>An expression that has a type, evaluated in an environment of the declared types, needs no
  more recursion than its nesting and returns a value of its type: every variable keeps its type, those that
  the type promises are there, and the functions and the pixels are left alone.\<close>

theorem vela_typed_expressions_run:
  assumes "typed G D e t D'" and "env_ok G D s"
  shows "\<exists>v s'. execExpr (Suc (depth e)) e s = Inr (v, s') \<and> val_ok t v \<and> env_ok G D' s' \<and>
    v_functions s' = v_functions s \<and> v_pixels s' = v_pixels s"
  using typed_runs [OF assms lessI] by (auto simp: fine_def same_frame_def)

abbreviation shade_env :: tenv where
  "shade_env \<equiv> [bytes ''c'' \<mapsto> TyInt, bytes ''x'' \<mapsto> TyInt, bytes ''y'' \<mapsto> TyInt]"

definition shade_glob :: expr where
  "shade_glob = EList [sym ''glob'', sym ''c'', EList [sym ''rgb'', EInt 10, EInt 20, EInt 30]]"

lemma shade_glob_typed: "typed shade_env {} shade_glob TyNone {bytes ''c''}"
proof -
  have "typed shade_env {} (EList [sym ''rgb'', EInt 10, EInt 20, EInt 30]) TyInt {}"
    by (rule t_rgb [OF _ _ _ _ _ t_int t_int t_int, of _ "bytes ''rgb''"])
      (simp_all add: item_def builtin_of_def is_math_def)
  then show ?thesis
    unfolding shade_glob_def
    by (rule t_glob [rotated 4, of _ _ _ _ _ "bytes ''c''" _ "bytes ''glob''"])
      (simp_all add: item_def builtin_of_def is_math_def)
qed

theorem vela_typed_expressions_run_witness:
  "\<exists>v s'. execExpr 3 shade_glob vela_init = Inr (v, s') \<and> val_ok TyNone v \<and> env_ok shade_env {bytes ''c''} s' \<and>
    v_functions s' = v_functions vela_init \<and> v_pixels s' = v_pixels vela_init"
proof -
  have "Suc (depth shade_glob) = 3"
    by (simp add: shade_glob_def)
  then show ?thesis
    using vela_typed_expressions_run [OF shade_glob_typed, of vela_init]
    by (simp add: env_ok_def vela_init_def)
qed

definition fragment_def :: "u8 list \<Rightarrow> u8 list \<Rightarrow> expr list \<Rightarrow> expr" where
  "fragment_def p q body = EList (sym ''defun'' # sym ''fragment'' # EList [ESymbol p, ESymbol q] # body)"

lemma exec_fragment_def:
  assumes "body \<noteq> []"
  shows "execExpr (Suc k) (fragment_def p q body) s = Inr (VNone,
    addFunction (s\<lparr>v_out := v_out s @ bytes ''Function name: \"fragment\"'' @ [10]\<rparr>)
      \<lparr>fn_name = bytes ''fragment'', fn_params = [cstr p, cstr q], fn_body = body\<rparr>)"
proof -
  have "vela_print s (bytes ''Function name: \"%s\"'' @ [10, 0]) [AStr (bytes ''fragment'' @ [0])] =
      Inr (s\<lparr>v_out := v_out s @ bytes ''Function name: \"fragment\"'' @ [10]\<rparr>)"
    unfolding vela_print_def doc_print by simp
  then show ?thesis
    using assms by (simp add: fragment_def_def execList_def exec_defun_def is_math_def item_def)
qed

lemma run_body_append: "run_body ev (es @ fs) s = bindE (run_body ev es s) (run_body ev fs)"
  by (induction es arbitrary: s) (auto simp: bindE_assoc intro!: bindE_cong)

text \<open>C37: a shader that declares its variables, and a \<^verbatim>\<open>fragment\<close> of two parameters whose body has a
  type once they are integers, runs with a recursion of no more than the nesting of its
  expressions and draws every pixel of the screen exactly once, column by column: no operand has a wrong kind, no variable is missing, no
  text is too long and no division, the one by zero included, raises an exception.\<close>

theorem vela_typed_shader_draws:
  assumes "tokenize code = Inr (concat (List.map expr_tokens (es @ [fragment_def p q body])))"
    and "typed_seq G {} es D" and "G (cstr p) = Some TyInt" and "G (cstr q) = Some TyInt"
    and "typed_seq G (insert (cstr q) (insert (cstr p) D)) body D'" and "body \<noteq> []"
    and "\<forall>e\<in>set (es @ body). depth e < k"
  shows "\<exists>s. lispRun k w h code = Inr s \<and> List.map snd (v_pixels s) = List.product (upto_u32 w) (upto_u32 h)"
proof -
  let ?f = "\<lparr>fn_name = bytes ''fragment'', fn_params = [cstr p, cstr q], fn_body = body\<rparr>"
  obtain k' where k: "k = Suc k'"
    using assms(6,7) by (cases body; cases k) auto
  have f: "typed_fragment G D ?f"
    using assms(3-5) by (auto simp: typed_fragment_def)
  have "fine_run G D (same_frame vela_init) (run_body (execExpr k) es vela_init)"
    using typed_seq_runs [OF assms(2)] assms(7) by (simp add: env_ok_def vela_init_def)
  then obtain s where s: "run_body (execExpr k) es vela_init = Inr s" "env_ok G D s" "same_frame vela_init s"
    by (auto simp: fine_run_def)
  define s' where "s' = addFunction (s\<lparr>v_out := v_out s @ bytes ''Function name: \"fragment\"'' @ [10]\<rparr>) ?f"
  have s': "env_ok G D s'" "v_functions s' = [?f]" "coords s' = []"
    using s by (auto simp: s'_def addFunction_def env_ok_def same_frame_def coords_def vela_init_def)
  have "run_body (execExpr k) (es @ [fragment_def p q body]) vela_init = Inr s'"
    using s(1) exec_fragment_def [OF assms(6), of k' p q s] by (simp add: run_body_append k s'_def)
  then have "lispRun k w h code = frag_screen k ?f (upto_u32 w) (upto_u32 h) s'"
    using s'(2) by (simp add: lispRun_exprs [OF assms(1)])
  then show ?thesis
    using frag_screen_ok [OF f _ s'(1), of k "upto_u32 w" "upto_u32 h"] assms(7) s'(3)
    by (auto simp: fine_run_def draws_def coords_def)
qed

definition shade_body :: "expr list" where
  "shade_body = [EList [sym ''set'', sym ''c'', EList [sym ''+'', sym ''c'', EList [sym ''sin'', sym ''x'']]],
     EList [sym ''ret'', EList [sym ''^'', EList [sym ''/'', sym ''c'', EInt 0], sym ''y'']]]"

definition shade_code :: "u8 list" where
  "shade_code = bytes ''(glob c (rgb 10 20 30)) (defun fragment (x y) (set c (+ c (sin x))) (ret (^ (/ c 0) y))) '' @ [0]"

lemma shade_tokens:
  "tokenize shade_code = Inr (concat (List.map expr_tokens ([shade_glob] @ [fragment_def (bytes ''x'') (bytes ''y'') shade_body])))"
  by code_simp

lemma shade_body_typed:
  assumes "D = {bytes ''c'', bytes ''x'', bytes ''y''}"
  shows "typed_seq shade_env D shade_body D"
proof -
  have var: "typed shade_env D (ESymbol n) TyInt D" if "n \<in> D" for n
    using that assms by (intro t_var) auto
  have sin: "typed shade_env D (EList [sym ''sin'', sym ''x'']) TyInt D"
    by (rule t_sin [OF _ _ _ var, of _ "bytes ''sin''" "bytes ''x''"])
      (simp_all add: item_def builtin_of_def is_math_def assms)
  have plus: "typed shade_env D (EList [sym ''+'', sym ''c'', EList [sym ''sin'', sym ''x'']]) TyInt D"
    by (rule t_math [OF _ _ _ _ _ var sin, of _ "bytes ''+''" "bytes ''c''"])
      (simp_all add: item_def builtin_of_def is_math_def quotient_fits_def assms)
  have set: "typed shade_env D (shade_body ! 0) TyNone D"
    unfolding shade_body_def nth_Cons_0
    by (rule t_set [rotated 4, OF plus, of "bytes ''c''" _ "bytes ''set''"])
      (simp_all add: item_def builtin_of_def is_math_def assms)
  have fits: "quotient_fits (bytes ''/'') (sym ''c'') (EInt 0)"
    by code_simp
  have quot: "typed shade_env D (EList [sym ''/'', sym ''c'', EInt 0]) TyInt D"
    by (rule t_math [OF _ _ _ _ fits var t_int])
      (simp_all add: item_def builtin_of_def is_math_def assms)
  have xor: "typed shade_env D (EList [sym ''^'', EList [sym ''/'', sym ''c'', EInt 0], sym ''y'']) TyInt D"
    by (rule t_math [OF _ _ _ _ _ quot var, of _ "bytes ''^''" "bytes ''y''"])
      (simp_all add: item_def builtin_of_def is_math_def quotient_fits_def assms)
  have ret: "typed shade_env D (shade_body ! 1) TyNone D"
    unfolding shade_body_def nth_Cons_0 One_nat_def nth_Cons_Suc
    by (rule t_ret [OF _ _ _ xor, of _ "bytes ''ret''"]) (simp_all add: item_def builtin_of_def is_math_def)
  have "shade_body = [shade_body ! 0, shade_body ! 1]"
    by (simp add: shade_body_def)
  then show ?thesis
    using typed_seq.cons [OF set typed_seq.cons [OF ret typed_seq.nil]] by simp
qed

theorem vela_typed_shader_draws_witness:
  "\<exists>s. lispRun 4 2 3 shade_code = Inr s \<and>
    List.map snd (v_pixels s) = [(0, 0), (0, 1), (0, 2), (1, 0), (1, 1), (1, 2)]"
proof -
  have up: "upto_u32 2 = [0, 1]" "upto_u32 3 = [0, 1, 2]"
    by (simp_all add: upto_u32_def upt_rec)
  have glob: "typed_seq shade_env {} [shade_glob] {bytes ''c''}"
    by (rule typed_seq.cons [OF shade_glob_typed typed_seq.nil])
  have body: "typed_seq shade_env (insert (cstr (bytes ''y'')) (insert (cstr (bytes ''x'')) {bytes ''c''})) shade_body
      {bytes ''c'', bytes ''x'', bytes ''y''}"
    using shade_body_typed [OF refl] by (simp add: insert_commute)
  show ?thesis
    using vela_typed_shader_draws [OF shade_tokens glob _ _ body, of 4 2 3]
    by (simp add: up shade_body_def shade_glob_def)
qed

end
