(* ===== verification/Fat32.thy ===== *)
theory Fat32
  imports CString
begin

text \<open>
  The FAT32 driver, \<^verbatim>\<open>src/drivers/fs/FAT32/fat.hpp\<close>. The drive is the function that gives the
  512 bytes of each sector, which is what \<^verbatim>\<open>Storage::readSector\<close> delivers; the boot sector is
  its bytes. The allocator is a function from the size asked for to the buffer it hands out, or
  none. Offsets and sector numbers are machine words and wrap around.
\<close>

type_synonym disk = "u32 \<Rightarrow> u8 list"
type_synonym allocator = "nat \<Rightarrow> u8 list option"

section \<open>The boot sector\<close>

definition field16 :: "u8 list \<Rightarrow> nat \<Rightarrow> u16" where
  "field16 b i = le16 (b ! i) (b ! (i + 1))"

definition field32 :: "u8 list \<Rightarrow> nat \<Rightarrow> u32" where
  "field32 b i = le32 (b ! i) (b ! (i + 1)) (b ! (i + 2)) (b ! (i + 3))"

definition SIZEOF_BOOTSECTOR :: nat where "SIZEOF_BOOTSECTOR = 502"

definition bytesPerSector :: "u8 list \<Rightarrow> u32" where "bytesPerSector b = ucast (field16 b 11)"
definition sectorsPerCluster :: "u8 list \<Rightarrow> u32" where "sectorsPerCluster b = ucast (b ! 13)"
definition reservedSectors :: "u8 list \<Rightarrow> u32" where "reservedSectors b = ucast (field16 b 14)"
definition fatsOnMedia :: "u8 list \<Rightarrow> u32" where "fatsOnMedia b = ucast (b ! 16)"
definition sectorsPerFat32 :: "u8 list \<Rightarrow> u32" where "sectorsPerFat32 b = field32 b 36"
definition rootDirClusterNum :: "u8 list \<Rightarrow> u32" where "rootDirClusterNum b = field32 b 44"
definition bs_signature :: "u8 list \<Rightarrow> u8" where "bs_signature b = b ! 66"

text \<open>The driver: the boot sector that \<^verbatim>\<open>getPriority\<close> read and the start of the data region.\<close>

record fat32 =
  bootSector :: "u8 list"
  dataRegionStart :: u32

text \<open>
  \<^verbatim>\<open>getPriority\<close> reads a whole sector into a buffer of the size of the structure; the model
  keeps the bytes of the structure.
\<close>

definition fat_getPriority :: "allocator \<Rightarrow> disk \<Rightarrow> fat32 \<Rightarrow> bool \<times> fat32" where
  "fat_getPriority al d s =
     (case al SIZEOF_BOOTSECTOR of
        None \<Rightarrow> (False, s)
      | Some _ \<Rightarrow>
          (let b = take SIZEOF_BOOTSECTOR (d 0)
           in (bs_signature b = 0x28 \<or> bs_signature b = 0x29, s\<lparr>bootSector := b\<rparr>)))"

definition fat_init :: "fat32 \<Rightarrow> fat32" where
  "fat_init s = s\<lparr>dataRegionStart := reservedSectors (bootSector s) +
     fatsOnMedia (bootSector s) * sectorsPerFat32 (bootSector s)\<rparr>"

section \<open>Clusters and the allocation table\<close>

definition clusterToSector :: "fat32 \<Rightarrow> u32 \<Rightarrow> u32" where
  "clusterToSector s cluster = dataRegionStart s + (cluster - 2) * sectorsPerCluster (bootSector s)"

definition readFatEntry :: "disk \<Rightarrow> fat32 \<Rightarrow> u32 \<Rightarrow> u32 exec" where
  "readFatEntry d s cluster =
     (let fatOffset = cluster * 4; bps = bytesPerSector (bootSector s) in
      if bps = 0 then Inl (Trap ''divide error'')
      else let fatSector = reservedSectors (bootSector s) + fatOffset div bps;
               entryOffsetInSector = fatOffset mod bps
           in bindE (rd32 (d fatSector) entryOffsetInSector) (\<lambda>entry. Inr (entry AND 0x0FFFFFFF)))"

text \<open>Reading a cluster overwrites the buffer sector by sector, 512 bytes each.\<close>

definition write_at :: "u8 list \<Rightarrow> nat \<Rightarrow> u8 list \<Rightarrow> u8 list exec" where
  "write_at buf i xs =
     (if i + length xs \<le> length buf then Inr (take i buf @ xs @ drop (i + length xs) buf) else Inl OutOfBounds)"

fun readCluster_loop :: "disk \<Rightarrow> u32 \<Rightarrow> nat list \<Rightarrow> u8 list \<Rightarrow> u8 list exec" where
  "readCluster_loop d firstSector [] buf = Inr buf"
| "readCluster_loop d firstSector (i # is) buf =
     bindE (write_at buf (i * 512) (d (firstSector + word_of_nat i))) (\<lambda>buf'. readCluster_loop d firstSector is buf')"

definition readCluster :: "disk \<Rightarrow> fat32 \<Rightarrow> u32 \<Rightarrow> u8 list \<Rightarrow> u8 list exec" where
  "readCluster d s cluster buf =
     readCluster_loop d (clusterToSector s cluster) [0..<unat (sectorsPerCluster (bootSector s))] buf"

definition bytesPerCluster :: "fat32 \<Rightarrow> u32" where
  "bytesPerCluster s = bytesPerSector (bootSector s) * sectorsPerCluster (bootSector s)"

section \<open>Names\<close>

definition is_sep :: "u8 \<Rightarrow> bool" where
  "is_sep c \<longleftrightarrow> c = 47 \<or> c = 92"

fun fat_base :: "u8 list \<Rightarrow> u8 list \<Rightarrow> (u8 list \<times> u8 list) option exec" where
  "fat_base acc [] = Inl OutOfBounds"
| "fat_base acc (c # s) =
     (if c \<noteq> 0 \<and> \<not> is_sep c \<and> c \<noteq> 46
      then (if length acc \<ge> 8 then Inr None else fat_base (acc @ [c]) s)
      else Inr (Some (acc, c # s)))"

fun fat_ext :: "u8 list \<Rightarrow> u8 list \<Rightarrow> u8 list option exec" where
  "fat_ext acc [] = Inl OutOfBounds"
| "fat_ext acc (c # s) =
     (if c \<noteq> 0 \<and> \<not> is_sep c
      then (if length acc \<ge> 3 then Inr None else fat_ext (acc @ [c]) s)
      else Inr (Some acc))"

definition pad :: "nat \<Rightarrow> u8 list \<Rightarrow> u8 list" where
  "pad n s = s @ replicate (n - length s) 32"

definition makeFatName :: "u8 list \<Rightarrow> u8 list option exec" where
  "makeFatName normalName =
     bindE (fat_base [] normalName) (\<lambda>r. case r of
         None \<Rightarrow> Inr None
       | Some (name, rest) \<Rightarrow>
           if name = [] then Inr None
           else bindE (if hd rest = 46 then fat_ext [] (tl rest) else Inr (Some [])) (\<lambda>x. case x of
               None \<Rightarrow> Inr None
             | Some ext \<Rightarrow> bindE (strToUpper (pad 8 name @ pad 3 ext @ [0])) (\<lambda>n. Inr (Some n))))"

section \<open>Directories\<close>

text \<open>A directory entry is its 32 bytes.\<close>

definition SIZEOF_DIRENTRY :: nat where "SIZEOF_DIRENTRY = 32"
definition de_name :: "u8 list \<Rightarrow> u8 list" where "de_name e = take 8 e"
definition de_ext :: "u8 list \<Rightarrow> u8 list" where "de_ext e = take 3 (drop 8 e)"
definition de_attributes :: "u8 list \<Rightarrow> u8" where "de_attributes e = e ! 11"
definition de_firstClusterHigh :: "u8 list \<Rightarrow> u16" where "de_firstClusterHigh e = field16 e 20"
definition de_firstClusterLow :: "u8 list \<Rightarrow> u16" where "de_firstClusterLow e = field16 e 26"
definition de_filesize :: "u8 list \<Rightarrow> u32" where "de_filesize e = field32 e 28"

definition clusterOf :: "u8 list \<Rightarrow> u32" where
  "clusterOf e = push_bit 16 (ucast (de_firstClusterHigh e)) OR ucast (de_firstClusterLow e)"

datatype scan = Found "u8 list" | EndOfDir | NextCluster

text \<open>The search of one cluster: the bytes from the current entry on and the entries left.\<close>

fun scan_cluster :: "u8 list \<Rightarrow> u8 list \<Rightarrow> nat \<Rightarrow> scan exec" where
  "scan_cluster fatName buf 0 = Inr NextCluster"
| "scan_cluster fatName buf (Suc n) =
     (let e = take SIZEOF_DIRENTRY buf; rest = drop SIZEOF_DIRENTRY buf in
      if e ! 0 = 0 then Inr EndOfDir
      else if e ! 0 = 0xE5 then scan_cluster fatName rest n
      else if de_attributes e AND 0x0F = 0x0F then scan_cluster fatName rest n
      else bindE (strToUpper (de_name e @ de_ext e @ [0])) (\<lambda>onDiskName.
           bindE (streqi onDiskName fatName) (\<lambda>eq.
           if eq then Inr (Found e) else scan_cluster fatName rest n)))"

text \<open>The walk along the chain of clusters; the fuel bounds its length.\<close>

fun findDir_walk :: "nat \<Rightarrow> disk \<Rightarrow> fat32 \<Rightarrow> u8 list \<Rightarrow> u32 \<Rightarrow> u8 list \<Rightarrow> u8 list option exec" where
  "findDir_walk 0 d s fatName cluster buf = Inl Hang"
| "findDir_walk (Suc k) d s fatName cluster buf =
     bindE (readCluster d s cluster buf) (\<lambda>buf'.
     bindE (scan_cluster fatName buf' (unat (bytesPerCluster s) div SIZEOF_DIRENTRY)) (\<lambda>r. case r of
         EndOfDir \<Rightarrow> Inr None
       | Found e \<Rightarrow> Inr (Some e)
       | NextCluster \<Rightarrow>
           bindE (readFatEntry d s cluster) (\<lambda>next_cluster.
           if next_cluster \<ge> 0x0FFFFFF8 then Inr None
           else findDir_walk k d s fatName next_cluster buf')))"

definition findDirEntryInDir :: "nat \<Rightarrow> allocator \<Rightarrow> disk \<Rightarrow> fat32 \<Rightarrow> u32 \<Rightarrow> u8 list \<Rightarrow> u8 list option exec" where
  "findDirEntryInDir k al d s startCluster filename =
     bindE (makeFatName filename) (\<lambda>r. case r of
         None \<Rightarrow> Inr None
       | Some fatName \<Rightarrow>
           (case al (unat (bytesPerCluster s)) of
              None \<Rightarrow> Inr None
            | Some clusterBuf \<Rightarrow> findDir_walk k d s fatName startCluster clusterBuf))"

section \<open>Paths\<close>

fun skip_seps :: "u8 list \<Rightarrow> u8 list exec" where
  "skip_seps [] = Inl OutOfBounds"
| "skip_seps (c # s) = (if is_sep c then skip_seps s else Inr (c # s))"

fun take_component :: "u8 list \<Rightarrow> u8 list \<Rightarrow> (u8 list \<times> u8 list) option exec" where
  "take_component out [] = Inl OutOfBounds"
| "take_component out (c # s) =
     (if c \<noteq> 0 \<and> \<not> is_sep c
      then (if length out \<ge> 63 then Inr None else take_component (out @ [c]) s)
      else Inr (Some (out @ [0], c # s)))"

text \<open>The next component, terminated, and the rest of the path; none at its end or beyond 63 characters.\<close>

definition splitNextPathComponent :: "u8 list \<Rightarrow> (u8 list \<times> u8 list) option exec" where
  "splitNextPathComponent path =
     bindE (skip_seps path) (\<lambda>p. if hd p = 0 then Inr None else take_component [] p)"

fun resolve_walk :: "nat \<Rightarrow> nat \<Rightarrow> allocator \<Rightarrow> disk \<Rightarrow> fat32 \<Rightarrow> u32 \<Rightarrow> u8 list \<Rightarrow> u8 list option exec" where
  "resolve_walk k 0 al d s dir p = Inl Hang"
| "resolve_walk k (Suc n) al d s dir p =
     bindE (splitNextPathComponent p) (\<lambda>r. case r of
         None \<Rightarrow> Inr None
       | Some (component, p1) \<Rightarrow>
           bindE (findDirEntryInDir k al d s dir component) (\<lambda>found. case found of
               None \<Rightarrow> Inr None
             | Some e \<Rightarrow>
                 bindE (skip_seps p1) (\<lambda>p2.
                 if hd p2 = 0 then Inr (Some e)
                 else if de_attributes e AND 0x10 = 0 then Inr None
                 else resolve_walk k n al d s (clusterOf e) p2)))"

text \<open>Each round consumes a component, so the length of the path bounds the rounds.\<close>

definition resolvePath :: "nat \<Rightarrow> allocator \<Rightarrow> disk \<Rightarrow> fat32 \<Rightarrow> u8 list \<Rightarrow> u8 list option exec" where
  "resolvePath k al d s fp =
     bindE (rd8 fp 0) (\<lambda>c.
     if c = 0 then Inr None
     else resolve_walk k (length fp) al d s (rootDirClusterNum (bootSector s)) fp)"

definition isRootPath :: "u8 list \<Rightarrow> bool exec" where
  "isRootPath fp =
     bindE (rd8 fp 0) (\<lambda>c. if c = 0 then Inr True else bindE (skip_seps fp) (\<lambda>p. Inr (hd p = 0)))"

section \<open>Files\<close>

record fatdata =
  fd_cluster :: u32
  fd_isDirectory :: bool

record fatfile =
  ff_fsData :: "fatdata option"
  ff_size :: u32
  ff_exists :: bool

definition SIZEOF_FILEDATA :: nat where "SIZEOF_FILEDATA = 8"

definition fat_open :: "nat \<Rightarrow> allocator \<Rightarrow> disk \<Rightarrow> fat32 \<Rightarrow> u8 list \<Rightarrow> fatfile exec" where
  "fat_open k al d s fp =
     (case al SIZEOF_FILEDATA of
        None \<Rightarrow> Inr \<lparr>ff_fsData = None, ff_size = 0, ff_exists = False\<rparr>
      | Some _ \<Rightarrow>
          bindE (isRootPath fp) (\<lambda>root.
          if root then Inr \<lparr>ff_fsData = Some \<lparr>fd_cluster = rootDirClusterNum (bootSector s), fd_isDirectory = True\<rparr>,
                            ff_size = 0, ff_exists = True\<rparr>
          else bindE (resolvePath k al d s fp) (\<lambda>r. case r of
              None \<Rightarrow> Inr \<lparr>ff_fsData = Some \<lparr>fd_cluster = 0, fd_isDirectory = False\<rparr>, ff_size = 0, ff_exists = False\<rparr>
            | Some e \<Rightarrow> Inr \<lparr>ff_fsData = Some \<lparr>fd_cluster = clusterOf e,
                               fd_isDirectory = (de_attributes e AND 0x10 \<noteq> 0)\<rparr>,
                             ff_size = de_filesize e, ff_exists = True\<rparr>)))"

text \<open>The loop of \<^verbatim>\<open>read\<close>: the bytes it has copied out when it stops.\<close>

fun fat_read_loop :: "nat \<Rightarrow> disk \<Rightarrow> fat32 \<Rightarrow> u32 \<Rightarrow> u8 list \<Rightarrow> u32 \<Rightarrow> u8 list exec" where
  "fat_read_loop 0 d s cluster buf remaining = (if remaining = 0 then Inr [] else Inl Hang)"
| "fat_read_loop (Suc k) d s cluster buf remaining =
     (if remaining = 0 then Inr []
      else bindE (readCluster d s cluster buf) (\<lambda>buf'.
        let chunk = (if remaining < bytesPerCluster s then remaining else bytesPerCluster s);
            out = take (unat chunk) buf' in
        if remaining - chunk = 0 then Inr out
        else bindE (readFatEntry d s cluster) (\<lambda>next_cluster.
          if next_cluster \<ge> 0x0FFFFFF8 then Inr out
          else bindE (fat_read_loop k d s next_cluster buf' (remaining - chunk)) (\<lambda>rest. Inr (out @ rest)))))"

datatype success = Sucess | Error

definition fat_read :: "nat \<Rightarrow> allocator \<Rightarrow> disk \<Rightarrow> fat32 \<Rightarrow> fatfile \<Rightarrow> u32 \<Rightarrow> (success \<times> u8 list) exec" where
  "fat_read k al d s f len =
     (case ff_fsData f of
        None \<Rightarrow> Inr (Error, [])
      | Some fd \<Rightarrow>
          if fd_isDirectory fd then Inr (Error, [])
          else (case al (unat (bytesPerCluster s)) of
              None \<Rightarrow> Inr (Error, [])
            | Some clusterBuf \<Rightarrow>
                bindE (fat_read_loop k d s (fd_cluster fd) clusterBuf (if len < ff_size f then len else ff_size f))
                  (\<lambda>out. Inr (Sucess, out))))"

section \<open>A well-formed volume\<close>

text \<open>
  Sectors of 512 bytes, on the drive and in the boot sector, at least one of them in a cluster, and
  an allocator that hands out buffers of the size asked for.
\<close>

definition fat_volume :: "disk \<Rightarrow> fat32 \<Rightarrow> bool" where
  "fat_volume d s \<longleftrightarrow> (\<forall>i. length (d i) = 512) \<and> bytesPerSector (bootSector s) = 512 \<and>
     0 < sectorsPerCluster (bootSector s)"

definition gives_buffers :: "allocator \<Rightarrow> bool" where
  "gives_buffers al \<longleftrightarrow> (\<forall>n. \<exists>b. al n = Some b \<and> length b = n)"

definition clusterSize :: "fat32 \<Rightarrow> nat" where
  "clusterSize s = 512 * unat (sectorsPerCluster (bootSector s))"

definition cluster_bytes :: "disk \<Rightarrow> fat32 \<Rightarrow> u32 \<Rightarrow> u8 list" where
  "cluster_bytes d s c =
     concat (List.map (\<lambda>i. d (clusterToSector s c + word_of_nat i)) [0..<unat (sectorsPerCluster (bootSector s))])"

lemma sectorsPerCluster_less: "unat (sectorsPerCluster b) < 256"
proof -
  have "unat (sectorsPerCluster b) = unat (b ! 13)"
    by (simp add: sectorsPerCluster_def unsigned_ucast_eq take_bit_nat_eq_self_iff)
      (use unsigned_less [of "b ! 13", where 'a = nat] in simp)
  then show ?thesis
    using unsigned_less [of "b ! 13", where 'a = nat] by simp
qed

lemma unat_bytesPerCluster: "fat_volume d s \<Longrightarrow> unat (bytesPerCluster s) = clusterSize s"
  using sectorsPerCluster_less [of "bootSector s"]
  by (simp add: fat_volume_def bytesPerCluster_def clusterSize_def unat_word_ariths)

lemma clusterSize_pos: "fat_volume d s \<Longrightarrow> 0 < clusterSize s"
  by (auto simp: fat_volume_def clusterSize_def unat_gt_0)

lemma length_cluster_bytes: "fat_volume d s \<Longrightarrow> length (cluster_bytes d s c) = clusterSize s"
  by (simp add: fat_volume_def clusterSize_def cluster_bytes_def length_concat sum_list_triv o_def)

lemma readCluster_loop_eq:
  assumes "\<And>i. length (d i) = 512" and "length buf = 512 * n" and "m \<le> n"
  shows "readCluster_loop d f [m..<n] buf =
    Inr (take (512 * m) buf @ concat (List.map (\<lambda>i. d (f + word_of_nat i)) [m..<n]))"
  using assms(2,3)
proof (induction "n - m" arbitrary: m buf)
  case (Suc j)
  then have up: "[m..<n] = m # [Suc m..<n]"
    by (simp add: upt_rec)
  have "write_at buf (m * 512) (d (f + word_of_nat m)) =
      Inr (take (512 * m) buf @ d (f + word_of_nat m) @ drop (512 * m + 512) buf)"
    using Suc.hyps(2) Suc.prems by (simp add: write_at_def assms(1) ac_simps)
  then show ?case
    using Suc.hyps(1) [of "Suc m"] Suc.hyps(2) Suc.prems by (simp add: up assms(1))
qed simp

lemma readCluster_eq:
  assumes "fat_volume d s" and "length buf = clusterSize s"
  shows "readCluster d s c buf = Inr (cluster_bytes d s c)"
  using readCluster_loop_eq [of d buf "unat (sectorsPerCluster (bootSector s))" 0] assms
  by (simp add: readCluster_def cluster_bytes_def fat_volume_def clusterSize_def)

text \<open>An entry of the allocation table never crosses the end of its sector.\<close>

lemma readFatEntry_defined:
  assumes "fat_volume d s"
  shows "\<exists>v. readFatEntry d s c = Inr v"
proof -
  have "unat (c * 4 mod 512) = unat (c * 4) mod 512"
    by (simp add: unat_mod)
  moreover have "unat (c * 4) = (unat c * 4) mod 2 ^ 32"
    by (simp add: unat_word_ariths)
  ultimately have m: "unat (c * 4 mod 512) = (unat c * 4) mod 2 ^ 32 mod 512"
    by simp
  have "(n * 4) mod 2 ^ 32 mod 512 + 3 < (512 :: nat)" for n
  proof -
    have "(n * 4) mod 2 ^ 32 mod 512 = (n * 4) mod 512"
      by (simp add: mod_mod_cancel)
    also have "\<dots> = 4 * (n mod 128)"
      using mult_mod_left [of n 128 4] by simp
    finally show ?thesis
      using mod_less_divisor [of 128 n] by linarith
  qed
  from this [of "unat c"] show ?thesis
    using assms by (simp add: readFatEntry_def fat_volume_def rd32_def m Let_def)
qed

section \<open>Reading a file\<close>

text \<open>A chain of clusters in the allocation table, up to an end mark.\<close>

fun fat_chain :: "disk \<Rightarrow> fat32 \<Rightarrow> u32 list \<Rightarrow> bool" where
  "fat_chain d s [] = False"
| "fat_chain d s (c # cs) =
     (case readFatEntry d s c of
        Inl _ \<Rightarrow> False
      | Inr n \<Rightarrow> (if n \<ge> 0x0FFFFFF8 then cs = [] else cs \<noteq> [] \<and> hd cs = n \<and> fat_chain d s cs))"

definition chain_bytes :: "disk \<Rightarrow> fat32 \<Rightarrow> u32 list \<Rightarrow> u8 list" where
  "chain_bytes d s cs = concat (List.map (cluster_bytes d s) cs)"

lemma chain_bytes_Cons: "chain_bytes d s (c # cs) = cluster_bytes d s c @ chain_bytes d s cs"
  by (simp add: chain_bytes_def)

lemma fat_read_loop_eq:
  assumes vol: "fat_volume d s"
  shows "fat_chain d s (c # cs) \<Longrightarrow> length (c # cs) \<le> k \<Longrightarrow> length buf = clusterSize s \<Longrightarrow>
     fat_read_loop k d s c buf remaining = Inr (take (unat remaining) (chain_bytes d s (c # cs)))"
proof (induction cs arbitrary: c k buf remaining)
  case (Nil c)
  then obtain k' where k: "k = Suc k'"
    by (cases k) auto
  have "\<exists>n. readFatEntry d s c = Inr n \<and> n \<ge> 0x0FFFFFF8"
    using Nil.prems(1) by (auto split: sum.splits if_splits)
  then show ?case
    using Nil.prems(3) length_cluster_bytes [OF vol, of c] unat_bytesPerCluster [OF vol]
    by (auto simp: k chain_bytes_def readCluster_eq [OF vol] Let_def word_less_nat_alt)
next
  case (Cons c' cs c)
  then obtain k' where k: "k = Suc k'"
    by (cases k) auto
  have n: "readFatEntry d s c = Inr c'" "\<not> c' \<ge> 0x0FFFFFF8" "fat_chain d s (c' # cs)"
    using Cons.prems(1) by (auto split: sum.splits if_splits)
  have ih: "fat_read_loop k' d s c' (cluster_bytes d s c) r = Inr (take (unat r) (chain_bytes d s (c' # cs)))" for r
    using Cons.IH [OF n(3)] Cons.prems(2) length_cluster_bytes [OF vol, of c] by (simp add: k)
  have sub: "unat (remaining - bytesPerCluster s) = unat remaining - clusterSize s" if "\<not> remaining < bytesPerCluster s"
    using that unat_bytesPerCluster [OF vol] by (simp add: not_less unat_sub)
  have le: "unat remaining \<le> clusterSize s" if "remaining - bytesPerCluster s = 0"
    using that unat_bytesPerCluster [OF vol] by simp
  show ?case
    using Cons.prems(3) length_cluster_bytes [OF vol, of c] unat_bytesPerCluster [OF vol] n sub le
    by (simp add: k readCluster_eq [OF vol] ih chain_bytes_Cons [of _ _ c] Let_def word_less_nat_alt)
qed

lemma fat_read_eq:
  assumes "fat_volume d s" and "gives_buffers al" and "fat_chain d s cs" and "length cs \<le> k"
    and "ff_fsData f = Some \<lparr>fd_cluster = hd cs, fd_isDirectory = False\<rparr>"
  shows "fat_read k al d s f len = Inr (Sucess, take (min (unat len) (unat (ff_size f))) (chain_bytes d s cs))"
proof -
  obtain c cs' where cs: "cs = c # cs'"
    using assms(3) by (cases cs) auto
  obtain b where b: "al (unat (bytesPerCluster s)) = Some b" "length b = clusterSize s"
    using assms(2) unat_bytesPerCluster [OF assms(1)] by (auto simp: gives_buffers_def)
  show ?thesis
    using fat_read_loop_eq [OF assms(1) assms(3) [unfolded cs], of k b] assms(4,5) b
    by (simp add: fat_read_def cs word_less_nat_alt min_def)
qed

text \<open>C13: reading a file gives the beginning of the contents of its clusters, in the order of the
  chain, up to the length asked for and the size of the file.\<close>

theorem fat_read_refines_chain:
  assumes "fat_volume d s" and "gives_buffers al" and "fat_chain d s cs" and "length cs \<le> k"
    and "ff_fsData f = Some \<lparr>fd_cluster = hd cs, fd_isDirectory = False\<rparr>"
  shows "fat_read k al d s f len = Inr (Sucess, take (min (unat len) (unat (ff_size f))) (chain_bytes d s cs))"
  by (rule fat_read_eq [OF assms])

section \<open>Searching a directory\<close>

text \<open>
  The directory as a list of entries, and the search it promises: up to the first entry that was
  never used, the first one that is neither deleted nor part of a long name and has the name.
\<close>

fun dir_entries :: "nat \<Rightarrow> u8 list \<Rightarrow> u8 list list" where
  "dir_entries 0 b = []"
| "dir_entries (Suc n) b = take SIZEOF_DIRENTRY b # dir_entries n (drop SIZEOF_DIRENTRY b)"

definition live :: "u8 list \<Rightarrow> bool" where
  "live e \<longleftrightarrow> e ! 0 \<noteq> 0xE5 \<and> de_attributes e AND 0x0F \<noteq> 0x0F"

definition disk_name :: "u8 list \<Rightarrow> u8 list" where
  "disk_name e = List.map toUpper (cstr (de_name e @ de_ext e))"

definition dir_search :: "u8 list \<Rightarrow> u8 list list \<Rightarrow> u8 list option" where
  "dir_search name es = List.find (\<lambda>e. live e \<and> disk_name e = name) (takeWhile (\<lambda>e. e ! 0 \<noteq> 0) es)"

definition directory :: "disk \<Rightarrow> fat32 \<Rightarrow> u32 list \<Rightarrow> u8 list list" where
  "directory d s cs = concat (List.map (\<lambda>c. dir_entries (clusterSize s div SIZEOF_DIRENTRY) (cluster_bytes d s c)) cs)"

lemma sint_word_of_int_8: "-128 \<le> i \<Longrightarrow> i < 128 \<Longrightarrow> sint (word_of_int i :: u8) = i"
  unfolding sint_sbintrunc' by (intro signed_take_bit_int_eq_self) simp_all

lemma toUpper_idem [simp]: "toUpper (toUpper c) = toUpper c"
proof (cases "97 \<le> sint c \<and> sint c \<le> 122")
  case True
  have "c - 97 + 65 = word_of_int (sint c - 97 + 65)"
    by simp
  then have "sint (c - 97 + 65) = sint c - 32"
    using sint_word_of_int_8 [of "sint c - 97 + 65"] True by simp
  then show ?thesis
    using True by (simp add: toUpper_def)
qed (simp add: toUpper_def)

lemma toUpper_zero [simp]: "toUpper c = 0 \<longleftrightarrow> c = 0"
proof (cases "97 \<le> sint c \<and> sint c \<le> 122")
  case True
  have "c - 97 + 65 = word_of_int (sint c - 97 + 65)"
    by simp
  then have "sint (c - 97 + 65) = sint c - 32"
    using sint_word_of_int_8 [of "sint c - 97 + 65"] True by simp
  then have "c - 97 + 65 \<noteq> 0" "c \<noteq> 0"
    using True by auto
  then show ?thesis
    using True by (simp add: toUpper_def)
qed (auto simp: toUpper_def)

lemma cstr_map_toUpper [simp]: "cstr (List.map toUpper s) = List.map toUpper (cstr s)"
  by (induction s) auto

lemma cstr_snoc_nul [simp]: "cstr (s @ [0]) = cstr s"
  by (induction s) auto

lemma strToUpper_snoc:
  "\<exists>up. strToUpper (s @ [0]) = Inr up \<and> terminated up \<and> cstr up = List.map toUpper (cstr s)"
  by (induction s) auto

lemma scan_cluster_eq:
  assumes "terminated fatName" and "List.map toUpper (cstr fatName) = name"
  shows "scan_cluster fatName buf n =
    Inr (case dir_search name (dir_entries n buf) of
           Some e \<Rightarrow> Found e
         | None \<Rightarrow> if list_all (\<lambda>e. e ! 0 \<noteq> 0) (dir_entries n buf) then NextCluster else EndOfDir)"
proof (induction n arbitrary: buf)
  case (Suc n)
  let ?e = "take SIZEOF_DIRENTRY buf"
  obtain up where up: "strToUpper (de_name ?e @ de_ext ?e @ [0]) = Inr up" "terminated up" "cstr up = disk_name ?e"
    using strToUpper_snoc [of "de_name ?e @ de_ext ?e"] by (auto simp: disk_name_def)
  have "streqi up fatName = Inr (disk_name ?e = name)"
    using streqi_eq [OF up(2) assms(1)] up(3) assms(2) by (simp add: disk_name_def o_def)
  then show ?case
    using Suc.IH up(1) by (simp add: Let_def dir_search_def live_def)
qed (simp add: dir_search_def)

lemma dir_search_append:
  "dir_search name (es @ fs) =
     (case dir_search name es of
        Some e \<Rightarrow> Some e
      | None \<Rightarrow> if list_all (\<lambda>e. e ! 0 \<noteq> 0) es then dir_search name fs else None)"
  by (induction es) (auto simp: dir_search_def)

lemma directory_Cons:
  "directory d s (c # cs) = dir_entries (clusterSize s div SIZEOF_DIRENTRY) (cluster_bytes d s c) @ directory d s cs"
  by (simp add: directory_def)

lemma findDir_walk_eq:
  assumes vol: "fat_volume d s" and name: "terminated fatName" "List.map toUpper (cstr fatName) = name"
  shows "fat_chain d s (c # cs) \<Longrightarrow> length (c # cs) \<le> k \<Longrightarrow> length buf = clusterSize s \<Longrightarrow>
     findDir_walk k d s fatName c buf = Inr (dir_search name (directory d s (c # cs)))"
proof (induction cs arbitrary: c k buf)
  case (Nil c)
  then obtain k' where k: "k = Suc k'"
    by (cases k) auto
  have "\<exists>n. readFatEntry d s c = Inr n \<and> n \<ge> 0x0FFFFFF8"
    using Nil.prems(1) by (auto split: sum.splits if_splits)
  then show ?case
    using Nil.prems(3) unat_bytesPerCluster [OF vol]
    by (auto simp: k directory_def readCluster_eq [OF vol] scan_cluster_eq [OF name] split: option.splits)
next
  case (Cons c' cs c)
  then obtain k' where k: "k = Suc k'"
    by (cases k) auto
  have n: "readFatEntry d s c = Inr c'" "\<not> c' \<ge> 0x0FFFFFF8" "fat_chain d s (c' # cs)"
    using Cons.prems(1) by (auto split: sum.splits if_splits)
  have ih: "findDir_walk k' d s fatName c' (cluster_bytes d s c) = Inr (dir_search name (directory d s (c' # cs)))"
    using Cons.IH [OF n(3)] Cons.prems(2) length_cluster_bytes [OF vol, of c] by (simp add: k)
  show ?case
    using Cons.prems(3) unat_bytesPerCluster [OF vol] n ih
    by (simp add: k directory_Cons [of _ _ c] dir_search_append readCluster_eq [OF vol] scan_cluster_eq [OF name]
        split: option.split)
qed

text \<open>The name a component is looked up under.\<close>

definition fat_name :: "u8 list \<Rightarrow> u8 list \<Rightarrow> u8 list" where
  "fat_name base ext = List.map toUpper (pad 8 base @ pad 3 ext)"

definition plain :: "u8 list \<Rightarrow> bool" where
  "plain s \<longleftrightarrow> list_all (\<lambda>c. c \<noteq> 0 \<and> \<not> is_sep c \<and> c \<noteq> 46) s"

lemma fat_base_eq:
  "plain s \<Longrightarrow> stop = 0 \<or> is_sep stop \<or> stop = 46 \<Longrightarrow> length acc + length s \<le> 8 \<Longrightarrow>
     fat_base acc (s @ stop # t) = Inr (Some (acc @ s, stop # t))"
  by (induction s arbitrary: acc) (auto simp: plain_def)

lemma fat_ext_eq:
  "list_all (\<lambda>c. c \<noteq> 0 \<and> \<not> is_sep c) s \<Longrightarrow> stop = 0 \<or> is_sep stop \<Longrightarrow> length acc + length s \<le> 3 \<Longrightarrow>
     fat_ext acc (s @ stop # t) = Inr (Some (acc @ s))"
  by (induction s arbitrary: acc) auto

text \<open>The text of a file name: an extension is written behind a dot.\<close>

definition file_name :: "u8 list \<Rightarrow> u8 list \<Rightarrow> u8 list" where
  "file_name base ext = (if ext = [] then base else base @ 46 # ext)"

definition name_ok :: "u8 list \<Rightarrow> u8 list \<Rightarrow> bool" where
  "name_ok base ext \<longleftrightarrow> base \<noteq> [] \<and> length base \<le> 8 \<and> length ext \<le> 3 \<and> plain base \<and> plain ext"

lemma strToUpper_fat_name:
  assumes "name_ok base ext"
  shows "strToUpper (pad 8 base @ pad 3 ext @ [0]) = Inr (fat_name base ext @ [0])"
proof -
  have "0 \<notin> set (pad 8 base @ pad 3 ext)"
    using assms by (auto simp: name_ok_def plain_def pad_def list_all_iff)
  then show ?thesis
    using strToUpper_eq [of "(pad 8 base @ pad 3 ext) @ [0]"] cstr_append_nul [of "pad 8 base @ pad 3 ext" "[]"]
    by (simp add: fat_name_def)
qed

lemma cstr_fat_name:
  assumes "name_ok base ext"
  shows "List.map toUpper (cstr (fat_name base ext @ [0])) = fat_name base ext"
proof -
  have "0 \<notin> set (fat_name base ext)"
    using assms by (auto simp: fat_name_def name_ok_def plain_def pad_def list_all_iff)
  then show ?thesis
    using cstr_append_nul [of "fat_name base ext" "[]"] by (simp add: fat_name_def o_def)
qed

lemma makeFatName_eq:
  assumes "name_ok base ext"
  shows "makeFatName (file_name base ext @ [0]) = Inr (Some (fat_name base ext @ [0]))"
proof -
  have up: "strToUpper (pad 8 base @ pad 3 ext @ [0]) = Inr (fat_name base ext @ [0])"
    by (rule strToUpper_fat_name [OF assms])
  show ?thesis
  proof (cases "ext = []")
    case True
    then show ?thesis
      using assms up fat_base_eq [of base 0 "[]" "[]"] by (simp add: makeFatName_def file_name_def name_ok_def)
  next
    case False
    then show ?thesis
      using assms up fat_base_eq [of base 46 "[]" "ext @ [0]"] fat_ext_eq [of ext 0 "[]" "[]"]
      by (simp add: makeFatName_def file_name_def name_ok_def plain_def list_all_iff)
  qed
qed

lemma findDirEntry_eq:
  assumes "fat_volume d s" and "gives_buffers al" and "fat_chain d s cs" and "length cs \<le> k" and "name_ok base ext"
  shows "findDirEntryInDir k al d s (hd cs) (file_name base ext @ [0]) =
    Inr (dir_search (fat_name base ext) (directory d s cs))"
proof -
  obtain c cs' where cs: "cs = c # cs'"
    using assms(3) by (cases cs) auto
  obtain b where b: "al (unat (bytesPerCluster s)) = Some b" "length b = clusterSize s"
    using assms(2) unat_bytesPerCluster [OF assms(1)] by (auto simp: gives_buffers_def)
  from findDir_walk_eq [OF assms(1) _ cstr_fat_name [OF assms(5)] assms(3) [unfolded cs], of k b] show ?thesis
    using b assms(4) by (simp add: findDirEntryInDir_def makeFatName_eq [OF assms(5)] cs)
qed

text \<open>C12: looking a name up in a directory gives what the search of all its entries, over all
  the clusters of its chain, gives: the first entry that is neither deleted nor part of a long name
  and has the name, unless the end of the directory comes before it.\<close>

theorem fat_lookup_is_search:
  assumes "fat_volume d s" and "gives_buffers al" and "fat_chain d s cs" and "length cs \<le> k" and "name_ok base ext"
  shows "findDirEntryInDir k al d s (hd cs) (file_name base ext @ [0]) =
    Inr (dir_search (fat_name base ext) (directory d s cs))"
  by (rule findDirEntry_eq [OF assms])

section \<open>Opening a path\<close>

type_synonym fname = "u8 list \<times> u8 list"

definition path_text :: "fname list \<Rightarrow> u8 list" where
  "path_text ns = concat (List.map (\<lambda>n. 47 # file_name (fst n) (snd n)) ns) @ [0]"

text \<open>
  The entry a path leads to: every component is searched in the directory of the one before, whose
  clusters \<open>ch\<close> gives.
\<close>

fun path_lookup :: "disk \<Rightarrow> fat32 \<Rightarrow> (u32 \<Rightarrow> u32 list) \<Rightarrow> u32 \<Rightarrow> fname list \<Rightarrow> u8 list option" where
  "path_lookup d s ch c [] = None"
| "path_lookup d s ch c (n # ns) =
     (case dir_search (fat_name (fst n) (snd n)) (directory d s (ch c)) of
        None \<Rightarrow> None
      | Some e \<Rightarrow> if ns = [] then Some e
                  else if de_attributes e AND 0x10 = 0 then None
                  else path_lookup d s ch (clusterOf e) ns)"

text \<open>The directories on the way have chains of at most \<open>k\<close> clusters.\<close>

fun dirs_ok :: "disk \<Rightarrow> fat32 \<Rightarrow> nat \<Rightarrow> (u32 \<Rightarrow> u32 list) \<Rightarrow> u32 \<Rightarrow> fname list \<Rightarrow> bool" where
  "dirs_ok d s k ch c [] = True"
| "dirs_ok d s k ch c (n # ns) \<longleftrightarrow>
     fat_chain d s (ch c) \<and> hd (ch c) = c \<and> length (ch c) \<le> k \<and>
     (case dir_search (fat_name (fst n) (snd n)) (directory d s (ch c)) of
        None \<Rightarrow> True
      | Some e \<Rightarrow> de_attributes e AND 0x10 = 0 \<or> dirs_ok d s k ch (clusterOf e) ns)"

lemma file_name_chars:
  assumes "name_ok base ext"
  shows "list_all (\<lambda>c. c \<noteq> 0 \<and> \<not> is_sep c) (file_name base ext)" and "length (file_name base ext) \<le> 12"
    and "file_name base ext \<noteq> []"
  using assms by (auto simp: name_ok_def plain_def file_name_def list_all_iff is_sep_def)

lemma take_component_eq:
  "list_all (\<lambda>c. c \<noteq> 0 \<and> \<not> is_sep c) s \<Longrightarrow> stop = 0 \<or> is_sep stop \<Longrightarrow> length acc + length s \<le> 63 \<Longrightarrow>
     take_component acc (s @ stop # t) = Inr (Some (acc @ s @ [0], stop # t))"
  by (induction s arbitrary: acc) auto

lemma skip_seps_name:
  assumes "list_all (\<lambda>c. c \<noteq> 0 \<and> \<not> is_sep c) s" and "s \<noteq> []"
  shows "skip_seps (s @ t) = Inr (s @ t)" and "hd s \<noteq> 0"
  using assms by (cases s; simp)+

text \<open>The text of a path without its first separator.\<close>

lemma path_text_Cons: "path_text (n # ns) = 47 # file_name (fst n) (snd n) @ path_text ns"
  by (simp add: path_text_def)

lemma path_text_stop: "\<exists>stop t. path_text ns = stop # t \<and> (stop = 0 \<or> is_sep stop)"
  by (cases ns) (auto simp: path_text_def is_sep_def)

lemma split_component:
  assumes "list_all (\<lambda>c. c \<noteq> 0 \<and> \<not> is_sep c) s" and "s \<noteq> []" and "length s \<le> 63"
  shows "splitNextPathComponent (s @ path_text ns) = Inr (Some (s @ [0], path_text ns))"
proof -
  obtain stop t where t: "path_text ns = stop # t" "stop = 0 \<or> is_sep stop"
    using path_text_stop by blast
  show ?thesis
    using skip_seps_name(1) [OF assms(1,2), of "stop # t"] take_component_eq [OF assms(1) t(2), of "[]" t]
      skip_seps_name(2) [OF assms(1,2)] assms(2,3)
    by (simp add: splitNextPathComponent_def t(1) hd_append)
qed

lemma split_component_sep: "splitNextPathComponent (47 # p) = splitNextPathComponent p"
  by (simp add: splitNextPathComponent_def is_sep_def)

lemma resolve_walk_eq:
  assumes "fat_volume d s" and "gives_buffers al"
  shows "list_all (\<lambda>n. name_ok (fst n) (snd n)) (n # ns) \<Longrightarrow> dirs_ok d s k ch c (n # ns) \<Longrightarrow> length (n # ns) \<le> m \<Longrightarrow>
     resolve_walk k m al d s c (file_name (fst n) (snd n) @ path_text ns) = Inr (path_lookup d s ch c (n # ns))"
proof (induction ns arbitrary: n c m)
  case Nil
  then obtain m' where m: "m = Suc m'"
    by (cases m) auto
  have ok: "name_ok (fst n) (snd n)"
    using Nil.prems(1) by simp
  have "findDirEntryInDir k al d s c (file_name (fst n) (snd n) @ [0]) =
      Inr (dir_search (fat_name (fst n) (snd n)) (directory d s (ch c)))"
    using findDirEntry_eq [OF assms, of "ch c" k] ok Nil.prems(2) by auto
  then show ?case
    using split_component [of "file_name (fst n) (snd n)" "[]"] file_name_chars [OF ok]
    by (simp add: m path_text_def is_sep_def split: option.split)
next
  case (Cons n' ns)
  then obtain m' where m: "m = Suc m'"
    by (cases m) auto
  have ok: "name_ok (fst n) (snd n)" "name_ok (fst n') (snd n')"
    using Cons.prems(1) by auto
  have look: "findDirEntryInDir k al d s c (file_name (fst n) (snd n) @ [0]) =
      Inr (dir_search (fat_name (fst n) (snd n)) (directory d s (ch c)))"
    using findDirEntry_eq [OF assms, of "ch c" k] ok Cons.prems(2) by auto
  have skip: "skip_seps (path_text (n' # ns)) = Inr (file_name (fst n') (snd n') @ path_text ns)"
    using skip_seps_name(1) [of "file_name (fst n') (snd n')" "path_text ns"] file_name_chars [OF ok(2)]
    by (simp add: path_text_Cons is_sep_def)
  have "resolve_walk k m' al d s (clusterOf e) (file_name (fst n') (snd n') @ path_text ns) =
      Inr (path_lookup d s ch (clusterOf e) (n' # ns))"
    if "dir_search (fat_name (fst n) (snd n)) (directory d s (ch c)) = Some e" "de_attributes e AND 0x10 \<noteq> 0" for e
    using Cons.IH [of n' "clusterOf e" m'] Cons.prems that by (simp add: m)
  then show ?case
    using split_component [of "file_name (fst n) (snd n)" "n' # ns"] file_name_chars [OF ok(1)] look skip
      skip_seps_name(2) [of "file_name (fst n') (snd n')"] file_name_chars [OF ok(2)]
    by (simp add: m hd_append split: option.split)
qed

text \<open>The file that opening a path gives: that of the entry found, if one is.\<close>

definition file_of :: "u8 list option \<Rightarrow> fatfile" where
  "file_of r = (case r of
      None \<Rightarrow> \<lparr>ff_fsData = Some \<lparr>fd_cluster = 0, fd_isDirectory = False\<rparr>, ff_size = 0, ff_exists = False\<rparr>
    | Some e \<Rightarrow> \<lparr>ff_fsData = Some \<lparr>fd_cluster = clusterOf e, fd_isDirectory = (de_attributes e AND 0x10 \<noteq> 0)\<rparr>,
                 ff_size = de_filesize e, ff_exists = True\<rparr>)"

lemma fat_open_eq:
  assumes "fat_volume d s" and "gives_buffers al" and "ns \<noteq> []" and "list_all (\<lambda>n. name_ok (fst n) (snd n)) ns"
    and "dirs_ok d s k ch (rootDirClusterNum (bootSector s)) ns"
  shows "fat_open k al d s (path_text ns) =
    Inr (file_of (path_lookup d s ch (rootDirClusterNum (bootSector s)) ns))"
proof -
  obtain n ns' where ns: "ns = n # ns'"
    using assms(3) by (cases ns) auto
  have ok: "name_ok (fst n) (snd n)"
    using assms(4) ns by simp
  let ?rest = "file_name (fst n) (snd n) @ path_text ns'"
  obtain m where m: "length (path_text ns) = Suc m"
    by (simp add: ns path_text_Cons)
  have "length ns' \<le> length (path_text ns')"
    by (induction ns') (simp_all add: path_text_def)
  then have len: "length (n # ns') \<le> Suc m"
    using m [symmetric] by (simp add: ns path_text_Cons)
  have "resolve_walk k (Suc m) al d s (rootDirClusterNum (bootSector s)) (path_text ns) =
      resolve_walk k (Suc m) al d s (rootDirClusterNum (bootSector s)) ?rest"
    by (simp add: ns path_text_Cons split_component_sep)
  also have "\<dots> = Inr (path_lookup d s ch (rootDirClusterNum (bootSector s)) ns)"
    using resolve_walk_eq [OF assms(1,2), of n ns' k ch _ "Suc m"] assms(4,5) len by (simp only: ns)
  finally have res: "resolvePath k al d s (path_text ns) = Inr (path_lookup d s ch (rootDirClusterNum (bootSector s)) ns)"
    unfolding resolvePath_def m by (simp add: rd8_def ns path_text_Cons del: resolve_walk.simps path_lookup.simps)
  have "isRootPath (path_text ns) = Inr False"
    using skip_seps_name [OF file_name_chars(1) [OF ok] file_name_chars(3) [OF ok]] file_name_chars(3) [OF ok]
    by (simp add: isRootPath_def rd8_def ns path_text_Cons is_sep_def hd_append)
  then show ?thesis
    using assms(2) by (auto simp: fat_open_def gives_buffers_def res file_of_def split: option.split)
qed

text \<open>C11: opening a path of 8.3 names looks each component up in the directory of the one before,
  from the root directory on, and answers the file of the last entry; a component that is missing,
  or is no directory where one is needed, makes the file not exist.\<close>

theorem fat_open_resolves:
  assumes "fat_volume d s" and "gives_buffers al" and "ns \<noteq> []" and "list_all (\<lambda>n. name_ok (fst n) (snd n)) ns"
    and "dirs_ok d s k ch (rootDirClusterNum (bootSector s)) ns"
  shows "fat_open k al d s (path_text ns) =
    Inr (file_of (path_lookup d s ch (rootDirClusterNum (bootSector s)) ns))"
  by (rule fat_open_eq [OF assms])

section \<open>A volume\<close>

text \<open>A drive with one cluster per sector: the table in sector 1, the root directory in sector 2 with
  one file of 600 bytes, whose contents are in sectors 3 and 4.\<close>

definition demo_boot :: "u8 list" where
  "demo_boot = (replicate 502 0)[12 := 2, 13 := 1, 14 := 1, 16 := 1, 36 := 1, 44 := 2]"

definition demo_entry :: "u8 list" where
  "demo_entry = bytes ''A       TXT'' @ 0x20 # replicate 14 0 @ [3, 0, 0x58, 2, 0, 0]"

definition demo_fat :: "u8 list" where
  "demo_fat = replicate 8 0 @ [0xFF, 0xFF, 0xFF, 0x0F, 4, 0, 0, 0, 0xFF, 0xFF, 0xFF, 0x0F] @ replicate 492 0"

definition demo_disk :: disk where
  "demo_disk i = (if i = 1 then demo_fat else if i = 2 then demo_entry @ replicate 480 0
     else if i = 3 then replicate 512 65 else if i = 4 then replicate 512 66 else replicate 512 0)"

definition demo_vol :: fat32 where
  "demo_vol = \<lparr>bootSector = demo_boot, dataRegionStart = 2\<rparr>"

definition demo_alloc :: allocator where
  "demo_alloc n = Some (replicate n 0)"

lemma demo_fields:
  "bytesPerSector demo_boot = 512" "sectorsPerCluster demo_boot = 1" "reservedSectors demo_boot = 1"
  "rootDirClusterNum demo_boot = 2"
  by (simp_all add: bytesPerSector_def sectorsPerCluster_def reservedSectors_def rootDirClusterNum_def demo_boot_def
      field16_def field32_def le16_def le32_def)

lemma demo_volume: "fat_volume demo_disk demo_vol" "gives_buffers demo_alloc"
  by (simp_all add: fat_volume_def demo_vol_def demo_fields demo_disk_def demo_fat_def demo_entry_def
      gives_buffers_def demo_alloc_def)

lemma demo_next:
  "readFatEntry demo_disk demo_vol 2 = Inr 0x0FFFFFFF" "readFatEntry demo_disk demo_vol 3 = Inr 4"
  "readFatEntry demo_disk demo_vol 4 = Inr 0x0FFFFFFF"
  by (simp_all add: readFatEntry_def demo_vol_def demo_fields demo_disk_def rd32_def demo_fat_def nth_append le32_def)

lemma demo_clusters:
  "cluster_bytes demo_disk demo_vol 2 = demo_entry @ replicate 480 0"
  "cluster_bytes demo_disk demo_vol 3 = replicate 512 65"
  "cluster_bytes demo_disk demo_vol 4 = replicate 512 66"
  by (simp_all add: cluster_bytes_def demo_vol_def demo_fields clusterToSector_def demo_disk_def)

lemma demo_search:
  "dir_search (fat_name (bytes ''a'') (bytes ''txt'')) (directory demo_disk demo_vol [2]) = Some demo_entry"
proof -
  have "clusterSize demo_vol div SIZEOF_DIRENTRY = 16"
    by (simp add: clusterSize_def demo_vol_def demo_fields SIZEOF_DIRENTRY_def)
  moreover have "disk_name demo_entry = fat_name (bytes ''a'') (bytes ''txt'')" "live demo_entry" "demo_entry ! 0 \<noteq> 0"
    by code_simp+
  moreover have "length demo_entry = SIZEOF_DIRENTRY"
    by (simp add: SIZEOF_DIRENTRY_def demo_entry_def)
  moreover have "dir_entries 16 b = take SIZEOF_DIRENTRY b # dir_entries 15 (drop SIZEOF_DIRENTRY b)" for b
    using dir_entries.simps(2) [of 15 b] by simp
  ultimately show ?thesis
    by (simp add: directory_def demo_clusters dir_search_def)
qed

theorem fat_read_refines_chain_witness:
  "fat_read 2 demo_alloc demo_disk demo_vol
     \<lparr>ff_fsData = Some \<lparr>fd_cluster = 3, fd_isDirectory = False\<rparr>, ff_size = 600, ff_exists = True\<rparr> 1000 =
   Inr (Sucess, replicate 512 65 @ replicate 88 66)"
proof -
  have "fat_chain demo_disk demo_vol [3, 4]"
    by (simp add: demo_next)
  from fat_read_refines_chain [OF demo_volume this] show ?thesis
    by (simp add: chain_bytes_def demo_clusters)
qed

theorem fat_lookup_is_search_witness:
  "findDirEntryInDir 1 demo_alloc demo_disk demo_vol 2 (bytes ''a.txt'' @ [0]) = Inr (Some demo_entry)"
proof -
  have "fat_chain demo_disk demo_vol [2]" "name_ok (bytes ''a'') (bytes ''txt'')"
    by (simp_all add: demo_next name_ok_def plain_def is_sep_def)
  from fat_lookup_is_search [OF demo_volume this(1) _ this(2), of 1] show ?thesis
    unfolding demo_search by (simp add: file_name_def)
qed

lemma demo_root: "rootDirClusterNum (bootSector demo_vol) = 2"
  by (simp add: demo_vol_def demo_fields)

lemma demo_entry_fields: "clusterOf demo_entry = 3" "de_attributes demo_entry AND 0x10 = 0" "de_filesize demo_entry = 600"
  by code_simp+

lemma demo_path:
  "list_all (\<lambda>n. name_ok (fst n) (snd n)) [(bytes ''a'', bytes ''txt'')]"
  "dirs_ok demo_disk demo_vol 1 (\<lambda>c. [c]) 2 [(bytes ''a'', bytes ''txt'')]"
  "path_lookup demo_disk demo_vol (\<lambda>c. [c]) 2 [(bytes ''a'', bytes ''txt'')] = Some demo_entry"
  "path_text [(bytes ''a'', bytes ''txt'')] = bytes ''/a.txt'' @ [0]"
  using demo_search
  by (simp_all add: name_ok_def plain_def is_sep_def demo_next demo_entry_fields path_text_def file_name_def
      split: option.split)

theorem fat_open_resolves_witness:
  "fat_open 1 demo_alloc demo_disk demo_vol (bytes ''/a.txt'' @ [0]) =
   Inr \<lparr>ff_fsData = Some \<lparr>fd_cluster = 3, fd_isDirectory = False\<rparr>, ff_size = 600, ff_exists = True\<rparr>"
  using fat_open_resolves [OF demo_volume _ demo_path(1), of 1 "\<lambda>c. [c]"] demo_path(2,3)
  unfolding demo_path(4) by (simp add: demo_root file_of_def demo_entry_fields)

text \<open>C29: the walk along a directory's chain does not notice a cycle: when the entries of the
  clusters of a cycle neither match nor end the directory, looking up the name never returns.\<close>

theorem fat_cyclic_directory_hangs:
  assumes "fat_volume d s" and "gives_buffers al" and "name_ok base ext" and "c \<in> C"
    and "\<forall>x\<in>C. \<exists>y\<in>C. readFatEntry d s x = Inr y \<and> y < 0x0FFFFFF8 \<and>
      dir_search (fat_name base ext) (directory d s [x]) = None \<and> list_all (\<lambda>e. e ! 0 \<noteq> 0) (directory d s [x])"
  shows "findDirEntryInDir k al d s c (file_name base ext @ [0]) = Inl Hang"
proof -
  note nm = cstr_fat_name [OF assms(3)]
  have "findDir_walk k d s (fat_name base ext @ [0]) x buf = Inl Hang" if "x \<in> C" "length buf = clusterSize s" for x buf
    using that
  proof (induction k arbitrary: x buf)
    case (Suc k)
    obtain y where y: "y \<in> C" "readFatEntry d s x = Inr y" "\<not> y \<ge> 0x0FFFFFF8"
        "dir_search (fat_name base ext) (directory d s [x]) = None" "list_all (\<lambda>e. e ! 0 \<noteq> 0) (directory d s [x])"
      using assms(5) Suc.prems(1) by (meson not_le)
    then show ?case
      using Suc.IH [OF y(1) length_cluster_bytes [OF assms(1), of x]] Suc.prems(2) unat_bytesPerCluster [OF assms(1)]
      by (simp add: directory_def readCluster_eq [OF assms(1)] scan_cluster_eq [OF _ nm])
  qed simp
  moreover obtain b where "al (unat (bytesPerCluster s)) = Some b" "length b = clusterSize s"
    using assms(2) unat_bytesPerCluster [OF assms(1)] by (auto simp: gives_buffers_def)
  ultimately show ?thesis
    using assms(4) by (simp add: findDirEntryInDir_def makeFatName_eq [OF assms(3)])
qed

theorem fat_cyclic_directory_hangs_witness:
  "findDirEntryInDir 1000 demo_alloc demo_disk (demo_vol\<lparr>dataRegionStart := 5\<rparr>) 0 (bytes ''a.txt'' @ [0]) = Inl Hang"
proof -
  let ?v = "demo_vol\<lparr>dataRegionStart := 5\<rparr>" and ?e = "replicate 32 65 :: u8 list"
  have rep: "dir_entries n (replicate (32 * n) 65) = replicate n ?e" for n
    by (induction n) (simp_all add: SIZEOF_DIRENTRY_def)
  have "clusterSize ?v div SIZEOF_DIRENTRY = 16"
    by (simp add: clusterSize_def demo_vol_def demo_fields SIZEOF_DIRENTRY_def)
  moreover have "cluster_bytes demo_disk ?v 0 = replicate 512 65"
    by (simp add: cluster_bytes_def demo_vol_def demo_fields clusterToSector_def demo_disk_def)
  ultimately have dir: "directory demo_disk ?v [0] = replicate 16 ?e"
    using rep [of 16] by (simp add: directory_def)
  have "disk_name ?e \<noteq> fat_name (bytes ''a'') (bytes ''txt'')"
    by code_simp
  then have "dir_search (fat_name (bytes ''a'') (bytes ''txt'')) (replicate n ?e) = None" for n
    by (induction n) (simp_all add: dir_search_def)
  moreover have "readFatEntry demo_disk ?v 0 = Inr 0"
    by (simp add: readFatEntry_def demo_vol_def demo_fields demo_disk_def rd32_def demo_fat_def nth_append le32_def)
  moreover have "fat_volume demo_disk ?v"
    using demo_volume(1) by (simp add: fat_volume_def)
  moreover have "name_ok (bytes ''a'') (bytes ''txt'')"
    by (simp add: name_ok_def plain_def is_sep_def)
  ultimately show ?thesis
    using fat_cyclic_directory_hangs [of demo_disk ?v demo_alloc "bytes ''a''" "bytes ''txt''" 0 "{0}" 1000]
      demo_volume(2) dir by (simp add: file_name_def list_all_iff)
qed

end
