(* ===== verification/Containers.thy ===== *)
theory Containers
  imports GrowingArray
begin

text \<open>
  The containers of the kernel: the growing \<^verbatim>\<open>Vector\<close> of \<^verbatim>\<open>src/gen/vec.hpp\<close>, with the
  \<^verbatim>\<open>Expected\<close> of \<^verbatim>\<open>src/gen/err.hpp\<close> its accesses answer, and the \<^verbatim>\<open>Map\<close> of
  \<^verbatim>\<open>src/gen/map.hpp\<close>. The block of a vector is the list of its element slots, \<open>None\<close> one
  that was not written, or no block at all (a null pointer). The allocator is the predicate of the
  sizes it can serve, and \<open>ts\<close> the size of an element. An \<^verbatim>\<open>Expected\<close> that holds a value is
  read as that value.
\<close>

section \<open>Vectors\<close>

record 'a kvec =
  kv_arr :: "'a option list option"
  kv_len :: u32
  kv_capacity :: u32

definition BASE_VECTOR_SIZE :: u32 where "BASE_VECTOR_SIZE = 5"

definition kv_block :: "(u32 \<Rightarrow> bool) \<Rightarrow> u32 \<Rightarrow> u32 \<Rightarrow> 'a option list option" where
  "kv_block al ts n = (if al (n * ts) then Some (replicate (slots n ts) None) else None)"

definition kvec_new :: "(u32 \<Rightarrow> bool) \<Rightarrow> u32 \<Rightarrow> 'a kvec" where
  "kvec_new al ts = \<lparr>kv_arr = kv_block al ts BASE_VECTOR_SIZE, kv_len = 0, kv_capacity = BASE_VECTOR_SIZE\<rparr>"

text \<open>The value of an \<^verbatim>\<open>Expected\<close>.\<close>

definition expected_val :: "'a option \<Rightarrow> 'a exec" where
  "expected_val e = (case e of None \<Rightarrow> Inl (Panic ''Called val() on an err value'') | Some x \<Rightarrow> Inr x)"

definition slot_get :: "'a option list \<Rightarrow> nat \<Rightarrow> 'a option exec" where
  "slot_get a i = (if i < length a then Inr (a ! i) else Inl OutOfBounds)"

definition kvec_index :: "'a kvec \<Rightarrow> u32 \<Rightarrow> 'a option exec" where
  "kvec_index v ind =
     (case kv_arr v of
        None \<Rightarrow> Inr None
      | Some a \<Rightarrow>
          if ind < kv_len v
          then bindE (slot_get a (unat ind)) (\<lambda>x. case x of None \<Rightarrow> Inl OutOfBounds | Some y \<Rightarrow> Inr (Some y))
          else Inr None)"

definition kvec_val :: "'a kvec \<Rightarrow> u32 \<Rightarrow> 'a exec" where
  "kvec_val v ind = bindE (kvec_index v ind) expected_val"

text \<open>Copying the first elements of a block over those of a new one.\<close>

definition copy_slots :: "'a option list \<Rightarrow> 'a option list option \<Rightarrow> nat \<Rightarrow> 'a option list exec" where
  "copy_slots new old n =
     (case old of
        None \<Rightarrow> (if n = 0 then Inr new else Inl OutOfBounds)
      | Some a \<Rightarrow> if n \<le> length a \<and> n \<le> length new then Inr (take n a @ drop n new) else Inl OutOfBounds)"

definition kvec_grow :: "(u32 \<Rightarrow> bool) \<Rightarrow> u32 \<Rightarrow> 'a kvec \<Rightarrow> 'a kvec exec" where
  "kvec_grow al ts v =
     (case kv_block al ts (kv_capacity v * 2) of
        None \<Rightarrow> Inl (Panic ''New array allocation failed in Vector.'')
      | Some newArr \<Rightarrow>
          bindE (copy_slots newArr (kv_arr v) (unat (kv_len v))) (\<lambda>a.
          Inr (v\<lparr>kv_arr := Some a, kv_capacity := kv_capacity v * 2\<rparr>)))"

definition kvec_pushBack :: "(u32 \<Rightarrow> bool) \<Rightarrow> u32 \<Rightarrow> 'a kvec \<Rightarrow> 'a \<Rightarrow> 'a kvec exec" where
  "kvec_pushBack al ts v x =
     bindE (if kv_len v \<ge> kv_capacity v then kvec_grow al ts v else Inr v) (\<lambda>v1.
     case kv_arr v1 of
       None \<Rightarrow> Inl OutOfBounds
     | Some a \<Rightarrow>
         if unat (kv_len v1) < length a
         then Inr (v1\<lparr>kv_arr := Some (a[unat (kv_len v1) := Some x]), kv_len := kv_len v1 + 1\<rparr>)
         else Inl OutOfBounds)"

fun kvec_pushAll :: "(u32 \<Rightarrow> bool) \<Rightarrow> u32 \<Rightarrow> 'a kvec \<Rightarrow> 'a list \<Rightarrow> 'a kvec exec" where
  "kvec_pushAll al ts v [] = Inr v"
| "kvec_pushAll al ts v (x # xs) = bindE (kvec_pushBack al ts v x) (\<lambda>v'. kvec_pushAll al ts v' xs)"

definition kvec_ofList :: "(u32 \<Rightarrow> bool) \<Rightarrow> u32 \<Rightarrow> 'a list \<Rightarrow> 'a kvec exec" where
  "kvec_ofList al ts xs = kvec_pushAll al ts (kvec_new al ts) xs"

text \<open>Assignment from another vector; the new block is not checked.\<close>

definition kvec_assign :: "(u32 \<Rightarrow> bool) \<Rightarrow> u32 \<Rightarrow> 'a kvec \<Rightarrow> 'a kvec exec" where
  "kvec_assign al ts other =
     (let n = unat (kv_len other) in
      case kv_block al ts (kv_capacity other) of
        None \<Rightarrow> (if n = 0 then Inr (other\<lparr>kv_arr := None\<rparr>) else Inl OutOfBounds)
      | Some new \<Rightarrow> bindE (copy_slots new (kv_arr other) n) (\<lambda>a. Inr (other\<lparr>kv_arr := Some a\<rparr>)))"

definition kvec_popBack :: "'a kvec \<Rightarrow> 'a kvec" where
  "kvec_popBack v = (if kv_len v \<noteq> 0 then v\<lparr>kv_len := kv_len v - 1\<rparr> else v)"

text \<open>Shifting the elements down; the last round reads the slot behind the last element.\<close>

fun shift_down :: "nat \<Rightarrow> nat \<Rightarrow> 'a option list \<Rightarrow> 'a option list exec" where
  "shift_down i 0 a = Inr a"
| "shift_down i (Suc n) a = bindE (slot_get a (i + 1)) (\<lambda>x. shift_down (i + 1) n (a[i := x]))"

definition kvec_eraseAt :: "'a kvec \<Rightarrow> u32 \<Rightarrow> 'a kvec exec" where
  "kvec_eraseAt v ind =
     (if ind \<ge> kv_len v then Inr v
      else case kv_arr v of
        None \<Rightarrow> Inl OutOfBounds
      | Some a \<Rightarrow> bindE (shift_down (unat ind) (unat (kv_len v) - unat ind) a) (\<lambda>a'.
                   Inr (v\<lparr>kv_arr := Some a', kv_len := kv_len v - 1\<rparr>)))"

definition kvec_copyPermanent :: "(u32 \<Rightarrow> bool) \<Rightarrow> u32 \<Rightarrow> 'a kvec \<Rightarrow> 'a option list exec" where
  "kvec_copyPermanent al ts v =
     (case kv_block al ts (kv_len v) of
        None \<Rightarrow> Inl (Panic ''copyPermanent allocation failed in Vector.'')
      | Some new \<Rightarrow> copy_slots new (kv_arr v) (unat (kv_len v)))"

text \<open>Moving leaves an empty vector without a block behind.\<close>

definition kvec_move :: "'a kvec \<Rightarrow> 'a kvec \<times> 'a kvec" where
  "kvec_move other = (other, \<lparr>kv_arr = None, kv_len = 0, kv_capacity = 0\<rparr>)"

section \<open>Maps\<close>

type_synonym ('k, 'v) kmap = "('k \<times> 'v) kvec"

fun kmap_find :: "nat \<Rightarrow> u32 \<Rightarrow> ('k, 'v) kmap \<Rightarrow> 'k \<Rightarrow> u32 option exec" where
  "kmap_find 0 i m k = Inr None"
| "kmap_find (Suc n) i m k =
     bindE (kvec_val m i) (\<lambda>p. if k = fst p then Inr (Some i) else kmap_find n (i + 1) m k)"

definition kmap_index :: "('k, 'v) kmap \<Rightarrow> 'k \<Rightarrow> u32 exec" where
  "kmap_index m k = bindE (kmap_find (unat (kv_len m)) 0 m k) (\<lambda>r. Inr (case r of None \<Rightarrow> - 1 | Some i \<Rightarrow> i))"

text \<open>A key that is not there leaves the index at -1, an element no vector has.\<close>

definition kmap_get :: "('k, 'v) kmap \<Rightarrow> 'k \<Rightarrow> 'v exec" where
  "kmap_get m k = bindE (kmap_index m k) (\<lambda>i. bindE (kvec_val m i) (\<lambda>p. Inr (snd p)))"

definition kmap_insert :: "(u32 \<Rightarrow> bool) \<Rightarrow> u32 \<Rightarrow> ('k, 'v) kmap \<Rightarrow> 'k \<Rightarrow> 'v \<Rightarrow> ('k, 'v) kmap exec" where
  "kmap_insert al ts m k v = kvec_pushBack al ts m (k, v)"

definition kmap_rmkey :: "('k, 'v) kmap \<Rightarrow> 'k \<Rightarrow> ('k, 'v) kmap exec" where
  "kmap_rmkey m k = bindE (kmap_index m k) (\<lambda>i. if 0 \<le> sint i then kvec_eraseAt m i else Inr m)"

fun kmap_any :: "nat \<Rightarrow> u32 \<Rightarrow> ('k, 'v) kmap \<Rightarrow> ('k \<times> 'v \<Rightarrow> bool) \<Rightarrow> bool exec" where
  "kmap_any 0 i m P = Inr False"
| "kmap_any (Suc n) i m P = bindE (kvec_val m i) (\<lambda>p. if P p then Inr True else kmap_any n (i + 1) m P)"

definition kmap_exists :: "('k, 'v) kmap \<Rightarrow> 'k \<Rightarrow> bool exec" where
  "kmap_exists m k = kmap_any (unat (kv_len m)) 0 m (\<lambda>p. fst p = k)"

definition kmap_hasVal :: "('k, 'v) kmap \<Rightarrow> 'v \<Rightarrow> bool exec" where
  "kmap_hasVal m v = kmap_any (unat (kv_len m)) 0 m (\<lambda>p. snd p = v)"

section \<open>A vector as a list\<close>

definition kvec_is :: "u32 \<Rightarrow> 'a kvec \<Rightarrow> 'a list \<Rightarrow> bool" where
  "kvec_is ts v xs \<longleftrightarrow> (\<exists>a. kv_arr v = Some a \<and> length a = unat (kv_capacity v) \<and>
       take (length xs) a = List.map Some xs) \<and>
     unat (kv_len v) = length xs \<and> length xs \<le> unat (kv_capacity v) \<and> 5 \<le> unat (kv_capacity v) \<and>
     ts \<noteq> 0 \<and> unat (kv_capacity v) * unat ts < 2 ^ 32"

lemma kvec_new_is: "al (5 * ts) \<Longrightarrow> ts \<noteq> 0 \<Longrightarrow> 5 * unat ts < 2 ^ 32 \<Longrightarrow> kvec_is ts (kvec_new al ts) []"
  by (simp add: kvec_is_def kvec_new_def kv_block_def BASE_VECTOR_SIZE_def slots_eq)

lemma kvec_val_is:
  assumes "kvec_is ts v xs"
  shows "kvec_val v i =
    (if unat i < length xs then Inr (xs ! unat i) else Inl (Panic ''Called val() on an err value''))"
proof (cases "unat i < length xs")
  case True
  obtain a where a: "kv_arr v = Some a" "length a = unat (kv_capacity v)" "take (length xs) a = List.map Some xs"
    using assms by (auto simp: kvec_is_def)
  have "a ! unat i = Some (xs ! unat i)"
    using a(3) True by (metis nth_map nth_take)
  then show ?thesis
    using assms a True
    by (simp add: kvec_is_def kvec_val_def kvec_index_def slot_get_def word_less_nat_alt expected_val_def)
next
  case False
  then show ?thesis
    using assms by (auto simp: kvec_is_def kvec_val_def kvec_index_def word_less_nat_alt expected_val_def)
qed

lemma kvec_grow_is:
  assumes "kvec_is ts v xs" and "al (kv_capacity v * 2 * ts)" and "2 * unat (kv_capacity v) * unat ts < 2 ^ 32"
  shows "\<exists>v'. kvec_grow al ts v = Inr v' \<and> kvec_is ts v' xs \<and> kv_len v' = kv_len v \<and>
    unat (kv_capacity v') = 2 * unat (kv_capacity v)"
proof -
  obtain a where a: "kv_arr v = Some a" "length a = unat (kv_capacity v)" "take (length xs) a = List.map Some xs"
    using assms by (auto simp: kvec_is_def)
  note inv = assms(1) [unfolded kvec_is_def]
  have "1 \<le> unat ts"
    using inv by (simp add: Suc_le_eq unat_gt_0)
  then have "2 * unat (kv_capacity v) * 1 \<le> 2 * unat (kv_capacity v) * unat ts"
    by (rule mult_le_mono2)
  then have "2 * unat (kv_capacity v) * 1 < 2 ^ 32"
    using assms(3) by (rule le_less_trans)
  then have c: "unat (kv_capacity v * 2) = 2 * unat (kv_capacity v)"
    by (simp add: unat_word_ariths)
  have s: "slots (kv_capacity v * 2) ts = 2 * unat (kv_capacity v)"
    using slots_eq [of ts "kv_capacity v * 2"] inv assms(3) c by simp
  show ?thesis
    using assms inv a c s
    by (simp add: kvec_grow_def kv_block_def copy_slots_def kvec_is_def)
qed

lemma kvec_push_is:
  assumes "kvec_is ts v xs" and "al (kv_capacity v * 2 * ts)" and "2 * Suc (length xs) * unat ts < 2 ^ 32"
  shows "\<exists>v'. kvec_pushBack al ts v x = Inr v' \<and> kvec_is ts v' (xs @ [x])"
proof -
  note inv = assms(1) [unfolded kvec_is_def]
  obtain v1 where v1: "(if kv_len v \<ge> kv_capacity v then kvec_grow al ts v else Inr v) = Inr v1" "kvec_is ts v1 xs"
    "length xs < unat (kv_capacity v1)"
  proof (cases "kv_len v \<ge> kv_capacity v")
    case True
    then have full: "length xs = unat (kv_capacity v)"
      using inv by (simp add: word_le_nat_alt)
    then have "2 * unat (kv_capacity v) * unat ts \<le> 2 * Suc (length xs) * unat ts"
      by simp
    then have "2 * unat (kv_capacity v) * unat ts < 2 ^ 32"
      using assms(3) by (rule le_less_trans)
    from kvec_grow_is [of ts v xs al, OF assms(1,2) this] True that full inv show thesis
      by auto
  next
    case False
    then show thesis
      using that assms(1) inv by (simp add: word_le_nat_alt)
  qed
  obtain a where a: "kv_arr v1 = Some a" "length a = unat (kv_capacity v1)" "take (length xs) a = List.map Some xs"
    using v1(2) by (auto simp: kvec_is_def)
  note inv1 = v1(2) [unfolded kvec_is_def]
  have "unat (kv_capacity v1) < 2 ^ 32"
    using unsigned_less [of "kv_capacity v1", where 'a = nat] by simp
  then have u: "unat (kv_len v1 + 1) = length xs + 1"
    using inv1 v1(3) by (simp add: unat_word_ariths)
  have "take (Suc (length xs)) (a[length xs := Some x]) = List.map Some (xs @ [x])"
    using a v1(3) by (simp add: take_Suc_conv_app_nth)
  then show ?thesis
    using v1(1,3) inv1 a u by (simp add: kvec_pushBack_def kvec_is_def)
qed

text \<open>The elements of the kernel's vectors have up to 24 bytes.\<close>

definition kernel_array :: "(u32 \<Rightarrow> bool) \<Rightarrow> u32 \<Rightarrow> 'a kvec \<Rightarrow> 'a list \<Rightarrow> bool" where
  "kernel_array al ts v xs \<longleftrightarrow> (\<forall>n. al n) \<and> unat ts \<le> 24 \<and> kvec_is ts v xs"

lemma kernel_array_new: "\<forall>n. al n \<Longrightarrow> ts \<noteq> 0 \<Longrightarrow> unat ts \<le> 24 \<Longrightarrow> kernel_array al ts (kvec_new al ts) []"
  by (simp add: kernel_array_def kvec_new_is)

lemma kernel_array_kvec: "kernel_array al ts v xs \<Longrightarrow> kvec_is ts v xs"
  by (simp add: kernel_array_def)

interpretation kv: growing_array "kernel_array al ts" "kvec_pushBack al ts" kvec_val
    "Panic ''Called val() on an err value''" "2 ^ 26" for al ts
proof
  fix v :: "'a kvec" and xs x
  assume a: "kernel_array al ts v xs" "length xs < 2 ^ 26"
  have "2 * Suc (length xs) * unat ts \<le> 2 * 2 ^ 26 * 24"
    using a by (intro mult_le_mono) (simp_all add: kernel_array_def)
  then show "\<exists>v'. kvec_pushBack al ts v x = Inr v' \<and> kernel_array al ts v' (xs @ [x])"
    using kvec_push_is [of ts v xs al x] a(1) by (auto simp: kernel_array_def)
next
  fix v :: "'a kvec" and xs i
  assume "kernel_array al ts v xs"
  then show "kvec_val v i = (if unat i < length xs then Inr (xs ! unat i) else Inl (Panic ''Called val() on an err value''))"
    using kvec_val_is [of ts v xs i] by (simp add: kernel_array_def)
qed

section \<open>Removing an element\<close>

lemma shift_down_eq:
  "i + n < length a \<Longrightarrow> shift_down i n a = Inr (take i a @ take n (drop (Suc i) a) @ drop (i + n) a)"
proof (induction n arbitrary: i a)
  case (Suc n)
  have "take (Suc i) (a[i := a ! Suc i]) = take i a @ [a ! Suc i]"
    using Suc.prems by (simp add: take_Suc_conv_app_nth)
  moreover have "take (Suc n) (drop (Suc i) a) = a ! Suc i # take n (drop (Suc (Suc i)) a)"
    using Suc.prems by (simp add: Cons_nth_drop_Suc [symmetric])
  ultimately show ?case
    using Suc.IH [of "i + 1" "a[i := a ! (i + 1)]"] Suc.prems by (simp add: slot_get_def)
qed simp

lemma shift_down_overread: "i + n = length a \<Longrightarrow> 0 < n \<Longrightarrow> shift_down i n a = Inl OutOfBounds"
proof (induction n arbitrary: i a)
  case (Suc n)
  show ?case
  proof (cases n)
    case 0
    then show ?thesis
      using Suc.prems by (simp add: slot_get_def)
  next
    case (Suc m)
    then show ?thesis
      using Suc.IH [of "i + 1" "a[i := a ! (i + 1)]"] Suc.prems by (simp add: slot_get_def)
  qed
qed simp

lemma kvec_eraseAt_is:
  assumes "kvec_is ts v xs" and "unat i < length xs" and "length xs < unat (kv_capacity v)"
  shows "\<exists>v'. kvec_eraseAt v i = Inr v' \<and> kvec_is ts v' (take (unat i) xs @ drop (Suc (unat i)) xs)"
proof -
  obtain a where a: "kv_arr v = Some a" "length a = unat (kv_capacity v)" "take (length xs) a = List.map Some xs"
    using assms(1) by (auto simp: kvec_is_def)
  note inv = assms(1) [unfolded kvec_is_def]
  let ?i = "unat i" and ?n = "length xs"
  let ?a = "take ?i a @ take (?n - ?i) (drop (Suc ?i) a) @ drop ?n a"
  have sh: "shift_down ?i (?n - ?i) a = Inr ?a"
    using shift_down_eq [of ?i "?n - ?i" a] assms(2,3) a(2) by simp
  have l: "unat (kv_len v - 1) = ?n - 1"
    using inv assms(2) by (intro unat_dec) simp
  obtain m where m: "?n = Suc (?i + m)"
    using assms(2) by (auto simp: less_iff_Suc_add)
  have "take (?n - 1) ?a = take ?i a @ take (?n - 1 - ?i) (drop (Suc ?i) a)"
    using assms(3) a(2) by (simp add: m)
  moreover have "take ?i a = List.map Some (take ?i xs)"
    using arg_cong [OF a(3), of "take ?i"] assms(2) by (simp add: take_map min_def)
  moreover have "take (?n - 1 - ?i) (drop (Suc ?i) a) = List.map Some (drop (Suc ?i) xs)"
    using arg_cong [OF a(3), of "drop (Suc ?i)"] by (simp add: drop_take drop_map)
  ultimately have t: "take (?n - 1) ?a = List.map Some (take ?i xs @ drop (Suc ?i) xs)"
    by (simp only: map_append)
  obtain a' where a': "a' = ?a"
    by blast
  have "length a' = unat (kv_capacity v)" "take (length (take ?i xs @ drop (Suc ?i) xs)) a' =
      List.map Some (take ?i xs @ drop (Suc ?i) xs)"
    using t a(2) assms(2,3) by (simp_all add: a' m)
  moreover have "length (take ?i xs @ drop (Suc ?i) xs) = ?n - 1"
    by (simp add: m)
  moreover have "kvec_eraseAt v i = Inr (v\<lparr>kv_arr := Some a', kv_len := kv_len v - 1\<rparr>)"
    using inv assms(2) a sh by (simp add: kvec_eraseAt_def word_le_nat_alt a')
  ultimately show ?thesis
    using inv l m by (auto simp: kvec_is_def)
qed

lemma kvec_eraseAt_full:
  assumes "kvec_is ts v xs" and "unat i < length xs" and "length xs = unat (kv_capacity v)"
  shows "kvec_eraseAt v i = Inl OutOfBounds"
proof -
  obtain a where a: "kv_arr v = Some a" "length a = unat (kv_capacity v)"
    using assms(1) by (auto simp: kvec_is_def)
  then show ?thesis
    using assms shift_down_overread [of "unat i" "length xs - unat i" a]
    by (simp add: kvec_is_def kvec_eraseAt_def word_le_nat_alt)
qed

section \<open>A map as a function\<close>

definition key_pos :: "('k \<times> 'v) list \<Rightarrow> 'k \<Rightarrow> nat" where
  "key_pos ps k = length (takeWhile (\<lambda>p. fst p \<noteq> k) ps)"

lemma key_pos_found: "map_of ps k = Some v \<Longrightarrow> key_pos ps k < length ps \<and> ps ! key_pos ps k = (k, v)"
  by (induction ps) (auto simp: key_pos_def split: if_splits)

lemma map_of_remove_pos:
  "distinct (List.map fst ps) \<Longrightarrow> key_pos ps k < length ps \<Longrightarrow>
     map_of (take (key_pos ps k) ps @ drop (Suc (key_pos ps k)) ps) = (map_of ps)(k := None)"
proof (induction ps)
  case (Cons p ps)
  show ?case
  proof (cases "fst p = k")
    case True
    then have "map_of ps k = None"
      using Cons.prems(1) by (auto simp: map_of_eq_None_iff)
    then show ?thesis
      using True by (auto simp: key_pos_def)
  next
    case False
    then show ?thesis
      using Cons by (auto simp: key_pos_def fun_upd_twist)
  qed
qed simp

lemma remove_pos_distinct:
  assumes "distinct (List.map fst ps)"
  shows "distinct (List.map fst (take i ps @ drop (Suc i) ps))"
proof -
  have "List.map fst (take i ps @ drop (Suc i) ps) = take i (List.map fst ps) @ drop (Suc i) (List.map fst ps)"
    by (simp add: take_map drop_map)
  moreover have "set (take i xs) \<inter> set (drop (Suc i) xs) = {}" if "distinct xs" for xs :: "'a list"
    using set_take_disj_set_drop_if_distinct [OF that, of i "Suc i"] by simp
  ultimately show ?thesis
    using assms by (simp del: map_append)
qed

lemma kmap_find_eq:
  assumes "kvec_is ts m ps" and "length ps < 2 ^ 32"
  shows "j + n = length ps \<Longrightarrow> kmap_find n (word_of_nat j) m k =
    Inr (case map_of (drop j ps) k of None \<Rightarrow> None | Some _ \<Rightarrow> Some (word_of_nat (j + key_pos (drop j ps) k)))"
proof (induction n arbitrary: j)
  case (Suc n)
  have u: "unat (word_of_nat j :: u32) = j"
    using Suc.prems assms(2) by simp
  have d: "drop j ps = ps ! j # drop (Suc j) ps"
    using Suc.prems by (simp add: Cons_nth_drop_Suc)
  have "kmap_find n (word_of_nat j + 1) m k = kmap_find n (word_of_nat (Suc j)) m k"
    by (simp add: add.commute)
  then show ?case
    using Suc.IH [of "Suc j"] Suc.prems
    by (cases "ps ! j") (auto simp: kvec_val_is [OF assms(1)] u d key_pos_def split: option.split)
qed simp

lemma kmap_index_eq:
  assumes "kvec_is ts m ps"
  shows "kmap_index m k =
    Inr (case map_of ps k of None \<Rightarrow> - 1 | Some _ \<Rightarrow> word_of_nat (key_pos ps k))"
proof -
  have n: "unat (kv_len m) = length ps"
    using assms by (simp add: kvec_is_def)
  then have "length ps < 2 ^ 32"
    using unsigned_less [of "kv_len m", where 'a = nat] by simp
  from kmap_find_eq [OF assms this, of 0 "length ps" k] n show ?thesis
    by (simp add: kmap_index_def split: option.split)
qed

lemma kmap_get_eq:
  assumes "kvec_is ts m ps"
  shows "kmap_get m k =
    (case map_of ps k of None \<Rightarrow> Inl (Panic ''Called val() on an err value'') | Some v \<Rightarrow> Inr v)"
proof -
  have n: "unat (kv_len m) = length ps"
    using assms by (simp add: kvec_is_def)
  then have l: "length ps < 2 ^ 32"
    using unsigned_less [of "kv_len m", where 'a = nat] by simp
  have "unat (- 1 :: u32) = 2 ^ 32 - 1"
    by (simp add: unsigned_minus_1_eq_mask mask_eq_exp_minus_1)
  then have "\<not> unat (- 1 :: u32) < length ps"
    using l by linarith
  then show ?thesis
    using key_pos_found [of ps k] l
    by (auto simp: kmap_get_def kmap_index_eq [OF assms] kvec_val_is [OF assms] split: option.split)
qed

lemma kmap_any_eq:
  assumes "kvec_is ts m ps" and "length ps < 2 ^ 32"
  shows "j + n = length ps \<Longrightarrow> kmap_any n (word_of_nat j) m P = Inr (list_ex P (drop j ps))"
proof (induction n arbitrary: j)
  case (Suc n)
  have u: "unat (word_of_nat j :: u32) = j"
    using Suc.prems assms(2) by simp
  have d: "drop j ps = ps ! j # drop (Suc j) ps"
    using Suc.prems by (simp add: Cons_nth_drop_Suc)
  have "kmap_any n (word_of_nat j + 1) m P = kmap_any n (word_of_nat (Suc j)) m P"
    by (simp add: add.commute)
  then show ?case
    using Suc.IH [of "Suc j"] Suc.prems by (auto simp: kvec_val_is [OF assms(1)] u d)
qed simp

lemma kmap_exists_eq:
  assumes "kvec_is ts m ps"
  shows "kmap_exists m k = Inr (map_of ps k \<noteq> None)"
proof -
  have n: "unat (kv_len m) = length ps"
    using assms by (simp add: kvec_is_def)
  then have "length ps < 2 ^ 32"
    using unsigned_less [of "kv_len m", where 'a = nat] by simp
  from kmap_any_eq [OF assms this, of 0 "length ps" "\<lambda>p. fst p = k"] n
  have "kmap_exists m k = Inr (list_ex (\<lambda>p. fst p = k) ps)"
    by (simp add: kmap_exists_def)
  also have "list_ex (\<lambda>p. fst p = k) ps \<longleftrightarrow> map_of ps k \<noteq> None"
    by (auto simp: list_ex_iff map_of_eq_None_iff image_iff)
  finally show ?thesis .
qed

lemma kmap_rmkey_erase:
  assumes "kvec_is ts m ps" and "length ps < 2 ^ 31" and "map_of ps k = Some v"
  shows "kmap_rmkey m k = kvec_eraseAt m (word_of_nat (key_pos ps k))"
    and "unat (word_of_nat (key_pos ps k) :: u32) = key_pos ps k" and "key_pos ps k < length ps"
proof -
  show pos: "key_pos ps k < length ps"
    using key_pos_found [OF assms(3)] by simp
  then show u: "unat (word_of_nat (key_pos ps k) :: u32) = key_pos ps k"
    using assms(2) by simp
  then have "0 \<le> sint (word_of_nat (key_pos ps k) :: u32)"
    using sint_small [of "word_of_nat (key_pos ps k)"] pos assms(2) by simp
  then show "kmap_rmkey m k = kvec_eraseAt m (word_of_nat (key_pos ps k))"
    by (simp add: kmap_rmkey_def kmap_index_eq [OF assms(1)] assms(3))
qed

lemma kmap_rmkey_eq:
  assumes "kvec_is ts m ps" and "length ps < 2 ^ 31" and "distinct (List.map fst ps)"
    and "length ps < unat (kv_capacity m)"
  shows "\<exists>m' ps'. kmap_rmkey m k = Inr m' \<and> kvec_is ts m' ps' \<and> distinct (List.map fst ps') \<and>
    map_of ps' = (map_of ps)(k := None)"
proof (cases "map_of ps k")
  case None
  then have "kmap_rmkey m k = Inr m"
    by (simp add: kmap_rmkey_def kmap_index_eq [OF assms(1)])
  then show ?thesis
    using assms None by (auto simp: fun_upd_idem)
next
  case (Some v)
  note rm = kmap_rmkey_erase [OF assms(1,2) Some]
  obtain m' where "kvec_eraseAt m (word_of_nat (key_pos ps k)) = Inr m'"
      "kvec_is ts m' (take (key_pos ps k) ps @ drop (Suc (key_pos ps k)) ps)"
    using kvec_eraseAt_is [OF assms(1), of "word_of_nat (key_pos ps k)"] rm(2,3) assms(4) by auto
  then show ?thesis
    using map_of_remove_pos [OF assms(3) rm(3)] remove_pos_distinct [OF assms(3), of "key_pos ps k"] rm(1)
    by (metis (no_types))
qed

text \<open>What the clients of a table of keys rely on.\<close>

locale key_table =
  fixes is_table :: "'t \<Rightarrow> ('k \<rightharpoonup> 'v) \<Rightarrow> bool" and lookup :: "'t \<Rightarrow> 'k \<Rightarrow> 'v exec"
    and has :: "'t \<Rightarrow> 'k \<Rightarrow> bool exec" and put :: "'t \<Rightarrow> 'k \<Rightarrow> 'v \<Rightarrow> 't exec" and missing :: fault and bound :: nat
  assumes lookup_law: "is_table t M \<Longrightarrow> lookup t k = (case M k of None \<Rightarrow> Inl missing | Some v \<Rightarrow> Inr v)"
    and has_law: "is_table t M \<Longrightarrow> has t k = Inr (M k \<noteq> None)"
    and put_law: "is_table t M \<Longrightarrow> M k = None \<Longrightarrow> card (dom M) < bound \<Longrightarrow>
      \<exists>t'. put t k v = Inr t' \<and> is_table t' (M(k \<mapsto> v))"
begin

lemma put_lookup:
  assumes "is_table t M" and "M k = None" and "card (dom M) < bound" and "put t k v = Inr t'"
  shows "lookup t' k = Inr v" and "k' \<noteq> k \<Longrightarrow> lookup t' k' = lookup t k'" and "has t' k = Inr True"
proof -
  have "is_table t' (M(k \<mapsto> v))"
    using put_law [OF assms(1,2,3), of v] assms(4) by auto
  then show "lookup t' k = Inr v" "k' \<noteq> k \<Longrightarrow> lookup t' k' = lookup t k'" "has t' k = Inr True"
    using lookup_law [OF assms(1), of k'] by (simp_all add: lookup_law has_law)
qed

end

definition kmap_is :: "(u32 \<Rightarrow> bool) \<Rightarrow> u32 \<Rightarrow> ('k, 'v) kmap \<Rightarrow> ('k \<rightharpoonup> 'v) \<Rightarrow> bool" where
  "kmap_is al ts m M \<longleftrightarrow> (\<exists>ps. kernel_array al ts m ps \<and> distinct (List.map fst ps) \<and> map_of ps = M)"

lemma card_dom_map_of: "distinct (List.map fst ps) \<Longrightarrow> card (dom (map_of ps)) = length ps"
  by (metis dom_map_of_conv_image_fst distinct_card length_map set_map)

interpretation km: key_table "kmap_is al ts" kmap_get kmap_exists "kmap_insert al ts"
    "Panic ''Called val() on an err value''" "2 ^ 26" for al ts
proof
  fix t :: "('k, 'v) kmap" and M k
  assume "kmap_is al ts t M"
  then obtain ps where ps: "kvec_is ts t ps" "map_of ps = M"
    by (auto simp: kmap_is_def kernel_array_def)
  from kmap_get_eq [OF ps(1)] kmap_exists_eq [OF ps(1)]
  show "kmap_get t k = (case M k of None \<Rightarrow> Inl (Panic ''Called val() on an err value'') | Some v \<Rightarrow> Inr v)"
    "kmap_exists t k = Inr (M k \<noteq> None)"
    by (simp_all add: ps(2))
next
  fix t :: "('k, 'v) kmap" and M k v
  assume a: "kmap_is al ts t M" "M k = None" "card (dom M) < 2 ^ 26"
  then obtain ps where ps: "kernel_array al ts t ps" "distinct (List.map fst ps)" "map_of ps = M"
    by (auto simp: kmap_is_def)
  then obtain t' where "kvec_pushBack al ts t (k, v) = Inr t'" "kernel_array al ts t' (ps @ [(k, v)])"
    using kv.push_law [OF ps(1), of "(k, v)"] a(3) card_dom_map_of [OF ps(2)] by auto
  moreover have "map_of (ps @ [(k, v)]) = M(k \<mapsto> v)"
    using a(2) ps(3) by (auto simp: map_add_def fun_eq_iff split: option.split)
  moreover have "distinct (List.map fst (ps @ [(k, v)]))"
    using ps(2,3) a(2) by (auto simp: map_of_eq_None_iff)
  ultimately show "\<exists>t'. kmap_insert al ts t k v = Inr t' \<and> kmap_is al ts t' (M(k \<mapsto> v))"
    unfolding kmap_is_def kmap_insert_def by blast
qed

lemma kvec_eraseAt_shape: "kvec_eraseAt v i = Inr v' \<Longrightarrow> i < kv_len v \<Longrightarrow> kv_capacity v' = kv_capacity v \<and> kv_len v' = kv_len v - 1"
  by (auto simp: kvec_eraseAt_def split: option.splits if_splits)

lemma kmap_rmkey_law:
  assumes "kmap_is al ts m M" and "card (dom M) < 2 ^ 26" and "kv_len m < kv_capacity m"
  shows "\<exists>m'. kmap_rmkey m k = Inr m' \<and> kmap_is al ts m' (M(k := None)) \<and> kv_capacity m' = kv_capacity m \<and>
    (M k \<noteq> None \<longrightarrow> kv_len m' = kv_len m - 1)"
proof -
  obtain ps where ps: "kernel_array al ts m ps" "distinct (List.map fst ps)" "map_of ps = M"
    using assms(1) by (auto simp: kmap_is_def)
  then have l: "length ps < 2 ^ 31" "length ps < unat (kv_capacity m)" "kvec_is ts m ps" "unat (kv_len m) = length ps"
    using assms(2,3) card_dom_map_of [OF ps(2)] by (auto simp: kernel_array_def kvec_is_def word_less_nat_alt)
  then obtain m' ps' where m': "kmap_rmkey m k = Inr m'" "kvec_is ts m' ps'" "distinct (List.map fst ps')" "map_of ps' = M(k := None)"
    using kmap_rmkey_eq [of ts m ps k] ps by auto
  have "kv_capacity m' = kv_capacity m \<and> (M k \<noteq> None \<longrightarrow> kv_len m' = kv_len m - 1)"
  proof (cases "M k")
    case None
    then show ?thesis
      using m'(1) ps(3) by (simp add: kmap_rmkey_def kmap_index_eq [OF l(3)])
  next
    case (Some v)
    then have "map_of ps k = Some v"
      using ps(3) by simp
    note rm = kmap_rmkey_erase [OF l(3,1) this]
    have "kvec_eraseAt m (word_of_nat (key_pos ps k)) = Inr m'"
      using m'(1) rm(1) by simp
    moreover have "word_of_nat (key_pos ps k) < kv_len m"
      using rm(2,3) l(4) by (simp add: word_less_nat_alt)
    ultimately show ?thesis
      using kvec_eraseAt_shape by blast
  qed
  then show ?thesis
    using m' ps l by (auto simp: kmap_is_def kernel_array_def)
qed

text \<open>Removing a key from a full vector reads behind its block.\<close>

lemma kmap_rmkey_full:
  assumes "kmap_is al ts m M" and "card (dom M) < 2 ^ 26" and "\<not> kv_len m < kv_capacity m" and "M k = Some v"
  shows "kmap_rmkey m k = Inl OutOfBounds"
proof -
  obtain ps where ps: "kernel_array al ts m ps" "distinct (List.map fst ps)" "map_of ps = M"
    using assms(1) by (auto simp: kmap_is_def)
  then have l: "length ps < 2 ^ 31" "kvec_is ts m ps" "length ps = unat (kv_capacity m)"
    using assms(2,3) card_dom_map_of [OF ps(2)] by (auto simp: kernel_array_def kvec_is_def word_less_nat_alt)
  note rm = kmap_rmkey_erase [OF l(2,1), of k v]
  show ?thesis
    using rm assms(4) ps(3) kvec_eraseAt_full [OF l(2) _ l(3)] by simp
qed

section \<open>What the containers promise\<close>

text \<open>Erasing an element of a vector shifts the later ones down by one; when the vector is full
  the loop reads the element behind the end of its block.\<close>

theorem vector_eraseAt:
  assumes "kvec_is ts v xs" and "unat i < length xs"
  shows "if length xs < unat (kv_capacity v)
    then \<exists>v'. kvec_eraseAt v i = Inr v' \<and> kvec_is ts v' (take (unat i) xs @ drop (Suc (unat i)) xs)
    else kvec_eraseAt v i = Inl OutOfBounds"
  using kvec_eraseAt_is [OF assms] kvec_eraseAt_full [OF assms] assms(1) by (auto simp: kvec_is_def)

theorem vector_eraseAt_witness:
  "kvec_eraseAt \<lparr>kv_arr = Some (List.map Some [1, 2, 3, 4, 5 :: u8]), kv_len = 5, kv_capacity = 5\<rparr> 2 = Inl OutOfBounds"
  using vector_eraseAt [of 1 "\<lparr>kv_arr = Some (List.map Some [1, 2, 3, 4, 5 :: u8]), kv_len = 5, kv_capacity = 5\<rparr>"
      "[1, 2, 3, 4, 5]" 2]
  by (simp add: kvec_is_def)

text \<open>The list without the first pair of a key.\<close>

fun drop_key :: "'k \<Rightarrow> ('k \<times> 'v) list \<Rightarrow> ('k \<times> 'v) list" where
  "drop_key k [] = []"
| "drop_key k (p # ps) = (if fst p = k then ps else p # drop_key k ps)"

lemma drop_key_pos: "map_of ps k = Some v \<Longrightarrow> take (key_pos ps k) ps @ drop (Suc (key_pos ps k)) ps = drop_key k ps"
  by (induction ps) (auto simp: key_pos_def split: if_splits)

lemma kmap_hasVal_eq:
  assumes "kvec_is ts m ps"
  shows "kmap_hasVal m v = Inr (v \<in> snd ` set ps)"
proof -
  have n: "unat (kv_len m) = length ps"
    using assms by (simp add: kvec_is_def)
  then have "length ps < 2 ^ 32"
    using unsigned_less [of "kv_len m", where 'a = nat] by simp
  from kmap_any_eq [OF assms this, of 0 "length ps" "\<lambda>p. snd p = v"] n show ?thesis
    by (auto simp: kmap_hasVal_def list_ex_iff image_iff)
qed

lemma kmap_rmkey_list:
  assumes "kernel_array al ts m ps" and "length ps < 2 ^ 26"
  shows "(map_of ps k = None \<longrightarrow> kmap_rmkey m k = Inr m) \<and>
    (map_of ps k \<noteq> None \<and> length ps < unat (kv_capacity m) \<longrightarrow>
       (\<exists>m'. kmap_rmkey m k = Inr m' \<and> kernel_array al ts m' (drop_key k ps))) \<and>
    (map_of ps k \<noteq> None \<and> length ps = unat (kv_capacity m) \<longrightarrow> kmap_rmkey m k = Inl OutOfBounds)"
proof -
  have ps: "kvec_is ts m ps" "length ps < 2 ^ 31"
    using assms by (simp_all add: kernel_array_def)
  show ?thesis
  proof (cases "map_of ps k")
    case None
    then show ?thesis
      by (simp add: kmap_rmkey_def kmap_index_eq [OF ps(1)])
  next
    case (Some v)
    note rm = kmap_rmkey_erase [OF ps Some]
    have "\<exists>m'. kmap_rmkey m k = Inr m' \<and> kernel_array al ts m' (drop_key k ps)" if "length ps < unat (kv_capacity m)"
      using kvec_eraseAt_is [OF ps(1) _ that, of "word_of_nat (key_pos ps k)"] rm drop_key_pos [OF Some] assms(1)
      by (auto simp: kernel_array_def)
    moreover have "kmap_rmkey m k = Inl OutOfBounds" if "length ps = unat (kv_capacity m)"
      using kvec_eraseAt_full [OF ps(1) _ that, of "word_of_nat (key_pos ps k)"] rm by simp
    ultimately show ?thesis
      using Some by simp
  qed
qed

text \<open>C21: a map of the kernel is the list of its pairs, in which the first pair of a key counts. \<^verbatim>\<open>operator[]\<close>
  finds the value of that pair and panics when there is none, \<^verbatim>\<open>exists\<close> and \<^verbatim>\<open>hasVal\<close> look for keys and
  values, and \<^verbatim>\<open>insert\<close> puts the pair behind the others, so that it does not change a key that is there
  already. \<^verbatim>\<open>rmkey\<close> takes the first pair of the key away, which brings a later one to light; when the vector is
  full it reads behind the block instead. (An element of a vector is handed out through a pointer to a
  parameter that has died, \<^verbatim>\<open>err.hpp\<close>; the model reads the value that parameter had.)\<close>

theorem kernel_map_is_first_pairs:
  assumes "kernel_array al ts m ps" and "length ps < 2 ^ 26"
  shows "kmap_get m k = (case map_of ps k of None \<Rightarrow> Inl (Panic ''Called val() on an err value'') | Some v \<Rightarrow> Inr v) \<and>
    kmap_exists m k = Inr (k \<in> fst ` set ps) \<and> kmap_hasVal m v = Inr (v \<in> snd ` set ps) \<and>
    (\<exists>m'. kmap_insert al ts m k v = Inr m' \<and> kernel_array al ts m' (ps @ [(k, v)])) \<and>
    (k \<notin> fst ` set ps \<longrightarrow> kmap_rmkey m k = Inr m) \<and>
    (k \<in> fst ` set ps \<and> length ps < unat (kv_capacity m) \<longrightarrow>
       (\<exists>m'. kmap_rmkey m k = Inr m' \<and> kernel_array al ts m' (drop_key k ps))) \<and>
    (k \<in> fst ` set ps \<and> length ps = unat (kv_capacity m) \<longrightarrow> kmap_rmkey m k = Inl OutOfBounds)"
proof -
  have ps: "kvec_is ts m ps"
    using assms(1) by (simp add: kernel_array_def)
  have dom: "k \<in> fst ` set ps \<longleftrightarrow> map_of ps k \<noteq> None"
    by (simp add: map_of_eq_None_iff)
  have "\<exists>m'. kmap_insert al ts m k v = Inr m' \<and> kernel_array al ts m' (ps @ [(k, v)])"
    using kv.push_law [OF assms(1), of "(k, v)"] assms(2) by (auto simp: kmap_insert_def)
  then show ?thesis
    using kmap_get_eq [OF ps] kmap_exists_eq [OF ps] kmap_hasVal_eq [OF ps] kmap_rmkey_list [OF assms, of k]
    unfolding dom by blast
qed

theorem kernel_map_is_first_pairs_witness:
  "\<exists>m m'. kmap_insert (\<lambda>_. True) 8 (kvec_new (\<lambda>_. True) 8) (1 :: u32) (7 :: u32) = Inr m \<and>
     kmap_insert (\<lambda>_. True) 8 m 1 9 = Inr m' \<and> kmap_get m' 1 = Inr 7 \<and> kmap_hasVal m' 9 = Inr True"
proof -
  let ?al = "\<lambda>_ :: u32. True"
  have "kernel_array ?al 8 (kvec_new ?al 8 :: (u32, u32) kmap) []"
    by (rule kernel_array_new) simp_all
  from kernel_map_is_first_pairs [OF this, of 1 7] obtain m where
    m: "kmap_insert ?al 8 (kvec_new ?al 8) (1 :: u32) (7 :: u32) = Inr m" "kernel_array ?al 8 m [(1, 7)]"
    by auto
  from kernel_map_is_first_pairs [OF m(2), of 1 9] obtain m' where
    m': "kmap_insert ?al 8 m 1 9 = Inr m'" "kernel_array ?al 8 m' [(1, 7), (1, 9)]"
    by auto
  from kernel_map_is_first_pairs [OF m'(2), of 1 9] m(1) m'(1) show ?thesis
    by auto
qed

end
