(* ===== verification/FileSystem.thy ===== *)
theory FileSystem
  imports Fat32 Containers
begin

text \<open>
  The file system layer, \<^verbatim>\<open>src/drivers/fs/fs.hpp\<close>, over the driver interface of
  \<^verbatim>\<open>src/drivers/fs/driver.hpp\<close>: mount points, the choice of one for a path, and the table of
  open files. A driver is a record of its operations; \<open>'w\<close> is the state of the devices behind the
  drivers and \<open>'x\<close> what a driver stores in a file.
\<close>

section \<open>Drivers and mount points\<close>

record 'x fsfile =
  f_fsData :: 'x
  f_size :: u32
  f_exists :: bool

record ('w, 'x) fsdriver =
  drv_shouldActivate :: "'w \<Rightarrow> (bool \<times> 'w) exec"
  drv_init :: "'w \<Rightarrow> 'w exec"
  drv_open :: "'w \<Rightarrow> u8 list \<Rightarrow> ('x fsfile \<times> 'w) exec"
  drv_read :: "'w \<Rightarrow> 'x fsfile \<Rightarrow> u32 \<Rightarrow> (success \<times> u8 list \<times> 'w) exec"
  drv_write :: "'w \<Rightarrow> 'x fsfile \<Rightarrow> u8 list \<Rightarrow> (success \<times> 'w) exec"
  drv_close :: "'w \<Rightarrow> 'x fsfile \<Rightarrow> 'w exec"

type_synonym ('w, 'x) mount = "u8 list \<times> ('w, 'x) fsdriver"

record ('w, 'x) fsys =
  mountpoints :: "('w, 'x) mount list"
  latestFd :: u32
  fdMapping :: "(u32, 'x fsfile \<times> ('w, 'x) fsdriver) kmap"
  devices :: 'w

text \<open>The mount points \<^verbatim>\<open>init\<close> registers, in its order.\<close>

definition mpCandidates :: "('w, 'x) fsdriver \<Rightarrow> ('w, 'x) fsdriver \<Rightarrow> ('w, 'x) fsdriver \<Rightarrow> ('w, 'x) fsdriver \<Rightarrow>
    ('w, 'x) fsdriver \<Rightarrow> ('w, 'x) mount list" where
  "mpCandidates ext2 dev fat32 boot virtKrn =
     [(bytes ''/'' @ [0], ext2), (bytes ''/dev/'' @ [0], dev), (bytes ''/'' @ [0], fat32),
      (bytes ''/boot/'' @ [0], boot), (bytes ''/krn/virt/'' @ [0], virtKrn)]"

fun fs_activate :: "'w \<Rightarrow> ('w, 'x) mount list \<Rightarrow> (('w, 'x) mount list \<times> 'w) exec" where
  "fs_activate w [] = Inr ([], w)"
| "fs_activate w (m # ms) =
     bindE (drv_shouldActivate (snd m) w) (\<lambda>(active, w1).
     bindE (fs_activate w1 ms) (\<lambda>(rest, w2). Inr (if active then m # rest else rest, w2)))"

fun fs_find_root :: "('w, 'x) mount list \<Rightarrow> bool exec" where
  "fs_find_root [] = Inr False"
| "fs_find_root (m # ms) = bindE (streq (fst m) (bytes ''/'' @ [0])) (\<lambda>b. if b then Inr True else fs_find_root ms)"

fun fs_init_drivers :: "'w \<Rightarrow> ('w, 'x) mount list \<Rightarrow> 'w exec" where
  "fs_init_drivers w [] = Inr w"
| "fs_init_drivers w (m # ms) = bindE (drv_init (snd m) w) (\<lambda>w1. fs_init_drivers w1 ms)"

definition SIZEOF_FDENTRY :: u32 where "SIZEOF_FDENTRY = 20"

definition fs_init :: "(u32 \<Rightarrow> bool) \<Rightarrow> 'w \<Rightarrow> ('w, 'x) mount list \<Rightarrow> ('w, 'x) fsys exec" where
  "fs_init al w candidates =
     bindE (fs_activate w candidates) (\<lambda>(mps, w1).
     bindE (fs_find_root mps) (\<lambda>rootFound.
     if \<not> rootFound then Inl (Panic ''No mountpoint was found for root (/)'')
     else bindE (fs_init_drivers w1 mps) (\<lambda>w2.
       Inr \<lparr>mountpoints = mps, latestFd = 1, fdMapping = kvec_new al SIZEOF_FDENTRY, devices = w2\<rparr>)))"

section \<open>The mount point of a path\<close>

fun getFolderNestage_loop :: "u32 \<Rightarrow> u8 list \<Rightarrow> u32 exec" where
  "getFolderNestage_loop ret [] = Inl OutOfBounds"
| "getFolderNestage_loop ret (c # s) =
     (if c \<noteq> 0 then getFolderNestage_loop (if c = 47 then ret + 1 else ret) s else Inr ret)"

definition getFolderNestage :: "u8 list \<Rightarrow> u32 exec" where
  "getFolderNestage s = getFolderNestage_loop 0 s"

fun mpMatches_loop :: "nat \<Rightarrow> u32 \<Rightarrow> u8 list \<Rightarrow> u8 list \<Rightarrow> bool exec" where
  "mpMatches_loop 0 i mp fp = Inr True"
| "mpMatches_loop (Suc n) i mp fp =
     bindE (strlen fp) (\<lambda>lf. bindE (strlen mp) (\<lambda>lm.
     if lf \<ge> lm
     then bindE (rd8 mp i) (\<lambda>a. bindE (rd8 fp i) (\<lambda>b. if a \<noteq> b then Inr False else mpMatches_loop n (i + 1) mp fp))
     else mpMatches_loop n (i + 1) mp fp))"

definition mountPointMatches :: "u8 list \<Rightarrow> u8 list \<Rightarrow> bool exec" where
  "mountPointMatches mp fp = bindE (strlen mp) (\<lambda>n. mpMatches_loop (unat n) 0 mp fp)"

text \<open>
  The first loop of \<^verbatim>\<open>open\<close> looks for any mount point that matches. Behind the last one it sets its
  counter to -1, which the increment turns into 0: it starts again, and without a match never ends.
\<close>

fun fs_any_match :: "('w, 'x) mount list \<Rightarrow> u8 list \<Rightarrow> unit exec" where
  "fs_any_match [] fp = Inl Hang"
| "fs_any_match (m # ms) fp = bindE (mountPointMatches (fst m) fp) (\<lambda>b. if b then Inr () else fs_any_match ms fp)"

definition fs_search :: "('w, 'x) mount list \<Rightarrow> u8 list \<Rightarrow> unit exec" where
  "fs_search mps fp = (if mps = [] then Inr () else fs_any_match mps fp)"

text \<open>
  The second loop: the nestage of the last choice and the choice. \<^verbatim>\<open>lastMpLen\<close> is never updated.
\<close>

fun fs_select :: "('w, 'x) mount list \<Rightarrow> u8 list \<Rightarrow> u32 \<Rightarrow> ('w, 'x) fsdriver option \<Rightarrow>
    (u32 \<times> ('w, 'x) fsdriver option) exec" where
  "fs_select [] fp lastFolderNestage last_mp = Inr (lastFolderNestage, last_mp)"
| "fs_select (m # ms) fp lastFolderNestage last_mp =
     bindE (getFolderNestage (fst m)) (\<lambda>nest. bindE (mountPointMatches (fst m) fp) (\<lambda>matches. bindE (strlen (fst m)) (\<lambda>len.
     if nest > lastFolderNestage \<and> matches \<or> nest = lastFolderNestage \<and> matches \<and> len > 0
     then fs_select ms fp nest (Some (snd m))
     else fs_select ms fp lastFolderNestage last_mp)))"

section \<open>Open files\<close>

text \<open>
  When the descriptor is in the table already, the code assigns through the reference that the
  map's subscript answers, which is a copy: the table keeps its entry.
\<close>

definition fs_open :: "(u32 \<Rightarrow> bool) \<Rightarrow> ('w, 'x) fsys \<Rightarrow> u8 list \<Rightarrow> (u32 \<times> ('w, 'x) fsys) exec" where
  "fs_open al s fp =
     (let currentFd = latestFd s; s1 = s\<lparr>latestFd := currentFd + 1\<rparr> in
      bindE (rd8 fp 0) (\<lambda>c.
      if c \<noteq> 47 then Inr (0, s1)
      else bindE (fs_search (mountpoints s1) fp) (\<lambda>_.
      bindE (fs_select (mountpoints s1) fp 0 None) (\<lambda>(nest, mp).
      case mp of
        None \<Rightarrow> Inr (0, s1)
      | Some d \<Rightarrow>
          if nest = 0 then Inr (0, s1)
          else bindE (drv_open d (devices s1) fp) (\<lambda>(f, w).
          bindE (kmap_exists (fdMapping s1) currentFd) (\<lambda>known.
          bindE (if known then Inr (fdMapping s1)
                 else kmap_insert al SIZEOF_FDENTRY (fdMapping s1) currentFd (f, d)) (\<lambda>m.
          Inr (if f_exists f then currentFd else 0, s1\<lparr>fdMapping := m, devices := w\<rparr>))))))))"

definition fs_close :: "('w, 'x) fsys \<Rightarrow> u32 \<Rightarrow> ('w, 'x) fsys exec" where
  "fs_close s fd =
     (if fd = 0 then Inr s
      else bindE (kmap_get (fdMapping s) fd) (\<lambda>(f, d).
      bindE (drv_close d (devices s) f) (\<lambda>w.
      bindE (kmap_rmkey (fdMapping s) fd) (\<lambda>m. Inr (s\<lparr>fdMapping := m, devices := w\<rparr>)))))"

definition fs_read :: "('w, 'x) fsys \<Rightarrow> u32 \<Rightarrow> u32 \<Rightarrow> (success \<times> u8 list \<times> ('w, 'x) fsys) exec" where
  "fs_read s fd len =
     (if fd = 0 then Inr (Error, [], s)
      else bindE (kmap_get (fdMapping s) fd) (\<lambda>(f, d).
      bindE (drv_read d (devices s) f len) (\<lambda>(r, out, w). Inr (r, out, s\<lparr>devices := w\<rparr>))))"

definition fs_write :: "('w, 'x) fsys \<Rightarrow> u32 \<Rightarrow> u8 list \<Rightarrow> (success \<times> ('w, 'x) fsys) exec" where
  "fs_write s fd conts =
     (if fd = 0 then Inr (Error, s)
      else bindE (kmap_exists (fdMapping s) fd) (\<lambda>known.
      if \<not> known then Inr (Error, s)
      else bindE (kmap_get (fdMapping s) fd) (\<lambda>(f, d).
      bindE (drv_write d (devices s) f conts) (\<lambda>(r, w). Inr (r, s\<lparr>devices := w\<rparr>)))))"

definition fs_fileSize :: "('w, 'x) fsys \<Rightarrow> u32 \<Rightarrow> u32 exec" where
  "fs_fileSize s fd =
     (if fd = 0 then Inr 0
      else bindE (kmap_exists (fdMapping s) fd) (\<lambda>known.
      if \<not> known then Inr 0
      else bindE (kmap_get (fdMapping s) fd) (\<lambda>(f, d). Inr (f_size f))))"

section \<open>Which mount point is chosen\<close>

definition path_ok :: "u8 list \<Rightarrow> bool" where
  "path_ok s \<longleftrightarrow> terminated s \<and> length s < 2 ^ 32"

lemma path_ok_strlen: "path_ok s \<Longrightarrow> \<exists>n. strlen s = Inr n \<and> unat n = length (cstr s)"
  using cstr_length_le [of s] by (simp add: path_ok_def strlen_eq)

text \<open>A mount point matches the paths that begin with it, and all the paths that are shorter.\<close>

definition mp_matches :: "u8 list \<Rightarrow> u8 list \<Rightarrow> bool" where
  "mp_matches mp fp \<longleftrightarrow> length (cstr fp) < length (cstr mp) \<or> take (length (cstr mp)) (cstr fp) = cstr mp"

lemma nth_cstr: "i < length (cstr s) \<Longrightarrow> s ! i = cstr s ! i"
  by (simp add: cstr_def takeWhile_nth)

lemma mpMatches_loop_eq:
  assumes "path_ok mp" and "path_ok fp"
  shows "j + n = length (cstr mp) \<Longrightarrow> mpMatches_loop n (word_of_nat j) mp fp =
    Inr (length (cstr fp) < length (cstr mp) \<or> take n (drop j (cstr fp)) = drop j (cstr mp))"
proof (induction n arbitrary: j)
  case (Suc n)
  obtain lf lm where l: "strlen fp = Inr lf" "unat lf = length (cstr fp)" "strlen mp = Inr lm" "unat lm = length (cstr mp)"
    using path_ok_strlen [OF assms(1)] path_ok_strlen [OF assms(2)] by blast
  have j: "j < length (cstr mp)"
    using Suc.prems by simp
  then have jl: "j < length mp"
    using cstr_length_le [of mp] by simp
  then have u: "unat (word_of_nat j :: u32) = j"
    using assms(1) by (simp add: path_ok_def)
  have next_j: "mpMatches_loop n (word_of_nat j + 1) mp fp = mpMatches_loop n (word_of_nat (Suc j)) mp fp"
    by (simp add: add.commute)
  show ?case
  proof (cases "length (cstr fp) < length (cstr mp)")
    case True
    then show ?thesis
      using Suc.IH [of "Suc j"] Suc.prems by (simp add: l word_le_nat_alt next_j)
  next
    case False
    then have jf: "j < length (cstr fp)" "j < length fp"
      using j cstr_length_le [of fp] by simp_all
    have "drop j (cstr mp) = cstr mp ! j # drop (Suc j) (cstr mp)" "drop j (cstr fp) = cstr fp ! j # drop (Suc j) (cstr fp)"
      using j jf by (simp_all add: Cons_nth_drop_Suc)
    then show ?thesis
      using Suc.IH [of "Suc j"] Suc.prems False j jf jl
      by (simp add: l word_le_nat_alt next_j rd8_def u nth_cstr)
  qed
qed auto

lemma mountPointMatches_eq:
  assumes "path_ok mp" and "path_ok fp"
  shows "mountPointMatches mp fp = Inr (mp_matches mp fp)"
  using path_ok_strlen [OF assms(1)] mpMatches_loop_eq [OF assms, of 0 "length (cstr mp)"]
  by (auto simp: mountPointMatches_def mp_matches_def)

definition nestage :: "u8 list \<Rightarrow> nat" where
  "nestage s = length (filter (\<lambda>c. c = 47) (cstr s))"

lemma getFolderNestage_loop_eq:
  "terminated s \<Longrightarrow> getFolderNestage_loop r s = Inr (r + word_of_nat (nestage s))"
  by (induction s arbitrary: r) (auto simp: nestage_def)

lemma getFolderNestage_eq:
  assumes "path_ok s"
  shows "\<exists>n. getFolderNestage s = Inr n \<and> unat n = nestage s"
proof -
  have "nestage s \<le> length s"
    using order_trans [OF length_filter_le cstr_length_le] by (simp add: nestage_def)
  then show ?thesis
    using assms by (simp add: path_ok_def getFolderNestage_def getFolderNestage_loop_eq)
qed

definition mount_ok :: "('w, 'x) mount \<Rightarrow> bool" where
  "mount_ok m \<longleftrightarrow> path_ok (fst m) \<and> cstr (fst m) \<noteq> []"

definition candidates_for :: "u8 list \<Rightarrow> ('w, 'x) mount list \<Rightarrow> ('w, 'x) mount list" where
  "candidates_for fp ms = filter (\<lambda>m. mp_matches (fst m) fp) ms"

text \<open>The choice: the last one of the deepest among the mount points that match.\<close>

definition chosen :: "u8 list \<Rightarrow> ('w, 'x) mount list \<Rightarrow> ('w, 'x) mount \<Rightarrow> bool" where
  "chosen fp ms m \<longleftrightarrow> (\<exists>us vs. candidates_for fp ms = us @ m # vs \<and>
     (\<forall>u\<in>set us. nestage (fst u) \<le> nestage (fst m)) \<and> (\<forall>v\<in>set vs. nestage (fst v) < nestage (fst m)))"

lemma chosen_hd:
  assumes "mp_matches (fst m) fp" and "\<forall>x\<in>set (candidates_for fp ms). nestage (fst x) < nestage (fst m)"
  shows "chosen fp (m # ms) m"
  using assms unfolding chosen_def
  by (intro exI [of _ "[]"] exI [of _ "candidates_for fp ms"]) (simp add: candidates_for_def)

lemma chosen_tl:
  assumes "chosen fp ms x" and "mp_matches (fst m) fp \<Longrightarrow> nestage (fst m) \<le> nestage (fst x)"
  shows "chosen fp (m # ms) x"
proof -
  obtain us vs where "candidates_for fp ms = us @ x # vs" "\<forall>u\<in>set us. nestage (fst u) \<le> nestage (fst x)"
      "\<forall>v\<in>set vs. nestage (fst v) < nestage (fst x)"
    using assms(1) by (auto simp: chosen_def)
  then show ?thesis
    unfolding chosen_def using assms(2)
    by (intro exI [of _ "if mp_matches (fst m) fp then m # us else us"] exI [of _ vs]) (simp add: candidates_for_def)
qed

text \<open>The result of the loop: the choice it came with, or the one it makes.\<close>

definition selected :: "u8 list \<Rightarrow> ('w, 'x) mount list \<Rightarrow> u32 \<Rightarrow> ('w, 'x) fsdriver option \<Rightarrow>
    u32 \<times> ('w, 'x) fsdriver option \<Rightarrow> bool" where
  "selected fp ms n d r \<longleftrightarrow>
     r = (n, d) \<and> (\<forall>m\<in>set (candidates_for fp ms). nestage (fst m) < unat n) \<or>
     (\<exists>m. chosen fp ms m \<and> unat n \<le> nestage (fst m) \<and> unat (fst r) = nestage (fst m) \<and> snd r = Some (snd m))"

lemma selected_take:
  assumes "selected fp ms k (Some (snd m)) r" and "mp_matches (fst m) fp" and "unat k = nestage (fst m)"
    and "unat n \<le> nestage (fst m)"
  shows "selected fp (m # ms) n d r"
proof -
  from assms(1) consider (here) "r = (k, Some (snd m))" "\<forall>x\<in>set (candidates_for fp ms). nestage (fst x) < nestage (fst m)"
    | (later) x where "chosen fp ms x" "nestage (fst m) \<le> nestage (fst x)" "unat (fst r) = nestage (fst x)" "snd r = Some (snd x)"
    unfolding selected_def assms(3) by blast
  then show ?thesis
  proof cases
    case here
    then show ?thesis
      using chosen_hd [OF assms(2) here(2)] assms(3,4) unfolding selected_def
      by (intro disjI2 exI [of _ m]) simp
  next
    case later
    then show ?thesis
      using chosen_tl [OF later(1,2)] assms(4) unfolding selected_def
      by (intro disjI2 exI [of _ x]) simp
  qed
qed

lemma selected_skip:
  assumes "selected fp ms n d r" and "mp_matches (fst m) fp \<Longrightarrow> nestage (fst m) < unat n"
  shows "selected fp (m # ms) n d r"
proof -
  from assms(1) consider (none) "r = (n, d)" "\<forall>x\<in>set (candidates_for fp ms). nestage (fst x) < unat n"
    | (later) x where "chosen fp ms x" "unat n \<le> nestage (fst x)" "unat (fst r) = nestage (fst x)" "snd r = Some (snd x)"
    unfolding selected_def by blast
  then show ?thesis
  proof cases
    case none
    then show ?thesis
      using assms(2) by (auto simp: selected_def candidates_for_def)
  next
    case later
    have "chosen fp (m # ms) x"
      using later(1,2) assms(2) by (intro chosen_tl) auto
    then show ?thesis
      using later(2-4) unfolding selected_def by (intro disjI2 exI [of _ x]) simp
  qed
qed

lemma fs_select_eq:
  assumes "path_ok fp"
  shows "list_all mount_ok ms \<Longrightarrow> \<exists>r. fs_select ms fp n d = Inr r \<and> selected fp ms n d r"
proof (induction ms arbitrary: n d)
  case Nil
  then show ?case
    by (simp add: selected_def candidates_for_def)
next
  case (Cons m ms)
  have ok: "path_ok (fst m)" "cstr (fst m) \<noteq> []"
    using Cons.prems by (simp_all add: mount_ok_def)
  obtain k where k: "getFolderNestage (fst m) = Inr k" "unat k = nestage (fst m)"
    using getFolderNestage_eq [OF ok(1)] by blast
  obtain l where l: "strlen (fst m) = Inr l" "unat l = length (cstr (fst m))"
    using path_ok_strlen [OF ok(1)] by blast
  then have "l > 0"
    using ok(2) by (simp add: word_less_nat_alt)
  show ?case
  proof (cases "mp_matches (fst m) fp \<and> n \<le> k")
    case True
    then have sel: "fs_select (m # ms) fp n d = fs_select ms fp k (Some (snd m))"
      using k(1) l(1) \<open>l > 0\<close> by (auto simp: mountPointMatches_eq [OF ok(1) assms])
    obtain r where "fs_select ms fp k (Some (snd m)) = Inr r" "selected fp ms k (Some (snd m)) r"
      using Cons.IH [of k "Some (snd m)"] Cons.prems by auto
    then show ?thesis
      using selected_take [of fp ms k m r n d] True k(2) by (simp only: sel) (auto simp: word_le_nat_alt)
  next
    case False
    then have sel: "fs_select (m # ms) fp n d = fs_select ms fp n d"
      using k(1) l(1) by (auto simp: mountPointMatches_eq [OF ok(1) assms])
    obtain r where "fs_select ms fp n d = Inr r" "selected fp ms n d r"
      using Cons.IH [of n d] Cons.prems by auto
    then show ?thesis
      using selected_skip [of fp ms n d r m] False k(2) by (simp only: sel) (auto simp: word_le_nat_alt)
  qed
qed

lemma chosen_unique:
  assumes "chosen fp ms m" and "chosen fp ms m'"
  shows "m = m'"
proof -
  have wlog: "m = m'" if "us @ m # vs = us' @ m' # vs'" "length us \<le> length us'"
      "\<forall>u\<in>set us'. nestage (fst u) \<le> nestage (fst m')" "\<forall>v\<in>set vs. nestage (fst v) < nestage (fst m)"
    for m m' :: "('w, 'x) mount" and us vs us' vs'
  proof (cases "length us = length us'")
    case False
    then have lt: "length us < length us'"
      using that(2) by simp
    have "(us' @ m' # vs') ! length us = us' ! length us"
      using lt by (simp add: nth_append)
    moreover have "(us @ m # vs) ! length us = m"
      by simp
    ultimately have "m \<in> set us'"
      using lt that(1) by (metis nth_mem)
    moreover have "m' \<in> set vs"
    proof -
      have "(us @ m # vs) ! length us' = vs ! (length us' - length us - 1)"
        using lt by (simp add: nth_append nth_Cons')
      moreover have "(us' @ m' # vs') ! length us' = m'"
        by simp
      moreover have "length us' - length us - 1 < length vs"
        using lt arg_cong [OF that(1), of length] by simp
      ultimately show ?thesis
        using that(1) by (metis nth_mem)
    qed
    ultimately have "nestage (fst m) \<le> nestage (fst m')" "nestage (fst m') < nestage (fst m)"
      using that(3,4) by auto
    then show ?thesis
      by simp
  qed (use that(1) in simp)
  obtain us vs where u: "candidates_for fp ms = us @ m # vs" "\<forall>u\<in>set us. nestage (fst u) \<le> nestage (fst m)"
      "\<forall>v\<in>set vs. nestage (fst v) < nestage (fst m)"
    using assms(1) by (auto simp: chosen_def)
  obtain us' vs' where u': "candidates_for fp ms = us' @ m' # vs'" "\<forall>u\<in>set us'. nestage (fst u) \<le> nestage (fst m')"
      "\<forall>v\<in>set vs'. nestage (fst v) < nestage (fst m')"
    using assms(2) by (auto simp: chosen_def)
  show ?thesis
    using wlog [of us m vs us' m' vs'] wlog [of us' m' vs' us m vs] u u' by (metis nat_le_linear)
qed

lemma fs_any_match_eq:
  assumes "path_ok fp"
  shows "list_all mount_ok ms \<Longrightarrow> fs_any_match ms fp = (if candidates_for fp ms = [] then Inl Hang else Inr ())"
  by (induction ms) (auto simp: candidates_for_def mount_ok_def mountPointMatches_eq [OF _ assms])

section \<open>The table of open files\<close>

text \<open>Every descriptor in the table has been handed out; the next one is not zero.\<close>

definition fd_table :: "(u32 \<Rightarrow> bool) \<Rightarrow> ('w, 'x) fsys \<Rightarrow> (u32 \<rightharpoonup> 'x fsfile \<times> ('w, 'x) fsdriver) \<Rightarrow> bool" where
  "fd_table al s M \<longleftrightarrow> kmap_is al SIZEOF_FDENTRY (fdMapping s) M \<and> latestFd s \<noteq> 0 \<and> (\<forall>k\<in>dom M. k < latestFd s)"

lemma unat_inc:
  assumes "(w :: u32) \<noteq> - 1"
  shows "unat (w + 1) = unat w + 1"
proof -
  have "unat w \<noteq> unat (- 1 :: u32)"
    using assms word_unat_eq_iff by blast
  then have "unat w \<noteq> 2 ^ 32 - 1"
    by (simp add: unsigned_minus_1_eq_mask mask_eq_exp_minus_1 del: unat_eq_nat_uint)
  moreover have "unat w < 2 ^ 32"
    using unsigned_less [of w, where 'a = nat] by simp
  ultimately have "unat w + 1 < 2 ^ 32"
    by simp
  then show ?thesis
    by (simp add: unat_word_ariths)
qed

definition mounts_ok :: "('w, 'x) mount list \<Rightarrow> bool" where
  "mounts_ok ms \<longleftrightarrow> list_all (\<lambda>m. mount_ok m \<and> 0 < nestage (fst m)) ms"

lemma fs_open_eq:
  assumes tab: "fd_table al s M" "card (dom M) < 2 ^ 26" "latestFd s \<noteq> - 1" and mps: "mounts_ok (mountpoints s)"
    and fp: "path_ok fp" "hd fp = 47" and m: "chosen fp (mountpoints s) m"
    and opened: "drv_open (snd m) (devices s) fp = Inr (f, w)"
  shows "\<exists>s'. fs_open al s fp = Inr (if f_exists f then latestFd s else 0, s') \<and> mountpoints s' = mountpoints s \<and>
    devices s' = w \<and> fd_table al s' (M(latestFd s \<mapsto> (f, snd m)))"
proof -
  let ?fd = "latestFd s" and ?s = "s\<lparr>latestFd := latestFd s + 1\<rparr>"
  have ok: "list_all mount_ok (mountpoints s)"
    using mps by (simp add: mounts_ok_def list_all_iff)
  have cand: "candidates_for fp (mountpoints s) \<noteq> []"
    using m by (auto simp: chosen_def)
  have hd0: "rd8 fp 0 = Inr 47"
    using fp by (cases fp) (simp_all add: path_ok_def rd8_def)
  have srch: "fs_search (mountpoints s) fp = Inr ()"
    using fs_any_match_eq [OF fp(1) ok] cand by (simp add: fs_search_def)
  obtain r where r: "fs_select (mountpoints s) fp 0 None = Inr r" "selected fp (mountpoints s) 0 None r"
    using fs_select_eq [OF fp(1) ok] by blast
  have "\<not> (\<forall>x\<in>set (candidates_for fp (mountpoints s)). nestage (fst x) < unat (0 :: u32))"
    using last_in_set [OF cand] by (metis not_less_zero unat_0)
  then have "unat (fst r) = nestage (fst m) \<and> snd r = Some (snd m)"
    using r(2) chosen_unique [OF m] unfolding selected_def by blast
  moreover have "m \<in> set (candidates_for fp (mountpoints s))"
    using m by (auto simp: chosen_def)
  then have "0 < nestage (fst m)"
    using mps by (auto simp: mounts_ok_def list_all_iff candidates_for_def)
  ultimately have nest: "fst r \<noteq> 0" "snd r = Some (snd m)"
    by auto
  have fresh: "M ?fd = None"
    using tab(1) by (meson domIff fd_table_def order_less_irrefl)
  then have "kmap_exists (fdMapping s) ?fd = Inr False"
    using km.has_law [of al SIZEOF_FDENTRY "fdMapping s" M ?fd] tab(1) by (simp add: fd_table_def)
  moreover obtain t where t: "kmap_insert al SIZEOF_FDENTRY (fdMapping s) ?fd (f, snd m) = Inr t"
      "kmap_is al SIZEOF_FDENTRY t (M(?fd \<mapsto> (f, snd m)))"
    using km.put_law [of al SIZEOF_FDENTRY "fdMapping s" M ?fd "(f, snd m)"] fresh tab by (auto simp: fd_table_def)
  ultimately have res: "fs_open al s fp = Inr (if f_exists f then ?fd else 0, ?s\<lparr>fdMapping := t, devices := w\<rparr>)"
    using opened nest by (cases r) (simp add: fs_open_def Let_def hd0 srch r(1))
  have "unat (?fd + 1) = unat ?fd + 1"
    using tab(3) by (rule unat_inc)
  then have "?fd + 1 \<noteq> 0" "?fd < ?fd + 1"
    by (auto simp: word_less_nat_alt)
  then have "fd_table al (?s\<lparr>fdMapping := t, devices := w\<rparr>) (M(?fd \<mapsto> (f, snd m)))"
    using tab(1) t(2) by (auto simp: fd_table_def intro: order_less_trans)
  then show ?thesis
    using res by simp
qed

lemma fd_table_devices [simp]: "fd_table al (s\<lparr>devices := w\<rparr>) M = fd_table al s M"
  by (simp add: fd_table_def)

lemma fs_write_eq:
  assumes "fd_table al s M" and "M fd = Some (f, d)" and "fd \<noteq> 0" and "drv_write d (devices s) f conts = Inr (r, w)"
  shows "fs_write s fd conts = Inr (r, s\<lparr>devices := w\<rparr>)"
proof -
  have m: "kmap_is al SIZEOF_FDENTRY (fdMapping s) M"
    using assms(1) by (simp add: fd_table_def)
  show ?thesis
    using km.lookup_law [OF m, of fd] km.has_law [OF m, of fd] assms(2-4) by (simp add: fs_write_def)
qed

lemma fs_read_eq:
  assumes "fd_table al s M" and "M fd = Some (f, d)" and "fd \<noteq> 0" and "drv_read d (devices s) f len = Inr (r, out, w)"
  shows "fs_read s fd len = Inr (r, out, s\<lparr>devices := w\<rparr>)"
proof -
  have m: "kmap_is al SIZEOF_FDENTRY (fdMapping s) M"
    using assms(1) by (simp add: fd_table_def)
  show ?thesis
    using km.lookup_law [OF m, of fd] assms(2-4) by (simp add: fs_read_def)
qed

lemma fs_fileSize_eq:
  assumes "fd_table al s M" and "M fd = Some (f, d)" and "fd \<noteq> 0"
  shows "fs_fileSize s fd = Inr (f_size f)"
proof -
  have m: "kmap_is al SIZEOF_FDENTRY (fdMapping s) M"
    using assms(1) by (simp add: fd_table_def)
  show ?thesis
    using km.lookup_law [OF m, of fd] km.has_law [OF m, of fd] assms(2,3) by (simp add: fs_fileSize_def)
qed

text \<open>The vector below the table has room for that many more files, without growing.\<close>

definition fd_room :: "nat \<Rightarrow> ('w, 'x) fsys \<Rightarrow> bool" where
  "fd_room n s \<longleftrightarrow> unat (kv_len (fdMapping s)) + n < unat (kv_capacity (fdMapping s))"

lemma fd_room_devices [simp]: "fd_room n (s\<lparr>devices := w\<rparr>) = fd_room n s"
  by (simp add: fd_room_def)

lemma kmap_insert_room:
  assumes "kmap_insert al ts m k v = Inr m'" and "unat (kv_len m) + Suc n < unat (kv_capacity m)"
  shows "kv_capacity m' = kv_capacity m \<and> unat (kv_len m') = unat (kv_len m) + 1"
proof -
  have "unat (kv_len m) + 1 < 2 ^ 32"
    using assms(2) unsigned_less [of "kv_capacity m", where 'a = nat] by simp
  then have "unat (kv_len m + 1) = unat (kv_len m) + 1"
    using unat_plus_nat [of "kv_len m" 1] by simp
  then show ?thesis
    using assms by (auto simp: kmap_insert_def kvec_pushBack_def word_le_nat_alt split: option.splits if_splits)
qed

lemma fs_open_room:
  assumes "fs_open al s fp = Inr (r, s')" and "fd_room (Suc n) s"
  shows "fd_room n s'"
proof -
  have "fdMapping s' = fdMapping s \<or> (\<exists>k v. kmap_insert al SIZEOF_FDENTRY (fdMapping s) k v = Inr (fdMapping s'))"
    using assms(1) by (auto simp: fs_open_def Let_def split: if_splits option.splits)
  then show ?thesis
    using assms(2) kmap_insert_room by (fastforce simp: fd_room_def)
qed

lemma fs_open_latest: "fs_open al s fp = Inr (r, s') \<Longrightarrow> latestFd s' = latestFd s + 1"
  by (auto simp: fs_open_def Let_def split: if_splits option.splits)

lemma fs_close_eq:
  assumes "fd_table al s M" and "card (dom M) < 2 ^ 26" and "M fd = Some (f, d)" and "fd \<noteq> 0" and "fd_room n s"
    and "drv_close d (devices s) f = Inr w"
  shows "\<exists>s'. fs_close s fd = Inr s' \<and> mountpoints s' = mountpoints s \<and> latestFd s' = latestFd s \<and> devices s' = w \<and>
    fd_table al s' (M(fd := None)) \<and> fd_room (Suc n) s'"
proof -
  have m: "kmap_is al SIZEOF_FDENTRY (fdMapping s) M"
    using assms(1) by (simp add: fd_table_def)
  have "kv_len (fdMapping s) < kv_capacity (fdMapping s)"
    using assms(5) by (simp add: fd_room_def word_less_nat_alt)
  from kmap_rmkey_law [OF m assms(2) this, of fd] assms(3) obtain t where
    t: "kmap_rmkey (fdMapping s) fd = Inr t" "kmap_is al SIZEOF_FDENTRY t (M(fd := None))"
      "kv_capacity t = kv_capacity (fdMapping s)" "kv_len t = kv_len (fdMapping s) - 1"
    by auto
  have "kv_len (fdMapping s) \<noteq> 0"
  proof
    assume "kv_len (fdMapping s) = 0"
    moreover obtain ps where "kvec_is SIZEOF_FDENTRY (fdMapping s) ps" "map_of ps = M"
      using m by (auto simp: kmap_is_def kernel_array_def)
    ultimately show False
      using assms(3) by (auto simp: kvec_is_def)
  qed
  then have "unat (kv_len t) + 1 = unat (kv_len (fdMapping s))"
    using unat_dec [of "kv_len (fdMapping s)"] by (cases "unat (kv_len (fdMapping s))") (simp_all add: t(4) unat_eq_0)
  then have "fd_room (Suc n) (s\<lparr>fdMapping := t, devices := w\<rparr>)"
    using assms(5) t(3) by (simp add: fd_room_def)
  moreover have "fd_table al (s\<lparr>fdMapping := t, devices := w\<rparr>) (M(fd := None))"
    using assms(1) t(2) by (auto simp: fd_table_def)
  moreover have "fs_close s fd = Inr (s\<lparr>fdMapping := t, devices := w\<rparr>)"
    using km.lookup_law [OF m, of fd] assms(3,4,6) t(1) by (simp add: fs_close_def)
  ultimately show ?thesis
    by auto
qed

text \<open>C14: opening a path asks the driver of the deepest mount point that matches it, the last one
  among equally deep ones, and enters the file it gives under a new descriptor into the table,
  which keeps the files opened before; the answer is the descriptor, or zero when the driver says
  the file does not exist.\<close>

theorem fs_open_asks_deepest_mount:
  assumes "fd_table al s M" and "card (dom M) < 2 ^ 26" and "latestFd s \<noteq> - 1" and "mounts_ok (mountpoints s)"
    and "path_ok fp" and "hd fp = 47" and "chosen fp (mountpoints s) m"
    and "drv_open (snd m) (devices s) fp = Inr (f, w)"
  shows "\<exists>s'. fs_open al s fp = Inr (if f_exists f then latestFd s else 0, s') \<and> mountpoints s' = mountpoints s \<and>
    devices s' = w \<and> fd_table al s' (M(latestFd s \<mapsto> (f, snd m)))"
  by (rule fs_open_eq [OF assms])

text \<open>A descriptor that is not in the table makes reading and closing panic the kernel, while
  writing reports an error and the size is zero.\<close>

theorem fs_unknown_descriptor:
  assumes "fd_table al s M" and "M fd = None" and "fd \<noteq> 0"
  shows "fs_read s fd len = Inl (Panic ''Called val() on an err value'') \<and>
    fs_close s fd = Inl (Panic ''Called val() on an err value'') \<and>
    fs_write s fd conts = Inr (Error, s) \<and> fs_fileSize s fd = Inr 0"
proof -
  have m: "kmap_is al SIZEOF_FDENTRY (fdMapping s) M"
    using assms(1) by (simp add: fd_table_def)
  show ?thesis
    using km.lookup_law [OF m, of fd] km.has_law [OF m, of fd] assms(2,3)
    by (simp add: fs_read_def fs_close_def fs_write_def fs_fileSize_def)
qed

text \<open>A path no mount point matches makes the search for one start again and again.\<close>

theorem fs_open_unmatched_hangs:
  assumes "list_all mount_ok (mountpoints s)" and "mountpoints s \<noteq> []" and "path_ok fp" and "hd fp = 47"
    and "candidates_for fp (mountpoints s) = []"
  shows "fs_open al s fp = Inl Hang"
proof -
  have "rd8 fp 0 = Inr 47"
    using assms(3,4) by (cases fp) (simp_all add: path_ok_def rd8_def)
  then show ?thesis
    using fs_any_match_eq [OF assms(3,1)] assms(2,5) by (simp add: fs_open_def fs_search_def)
qed

section \<open>FAT32 below the file system\<close>

text \<open>The operations of a driver that does not override them; the file it opens is all zero.\<close>

definition base_driver :: "'x \<Rightarrow> ('w, 'x) fsdriver" where
  "base_driver null =
     \<lparr>drv_shouldActivate = (\<lambda>w. Inr (False, w)),
      drv_init = (\<lambda>w. Inr w),
      drv_open = (\<lambda>w fp. Inr (\<lparr>f_fsData = null, f_size = 0, f_exists = False\<rparr>, w)),
      drv_read = (\<lambda>w f len. Inr (Error, [], w)),
      drv_write = (\<lambda>w f conts. Inr (Error, w)),
      drv_close = (\<lambda>w f. Inr w)\<rparr>"

definition fat_driver :: "nat \<Rightarrow> allocator \<Rightarrow> disk \<Rightarrow> (fat32, fatdata option) fsdriver" where
  "fat_driver k al d = (base_driver None)
     \<lparr>drv_shouldActivate := (\<lambda>w. Inr (fat_getPriority al d w)),
      drv_init := (\<lambda>w. Inr (fat_init w)),
      drv_open := (\<lambda>w fp. bindE (fat_open k al d w fp) (\<lambda>f.
        Inr (\<lparr>f_fsData = ff_fsData f, f_size = ff_size f, f_exists = ff_exists f\<rparr>, w))),
      drv_read := (\<lambda>w f len.
        bindE (fat_read k al d w \<lparr>ff_fsData = f_fsData f, ff_size = f_size f, ff_exists = f_exists f\<rparr> len) (\<lambda>(r, out).
        Inr (r, out, w)))\<rparr>"

text \<open>The file a directory entry describes, as \<^verbatim>\<open>open\<close> hands it out.\<close>

definition entry_file :: "u8 list \<Rightarrow> fatdata option fsfile" where
  "entry_file e = \<lparr>f_fsData = Some \<lparr>fd_cluster = clusterOf e, fd_isDirectory = (de_attributes e AND 0x10 \<noteq> 0)\<rparr>,
     f_size = de_filesize e, f_exists = True\<rparr>"

lemma fs_reads_fat_eq:
  assumes "fd_table al s M" and "card (dom M) < 2 ^ 26" and "latestFd s \<noteq> - 1" and "mounts_ok (mountpoints s)"
    and "path_ok (path_text ns)" and "chosen (path_text ns) (mountpoints s) (mp, fat_driver k fal d)"
    and "fat_volume d (devices s)" and "gives_buffers fal" and "ns \<noteq> []"
    and "list_all (\<lambda>n. name_ok (fst n) (snd n)) ns"
    and "dirs_ok d (devices s) k ch (rootDirClusterNum (bootSector (devices s))) ns"
    and "path_lookup d (devices s) ch (rootDirClusterNum (bootSector (devices s))) ns = Some e"
    and "de_attributes e AND 0x10 = 0" and "fat_chain d (devices s) (clusterOf e # cs)" and "length cs < k"
  shows "\<exists>s'. fs_open al s (path_text ns) = Inr (latestFd s, s') \<and> fs_read s' (latestFd s) len =
    Inr (Sucess, take (min (unat len) (unat (de_filesize e))) (chain_bytes d (devices s) (clusterOf e # cs)), s')"
proof -
  have "hd (path_text ns) = 47"
    using assms(9) by (cases ns) (simp_all add: path_text_Cons)
  have opened: "drv_open (snd (mp, fat_driver k fal d)) (devices s) (path_text ns) = Inr (entry_file e, devices s)"
    using fat_open_eq [OF assms(7-11)] assms(12) by (simp add: fat_driver_def file_of_def entry_file_def)
  obtain s' where s': "fs_open al s (path_text ns) = Inr (latestFd s, s')" "devices s' = devices s"
      "fd_table al s' (M(latestFd s \<mapsto> (entry_file e, fat_driver k fal d)))"
    using fs_open_eq [OF assms(1-5) \<open>hd (path_text ns) = 47\<close> assms(6) opened] by (auto simp: entry_file_def)
  have "kmap_get (fdMapping s') (latestFd s) = Inr (entry_file e, fat_driver k fal d)"
    using km.lookup_law [of al SIZEOF_FDENTRY "fdMapping s'" _ "latestFd s"] s'(3) by (auto simp: fd_table_def)
  moreover have "drv_read (fat_driver k fal d) (devices s) (entry_file e) len =
      Inr (Sucess, take (min (unat len) (unat (de_filesize e))) (chain_bytes d (devices s) (clusterOf e # cs)), devices s)"
    using fat_read_eq [OF assms(7,8,14), of k "\<lparr>ff_fsData = f_fsData (entry_file e), ff_size = f_size (entry_file e),
        ff_exists = f_exists (entry_file e)\<rparr>" len] assms(13,15)
    by (simp add: fat_driver_def entry_file_def)
  moreover have "latestFd s \<noteq> 0"
    using assms(1) by (simp add: fd_table_def)
  moreover have "s'\<lparr>devices := devices s\<rparr> = s'"
    using s'(2) by (cases s') simp
  ultimately show ?thesis
    using s'(1,2) by (simp add: fs_read_def)
qed

text \<open>C1: a file on a FAT32 volume that the file system has mounted can be opened by its path, and
  reading the descriptor gives the beginning of the contents of its chain of clusters.\<close>

theorem fs_reads_fat_file:
  assumes "fd_table al s M" and "card (dom M) < 2 ^ 26" and "latestFd s \<noteq> - 1" and "mounts_ok (mountpoints s)"
    and "path_ok (path_text ns)" and "chosen (path_text ns) (mountpoints s) (mp, fat_driver k fal d)"
    and "fat_volume d (devices s)" and "gives_buffers fal" and "ns \<noteq> []"
    and "list_all (\<lambda>n. name_ok (fst n) (snd n)) ns"
    and "dirs_ok d (devices s) k ch (rootDirClusterNum (bootSector (devices s))) ns"
    and "path_lookup d (devices s) ch (rootDirClusterNum (bootSector (devices s))) ns = Some e"
    and "de_attributes e AND 0x10 = 0" and "fat_chain d (devices s) (clusterOf e # cs)" and "length cs < k"
  shows "\<exists>s'. fs_open al s (path_text ns) = Inr (latestFd s, s') \<and> fs_read s' (latestFd s) len =
    Inr (Sucess, take (min (unat len) (unat (de_filesize e))) (chain_bytes d (devices s) (clusterOf e # cs)), s')"
  by (rule fs_reads_fat_eq [OF assms])

section \<open>The standard mount points\<close>

lemma standard_mounts: "mounts_ok (mpCandidates ext2 dev fat32 boot virtKrn)"
  by (simp add: mounts_ok_def mpCandidates_def mount_ok_def path_ok_def nestage_def)

text \<open>C27: with the standard mount points, every absolute path of fewer than ten characters, such as
  \<^verbatim>\<open>/boot/a\<close> or \<^verbatim>\<open>/dev/tty\<close>, is opened by the driver of \<^verbatim>\<open>/krn/virt/\<close>: a mount point is
  taken to match every path shorter than itself.\<close>

theorem fs_short_paths_go_to_krn_virt:
  assumes "fd_table al s M" and "card (dom M) < 2 ^ 26" and "latestFd s \<noteq> - 1"
    and "mountpoints s = mpCandidates ext2 dev fat32 boot virtKrn"
    and "path_ok fp" and "hd fp = 47" and "length (cstr fp) < 10"
    and "drv_open virtKrn (devices s) fp = Inr (f, w)"
  shows "\<exists>s'. fs_open al s fp = Inr (if f_exists f then latestFd s else 0, s') \<and> devices s' = w \<and>
    fd_table al s' (M(latestFd s \<mapsto> (f, virtKrn)))"
proof -
  let ?v = "(bytes ''/krn/virt/'' @ [0], virtKrn)" and
    ?ms = "[(bytes ''/'' @ [0], ext2), (bytes ''/dev/'' @ [0], dev), (bytes ''/'' @ [0], fat32), (bytes ''/boot/'' @ [0], boot)]"
  have "mp_matches (fst ?v) fp"
    using assms(7) by (simp add: mp_matches_def)
  moreover have "\<forall>m\<in>set ?ms. nestage (fst m) \<le> nestage (fst ?v)"
    by (simp add: nestage_def)
  ultimately have "chosen fp (mountpoints s) ?v"
    unfolding chosen_def assms(4) candidates_for_def mpCandidates_def
    by (intro exI [of _ "filter (\<lambda>m. mp_matches (fst m) fp) ?ms"] exI [of _ "[]"]) auto
  moreover have "mounts_ok (mountpoints s)"
    by (simp add: standard_mounts assms(4))
  ultimately show ?thesis
    using fs_open_eq [OF assms(1-3) _ assms(5,6), of ?v f w] assms(8) by auto
qed

section \<open>A file system\<close>

text \<open>The volume of \<open>demo_disk\<close>, mounted as the root directory.\<close>

abbreviation demo_driver :: "(fat32, fatdata option) fsdriver" where
  "demo_driver \<equiv> fat_driver 2 demo_alloc demo_disk"

definition demo_fs :: "(fat32, fatdata option) mount list \<Rightarrow> (fat32, fatdata option) fsys" where
  "demo_fs mps = \<lparr>mountpoints = mps, latestFd = 1, fdMapping = kvec_new (\<lambda>_. True) SIZEOF_FDENTRY, devices = demo_vol\<rparr>"

lemma demo_fs_table: "fd_table (\<lambda>_. True) (demo_fs mps) Map.empty"
proof -
  have "kvec_is 20 (kvec_new (\<lambda>_. True) 20) ([] :: (u32 \<times> fatdata option fsfile \<times> (fat32, fatdata option) fsdriver) list)"
    by (rule kvec_new_is) simp_all
  then show ?thesis
    by (auto simp: fd_table_def demo_fs_def kmap_is_def kernel_array_def SIZEOF_FDENTRY_def intro!: exI [of _ "[]"])
qed

lemma demo_mounts:
  "mounts_ok [(bytes ''/'' @ [0], demo_driver)]" "path_ok (bytes ''/a.txt'' @ [0])"
  "chosen (bytes ''/a.txt'' @ [0]) [(bytes ''/'' @ [0], demo_driver)] (bytes ''/'' @ [0], demo_driver)"
  by (simp_all add: mounts_ok_def mount_ok_def path_ok_def nestage_def)
    (rule chosen_hd, simp_all add: candidates_for_def mp_matches_def)

lemma demo_dirs: "dirs_ok demo_disk demo_vol 2 (\<lambda>c. [c]) 2 [(bytes ''a'', bytes ''txt'')]"
  using demo_path(2) by (simp add: demo_entry_fields split: option.split)

lemma demo_driver_open:
  "drv_open demo_driver demo_vol (bytes ''/a.txt'' @ [0]) = Inr (entry_file demo_entry, demo_vol)"
  using fat_open_eq [OF demo_volume _ demo_path(1), of 2 "\<lambda>c. [c]"] demo_dirs demo_path(3)
  unfolding demo_path(4) by (simp add: demo_root file_of_def fat_driver_def entry_file_def)

theorem fs_open_asks_deepest_mount_witness:
  "\<exists>s'. fs_open (\<lambda>_. True) (demo_fs [(bytes ''/'' @ [0], demo_driver)]) (bytes ''/a.txt'' @ [0]) = Inr (1, s')"
  using fs_open_asks_deepest_mount [OF demo_fs_table, of "[(bytes ''/'' @ [0], demo_driver)]" "bytes ''/a.txt'' @ [0]"
      "(bytes ''/'' @ [0], demo_driver)" "entry_file demo_entry" demo_vol] demo_mounts demo_driver_open
  by (auto simp: demo_fs_def entry_file_def)

theorem fs_unknown_descriptor_witness:
  "fs_read (demo_fs [(bytes ''/'' @ [0], demo_driver)]) 7 100 = Inl (Panic ''Called val() on an err value'')"
  using fs_unknown_descriptor [OF demo_fs_table, of 7 "[(bytes ''/'' @ [0], demo_driver)]" 100] by simp

theorem fs_open_unmatched_hangs_witness:
  "fs_open (\<lambda>_. True) (demo_fs [(bytes ''/dev/'' @ [0], demo_driver)]) (bytes ''/boot/a'' @ [0]) = Inl Hang"
  by (rule fs_open_unmatched_hangs)
    (simp_all add: demo_fs_def mount_ok_def path_ok_def candidates_for_def mp_matches_def)

theorem fs_reads_fat_file_witness:
  "\<exists>s'. fs_open (\<lambda>_. True) (demo_fs [(bytes ''/'' @ [0], demo_driver)]) (bytes ''/a.txt'' @ [0]) = Inr (1, s') \<and>
     fs_read s' 1 1000 = Inr (Sucess, replicate 512 65 @ replicate 88 66, s')"
proof -
  let ?s = "demo_fs [(bytes ''/'' @ [0], demo_driver)]"
  have f: "latestFd ?s = 1" "devices ?s = demo_vol" "mountpoints ?s = [(bytes ''/'' @ [0], demo_driver)]"
    by (simp_all add: demo_fs_def)
  have "fat_chain demo_disk demo_vol [3, 4]"
    by (simp add: demo_next)
  then show ?thesis
    using fs_reads_fat_file [OF demo_fs_table, of "[(bytes ''/'' @ [0], demo_driver)]" "[(bytes ''a'', bytes ''txt'')]"
        "bytes ''/'' @ [0]" 2 demo_alloc demo_disk "\<lambda>c. [c]" demo_entry "[4]" 1000]
      demo_mounts demo_volume demo_path demo_dirs
    unfolding f demo_path(4) demo_root
    by (simp add: demo_entry_fields chain_bytes_def demo_clusters)
qed

definition demo_krn :: "(fat32, fatdata option) fsdriver" where
  "demo_krn = demo_driver\<lparr>drv_open := (\<lambda>w fp. Inr (\<lparr>f_fsData = None, f_size = 0, f_exists = False\<rparr>, w))\<rparr>"

theorem fs_short_paths_go_to_krn_virt_witness:
  "\<exists>s'. fs_open (\<lambda>_. True) (demo_fs (mpCandidates demo_driver demo_driver demo_driver demo_driver demo_krn))
     (bytes ''/a.txt'' @ [0]) = Inr (0, s')"
  using fs_short_paths_go_to_krn_virt [OF demo_fs_table, of
      "mpCandidates demo_driver demo_driver demo_driver demo_driver demo_krn" demo_driver demo_driver demo_driver
      demo_driver demo_krn "bytes ''/a.txt'' @ [0]" "\<lparr>f_fsData = None, f_size = 0, f_exists = False\<rparr>" demo_vol]
    demo_mounts(2)
  by (auto simp: demo_fs_def demo_krn_def)

end
