(* ===== verification/Terminal.thy ===== *)
theory Terminal
  imports Stdio "HOL-Library.Signed_Division"
begin

text \<open>
  The framebuffer (\<^verbatim>\<open>src/vis/vis.hpp\<close>), the font (\<^verbatim>\<open>src/terminal/font.hpp\<close>) and the
  text terminal of the kernel (\<^verbatim>\<open>src/terminal/terminal.hpp\<close>). The framebuffer is the function
  from the index of a pixel to its colour; coordinates are 32-bit words and wrap around. The log
  line of a pixel outside the screen is left out.
\<close>

section \<open>The framebuffer\<close>

record screen =
  fbPitch :: u32
  fbWidth :: u32
  fbHeight :: u32
  pixels :: "u32 \<Rightarrow> u32"
  terminalX :: u32
  terminalY :: u32
  terminalColor :: u8
  enabled :: bool

text \<open>
  The search for the framebuffer among the tags of the boot information; \<open>m\<close> is the memory behind
  its address. The fuel bounds the number of tags: a tag of size zero makes the loop stand still.
\<close>

fun vis_find :: "nat \<Rightarrow> u8 list \<Rightarrow> u32 \<Rightarrow> (u32 \<times> u32 \<times> u32) exec" where
  "vis_find 0 m tag = Inl Hang"
| "vis_find (Suc k) m tag =
     bindE (rd32 m tag) (\<lambda>type.
     if type = 0 then Inl Hang
     else if type = 8 then
       bindE (rd32 m (tag + 16)) (\<lambda>pitch. bindE (rd32 m (tag + 20)) (\<lambda>width. bindE (rd32 m (tag + 24)) (\<lambda>height.
       Inr (pitch, width, height))))
     else bindE (rd32 m (tag + 4)) (\<lambda>sz. vis_find k m (tag + ((sz + 7) AND NOT 7))))"

definition vis_init :: "nat \<Rightarrow> u8 list \<Rightarrow> screen \<Rightarrow> screen exec" where
  "vis_init k m s =
     bindE (vis_find k m 8) (\<lambda>(pitch, width, height). Inr (s\<lparr>fbPitch := pitch, fbWidth := width, fbHeight := height\<rparr>))"

definition putPixel :: "u32 \<Rightarrow> u32 \<Rightarrow> u32 \<Rightarrow> screen \<Rightarrow> screen" where
  "putPixel argb x y s =
     (if x \<ge> fbWidth s \<or> y \<ge> fbHeight s then s
      else s\<lparr>pixels := (pixels s)(y * (fbPitch s div 4) + x := argb)\<rparr>)"

definition fill_row :: "u32 \<Rightarrow> nat \<Rightarrow> screen \<Rightarrow> screen" where
  "fill_row argb y s = fold (\<lambda>x. putPixel argb (word_of_nat x) (word_of_nat y)) [0..<unat (fbWidth s)] s"

definition fillScreen :: "u32 \<Rightarrow> screen \<Rightarrow> screen" where
  "fillScreen argb s = fold (fill_row argb) [0..<unat (fbHeight s)] s"

definition getFbSizeBytes :: "screen \<Rightarrow> u32" where
  "getFbSizeBytes s = fbPitch s * fbHeight s"

section \<open>The font\<close>

definition font8x8_basic :: "u8 list list" where
  "font8x8_basic = [
    [0, 0, 0, 0, 0, 0, 0, 0],
    [0, 0, 0, 0, 0, 0, 0, 0],
    [0, 0, 0, 0, 0, 0, 0, 0],
    [0, 0, 0, 0, 0, 0, 0, 0],
    [0, 0, 0, 0, 0, 0, 0, 0],
    [0, 0, 0, 0, 0, 0, 0, 0],
    [0, 0, 0, 0, 0, 0, 0, 0],
    [0, 0, 0, 0, 0, 0, 0, 0],
    [0, 0, 0, 0, 0, 0, 0, 0],
    [0, 0, 0, 0, 0, 0, 0, 0],
    [0, 0, 0, 0, 0, 0, 0, 0],
    [0, 0, 0, 0, 0, 0, 0, 0],
    [0, 0, 0, 0, 0, 0, 0, 0],
    [0, 0, 0, 0, 0, 0, 0, 0],
    [0, 0, 0, 0, 0, 0, 0, 0],
    [0, 0, 0, 0, 0, 0, 0, 0],
    [0, 0, 0, 0, 0, 0, 0, 0],
    [0, 0, 0, 0, 0, 0, 0, 0],
    [0, 0, 0, 0, 0, 0, 0, 0],
    [0, 0, 0, 0, 0, 0, 0, 0],
    [0, 0, 0, 0, 0, 0, 0, 0],
    [0, 0, 0, 0, 0, 0, 0, 0],
    [0, 0, 0, 0, 0, 0, 0, 0],
    [0, 0, 0, 0, 0, 0, 0, 0],
    [0, 0, 0, 0, 0, 0, 0, 0],
    [0, 0, 0, 0, 0, 0, 0, 0],
    [0, 0, 0, 0, 0, 0, 0, 0],
    [0, 0, 0, 0, 0, 0, 0, 0],
    [0, 0, 0, 0, 0, 0, 0, 0],
    [0, 0, 0, 0, 0, 0, 0, 0],
    [0, 0, 0, 0, 0, 0, 0, 0],
    [0, 0, 0, 0, 0, 0, 0, 0],
    [0, 0, 0, 0, 0, 0, 0, 0],
    [0x18, 0x3C, 0x3C, 0x18, 0x18, 0, 0x18, 0],
    [0x36, 0x36, 0, 0, 0, 0, 0, 0],
    [0x36, 0x36, 0x7F, 0x36, 0x7F, 0x36, 0x36, 0],
    [0x0C, 0x3E, 0x03, 0x1E, 0x30, 0x1F, 0x0C, 0],
    [0, 0x63, 0x33, 0x18, 0x0C, 0x66, 0x63, 0],
    [0x1C, 0x36, 0x1C, 0x6E, 0x3B, 0x33, 0x6E, 0],
    [0x06, 0x06, 0x03, 0, 0, 0, 0, 0],
    [0x18, 0x0C, 0x06, 0x06, 0x06, 0x0C, 0x18, 0],
    [0x06, 0x0C, 0x18, 0x18, 0x18, 0x0C, 0x06, 0],
    [0, 0x66, 0x3C, 0xFF, 0x3C, 0x66, 0, 0],
    [0, 0x0C, 0x0C, 0x3F, 0x0C, 0x0C, 0, 0],
    [0, 0, 0, 0, 0, 0x0C, 0x0C, 0x06],
    [0, 0, 0, 0x3F, 0, 0, 0, 0],
    [0, 0, 0, 0, 0, 0x0C, 0x0C, 0],
    [0x60, 0x30, 0x18, 0x0C, 0x06, 0x03, 0x01, 0],
    [0x3E, 0x63, 0x73, 0x7B, 0x6F, 0x67, 0x3E, 0],
    [0x0C, 0x0E, 0x0C, 0x0C, 0x0C, 0x0C, 0x3F, 0],
    [0x1E, 0x33, 0x30, 0x1C, 0x06, 0x33, 0x3F, 0],
    [0x1E, 0x33, 0x30, 0x1C, 0x30, 0x33, 0x1E, 0],
    [0x38, 0x3C, 0x36, 0x33, 0x7F, 0x30, 0x78, 0],
    [0x3F, 0x03, 0x1F, 0x30, 0x30, 0x33, 0x1E, 0],
    [0x1C, 0x06, 0x03, 0x1F, 0x33, 0x33, 0x1E, 0],
    [0x3F, 0x33, 0x30, 0x18, 0x0C, 0x0C, 0x0C, 0],
    [0x1E, 0x33, 0x33, 0x1E, 0x33, 0x33, 0x1E, 0],
    [0x1E, 0x33, 0x33, 0x3E, 0x30, 0x18, 0x0E, 0],
    [0, 0x0C, 0x0C, 0, 0, 0x0C, 0x0C, 0],
    [0, 0x0C, 0x0C, 0, 0, 0x0C, 0x0C, 0x06],
    [0x18, 0x0C, 0x06, 0x03, 0x06, 0x0C, 0x18, 0],
    [0, 0, 0x3F, 0, 0, 0x3F, 0, 0],
    [0x06, 0x0C, 0x18, 0x30, 0x18, 0x0C, 0x06, 0],
    [0x1E, 0x33, 0x30, 0x18, 0x0C, 0, 0x0C, 0],
    [0x3E, 0x63, 0x7B, 0x7B, 0x7B, 0x03, 0x1E, 0],
    [0x0C, 0x1E, 0x33, 0x33, 0x3F, 0x33, 0x33, 0],
    [0x3F, 0x66, 0x66, 0x3E, 0x66, 0x66, 0x3F, 0],
    [0x3C, 0x66, 0x03, 0x03, 0x03, 0x66, 0x3C, 0],
    [0x1F, 0x36, 0x66, 0x66, 0x66, 0x36, 0x1F, 0],
    [0x7F, 0x46, 0x16, 0x1E, 0x16, 0x46, 0x7F, 0],
    [0x7F, 0x46, 0x16, 0x1E, 0x16, 0x06, 0x0F, 0],
    [0x3C, 0x66, 0x03, 0x03, 0x73, 0x66, 0x7C, 0],
    [0x33, 0x33, 0x33, 0x3F, 0x33, 0x33, 0x33, 0],
    [0x1E, 0x0C, 0x0C, 0x0C, 0x0C, 0x0C, 0x1E, 0],
    [0x78, 0x30, 0x30, 0x30, 0x33, 0x33, 0x1E, 0],
    [0x67, 0x66, 0x36, 0x1E, 0x36, 0x66, 0x67, 0],
    [0x0F, 0x06, 0x06, 0x06, 0x46, 0x66, 0x7F, 0],
    [0x63, 0x77, 0x7F, 0x7F, 0x6B, 0x63, 0x63, 0],
    [0x63, 0x67, 0x6F, 0x7B, 0x73, 0x63, 0x63, 0],
    [0x1C, 0x36, 0x63, 0x63, 0x63, 0x36, 0x1C, 0],
    [0x3F, 0x66, 0x66, 0x3E, 0x06, 0x06, 0x0F, 0],
    [0x1E, 0x33, 0x33, 0x33, 0x3B, 0x1E, 0x38, 0],
    [0x3F, 0x66, 0x66, 0x3E, 0x36, 0x66, 0x67, 0],
    [0x1E, 0x33, 0x07, 0x0E, 0x38, 0x33, 0x1E, 0],
    [0x3F, 0x2D, 0x0C, 0x0C, 0x0C, 0x0C, 0x1E, 0],
    [0x33, 0x33, 0x33, 0x33, 0x33, 0x33, 0x3F, 0],
    [0x33, 0x33, 0x33, 0x33, 0x33, 0x1E, 0x0C, 0],
    [0x63, 0x63, 0x63, 0x6B, 0x7F, 0x77, 0x63, 0],
    [0x63, 0x63, 0x36, 0x1C, 0x1C, 0x36, 0x63, 0],
    [0x33, 0x33, 0x33, 0x1E, 0x0C, 0x0C, 0x1E, 0],
    [0x7F, 0x63, 0x31, 0x18, 0x4C, 0x66, 0x7F, 0],
    [0x1E, 0x06, 0x06, 0x06, 0x06, 0x06, 0x1E, 0],
    [0x03, 0x06, 0x0C, 0x18, 0x30, 0x60, 0x40, 0],
    [0x1E, 0x18, 0x18, 0x18, 0x18, 0x18, 0x1E, 0],
    [0x08, 0x1C, 0x36, 0x63, 0, 0, 0, 0],
    [0, 0, 0, 0, 0, 0, 0, 0xFF],
    [0x0C, 0x0C, 0x18, 0, 0, 0, 0, 0],
    [0, 0, 0x1E, 0x30, 0x3E, 0x33, 0x6E, 0],
    [0x07, 0x06, 0x06, 0x3E, 0x66, 0x66, 0x3B, 0],
    [0, 0, 0x1E, 0x33, 0x03, 0x33, 0x1E, 0],
    [0x38, 0x30, 0x30, 0x3e, 0x33, 0x33, 0x6E, 0],
    [0, 0, 0x1E, 0x33, 0x3f, 0x03, 0x1E, 0],
    [0x1C, 0x36, 0x06, 0x0f, 0x06, 0x06, 0x0F, 0],
    [0, 0, 0x6E, 0x33, 0x33, 0x3E, 0x30, 0x1F],
    [0x07, 0x06, 0x36, 0x6E, 0x66, 0x66, 0x67, 0],
    [0x0C, 0, 0x0E, 0x0C, 0x0C, 0x0C, 0x1E, 0],
    [0x30, 0, 0x30, 0x30, 0x30, 0x33, 0x33, 0x1E],
    [0x07, 0x06, 0x66, 0x36, 0x1E, 0x36, 0x67, 0],
    [0x0E, 0x0C, 0x0C, 0x0C, 0x0C, 0x0C, 0x1E, 0],
    [0, 0, 0x33, 0x7F, 0x7F, 0x6B, 0x63, 0],
    [0, 0, 0x1F, 0x33, 0x33, 0x33, 0x33, 0],
    [0, 0, 0x1E, 0x33, 0x33, 0x33, 0x1E, 0],
    [0, 0, 0x3B, 0x66, 0x66, 0x3E, 0x06, 0x0F],
    [0, 0, 0x6E, 0x33, 0x33, 0x3E, 0x30, 0x78],
    [0, 0, 0x3B, 0x6E, 0x66, 0x06, 0x0F, 0],
    [0, 0, 0x3E, 0x03, 0x1E, 0x30, 0x1F, 0],
    [0x08, 0x0C, 0x3E, 0x0C, 0x0C, 0x2C, 0x18, 0],
    [0, 0, 0x33, 0x33, 0x33, 0x33, 0x6E, 0],
    [0, 0, 0x33, 0x33, 0x33, 0x1E, 0x0C, 0],
    [0, 0, 0x63, 0x6B, 0x7F, 0x7F, 0x36, 0],
    [0, 0, 0x63, 0x36, 0x1C, 0x36, 0x63, 0],
    [0, 0, 0x33, 0x33, 0x33, 0x3E, 0x30, 0x1F],
    [0, 0, 0x3F, 0x19, 0x0C, 0x26, 0x3F, 0],
    [0x38, 0x0C, 0x0C, 0x07, 0x0C, 0x0C, 0x38, 0],
    [0x18, 0x18, 0x18, 0, 0x18, 0x18, 0x18, 0],
    [0x07, 0x0C, 0x0C, 0x38, 0x0C, 0x0C, 0x07, 0],
    [0x6E, 0x3B, 0, 0, 0, 0, 0, 0],
    [0, 0, 0, 0, 0, 0, 0, 0]]"

section \<open>The terminal\<close>

definition vgaEntryColor :: "u8 \<Rightarrow> u8 \<Rightarrow> u8" where
  "vgaEntryColor fg bg = fg OR push_bit 4 bg"

definition vgaEntry :: "u8 \<Rightarrow> u8 \<Rightarrow> u16" where
  "vgaEntry uc color = ucast uc OR push_bit 8 (ucast color)"

definition colorToRgb :: "u8 \<Rightarrow> u32" where
  "colorToRgb color =
     [0x00000000, 0x000000AA, 0x0000AA00, 0x0000AAAA, 0x00AA0000, 0x00AA00AA, 0x00AA5500, 0x00AAAAAA,
      0x00555555, 0x005555FF, 0x0055FF55, 0x0055FFFF, 0x00FF5555, 0x00FF55FF, 0x00FFFF55, 0x00FFFFFF]
     ! unat (color AND 0x0F)"

definition BACKGROUND :: u32 where "BACKGROUND = 0x00101010"

definition term_clear :: "screen \<Rightarrow> screen" where
  "term_clear s = fillScreen BACKGROUND (s\<lparr>terminalX := 0, terminalY := 0\<rparr>)"

definition term_init :: "screen \<Rightarrow> screen" where
  "term_init s = (fillScreen BACKGROUND s)\<lparr>terminalX := 0, terminalY := 0, terminalColor := vgaEntryColor 7 0, enabled := True\<rparr>"

definition term_setColor :: "u8 \<Rightarrow> screen \<Rightarrow> screen" where
  "term_setColor color s = s\<lparr>terminalColor := color\<rparr>"

text \<open>A set bit of a row of the glyph is four pixels.\<close>

definition glyph_bit :: "u32 \<Rightarrow> u8 list \<Rightarrow> nat \<Rightarrow> nat \<Rightarrow> screen \<Rightarrow> screen" where
  "glyph_bit fg glyph x y s =
     (if bit (glyph ! y) x
      then (let px = terminalX s + word_of_nat x * 2; py = terminalY s + word_of_nat y * 2 in
        putPixel fg (px + 1) (py + 1) (putPixel fg px (py + 1) (putPixel fg (px + 1) py (putPixel fg px py s))))
      else s)"

definition draw_glyph :: "u32 \<Rightarrow> u8 list \<Rightarrow> screen \<Rightarrow> screen" where
  "draw_glyph fg glyph s = fold (\<lambda>x. fold (\<lambda>y. glyph_bit fg glyph x y) [0..<8]) [0..<8] s"

definition clear_cell :: "screen \<Rightarrow> screen" where
  "clear_cell s =
     fold (\<lambda>x. fold (\<lambda>y s. putPixel BACKGROUND (terminalX s + word_of_nat x) (terminalY s + word_of_nat y) s) [0..<16])
       [0..<16] s"

definition cursor_back :: "screen \<Rightarrow> screen" where
  "cursor_back s =
     (if terminalX s \<ge> 16 then s\<lparr>terminalX := terminalX s - 16\<rparr>
      else if terminalY s \<ge> 16 then s\<lparr>terminalY := terminalY s - 16, terminalX := fbWidth s - 16\<rparr>
      else s)"

definition wrap_line :: "screen \<Rightarrow> screen" where
  "wrap_line s = (if terminalX s + 16 > fbWidth s then s\<lparr>terminalX := 0, terminalY := terminalY s + 16\<rparr> else s)"

definition wrap_screen :: "screen \<Rightarrow> screen" where
  "wrap_screen s =
     (if terminalY s + 16 > fbHeight s then (term_clear s)\<lparr>terminalX := 0, terminalY := 0\<rparr> else s)"

definition putChar :: "u8 \<Rightarrow> screen \<Rightarrow> screen exec" where
  "putChar c s =
     (if \<not> enabled s then Inr s
      else if c = 8 then Inr (clear_cell (cursor_back s))
      else if c = 10 then Inr (s\<lparr>terminalX := 0, terminalY := terminalY s + 16\<rparr>)
      else (let s1 = wrap_screen (wrap_line s) in
        if unat c \<ge> length font8x8_basic then Inl OutOfBounds
        else let s2 = draw_glyph (colorToRgb (terminalColor s1)) (font8x8_basic ! unat c) s1
             in Inr (s2\<lparr>terminalX := terminalX s2 + 16\<rparr>)))"

section \<open>Text\<close>

fun term_chars :: "u8 list \<Rightarrow> screen \<Rightarrow> screen exec" where
  "term_chars [] s = Inr s"
| "term_chars (c # cs) s = bindE (putChar c s) (term_chars cs)"

definition term_write :: "u8 list \<Rightarrow> nat \<Rightarrow> screen \<Rightarrow> screen exec" where
  "term_write t len s = (if len \<le> length t then term_chars (take len t) s else Inl OutOfBounds)"

definition term_writeStr :: "u8 list \<Rightarrow> screen \<Rightarrow> screen exec" where
  "term_writeStr t s = bindE (strlen t) (\<lambda>n. term_write t (unat n) s)"

lemma sint_word_of_int32: "-2147483648 \<le> i \<Longrightarrow> i < 2147483648 \<Longrightarrow> sint (word_of_int i :: u32) = i"
  unfolding sint_sbintrunc' by (intro signed_take_bit_int_eq_self) simp_all

lemma sint_range32: "-2147483648 \<le> sint (n :: u32)" "sint (n :: u32) < 2147483648"
  using sint_ge [of n] sint_less [of n] by simp_all

lemma sint_eqD: "sint (n :: u32) = i \<Longrightarrow> n = word_of_int i"
  by (drule sym) simp

lemma sint_uminus32: "sint (- n :: u32) = (if sint n = -2147483648 then -2147483648 else - sint n)"
proof (cases "sint n = -2147483648")
  case True
  note sint_eqD [OF True]
  then show ?thesis
    using True by simp
next
  case False
  have "- n = word_of_int (- sint n)"
    by simp
  then show ?thesis
    using sint_word_of_int32 [of "- sint n"] sint_range32 [of n] False by simp
qed

text \<open>The characters \<^verbatim>\<open>printi\<close> and \<^verbatim>\<open>printu\<close> put out, by recursion on the number.\<close>

function printi_chars :: "u32 \<Rightarrow> u8 list" where
  "printi_chars n =
     (let m = if sint n < 0 then - n else n in
      (if sint n < 0 then [45] else []) @
      (if sint m sdiv 10 \<noteq> 0 then printi_chars (word_of_int (sint m sdiv 10)) else []) @
      [word_of_int (sint m smod 10) + 48])"
  by pat_completeness auto
termination
proof (relation "measure (\<lambda>n. nat \<bar>sint n\<bar>)")
  fix n m :: u32
  assume m: "m = (if sint n < 0 then - n else n)" and d: "sint m sdiv 10 \<noteq> 0"
  have abs: "\<bar>sint m\<bar> = \<bar>sint n\<bar>"
    using m by (simp add: sint_uminus32)
  have q: "\<bar>sint m sdiv 10\<bar> = \<bar>sint m\<bar> div 10"
    by (simp add: signed_divide_int_def abs_mult abs_sgn_eq) (auto simp: zdiv_int)
  moreover have "\<bar>sint m\<bar> \<le> 2147483648"
    using sint_range32 [of m] by (simp add: abs_le_iff)
  ultimately have "sint (word_of_int (sint m sdiv 10) :: u32) = sint m sdiv 10"
    by (intro sint_word_of_int32) linarith+
  then show "(word_of_int (sint m sdiv 10), n) \<in> measure (\<lambda>n. nat \<bar>sint n\<bar>)"
    using q abs d by simp linarith
qed simp

declare printi_chars.simps [simp del]

fun printu_chars :: "nat \<Rightarrow> u8 list" where
  "printu_chars n = (if n \<ge> 10 then printu_chars (n div 10) else []) @ [48 + word_of_nat (n mod 10)]"

declare printu_chars.simps [simp del]

definition hex_char :: "u32 \<Rightarrow> u8" where
  "hex_char d = bytes ''0123456789ABCDEF'' ! unat d"

text \<open>The eight digits, from the highest on.\<close>

definition printHex_chars :: "u32 \<Rightarrow> u8 list" where
  "printHex_chars n = bytes ''0x'' @ List.map (\<lambda>i. hex_char (drop_bit i n AND 0x0F)) [28, 24, 20, 16, 12, 8, 4, 0]"

definition term_directive :: "u8 \<Rightarrow> farg list \<Rightarrow> screen \<Rightarrow> (farg list \<times> screen) exec" where
  "term_directive d args s =
     (if d = 37 then bindE (putChar 37 s) (\<lambda>s'. Inr (args, s'))
      else if d \<in> {115, 120, 99, 105, 112, 117, 98} then
        (case args of
           [] \<Rightarrow> Inl OutOfBounds
         | a # as \<Rightarrow>
             bindE (case a of
                 AStr t \<Rightarrow> if d = 115 then term_writeStr t s else Inl OutOfBounds
               | AInt v \<Rightarrow>
                   if d = 120 \<or> d = 112 then term_chars (printHex_chars v) s
                   else if d = 99 then putChar (ucast v) s
                   else if d = 105 then term_chars (printi_chars v) s
                   else if d = 117 then term_chars (printu_chars (unat v)) s
                   else if d = 98 then term_writeStr (if v \<noteq> 0 then bytes ''true'' @ [0] else bytes ''false'' @ [0]) s
                   else Inl OutOfBounds)
               (\<lambda>s'. Inr (as, s')))
      else Inr (args, s))"

text \<open>The character behind a percent sign is skipped even if it is the terminator.\<close>

fun printf_vaArgs :: "u8 list \<Rightarrow> farg list \<Rightarrow> screen \<Rightarrow> screen exec" where
  "printf_vaArgs [] args s = Inl OutOfBounds"
| "printf_vaArgs [c] args s = (if c = 0 then Inr s else if c = 37 then Inl OutOfBounds else
     bindE (putChar c s) (\<lambda>_. Inl OutOfBounds))"
| "printf_vaArgs (c # d # fmt) args s =
     (if c = 0 then Inr s
      else if c = 37 then bindE (term_directive d args s) (\<lambda>(args', s'). printf_vaArgs fmt args' s')
      else bindE (putChar c s) (\<lambda>s'. printf_vaArgs (d # fmt) args s'))"

definition term_printf :: "u8 list \<Rightarrow> farg list \<Rightarrow> screen \<Rightarrow> screen exec" where
  "term_printf fmt args s = printf_vaArgs fmt args s"

definition term_printfColor :: "u8 list \<Rightarrow> u32 \<Rightarrow> farg list \<Rightarrow> screen \<Rightarrow> screen exec" where
  "term_printfColor fmt color args s =
     bindE (printf_vaArgs fmt args (term_setColor (ucast color) s)) (\<lambda>s'. Inr (term_setColor (terminalColor s) s'))"

section \<open>Painting\<close>

text \<open>
  A screen whose rows do not overlap in the framebuffer, and the colour at a place on it.
\<close>

definition fb_ok :: "screen \<Rightarrow> bool" where
  "fb_ok s \<longleftrightarrow> unat (fbWidth s) \<le> unat (fbPitch s div 4) \<and> unat (fbHeight s) * unat (fbPitch s div 4) \<le> 2 ^ 30"

definition pixel_at :: "screen \<Rightarrow> u32 \<Rightarrow> u32 \<Rightarrow> u32" where
  "pixel_at s x y = pixels s (y * (fbPitch s div 4) + x)"

definition on_screen :: "screen \<Rightarrow> u32 \<times> u32 \<Rightarrow> bool" where
  "on_screen s p \<longleftrightarrow> fst p < fbWidth s \<and> snd p < fbHeight s"

definition paint :: "u32 \<Rightarrow> (u32 \<times> u32) list \<Rightarrow> screen \<Rightarrow> screen" where
  "paint c ps s = fold (\<lambda>p. putPixel c (fst p) (snd p)) ps s"

named_theorems geometry "what painting leaves alone"

lemma putPixel_geometry [geometry]:
  "fbPitch (putPixel c x y s) = fbPitch s" "fbWidth (putPixel c x y s) = fbWidth s"
  "fbHeight (putPixel c x y s) = fbHeight s" "terminalX (putPixel c x y s) = terminalX s"
  "terminalY (putPixel c x y s) = terminalY s" "terminalColor (putPixel c x y s) = terminalColor s"
  "enabled (putPixel c x y s) = enabled s"
  by (simp_all add: putPixel_def)

lemma paint_Nil [simp]: "paint c [] s = s"
  by (simp add: paint_def)

lemma paint_Cons [simp]: "paint c (p # ps) s = paint c ps (putPixel c (fst p) (snd p) s)"
  by (simp add: paint_def)

lemma paint_append: "paint c (ps @ qs) s = paint c qs (paint c ps s)"
  by (simp add: paint_def)

lemma paint_geometry [geometry]:
  "fbPitch (paint c ps s) = fbPitch s" "fbWidth (paint c ps s) = fbWidth s"
  "fbHeight (paint c ps s) = fbHeight s" "terminalX (paint c ps s) = terminalX s"
  "terminalY (paint c ps s) = terminalY s" "terminalColor (paint c ps s) = terminalColor s"
  "enabled (paint c ps s) = enabled s"
  by (induction ps arbitrary: s) (simp_all add: geometry)

lemma index_inj:
  assumes "fb_ok s" and "on_screen s (x, y)" and "on_screen s (x', y')"
    and "y * (fbPitch s div 4) + x = y' * (fbPitch s div 4) + x'"
  shows "x = x' \<and> y = y'"
proof -
  let ?q = "unat (fbPitch s div 4)"
  have idx: "unat (b * (fbPitch s div 4) + a) = unat b * ?q + unat a" "unat a < ?q"
    if "on_screen s (a, b)" for a b
  proof -
    have a: "unat a < ?q" and b: "unat b < unat (fbHeight s)"
      using that assms(1) by (simp_all add: on_screen_def fb_ok_def word_less_nat_alt)
    then show "unat a < ?q"
      by simp
    have "unat b * ?q + unat a < unat b * ?q + ?q"
      using a by simp
    also have "\<dots> = Suc (unat b) * ?q"
      by simp
    also have "\<dots> \<le> unat (fbHeight s) * ?q"
      using b by (intro mult_le_mono1) simp
    also have "\<dots> \<le> 2 ^ 32"
      using assms(1) by (simp add: fb_ok_def)
    finally have "unat b * ?q + unat a < 2 ^ 32" .
    then show "unat (b * (fbPitch s div 4) + a) = unat b * ?q + unat a"
      by (simp add: unat_word_ariths)
  qed
  have eq: "unat y * ?q + unat x = unat y' * ?q + unat x'"
    using idx(1) [OF assms(2)] idx(1) [OF assms(3)] assms(4) by simp
  then have "(unat y * ?q + unat x) div ?q = (unat y' * ?q + unat x') div ?q"
    by simp
  then have "unat y = unat y'"
    using idx(2) [OF assms(2)] idx(2) [OF assms(3)] by simp
  with eq show ?thesis
    by (simp add: word_unat_eq_iff)
qed

lemma pixel_at_putPixel:
  assumes "fb_ok s" and "on_screen s (x, y)"
  shows "pixel_at (putPixel c a b s) x y = (if (a, b) = (x, y) then c else pixel_at s x y)"
proof (cases "on_screen s (a, b)")
  case True
  define i where "i = (\<lambda>x y. y * (fbPitch s div 4) + x)"
  have "i x y = i a b \<longleftrightarrow> (a, b) = (x, y)"
    unfolding i_def using index_inj [OF assms True] by blast
  moreover have "putPixel c a b s = s\<lparr>pixels := (pixels s)(i a b := c)\<rparr>"
    using True by (auto simp: putPixel_def on_screen_def i_def)
  moreover have "pixel_at t x y = pixels t (i x y)" if "fbPitch t = fbPitch s" for t
    by (simp add: pixel_at_def i_def that)
  ultimately show ?thesis
    by simp
next
  case False
  then show ?thesis
    using assms(2) by (auto simp: pixel_at_def putPixel_def on_screen_def not_less)
qed

lemma pixel_at_paint:
  assumes "fb_ok s" and "on_screen s (x, y)"
  shows "pixel_at (paint c ps s) x y = (if (x, y) \<in> set ps then c else pixel_at s x y)"
  using assms
proof (induction ps arbitrary: s)
  case (Cons p ps)
  have "fb_ok (putPixel c (fst p) (snd p) s)" "on_screen (putPixel c (fst p) (snd p) s) (x, y)"
    using Cons.prems by (simp_all add: fb_ok_def on_screen_def geometry)
  then show ?case
    using Cons.IH pixel_at_putPixel [OF Cons.prems, of c "fst p" "snd p"] by auto
qed simp

text \<open>What the drawing loops paint.\<close>

lemma fold_paint:
  assumes "\<And>x s. f x s = paint c (g x) s"
  shows "fold f xs s = paint c (concat (List.map g xs)) s"
  using assms by (induction xs arbitrary: s) (simp_all add: paint_append)

definition screen_points :: "screen \<Rightarrow> (u32 \<times> u32) list" where
  "screen_points s = concat (List.map (\<lambda>y. List.map (\<lambda>x. (word_of_nat x, word_of_nat y)) [0..<unat (fbWidth s)])
     [0..<unat (fbHeight s)])"

lemma fillScreen_paint: "fillScreen c s = paint c (screen_points s) s"
proof -
  have row: "fold (\<lambda>x. putPixel c (word_of_nat x) (word_of_nat y)) xs t =
      paint c (List.map (\<lambda>x. (word_of_nat x, word_of_nat y)) xs) t" for xs y t
    by (induction xs arbitrary: t) simp_all
  have "fold (fill_row c) ys t = paint c (concat (List.map (\<lambda>y. List.map (\<lambda>x. (word_of_nat x, word_of_nat y))
      [0..<unat (fbWidth t)]) ys)) t" for ys t
    by (induction ys arbitrary: t) (simp_all add: fill_row_def row paint_append geometry)
  then show ?thesis
    by (simp add: fillScreen_def screen_points_def)
qed

lemma screen_points_all: "on_screen s p \<Longrightarrow> p \<in> set (screen_points s)"
  by (cases p) (force simp: screen_points_def on_screen_def word_less_nat_alt intro!: bexI [of _ "unat (snd p)"] image_eqI [of _ _ "unat (fst p)"])

section \<open>A character on the screen\<close>

text \<open>The places where a glyph has its colour: two by two for each bit, from the cursor on.\<close>

definition bit_points :: "u32 \<Rightarrow> u32 \<Rightarrow> u8 list \<Rightarrow> nat \<Rightarrow> nat \<Rightarrow> (u32 \<times> u32) list" where
  "bit_points X Y glyph x y =
     (if bit (glyph ! y) x
      then (let px = X + word_of_nat x * 2; py = Y + word_of_nat y * 2
            in [(px, py), (px + 1, py), (px, py + 1), (px + 1, py + 1)])
      else [])"

definition glyph_points :: "u32 \<Rightarrow> u32 \<Rightarrow> u8 list \<Rightarrow> (u32 \<times> u32) list" where
  "glyph_points X Y glyph = concat (List.map (\<lambda>x. concat (List.map (bit_points X Y glyph x) [0..<8])) [0..<8])"

lemma draw_glyph_paint: "draw_glyph c glyph s = paint c (glyph_points (terminalX s) (terminalY s) glyph) s"
proof -
  have "glyph_bit c glyph x y t = paint c (bit_points (terminalX t) (terminalY t) glyph x y) t" for x y t
    by (simp add: glyph_bit_def bit_points_def Let_def)
  then have col: "fold (\<lambda>y. glyph_bit c glyph x y) ys t =
      paint c (concat (List.map (bit_points (terminalX t) (terminalY t) glyph x) ys)) t" for x ys t
    by (induction ys arbitrary: t) (simp_all add: paint_append geometry)
  have "fold (\<lambda>x. fold (\<lambda>y. glyph_bit c glyph x y) [0..<8]) xs t =
      paint c (concat (List.map (\<lambda>x. concat (List.map (bit_points (terminalX t) (terminalY t) glyph x) [0..<8])) xs)) t" for xs t
    by (induction xs arbitrary: t) (simp_all only: fold.simps list.map concat.simps paint_append col geometry o_apply paint_Nil id_apply)
  then show ?thesis
    by (simp only: draw_glyph_def glyph_points_def)
qed

lemma word_cell:
  fixes X :: u32
  assumes "unat X + 16 < 2 ^ 32" and "i < 16" and "x < 8" and "b < 2"
  shows "X + word_of_nat i = X + word_of_nat x * 2 + word_of_nat b \<longleftrightarrow> i = 2 * x + b"
proof -
  have "unat (X + word_of_nat i) = unat X + i"
    using assms(1,2) by (simp add: unat_word_ariths unat_of_nat)
  moreover have "X + word_of_nat x * 2 + word_of_nat b = X + word_of_nat (2 * x + b)"
    by simp
  moreover have "unat (X + word_of_nat (2 * x + b)) = unat X + (2 * x + b)"
  proof -
    have "2 * x + b < 16"
      using assms(3,4) by simp
    then show ?thesis
      using assms(1) unfolding unat_word_ariths unat_of_nat by simp
  qed
  ultimately show ?thesis
    by (metis add_left_imp_eq)
qed

lemma glyph_points_iff:
  assumes "unat X + 16 < 2 ^ 32" and "unat Y + 16 < 2 ^ 32" and "i < 16" and "j < 16"
  shows "(X + word_of_nat i, Y + word_of_nat j) \<in> set (glyph_points X Y glyph) \<longleftrightarrow> bit (glyph ! (j div 2)) (i div 2)"
proof -
  have mem: "(X + word_of_nat i, Y + word_of_nat j) \<in> set (bit_points X Y glyph x y) \<longleftrightarrow>
      bit (glyph ! y) x \<and> x = i div 2 \<and> y = j div 2" if "x < 8" "y < 8" for x y
  proof -
    have e: "X + word_of_nat i = X + word_of_nat x * 2 \<longleftrightarrow> i = 2 * x" "X + word_of_nat i = X + word_of_nat x * 2 + 1 \<longleftrightarrow> i = 2 * x + 1"
      "Y + word_of_nat j = Y + word_of_nat y * 2 \<longleftrightarrow> j = 2 * y" "Y + word_of_nat j = Y + word_of_nat y * 2 + 1 \<longleftrightarrow> j = 2 * y + 1"
      using word_cell [OF assms(1,3) that(1), of 0] word_cell [OF assms(1,3) that(1), of 1]
        word_cell [OF assms(2,4) that(2), of 0] word_cell [OF assms(2,4) that(2), of 1] by simp_all
    have "i div 2 = x \<longleftrightarrow> i = 2 * x \<or> i = 2 * x + 1" "j div 2 = y \<longleftrightarrow> j = 2 * y \<or> j = 2 * y + 1"
      by presburger+
    then show ?thesis
      unfolding bit_points_def Let_def using e by auto
  qed
  have "i div 2 < 8" "j div 2 < 8"
    using assms(3,4) by simp_all
  then show ?thesis
    unfolding glyph_points_def using mem by auto
qed

lemma glyph_points_cell:
  assumes "(a, b) \<in> set (glyph_points X Y glyph)"
  shows "\<exists>i<16. \<exists>j<16. a = X + word_of_nat i \<and> b = Y + word_of_nat j"
proof -
  obtain x y where xy: "x < 8" "y < 8" "(a, b) \<in> set (bit_points X Y glyph x y)"
    using assms by (auto simp: glyph_points_def)
  have "\<exists>dx<2. \<exists>dy<2. a = X + word_of_nat (2 * x + dx) \<and> b = Y + word_of_nat (2 * y + dy)"
  proof -
    have two: "P 0 \<or> P 1 \<Longrightarrow> \<exists>d<2. P d" for P :: "nat \<Rightarrow> bool"
      by (auto simp: less_2_cases_iff)
    show ?thesis
      using xy(3) by (auto simp: bit_points_def Let_def add.assoc split: if_splits intro!: two)
  qed
  then obtain dx dy where "dx < 2" "dy < 2" "a = X + word_of_nat (2 * x + dx)" "b = Y + word_of_nat (2 * y + dy)"
    by blast
  then show ?thesis
    using xy(1,2) by (intro exI [of _ "2 * x + dx"] conjI exI [of _ "2 * y + dy"]) simp_all
qed

lemma glyph_points_set:
  assumes "unat X + 16 < 2 ^ 32" and "unat Y + 16 < 2 ^ 32"
  shows "(x, y) \<in> set (glyph_points X Y glyph) \<longleftrightarrow>
    (\<exists>i<16. \<exists>j<16. x = X + word_of_nat i \<and> y = Y + word_of_nat j \<and> bit (glyph ! (j div 2)) (i div 2))"
proof
  assume m: "(x, y) \<in> set (glyph_points X Y glyph)"
  obtain i j where ij: "i < 16" "j < 16" "x = X + word_of_nat i" "y = Y + word_of_nat j"
    using glyph_points_cell [OF m] by blast
  have "bit (glyph ! (j div 2)) (i div 2)"
    using m ij glyph_points_iff [OF assms ij(1,2)] by simp
  with ij show "\<exists>i<16. \<exists>j<16. x = X + word_of_nat i \<and> y = Y + word_of_nat j \<and> bit (glyph ! (j div 2)) (i div 2)"
    by (intro exI [of _ i] exI [of _ j] conjI)
next
  assume "\<exists>i<16. \<exists>j<16. x = X + word_of_nat i \<and> y = Y + word_of_nat j \<and> bit (glyph ! (j div 2)) (i div 2)"
  then obtain i j where ij: "i < 16" "j < 16" "x = X + word_of_nat i" "y = Y + word_of_nat j"
    "bit (glyph ! (j div 2)) (i div 2)"
    by (elim exE conjE)
  show "(x, y) \<in> set (glyph_points X Y glyph)"
    unfolding ij(3,4) glyph_points_iff [OF assms ij(1,2)] by (rule ij(5))
qed

lemma length_font: "length font8x8_basic = 128"
  by (simp add: font8x8_basic_def)

definition cell_room :: "screen \<Rightarrow> bool" where
  "cell_room s \<longleftrightarrow> 16 \<le> unat (fbWidth s) \<and> 16 \<le> unat (fbHeight s) \<and>
     unat (terminalX s) + 16 < 2 ^ 32 \<and> unat (terminalY s) + 32 < 2 ^ 32"

lemma unat_add16: "unat (w :: u32) + 16 < 2 ^ 32 \<Longrightarrow> unat (w + 16) = unat w + 16"
  by (simp add: unat_word_ariths)

lemma fillScreen_geometry [geometry]:
  "fbPitch (fillScreen c s) = fbPitch s" "fbWidth (fillScreen c s) = fbWidth s"
  "fbHeight (fillScreen c s) = fbHeight s" "terminalX (fillScreen c s) = terminalX s"
  "terminalY (fillScreen c s) = terminalY s" "terminalColor (fillScreen c s) = terminalColor s"
  "enabled (fillScreen c s) = enabled s"
  by (simp_all add: fillScreen_paint geometry)

text \<open>Wrapping leaves the cursor where a whole character fits.\<close>

lemma wrap_fits:
  assumes "cell_room s" and "s1 = wrap_screen (wrap_line s)"
  shows "unat (terminalX s1) + 16 \<le> unat (fbWidth s)" and "unat (terminalY s1) + 16 \<le> unat (fbHeight s)"
    and "fbPitch s1 = fbPitch s" and "fbWidth s1 = fbWidth s" and "fbHeight s1 = fbHeight s"
    and "terminalColor s1 = terminalColor s" and "enabled s1 = enabled s"
proof -
  let ?l = "wrap_line s"
  have l: "unat (terminalX ?l) + 16 \<le> unat (fbWidth s)" "unat (terminalY ?l) + 16 < 2 ^ 32"
    "fbPitch ?l = fbPitch s" "fbWidth ?l = fbWidth s" "fbHeight ?l = fbHeight s" "terminalColor ?l = terminalColor s"
    "enabled ?l = enabled s"
    using assms(1) unat_add16 [of "terminalX s"] unat_add16 [of "terminalY s"]
    by (auto simp: wrap_line_def cell_room_def word_less_nat_alt)
  show "unat (terminalX s1) + 16 \<le> unat (fbWidth s)" "unat (terminalY s1) + 16 \<le> unat (fbHeight s)"
    "fbPitch s1 = fbPitch s" "fbWidth s1 = fbWidth s" "fbHeight s1 = fbHeight s"
    "terminalColor s1 = terminalColor s" "enabled s1 = enabled s"
    using l assms(1) unat_add16 [OF l(2)]
    by (auto simp: assms(2) wrap_screen_def cell_room_def word_less_nat_alt term_clear_def geometry)
qed

lemma terminal_character:
  assumes "fb_ok s" and "enabled s" and "cell_room s" and "c \<noteq> 8" and "c \<noteq> 10" and "unat c < 128"
    and s1: "s1 = wrap_screen (wrap_line s)"
  shows "\<exists>s'. putChar c s = Inr s' \<and> terminalX s' = terminalX s1 + 16 \<and> terminalY s' = terminalY s1 \<and>
    (\<forall>x y. on_screen s (x, y) \<longrightarrow> pixel_at s' x y =
       (if \<exists>i<16. \<exists>j<16. x = terminalX s1 + word_of_nat i \<and> y = terminalY s1 + word_of_nat j \<and>
             bit (font8x8_basic ! unat c ! (j div 2)) (i div 2)
        then colorToRgb (terminalColor s) else pixel_at s1 x y))"
proof -
  note fits = wrap_fits [OF assms(3) s1]
  let ?glyph = "font8x8_basic ! unat c" and ?fg = "colorToRgb (terminalColor s)"
  let ?ps = "glyph_points (terminalX s1) (terminalY s1) ?glyph"
  define s' where "s' = (paint ?fg ?ps s1)\<lparr>terminalX := terminalX s1 + 16\<rparr>"
  have geo: "terminalX s' = terminalX s1 + 16" "terminalY s' = terminalY s1"
    by (simp_all add: s'_def geometry)
  have put: "putChar c s = Inr s'"
    using assms(2,4-6) s1 fits(6) by (simp add: putChar_def length_font draw_glyph_paint geometry Let_def s'_def)
  have pix: "pixel_at s' x y = (if \<exists>i<16. \<exists>j<16. x = terminalX s1 + word_of_nat i \<and> y = terminalY s1 + word_of_nat j \<and>
      bit (?glyph ! (j div 2)) (i div 2) then ?fg else pixel_at s1 x y)" if on: "on_screen s (x, y)" for x y
  proof -
    have "unat (fbWidth s) < 2 ^ 32" "unat (fbHeight s) < 2 ^ 32"
      using unsigned_less [of "fbWidth s", where 'a = nat] unsigned_less [of "fbHeight s", where 'a = nat] by simp_all
    then have room: "unat (terminalX s1) + 16 < 2 ^ 32" "unat (terminalY s1) + 16 < 2 ^ 32"
      using fits(1,2) by linarith+
    have "(x, y) \<in> set ?ps \<longleftrightarrow> (\<exists>i<16. \<exists>j<16. x = terminalX s1 + word_of_nat i \<and> y = terminalY s1 + word_of_nat j \<and>
        bit (?glyph ! (j div 2)) (i div 2))"
      by (rule glyph_points_set [OF room])
    moreover have "pixel_at s' x y = pixel_at (paint ?fg ?ps s1) x y"
      by (simp add: pixel_at_def s'_def)
    moreover have "fb_ok s1" "on_screen s1 (x, y)"
      using assms(1) on fits(3-5) by (simp_all add: fb_ok_def on_screen_def)
    ultimately show ?thesis
      using pixel_at_paint [of s1 x y ?fg ?ps] by (simp only:)
  qed
  show ?thesis
    by (intro exI [of _ s'] conjI allI impI) (fact put geo pix)+
qed

section \<open>Numbers and formats\<close>

lemma printi_chars_nonneg:
  assumes "0 \<le> sint n"
  shows "printi_chars n = radix 10 (nat (sint n))"
  using assms
proof (induction "nat (sint n)" arbitrary: n rule: less_induct)
  case less
  let ?i = "sint n"
  have dv: "?i sdiv 10 = ?i div 10" "?i smod 10 = ?i mod 10"
    using less.prems by (cases "?i = 0"; simp add: signed_divide_int_def signed_modulo_int_def)+
  have q: "sint (word_of_int (?i div 10) :: u32) = ?i div 10"
    using sint_range32 [of n] less.prems by (intro sint_word_of_int32) linarith+
  have "(word_of_int (?i mod 10) :: u8) = word_of_int (int (nat ?i mod 10))"
    using less.prems by (simp add: zmod_int)
  then have d: "(word_of_int (?i mod 10) + 48 :: u8) = digit_char (nat ?i mod 10)"
    by (simp add: digit_char_def)
  have step: "printi_chars n = (if ?i div 10 \<noteq> 0 then printi_chars (word_of_int (?i div 10)) else []) @
      [digit_char (nat ?i mod 10)]"
    using less.prems by (subst printi_chars.simps) (simp add: dv d)
  show ?case
  proof (cases "?i div 10 = 0")
    case True
    then have "nat ?i < 10"
      using less.prems by linarith
    then show ?thesis
      using True by (simp add: step radix.simps [of 10 "nat ?i"])
  next
    case False
    then have big: "\<not> nat ?i < 10"
      using less.prems by linarith
    have "nat (sint (word_of_int (?i div 10) :: u32)) < nat ?i" "0 \<le> sint (word_of_int (?i div 10) :: u32)"
      unfolding q using False less.prems by linarith+
    then have "printi_chars (word_of_int (?i div 10)) = radix 10 (nat (?i div 10))"
      using less.hyps q by simp
    then show ?thesis
      using False big less.prems by (simp add: step radix.simps [of 10 "nat ?i"] nat_div_distrib)
  qed
qed

lemma printi_chars_least: "printi_chars 0x80000000 = bytes ''--214748364(''"
  by code_simp

text \<open>The signed number as \<^verbatim>\<open>printi\<close> puts it out: the least integer comes out garbled.\<close>

definition printi_text :: "u32 \<Rightarrow> u8 list" where
  "printi_text n =
     (if n = 0x80000000 then bytes ''--214748364(''
      else if sint n < 0 then 45 # radix 10 (nat (- sint n)) else radix 10 (nat (sint n)))"

lemma printi_chars_eq: "printi_chars n = printi_text n"
proof (cases "n = 0x80000000")
  case False
  have "sint n \<noteq> - 2147483648"
  proof
    assume "sint n = - 2147483648"
    from sint_eqD [OF this] show False
      using False by simp
  qed
  then have u: "sint (- n) = - sint n"
    by (simp add: sint_uminus32)
  show ?thesis
  proof (cases "sint n < 0")
    case True
    have "printi_chars n = 45 # printi_chars (- n)"
      using True u by (subst (1 2) printi_chars.simps) simp
    then show ?thesis
      using printi_chars_nonneg [of "- n"] True False u by (simp add: printi_text_def)
  next
    case nonneg: False
    then show ?thesis
      using printi_chars_nonneg [of n] False by (simp add: printi_text_def)
  qed
qed (simp add: printi_chars_least printi_text_def)

lemma printu_chars_eq: "printu_chars n = radix 10 n"
proof (induction n rule: printu_chars.induct)
  case (1 n)
  then show ?case
    by (subst printu_chars.simps, subst radix.simps) (simp add: digit_char_def add.commute)
qed

text \<open>The pieces of a format of the terminal, what writes them and what they put out.\<close>

datatype tpiece = TLit u8 | TPercent | TStr "u8 list" | THex u32 | TChar u8 | TInt u32 | TUnsigned u32 | TBool bool

fun tpiece_fmt :: "tpiece \<Rightarrow> u8 list" where
  "tpiece_fmt (TLit c) = [c]"
| "tpiece_fmt TPercent = [37, 37]"
| "tpiece_fmt (TStr t) = [37, 115]"
| "tpiece_fmt (THex v) = [37, 120]"
| "tpiece_fmt (TChar c) = [37, 99]"
| "tpiece_fmt (TInt v) = [37, 105]"
| "tpiece_fmt (TUnsigned v) = [37, 117]"
| "tpiece_fmt (TBool b) = [37, 98]"

fun tpiece_args :: "tpiece \<Rightarrow> farg list" where
  "tpiece_args (TStr t) = [AStr t]"
| "tpiece_args (THex v) = [AInt v]"
| "tpiece_args (TChar c) = [AInt (ucast c)]"
| "tpiece_args (TInt v) = [AInt v]"
| "tpiece_args (TUnsigned v) = [AInt v]"
| "tpiece_args (TBool b) = [AInt (if b then 1 else 0)]"
| "tpiece_args _ = []"

fun tpiece_text :: "tpiece \<Rightarrow> u8 list" where
  "tpiece_text (TLit c) = [c]"
| "tpiece_text TPercent = [37]"
| "tpiece_text (TStr t) = cstr t"
| "tpiece_text (THex v) = printHex_chars v"
| "tpiece_text (TChar c) = [c]"
| "tpiece_text (TInt v) = printi_text v"
| "tpiece_text (TUnsigned v) = radix 10 (unat v)"
| "tpiece_text (TBool b) = (if b then bytes ''true'' else bytes ''false'')"

fun tpiece_ok :: "tpiece \<Rightarrow> bool" where
  "tpiece_ok (TLit c) \<longleftrightarrow> c \<noteq> 0 \<and> c \<noteq> 37"
| "tpiece_ok (TStr t) \<longleftrightarrow> terminated t \<and> length t < 2 ^ 32"
| "tpiece_ok _ \<longleftrightarrow> True"

lemma term_chars_append: "term_chars (a @ b) s = bindE (term_chars a s) (term_chars b)"
proof (induction a arbitrary: s)
  case (Cons c a)
  have "term_chars (a @ b) = (\<lambda>x. bindE (term_chars a x) (term_chars b))"
    by (rule ext) (rule Cons.IH)
  then show ?case
    by (simp add: bindE_assoc)
qed simp

lemma take_cstr: "terminated t \<Longrightarrow> take (length (cstr t)) t = cstr t"
  by (induction t) auto

lemma term_writeStr_eq: "terminated t \<Longrightarrow> length t < 2 ^ 32 \<Longrightarrow> term_writeStr t s = term_chars (cstr t) s"
  using cstr_length_le [of t] by (simp add: term_writeStr_def strlen_eq term_write_def take_cstr)

lemma printf_piece:
  assumes "tpiece_ok p"
  shows "printf_vaArgs (tpiece_fmt p @ c # fmt) (tpiece_args p @ as) s =
    bindE (term_chars (tpiece_text p) s) (\<lambda>s'. printf_vaArgs (c # fmt) as s')"
proof -
  have one: "bindE (putChar x s) (\<lambda>s'. bindE (Inr s') f) = bindE (term_chars [x] s) f" for x f
    by (cases "putChar x s") simp_all
  show ?thesis
    using assms
    by (cases p) (simp_all add: term_directive_def term_writeStr_eq printi_chars_eq printu_chars_eq bindE_assoc
        term_writeStr_eq [of "[116, 114, 117, 101, 0]"] term_writeStr_eq [of "[102, 97, 108, 115, 101, 0]"])
qed

lemma printf_pieces:
  "list_all tpiece_ok ps \<Longrightarrow>
   printf_vaArgs (concat (List.map tpiece_fmt ps) @ [0]) (concat (List.map tpiece_args ps)) s =
   term_chars (concat (List.map tpiece_text ps)) s"
proof (induction ps arbitrary: s)
  case (Cons p ps)
  obtain c fmt where c: "concat (List.map tpiece_fmt ps) @ [0] = c # fmt"
    by (cases "concat (List.map tpiece_fmt ps) @ [0]") auto
  have "printf_vaArgs (concat (List.map tpiece_fmt ps) @ [0]) (concat (List.map tpiece_args ps)) =
      term_chars (concat (List.map tpiece_text ps))"
    using Cons by (intro ext) simp
  then show ?case
    using printf_piece [of p c fmt "concat (List.map tpiece_args ps)" s] Cons.prems
    by (simp add: term_chars_append c)
qed simp

section \<open>What the terminal promises\<close>

text \<open>Wrapping in numbers: where the cursor goes, and what becomes of the pixels.\<close>

lemma pixel_at_fill: "fb_ok s \<Longrightarrow> on_screen s (x, y) \<Longrightarrow> pixel_at (fillScreen c s) x y = c"
  using screen_points_all pixel_at_paint by (simp add: fillScreen_paint)

lemma wrap_line_eq:
  assumes "cell_room s"
  shows "unat (terminalX (wrap_line s)) = (if unat (fbWidth s) < unat (terminalX s) + 16 then 0 else unat (terminalX s))"
    and "unat (terminalY (wrap_line s)) = unat (terminalY s) + (if unat (fbWidth s) < unat (terminalX s) + 16 then 16 else 0)"
    and "fbHeight (wrap_line s) = fbHeight s" and "fbWidth (wrap_line s) = fbWidth s" and "fbPitch (wrap_line s) = fbPitch s"
    and "pixels (wrap_line s) = pixels s"
  using assms unat_add16 [of "terminalX s"] unat_add16 [of "terminalY s"]
  by (auto simp: wrap_line_def cell_room_def word_less_nat_alt)

lemma wrap_eq:
  assumes ok: "fb_ok s" and room: "cell_room s"
    and wraps: "wraps \<longleftrightarrow> unat (fbWidth s) < unat (terminalX s) + 16"
    and full: "full \<longleftrightarrow> unat (fbHeight s) < unat (terminalY s) + (if wraps then 16 else 0) + 16"
  shows "unat (terminalX (wrap_screen (wrap_line s))) = (if wraps \<or> full then 0 else unat (terminalX s))"
    and "unat (terminalY (wrap_screen (wrap_line s))) = (if full then 0 else unat (terminalY s) + (if wraps then 16 else 0))"
    and "on_screen s (x, y) \<Longrightarrow> pixel_at (wrap_screen (wrap_line s)) x y = (if full then 0x00101010 else pixel_at s x y)"
proof -
  note l = wrap_line_eq [OF room, folded wraps]
  have "unat (terminalY (wrap_line s)) + 16 < 2 ^ 32"
    using room by (simp add: l cell_room_def)
  then have f: "fbHeight s < terminalY (wrap_line s) + 16 \<longleftrightarrow> full"
    using unat_add16 [of "terminalY (wrap_line s)"] by (simp add: full word_less_nat_alt l)
  show "unat (terminalX (wrap_screen (wrap_line s))) = (if wraps \<or> full then 0 else unat (terminalX s))"
    "unat (terminalY (wrap_screen (wrap_line s))) = (if full then 0 else unat (terminalY s) + (if wraps then 16 else 0))"
    by (simp_all add: wrap_screen_def f l)
  let ?c = "(wrap_line s)\<lparr>terminalX := 0, terminalY := 0\<rparr>"
  assume "on_screen s (x, y)"
  then have "fb_ok ?c" "on_screen ?c (x, y)"
    using ok by (simp_all add: fb_ok_def on_screen_def l)
  from pixel_at_fill [OF this, of BACKGROUND] show
    "pixel_at (wrap_screen (wrap_line s)) x y = (if full then 0x00101010 else pixel_at s x y)"
    by (simp add: wrap_screen_def f term_clear_def pixel_at_def l BACKGROUND_def)
qed

text \<open>C39: printing a character of the font on a screen of at least one cell. A cursor less than a cell from the right edge goes to the
  start of the next line of cells, and only when that line is not whole on the screen the screen is cleared to the background and the
  cursor goes to its first cell. There the glyph appears, doubled, in the colour of the terminal; every other pixel is the one it was, or
  background on a screen that was cleared; and the cursor is a cell further to the right.\<close>

theorem terminal_shows_character:
  assumes "fb_ok s" and "enabled s" and "cell_room s" and "c \<noteq> 8" and "c \<noteq> 10" and "unat c < 128"
    and "wraps \<longleftrightarrow> unat (fbWidth s) < unat (terminalX s) + 16"
    and "full \<longleftrightarrow> unat (fbHeight s) < unat (terminalY s) + (if wraps then 16 else 0) + 16"
    and "col = (if wraps \<or> full then 0 else unat (terminalX s))"
    and "row = (if full then 0 else unat (terminalY s) + (if wraps then 16 else 0))"
  shows "\<exists>s'. putChar c s = Inr s' \<and> unat (terminalX s') = col + 16 \<and> unat (terminalY s') = row \<and>
    col + 16 \<le> unat (fbWidth s) \<and> row + 16 \<le> unat (fbHeight s) \<and>
    (\<forall>x y. on_screen s (x, y) \<longrightarrow> pixel_at s' x y =
       (if \<exists>i<16. \<exists>j<16. unat x = col + i \<and> unat y = row + j \<and> bit (font8x8_basic ! unat c ! (j div 2)) (i div 2)
        then colorToRgb (terminalColor s) else if full then 0x00101010 else pixel_at s x y))"
proof -
  let ?s1 = "wrap_screen (wrap_line s)"
  note w = wrap_eq [OF assms(1,3,7,8), folded assms(9,10)]
  note fits = wrap_fits(1,2) [OF assms(3) refl, unfolded w(1,2)]
  have small: "unat (fbWidth s) < 2 ^ 32" "unat (fbHeight s) < 2 ^ 32"
    using unsigned_less [of "fbWidth s", where 'a = nat] unsigned_less [of "fbHeight s", where 'a = nat] by simp_all
  have at: "x = terminalX ?s1 + word_of_nat i \<longleftrightarrow> unat x = col + i" "y = terminalY ?s1 + word_of_nat i \<longleftrightarrow> unat y = row + i"
    if "i < 16" for x y i
    unfolding word_unat_eq_iff using that fits small w(1,2) unat_plus_nat [of "terminalX ?s1" i] unat_plus_nat [of "terminalY ?s1" i] by simp_all
  obtain s' where s': "putChar c s = Inr s'" "terminalX s' = terminalX ?s1 + 16" "terminalY s' = terminalY ?s1"
    and px: "\<forall>x y. on_screen s (x, y) \<longrightarrow> pixel_at s' x y =
       (if \<exists>i<16. \<exists>j<16. x = terminalX ?s1 + word_of_nat i \<and> y = terminalY ?s1 + word_of_nat j \<and>
             bit (font8x8_basic ! unat c ! (j div 2)) (i div 2)
        then colorToRgb (terminalColor s) else pixel_at ?s1 x y)"
    using terminal_character [OF assms(1-6) refl] by blast
  have x: "unat (terminalX s') = col + 16"
    using unat_add16 [of "terminalX ?s1"] fits small w(1) s'(2) by simp
  have lit: "(\<exists>i<16. \<exists>j<16. x = terminalX ?s1 + word_of_nat i \<and> y = terminalY ?s1 + word_of_nat j \<and>
        bit (font8x8_basic ! unat c ! (j div 2)) (i div 2)) \<longleftrightarrow>
      (\<exists>i<16. \<exists>j<16. unat x = col + i \<and> unat y = row + j \<and> bit (font8x8_basic ! unat c ! (j div 2)) (i div 2))" for x y
    by (simp only: at cong: conj_cong)
  have "pixel_at s' x y =
       (if \<exists>i<16. \<exists>j<16. unat x = col + i \<and> unat y = row + j \<and> bit (font8x8_basic ! unat c ! (j div 2)) (i div 2)
        then colorToRgb (terminalColor s) else if full then 0x00101010 else pixel_at s x y)" if on: "on_screen s (x, y)" for x y
    unfolding px [rule_format, OF on] lit w(3) [OF on] ..
  note px' = this
  have y: "unat (terminalY s') = row"
    using s'(3) w(2) by simp
  show ?thesis
    by (intro exI [of _ s'] conjI allI impI) (fact s'(1) x y fits px')+
qed

definition demo_screen :: screen where
  "demo_screen = \<lparr>fbPitch = 1280, fbWidth = 320, fbHeight = 200, pixels = (\<lambda>_. 0), terminalX = 0, terminalY = 0,
     terminalColor = 7, enabled = True\<rparr>"

theorem terminal_shows_character_witness:
  "(\<exists>s'. putChar 33 demo_screen = Inr s' \<and> unat (terminalX s') = 16 \<and> pixel_at s' 6 0 = 0x00AAAAAA \<and> pixel_at s' 100 100 = 0) \<and>
   (\<exists>s'. putChar 33 (demo_screen\<lparr>terminalX := 312, terminalY := 184\<rparr>) = Inr s' \<and> unat (terminalX s') = 16 \<and>
      pixel_at s' 6 0 = 0x00AAAAAA \<and> pixel_at s' 100 100 = 0x00101010)"
proof -
  let ?s = demo_screen and ?f = "demo_screen\<lparr>terminalX := 312, terminalY := 184\<rparr>"
  have ok: "fb_ok ?s" "enabled ?s" "cell_room ?s" "fb_ok ?f" "enabled ?f" "cell_room ?f"
    by (simp_all add: fb_ok_def demo_screen_def cell_room_def)
  have scr: "on_screen ?s (6, 0)" "on_screen ?s (100, 100)" "on_screen ?f (6, 0)" "on_screen ?f (100, 100)"
    by (simp_all add: on_screen_def demo_screen_def)
  have "bit (font8x8_basic ! unat (33 :: u8) ! (0 div 2)) (6 div 2)"
    by code_simp
  then have lit: "\<exists>i<16. \<exists>j<16. unat (6 :: u32) = 0 + i \<and> unat (0 :: u32) = 0 + j \<and>
      bit (font8x8_basic ! unat (33 :: u8) ! (j div 2)) (i div 2)"
    by (intro exI [of _ 6] exI [of _ 0] conjI) simp_all
  have dark: "\<not> (\<exists>i<16. \<exists>j<16. unat (100 :: u32) = 0 + i \<and> unat (100 :: u32) = 0 + j \<and>
      bit (font8x8_basic ! unat (33 :: u8) ! (j div 2)) (i div 2))"
    by auto
  have col: "colorToRgb (terminalColor ?s) = 0x00AAAAAA" "colorToRgb (terminalColor ?f) = 0x00AAAAAA" "pixel_at ?s 100 100 = 0"
    by (simp_all add: demo_screen_def colorToRgb_def pixel_at_def)
  have "\<exists>s'. putChar 33 ?s = Inr s' \<and> unat (terminalX s') = 16 \<and> pixel_at s' 6 0 = 0x00AAAAAA \<and> pixel_at s' 100 100 = 0"
    using terminal_shows_character [OF ok(1-3), of 33 False False 0 0] scr(1,2) lit dark col
    by (force simp: demo_screen_def)
  moreover have "\<exists>s'. putChar 33 ?f = Inr s' \<and> unat (terminalX s') = 16 \<and> pixel_at s' 6 0 = 0x00AAAAAA \<and> pixel_at s' 100 100 = 0x00101010"
    using terminal_shows_character [OF ok(4-6), of 33 True True 0 0] scr(3,4) lit dark col
    by (force simp: demo_screen_def)
  ultimately show ?thesis
    by blast
qed

text \<open>Formatted output of the kernel puts out the characters of its pieces in order: strings up to
  their terminator, unsigned numbers in decimal, hexadecimal ones with eight digits, truth values
  as words, and signed numbers in decimal but for the least one, which comes out as
  \<^verbatim>\<open>--214748364(\<close>.\<close>

theorem terminal_printf_formats:
  assumes "list_all tpiece_ok ps"
  shows "term_printf (concat (List.map tpiece_fmt ps) @ [0]) (concat (List.map tpiece_args ps)) s =
    term_chars (concat (List.map tpiece_text ps)) s"
  unfolding term_printf_def by (rule printf_pieces [OF assms])

theorem terminal_printf_formats_witness:
  "term_printf (bytes ''n=%i%%'' @ [0]) [AInt 0x80000000] demo_screen = term_chars (bytes ''n=--214748364(%'') demo_screen"
  using terminal_printf_formats [of "[TLit 110, TLit 61, TInt 0x80000000, TPercent]" demo_screen]
  by (simp add: printi_text_def)

end
