(* ===== verification/SysMod.thy ===== *)
theory SysMod
  imports CString Process Terminal
begin

text \<open>
  The ownership of the system modules, \<^verbatim>\<open>src/sys/sysmod.hpp\<close>: a driver process claims a module by
  its name, installs a function that the kernel calls and releases the module again. The vector
  of entries is a list and a pointer to an entry its index. The requests of the processes are the
  steps of a state machine, and ownership is an invariant of it.
\<close>

section \<open>The table of modules\<close>

datatype sysModuleId = Unknown | PIT | Framebuffer

text \<open>A pointer to a function: the function of the handler class that does nothing, or an address.\<close>

datatype kfunc = DoNothing | Func u32

record sysEntry =
  se_module :: sysModuleId
  se_owner :: u32
  se_func :: "kfunc option"
  se_ownerDir :: u32

definition sysEntry_new :: "sysModuleId \<Rightarrow> sysEntry" where
  "sysEntry_new m = \<lparr>se_module = m, se_owner = 0, se_func = None, se_ownerDir = 0\<rparr>"

definition sysm_init :: "sysEntry list \<Rightarrow> sysEntry list" where
  "sysm_init es = es @ [sysEntry_new PIT] @ [sysEntry_new Framebuffer]"

fun sysm_find :: "sysEntry list \<Rightarrow> sysModuleId \<Rightarrow> nat \<Rightarrow> nat option" where
  "sysm_find [] i n = None"
| "sysm_find (e # es) i n = (if se_module e = i then Some n else sysm_find es i (Suc n))"

definition toSysMId :: "u8 list \<Rightarrow> sysModuleId exec" where
  "toSysMId s =
     bindE (streq s (bytes ''PIT'' @ [0])) (\<lambda>b. if b then Inr PIT
     else bindE (streq s (bytes ''Framebuffer'' @ [0])) (\<lambda>b. if b then Inr Framebuffer
     else Inr Unknown))"

section \<open>The operations\<close>

text \<open>The first argument is the pid of the active process.\<close>

definition sysm_claim :: "u32 \<Rightarrow> u8 list \<Rightarrow> sysEntry list \<Rightarrow> (u8 \<times> sysEntry list) exec" where
  "sysm_claim active s es =
     bindE (toSysMId s) (\<lambda>modId.
     if modId = Unknown then Inr (1, es)
     else case sysm_find es modId 0 of
         None \<Rightarrow> Inr (1, es)
       | Some i \<Rightarrow> if se_owner (es ! i) \<noteq> 0 then Inr (1, es)
           else Inr (0, es[i := (es ! i)\<lparr>se_owner := active\<rparr>]))"

definition sysm_release :: "u32 \<Rightarrow> u8 list \<Rightarrow> sysEntry list \<Rightarrow> (u8 \<times> sysEntry list) exec" where
  "sysm_release active s es =
     bindE (toSysMId s) (\<lambda>modId. case sysm_find es modId 0 of
         None \<Rightarrow> Inr (1, es)
       | Some i \<Rightarrow> if se_owner (es ! i) \<noteq> active then Inr (1, es)
           else Inr (0, es[i := (es ! i)\<lparr>se_owner := 0, se_func := Some DoNothing\<rparr>]))"

text \<open>\<^verbatim>\<open>setFunc\<close> keeps the address space that is active when it is called.\<close>

definition sysm_setFunc :: "u32 \<Rightarrow> u32 \<Rightarrow> u8 list \<Rightarrow> kfunc option \<Rightarrow> sysEntry list \<Rightarrow> (u8 \<times> sysEntry list) exec" where
  "sysm_setFunc active dir s f es =
     bindE (toSysMId s) (\<lambda>modId.
     if modId = Unknown then Inr (1, es)
     else case sysm_find es modId 0 of
         None \<Rightarrow> Inr (1, es)
       | Some i \<Rightarrow> if se_owner (es ! i) \<noteq> active then Inr (1, es)
           else Inr (0, es[i := (es ! i)\<lparr>se_func := f, se_ownerDir := dir\<rparr>]))"

definition sysm_getFunc :: "sysEntry list \<Rightarrow> sysModuleId \<Rightarrow> kfunc" where
  "sysm_getFunc es m = (case sysm_find es m 0 of
      None \<Rightarrow> DoNothing
    | Some i \<Rightarrow> (case se_func (es ! i) of None \<Rightarrow> DoNothing | Some f \<Rightarrow> f))"

definition getFuncEntry :: "sysEntry list \<Rightarrow> sysModuleId \<Rightarrow> sysEntry option" where
  "getFuncEntry es m = (case sysm_find es m 0 of
      None \<Rightarrow> None
    | Some i \<Rightarrow> (if se_func (es ! i) = None then None else Some (es ! i)))"

definition getowner :: "sysEntry list \<Rightarrow> sysModuleId \<Rightarrow> u32" where
  "getowner es m = (case sysm_find es m 0 of None \<Rightarrow> 0 | Some i \<Rightarrow> se_owner (es ! i))"

section \<open>The guarded framebuffer\<close>

text \<open>
  \<^verbatim>\<open>VisualsPidEnforced\<close> of \<^verbatim>\<open>src/vis/vis.cpp\<close>, the functions the table \<^verbatim>\<open>func.rap\<close> gives to user programs: they
  answer only to the process that owns the framebuffer module.
\<close>

definition pid_enforce :: "u32 \<Rightarrow> sysEntry list \<Rightarrow> bool" where
  "pid_enforce active es =
     (let ownerOfFb = getowner es Framebuffer in
      if ownerOfFb = 0 then True else if active \<noteq> ownerOfFb then True else False)"

definition pe_putPixel :: "u32 \<Rightarrow> sysEntry list \<Rightarrow> u32 \<Rightarrow> u32 \<Rightarrow> u32 \<Rightarrow> screen \<Rightarrow> bool \<times> screen" where
  "pe_putPixel active es argb x y s = (if pid_enforce active es then (True, s) else (False, putPixel argb x y s))"

definition pe_getFbSizeBytes :: "u32 \<Rightarrow> sysEntry list \<Rightarrow> screen \<Rightarrow> u32" where
  "pe_getFbSizeBytes active es s = (if pid_enforce active es then 0 else getFbSizeBytes s)"

definition pe_getScreenHeight :: "u32 \<Rightarrow> sysEntry list \<Rightarrow> screen \<Rightarrow> u32" where
  "pe_getScreenHeight active es s = (if pid_enforce active es then 0 else fbHeight s)"

definition pe_getScreenWidth :: "u32 \<Rightarrow> sysEntry list \<Rightarrow> screen \<Rightarrow> u32" where
  "pe_getScreenWidth active es s = (if pid_enforce active es then 0 else fbWidth s)"

definition pe_getPitch :: "u32 \<Rightarrow> sysEntry list \<Rightarrow> screen \<Rightarrow> u32" where
  "pe_getPitch active es s = (if pid_enforce active es then 0 else fbPitch s)"

section \<open>The table as a map\<close>

text \<open>
  The entry of each module, which is all that can be observed of the table; the table made by
  \<^verbatim>\<open>init\<close> has one entry for each known module.
\<close>

definition entry_of_mod :: "sysEntry list \<Rightarrow> sysModuleId \<Rightarrow> sysEntry option" where
  "entry_of_mod es m = map_option ((!) es) (sysm_find es m 0)"

definition table_ok :: "sysEntry list \<Rightarrow> bool" where
  "table_ok es \<longleftrightarrow> List.map se_module es = [PIT, Framebuffer]"

lemma table_ok_cases:
  assumes "table_ok es"
  obtains a b where "es = [a, b]" "se_module a = PIT" "se_module b = Framebuffer"
  using assms by (auto simp: table_ok_def map_eq_Cons_conv)

lemma table_ok_init: "table_ok (sysm_init [])"
  by (simp add: table_ok_def sysm_init_def sysEntry_new_def)

lemma find_table:
  assumes "table_ok es"
  shows "sysm_find es m 0 = (case m of Unknown \<Rightarrow> None | PIT \<Rightarrow> Some 0 | Framebuffer \<Rightarrow> Some 1)"
  using assms by (rule table_ok_cases) (auto split: sysModuleId.splits)

text \<open>The module a name stands for.\<close>

definition named_mod :: "u8 list \<Rightarrow> sysModuleId" where
  "named_mod s = (if cstr s = bytes ''PIT'' then PIT else if cstr s = bytes ''Framebuffer'' then Framebuffer else Unknown)"

lemma toSysMId_eq: "terminated s \<Longrightarrow> toSysMId s = Inr (named_mod s)"
  by (simp add: toSysMId_def streq_eq named_mod_def)

section \<open>Requests\<close>

text \<open>A request of a process, and the step of the table it makes with its answer.\<close>

datatype sysreq = Claim "u8 list" | Release "u8 list" | SetFunc "u8 list" "kfunc option"

fun req_name :: "sysreq \<Rightarrow> u8 list" where
  "req_name (Claim s) = s"
| "req_name (Release s) = s"
| "req_name (SetFunc s f) = s"

fun sysm_request :: "u32 \<Rightarrow> u32 \<Rightarrow> sysreq \<Rightarrow> sysEntry list \<Rightarrow> (u8 \<times> sysEntry list) exec" where
  "sysm_request p d (Claim s) es = sysm_claim p s es"
| "sysm_request p d (Release s) es = sysm_release p s es"
| "sysm_request p d (SetFunc s f) es = sysm_setFunc p d s f es"

text \<open>What a request does to the entry of the module it names, when it is granted.\<close>

fun granted :: "u32 \<Rightarrow> sysreq \<Rightarrow> sysEntry \<Rightarrow> bool" where
  "granted p (Claim s) e \<longleftrightarrow> se_owner e = 0"
| "granted p (Release s) e \<longleftrightarrow> se_owner e = p"
| "granted p (SetFunc s f) e \<longleftrightarrow> se_owner e = p"

fun effect :: "u32 \<Rightarrow> u32 \<Rightarrow> sysreq \<Rightarrow> sysEntry \<Rightarrow> sysEntry" where
  "effect p d (Claim s) e = e\<lparr>se_owner := p\<rparr>"
| "effect p d (Release s) e = e\<lparr>se_owner := 0, se_func := Some DoNothing\<rparr>"
| "effect p d (SetFunc s f) e = e\<lparr>se_func := f, se_ownerDir := d\<rparr>"

lemma effect_module [simp]: "se_module (effect p d r e) = se_module e"
  by (cases r) simp_all

lemma table_ok_update [intro]: "table_ok es \<Longrightarrow> table_ok (es[i := effect p d r (es ! i)])"
proof -
  have "List.map se_module (es[i := effect p d r (es ! i)]) = List.map se_module (es[i := es ! i])"
    unfolding map_update by simp
  then show "table_ok es \<Longrightarrow> table_ok (es[i := effect p d r (es ! i)])"
    by (simp add: table_ok_def)
qed

text \<open>
  The table refines a lock for each module: a request is granted by the entry of the module it
  names alone and changes that entry alone.
\<close>

lemma request_spec:
  assumes "table_ok es" and "terminated (req_name r)"
  shows "\<exists>a es'. sysm_request p d r es = Inr (a, es') \<and> table_ok es' \<and>
     (case entry_of_mod es (named_mod (req_name r)) of
        None \<Rightarrow> a = 1 \<and> es' = es
      | Some e \<Rightarrow> a = (if granted p r e then 0 else 1) \<and>
          entry_of_mod es' = (if granted p r e then (entry_of_mod es)(named_mod (req_name r) \<mapsto> effect p d r e)
                              else entry_of_mod es))"
proof -
  let ?m = "named_mod (req_name r)"
  have t: "toSysMId (req_name r) = Inr ?m"
    using assms(2) by (rule toSysMId_eq)
  show ?thesis
  proof (cases "sysm_find es ?m 0")
    case None
    then have "sysm_request p d r es = Inr (1, es)"
      using t by (cases r) (simp_all add: sysm_claim_def sysm_release_def sysm_setFunc_def)
    then show ?thesis
      using None assms(1) by (simp add: entry_of_mod_def)
  next
    case (Some i)
    then have known: "?m \<noteq> Unknown"
      using find_table [OF assms(1)] by auto
    let ?e = "es ! i" and ?es = "if granted p r (es ! i) then es[i := effect p d r (es ! i)] else es"
    have "sysm_request p d r es = Inr (if granted p r ?e then 0 else 1, ?es)"
      using t known Some by (cases r) (simp_all add: sysm_claim_def sysm_release_def sysm_setFunc_def)
    moreover have ok: "table_ok ?es"
      using assms(1) by auto
    moreover have "entry_of_mod es ?m = Some ?e"
      using Some by (simp add: entry_of_mod_def)
    moreover have "entry_of_mod (es[i := effect p d r ?e]) = (entry_of_mod es)(?m \<mapsto> effect p d r ?e)"
    proof
      fix m
      from assms(1) obtain x y where es: "es = [x, y]"
        by (rule table_ok_cases)
      show "entry_of_mod (es[i := effect p d r ?e]) m = ((entry_of_mod es)(?m \<mapsto> effect p d r ?e)) m"
        using Some find_table [OF assms(1)] find_table [OF table_ok_update [OF assms(1)], of i p d r] known
        by (cases m; cases ?m) (auto simp: entry_of_mod_def es)
    qed
    ultimately show ?thesis
      by auto
  qed
qed

section \<open>Histories\<close>

text \<open>
  A history lists the requests of the processes with the answers they got; \<open>D\<close> is the address
  space a process runs in.
\<close>

inductive sysm_run :: "(u32 \<Rightarrow> u32) \<Rightarrow> sysEntry list \<Rightarrow> (u32 \<times> sysreq \<times> u8) list \<Rightarrow> sysEntry list \<Rightarrow> bool"
  for D where
  start: "sysm_run D es [] es"
| request: "sysm_run D es h es1 \<Longrightarrow> p \<noteq> 0 \<Longrightarrow> terminated (req_name r) \<Longrightarrow>
    sysm_request p (D p) r es1 = Inr (a, es2) \<Longrightarrow> sysm_run D es (h @ [(p, r, a)]) es2"

definition handlers_owned :: "(u32 \<Rightarrow> u32) \<Rightarrow> sysEntry list \<Rightarrow> bool" where
  "handlers_owned D es \<longleftrightarrow> table_ok es \<and>
     (\<forall>m e f. entry_of_mod es m = Some e \<and> se_func e = Some (Func f) \<longrightarrow> se_owner e \<noteq> 0 \<and> se_ownerDir e = D (se_owner e))"

lemma handlers_owned_init: "handlers_owned D (sysm_init [])"
  unfolding handlers_owned_def
proof (intro conjI [OF table_ok_init] allI impI)
  fix m e f assume "entry_of_mod (sysm_init []) m = Some e \<and> se_func e = Some (Func f)"
  then show "se_owner e \<noteq> 0 \<and> se_ownerDir e = D (se_owner e)"
    by (cases m) (auto simp: entry_of_mod_def find_table [OF table_ok_init], simp_all add: sysm_init_def sysEntry_new_def)
qed

lemma handlers_owned_request:
  assumes "handlers_owned D es" and "p \<noteq> 0" and "terminated (req_name r)" and "sysm_request p (D p) r es = Inr (a, es')"
  shows "handlers_owned D es'"
proof -
  let ?m = "named_mod (req_name r)"
  have ok: "table_ok es"
    using assms(1) by (simp add: handlers_owned_def)
  from request_spec [OF ok assms(3), of p "D p"] assms(4)
  have ok': "table_ok es'" and c: "entry_of_mod es' = entry_of_mod es \<or>
      (\<exists>e. entry_of_mod es ?m = Some e \<and> granted p r e \<and> entry_of_mod es' = (entry_of_mod es)(?m \<mapsto> effect p (D p) r e))"
    by (auto split: option.splits if_splits)
  show ?thesis
    unfolding handlers_owned_def
  proof (intro conjI [OF ok'] allI impI)
    fix m e f assume e: "entry_of_mod es' m = Some e \<and> se_func e = Some (Func f)"
    from c show "se_owner e \<noteq> 0 \<and> se_ownerDir e = D (se_owner e)"
    proof (elim disjE exE conjE)
      assume "entry_of_mod es' = entry_of_mod es"
      then show ?thesis
        using assms(1) e by (auto simp: handlers_owned_def)
    next
      fix e0 assume e0: "entry_of_mod es ?m = Some e0" "granted p r e0"
        and u: "entry_of_mod es' = (entry_of_mod es)(?m \<mapsto> effect p (D p) r e0)"
      show ?thesis
      proof (cases "m = ?m")
        case True
        then have e': "e = effect p (D p) r e0"
          using e u by simp
        have inv: "se_owner e0 \<noteq> 0 \<and> se_ownerDir e0 = D (se_owner e0)" if "se_func e0 = Some (Func g)" for g
          using assms(1) e0(1) that by (auto simp: handlers_owned_def)
        show ?thesis
          using e0(2) assms(2) inv e unfolding e' by (cases r) auto
      next
        case False
        then show ?thesis
          using assms(1) e u by (auto simp: handlers_owned_def)
      qed
    qed
  qed
qed

lemma sysm_run_handlers_owned: "sysm_run D es h es' \<Longrightarrow> handlers_owned D es \<Longrightarrow> handlers_owned D es'"
  by (induction rule: sysm_run.induct) (auto intro: handlers_owned_request)

text \<open>A request of another process leaves an owned module as it is, and is refused if it names it.\<close>

lemma foreign_request:
  assumes "table_ok es" and "entry_of_mod es m = Some e" and "se_owner e \<noteq> 0" and "p \<noteq> se_owner e"
    and "terminated (req_name r)" and "sysm_request p d r es = Inr (a, es')"
  shows "table_ok es' \<and> entry_of_mod es' m = Some e \<and> (named_mod (req_name r) = m \<longrightarrow> a = 1)"
proof -
  have "\<not> granted p r e"
    using assms(3,4) by (cases r) auto
  then show ?thesis
    using request_spec [OF assms(1,5), of p d] assms(2,6) by (auto split: option.splits if_splits)
qed

lemma sysm_run_foreign:
  assumes "sysm_run D es h es'" and "table_ok es" and "entry_of_mod es m = Some e" and "se_owner e \<noteq> 0"
    and "\<forall>(p, r, a) \<in> set h. p \<noteq> se_owner e"
  shows "table_ok es' \<and> entry_of_mod es' m = Some e \<and> (\<forall>(p, r, a) \<in> set h. named_mod (req_name r) = m \<longrightarrow> a = 1)"
  using assms
proof (induction rule: sysm_run.induct)
  case (request es h es1 p r a es2)
  then have "table_ok es1 \<and> entry_of_mod es1 m = Some e \<and> (\<forall>(p, r, a) \<in> set h. named_mod (req_name r) = m \<longrightarrow> a = 1)"
    by auto
  moreover from this have "table_ok es2 \<and> entry_of_mod es2 m = Some e \<and> (named_mod (req_name r) = m \<longrightarrow> a = 1)"
    using request.prems request.hyps by (intro foreign_request [of es1 m e p r "D p" a es2]) auto
  ultimately show ?case
    by auto
qed simp

text \<open>Process \<open>q\<close> claimed the module in the history and has not released it since.\<close>

definition holds :: "(u32 \<times> sysreq \<times> u8) list \<Rightarrow> sysModuleId \<Rightarrow> u32 \<Rightarrow> bool" where
  "holds h m q \<longleftrightarrow> (\<exists>h1 s h2. h = h1 @ (q, Claim s, 0) # h2 \<and> named_mod s = m \<and>
     (\<forall>s'. named_mod s' = m \<longrightarrow> (q, Release s', 0) \<notin> set h2))"

lemma holds_claim: "named_mod s = m \<Longrightarrow> holds (h @ [(q, Claim s, 0)]) m q"
  unfolding holds_def by (intro exI [of _ h] exI [of _ s] exI [of _ "[]"]) simp

lemma holds_append:
  assumes "holds h m q" and "\<And>s. named_mod s = m \<Longrightarrow> x \<noteq> (q, Release s, 0)"
  shows "holds (h @ [x]) m q"
proof -
  obtain h1 s h2 where h: "h = h1 @ (q, Claim s, 0) # h2" "named_mod s = m"
    "\<forall>s'. named_mod s' = m \<longrightarrow> (q, Release s', 0) \<notin> set h2"
    using assms(1) unfolding holds_def by blast
  then have "\<forall>s'. named_mod s' = m \<longrightarrow> (q, Release s', 0) \<notin> set (h2 @ [x])"
    using assms(2) by auto
  then show ?thesis
    using h unfolding holds_def by (intro exI [of _ h1] exI [of _ s] exI [of _ "h2 @ [x]"]) simp
qed

lemma sysm_run_table_ok: "sysm_run D es h es' \<Longrightarrow> table_ok es \<Longrightarrow> table_ok es'"
proof (induction rule: sysm_run.induct)
  case (request es h es1 p r a es2)
  then show ?case
    using request_spec [of es1 r p "D p"] by auto
qed

lemma owner_holds:
  assumes "sysm_run D es h es'" and "table_ok es" and "\<And>m e. entry_of_mod es m = Some e \<Longrightarrow> se_owner e = 0"
    and "entry_of_mod es' m = Some e" and "se_owner e \<noteq> 0"
  shows "holds h m (se_owner e)"
  using assms
proof (induction arbitrary: m e rule: sysm_run.induct)
  case (request es h es1 p r a es2)
  let ?m = "named_mod (req_name r)"
  have ok: "table_ok es1"
    using sysm_run_table_ok request.hyps(1) request.prems(1) by blast
  have old: "holds h m (se_owner e)" if "entry_of_mod es1 m = Some e" "se_owner e \<noteq> 0" for m e
    using request.IH request.prems(1,2) that by blast
  from request_spec [OF ok request.hyps(3), of p "D p"] request.hyps(4) request.prems(3)
  consider "entry_of_mod es1 m = Some e" "m \<noteq> ?m \<or> a = 1"
    | e0 where "m = ?m" "a = 0" "entry_of_mod es1 m = Some e0" "granted p r e0" "e = effect p (D p) r e0"
    by (auto split: option.splits if_splits)
  then show ?case
  proof cases
    case 1
    then show ?thesis
      by (intro holds_append old request.prems(4)) auto
  next
    case 2
    then show ?thesis
      using request.prems(4) old [OF 2(3)] by (cases r) (auto intro!: holds_claim holds_append)
  qed
qed simp

section \<open>What the table promises\<close>

text \<open>C31: After any history of requests of processes with nonzero pids from the table \<^verbatim>\<open>init\<close> makes, a
  module that has a function of a process installed is owned, and the address space kept for the
  function is the one its owner runs in; the module not owned has nothing to call.\<close>

theorem sysmod_handlers_belong_to_owners:
  assumes "sysm_run D (sysm_init []) h es" and "getFuncEntry es m = Some e" and "se_func e = Some (Func f)"
  shows "se_owner e \<noteq> 0 \<and> getowner es m = se_owner e \<and> se_ownerDir e = D (se_owner e)"
proof -
  obtain i where "sysm_find es m 0 = Some i" "e = es ! i"
    using assms(2) by (auto simp: getFuncEntry_def split: option.splits if_splits)
  then show ?thesis
    using sysm_run_handlers_owned [OF assms(1) handlers_owned_init] assms(3)
    by (auto simp: handlers_owned_def entry_of_mod_def getowner_def)
qed

text \<open>Whatever the other processes ask for, a module that is owned stays exactly as it is, and every
  request on it is refused: a process that exits without releasing its module blocks it for ever,
  since \<^verbatim>\<open>exit\<close> does not release.\<close>

theorem sysmod_owner_excludes_others:
  assumes "sysm_run D es h es'" and "table_ok es" and "entry_of_mod es m = Some e" and "se_owner e = q" and "q \<noteq> 0"
    and "\<forall>(p, r, a) \<in> set h. p \<noteq> q"
  shows "entry_of_mod es' m = Some e \<and> (\<forall>(p, r, a) \<in> set h. named_mod (req_name r) = m \<longrightarrow> a = 1)"
  using sysm_run_foreign [OF assms(1-3)] assms(4-6) by blast

text \<open>C32: Only a process that has claimed the framebuffer, and not released it since, can paint through
  the functions of the kernel: for every other process the screen stays as it is and the answer
  is an error.\<close>

theorem sysmod_only_claimant_paints:
  assumes "sysm_run D (sysm_init []) h es" and "pe_putPixel p es argb x y s = (failed, s')"
  shows "(failed \<and> s' = s \<and> pe_getScreenWidth p es s = 0) \<or> (holds h Framebuffer p \<and> p \<noteq> 0 \<and> \<not> failed \<and> s' = putPixel argb x y s)"
proof (cases "pid_enforce p es")
  case True
  then show ?thesis
    using assms(2) by (simp add: pe_putPixel_def pe_getScreenWidth_def)
next
  case False
  then have p: "p \<noteq> 0" "getowner es Framebuffer = p"
    by (auto simp: pid_enforce_def Let_def split: if_splits)
  then obtain e where e: "entry_of_mod es Framebuffer = Some e" "se_owner e = p"
    by (auto simp: getowner_def entry_of_mod_def split: option.splits)
  have "se_owner e = 0" if "entry_of_mod (sysm_init []) m = Some e" for m e
    using that by (cases m) (auto simp: entry_of_mod_def find_table [OF table_ok_init], simp_all add: sysm_init_def sysEntry_new_def)
  from owner_holds [OF assms(1) table_ok_init this e(1)] have "holds h Framebuffer p"
    using e(2) p(1) by simp
  then show ?thesis
    using False p(1) assms(2) by (simp add: pe_putPixel_def)
qed

section \<open>A scheduler and a desktop\<close>

text \<open>Process 1 claims the timer and installs a function, process 2 claims the framebuffer.\<close>

definition demo_table :: "sysEntry list" where
  "demo_table = [\<lparr>se_module = PIT, se_owner = 1, se_func = Some (Func 0x8000), se_ownerDir = 0x100001\<rparr>,
     \<lparr>se_module = Framebuffer, se_owner = 2, se_func = None, se_ownerDir = 0\<rparr>]"

definition demo_history :: "(u32 \<times> sysreq \<times> u8) list" where
  "demo_history = [] @ [(1, Claim (bytes ''PIT'' @ [0]), 0)] @ [(1, SetFunc (bytes ''PIT'' @ [0]) (Some (Func 0x8000)), 0)] @
     [(2, Claim (bytes ''Framebuffer'' @ [0]), 0)]"

lemma demo_run: "sysm_run ((+) 0x100000) (sysm_init []) demo_history demo_table"
proof -
  let ?D = "(+) (0x100000 :: u32)" and ?P = "bytes ''PIT'' @ [0]" and ?F = "bytes ''Framebuffer'' @ [0]"
  let ?es1 = "[\<lparr>se_module = PIT, se_owner = 1, se_func = None, se_ownerDir = 0\<rparr>, sysEntry_new Framebuffer]"
  let ?es2 = "[\<lparr>se_module = PIT, se_owner = 1, se_func = Some (Func 0x8000), se_ownerDir = 0x100001\<rparr>, sysEntry_new Framebuffer]"
  have "sysm_run ?D (sysm_init []) [] (sysm_init [])"
    by (rule sysm_run.start)
  then have 1: "sysm_run ?D (sysm_init []) ([] @ [(1, Claim ?P, 0)]) ?es1"
    by (rule sysm_run.request) (simp_all add: sysm_claim_def toSysMId_eq named_mod_def sysm_init_def sysEntry_new_def cstr_def)
  then have 2: "sysm_run ?D (sysm_init []) (([] @ [(1, Claim ?P, 0)]) @ [(1, SetFunc ?P (Some (Func 0x8000)), 0)]) ?es2"
    by (rule sysm_run.request) (simp_all add: sysm_setFunc_def toSysMId_eq named_mod_def cstr_def)
  then have "sysm_run ?D (sysm_init []) ((([] @ [(1, Claim ?P, 0)]) @ [(1, SetFunc ?P (Some (Func 0x8000)), 0)]) @ [(2, Claim ?F, 0)]) demo_table"
    by (rule sysm_run.request) (simp_all add: sysm_claim_def toSysMId_eq named_mod_def cstr_def sysEntry_new_def demo_table_def)
  then show ?thesis
    unfolding demo_history_def append_assoc .
qed

theorem sysmod_handlers_belong_to_owners_witness:
  "getFuncEntry demo_table PIT = Some (demo_table ! 0) \<and> getowner demo_table PIT = 1 \<and> se_ownerDir (demo_table ! 0) = 0x100001"
  using sysmod_handlers_belong_to_owners [OF demo_run, of PIT "demo_table ! 0" "0x8000"]
  by (simp add: getFuncEntry_def demo_table_def)

theorem sysmod_owner_excludes_others_witness:
  "sysm_claim 2 (bytes ''PIT'' @ [0]) demo_table = Inr (1, demo_table) \<and> entry_of_mod demo_table PIT = Some (demo_table ! 0)"
proof -
  have r: "sysm_request 2 ((+) 0x100000 2) (Claim (bytes ''PIT'' @ [0])) demo_table = Inr (1, demo_table)"
    by (simp add: sysm_claim_def toSysMId_eq named_mod_def cstr_def demo_table_def)
  then have "sysm_run ((+) 0x100000) demo_table ([] @ [(2, Claim (bytes ''PIT'' @ [0]), 1)]) demo_table"
    by (intro sysm_run.request [OF sysm_run.start]) simp_all
  moreover have "table_ok demo_table" "entry_of_mod demo_table PIT = Some (demo_table ! 0)"
    by (simp_all add: table_ok_def entry_of_mod_def demo_table_def)
  ultimately have "entry_of_mod demo_table PIT = Some (demo_table ! 0)"
    using sysmod_owner_excludes_others [of "(+) 0x100000" demo_table _ demo_table PIT "demo_table ! 0" 1]
    by (simp add: demo_table_def)
  then show ?thesis
    by (intro conjI) (use r in simp, assumption)
qed

theorem sysmod_only_claimant_paints_witness:
  "pe_putPixel 2 demo_table 7 3 4 demo_screen = (False, putPixel 7 3 4 demo_screen) \<and>
   pe_putPixel 1 demo_table 7 3 4 demo_screen = (True, demo_screen)"
  using sysmod_only_claimant_paints [OF demo_run, of 2 7 3 4 demo_screen False "putPixel 7 3 4 demo_screen"]
    sysmod_only_claimant_paints [OF demo_run, of 1 7 3 4 demo_screen]
  by (simp add: pe_putPixel_def pid_enforce_def getowner_def demo_table_def)

end
