(* ===== verification/Scheduler.thy ===== *)
theory Scheduler
  imports SysMod
begin

text \<open>
  The timer interrupt and the scheduler: the kernel's handler
  \<^verbatim>\<open>src/drivers/interrupts/pit/handler.cpp\<close> calls the function that the owner of the timer module
  has installed, and the scheduler process installs \<^verbatim>\<open>pitHandler\<close> of
  \<^verbatim>\<open>sbinSrc/sched/scheduling/pitHandler.c\<close>, which saves the registers of the interrupted process
  and hands the processor to another one every fifty ticks. A call that switches does not
  return; the registers it resumes with are the result.
\<close>

section \<open>The scheduler's handler\<close>

record pitregs =
  t_edi :: u32
  t_esi :: u32
  t_ebp :: u32
  t_esp :: u32
  t_ebx :: u32
  t_edx :: u32
  t_ecx :: u32
  t_eax :: u32
  t_eip :: u32
  t_cs :: u32
  t_eflags :: u32

text \<open>
  The globals of the scheduler; of the pointers \<^verbatim>\<open>getpid\<close> and \<^verbatim>\<open>procList\<close> it matters whether they are
  set. They refer to the kernel's functions and to its list of processes.
\<close>

record sched =
  currentProcess :: u32
  sc_ticks :: u64
  sc_getpid :: bool
  sc_procList :: bool

definition PROCESS_CTXTSWITCH_INTERVAL :: u64 where "PROCESS_CTXTSWITCH_INTERVAL = 50"

fun first_proc :: "process list \<Rightarrow> u32 \<Rightarrow> nat \<Rightarrow> nat option" where
  "first_proc [] q i = None"
| "first_proc (p # ps) q i = (if pid p = q then Some i else first_proc ps q (Suc i))"

text \<open>The processor has pushed the flags, the code segment and the instruction pointer before.\<close>

definition save_regs :: "pitregs \<Rightarrow> regstate \<Rightarrow> regstate" where
  "save_regs r s = s\<lparr>r_edi := t_edi r, r_esi := t_esi r, r_ebp := t_ebp r, r_esp := t_esp r + 12,
     r_ebx := t_ebx r, r_edx := t_edx r, r_ecx := t_ecx r, r_eax := t_eax r, r_eip := t_eip r,
     r_cs := t_cs r, r_eflags := t_eflags r\<rparr>"

text \<open>
  The variable \<^verbatim>\<open>proc\<close> is uninitialised when the list has no process of the active pid, and the
  list is read through \<^verbatim>\<open>procList\<close> whether it is set or not.
\<close>

definition save_active :: "sched \<Rightarrow> kstate \<Rightarrow> pitregs \<Rightarrow> kstate exec" where
  "save_active s k r =
     (let procPid = (if sc_getpid s then activeProcessPid k else 0) in
      if procPid = 0 then Inr k
      else if \<not> sc_procList s then Inl OutOfBounds
      else case first_proc (processes k) procPid 0 of
          None \<Rightarrow> Inl OutOfBounds
        | Some i \<Rightarrow> let p = processes k ! i in
            Inr (k\<lparr>processes := (processes k)[i := p\<lparr>state := save_regs r (state p)\<rparr>]\<rparr>))"

definition sched_pitHandler :: "sched \<Rightarrow> kstate \<Rightarrow> pitregs \<Rightarrow> (sched \<times> kstate \<times> regstate option) exec" where
  "sched_pitHandler s k r =
     (let s1 = s\<lparr>sc_ticks := sc_ticks s + 1\<rparr> in
      bindE (save_active s1 k r) (\<lambda>k1.
      if sc_procList s1 \<and> length (processes k1) > 1 \<and> sc_ticks s1 mod PROCESS_CTXTSWITCH_INTERVAL = 0 then
        (let s2 = s1\<lparr>currentProcess := currentProcess s1 XOR 1\<rparr>; i = unat (currentProcess s2) in
         if i < length (processes k1) then
           bindE (ctxtSwitch k1 (processes k1 ! i)) (\<lambda>(k2, regs). Inr (s2, k2, Some regs))
         else Inl OutOfBounds)
      else Inr (s1, k1, None)))"

section \<open>The kernel's handler\<close>

text \<open>
  \<open>call\<close> is the function of a process at an address, \<open>tm_data\<close> what it keeps in its own memory. The
  function runs in the address space kept with it; after a switch nothing of the handler is left
  to run.
\<close>

record 'w timer =
  tm_ticks :: u64
  tm_mods :: "sysEntry list"
  tm_k :: kstate
  tm_data :: 'w

definition in_space :: "u32 \<Rightarrow> kstate \<Rightarrow> kstate" where
  "in_space d k = k\<lparr>ks_mmu := switchAddressSpace (ks_mmu k) d\<rparr>"

definition pitHandler :: "(u32 \<Rightarrow> 'w \<Rightarrow> kstate \<Rightarrow> pitregs \<Rightarrow> ('w \<times> kstate \<times> regstate option) exec) \<Rightarrow>
    'w timer \<Rightarrow> pitregs \<Rightarrow> ('w timer \<times> regstate option) exec" where
  "pitHandler call t r = (case getFuncEntry (tm_mods t) PIT of
      None \<Rightarrow> Inr (t\<lparr>tm_ticks := tm_ticks t + 1\<rparr>, None)
    | Some e \<Rightarrow>
        let ownerVisibleState = r; interrupted = activeDirectory (ks_mmu (tm_k t));
            k1 = in_space (se_ownerDir e) (tm_k t) in
        bindE (case se_func e of
            Some (Func a) \<Rightarrow> call a (tm_data t) k1 ownerVisibleState
          | _ \<Rightarrow> Inr (tm_data t, k1, None)) (\<lambda>(w, k2, resumed). case resumed of
            Some regs \<Rightarrow> Inr (t\<lparr>tm_data := w, tm_k := k2\<rparr>, Some regs)
          | None \<Rightarrow> Inr (t\<lparr>tm_data := w, tm_k := in_space interrupted k2, tm_ticks := tm_ticks t + 1\<rparr>, None)))"

section \<open>The two together\<close>

definition tick :: "sched timer \<Rightarrow> pitregs \<Rightarrow> (sched timer \<times> regstate option) exec" where
  "tick = pitHandler (\<lambda>a. sched_pitHandler)"

text \<open>A sequence of ticks, each with the registers of the process it interrupts.\<close>

fun run_ticks :: "sched timer \<Rightarrow> pitregs list \<Rightarrow> (sched timer \<times> regstate option list) exec" where
  "run_ticks t [] = Inr (t, [])"
| "run_ticks t (r # rs) =
     bindE (tick t r) (\<lambda>(t1, x). bindE (run_ticks t1 rs) (\<lambda>(t2, xs). Inr (t2, x # xs)))"

lemma run_ticks_append:
  "run_ticks t (rs @ qs) = bindE (run_ticks t rs) (\<lambda>(t1, xs). bindE (run_ticks t1 qs) (\<lambda>(t2, ys). Inr (t2, xs @ ys)))"
  by (induction rs arbitrary: t) (auto simp: bindE_assoc split_def)

text \<open>The scheduler is installed and has its pointers; \<open>c\<close> is the process it counts as running.\<close>

definition installed :: "sched timer \<Rightarrow> bool" where
  "installed t \<longleftrightarrow> (\<exists>e a. getFuncEntry (tm_mods t) PIT = Some e \<and> se_func e = Some (Func a))"

definition sched_runs :: "nat \<Rightarrow> sched timer \<Rightarrow> bool" where
  "sched_runs c t \<longleftrightarrow> installed t \<and> sc_getpid (tm_data t) \<and> sc_procList (tm_data t) \<and> c < 2 \<and>
     currentProcess (tm_data t) = word_of_nat c \<and> 2 \<le> length (processes (tm_k t)) \<and>
     distinct (List.map pid (processes (tm_k t))) \<and> 0 \<notin> pid ` set (processes (tm_k t)) \<and>
     activeProcessPid (tm_k t) = pid (processes (tm_k t) ! c)"

definition save_in :: "nat \<Rightarrow> pitregs \<Rightarrow> process list \<Rightarrow> process list" where
  "save_in c r ps = ps[c := (ps ! c)\<lparr>state := save_regs r (state (ps ! c))\<rparr>]"

lemma first_proc_eq:
  "distinct (List.map pid ps) \<Longrightarrow> c < length ps \<Longrightarrow> first_proc ps (pid (ps ! c)) i = Some (i + c)"
proof (induction ps arbitrary: c i)
  case (Cons p ps)
  then show ?case
    by (cases c) (auto simp: image_iff)
qed simp

lemma in_space_eq: "in_space d k = k\<lparr>ks_mmu := (ks_mmu k)\<lparr>activeDirectory := d\<rparr>\<rparr>"
  by (cases k, cases "ks_mmu k") (simp add: in_space_def switchAddressSpace_def)

lemma save_active_eq:
  assumes "sched_runs c t" and "k = in_space d (tm_k t)" and "sc_getpid s" and "sc_procList s"
  shows "save_active s k r = Inr (k\<lparr>processes := save_in c r (processes (tm_k t))\<rparr>)"
proof -
  let ?ps = "processes (tm_k t)"
  have c: "c < length ?ps" "distinct (List.map pid ?ps)" "activeProcessPid (tm_k t) = pid (?ps ! c)"
    using assms(1) by (auto simp: sched_runs_def)
  then have "pid (?ps ! c) \<noteq> 0"
    using assms(1) by (force simp: sched_runs_def image_iff)
  then show ?thesis
    using first_proc_eq [OF c(2,1), of 0] assms(3,4) c(3)
    by (simp add: save_active_def assms(2) in_space_eq save_in_def Let_def)
qed

lemma xor_1_other: "c < 2 \<Longrightarrow> (word_of_nat c :: u32) XOR 1 = word_of_nat (1 - c)"
  by (cases c) (auto simp: numeral_2_eq_2)

definition sched_after :: "sched timer \<Rightarrow> sched" where
  "sched_after t = (tm_data t)\<lparr>sc_ticks := sc_ticks (tm_data t) + 1\<rparr>"

definition due :: "sched timer \<Rightarrow> bool" where
  "due t \<longleftrightarrow> (sc_ticks (tm_data t) + 1) mod PROCESS_CTXTSWITCH_INTERVAL = 0"

lemma length_save_in [simp]: "length (save_in c r ps) = length ps"
  by (simp add: save_in_def)

lemma pids_save_in [simp]: "List.map pid (save_in c r ps) = List.map pid ps"
proof (cases "c < length ps")
  case True
  then show ?thesis
    by (simp add: save_in_def map_update list_update_same_conv)
qed (simp add: save_in_def list_update_beyond)

lemma nth_save_in: "c < length ps \<Longrightarrow> save_in c r ps ! d = (if d = c then (ps ! c)\<lparr>state := save_regs r (state (ps ! c))\<rparr> else ps ! d)"
  by (simp add: save_in_def nth_list_update)

lemma nth_save_in_other [simp]: "d \<noteq> c \<Longrightarrow> save_in c r ps ! d = ps ! d"
  by (simp add: save_in_def)

text \<open>A tick between two switches saves the registers and comes back.\<close>

lemma tick_quiet:
  assumes "sched_runs c t" and "\<not> due t"
  shows "tick t r = Inr (t\<lparr>tm_ticks := tm_ticks t + 1, tm_data := sched_after t,
      tm_k := (tm_k t)\<lparr>processes := save_in c r (processes (tm_k t))\<rparr>\<rparr>, None)"
proof -
  obtain e a where e: "getFuncEntry (tm_mods t) PIT = Some e" "se_func e = Some (Func a)"
    using assms(1) by (auto simp: sched_runs_def installed_def)
  have p: "sc_getpid (sched_after t)" "sc_procList (sched_after t)"
    using assms(1) by (simp_all add: sched_runs_def sched_after_def)
  let ?k = "in_space (se_ownerDir e) (tm_k t)"
  have "sched_pitHandler (tm_data t) ?k r =
      Inr (sched_after t, ?k\<lparr>processes := save_in c r (processes (tm_k t))\<rparr>, None)"
    using save_active_eq [OF assms(1) refl p] assms(2)
    by (simp add: sched_pitHandler_def due_def Let_def flip: sched_after_def) (simp add: sched_after_def)
  moreover have "in_space (activeDirectory (ks_mmu (tm_k t))) (?k\<lparr>processes := ps\<rparr>) = (tm_k t)\<lparr>processes := ps\<rparr>" for ps
    by (simp add: in_space_eq)
  ultimately show ?thesis
    using e by (simp add: tick_def pitHandler_def Let_def)
qed

text \<open>The tick that is due goes on with the other of the first two processes, or panics.\<close>

lemma tick_switch:
  assumes "sched_runs c t" and "due t" and "B = processes (tm_k t) ! (1 - c)"
  shows "tick t r =
     (if priv B = Driver then Inl (Panic ''Context switching to a process marked 'Driver' is forbidden.'')
      else if r_eip (state B) = 0 \<or> r_esp (state B) = 0 then Inl (Panic ''ctxtSwitch got a zeroed RegisterState'')
      else Inr (t\<lparr>tm_data := (sched_after t)\<lparr>currentProcess := word_of_nat (1 - c)\<rparr>,
        tm_k := (in_space (procDir B) (tm_k t))\<lparr>processes := save_in c r (processes (tm_k t)), activeProcessPid := pid B\<rparr>\<rparr>,
        Some (state B)))"
proof -
  obtain e a where e: "getFuncEntry (tm_mods t) PIT = Some e" "se_func e = Some (Func a)"
    using assms(1) by (auto simp: sched_runs_def installed_def)
  have p: "sc_getpid (sched_after t)" "sc_procList (sched_after t)" and c: "c < 2" "2 \<le> length (processes (tm_k t))"
    and cur: "currentProcess (tm_data t) = word_of_nat c"
    using assms(1) by (simp_all add: sched_runs_def sched_after_def)
  let ?k = "in_space (se_ownerDir e) (tm_k t)" and ?ps = "save_in c r (processes (tm_k t))"
  have other: "currentProcess (sched_after t) XOR 1 = word_of_nat (1 - c)"
    using cur c(1) by (simp add: sched_after_def xor_1_other)
  have i: "unat (word_of_nat (1 - c) :: u32) = 1 - c"
    by simp
  have B: "?ps ! (1 - c) = B"
    using c assms(3) nth_save_in [of c "processes (tm_k t)" r "1 - c"] by (cases c) simp_all
  have lt: "Suc 0 - c < length (processes (tm_k t))"
    using c by simp
  have "sched_pitHandler (tm_data t) ?k r = bindE (ctxtSwitch (?k\<lparr>processes := ?ps\<rparr>) B) (\<lambda>(k2, regs).
      Inr ((sched_after t)\<lparr>currentProcess := word_of_nat (1 - c)\<rparr>, k2, Some regs))"
    unfolding sched_pitHandler_def Let_def sched_after_def [symmetric] save_active_eq [OF assms(1) refl p] bindE.simps
      other
    using p c i B lt assms(2) by (simp add: due_def) (simp add: sched_after_def)
  then show ?thesis
    using e by (simp add: tick_def pitHandler_def Let_def ctxtSwitch_def in_space_eq)
qed

section \<open>Runs of ticks\<close>

lemma sched_runs_quiet:
  assumes "sched_runs c t"
  shows "sched_runs c (t\<lparr>tm_ticks := n, tm_data := sched_after t, tm_k := (tm_k t)\<lparr>processes := save_in c r (processes (tm_k t))\<rparr>\<rparr>)"
proof -
  have c: "c < length (processes (tm_k t))"
    using assms by (simp add: sched_runs_def)
  have "pid ` set (save_in c r ps) = pid ` set ps" for ps
    using arg_cong [OF pids_save_in [of c r ps], of set] by (simp del: pids_save_in)
  then show ?thesis
    using assms c by (simp add: sched_runs_def installed_def sched_after_def nth_save_in)
qed

definition quiet_end :: "nat \<Rightarrow> pitregs list \<Rightarrow> sched timer \<Rightarrow> sched timer" where
  "quiet_end c rs t = t\<lparr>tm_ticks := tm_ticks t + word_of_nat (length rs),
     tm_data := (tm_data t)\<lparr>sc_ticks := sc_ticks (tm_data t) + word_of_nat (length rs)\<rparr>,
     tm_k := (tm_k t)\<lparr>processes := (if rs = [] then processes (tm_k t) else save_in c (last rs) (processes (tm_k t)))\<rparr>\<rparr>"

lemma save_regs_twice [simp]: "save_regs r (save_regs q s) = save_regs r s"
  by (simp add: save_regs_def)

lemma save_in_twice [simp]: "save_in c r (save_in c q ps) = save_in c r ps"
proof (cases "c < length ps")
  case True
  then show ?thesis
    by (simp add: save_in_def)
next
  case False
  then show ?thesis
    by (simp add: save_in_def list_update_beyond)
qed

text \<open>The ticks from one switch to the next, none of which is due.\<close>

lemma run_quiet:
  assumes "sched_runs c t" and "unat (sc_ticks (tm_data t)) mod 50 + length rs < 50"
    and "unat (sc_ticks (tm_data t)) + length rs < 2 ^ 64"
  shows "run_ticks t rs = Inr (quiet_end c rs t, replicate (length rs) None) \<and> sched_runs c (quiet_end c rs t)"
  using assms
proof (induction rs arbitrary: t)
  case Nil
  then show ?case
    by (simp add: quiet_end_def)
next
  case (Cons r rs)
  let ?n = "unat (sc_ticks (tm_data t))"
  let ?t = "t\<lparr>tm_ticks := tm_ticks t + 1, tm_data := sched_after t, tm_k := (tm_k t)\<lparr>processes := save_in c r (processes (tm_k t))\<rparr>\<rparr>"
  have u: "unat (sc_ticks (tm_data t) + 1) = Suc ?n"
    using unat_plus_nat [of "sc_ticks (tm_data t)" 1] Cons.prems(3) by simp
  have m: "Suc ?n mod 50 = Suc (?n mod 50)"
    using Cons.prems(2) by (simp add: mod_Suc)
  have "\<not> due t"
    using u m by (simp add: due_def PROCESS_CTXTSWITCH_INTERVAL_def unat_eq_0 [symmetric] unat_mod)
  then have t: "tick t r = Inr (?t, None)"
    by (rule tick_quiet [OF Cons.prems(1)])
  have "run_ticks ?t rs = Inr (quiet_end c rs ?t, replicate (length rs) None) \<and> sched_runs c (quiet_end c rs ?t)"
    using Cons.prems u m by (intro Cons.IH sched_runs_quiet) (simp_all add: sched_after_def)
  moreover have "quiet_end c rs ?t = quiet_end c (r # rs) t"
    by (simp add: quiet_end_def sched_after_def add.assoc)
  ultimately show ?case
    using t by simp
qed

text \<open>The tick that is due.\<close>

definition switch_end :: "nat \<Rightarrow> pitregs \<Rightarrow> sched timer \<Rightarrow> sched timer" where
  "switch_end c r t = (let B = processes (tm_k t) ! (1 - c) in
     t\<lparr>tm_data := (sched_after t)\<lparr>currentProcess := word_of_nat (1 - c)\<rparr>,
       tm_k := (in_space (procDir B) (tm_k t))\<lparr>processes := save_in c r (processes (tm_k t)), activeProcessPid := pid B\<rparr>\<rparr>)"

definition resumable :: "process \<Rightarrow> bool" where
  "resumable p \<longleftrightarrow> priv p \<noteq> Driver \<and> r_eip (state p) \<noteq> 0 \<and> r_esp (state p) \<noteq> 0"

lemma run_switch:
  assumes "sched_runs c t" and "unat (sc_ticks (tm_data t)) mod 50 = 49" and "unat (sc_ticks (tm_data t)) + 1 < 2 ^ 64"
    and "resumable (processes (tm_k t) ! (1 - c))"
  shows "tick t r = Inr (switch_end c r t, Some (state (processes (tm_k t) ! (1 - c)))) \<and> sched_runs (1 - c) (switch_end c r t)"
proof -
  let ?ps = "processes (tm_k t)"
  have u: "unat (sc_ticks (tm_data t) + 1) = Suc (unat (sc_ticks (tm_data t)))"
    using unat_plus_nat [of "sc_ticks (tm_data t)" 1] assms(3) by simp
  have "Suc (unat (sc_ticks (tm_data t))) mod 50 = 0"
    using assms(2) by (simp add: mod_Suc)
  then have "due t"
    using u by (simp add: due_def PROCESS_CTXTSWITCH_INTERVAL_def unat_eq_0 [symmetric] unat_mod)
  then have "tick t r = Inr (switch_end c r t, Some (state (?ps ! (1 - c))))"
    using tick_switch [OF assms(1), of "?ps ! (1 - c)" r] assms(4) by (simp add: resumable_def switch_end_def Let_def)
  moreover have "pid ` set (save_in c r ps) = pid ` set ps" for ps
    using arg_cong [OF pids_save_in [of c r ps], of set] by (simp del: pids_save_in)
  moreover have "c < 2" "2 \<le> length ?ps"
    using assms(1) by (simp_all add: sched_runs_def)
  moreover from this have "1 - c < 2" "c < length ?ps" "1 - c \<noteq> c"
    by arith+
  ultimately show ?thesis
    using assms(1) by (simp add: sched_runs_def installed_def switch_end_def sched_after_def in_space_eq Let_def)
qed

text \<open>
  A whole turn: the process running is stopped, the other one runs for fifty ticks and is stopped,
  and the first goes on.
\<close>

lemma sched_turn:
  assumes "sched_runs c t" and "unat (sc_ticks (tm_data t)) mod 50 = 49" and "unat (sc_ticks (tm_data t)) + 51 < 2 ^ 64"
    and "A = processes (tm_k t) ! c" and "B = processes (tm_k t) ! (1 - c)" and "resumable B"
    and "priv A \<noteq> Driver" and "t_eip r \<noteq> 0" and "t_esp r + 12 \<noteq> 0" and "length rs = 49"
  shows "\<exists>t'. run_ticks t (r # rs @ [q]) =
      Inr (t', Some (state B) # replicate 49 None @ [Some (save_regs r (state A))]) \<and>
    activeProcessPid (tm_k t') = pid A \<and> activeDirectory (ks_mmu (tm_k t')) = procDir A \<and>
    state (processes (tm_k t') ! (1 - c)) = save_regs q (state B) \<and> sched_runs c t'"
proof -
  define d where "d = 1 - c"
  define t1 where "t1 = switch_end c r t"
  define t2 where "t2 = quiet_end d rs t1"
  let ?n = "unat (sc_ticks (tm_data t))"
  have "c < 2" "2 \<le> length (processes (tm_k t))"
    using assms(1) by (simp_all add: sched_runs_def)
  then have c: "c < length (processes (tm_k t))" "1 - d = c" "d \<noteq> c" "c \<noteq> d" "d < length (processes (tm_k t))"
    unfolding d_def by arith+
  have B0: "B = processes (tm_k t) ! d"
    using assms(5) by (simp only: d_def)
  have 1: "tick t r = Inr (t1, Some (state B)) \<and> sched_runs d t1"
    using run_switch [OF assms(1,2), of r, folded d_def, folded t1_def] assms(3,6) B0 by simp
  have n1: "unat (sc_ticks (tm_data t1)) = ?n + 1"
    using unat_plus_nat [of "sc_ticks (tm_data t)" 1] assms(3) by (simp add: t1_def switch_end_def sched_after_def Let_def)
  moreover have "(?n + 1) mod 50 = 0"
    using assms(2) by presburger
  ultimately have 2: "run_ticks t1 rs = Inr (t2, replicate 49 None) \<and> sched_runs d t2"
    using run_quiet [of d t1 rs, folded t2_def] 1 assms(3,10) by simp
  have n2: "unat (sc_ticks (tm_data t2)) = ?n + 50"
    using unat_plus_nat [of "sc_ticks (tm_data t1)" 49] assms(3,10) n1 by (simp add: t2_def quiet_end_def)
  have "processes (tm_k t2) = save_in d (last rs) (processes (tm_k t1))"
    using assms(10) by (auto simp: t2_def quiet_end_def)
  moreover have "processes (tm_k t1) = save_in c r (processes (tm_k t))"
    by (simp add: t1_def switch_end_def Let_def)
  ultimately have ps: "processes (tm_k t2) = save_in d (last rs) (save_in c r (processes (tm_k t)))"
    by simp
  have A: "processes (tm_k t2) ! c = A\<lparr>state := save_regs r (state A)\<rparr>"
    using c assms(4) unfolding ps by (simp add: nth_save_in)
  have B: "processes (tm_k t2) ! d = B\<lparr>state := save_regs (last rs) (state B)\<rparr>"
    using c B0 unfolding ps by (simp add: nth_save_in)
  have "resumable (processes (tm_k t2) ! c)"
    using assms(7-9) by (simp add: A resumable_def save_regs_def)
  then have 3: "tick t2 q = Inr (switch_end d q t2, Some (save_regs r (state A))) \<and> sched_runs c (switch_end d q t2)"
    using run_switch [of d t2 q, unfolded c(2)] 2 n2 assms(2,3) A by (simp add: mod_Suc)
  have "processes (tm_k (switch_end d q t2)) = save_in d q (processes (tm_k t2))"
    by (simp add: switch_end_def Let_def)
  then have "state (processes (tm_k (switch_end d q t2)) ! d) = save_regs q (state B)"
    using c(3-5) B0 by (simp add: nth_save_in ps)
  moreover have "activeProcessPid (tm_k (switch_end d q t2)) = pid A \<and>
      activeDirectory (ks_mmu (tm_k (switch_end d q t2))) = procDir A"
    using A unfolding switch_end_def Let_def c(2) by (simp add: in_space_eq)
  ultimately show ?thesis
    using 1 2 3 unfolding d_def [symmetric] by (intro exI [of _ "switch_end d q t2"]) (simp add: run_ticks_append)
qed

section \<open>What every run keeps\<close>

text \<open>Whatever happens in the ticks, the processor goes to the first or the second process only.\<close>

definition two_only :: "process list \<Rightarrow> u32 \<Rightarrow> sched timer \<Rightarrow> bool" where
  "two_only ps q t \<longleftrightarrow> installed t \<and> currentProcess (tm_data t) \<in> {0, 1} \<and> List.map pid (processes (tm_k t)) = List.map pid ps \<and>
     (activeProcessPid (tm_k t) = q \<or> (\<exists>i<2. i < length ps \<and> activeProcessPid (tm_k t) = pid (ps ! i)))"

lemma save_active_keeps:
  assumes "save_active s k r = Inr k'"
  shows "List.map pid (processes k') = List.map pid (processes k) \<and> activeProcessPid k' = activeProcessPid k"
proof -
  have "List.map pid (ps[i := (ps ! i)\<lparr>state := x\<rparr>]) = List.map pid (ps[i := ps ! i])" for ps i x
    unfolding map_update by simp
  then show ?thesis
    using assms by (auto simp: save_active_def Let_def split: if_splits option.splits)
qed

lemma tick_keeps:
  assumes "two_only ps q t" and "tick t r = Inr (t', x)"
  shows "two_only ps q t' \<and> tm_ticks t' = tm_ticks t + (if x = None then 1 else 0) \<and> (\<forall>rs. x = Some rs \<longrightarrow> activeProcessPid (tm_k t') \<in> pid ` set (take 2 ps))"
proof -
  obtain e a where e: "getFuncEntry (tm_mods t) PIT = Some e" "se_func e = Some (Func a)"
    using assms(1) by (auto simp: two_only_def installed_def)
  let ?k = "in_space (se_ownerDir e) (tm_k t)"
  from assms(2) obtain w k2 where s: "sched_pitHandler (tm_data t) ?k r = Inr (w, k2, x)"
    and t': "t' = (case x of None \<Rightarrow> t\<lparr>tm_data := w, tm_k := in_space (activeDirectory (ks_mmu (tm_k t))) k2, tm_ticks := tm_ticks t + 1\<rparr>
      | Some regs \<Rightarrow> t\<lparr>tm_data := w, tm_k := k2\<rparr>)"
    using e by (auto simp: tick_def pitHandler_def Let_def split: option.splits)
  from s obtain k1 where k1: "save_active (sched_after t) ?k r = Inr k1"
    and c: "x = None \<and> w = sched_after t \<and> k2 = k1 \<or>
      (\<exists>i. i = unat (currentProcess (tm_data t) XOR 1) \<and> i < length (processes k1) \<and>
        w = (sched_after t)\<lparr>currentProcess := currentProcess (tm_data t) XOR 1\<rparr> \<and> x \<noteq> None \<and>
        processes k2 = processes k1 \<and> activeProcessPid k2 = pid (processes k1 ! i))"
    by (auto simp: sched_pitHandler_def sched_after_def Let_def ctxtSwitch_def split: if_splits)
  have keep: "List.map pid (processes k1) = List.map pid ps" "activeProcessPid k1 = activeProcessPid (tm_k t)"
    using save_active_keeps [OF k1] assms(1) by (simp_all add: two_only_def in_space_eq)
  then have len: "length (processes k1) = length ps"
    using map_eq_imp_length_eq by blast
  have cur: "currentProcess (tm_data t) XOR 1 \<in> {0, 1}"
    using assms(1) by (auto simp: two_only_def)
  from c show ?thesis
  proof (elim disjE exE conjE)
    assume "x = None" "w = sched_after t" "k2 = k1"
    then show ?thesis
      using assms(1) keep t' by (simp add: two_only_def installed_def sched_after_def in_space_eq)
  next
    fix i assume i: "i = unat (currentProcess (tm_data t) XOR 1)" "i < length (processes k1)"
      and w: "w = (sched_after t)\<lparr>currentProcess := currentProcess (tm_data t) XOR 1\<rparr>" "x \<noteq> None"
        "processes k2 = processes k1" "activeProcessPid k2 = pid (processes k1 ! i)"
    have i2: "i < 2" "i < length ps"
      using i cur len by auto
    have "pid (processes k1 ! i) = pid (ps ! i)"
      using keep(1) i(2) len by (metis nth_map)
    moreover from this have "activeProcessPid k2 = pid (ps ! i)"
      using w(4) by simp
    moreover have "pid (ps ! i) \<in> pid ` set (take 2 ps)"
      using i2 by (intro imageI) (auto simp: in_set_conv_nth intro!: exI [of _ i])
    ultimately show ?thesis
      using assms(1) keep t' w cur i2 by (auto simp: two_only_def installed_def)
  qed
qed

lemma run_ticks_keeps:
  "two_only ps q t \<Longrightarrow> run_ticks t rs = Inr (t', xs) \<Longrightarrow> two_only ps q t' \<and> length xs = length rs \<and>
     tm_ticks t' = tm_ticks t + word_of_nat (length (filter ((=) None) xs))"
proof (induction rs arbitrary: t xs)
  case (Cons r rs)
  then obtain t1 x ys where t: "tick t r = Inr (t1, x)" "run_ticks t1 rs = Inr (t', ys)" "xs = x # ys"
    by auto
  then show ?case
    using tick_keeps [OF Cons.prems(1) t(1)] Cons.IH [OF _ t(2)] by (auto simp: add.assoc)
qed simp

section \<open>What the scheduler promises\<close>

text \<open>C34: Of two processes in turn, a process interrupted by the tick that switches is resumed fifty ticks
  later, with exactly the registers it was interrupted with (the stack pointer as it was before the interrupt) and in its own address space; in between
  the other process runs with its saved registers for fifty ticks, which are saved in turn.\<close>

theorem sched_resumes_where_interrupted:
  assumes "sched_runs c t" and "unat (sc_ticks (tm_data t)) mod 50 = 49" and "unat (sc_ticks (tm_data t)) + 51 < 2 ^ 64"
    and "A = processes (tm_k t) ! c" and "B = processes (tm_k t) ! (1 - c)" and "resumable B"
    and "priv A \<noteq> Driver" and "t_eip r \<noteq> 0" and "t_esp r + 12 \<noteq> 0" and "length rs = 49"
  shows "\<exists>t' regs. run_ticks t (r # rs @ [q]) = Inr (t', Some (state B) # replicate 49 None @ [Some regs]) \<and>
    (r_eax regs, r_ebx regs, r_ecx regs, r_edx regs, r_esi regs, r_edi regs, r_ebp regs) =
      (t_eax r, t_ebx r, t_ecx r, t_edx r, t_esi r, t_edi r, t_ebp r) \<and>
    r_esp regs = t_esp r + 12 \<and> r_eip regs = t_eip r \<and> r_cs regs = t_cs r \<and> r_eflags regs = t_eflags r \<and>
    (r_ds regs, r_es regs, r_fs regs, r_gs regs) = (r_ds (state A), r_es (state A), r_fs (state A), r_gs (state A)) \<and>
    activeProcessPid (tm_k t') = pid A \<and> activeDirectory (ks_mmu (tm_k t')) = procDir A \<and>
    state (processes (tm_k t') ! (1 - c)) = save_regs q (state B)"
proof -
  obtain t' where "run_ticks t (r # rs @ [q]) =
      Inr (t', Some (state B) # replicate 49 None @ [Some (save_regs r (state A))]) \<and>
    activeProcessPid (tm_k t') = pid A \<and> activeDirectory (ks_mmu (tm_k t')) = procDir A \<and>
    state (processes (tm_k t') ! (1 - c)) = save_regs q (state B)"
    using sched_turn [OF assms] by blast
  then show ?thesis
    by (intro exI [of _ t'] exI [of _ "save_regs r (state A)"]) (simp add: save_regs_def)
qed

text \<open>Only the first two processes of the list are ever given the processor: whatever the ticks
  interrupt and however many there are, a later process that is not active to begin with never
  becomes active. The kernel's own count of ticks falls behind by one for each switch.\<close>

theorem sched_starves_later_processes:
  assumes "installed t" and "currentProcess (tm_data t) \<in> {0, 1}" and "run_ticks t rs = Inr (t', xs)"
    and "distinct (List.map pid (processes (tm_k t)))" and "2 \<le> i" and "i < length (processes (tm_k t))"
    and "activeProcessPid (tm_k t) \<noteq> pid (processes (tm_k t) ! i)"
  shows "activeProcessPid (tm_k t') \<noteq> pid (processes (tm_k t) ! i) \<and>
    tm_ticks t' = tm_ticks t + word_of_nat (length (filter ((=) None) xs))"
proof -
  let ?ps = "processes (tm_k t)"
  have "two_only ?ps (activeProcessPid (tm_k t)) t"
    using assms(1,2) by (simp add: two_only_def)
  from run_ticks_keeps [OF this assms(3)] have two: "two_only ?ps (activeProcessPid (tm_k t)) t'"
    and n: "tm_ticks t' = tm_ticks t + word_of_nat (length (filter ((=) None) xs))"
    by auto
  have "pid (?ps ! j) \<noteq> pid (?ps ! i)" if "j < 2" "j < length ?ps" for j
    using assms(4-6) that by (auto simp: distinct_conv_nth)
  then show ?thesis
    using two n assms(7) by (auto simp: two_only_def)
qed

text \<open>When the process whose turn it is is marked as a driver, which the list of processes may well
  say of a process, the tick that is due panics the kernel.\<close>

theorem sched_driver_panics:
  assumes "sched_runs c t" and "due t" and "priv (processes (tm_k t) ! (1 - c)) = Driver"
  shows "tick t r = Inl (Panic ''Context switching to a process marked 'Driver' is forbidden.'')"
  using tick_switch [OF assms(1,2) refl] assms(3) by simp

text \<open>The scheduler installs its handler before it sets \<^verbatim>\<open>getpid\<close> and sets \<^verbatim>\<open>procList\<close> only after that: a
  tick that comes between the two assignments, while a process is active, reads the list through
  the null pointer; a tick before them does not.\<close>

theorem sched_start_race:
  assumes "activeProcessPid k \<noteq> 0" and "\<not> sc_procList s"
  shows "sched_pitHandler s k r =
    (if sc_getpid s then Inl OutOfBounds else Inr (s\<lparr>sc_ticks := sc_ticks s + 1\<rparr>, k, None))"
  using assms by (simp add: sched_pitHandler_def save_active_def)

section \<open>Two processes\<close>

definition p1 :: process where
  "p1 = p0\<lparr>pid := 2, state := (initial_state 0x9000), procDir := 0x102000\<rparr>"

definition demo_timer :: "sched timer" where
  "demo_timer = \<lparr>tm_ticks = 49, tm_mods = demo_table, tm_k = kernel0\<lparr>processes := [p0, p1, p1\<lparr>pid := 3\<rparr>]\<rparr>,
     tm_data = \<lparr>currentProcess = 0, sc_ticks = 49, sc_getpid = True, sc_procList = True\<rparr>\<rparr>"

definition demo_regs :: pitregs where
  "demo_regs = \<lparr>t_edi = 1, t_esi = 2, t_ebp = 3, t_esp = 0x7000, t_ebx = 4, t_edx = 5, t_ecx = 6, t_eax = 7,
     t_eip = 0x8123, t_cs = 8, t_eflags = 0x202\<rparr>"

lemma demo_timer_runs: "sched_runs 0 demo_timer"
  by (simp add: sched_runs_def installed_def demo_timer_def demo_table_def getFuncEntry_def kernel0_def p0_def p1_def)

theorem sched_resumes_where_interrupted_witness:
  "\<exists>t' regs. run_ticks demo_timer (demo_regs # replicate 49 demo_regs @ [demo_regs]) =
       Inr (t', Some (initial_state 0x9000) # replicate 49 None @ [Some regs]) \<and>
     r_eip regs = 0x8123 \<and> r_esp regs = 0x700C \<and> activeProcessPid (tm_k t') = 1"
proof -
  have "resumable p1"
    by (simp add: resumable_def p1_def p0_def initial_state_def STACK_BEGIN_def)
  then obtain t' regs where "run_ticks demo_timer (demo_regs # replicate 49 demo_regs @ [demo_regs]) =
      Inr (t', Some (state p1) # replicate 49 None @ [Some regs])"
    "r_esp regs = t_esp demo_regs + 12" "r_eip regs = t_eip demo_regs" "activeProcessPid (tm_k t') = pid p0"
    using sched_resumes_where_interrupted [OF demo_timer_runs, of p0 p1 demo_regs "replicate 49 demo_regs" demo_regs]
    by (auto simp: demo_timer_def p0_def demo_regs_def)
  then show ?thesis
    by (intro exI [of _ t'] exI [of _ regs]) (simp add: p0_def p1_def demo_regs_def)
qed

theorem sched_starves_later_processes_witness:
  "\<exists>t'. run_ticks demo_timer [demo_regs] = Inr (t', [Some (initial_state 0x9000)]) \<and> activeProcessPid (tm_k t') \<noteq> 3 \<and> tm_ticks t' = 49"
proof -
  let ?t = "switch_end 0 demo_regs demo_timer"
  have "resumable p1"
    by (simp add: resumable_def p1_def p0_def initial_state_def STACK_BEGIN_def)
  then have r: "run_ticks demo_timer [demo_regs] = Inr (?t, [Some (initial_state 0x9000)])"
    using run_switch [OF demo_timer_runs, of demo_regs] by (simp add: demo_timer_def p1_def)
  have "installed demo_timer"
    using demo_timer_runs by (simp add: sched_runs_def)
  then show ?thesis
    using sched_starves_later_processes [OF _ _ r, of 2] r
    by (simp add: demo_timer_def p0_def p1_def kernel0_def)
qed

theorem sched_driver_panics_witness:
  "tick (demo_timer\<lparr>tm_k := kernel0\<lparr>processes := [p0, p1\<lparr>priv := Driver\<rparr>]\<rparr>\<rparr>) demo_regs =
     Inl (Panic ''Context switching to a process marked 'Driver' is forbidden.'')"
  by (rule sched_driver_panics [of 0])
    (simp_all add: sched_runs_def installed_def demo_timer_def demo_table_def getFuncEntry_def kernel0_def p0_def p1_def due_def
      PROCESS_CTXTSWITCH_INTERVAL_def)

theorem sched_start_race_witness:
  "sched_pitHandler \<lparr>currentProcess = 0, sc_ticks = 0, sc_getpid = True, sc_procList = False\<rparr> kernel0 demo_regs = Inl OutOfBounds"
  using sched_start_race [of kernel0 "\<lparr>currentProcess = 0, sc_ticks = 0, sc_getpid = True, sc_procList = False\<rparr>" demo_regs]
  by (simp add: kernel0_def)

end
