(* ===== verification/InitList.thy ===== *)
theory InitList
  imports Rap Scheduler
begin

text \<open>
  The start of the scheduler process, \<^verbatim>\<open>sbinSrc/sched/sched.c\<close>: it reads the list of processes
  \<^verbatim>\<open>/etc/init.lst\<close>, a line \<^verbatim>\<open>path$name$PRV\<close> for each, and has the kernel load them
  (\<^verbatim>\<open>loadProcessFromFile\<close> of \<^verbatim>\<open>src/proc/process.cpp\<close>). The buffer is the text and the zero byte
  behind it; the output of the process is left out.
\<close>

section \<open>Reading the list\<close>

text \<open>The loop that looks for the newline, and what stands before and behind it.\<close>

fun split_line :: "u8 list \<Rightarrow> (u8 list \<times> u8 list) exec" where
  "split_line [] = Inl OutOfBounds"
| "split_line (c # s) =
     (if c \<noteq> 10 then bindE (split_line s) (\<lambda>(line, rest). Inr (c # line, rest)) else Inr ([], s))"

definition init_priv :: "u8 list \<Rightarrow> priveledge exec" where
  "init_priv privBuf =
     bindE (streq privBuf (bytes ''KRN'' @ [0])) (\<lambda>b. if b then Inr Kernel
     else bindE (streq privBuf (bytes ''DRV'' @ [0])) (\<lambda>b. if b then Inr Driver
     else bindE (streq privBuf (bytes ''USR'' @ [0])) (\<lambda>b. if b then Inr User
     else Inl (Exit 1))))"

text \<open>A line; \<open>s\<close> is the buffer from the line on, with its newline overwritten by zero.\<close>

definition init_line :: "u8 list \<Rightarrow> (u8 list \<times> u8 list \<times> priveledge) exec" where
  "init_line s =
     bindE (countOccurence s 36) (\<lambda>occurence.
     if occurence \<noteq> 2 then Inl (Exit 1)
     else
       bindE (ustrlenSpecChar s 36) (\<lambda>n.
       bindE (ucopy s (unat n)) (\<lambda>procPathBuf.
       let s1 = drop (Suc (unat n)) s in
       bindE (ustrlenSpecChar s1 36) (\<lambda>m.
       bindE (ucopy s1 (unat m)) (\<lambda>procNameBuf.
       let s2 = drop (Suc (unat m)) s1 in
       bindE (strlen s2) (\<lambda>l.
       if l \<noteq> 3 then Inl (Exit 1)
       else bindE (strcpy (replicate 4 0) s2) (\<lambda>privBuf.
         bindE (init_priv privBuf) (\<lambda>procPrivLvl. Inr (procPathBuf, procNameBuf, procPrivLvl)))))))))"

text \<open>The loop over the lines; \<open>load\<close> is the function of the kernel the scheduler calls.\<close>

lemma split_line_shorter: "split_line s = Inr (line, rest) \<Longrightarrow> length rest < length s"
  by (induction s arbitrary: line rest) (fastforce split: if_splits)+

function init_loop :: "('w \<Rightarrow> u8 list \<Rightarrow> u8 list \<Rightarrow> priveledge \<Rightarrow> 'w exec) \<Rightarrow> u8 list \<Rightarrow> 'w \<Rightarrow> 'w exec" where
  "init_loop load buf w =
     (case buf of [] \<Rightarrow> Inl OutOfBounds
      | c # s \<Rightarrow>
        if c = 0 then Inr w
        else bindE (split_line buf) (\<lambda>(line, rest).
          bindE (init_line (line @ 0 # rest)) (\<lambda>(path, name, pl).
          bindE (load w path name pl) (\<lambda>w'. init_loop load rest w'))))"
  by pat_completeness auto
termination
  by (relation "measure (\<lambda>(load, buf, w). length buf)") (auto simp del: split_line.simps dest: split_line_shorter)

declare init_loop.simps [simp del]

definition sched_init :: "('w \<Rightarrow> u8 list \<Rightarrow> u8 list \<Rightarrow> priveledge \<Rightarrow> 'w exec) \<Rightarrow> u8 list \<Rightarrow> 'w \<Rightarrow> 'w exec" where
  "sched_init load conts w = init_loop load (conts @ [0]) w"

section \<open>Loading a process\<close>

text \<open>
  \<open>files\<close> is what the file system answers for a path. \<^verbatim>\<open>fromFile\<close> leaves the pointer to the image
  unset when there is no file, which nobody looks at.
\<close>

definition loadProcessFromFile :: "(u8 list \<Rightarrow> u8 list option) \<Rightarrow> kstate \<Rightarrow> u8 list \<Rightarrow> u8 list \<Rightarrow> priveledge \<Rightarrow> (process option \<times> kstate) exec" where
  "loadProcessFromFile files k fp procname pl = (case files fp of
      None \<Rightarrow> Inl OutOfBounds
    | Some e \<Rightarrow> bindE (elf_isValid e) (\<lambda>v.
        if \<not> v then Inr (None, k)
        else bindE (elf_load fp e k procname pl) (\<lambda>(p, k'). Inr (Some p, k'))))"

section \<open>The list that is written\<close>

text \<open>An entry, its line, and which entries a line can hold.\<close>

record init_entry =
  ie_path :: "u8 list"
  ie_name :: "u8 list"
  ie_priv :: priveledge

fun priv_text :: "priveledge \<Rightarrow> u8 list" where
  "priv_text Kernel = bytes ''KRN''"
| "priv_text Driver = bytes ''DRV''"
| "priv_text User = bytes ''USR''"

definition line_text :: "init_entry \<Rightarrow> u8 list" where
  "line_text e = ie_path e @ 36 # ie_name e @ 36 # priv_text (ie_priv e)"

definition field_ok :: "u8 list \<Rightarrow> bool" where
  "field_ok s \<longleftrightarrow> 0 \<notin> set s \<and> 10 \<notin> set s \<and> 36 \<notin> set s \<and> length s < 2 ^ 32"

definition entry_ok :: "init_entry \<Rightarrow> bool" where
  "entry_ok e \<longleftrightarrow> field_ok (ie_path e) \<and> field_ok (ie_name e)"

lemma split_line_eq: "10 \<notin> set a \<Longrightarrow> split_line (a @ 10 # s) = Inr (a, s)"
  by (induction a) auto

lemma split_line_none: "10 \<notin> set a \<Longrightarrow> split_line a = Inl OutOfBounds"
  by (induction a) auto

lemma priv_text_props: "length (priv_text p) = 3" "0 \<notin> set (priv_text p)" "10 \<notin> set (priv_text p)" "36 \<notin> set (priv_text p)"
  by (cases p; simp)+

lemma count_none: "c \<notin> set s \<Longrightarrow> length (filter (\<lambda>x. x = c) s) = 0"
  by (induction s) auto

lemma init_priv_eq: "init_priv (priv_text p @ [0]) = Inr p"
  by (cases p) (simp_all add: init_priv_def streq_eq)

lemma init_line_eq:
  assumes "entry_ok e"
  shows "init_line (line_text e @ 0 # rest) = Inr (ie_path e @ [0], ie_name e @ [0], ie_priv e)"
proof -
  let ?p = "ie_path e" and ?n = "ie_name e" and ?v = "priv_text (ie_priv e)"
  let ?s = "line_text e @ 0 # rest"
  note ok = assms [unfolded entry_ok_def field_ok_def]
  have "cstr ?s = line_text e"
    using ok priv_text_props by (intro cstr_append_nul) (simp add: line_text_def)
  then have occ: "countOccurence ?s 36 = Inr 2"
    using ok priv_text_props by (simp add: countOccurence_eq line_text_def count_none)
  have s: "?s = ?p @ 36 # (?n @ 36 # (?v @ 0 # rest))"
    by (simp add: line_text_def)
  have up: "unat (word_of_nat (length ?p) :: u32) = length ?p" "unat (word_of_nat (length ?n) :: u32) = length ?n"
    using ok by simp_all
  have n: "ustrlenSpecChar (?p @ 36 # t) 36 = Inr (word_of_nat (length ?p))"
    "ustrlenSpecChar (?n @ 36 # t) 36 = Inr (word_of_nat (length ?n))" for t
    using ok by (simp_all add: ustrlenSpecChar_eq)
  have "cstr (?v @ 0 # rest) = ?v"
    using priv_text_props(2) by (rule cstr_append_nul)
  then have v: "strlen (?v @ 0 # rest) = Inr 3" "strcpy (replicate 4 0) (?v @ 0 # rest) = Inr (?v @ [0])"
    by (simp_all add: strlen_eq strcpy_eq priv_text_props)
  have dr: "drop (Suc (length a)) (a @ x # t) = t" for a t and x :: u8
    by simp
  show ?thesis
    unfolding init_line_def s occ [unfolded s]
    by (simp only: n up v ucopy_eq dr bindE.simps Let_def init_priv_eq simp_thms if_False)
qed

text \<open>The calls of \<open>load\<close>, one after the other.\<close>

fun load_all :: "('w \<Rightarrow> u8 list \<Rightarrow> u8 list \<Rightarrow> priveledge \<Rightarrow> 'w exec) \<Rightarrow> init_entry list \<Rightarrow> 'w \<Rightarrow> 'w exec" where
  "load_all load [] w = Inr w"
| "load_all load (e # es) w = bindE (load w (ie_path e @ [0]) (ie_name e @ [0]) (ie_priv e)) (load_all load es)"

lemma line_nonempty: "line_text e @ s \<noteq> []" "hd (line_text e @ s) \<noteq> 0" if "entry_ok e"
  using that by (cases "ie_path e"; auto simp: line_text_def entry_ok_def field_ok_def)+

lemma init_loop_entry:
  assumes "entry_ok e"
  shows "init_loop load (line_text e @ 10 # rest) w =
    bindE (load w (ie_path e @ [0]) (ie_name e @ [0]) (ie_priv e)) (init_loop load rest)"
proof -
  have "10 \<notin> set (line_text e)"
    using assms priv_text_props by (simp add: line_text_def entry_ok_def field_ok_def)
  then have "split_line (line_text e @ 10 # rest) = Inr (line_text e, rest)"
    by (rule split_line_eq)
  then show ?thesis
    using line_nonempty [OF assms, of "10 # rest"] init_line_eq [OF assms]
    by (subst init_loop.simps) (auto split: list.split)
qed

definition init_text :: "init_entry list \<Rightarrow> u8 list" where
  "init_text es = concat (List.map (\<lambda>e. line_text e @ [10]) es)"

lemma init_loop_entries:
  "list_all entry_ok es \<Longrightarrow> init_loop load (init_text es @ s) w = bindE (load_all load es w) (init_loop load s)"
proof (induction es arbitrary: w)
  case (Cons e es)
  then show ?case
    by (simp add: init_text_def init_loop_entry bindE_assoc cong: bindE_cong)
qed (simp add: init_text_def)

section \<open>The processes that are started\<close>

definition load_into :: "(u8 list \<Rightarrow> u8 list option) \<Rightarrow> kstate \<Rightarrow> u8 list \<Rightarrow> u8 list \<Rightarrow> priveledge \<Rightarrow> kstate exec" where
  "load_into files k path name pl = bindE (loadProcessFromFile files k path name pl) (\<lambda>(proc, k'). Inr k')"

text \<open>Whether the file of an entry is a program the loader takes; others are passed over in silence.\<close>

definition loads :: "(u8 list \<Rightarrow> u8 list option) \<Rightarrow> init_entry \<Rightarrow> bool" where
  "loads files e \<longleftrightarrow> (\<exists>f. files (ie_path e @ [0]) = Some f \<and> elf_isValid f = Inr True)"

fun numbered :: "u32 \<Rightarrow> init_entry list \<Rightarrow> (u32 \<times> u8 list \<times> priveledge) list" where
  "numbered n [] = []"
| "numbered n (e # es) = (n, ie_name e @ [0], ie_priv e) # numbered (n + 1) es"

lemma load_into_step:
  assumes "load_into files k (ie_path e @ [0]) (ie_name e @ [0]) (ie_priv e) = Inr k'"
  shows "if loads files e then \<exists>p. processes k' = processes k @ [p] \<and> (pid p, pname p, priv p) = (latestPid k, ie_name e @ [0], ie_priv e) \<and>
      r_eip (state p) = entryPoint p \<and> latestPid k' = latestPid k + 1 \<and> activeProcessPid k' = activeProcessPid k
    else k' = k"
proof -
  obtain f v where f: "files (ie_path e @ [0]) = Some f" "elf_isValid f = Inr v"
    using assms by (auto simp: load_into_def loadProcessFromFile_def split: option.splits)
  show ?thesis
  proof (cases v)
    case True
    then obtain p where "elf_load (ie_path e @ [0]) f k (ie_name e @ [0]) (ie_priv e) = Inr (p, k')"
      using assms f by (auto simp: load_into_def loadProcessFromFile_def)
    then show ?thesis
      using elf_load_registers f True by (auto simp: loads_def)
  next
    case False
    then show ?thesis
      using assms f by (auto simp: load_into_def loadProcessFromFile_def loads_def)
  qed
qed

lemma load_all_processes:
  "load_all (load_into files) es k = Inr k' \<Longrightarrow>
     \<exists>ps. processes k' = processes k @ ps \<and>
       List.map (\<lambda>p. (pid p, pname p, priv p)) ps = numbered (latestPid k) (filter (loads files) es) \<and>
       activeProcessPid k' = activeProcessPid k"
proof (induction es arbitrary: k)
  case Nil
  then show ?case
    by simp
next
  case (Cons e es)
  then obtain k1 where k1: "load_into files k (ie_path e @ [0]) (ie_name e @ [0]) (ie_priv e) = Inr k1"
    "load_all (load_into files) es k1 = Inr k'"
    by auto
  from Cons.IH [OF k1(2)] obtain ps where ps: "processes k' = processes k1 @ ps"
    "List.map (\<lambda>p. (pid p, pname p, priv p)) ps = numbered (latestPid k1) (filter (loads files) es)"
    "activeProcessPid k' = activeProcessPid k1"
    by blast
  show ?case
  proof (cases "loads files e")
    case True
    then obtain p where "processes k1 = processes k @ [p]" "(pid p, pname p, priv p) = (latestPid k, ie_name e @ [0], ie_priv e)"
      "latestPid k1 = latestPid k + 1" "activeProcessPid k1 = activeProcessPid k"
      using load_into_step [OF k1(1)] by auto
    then show ?thesis
      using ps True by (intro exI [of _ "p # ps"]) simp
  next
    case False
    then show ?thesis
      using load_into_step [OF k1(1)] ps by auto
  qed
qed

section \<open>What the start promises\<close>

text \<open>C30: A list of entries written line by line is read back: the scheduler has the kernel load exactly
  the processes of the list, in their order, with the names and privileges of their lines; each
  one whose file is a valid program is appended to the kernel's list under the next pid, and none
  is switched to.\<close>

theorem init_list_starts_processes:
  assumes "list_all entry_ok es" and "sched_init (load_into files) (init_text es) k = Inr k'"
  shows "load_all (load_into files) es k = Inr k' \<and>
    (\<exists>ps. processes k' = processes k @ ps \<and>
       List.map (\<lambda>p. (pid p, pname p, priv p)) ps = numbered (latestPid k) (filter (loads files) es) \<and>
       activeProcessPid k' = activeProcessPid k)"
proof -
  have "init_loop (load_into files) [0] w = Inr w" for w
    by (simp add: init_loop.simps)
  then have "load_all (load_into files) es k = Inr k'"
    using init_loop_entries [OF assms(1), of "load_into files" "[0]" k] assms(2)
    by (auto simp: sched_init_def)
  then show ?thesis
    using load_all_processes by blast
qed

text \<open>After valid lines, a last line without its newline makes the scheduler run past the buffer, and
  a line without exactly two separators makes it exit with code 1; in both cases the processes
  before have been loaded.\<close>

theorem init_list_bad_line:
  assumes "list_all entry_ok es" and "load_all load es w = Inr w'" and "line \<noteq> []" and "0 \<notin> set line" and "10 \<notin> set line"
  shows "sched_init load (init_text es @ line) w = Inl OutOfBounds \<and>
    (length line < 2 ^ 32 \<and> count_list line 36 \<noteq> 2 \<longrightarrow> sched_init load (init_text es @ line @ [10]) w = Inl (Exit 1))"
proof (intro conjI impI)
  obtain c s where l: "line = c # s" "c \<noteq> 0"
    using assms(3,4) by (cases line) auto
  have "split_line (line @ [0]) = Inl OutOfBounds"
    using assms(5) by (intro split_line_none) simp
  then have "init_loop load (line @ [0]) w' = Inl OutOfBounds"
    using l by (subst init_loop.simps) (simp del: split_line.simps)
  then show "sched_init load (init_text es @ line) w = Inl OutOfBounds"
    using init_loop_entries [OF assms(1), of load "line @ [0]" w] assms(2) by (simp add: sched_init_def)
  assume n: "length line < 2 ^ 32 \<and> count_list line 36 \<noteq> 2"
  have "count_list line 36 < 2 ^ 32"
    by (rule le_less_trans [OF count_le_length conjunct1 [OF n]])
  then have u: "unat (word_of_nat (count_list line 36) :: u32) = count_list line 36"
    by (rule unat_of_nat32)
  have "(word_of_nat (count_list line 36) :: u32) \<noteq> 2"
  proof
    assume "(word_of_nat (count_list line 36) :: u32) = 2"
    then show False
      using u n by simp
  qed
  moreover have "cstr (line @ 0 # t) = line" for t
    using assms(4) by (rule cstr_append_nul)
  ultimately have "init_line (line @ [0, 0]) = Inl (Exit 1)"
    by (simp add: init_line_def countOccurence_eq)
  moreover have "split_line (line @ 10 # [0]) = Inr (line, [0])"
    using assms(5) by (rule split_line_eq)
  ultimately have "init_loop load (line @ [10, 0]) w' = Inl (Exit 1)"
    using l by (subst init_loop.simps) (simp del: split_line.simps add: init_loop.simps [of load "[0]"])
  then show "sched_init load (init_text es @ line @ [10]) w = Inl (Exit 1)"
    using init_loop_entries [OF assms(1), of load "line @ [10, 0]" w] assms(2) by (simp add: sched_init_def)
qed

section \<open>The list that is shipped\<close>

definition shipped :: init_entry where
  "shipped = \<lparr>ie_path = bytes ''/krn/bin/de'', ie_name = bytes ''Vela'', ie_priv = Kernel\<rparr>"

lemma shipped_ok: "list_all entry_ok [shipped]"
  by (simp add: shipped_def entry_ok_def field_ok_def)

theorem init_list_starts_processes_witness:
  "\<exists>p k'. sched_init (load_into (\<lambda>_. Some sample_elf)) (bytes ''/krn/bin/de$Vela$KRN'' @ [10]) kernel1 = Inr k' \<and>
     processes k' = [p0, p] \<and> pid p = 2 \<and> pname p = bytes ''Vela'' @ [0]"
proof -
  let ?load = "load_into (\<lambda>_. Some sample_elf)"
  obtain m where m: "createAddressSpace (ks_mmu kernel1) = Inr (0x120000, m)"
    by (rule kernel1_space)
  have hdr: "elf_phoff sample_elf = Inr 52" "elf_phnum sample_elf = Inr 0" "elf_phentsize sample_elf = Inr 0"
    "elf_programEntry sample_elf = Inr 0x08048054" and valid: "elf_isValid sample_elf = Inr True"
    by code_simp+
  obtain k' where k': "load_all ?load [shipped] kernel1 = Inr k'"
    using m hdr valid by (auto simp: load_into_def loadProcessFromFile_def elf_load_def getNewPid_def Let_def)
  have "init_loop ?load [0] w = Inr w" for w
    by (simp add: init_loop.simps)
  then have run: "sched_init ?load (init_text [shipped]) kernel1 = Inr k'"
    using init_loop_entries [OF shipped_ok, of ?load "[0]" kernel1] k' by (auto simp: sched_init_def)
  have "filter (loads (\<lambda>_. Some sample_elf)) [shipped] = [shipped]"
    using valid by (simp add: loads_def)
  with init_list_starts_processes [OF shipped_ok run] obtain ps where "processes k' = processes kernel1 @ ps"
    "List.map (\<lambda>p. (pid p, pname p, priv p)) ps = numbered (latestPid kernel1) [shipped]"
    by auto
  moreover have "init_text [shipped] = bytes ''/krn/bin/de$Vela$KRN'' @ [10]"
    by (simp add: init_text_def line_text_def shipped_def)
  ultimately show ?thesis
    using run by (auto simp: kernel1_def kernel0_def shipped_def map_eq_Cons_conv)
qed

theorem init_list_bad_line_witness:
  "sched_init (\<lambda>w p n v. Inr (w + 1)) (init_text [shipped] @ bytes ''/a$b'') (0 :: nat) = Inl OutOfBounds \<and>
   sched_init (\<lambda>w p n v. Inr (w + 1)) (init_text [shipped] @ bytes ''/a$b'' @ [10]) (0 :: nat) = Inl (Exit 1)"
  using init_list_bad_line [OF shipped_ok, of "\<lambda>w p n v. Inr (w + 1)" "0 :: nat" 1 "bytes ''/a$b''"] by simp

end
