(* ===== verification/DevFs.thy ===== *)
theory DevFs
  imports FileSystem Terminal SerialLog Str
begin

text \<open>
  The driver of \<^verbatim>\<open>/dev/\<close>, \<^verbatim>\<open>src/drivers/fs/dev/dev.hpp\<close>: three devices behind names. What the
  devices keep, the screen of the terminal and the bytes sent to the serial log are the state.
  \<open>sal\<close> is the heap of the kernel strings; the other allocations are taken to succeed and the
  freed blocks are not part of the state.
\<close>

section \<open>The devices\<close>

datatype devsub = Stdout | Stdin | Stdlog

record dev =
  d_stdout :: "u8 list"
  d_stdin :: "u8 list"
  d_cursor :: u16
  d_mappings :: "(u8 list \<times> devsub) list"
  d_screen :: screen
  d_serial :: "u8 list"

definition DEVBUF :: nat where "DEVBUF = 4096"

text \<open>The loop that copies \<open>len\<close> bytes but no more than the buffer has.\<close>

definition dev_copy :: "u8 list \<Rightarrow> u32 \<Rightarrow> u8 list" where
  "dev_copy buf len = take (min (unat len) DEVBUF) buf"

definition stdout_write :: "u8 list \<Rightarrow> dev \<Rightarrow> (success \<times> dev) exec" where
  "stdout_write conts s =
     (let n = min (length conts) DEVBUF; s1 = s\<lparr>d_stdout := take n conts @ drop n (d_stdout s)\<rparr> in
      bindE (term_write conts (length conts) (d_screen s1)) (\<lambda>scr.
      let tmpBuf = conts @ [0] in
      bindE (serial_logf (bytes ''[STDOUT WRITE]: %s'' @ [0]) [AStr tmpBuf]) (\<lambda>out.
      Inr (Sucess, s1\<lparr>d_screen := scr, d_serial := d_serial s1 @ out\<rparr>))))"

definition stdin_write :: "u8 list \<Rightarrow> dev \<Rightarrow> (success \<times> dev) exec" where
  "stdin_write conts s =
     (if length conts \<noteq> 1 then Inr (Error, s)
      else (let s1 = (if unat (d_cursor s) + 1 \<ge> 4096 then s\<lparr>d_stdin := replicate DEVBUF 0, d_cursor := 0\<rparr> else s)
        in if unat (d_cursor s1) < length (d_stdin s1)
           then Inr (Sucess, s1\<lparr>d_stdin := (d_stdin s1)[unat (d_cursor s1) := conts ! 0], d_cursor := d_cursor s1 + 1\<rparr>)
           else Inl OutOfBounds))"

text \<open>The log device copies the text into a string of the kernel, which is dropped again, and ends it.\<close>

definition stdlog_write :: "(nat \<Rightarrow> u8 list) \<Rightarrow> u8 list \<Rightarrow> dev \<Rightarrow> (success \<times> dev) exec" where
  "stdlog_write sal conts s =
     bindE (str_from sal conts) (\<lambda>st.
     bindE (poke (s_buf st) (word_of_nat (length conts)) 0) (\<lambda>b. Inr (Sucess, s)))"

fun sub_read :: "devsub \<Rightarrow> u32 \<Rightarrow> dev \<Rightarrow> success \<times> u8 list" where
  "sub_read Stdout len s = (Sucess, dev_copy (d_stdout s) len)"
| "sub_read Stdin len s = (Sucess, dev_copy (d_stdin s) len)"
| "sub_read Stdlog len s = (Error, [])"

fun sub_write :: "(nat \<Rightarrow> u8 list) \<Rightarrow> devsub \<Rightarrow> u8 list \<Rightarrow> dev \<Rightarrow> (success \<times> dev) exec" where
  "sub_write sal Stdout conts s = stdout_write conts s"
| "sub_write sal Stdin conts s = stdin_write conts s"
| "sub_write sal Stdlog conts s = stdlog_write sal conts s"

fun sub_init :: "devsub \<Rightarrow> dev \<Rightarrow> dev" where
  "sub_init Stdout s = s\<lparr>d_stdout := replicate DEVBUF 0\<rparr>"
| "sub_init Stdin s = s\<lparr>d_cursor := 0, d_stdin := replicate DEVBUF 0\<rparr>"
| "sub_init Stdlog s = s"

section \<open>The driver\<close>

text \<open>The map of the names compares their characters.\<close>

fun dev_lookup :: "(u8 list \<times> devsub) list \<Rightarrow> u8 list \<Rightarrow> devsub option exec" where
  "dev_lookup [] fp = Inr None"
| "dev_lookup (m # ms) fp = bindE (streq (fst m) fp) (\<lambda>b. if b then Inr (Some (snd m)) else dev_lookup ms fp)"

definition dev_init :: "dev \<Rightarrow> dev" where
  "dev_init s =
     (let s1 = s\<lparr>d_mappings := d_mappings s @ [(bytes ''stdout'' @ [0], Stdout), (bytes ''stdin'' @ [0], Stdin),
                                (bytes ''stdlog'' @ [0], Stdlog)]\<rparr>
      in fold (\<lambda>kv. sub_init (snd kv)) (d_mappings s1) s1)"

text \<open>A file of the driver is the name behind \<^verbatim>\<open>/dev/\<close>.\<close>

definition dev_open :: "dev \<Rightarrow> u8 list \<Rightarrow> u8 list fsfile exec" where
  "dev_open s fp0 =
     (let fp = drop 5 fp0 in
      bindE (strlen fp) (\<lambda>n.
      bindE (strcpy (replicate (Suc (unat n)) 0) fp) (\<lambda>copy.
      bindE (dev_lookup (d_mappings s) fp) (\<lambda>r.
      Inr \<lparr>f_fsData = copy, f_size = 0, f_exists = (r \<noteq> None)\<rparr>))))"

definition dev_read :: "dev \<Rightarrow> u8 list fsfile \<Rightarrow> u32 \<Rightarrow> (success \<times> u8 list) exec" where
  "dev_read s f len =
     bindE (dev_lookup (d_mappings s) (f_fsData f)) (\<lambda>r. case r of
       None \<Rightarrow> Inr (Error, [])
     | Some sub \<Rightarrow> Inr (sub_read sub len s))"

definition dev_write :: "(nat \<Rightarrow> u8 list) \<Rightarrow> dev \<Rightarrow> u8 list fsfile \<Rightarrow> u8 list \<Rightarrow> (success \<times> dev) exec" where
  "dev_write sal s f obuf =
     bindE (dev_lookup (d_mappings s) (f_fsData f)) (\<lambda>r. case r of
       None \<Rightarrow> Inr (Error, s)
     | Some sub \<Rightarrow> sub_write sal sub obuf s)"

definition dev_fileExists :: "dev \<Rightarrow> u8 list \<Rightarrow> bool exec" where
  "dev_fileExists s fp = bindE (dev_lookup (d_mappings s) fp) (\<lambda>r. Inr (r \<noteq> None))"

definition dev_driver :: "(nat \<Rightarrow> u8 list) \<Rightarrow> (dev, u8 list) fsdriver" where
  "dev_driver sal =
     \<lparr>drv_shouldActivate = (\<lambda>w. Inr (True, w)),
      drv_init = (\<lambda>w. Inr (dev_init w)),
      drv_open = (\<lambda>w fp. bindE (dev_open w fp) (\<lambda>f. Inr (f, w))),
      drv_read = (\<lambda>w f len. bindE (dev_read w f len) (\<lambda>(r, out). Inr (r, out, w))),
      drv_write = (\<lambda>w f conts. dev_write sal w f conts),
      drv_close = (\<lambda>w f. Inr w)\<rparr>"

section \<open>The devices under their names\<close>

definition dev_ok :: "dev \<Rightarrow> bool" where
  "dev_ok s \<longleftrightarrow> d_mappings s = [(bytes ''stdout'' @ [0], Stdout), (bytes ''stdin'' @ [0], Stdin), (bytes ''stdlog'' @ [0], Stdlog)] \<and>
     length (d_stdin s) = DEVBUF \<and> length (d_stdout s) = DEVBUF \<and> unat (d_cursor s) < DEVBUF \<and>
     (\<forall>i. unat (d_cursor s) \<le> i \<and> i < DEVBUF \<longrightarrow> d_stdin s ! i = 0)"

definition dev_name :: "devsub \<Rightarrow> u8 list" where
  "dev_name d = (case d of Stdout \<Rightarrow> bytes ''stdout'' | Stdin \<Rightarrow> bytes ''stdin'' | Stdlog \<Rightarrow> bytes ''stdlog'')"

lemma dev_ok_init: "d_mappings s = [] \<Longrightarrow> dev_ok (dev_init s)"
  by (simp add: dev_ok_def dev_init_def DEVBUF_def)

lemma dev_lookup_name:
  "dev_ok s \<Longrightarrow> dev_lookup (d_mappings s) (dev_name d @ [0]) = Inr (Some d)"
  by (cases d) (simp_all add: dev_ok_def dev_name_def streq_eq)

lemma dev_lookup_total:
  "dev_ok s \<Longrightarrow> terminated fp \<Longrightarrow> dev_lookup (d_mappings s) fp =
     Inr (if cstr fp = dev_name Stdout then Some Stdout else if cstr fp = dev_name Stdin then Some Stdin
          else if cstr fp = dev_name Stdlog then Some Stdlog else None)"
  by (auto simp: dev_ok_def dev_name_def streq_eq)

definition dev_path :: "devsub \<Rightarrow> u8 list" where
  "dev_path d = bytes ''/dev/'' @ dev_name d @ [0]"

definition dev_file :: "devsub \<Rightarrow> u8 list fsfile" where
  "dev_file d = \<lparr>f_fsData = dev_name d @ [0], f_size = 0, f_exists = True\<rparr>"

lemma dev_name_short: "length (dev_name d) < 8" "0 \<notin> set (dev_name d)"
  by (cases d; simp add: dev_name_def)+

lemma dev_open_eq:
  assumes "dev_ok s"
  shows "dev_open s (dev_path d) = Inr (dev_file d)"
proof -
  have fp: "drop 5 (dev_path d) = dev_name d @ [0]"
    by (simp add: dev_path_def)
  have c: "cstr (dev_name d @ [0]) = dev_name d"
    using dev_name_short(2) by (rule cstr_append_nul)
  have u: "unat (word_of_nat (length (dev_name d)) :: u32) = length (dev_name d)"
    using dev_name_short(1) [of d] by simp
  have l: "strlen (dev_name d @ [0]) = Inr (word_of_nat (length (dev_name d)))"
    by (cases d) (simp_all add: dev_name_def strlen_eq)
  have "strcpy (replicate (Suc (length (dev_name d))) 0) (dev_name d @ [0]) = Inr (dev_name d @ [0])"
    by (cases d) (simp_all add: dev_name_def strcpy_eq)
  then show ?thesis
    unfolding dev_open_def fp Let_def l bindE.simps u by (simp add: dev_lookup_name [OF assms] dev_file_def)
qed

text \<open>What has been typed and not yet wrapped around.\<close>

definition stdin_text :: "dev \<Rightarrow> u8 list" where
  "stdin_text s = take (unat (d_cursor s)) (d_stdin s)"

definition type_char :: "u8 \<Rightarrow> u8 list \<Rightarrow> u8 list" where
  "type_char c t = (if length t + 1 \<ge> DEVBUF then [c] else t @ [c])"

lemma stdin_write_eq:
  assumes "dev_ok s"
  shows "\<exists>s'. stdin_write [c] s = Inr (Sucess, s') \<and> dev_ok s' \<and> stdin_text s' = type_char c (stdin_text s) \<and>
    s' = s\<lparr>d_stdin := d_stdin s', d_cursor := d_cursor s'\<rparr>"
proof -
  have d: "length (d_stdin s) = DEVBUF" "unat (d_cursor s) < DEVBUF"
    "\<And>i. unat (d_cursor s) \<le> i \<Longrightarrow> i < DEVBUF \<Longrightarrow> d_stdin s ! i = 0"
    using assms by (simp_all add: dev_ok_def)
  have t: "length (stdin_text s) = unat (d_cursor s)"
    using d by (simp add: stdin_text_def)
  show ?thesis
  proof (cases "unat (d_cursor s) + 1 \<ge> DEVBUF")
    case True
    then show ?thesis
      using assms t by (auto simp: stdin_write_def DEVBUF_def dev_ok_def stdin_text_def type_char_def nth_list_update take_Suc_conv_app_nth)
  next
    case False
    then have u: "unat (d_cursor s + 1) = unat (d_cursor s) + 1"
      using unat_plus_nat [of "d_cursor s" 1] by (simp add: DEVBUF_def)
    let ?s = "s\<lparr>d_stdin := (d_stdin s)[unat (d_cursor s) := c], d_cursor := d_cursor s + 1\<rparr>"
    have "stdin_write [c] s = Inr (Sucess, ?s)"
      using False d by (simp add: stdin_write_def DEVBUF_def Let_def)
    moreover have "dev_ok ?s"
      using assms u False by (auto simp: dev_ok_def)
    moreover have "stdin_text ?s = type_char c (stdin_text s)"
      using d False t u by (simp add: stdin_text_def type_char_def take_Suc_conv_app_nth)
    ultimately show ?thesis
      by auto
  qed
qed

lemma stdout_log: "\<exists>out. serial_logf (bytes ''[STDOUT WRITE]: %s'' @ [0]) [AStr (conts @ [0])] = Inr out"
proof -
  let ?ps = "List.map Lit (bytes ''[STDOUT WRITE]: '') @ [PStr (conts @ [0])]"
  have "format_of ?ps = bytes ''[STDOUT WRITE]: %s'' @ [0]" "args_of ?ps = [AStr (conts @ [0])]"
    by (simp_all add: format_of_def args_of_def)
  moreover have "list_all serial_ok ?ps"
    by simp
  moreover have "\<not> list_ex numeric ?ps"
    by simp
  ultimately show ?thesis
    using serial_logf_eq [of ?ps] by metis
qed

lemma putChar_total: "unat c < 128 \<Longrightarrow> \<exists>scr'. putChar c scr = Inr scr'"
  by (simp add: putChar_def Let_def length_font)

lemma term_chars_total: "list_all (\<lambda>c. unat c < 128) cs \<Longrightarrow> \<exists>scr'. term_chars cs scr = Inr scr'"
proof (induction cs arbitrary: scr)
  case (Cons c cs)
  then show ?case
    using putChar_total [of c scr] by fastforce
qed simp

lemma stdout_write_eq:
  assumes "dev_ok s" and "list_all (\<lambda>c. unat c < 128) conts"
  shows "\<exists>s'. stdout_write conts s = Inr (Sucess, s') \<and> dev_ok s' \<and> term_chars conts (d_screen s) = Inr (d_screen s') \<and>
    stdin_text s' = stdin_text s \<and> take (min (length conts) DEVBUF) (d_stdout s') = take DEVBUF conts"
proof -
  obtain scr where scr: "term_chars conts (d_screen s) = Inr scr"
    using term_chars_total [OF assms(2)] by blast
  obtain out where out: "serial_logf (bytes ''[STDOUT WRITE]: %s'' @ [0]) [AStr (conts @ [0])] = Inr out"
    using stdout_log by blast
  let ?n = "min (length conts) DEVBUF"
  let ?s = "s\<lparr>d_stdout := take ?n conts @ drop ?n (d_stdout s), d_screen := scr, d_serial := d_serial s @ out\<rparr>"
  have "stdout_write conts s = Inr (Sucess, ?s)"
    unfolding stdout_write_def Let_def out by (simp add: term_write_def scr)
  moreover have "dev_ok ?s"
    using assms(1) by (simp add: dev_ok_def)
  moreover have "take ?n (d_stdout ?s) = take DEVBUF conts"
    by (simp add: min_def)
  ultimately show ?thesis
    using scr by (intro exI [of _ ?s]) (simp add: stdin_text_def)
qed

section \<open>What the devices promise\<close>

text \<open>Writing to \<^verbatim>\<open>/dev/stdlog\<close> logs nothing; it ends a copy of the string at the length the caller states,
  without comparing it with the copy: a length of the size of the copy or more, which the system
  call passes on from the user program, writes a zero byte outside the block.\<close>

theorem stdlog_write_ends_outside:
  assumes "terminated conts" and "length conts < 2 ^ 31" and "\<And>n. length (sal n) = n"
  shows "stdlog_write sal conts s =
    (if length conts < (if length (cstr conts) < 5 then 5 else length (cstr conts) + 5) then Inr (Sucess, s) else Inl OutOfBounds)"
proof -
  let ?n = "length (cstr conts)" and ?m = "MINIMUM_STR_SIZE"
  have n: "?n < length conts"
    using assms(1) by (rule cstr_length_less)
  then have u: "unat (word_of_nat ?n :: u32) = ?n"
    using assms(2) by simp
  define a :: u32 where "a = (if word_of_nat ?n \<ge> ?m then word_of_nat ?n + ?m else ?m)"
  have m: "unat ?m = 5" "?m = word_of_nat 5"
    by (simp_all add: MINIMUM_STR_SIZE_def)
  have ua: "unat a = (if ?n < 5 then 5 else ?n + 5)"
    using unat_plus_nat [of "word_of_nat ?n :: u32" 5] u n assms(2) by (auto simp: a_def word_le_nat_alt m)
  then have "?n < length (sal (unat a))"
    using assms(3) by simp
  then have cp: "strcpy (sal (unat a)) conts = Inr (cstr conts @ 0 # drop (Suc ?n) (sal (unat a)))"
    using assms(1) by (intro strcpy_eq)
  have "str_from sal conts = Inr \<lparr>s_buf = cstr conts @ 0 # drop (Suc ?n) (sal (unat a)), s_len = word_of_nat ?n, s_cap = a\<rparr>"
    using assms(1) cp unfolding str_from_def by (simp add: strlen_eq flip: a_def)
  moreover have "length (cstr conts @ 0 # drop (Suc ?n) (sal (unat a))) = unat a"
    using assms(3) ua by simp
  moreover have "unat (word_of_nat (length conts) :: u32) = length conts"
    using assms(2) by simp
  ultimately show ?thesis
    using ua by (simp add: stdlog_write_def poke_def)
qed

definition demo_dev :: dev where
  "demo_dev = dev_init \<lparr>d_stdout = [], d_stdin = [], d_cursor = 0, d_mappings = [], d_screen = demo_screen, d_serial = []\<rparr>"

theorem stdlog_write_ends_outside_witness:
  "stdlog_write (\<lambda>n. replicate n 0) (bytes ''hi'' @ 0 # replicate 97 0) demo_dev = Inl OutOfBounds"
proof -
  have "cstr (bytes ''hi'' @ 0 # replicate 97 0) = bytes ''hi''"
    by (rule cstr_append_nul) simp
  then show ?thesis
    using stdlog_write_ends_outside [of "bytes ''hi'' @ 0 # replicate 97 0" "\<lambda>n. replicate n 0" demo_dev] by simp
qed

end
