(* ===== verification/Keyboard.thy ===== *)
theory Keyboard
  imports DevFs
begin

text \<open>
  The keyboard interrupt, \<^verbatim>\<open>src/drivers/interrupts/keyboard/handler.cpp\<close>, with the tables of
  \<^verbatim>\<open>src/gen/io.hpp\<close>: a scan code becomes a character, which the handler writes to \<^verbatim>\<open>/dev/stdin\<close>
  and \<^verbatim>\<open>/dev/stdout\<close> through the file system. The scan code read from the port is an argument,
  the end-of-interrupt command is left out.
\<close>

section \<open>Scan codes\<close>

text \<open>A row of keys has consecutive scan codes.\<close>

definition put_run :: "nat \<Rightarrow> string \<Rightarrow> u8 list \<Rightarrow> u8 list" where
  "put_run i s m = take i m @ bytes s @ drop (i + length s) m"

definition scancodeMap :: "u8 list" where
  "scancodeMap = put_run 0x02 ''1234567890'' (put_run 0x10 ''qwertyuiop'' (put_run 0x1E ''asdfghjkl'' (put_run 0x2C ''zxcvbnm''
     ((replicate 128 0)[0x39 := 32, 0x1C := 10, 0x0E := 8, 0x0F := 9]))))"

definition scancodeMapShift :: "u8 list" where
  "scancodeMapShift = put_run 0x02 ''!@#$%^&*()'' (put_run 0x10 ''QWERTYUIOP'' (put_run 0x1E ''ASDFGHJKL'' (put_run 0x2C ''ZXCVBNM''
     ((replicate 128 0)[0x39 := 32, 0x1C := 10, 0x0E := 8, 0x0F := 9]))))"

record kb =
  kb_shift :: bool
  kb_capslock :: bool

definition key_char :: "kb \<Rightarrow> u8 \<Rightarrow> u8" where
  "key_char k sc =
     (let addedC = scancodeMap ! unat sc in
      if isLower addedC then (if kb_capslock k \<noteq> kb_shift k then toUpper addedC else addedC)
      else if kb_shift k then scancodeMapShift ! unat sc
      else addedC)"

section \<open>The interrupt\<close>

text \<open>
  For a backspace the handler reads the buffer into a copy, shortens the copy and frees it; the
  read and the search for the end of the copy are all that can be observed.
\<close>

definition key_backspace :: "(dev, u8 list) fsys \<Rightarrow> u32 \<Rightarrow> (dev, u8 list) fsys exec" where
  "key_backspace s stdinFd = bindE (fs_read s stdinFd 4096) (\<lambda>(r, out, s1). bindE (strlen out) (\<lambda>slen. Inr s1))"

definition key_pressed :: "(u32 \<Rightarrow> bool) \<Rightarrow> u8 \<Rightarrow> kb \<Rightarrow> (dev, u8 list) fsys \<Rightarrow> (dev, u8 list) fsys exec" where
  "key_pressed al sc k s =
     bindE (fs_open al s (bytes ''/dev/stdin'' @ [0])) (\<lambda>(stdinFd, s1).
     if stdinFd = 0 then Inl (Panic ''Stdin did not exist'')
     else let addedC = key_char k sc in
       bindE (if addedC = 8 then key_backspace s1 stdinFd else Inr s1) (\<lambda>s2.
       bindE (fs_write s2 stdinFd [addedC]) (\<lambda>(r1, s3).
       bindE (fs_open al s3 (bytes ''/dev/stdout'' @ [0])) (\<lambda>(stdoutFd, s4).
       bindE (fs_write s4 stdoutFd [addedC]) (\<lambda>(r2, s5).
       bindE (fs_close s5 stdoutFd) (\<lambda>s6. fs_close s6 stdinFd))))))"

definition keyboardHandler :: "(u32 \<Rightarrow> bool) \<Rightarrow> u8 \<Rightarrow> kb \<Rightarrow> (dev, u8 list) fsys \<Rightarrow> (kb \<times> (dev, u8 list) fsys) exec" where
  "keyboardHandler al sc k s =
     (if sc AND 0x80 \<noteq> 0 then
        (if sc = 0xAA \<or> sc = 0xB6 then Inr (k\<lparr>kb_shift := False\<rparr>, s) else Inr (k, s))
      else if sc = 0x2A \<or> sc = 0x36 then Inr (k\<lparr>kb_shift := True\<rparr>, s)
      else if sc = 0x3A then Inr (k\<lparr>kb_capslock := \<not> kb_capslock k\<rparr>, s)
      else bindE (key_pressed al sc k s) (\<lambda>s'. Inr (k, s')))"

fun keyboard :: "(u32 \<Rightarrow> bool) \<Rightarrow> u8 list \<Rightarrow> kb \<Rightarrow> (dev, u8 list) fsys \<Rightarrow> (kb \<times> (dev, u8 list) fsys) exec" where
  "keyboard al [] k s = Inr (k, s)"
| "keyboard al (sc # scs) k s = bindE (keyboardHandler al sc k s) (\<lambda>(k', s'). keyboard al scs k' s')"

section \<open>What is typed\<close>

text \<open>The meaning of a sequence of scan codes: the state of the keyboard and the characters typed.\<close>

fun kb_next :: "kb \<Rightarrow> u8 \<Rightarrow> kb" where
  "kb_next k sc =
     (if sc \<in> {0xAA, 0xB6} then k\<lparr>kb_shift := False\<rparr>
      else if sc \<in> {0x2A, 0x36} then k\<lparr>kb_shift := True\<rparr>
      else if sc = 0x3A then k\<lparr>kb_capslock := \<not> kb_capslock k\<rparr> else k)"

text \<open>
  The keys, one by one, with the character of each and the one it has with shift. For a letter, caps lock
  takes the place of shift and undoes it. A key that is not listed, like escape, control, alt and
  the function keys, types a zero byte.
\<close>

definition keys :: "(nat \<times> char \<times> char) list" where
  "keys =
     [(0x02, CHR ''1'', CHR ''!''), (0x03, CHR ''2'', CHR ''@''), (0x04, CHR ''3'', CHR ''#''),
      (0x05, CHR ''4'', CHR ''$''), (0x06, CHR ''5'', CHR ''%''), (0x07, CHR ''6'', CHR ''^''),
      (0x08, CHR ''7'', CHR ''&''), (0x09, CHR ''8'', CHR ''*''), (0x0A, CHR ''9'', CHR ''(''),
      (0x0B, CHR ''0'', CHR '')''), (0x10, CHR ''q'', CHR ''Q''), (0x11, CHR ''w'', CHR ''W''),
      (0x12, CHR ''e'', CHR ''E''), (0x13, CHR ''r'', CHR ''R''), (0x14, CHR ''t'', CHR ''T''),
      (0x15, CHR ''y'', CHR ''Y''), (0x16, CHR ''u'', CHR ''U''), (0x17, CHR ''i'', CHR ''I''),
      (0x18, CHR ''o'', CHR ''O''), (0x19, CHR ''p'', CHR ''P''), (0x1E, CHR ''a'', CHR ''A''),
      (0x1F, CHR ''s'', CHR ''S''), (0x20, CHR ''d'', CHR ''D''), (0x21, CHR ''f'', CHR ''F''),
      (0x22, CHR ''g'', CHR ''G''), (0x23, CHR ''h'', CHR ''H''), (0x24, CHR ''j'', CHR ''J''),
      (0x25, CHR ''k'', CHR ''K''), (0x26, CHR ''l'', CHR ''L''), (0x2C, CHR ''z'', CHR ''Z''),
      (0x2D, CHR ''x'', CHR ''X''), (0x2E, CHR ''c'', CHR ''C''), (0x2F, CHR ''v'', CHR ''V''),
      (0x30, CHR ''b'', CHR ''B''), (0x31, CHR ''n'', CHR ''N''), (0x32, CHR ''m'', CHR ''M''),
      (0x39, CHR '' '', CHR '' ''), (0x1C, CHR 0x0A, CHR 0x0A), (0x0E, CHR 0x08, CHR 0x08),
      (0x0F, CHR 0x09, CHR 0x09)]"

definition is_letter :: "char \<Rightarrow> bool" where
  "is_letter c \<longleftrightarrow> c \<in> set ''abcdefghijklmnopqrstuvwxyz''"

definition key_types :: "kb \<Rightarrow> u8 \<Rightarrow> u8" where
  "key_types k sc =
     (case map_of keys (unat sc) of
        None \<Rightarrow> 0
      | Some (lower, upper) \<Rightarrow>
          word_of_nat (of_char
            (if is_letter lower
             then (if kb_shift k then if kb_capslock k then lower else upper
                   else if kb_capslock k then upper else lower)
             else (if kb_shift k then upper else lower))))"

definition types_char :: "u8 \<Rightarrow> bool" where
  "types_char sc \<longleftrightarrow> sc < 0x80 \<and> sc \<notin> {0x2A, 0x36, 0x3A}"

fun typed :: "kb \<Rightarrow> u8 list \<Rightarrow> u8 list" where
  "typed k [] = []"
| "typed k (sc # scs) = (if types_char sc then [key_types k sc] else []) @ typed (kb_next k sc) scs"

lemma key_tables:
  "list_all (\<lambda>c. unat c < 128) scancodeMap" "list_all (\<lambda>c. unat c < 128) scancodeMapShift"
  "length scancodeMap = 128" "length scancodeMapShift = 128"
  by code_simp+

lemma toUpper_ascii: "isLower c \<Longrightarrow> unat c < 128 \<Longrightarrow> unat (toUpper c) < 128"
proof -
  have "isLower c \<longrightarrow> unat c < 128 \<longrightarrow> unat (toUpper c) < 128"
    by (rule all_bytes [where P = "\<lambda>c. isLower c \<longrightarrow> unat c < 128 \<longrightarrow> unat (toUpper c) < 128"]) code_simp
  then show "isLower c \<Longrightarrow> unat c < 128 \<Longrightarrow> unat (toUpper c) < 128"
    by blast
qed

lemma key_char_ascii: "sc < 0x80 \<Longrightarrow> unat (key_char k sc) < 128"
proof -
  assume "sc < 0x80"
  then have "unat sc < 128"
    by (simp add: word_less_nat_alt)
  then have "unat (scancodeMap ! unat sc) < 128" "unat (scancodeMapShift ! unat sc) < 128"
    using key_tables by (auto simp: list_all_length)
  then show ?thesis
    using toUpper_ascii by (simp add: key_char_def Let_def)
qed

lemma high_bit: "(sc :: u8) AND 0x80 \<noteq> 0 \<longleftrightarrow> 0x80 \<le> sc"
  by (rule all_bytes [where P = "\<lambda>sc. sc AND 0x80 \<noteq> 0 \<longleftrightarrow> 0x80 \<le> sc"]) code_simp

text \<open>What the two arrays of the driver have to hold for an entry of the table.\<close>

definition key_held :: "u8 \<Rightarrow> u8 \<Rightarrow> (char \<times> char) option \<Rightarrow> bool" where
  "key_held p q e \<longleftrightarrow> (case e of None \<Rightarrow> p = 0 \<and> q = 0
     | Some (lower, upper) \<Rightarrow> p = word_of_nat (of_char lower) \<and> q = word_of_nat (of_char upper) \<and>
         (if is_letter lower then isLower p \<and> toUpper p = q else \<not> isLower p))"

lemma keys_held: "list_all (\<lambda>(n, p). key_held (scancodeMap ! n) (scancodeMapShift ! n) (Some p)) keys"
  by code_simp

lemma nth_put_run:
  "i + length s \<le> length m \<Longrightarrow> n < length m \<Longrightarrow> n \<notin> {i..<i + length s} \<Longrightarrow> put_run i s m ! n = m ! n"
  by (auto simp: put_run_def nth_append bytes_def min_def)

lemma length_put_run: "i + length s \<le> length m \<Longrightarrow> length (put_run i s m) = length m"
  by (simp add: put_run_def bytes_def)

lemma key_runs: "set ([2..<12] @ [0x10..<0x1A] @ [0x1E..<0x27] @ [0x2C..<0x33] @ [0x39, 0x1C, 0x0E, 0x0F]) \<subseteq> set (List.map fst keys)"
  unfolding keys_def by (simp add: upt_rec)

lemma others_held:
  assumes "n < 128" and "n \<notin> set (List.map fst keys)"
  shows "scancodeMap ! n = 0 \<and> scancodeMapShift ! n = 0"
proof -
  have "n \<notin> set ([2..<12] @ [0x10..<0x1A] @ [0x1E..<0x27] @ [0x2C..<0x33] @ [0x39, 0x1C, 0x0E, 0x0F])"
    using key_runs assms(2) by blast
  then have "n \<notin> {2..<12} \<union> {0x10..<0x1A} \<union> {0x1E..<0x27} \<union> {0x2C..<0x33}" "n \<notin> {0x39, 0x1C, 0x0E, 0x0F}"
    by (simp_all only: set_append set_upt list.set Un_iff de_Morgan_disj simp_thms)
  then show ?thesis
    unfolding scancodeMap_def scancodeMapShift_def using assms(1) by (simp add: nth_put_run length_put_run)
qed

lemma key_char_types: "sc < 0x80 \<Longrightarrow> key_char k sc = key_types k sc"
proof -
  assume "sc < 0x80"
  then have sc: "unat sc < 128"
    by (simp add: word_less_nat_alt)
  have "key_held (scancodeMap ! unat sc) (scancodeMapShift ! unat sc) (map_of keys (unat sc))"
  proof (cases "map_of keys (unat sc)")
    case None
    then have "unat sc \<notin> set (List.map fst keys)"
      by (simp add: map_of_eq_None_iff)
    moreover have "scancodeMap ! unat sc = 0 \<and> scancodeMapShift ! unat sc = 0 \<or> unat sc \<in> set (List.map fst keys)"
      using others_held [OF sc] by blast
    ultimately show ?thesis
      using None by (simp add: key_held_def)
  next
    case (Some p)
    then show ?thesis
      using keys_held map_of_SomeD [OF Some] unfolding list_all_iff by fastforce
  qed
  moreover have "\<not> isLower 0"
    by code_simp
  ultimately show ?thesis
    by (cases "map_of keys (unat sc)") (auto simp: key_held_def key_char_def key_types_def split: if_splits)
qed

section \<open>A key through the file system\<close>

definition kb_ready :: "(nat \<Rightarrow> u8 list) \<Rightarrow> (u32 \<Rightarrow> bool) \<Rightarrow> (dev, u8 list) fsys \<Rightarrow>
    (u32 \<rightharpoonup> u8 list fsfile \<times> (dev, u8 list) fsdriver) \<Rightarrow> bool" where
  "kb_ready sal al s M \<longleftrightarrow> fd_table al s M \<and> card (dom M) + 2 < 2 ^ 26 \<and> fd_room 2 s \<and> mounts_ok (mountpoints s) \<and>
     dev_ok (devices s) \<and> (\<forall>d. chosen (dev_path d) (mountpoints s) (bytes ''/dev/'' @ [0], dev_driver sal))"

lemma dev_path_ok: "path_ok (dev_path d)" "hd (dev_path d) = 47"
  by (cases d; simp add: path_ok_def dev_path_def dev_name_def)+

lemma fd_table_finite: "fd_table al s M \<Longrightarrow> finite (dom M)"
  by (auto simp: fd_table_def kmap_is_def finite_dom_map_of)

text \<open>Opening a device when the driver of \<^verbatim>\<open>/dev/\<close> is asked.\<close>

lemma open_device:
  assumes "fd_table al s M" and "card (dom M) < 2 ^ 26" and "latestFd s \<noteq> - 1" and "mounts_ok (mountpoints s)"
    and "chosen (dev_path d) (mountpoints s) (bytes ''/dev/'' @ [0], dev_driver sal)" and "dev_ok (devices s)" and "fd_room (Suc n) s"
  obtains s' where "fs_open al s (dev_path d) = Inr (latestFd s, s')" and "mountpoints s' = mountpoints s" and "devices s' = devices s"
    and "fd_table al s' (M(latestFd s \<mapsto> (dev_file d, dev_driver sal)))" and "latestFd s' = latestFd s + 1" and "fd_room n s'"
proof -
  have "drv_open (snd (bytes ''/dev/'' @ [0], dev_driver sal)) (devices s) (dev_path d) = Inr (dev_file d, devices s)"
    by (simp add: dev_driver_def dev_open_eq [OF assms(6)])
  from fs_open_eq [OF assms(1-4) dev_path_ok assms(5) this] obtain s' where
    s': "fs_open al s (dev_path d) = Inr (latestFd s, s')" "mountpoints s' = mountpoints s" "devices s' = devices s"
      "fd_table al s' (M(latestFd s \<mapsto> (dev_file d, dev_driver sal)))"
    by (auto simp: dev_file_def)
  then show thesis
    using that fs_open_latest [OF s'(1)] fs_open_room [OF s'(1) assms(7)] by blast
qed

lemma dev_driver_write:
  "dev_ok w \<Longrightarrow> drv_write (dev_driver sal) w (dev_file d) conts = sub_write sal d conts w"
  by (simp add: dev_driver_def dev_write_def dev_file_def dev_lookup_name)

lemma dev_driver_read:
  "dev_ok w \<Longrightarrow> drv_read (dev_driver sal) w (dev_file d) len = Inr (fst (sub_read d len w), snd (sub_read d len w), w)"
  by (simp add: dev_driver_def dev_read_def dev_file_def dev_lookup_name split_def)

lemma stdin_terminated: "dev_ok w \<Longrightarrow> terminated (d_stdin w)"
proof -
  assume w: "dev_ok w"
  then have "d_stdin w ! unat (d_cursor w) = 0" "unat (d_cursor w) < length (d_stdin w)"
    by (simp_all add: dev_ok_def)
  then show "terminated (d_stdin w)"
    by (metis nth_mem)
qed

lemma key_backspace_eq:
  assumes "fd_table al s M" and "M fd = Some (dev_file Stdin, dev_driver sal)" and "fd \<noteq> 0" and "dev_ok (devices s)"
  shows "key_backspace s fd = Inr s"
proof -
  have "dev_copy (d_stdin (devices s)) 4096 = d_stdin (devices s)"
    using assms(4) by (simp add: dev_copy_def DEVBUF_def dev_ok_def)
  then have r: "fs_read s fd 4096 = Inr (Sucess, d_stdin (devices s), s\<lparr>devices := devices s\<rparr>)"
    using fs_read_eq [OF assms(1-3), of 4096 Sucess "d_stdin (devices s)" "devices s"] dev_driver_read [OF assms(4)] by simp
  moreover have "s\<lparr>devices := devices s\<rparr> = s"
    by simp
  ultimately show ?thesis
    using stdin_terminated [OF assms(4)] by (simp add: key_backspace_def strlen_eq)
qed

lemma not_minus_1: "unat (w :: u32) + 1 < 2 ^ 32 \<Longrightarrow> w \<noteq> - 1"
proof
  assume "unat w + 1 < 2 ^ 32" and "w = - 1"
  moreover from this have "unat w = 2 ^ 32 - 1"
    by (simp add: unsigned_minus_1_eq_mask mask_eq_exp_minus_1)
  ultimately show False
    by linarith
qed

lemma key_pressed_eq:
  assumes "kb_ready sal al s M" and "sc < 0x80" and "unat (latestFd s) + 3 < 2 ^ 32"
  shows "\<exists>s'. key_pressed al sc k s = Inr s' \<and> kb_ready sal al s' M \<and> unat (latestFd s') = unat (latestFd s) + 2 \<and>
    mountpoints s' = mountpoints s \<and> stdin_text (devices s') = type_char (key_char k sc) (stdin_text (devices s)) \<and>
    term_chars [key_char k sc] (d_screen (devices s)) = Inr (d_screen (devices s'))"
proof -
  note r = assms(1) [unfolded kb_ready_def]
  let ?d = "dev_driver sal" and ?c = "key_char k sc" and ?i = "latestFd s" and ?o = "latestFd s + 1"
  have ui: "unat ?o = unat ?i + 1" "unat (?o + 1) = unat ?i + 2"
    using unat_plus_nat [of ?i 1] unat_plus_nat [of ?i 2] assms(3) by (simp_all add: add.assoc)
  have m1: "?i \<noteq> - 1" "?o \<noteq> - 1"
    by (rule not_minus_1; use ui(1) assms(3) in simp)+
  have fin: "finite (dom M)"
    using r fd_table_finite by blast
  have f: "fd_table al s M" "card (dom M) < 2 ^ 26" "mounts_ok (mountpoints s)"
    "chosen (dev_path Stdin) (mountpoints s) (bytes ''/dev/'' @ [0], ?d)" "dev_ok (devices s)" "fd_room (Suc 1) s"
    using r unfolding numeral_2_eq_2 [symmetric] One_nat_def by simp_all
  obtain s1 where s1: "fs_open al s (dev_path Stdin) = Inr (?i, s1)" "mountpoints s1 = mountpoints s" "devices s1 = devices s"
      "fd_table al s1 (M(?i \<mapsto> (dev_file Stdin, ?d)))" "latestFd s1 = ?o" "fd_room 1 s1"
    by (rule open_device [OF f(1,2) m1(1) f(3,4,5,6)])
  have i0: "?i \<noteq> 0"
    using r by (simp add: fd_table_def)
  have "key_backspace s1 ?i = Inr s1"
    by (rule key_backspace_eq [OF s1(4)]) (use r s1(3) i0 in simp_all)
  then have b: "(if ?c = 8 then key_backspace s1 ?i else Inr s1) = Inr s1"
    by simp
  obtain w3 where w3: "stdin_write [?c] (devices s) = Inr (Sucess, w3)" "dev_ok w3"
      "stdin_text w3 = type_char ?c (stdin_text (devices s))" "d_screen w3 = d_screen (devices s)"
    using stdin_write_eq [of "devices s" ?c] r by (metis (no_types, lifting) dev.select_convs(5) dev.surjective dev.update_convs(2,3))
  let ?s3 = "s1\<lparr>devices := w3\<rparr>"
  have s3: "fs_write s1 ?i [?c] = Inr (Sucess, ?s3)"
    by (rule fs_write_eq [OF s1(4) _ i0]) (simp, simp only: s1(3) dev_driver_write [OF f(5)] sub_write.simps w3(1))
  let ?M1 = "M(?i \<mapsto> (dev_file Stdin, ?d))"
  have card1: "card (dom ?M1) < 2 ^ 26"
    using r fin by (simp add: card_insert_if)
  have g: "fd_table al ?s3 ?M1" "latestFd ?s3 \<noteq> - 1" "mounts_ok (mountpoints ?s3)"
    "chosen (dev_path Stdout) (mountpoints ?s3) (bytes ''/dev/'' @ [0], ?d)" "dev_ok (devices ?s3)" "fd_room (Suc 0) ?s3"
    using r s1 w3(2) m1 by simp_all
  have gs: "latestFd ?s3 = ?o" "mountpoints ?s3 = mountpoints s" "devices ?s3 = w3"
    using s1 by simp_all
  obtain s4 where s4: "fs_open al ?s3 (dev_path Stdout) = Inr (?o, s4)" "mountpoints s4 = mountpoints s" "devices s4 = w3"
      "fd_table al s4 (?M1(?o \<mapsto> (dev_file Stdout, ?d)))" "latestFd s4 = ?o + 1" "fd_room 0 s4"
    by (rule open_device [OF g(1) card1 g(2-6), unfolded gs])
  have o0: "?o \<noteq> 0" "?o \<noteq> ?i"
    using ui(1) by auto
  obtain w5 where w5: "stdout_write [?c] w3 = Inr (Sucess, w5)" "dev_ok w5" "stdin_text w5 = stdin_text w3"
      "term_chars [?c] (d_screen w3) = Inr (d_screen w5)"
    using stdout_write_eq [OF w3(2), of "[?c]"] key_char_ascii [OF assms(2)] by auto
  let ?M2 = "?M1(?o \<mapsto> (dev_file Stdout, ?d))" and ?s5 = "s4\<lparr>devices := w5\<rparr>"
  have s5: "fs_write s4 ?o [?c] = Inr (Sucess, ?s5)"
    by (rule fs_write_eq [OF s4(4) _ o0(1)]) (simp, simp only: s4(3) dev_driver_write [OF w3(2)] sub_write.simps w5(1))
  have card2: "card (dom ?M2) < 2 ^ 26"
    using r fin by (simp add: card_insert_if)
  have close: "drv_close ?d w f = Inr w" for w f
    by (simp add: dev_driver_def)
  obtain s6 where s6: "fs_close ?s5 ?o = Inr s6" "mountpoints s6 = mountpoints s" "latestFd s6 = ?o + 1" "devices s6 = w5"
      "fd_table al s6 (?M2(?o := None))" "fd_room 1 s6"
    using fs_close_eq [of al ?s5 ?M2 ?o "dev_file Stdout" ?d 0 w5] s4 card2 o0 close by auto
  have old: "k < ?i" if "M k \<noteq> None" for k
    using f(1) that by (auto simp: fd_table_def)
  have fresh: "M ?i = None" "M ?o = None"
    using old [of ?i] old [of ?o] ui(1) by (cases "M ?i"; cases "M ?o"; simp add: word_less_nat_alt)+
  have M1: "?M2(?o := None) = ?M1"
    using o0 fresh by auto
  obtain s7 where s7: "fs_close s6 ?i = Inr s7" "mountpoints s7 = mountpoints s" "latestFd s7 = ?o + 1" "devices s7 = w5"
      "fd_table al s7 (?M1(?i := None))" "fd_room 2 s7"
    using fs_close_eq [of al s6 ?M1 ?i "dev_file Stdin" ?d 1 w5] s6 card1 i0 close unfolding M1 by (auto simp: numeral_2_eq_2)
  have M: "?M1(?i := None) = M"
    using fresh by auto
  have paths: "bytes ''/dev/stdin'' @ [0] = dev_path Stdin" "bytes ''/dev/stdout'' @ [0] = dev_path Stdout"
    by (simp_all add: dev_path_def dev_name_def)
  have "key_pressed al sc k s = Inr s7"
    unfolding key_pressed_def paths by (simp only: s1(1) i0 b s3 s4(1) s5 s6(1) s7(1) bindE.simps prod.case Let_def if_False)
  moreover have "kb_ready sal al s7 M"
    using r s7 w5(2) M by (simp add: kb_ready_def)
  ultimately show ?thesis
    using s7 w5(3,4) w3(3,4) ui by auto
qed

section \<open>What the keyboard promises\<close>

lemma keyboard_step:
  assumes "kb_ready sal al s M" and "unat (latestFd s) + 3 < 2 ^ 32"
  shows "\<exists>s'. keyboardHandler al sc k s = Inr (kb_next k sc, s') \<and> kb_ready sal al s' M \<and>
    unat (latestFd s') \<le> unat (latestFd s) + 2 \<and>
    stdin_text (devices s') = fold type_char (if types_char sc then [key_types k sc] else []) (stdin_text (devices s)) \<and>
    term_chars (if types_char sc then [key_types k sc] else []) (d_screen (devices s)) = Inr (d_screen (devices s'))"
proof (cases "types_char sc")
  case True
  then have sc: "sc < 0x80" "sc \<notin> {0x2A, 0x36, 0x3A}"
    by (simp_all add: types_char_def)
  then have "\<not> sc AND 0x80 \<noteq> 0" "kb_next k sc = k"
    by (auto simp: high_bit)
  then show ?thesis
    using key_pressed_eq [OF assms(1) sc(1) assms(2), of k] sc(2) True key_char_types [OF sc(1), of k]
    by (auto simp: keyboardHandler_def)
next
  case False
  then have "keyboardHandler al sc k s = Inr (kb_next k sc, s)"
    by (cases "0x80 \<le> sc") (auto simp: keyboardHandler_def high_bit types_char_def)
  then show ?thesis
    using False assms(1) by simp
qed

lemma keyboard_run:
  assumes "kb_ready sal al s M" and "unat (latestFd s) + 2 * length scs + 1 < 2 ^ 32"
  shows "\<exists>s'. keyboard al scs k s = Inr (fold (\<lambda>sc k. kb_next k sc) scs k, s') \<and> kb_ready sal al s' M \<and>
    stdin_text (devices s') = fold type_char (typed k scs) (stdin_text (devices s)) \<and>
    term_chars (typed k scs) (d_screen (devices s)) = Inr (d_screen (devices s'))"
  using assms
proof (induction scs arbitrary: k s)
  case (Cons sc scs)
  let ?cs = "if types_char sc then [key_types k sc] else []"
  have "unat (latestFd s) + 3 < 2 ^ 32"
    using Cons.prems(2) by simp
  from keyboard_step [OF Cons.prems(1) this, of sc k] obtain s1 where s1: "keyboardHandler al sc k s = Inr (kb_next k sc, s1)"
    "kb_ready sal al s1 M" "unat (latestFd s1) \<le> unat (latestFd s) + 2"
    "stdin_text (devices s1) = fold type_char ?cs (stdin_text (devices s))"
    "term_chars ?cs (d_screen (devices s)) = Inr (d_screen (devices s1))"
    by blast
  have "unat (latestFd s1) + 2 * length scs + 1 < 2 ^ 32"
    using Cons.prems(2) s1(3) by simp
  from Cons.IH [OF s1(2) this, of "kb_next k sc"] obtain s2 where
    "keyboard al scs (kb_next k sc) s1 = Inr (fold (\<lambda>sc k. kb_next k sc) scs (kb_next k sc), s2)" "kb_ready sal al s2 M"
    "stdin_text (devices s2) = fold type_char (typed (kb_next k sc) scs) (stdin_text (devices s1))"
    "term_chars (typed (kb_next k sc) scs) (d_screen (devices s1)) = Inr (d_screen (devices s2))"
    by blast
  then show ?case
    using s1 by (intro exI [of _ s2]) (simp add: term_chars_append del: kb_next.simps)
qed simp

text \<open>C38: A sequence of scan codes types the characters that the table of the keys gives it with the shift and caps lock of each moment, and a zero byte for
  a key that is not in it: they end up, in order, in the buffer of
  \<^verbatim>\<open>/dev/stdin\<close>, which starts afresh when it is full, and on the screen, shift and caps lock end in
  their state, and the table of open files is as before: every interrupt closes what it opened.\<close>

theorem keyboard_types_into_stdin:
  assumes "kb_ready sal al s M" and "unat (latestFd s) + 2 * length scs + 1 < 2 ^ 32"
  shows "\<exists>s'. keyboard al scs k s = Inr (fold (\<lambda>sc k. kb_next k sc) scs k, s') \<and> fd_table al s' M \<and>
    stdin_text (devices s') = fold type_char (typed k scs) (stdin_text (devices s)) \<and>
    term_chars (typed k scs) (d_screen (devices s)) = Inr (d_screen (devices s'))"
  using keyboard_run [OF assms, of k] unfolding kb_ready_def by blast

section \<open>Typing with the standard mount points\<close>

definition kb_mounts :: "(dev, u8 list) mount list" where
  "kb_mounts = mpCandidates (base_driver []) (dev_driver (\<lambda>n. replicate n 0)) (base_driver []) (base_driver []) (base_driver [])"

definition kb_fs :: "(dev, u8 list) fsys" where
  "kb_fs = \<lparr>mountpoints = kb_mounts, latestFd = 1, fdMapping = kvec_new (\<lambda>_. True) SIZEOF_FDENTRY, devices = demo_dev\<rparr>"

lemma chosen_dev: "chosen (dev_path d) kb_mounts (bytes ''/dev/'' @ [0], dev_driver (\<lambda>n. replicate n 0))"
proof -
  have "candidates_for (dev_path d) kb_mounts = [(bytes ''/'' @ [0], base_driver [])] @
      (bytes ''/dev/'' @ [0], dev_driver (\<lambda>n. replicate n 0)) # [(bytes ''/'' @ [0], base_driver [])]"
    by (cases d) (simp_all add: candidates_for_def kb_mounts_def mpCandidates_def mp_matches_def dev_path_def dev_name_def)
  then show ?thesis
    unfolding chosen_def by (intro exI conjI, assumption) (simp_all add: nestage_def)
qed

lemma kb_fs_ready: "kb_ready (\<lambda>n. replicate n 0) (\<lambda>_. True) kb_fs Map.empty"
proof -
  have "kvec_is 20 (kvec_new (\<lambda>_. True) 20) ([] :: (u32 \<times> u8 list fsfile \<times> (dev, u8 list) fsdriver) list)"
    by (rule kvec_new_is) simp_all
  then have "fd_table (\<lambda>_. True) kb_fs Map.empty"
    by (auto simp: fd_table_def kb_fs_def kmap_is_def kernel_array_def SIZEOF_FDENTRY_def intro!: exI [of _ "[]"])
  moreover have "fd_room 2 kb_fs"
    by (simp add: fd_room_def kb_fs_def kvec_new_def BASE_VECTOR_SIZE_def)
  moreover have "mounts_ok (mountpoints kb_fs)"
    by (simp add: kb_fs_def kb_mounts_def standard_mounts)
  moreover have "dev_ok (devices kb_fs)"
    by (simp add: kb_fs_def demo_dev_def dev_ok_init)
  ultimately show ?thesis
    using chosen_dev by (simp add: kb_ready_def kb_fs_def)
qed

theorem keyboard_types_into_stdin_witness:
  "\<exists>k s'. keyboard (\<lambda>_. True) [0x2A, 0x23, 0xAA, 0x17] \<lparr>kb_shift = False, kb_capslock = False\<rparr> kb_fs = Inr (k, s') \<and>
     stdin_text (devices s') = bytes ''Hi''"
proof -
  have t: "typed \<lparr>kb_shift = False, kb_capslock = False\<rparr> [0x2A, 0x23, 0xAA, 0x17] = bytes ''Hi''"
    by code_simp
  have "stdin_text (devices kb_fs) = []"
    by (simp add: stdin_text_def kb_fs_def demo_dev_def dev_init_def)
  then have f: "fold type_char (bytes ''Hi'') (stdin_text (devices kb_fs)) = bytes ''Hi''"
    by (simp add: type_char_def DEVBUF_def)
  have "unat (latestFd kb_fs) + 2 * length [0x2A, 0x23, 0xAA, 0x17 :: u8] + 1 < 2 ^ 32"
    by (simp add: kb_fs_def)
  from keyboard_types_into_stdin [OF kb_fs_ready this, of "\<lparr>kb_shift = False, kb_capslock = False\<rparr>"] show ?thesis
    unfolding t f by blast
qed

end
