(* ===== verification/Syscall.thy ===== *)
theory Syscall
  imports FileSystem SysMod
begin

text \<open>
  The system call interrupt, \<^verbatim>\<open>src/drivers/interrupts/sysc/handler.cpp\<close>: one handler that hands the
  registers of the process to the file system, the module table and the process management. The
  memory of the process is a list of bytes from address zero on; the pages \<^verbatim>\<open>Mmap\<close> adds to the
  address space are in the paging structures only.
\<close>

section \<open>The handler\<close>

record sysframe =
  s_edi :: u32
  s_esi :: u32
  s_ebp :: u32
  s_esp :: u32
  s_ebx :: u32
  s_edx :: u32
  s_ecx :: u32
  s_eax :: u32
  s_eip :: u32
  s_cs :: u32
  s_eflags :: u32

record ('w, 'x) system =
  sy_fs :: "('w, 'x) fsys"
  sy_k :: kstate
  sy_mods :: "sysEntry list"
  sy_mem :: "u8 list"
  sy_inSyscall :: bool

text \<open>
  The string a pointer of the process points to, up to its terminator, which no callee may read past;
  a block of its memory; and storing into it.
\<close>

definition cstring_at :: "u8 list \<Rightarrow> u32 \<Rightarrow> u8 list" where
  "cstring_at mem p = (let s = drop (unat p) mem in take (Suc (length (cstr s))) s)"

definition block_at :: "u8 list \<Rightarrow> u32 \<Rightarrow> u32 \<Rightarrow> u8 list exec" where
  "block_at mem p len =
     (if unat p + unat len \<le> length mem then Inr (take (unat len) (drop (unat p) mem)) else Inl OutOfBounds)"

definition store_at :: "u8 list \<Rightarrow> u32 \<Rightarrow> u8 list \<Rightarrow> u8 list exec" where
  "store_at mem p bs =
     (if unat p + length bs \<le> length mem then Inr (take (unat p) mem @ bs @ drop (unat p + length bs) mem)
      else Inl OutOfBounds)"

definition success_code :: "success \<Rightarrow> u32" where
  "success_code r = (case r of Sucess \<Rightarrow> 0 | Error \<Rightarrow> 1)"

text \<open>Every process with the active pid exits; only a required one does not come back.\<close>

fun exit_all :: "process list \<Rightarrow> u32 \<Rightarrow> u8 \<Rightarrow> unit exec" where
  "exit_all [] active code = Inr ()"
| "exit_all (p # ps) active code =
     bindE (if pid p = active then process_exit p code else Inr ()) (\<lambda>_. exit_all ps active code)"

text \<open>The number of the call is the low byte of \<^verbatim>\<open>eax\<close>.\<close>

definition syscall_body :: "(u32 \<Rightarrow> bool) \<Rightarrow> sysframe \<Rightarrow> ('w, 'x) system \<Rightarrow> (sysframe \<times> ('w, 'x) system) exec" where
  "syscall_body al fr s =
     (let syscNum = (ucast (s_eax fr) :: u8); active = activeProcessPid (sy_k s) in
      if syscNum = 0 then
        bindE (fs_open al (sy_fs s) (cstring_at (sy_mem s) (s_edi fr))) (\<lambda>(fd, f).
        Inr (fr\<lparr>s_eax := fd\<rparr>, s\<lparr>sy_fs := f\<rparr>))
      else if syscNum = 1 then
        bindE (block_at (sy_mem s) (s_esi fr) (s_edx fr)) (\<lambda>conts.
        bindE (fs_write (sy_fs s) (s_edi fr) conts) (\<lambda>(r, f).
        Inr (fr\<lparr>s_eax := success_code r\<rparr>, s\<lparr>sy_fs := f\<rparr>)))
      else if syscNum = 2 then
        bindE (fs_read (sy_fs s) (s_edi fr) (s_edx fr)) (\<lambda>(r, out, f).
        bindE (store_at (sy_mem s) (s_esi fr) out) (\<lambda>mem.
        Inr (fr\<lparr>s_eax := success_code r\<rparr>, s\<lparr>sy_fs := f, sy_mem := mem\<rparr>)))
      else if syscNum = 3 then
        bindE (fs_close (sy_fs s) (s_edi fr)) (\<lambda>f. Inr (fr, s\<lparr>sy_fs := f\<rparr>))
      else if syscNum = 4 then
        bindE (sysm_claim active (cstring_at (sy_mem s) (s_edi fr)) (sy_mods s)) (\<lambda>(a, es).
        Inr (fr\<lparr>s_eax := ucast a\<rparr>, s\<lparr>sy_mods := es\<rparr>))
      else if syscNum = 5 then
        bindE (sysm_setFunc active (activeDirectory (ks_mmu (sy_k s))) (cstring_at (sy_mem s) (s_edi fr))
            (if s_esi fr = 0 then None else Some (Func (s_esi fr))) (sy_mods s)) (\<lambda>(a, es).
        Inr (fr\<lparr>s_eax := ucast a\<rparr>, s\<lparr>sy_mods := es\<rparr>))
      else if syscNum = 6 then
        bindE (sysm_release active (cstring_at (sy_mem s) (s_edi fr)) (sy_mods s)) (\<lambda>(a, es).
        Inr (fr\<lparr>s_eax := ucast a\<rparr>, s\<lparr>sy_mods := es\<rparr>))
      else if syscNum = 7 then
        bindE (sys_mmap (sy_k s) (s_edi fr)) (\<lambda>(a, k). Inr (fr\<lparr>s_eax := a\<rparr>, s\<lparr>sy_k := k\<rparr>))
      else if syscNum = 8 then Inr (fr, s)
      else if syscNum = 9 then
        bindE (exit_all (processes (sy_k s)) active (ucast (s_edi fr))) (\<lambda>_. Inr (fr, s))
      else if syscNum = 10 then
        bindE (fs_fileSize (sy_fs s) (s_edi fr)) (\<lambda>n. Inr (fr\<lparr>s_eax := n\<rparr>, s))
      else Inr (fr\<lparr>s_eax := - 1\<rparr>, s))"

definition syscallHandler :: "(u32 \<Rightarrow> bool) \<Rightarrow> sysframe \<Rightarrow> ('w, 'x) system \<Rightarrow> (sysframe \<times> ('w, 'x) system) exec" where
  "syscallHandler al fr s =
     bindE (syscall_body al fr (s\<lparr>sy_inSyscall := True\<rparr>)) (\<lambda>(fr', s'). Inr (fr', s'\<lparr>sy_inSyscall := False\<rparr>))"

section \<open>Memory of the process\<close>

lemma cstring_at_eq: "drop (unat p) mem = t @ 0 # rest \<Longrightarrow> 0 \<notin> set t \<Longrightarrow> cstring_at mem p = t @ [0]"
  by (simp add: cstring_at_def Let_def cstr_append_nul)

lemma length_store: "store_at mem p bs = Inr mem' \<Longrightarrow> length mem' = length mem"
  by (auto simp: store_at_def split: if_splits)

text \<open>A block stored is read back, and the bytes outside it stay.\<close>

lemma store_block:
  assumes "store_at mem p bs = Inr mem'"
  shows "take (length bs) (drop (unat p) mem') = bs" and
    "i < unat p \<or> unat p + length bs \<le> i \<Longrightarrow> i < length mem \<Longrightarrow> mem' ! i = mem ! i"
  using assms by (auto simp: store_at_def nth_append min_def split: if_splits)

section \<open>What a call may change\<close>

lemma mmap_loop_keeps:
  "mmap_loop n k dir virt mapped = Inr (r, k') \<Longrightarrow> processes k' = processes k \<and> activeProcessPid k' = activeProcessPid k \<and>
     latestPid k' = latestPid k \<and> activeDirectory (ks_mmu k') = activeDirectory (ks_mmu k)"
proof (induction n k dir virt mapped rule: mmap_loop.induct)
  case (2 n k dir virt mapped)
  have act: "mapPageIn m d f v fl = Inr m' \<Longrightarrow> activeDirectory m' = activeDirectory m" for m d f v fl m'
    by (auto simp: mapPageIn_def tableFor_def mm_put_def mm_get_def Let_def split: if_splits option.splits)
  show ?case
    using "2.prems" "2.IH" by (fastforce dest: act split: if_splits)
qed simp

lemma sys_mmap_keeps:
  assumes "sys_mmap k edi = Inr (r, k')"
  shows "List.map pid (processes k') = List.map pid (processes k) \<and> activeProcessPid k' = activeProcessPid k \<and>
    activeDirectory (ks_mmu k') = activeDirectory (ks_mmu k)"
proof (cases "find_proc (processes k) (activeProcessPid k) 0 None")
  case (Some i)
  have "List.map pid (ps[i := (ps ! i)\<lparr>heapBrk := x\<rparr>]) = List.map pid (ps[i := ps ! i])" for ps x
    unfolding map_update by simp
  then show ?thesis
    using assms Some mmap_loop_keeps by (fastforce simp: sys_mmap_def Let_def split: if_splits)
qed (use assms in \<open>simp add: sys_mmap_def\<close>)

text \<open>
  The parts of the system and the calls that may touch them, by number; the fields a call leaves alone.
\<close>

definition untouched :: "u8 \<Rightarrow> ('w, 'x) system \<Rightarrow> ('w, 'x) system \<Rightarrow> bool" where
  "untouched n s s' \<longleftrightarrow> (n \<notin> {0, 1, 2, 3} \<longrightarrow> sy_fs s' = sy_fs s) \<and> (n \<notin> {4, 5, 6} \<longrightarrow> sy_mods s' = sy_mods s) \<and>
     (n \<noteq> 7 \<longrightarrow> sy_k s' = sy_k s) \<and> (n \<noteq> 2 \<longrightarrow> sy_mem s' = sy_mem s)"

lemma syscall_body_frame:
  assumes "syscall_body al fr s = Inr (fr', s')"
  shows "fr' = fr\<lparr>s_eax := s_eax fr'\<rparr> \<and> untouched (ucast (s_eax fr)) s s' \<and>
    length (sy_mem s') = length (sy_mem s) \<and> activeProcessPid (sy_k s') = activeProcessPid (sy_k s) \<and>
    List.map pid (processes (sy_k s')) = List.map pid (processes (sy_k s)) \<and>
    activeDirectory (ks_mmu (sy_k s')) = activeDirectory (ks_mmu (sy_k s)) \<and>
    ((ucast (s_eax fr) :: u8) \<in> {3, 8, 9} \<longrightarrow> s_eax fr' = s_eax fr) \<and>
    (10 < (ucast (s_eax fr) :: u8) \<longrightarrow> s_eax fr' = - 1 \<and> s' = s)"
proof -
  define n :: u8 where "n = ucast (s_eax fr)"
  have "n \<in> {0, 1, 2, 3, 4, 5, 6, 7, 8, 9, 10} \<or> 10 < n"
    by (rule all_bytes [where P = "\<lambda>n. n \<in> {0, 1, 2, 3, 4, 5, 6, 7, 8, 9, 10} \<or> 10 < n"]) code_simp
  then show ?thesis
  proof
    assume "n \<in> {0, 1, 2, 3, 4, 5, 6, 7, 8, 9, 10}"
    then show ?thesis
      using assms unfolding syscall_body_def Let_def n_def [symmetric] untouched_def
      by (elim insertE emptyE) (auto dest: length_store sys_mmap_keeps)
  next
    assume n: "10 < n"
    then have "n \<noteq> 0" "n \<noteq> 1" "n \<noteq> 2" "n \<noteq> 3" "n \<noteq> 4" "n \<noteq> 5" "n \<noteq> 6" "n \<noteq> 7" "n \<noteq> 8" "n \<noteq> 9" "n \<noteq> 10"
      by auto
    then show ?thesis
      using assms n unfolding syscall_body_def Let_def n_def [symmetric] untouched_def by auto
  qed
qed

lemma exit_all_eq:
  "exit_all ps active code = (case List.find (\<lambda>p. pid p = active \<and> importance p = REQ) ps of
      None \<Rightarrow> Inr ()
    | Some p \<Rightarrow> Inl (Panic (''Required process exited: '' @ List.map (\<lambda>b. char_of (unat b)) (pname p))))"
  by (induction ps) (auto simp: process_exit_def split: option.splits)

section \<open>What the system calls promise\<close>

text \<open>A system call that comes back changes no register of the process but \<^verbatim>\<open>eax\<close>, keeps the active
  process, its address space and the list of pids, and leaves alone what its number does not
  concern: only the first four calls touch the file system, only claim, release and setFunc the
  table of modules, only Mmap the processes, only Read the memory; unknown numbers answer -1.\<close>

theorem syscall_touches_only_its_part:
  assumes "syscallHandler al fr s = Inr (fr', s')"
  shows "fr' = fr\<lparr>s_eax := s_eax fr'\<rparr> \<and> \<not> sy_inSyscall s' \<and> untouched (ucast (s_eax fr)) s s' \<and>
    length (sy_mem s') = length (sy_mem s) \<and> activeProcessPid (sy_k s') = activeProcessPid (sy_k s) \<and>
    List.map pid (processes (sy_k s')) = List.map pid (processes (sy_k s)) \<and>
    activeDirectory (ks_mmu (sy_k s')) = activeDirectory (ks_mmu (sy_k s)) \<and>
    ((ucast (s_eax fr) :: u8) \<in> {3, 8, 9} \<longrightarrow> s_eax fr' = s_eax fr) \<and>
    (10 < (ucast (s_eax fr) :: u8) \<longrightarrow> s_eax fr' = - 1 \<and> s' = s\<lparr>sy_inSyscall := False\<rparr>)"
proof -
  obtain t where "syscall_body al fr (s\<lparr>sy_inSyscall := True\<rparr>) = Inr (fr', t)" "s' = t\<lparr>sy_inSyscall := False\<rparr>"
    using assms by (auto simp: syscallHandler_def)
  then show ?thesis
    using syscall_body_frame [of al fr "s\<lparr>sy_inSyscall := True\<rparr>" fr' t] by (auto simp: untouched_def)
qed

text \<open>Exit ends no process: it panics the kernel when the active process is a required one, and
  otherwise comes back to the process as if nothing had happened, whatever the exit code.\<close>

theorem syscall_exit_comes_back:
  assumes "(ucast (s_eax fr) :: u8) = 9"
  shows "syscallHandler al fr s =
    (case List.find (\<lambda>p. pid p = activeProcessPid (sy_k s) \<and> importance p = REQ) (processes (sy_k s)) of
       None \<Rightarrow> Inr (fr, s\<lparr>sy_inSyscall := False\<rparr>)
     | Some p \<Rightarrow> Inl (Panic (''Required process exited: '' @ List.map (\<lambda>b. char_of (unat b)) (pname p))))"
  using assms by (simp add: syscallHandler_def syscall_body_def exit_all_eq split: option.split)

text \<open>C28: A program reads a file of the FAT32 volume with two calls: Open with the path in its memory
  answers the next descriptor, and Read with that descriptor answers 0 and puts the beginning of
  the contents of the file's chain of clusters where the program asked for it, and nowhere else.\<close>

theorem syscalls_read_fat_file:
  assumes "fd_table al (sy_fs s) M" and "card (dom M) < 2 ^ 26" and "latestFd (sy_fs s) \<noteq> - 1" and "mounts_ok (mountpoints (sy_fs s))"
    and "path_ok (path_text ns)" and "chosen (path_text ns) (mountpoints (sy_fs s)) (mp, fat_driver k fal d)"
    and "fat_volume d (devices (sy_fs s))" and "gives_buffers fal" and "ns \<noteq> []"
    and "list_all (\<lambda>n. name_ok (fst n) (snd n)) ns"
    and "dirs_ok d (devices (sy_fs s)) k ch (rootDirClusterNum (bootSector (devices (sy_fs s)))) ns"
    and "path_lookup d (devices (sy_fs s)) ch (rootDirClusterNum (bootSector (devices (sy_fs s)))) ns = Some e"
    and "de_attributes e AND 0x10 = 0" and "fat_chain d (devices (sy_fs s)) (clusterOf e # cs)" and "length cs < k"
    and "s_eax fr = 0" and "cstring_at (sy_mem s) (s_edi fr) = path_text ns"
    and "s_eax fr2 = 2" and "s_edi fr2 = latestFd (sy_fs s)"
    and "out = take (min (unat (s_edx fr2)) (unat (de_filesize e))) (chain_bytes d (devices (sy_fs s)) (clusterOf e # cs))"
    and "unat (s_esi fr2) + length out \<le> length (sy_mem s)"
  shows "\<exists>s1 s2. syscallHandler al fr s = Inr (fr\<lparr>s_eax := latestFd (sy_fs s)\<rparr>, s1) \<and>
    syscallHandler al fr2 s1 = Inr (fr2\<lparr>s_eax := 0\<rparr>, s2) \<and>
    take (length out) (drop (unat (s_esi fr2)) (sy_mem s2)) = out \<and>
    (\<forall>i. (i < unat (s_esi fr2) \<or> unat (s_esi fr2) + length out \<le> i) \<and> i < length (sy_mem s) \<longrightarrow> sy_mem s2 ! i = sy_mem s ! i)"
proof -
  from fs_reads_fat_eq [OF assms(1-15), of "s_edx fr2"] obtain f where
    f: "fs_open al (sy_fs s) (path_text ns) = Inr (latestFd (sy_fs s), f)"
      "fs_read f (latestFd (sy_fs s)) (s_edx fr2) = Inr (Sucess, out, f)"
    using assms(20) by auto
  obtain mem where mem: "store_at (sy_mem s) (s_esi fr2) out = Inr mem"
    using assms(21) by (simp add: store_at_def)
  let ?s1 = "s\<lparr>sy_fs := f, sy_inSyscall := False\<rparr>" and ?s2 = "s\<lparr>sy_fs := f, sy_mem := mem, sy_inSyscall := False\<rparr>"
  have "syscallHandler al fr s = Inr (fr\<lparr>s_eax := latestFd (sy_fs s)\<rparr>, ?s1)"
    using assms(16,17) f(1) by (simp add: syscallHandler_def syscall_body_def)
  moreover have "syscallHandler al fr2 ?s1 = Inr (fr2\<lparr>s_eax := 0\<rparr>, ?s2)"
    using assms(18,19) f(2) mem by (simp add: syscallHandler_def syscall_body_def success_code_def)
  ultimately show ?thesis
    using store_block [OF mem] by (intro exI [of _ ?s1] exI [of _ ?s2]) simp
qed

section \<open>A program\<close>

definition demo_frame :: sysframe where
  "demo_frame = \<lparr>s_edi = 0, s_esi = 0, s_ebp = 0, s_esp = 0, s_ebx = 0, s_edx = 0, s_ecx = 0, s_eax = 0, s_eip = 0, s_cs = 8, s_eflags = 0\<rparr>"

text \<open>The path at address 4, room for the contents behind it.\<close>

definition demo_mem :: "u8 list" where
  "demo_mem = replicate 4 7 @ (bytes ''/a.txt'' @ [0]) @ replicate 700 9"

definition demo_system :: "(fat32, fatdata option) system" where
  "demo_system = \<lparr>sy_fs = demo_fs [(bytes ''/'' @ [0], demo_driver)], sy_k = kernel0, sy_mods = demo_table, sy_mem = demo_mem, sy_inSyscall = False\<rparr>"

theorem syscall_touches_only_its_part_witness:
  "\<exists>s'. syscallHandler (\<lambda>_. True) (demo_frame\<lparr>s_eax := 200\<rparr>) demo_system = Inr (demo_frame\<lparr>s_eax := - 1\<rparr>, s') \<and> sy_fs s' = sy_fs demo_system"
proof -
  have r: "syscallHandler (\<lambda>_. True) (demo_frame\<lparr>s_eax := 200\<rparr>) demo_system =
      Inr (demo_frame\<lparr>s_eax := - 1\<rparr>, demo_system\<lparr>sy_inSyscall := False\<rparr>)"
    by (simp add: syscallHandler_def syscall_body_def demo_frame_def)
  from syscall_touches_only_its_part [OF r] have "untouched 200 demo_system (demo_system\<lparr>sy_inSyscall := False\<rparr>)"
    by simp
  then have "sy_fs (demo_system\<lparr>sy_inSyscall := False\<rparr>) = sy_fs demo_system"
    unfolding untouched_def by simp
  then show ?thesis
    using r by (intro exI conjI) assumption+
qed

theorem syscall_exit_comes_back_witness:
  "syscallHandler (\<lambda>_. True) (demo_frame\<lparr>s_eax := 9, s_edi := 1\<rparr>) demo_system =
     Inr (demo_frame\<lparr>s_eax := 9, s_edi := 1\<rparr>, demo_system\<lparr>sy_inSyscall := False\<rparr>)"
  using syscall_exit_comes_back [of "demo_frame\<lparr>s_eax := 9, s_edi := 1\<rparr>" "\<lambda>_. True" demo_system]
  by (simp add: demo_system_def kernel0_def p0_def)

theorem syscalls_read_fat_file_witness:
  "\<exists>s1 s2. syscallHandler (\<lambda>_. True) (demo_frame\<lparr>s_edi := 4\<rparr>) demo_system = Inr (demo_frame\<lparr>s_edi := 4, s_eax := 1\<rparr>, s1) \<and>
     syscallHandler (\<lambda>_. True) (demo_frame\<lparr>s_eax := 2, s_edi := 1, s_esi := 50, s_edx := 1000\<rparr>) s1 =
       Inr (demo_frame\<lparr>s_eax := 0, s_edi := 1, s_esi := 50, s_edx := 1000\<rparr>, s2) \<and>
     take 600 (drop 50 (sy_mem s2)) = replicate 512 65 @ replicate 88 66"
proof -
  let ?s = "demo_fs [(bytes ''/'' @ [0], demo_driver)]"
  have sys: "sy_fs demo_system = ?s" "sy_mem demo_system = demo_mem" "length demo_mem = 711"
    by (simp_all add: demo_system_def demo_mem_def)
  have f: "latestFd ?s = 1" "devices ?s = demo_vol" "mountpoints ?s = [(bytes ''/'' @ [0], demo_driver)]"
    by (simp_all add: demo_fs_def)
  have c: "fat_chain demo_disk demo_vol [3, 4]"
    by (simp add: demo_next)
  have "drop (unat (4 :: u32)) demo_mem = bytes ''/a.txt'' @ 0 # replicate 700 9"
    by (simp add: demo_mem_def)
  then have p: "cstring_at demo_mem 4 = bytes ''/a.txt'' @ [0]"
    by (rule cstring_at_eq) simp
  have ch: "chain_bytes demo_disk demo_vol [3, 4] = replicate 512 65 @ replicate 512 66"
    by (simp add: chain_bytes_def demo_clusters)
  show ?thesis
    using syscalls_read_fat_file [of "\<lambda>_. True" demo_system Map.empty "[(bytes ''a'', bytes ''txt'')]"
        "bytes ''/'' @ [0]" 2 demo_alloc demo_disk "\<lambda>c. [c]" demo_entry "[4]" "demo_frame\<lparr>s_edi := 4\<rparr>"
        "demo_frame\<lparr>s_eax := 2, s_edi := 1, s_esi := 50, s_edx := 1000\<rparr>" "replicate 512 65 @ replicate 88 66"]
      demo_fs_table demo_mounts demo_volume demo_path demo_dirs c p
    unfolding sys f demo_path(4) demo_root
    by (simp add: demo_entry_fields demo_frame_def ch) blast
qed

end
