(* ===== verification/KernConfig.thy ===== *)
theory KernConfig
  imports Containers StringView Radix FileSystem
begin

text \<open>
  The configuration files of the kernel: the parser \<^verbatim>\<open>Config\<close> of \<^verbatim>\<open>src/gen/conf/conf.hpp\<close>. Files are
  lines \<^verbatim>\<open>name = value\<close> in sections \<^verbatim>\<open>[name]\<close>; the parser fills a \<^verbatim>\<open>Map\<close> with the keys
  \<^verbatim>\<open>section.name\<close>. \<^verbatim>\<open>src\<close> is the list of the bytes from the pointer on; the argument \<open>al\<close> of the operations
  that grow a vector is the allocator of theory \<open>Containers\<close>. A key, a \<^verbatim>\<open>StrOperatorEquals\<close> that is
  compared with \<^verbatim>\<open>streq\<close>, is the content of its C string. What is written to the serial log is left out.
\<close>

section \<open>The data\<close>

datatype cvalue = CInt u32 | CString sview | CBool bool

record kconf =
  cf_isErr :: bool
  cf_src :: "u8 list"
  cf_err :: "string option"
  cf_mapping :: "(u8 list, cvalue) kmap"
  cf_section :: sview
  cf_all :: "sview kvec"

text \<open>The sizes of a map entry and of a string view.\<close>

definition SIZEOF_CONFENTRY :: u32 where "SIZEOF_CONFENTRY = 20"
definition SIZEOF_SV :: u32 where "SIZEOF_SV = 8"

definition conf_new :: "(u32 \<Rightarrow> bool) \<Rightarrow> u8 list \<Rightarrow> kconf" where
  "conf_new al src = \<lparr>cf_isErr = False, cf_src = src, cf_err = None, cf_mapping = kvec_new al SIZEOF_CONFENTRY,
     cf_section = sv [0] 0, cf_all = kvec_new al SIZEOF_SV\<rparr>"

definition conf_isIdent :: "u8 \<Rightarrow> bool" where
  "conf_isIdent c \<longleftrightarrow> isalpha c \<or> isdigit c \<or> c = 95"

definition conf_isWhitespace :: "u8 \<Rightarrow> bool" where
  "conf_isWhitespace c \<longleftrightarrow> c = 32 \<or> c = 9 \<or> c = 10"

text \<open>The loops of the parser that look for the end of something, and know no end of the file.\<close>

fun count_while :: "(u8 \<Rightarrow> bool) \<Rightarrow> u8 list \<Rightarrow> nat exec" where
  "count_while P [] = Inl OutOfBounds"
| "count_while P (c # s) = (if P c then bindE (count_while P s) (\<lambda>n. Inr (Suc n)) else Inr 0)"

section \<open>Values\<close>

definition conf_string :: "u8 list \<Rightarrow> cvalue option exec" where
  "conf_string cStr =
     bindE (count_while (\<lambda>c. c \<noteq> 34) cStr) (\<lambda>len.
     bindE (memcpy_loop (replicate (len + 1) 0) cStr len) (\<lambda>strCopy.
     Inr (Some (CString (sv strCopy (word_of_nat len))))))"

definition conf_bool :: "u8 list \<Rightarrow> cvalue option exec" where
  "conf_bool cStr =
     bindE (count_while isalpha cStr) (\<lambda>identLen.
     bindE (sv_toCStr (sv cStr (word_of_nat identLen))) (\<lambda>identCStr.
     bindE (streq identCStr (bytes ''true'' @ [0])) (\<lambda>t.
     if t then Inr (Some (CBool True))
     else bindE (streq identCStr (bytes ''false'' @ [0])) (\<lambda>f. Inr (if f then Some (CBool False) else None)))))"

text \<open>No value stands for one with its \<^verbatim>\<open>isErr\<close> set.\<close>

definition parseVal :: "sview \<Rightarrow> cvalue option exec" where
  "parseVal val =
     bindE (sv_toCStr val) (\<lambda>cStr.
     bindE (strIsDigit cStr) (\<lambda>digits.
     if digits then bindE (stoi cStr) (\<lambda>n. Inr (Some (CInt n)))
     else bindE (rd8 cStr 0) (\<lambda>c. if c = 34 then conf_string (tl cStr) else conf_bool cStr)))"

section \<open>The parser\<close>

definition conf_section :: "(u32 \<Rightarrow> bool) \<Rightarrow> kconf \<Rightarrow> (bool \<times> kconf) exec" where
  "conf_section al k =
     bindE (count_while (\<lambda>c. c \<noteq> 93) (cf_src k)) (\<lambda>len.
     let s = sv (tl (cf_src k)) (word_of_nat len - 1) in
     bindE (kvec_pushBack al SIZEOF_SV (cf_all k) s) (\<lambda>secs.
     bindE (sv_toCStr s) (\<lambda>_.
     Inr (True, k\<lparr>cf_section := s, cf_all := secs, cf_src := drop (len + 1) (cf_src k)\<rparr>))))"

definition conf_comment :: "kconf \<Rightarrow> (bool \<times> kconf) exec" where
  "conf_comment k =
     bindE (count_while (\<lambda>c. c \<noteq> 10) (cf_src k)) (\<lambda>n. Inr (True, k\<lparr>cf_src := drop n (cf_src k)\<rparr>))"

text \<open>The key is the section, a dot and the name, in a buffer of exactly that length.\<close>

definition conf_key :: "sview \<Rightarrow> sview \<Rightarrow> u8 list exec" where
  "conf_key sec ident =
     bindE (sv_toCStr ident) (\<lambda>identCStr. bindE (sv_toCStr sec) (\<lambda>sectionAsCStr.
     let keyLen = sv_len sec + 1 + sv_len ident + 1 in
     bindE (strcpy (replicate (unat keyLen) 0) sectionAsCStr) (\<lambda>k1.
     bindE (strcat k1 [46, 0]) (\<lambda>k2. strcat k2 identCStr))))"

definition conf_fail :: "string \<Rightarrow> kconf \<Rightarrow> bool \<times> kconf" where
  "conf_fail e k = (False, k\<lparr>cf_isErr := True, cf_err := Some e\<rparr>)"

definition conf_entry :: "(u32 \<Rightarrow> bool) \<Rightarrow> kconf \<Rightarrow> (bool \<times> kconf) exec" where
  "conf_entry al k =
     bindE (count_while conf_isIdent (cf_src k)) (\<lambda>identLen.
     let ident = sv (cf_src k) (word_of_nat identLen); s1 = drop identLen (cf_src k) in
     bindE (count_while conf_isWhitespace s1) (\<lambda>n1.
     let s2 = drop n1 s1 in
     bindE (rd8 s2 0) (\<lambda>c.
     if c \<noteq> 61 then Inr (conf_fail ''Equals sign not found: expected format: name=val'' (k\<lparr>cf_src := s2\<rparr>))
     else bindE (count_while conf_isWhitespace (tl s2)) (\<lambda>n2.
       let s3 = drop n2 (tl s2) in
       bindE (count_while (\<lambda>c. c \<noteq> 10) s3) (\<lambda>lenUntilNewline.
       bindE (parseVal (sv s3 (word_of_nat lenUntilNewline))) (\<lambda>v. case v of
         None \<Rightarrow> Inr (conf_fail ''Invalid initializer for variable'' (k\<lparr>cf_src := s3\<rparr>))
       | Some init \<Rightarrow>
           bindE (conf_key (cf_section k) ident) (\<lambda>key.
           bindE (kmap_insert al SIZEOF_CONFENTRY (cf_mapping k) (cstr key) init) (\<lambda>m.
           Inr (True, k\<lparr>cf_src := drop lenUntilNewline s3, cf_mapping := m\<rparr>)))))))))"

text \<open>One round of the loop, and whether the loop goes on.\<close>

definition conf_step :: "(u32 \<Rightarrow> bool) \<Rightarrow> u8 \<Rightarrow> kconf \<Rightarrow> (bool \<times> kconf) exec" where
  "conf_step al c k =
     (if c = 91 then conf_section al k
      else if c = 35 then conf_comment k
      else if conf_isIdent c then conf_entry al k
      else if conf_isWhitespace c then Inr (True, k\<lparr>cf_src := tl (cf_src k)\<rparr>)
      else Inr (conf_fail ''Invalid character'' k))"

lemma count_while_pos: "count_while P (c # s) = Inr n \<Longrightarrow> P c \<Longrightarrow> 0 < n"
  by (auto simp: bindE_Inr_iff)

lemma conf_step_shorter:
  assumes "cf_src k = c # s" and "conf_step al c k = Inr (True, k')"
  shows "length (cf_src k') < length (cf_src k)"
proof -
  note src = assms(1)
  have pos: "0 < n" if "count_while P (cf_src k) = Inr n" "P c" for P n
    using count_while_pos [of P c s n] that src by simp
  consider "c = 91" "conf_section al k = Inr (True, k')" | "c = 35" "conf_comment k = Inr (True, k')"
    | "conf_isIdent c" "conf_entry al k = Inr (True, k')" | "k' = k\<lparr>cf_src := s\<rparr>"
    using assms by (auto simp: conf_step_def conf_fail_def split: if_splits)
  then show ?thesis
  proof cases
    case 1
    then show ?thesis
      using src by (auto simp: conf_section_def Let_def)
  next
    case 2
    then show ?thesis
      using src pos [of "\<lambda>c. c \<noteq> 10"] by (auto simp: conf_comment_def)
  next
    case 3
    then show ?thesis
      using src pos [of conf_isIdent]
      by (auto simp: conf_entry_def conf_fail_def Let_def split: if_splits option.splits) arith
  next
    case 4
    then show ?thesis
      using src by simp
  qed
qed

function conf_loop :: "(u32 \<Rightarrow> bool) \<Rightarrow> kconf \<Rightarrow> kconf exec" where
  "conf_loop al k =
     (case cf_src k of
        [] \<Rightarrow> Inl OutOfBounds
      | c # s \<Rightarrow>
          if c = 0 then Inr k
          else bindE (conf_step al c k) (\<lambda>r. if fst r then conf_loop al (snd r) else Inr (snd r)))"
  by pat_completeness auto
termination
  by (relation "measure (\<lambda>(al, k). length (cf_src k))") (simp, use conf_step_shorter in fastforce)

declare conf_loop.simps [simp del]

definition parseSrc :: "(u32 \<Rightarrow> bool) \<Rightarrow> kconf \<Rightarrow> kconf exec" where
  "parseSrc al k = conf_loop al (k\<lparr>cf_section := sv [0] 0\<rparr>)"

section \<open>Sections and files\<close>

fun conf_subsections :: "(u32 \<Rightarrow> bool) \<Rightarrow> sview list \<Rightarrow> sview \<Rightarrow> sview kvec \<Rightarrow> sview kvec exec" where
  "conf_subsections al [] mainSection ret = Inr ret"
| "conf_subsections al (s # ss) mainSection ret =
     bindE (sv_startsWith s mainSection) (\<lambda>b.
     bindE (if b then kvec_pushBack al SIZEOF_SV ret s else Inr ret) (conf_subsections al ss mainSection))"

fun kvec_elems :: "nat \<Rightarrow> u32 \<Rightarrow> 'a kvec \<Rightarrow> 'a list exec" where
  "kvec_elems 0 i v = Inr []"
| "kvec_elems (Suc n) i v = bindE (kvec_val v i) (\<lambda>x. bindE (kvec_elems n (i + 1) v) (\<lambda>xs. Inr (x # xs)))"

definition getAllSubsections :: "(u32 \<Rightarrow> bool) \<Rightarrow> kconf \<Rightarrow> sview \<Rightarrow> sview kvec exec" where
  "getAllSubsections al k mainSection =
     bindE (kvec_elems (unat (kv_len (cf_all k))) 0 (cf_all k)) (\<lambda>ss.
     conf_subsections al ss mainSection (kvec_new al SIZEOF_SV))"

text \<open>
  \<^verbatim>\<open>fromFile\<close> reads the whole file into a zeroed buffer one byte longer, and looks at the
  descriptor only then; the operations answer 0 and an error for the descriptor 0.
\<close>

definition fromFile :: "(u32 \<Rightarrow> bool) \<Rightarrow> ('w, 'x) fsys \<Rightarrow> kconf \<Rightarrow> u8 list \<Rightarrow> (kconf \<times> ('w, 'x) fsys) exec" where
  "fromFile al fs k fp =
     bindE (fs_open al fs fp) (\<lambda>(fd, fs1).
     bindE (fs_fileSize fs1 fd) (\<lambda>filesize.
     bindE (fs_read fs1 fd filesize) (\<lambda>(_, out, fs2).
     bindE (memcpy_loop (replicate (unat (filesize + 1)) 0) out (length out)) (\<lambda>buf.
     Inr (if fd = 0 then k\<lparr>cf_src := buf, cf_isErr := True, cf_err := Some ''File not found''\<rparr>
          else k\<lparr>cf_src := buf, cf_isErr := False\<rparr>, fs2)))))"

section \<open>The text of a configuration\<close>

datatype dval = DInt u32 | DString "u8 list" | DBool bool

datatype citem = CSection "u8 list" | CEntry "u8 list" "u8 list" "u8 list" dval | CComment "u8 list" | CBlank

fun dval_text :: "dval \<Rightarrow> u8 list" where
  "dval_text (DInt n) = radix 10 (unat n)"
| "dval_text (DString t) = [34] @ t @ [34]"
| "dval_text (DBool b) = (if b then bytes ''true'' else bytes ''false'')"

fun item_text :: "citem \<Rightarrow> u8 list" where
  "item_text (CSection s) = [91] @ s @ [93, 10]"
| "item_text (CEntry n w1 w2 v) = n @ w1 @ [61] @ w2 @ dval_text v @ [10]"
| "item_text (CComment t) = [35] @ t @ [10]"
| "item_text CBlank = [10]"

definition conf_text :: "citem list \<Rightarrow> u8 list" where
  "conf_text is = concat (List.map item_text is)"

fun dval_ok :: "dval \<Rightarrow> bool" where
  "dval_ok (DString t) \<longleftrightarrow> list_all (\<lambda>c. c \<notin> {0, 10, 34}) t"
| "dval_ok _ \<longleftrightarrow> True"

fun citem_ok :: "citem \<Rightarrow> bool" where
  "citem_ok (CSection s) \<longleftrightarrow> list_all (\<lambda>c. c \<noteq> 93) s"
| "citem_ok (CEntry n w1 w2 v) \<longleftrightarrow> n \<noteq> [] \<and> list_all conf_isIdent n \<and> list_all conf_isWhitespace w1 \<and>
     list_all conf_isWhitespace w2 \<and> dval_ok v"
| "citem_ok (CComment t) \<longleftrightarrow> list_all (\<lambda>c. c \<noteq> 10) t"
| "citem_ok CBlank \<longleftrightarrow> True"

text \<open>What the configuration means: the entries in order, and the sections.\<close>

fun cvalue_of :: "dval \<Rightarrow> cvalue" where
  "cvalue_of (DInt n) = CInt n"
| "cvalue_of (DString t) = CString (sv (t @ [0]) (word_of_nat (length t)))"
| "cvalue_of (DBool b) = CBool b"

fun conf_entries :: "u8 list \<Rightarrow> citem list \<Rightarrow> (u8 list \<times> cvalue) list" where
  "conf_entries sec [] = []"
| "conf_entries sec (CSection s # is) = conf_entries s is"
| "conf_entries sec (CEntry n w1 w2 v # is) = (cstr sec @ [46] @ n, cvalue_of v) # conf_entries sec is"
| "conf_entries sec (_ # is) = conf_entries sec is"

fun conf_sections :: "citem list \<Rightarrow> u8 list list" where
  "conf_sections [] = []"
| "conf_sections (CSection s # is) = s # conf_sections is"
| "conf_sections (_ # is) = conf_sections is"

section \<open>Reading it back\<close>

lemma count_while_eq: "list_all P a \<Longrightarrow> \<not> P c \<Longrightarrow> count_while P (a @ c # t) = Inr (length a)"
  by (induction a) simp_all

lemma conf_classes:
  "conf_isIdent c \<Longrightarrow> c \<noteq> 0 \<and> c \<noteq> 91 \<and> c \<noteq> 35 \<and> \<not> conf_isWhitespace c"
  "conf_isWhitespace c \<Longrightarrow> c \<noteq> 0 \<and> c \<noteq> 91 \<and> c \<noteq> 35 \<and> \<not> conf_isIdent c \<and> c \<noteq> 34 \<and> \<not> isdigit c \<and> \<not> isalpha c"
  "\<not> conf_isIdent 61" "\<not> conf_isWhitespace 61" "\<not> isdigit 34" "\<not> conf_isWhitespace 34"
  by (auto simp: conf_isIdent_def conf_isWhitespace_def isalpha_def isdigit_def)

lemma sv_prefix:
  assumes "length a + 1 < 2 ^ 32"
  shows "sv_valid (sv (a @ t) (word_of_nat (length a)))" and "sv_bytes (sv (a @ t) (word_of_nat (length a))) = a"
  using assms by (simp_all add: sv_valid_def sv_bytes_def)

lemma sv_toCStr_prefix:
  "length a + 1 < 2 ^ 32 \<Longrightarrow> sv_toCStr (sv (a @ t) (word_of_nat (length a))) = Inr (a @ [0])"
  using sv_toCStr_spec [OF sv_prefix(1)] sv_prefix(2) by simp

lemma strIsDigit_digits: "list_all isdigit a \<Longrightarrow> a \<noteq> [] \<Longrightarrow> 0 \<notin> set a \<Longrightarrow> strIsDigit (a @ [0]) = Inr True"
proof -
  have "strIsDigit_loop (b @ [0]) = Inr True" if "list_all isdigit b" for b
    using that by (induction b) auto
  then show "list_all isdigit a \<Longrightarrow> a \<noteq> [] \<Longrightarrow> 0 \<notin> set a \<Longrightarrow> strIsDigit (a @ [0]) = Inr True"
    by (cases a) auto
qed

lemma conf_string_eq:
  assumes "list_all (\<lambda>c. c \<noteq> 34) t"
  shows "conf_string (t @ 34 # u) = Inr (Some (CString (sv (t @ [0]) (word_of_nat (length t)))))"
proof -
  have "drop n (replicate (Suc n) (0 :: u8)) = [0]" for n
    unfolding drop_replicate by simp
  then show ?thesis
    using assms by (simp add: conf_string_def count_while_eq memcpy_loop_eq del: replicate_Suc)
qed

lemma conf_bool_eq:
  "conf_bool (bytes ''true'' @ [0]) = Inr (Some (CBool True))"
  "conf_bool (bytes ''false'' @ [0]) = Inr (Some (CBool False))"
  "strIsDigit (bytes ''true'' @ [0]) = Inr False" "strIsDigit (bytes ''false'' @ [0]) = Inr False"
  "rd8 (bytes ''true'' @ [0]) 0 = Inr 116" "rd8 (bytes ''false'' @ [0]) 0 = Inr 102"
  by code_simp+

lemma parseVal_text:
  assumes "dval_ok v" and "length (dval_text v) + 1 < 2 ^ 32"
  shows "parseVal (sv (dval_text v @ t) (word_of_nat (length (dval_text v)))) = Inr (Some (cvalue_of v))"
proof -
  have c: "sv_toCStr (sv (dval_text v @ t) (word_of_nat (length (dval_text v)))) = Inr (dval_text v @ [0])"
    by (rule sv_toCStr_prefix [OF assms(2)])
  show ?thesis
  proof (cases v)
    case (DInt n)
    have "strIsDigit (radix 10 (unat n) @ [0]) = Inr True"
      using radix_nul by (intro strIsDigit_digits radix_digits) auto
    then show ?thesis
      using c DInt stoi_radix by (simp add: parseVal_def)
  next
    case (DString u)
    then show ?thesis
      using c conf_string_eq [of u "[0]"] assms(1) conf_classes(5)
      by (simp add: parseVal_def rd8_def list_all_iff)
  next
    case (DBool b)
    show ?thesis
      unfolding parseVal_def c unfolding DBool dval_text.simps bindE.simps
      by (cases b) (simp_all only: if_True if_False conf_bool_eq bindE.simps, simp_all)
  qed
qed

lemma cstr_snoc: "cstr (s @ [0]) = cstr s"
  by (induction s) auto

lemma conf_key_eq:
  assumes "sv_valid sec" and "sv_valid ident" and "0 \<notin> set (sv_bytes ident)"
    and "unat (sv_len sec) + unat (sv_len ident) + 2 < 2 ^ 32"
  shows "\<exists>r. conf_key sec ident = Inr (cstr (sv_bytes sec) @ [46] @ sv_bytes ident @ 0 # r)"
proof -
  let ?s = "cstr (sv_bytes sec)" and ?i = "sv_bytes ident"
  let ?n = "unat (sv_len sec) + 1 + unat (sv_len ident) + 1"
  have n: "unat (sv_len sec + 1 + sv_len ident + 1) = ?n"
    using assms(4) by (simp add: unat_word_ariths)
  have len: "length ?s \<le> unat (sv_len sec)" "length ?i = unat (sv_len ident)"
    using cstr_length_le [of "sv_bytes sec"] length_sv_bytes assms(1,2) by simp_all
  have ci: "cstr (?i @ [0]) = ?i"
    using cstr_append_nul [OF assms(3), of "[]"] by simp
  have cs: "cstr (sv_bytes sec @ [0]) = ?s"
    by (rule cstr_snoc)
  obtain r1 where r1: "strcpy (replicate ?n 0) (sv_bytes sec @ [0]) = Inr (?s @ 0 # replicate r1 0)"
      "r1 = ?n - Suc (length ?s)"
    using strcpy_eq [of "sv_bytes sec @ [0]" "replicate ?n 0"] cs len by (simp del: replicate_Suc)
  have c1: "cstr (?s @ 0 # r) = ?s" for r
    by (rule cstr_append_nul) simp
  have r2: "strcat (?s @ 0 # replicate r1 0) [46, 0] = Inr ((?s @ [46]) @ 0 # replicate (r1 - 1) 0)"
    using strcat_eq [of "?s @ 0 # replicate r1 0" "[46, 0]"] c1 r1(2) len by (simp add: drop_Cons')
  have c2: "cstr ((?s @ [46]) @ 0 # r) = ?s @ [46]" for r
    by (rule cstr_append_nul) simp
  have "\<exists>r. strcat ((?s @ [46]) @ 0 # replicate (r1 - 1) 0) (?i @ [0]) = Inr ((?s @ [46]) @ ?i @ 0 # r)"
    using strcat_eq [of "(?s @ [46]) @ 0 # replicate (r1 - 1) 0" "?i @ [0]"] c2 ci r1(2) len by simp
  then show ?thesis
    unfolding conf_key_def Let_def n sv_toCStr_spec [OF assms(1)] sv_toCStr_spec [OF assms(2)] bindE.simps r1(1) r2 by simp
qed

text \<open>The configuration that has been read so far.\<close>

definition conf_holds :: "(u32 \<Rightarrow> bool) \<Rightarrow> kconf \<Rightarrow> u8 list \<Rightarrow> u8 list list \<Rightarrow> (u8 list \<times> cvalue) list \<Rightarrow> bool" where
  "conf_holds al k sec secs ps \<longleftrightarrow> \<not> cf_isErr k \<and> sv_valid (cf_section k) \<and> sv_bytes (cf_section k) = sec \<and>
     kernel_array al SIZEOF_CONFENTRY (cf_mapping k) ps \<and>
     (\<exists>ss. kernel_array al SIZEOF_SV (cf_all k) ss \<and> list_all sv_valid ss \<and> List.map sv_bytes ss = secs)"

lemma conf_section_runs:
  assumes "conf_holds al k sec secs ps" and "cf_src k = item_text (CSection s) @ t" and "citem_ok (CSection s)"
    and "length s + 2 < 2 ^ 31" and "length secs < 2 ^ 26"
  shows "\<exists>k'. conf_section al k = Inr (True, k') \<and> conf_holds al k' s (secs @ [s]) ps \<and> cf_src k' = 10 # t"
proof -
  let ?v = "sv (s @ 93 # 10 # t) (word_of_nat (length s))"
  have v: "sv_valid ?v" "sv_bytes ?v = s"
    using sv_prefix [of s "93 # 10 # t"] assms(4) by simp_all
  have c: "count_while (\<lambda>c. c \<noteq> 93) (cf_src k) = Inr (Suc (length s))"
    using count_while_eq [of "\<lambda>c. c \<noteq> 93" "91 # s" 93 "10 # t"] assms(2,3) by simp
  obtain ss where ss: "kernel_array al SIZEOF_SV (cf_all k) ss" "list_all sv_valid ss" "List.map sv_bytes ss = secs"
    using assms(1) by (auto simp: conf_holds_def)
  moreover have "length ss < 2 ^ 26"
    using ss(3) assms(5) by auto
  ultimately obtain a where a: "kvec_pushBack al SIZEOF_SV (cf_all k) ?v = Inr a" "kernel_array al SIZEOF_SV a (ss @ [?v])"
    using kv.push_law [OF ss(1), of ?v] by auto
  let ?k = "k\<lparr>cf_section := ?v, cf_all := a, cf_src := 10 # t\<rparr>"
  have "conf_section al k = Inr (True, ?k)"
    unfolding conf_section_def c bindE.simps Let_def using a(1) v assms(2) sv_toCStr_spec [OF v(1)] by simp
  moreover have "conf_holds al ?k s (secs @ [s]) ps"
    using assms(1) a(2) ss v unfolding conf_holds_def by (auto intro!: exI [of _ "ss @ [?v]"])
  ultimately show ?thesis
    by force
qed

lemma conf_entry_runs:
  assumes "conf_holds al k sec secs ps" and "cf_src k = item_text (CEntry n w1 w2 v) @ t" and "citem_ok (CEntry n w1 w2 v)"
    and "length (item_text (CEntry n w1 w2 v)) < 2 ^ 31" and "length sec < 2 ^ 31" and "length ps < 2 ^ 26"
  shows "\<exists>k'. conf_entry al k = Inr (True, k') \<and> conf_holds al k' sec secs (ps @ [(cstr sec @ [46] @ n, cvalue_of v)]) \<and>
    cf_src k' = 10 # t"
proof -
  note ok = assms(3) [simplified]
  let ?s1 = "w1 @ 61 # w2 @ dval_text v @ 10 # t" and ?s3 = "dval_text v @ 10 # t"
  have src: "cf_src k = n @ ?s1"
    using assms(2) by simp
  have len: "length n + 1 < 2 ^ 32" "length (dval_text v) + 1 < 2 ^ 32"
    using assms(4) by simp_all
  let ?i = "sv (n @ ?s1) (word_of_nat (length n))"
  have i: "sv_valid ?i" "sv_bytes ?i = n" "unat (sv_len ?i) = length n"
    using sv_prefix [OF len(1), of ?s1] len(1) by simp_all
  obtain h x where hx: "?s1 = h # x" "\<not> conf_isIdent h"
    using ok conf_classes(2,3) by (cases w1) auto
  have c1: "count_while conf_isIdent (cf_src k) = Inr (length n)"
    using count_while_eq [of conf_isIdent n h x] ok hx src by simp
  have c2: "count_while conf_isWhitespace ?s1 = Inr (length w1)"
    using ok conf_classes(4) by (simp add: count_while_eq)
  obtain g y where gy: "?s3 = g # y" "\<not> conf_isWhitespace g"
  proof (cases v)
    case (DInt m)
    obtain g y where "radix 10 (unat m) = g # y"
      by (cases "radix 10 (unat m)") auto
    moreover from this have "isdigit g"
      using radix_digits [of "unat m"] by simp
    ultimately show ?thesis
      using that DInt conf_classes(2) by fastforce
  next
    case (DBool b)
    then show ?thesis
      using that [of "if b then 116 else 102"] by (cases b) (auto simp: conf_isWhitespace_def)
  qed (use that conf_classes(6) in simp)
  have c3: "count_while conf_isWhitespace (w2 @ ?s3) = Inr (length w2)"
    using count_while_eq [of conf_isWhitespace w2 g y] ok gy by simp
  have "list_all (\<lambda>c. c \<noteq> 10) (dval_text v)"
    using ok radix10_digit by (cases v) (fastforce simp: list_all_iff)+
  then have c4: "count_while (\<lambda>c. c \<noteq> 10) ?s3 = Inr (length (dval_text v))"
    by (simp add: count_while_eq)
  have "0 \<notin> set (sv_bytes ?i)"
    using ok conf_classes(1) by (auto simp: i(2) list_all_iff)
  moreover have "unat (sv_len (cf_section k)) + unat (sv_len ?i) + 2 < 2 ^ 32"
    using assms(1,4,5) i(3) length_sv_bytes [of "cf_section k"] by (simp add: conf_holds_def)
  ultimately obtain r where key: "conf_key (cf_section k) ?i = Inr (cstr sec @ [46] @ n @ 0 # r)"
    using conf_key_eq [of "cf_section k" ?i] assms(1) i by (auto simp: conf_holds_def)
  have ck: "cstr (cstr sec @ [46] @ n @ 0 # r) = cstr sec @ [46] @ n"
    using cstr_append_nul [of "cstr sec @ [46] @ n" r] ok conf_classes(1) by (fastforce simp: list_all_iff)
  obtain m where m: "kmap_insert al SIZEOF_CONFENTRY (cf_mapping k) (cstr sec @ [46] @ n) (cvalue_of v) = Inr m"
      "kernel_array al SIZEOF_CONFENTRY m (ps @ [(cstr sec @ [46] @ n, cvalue_of v)])"
    using kv.push_law [OF _ assms(6)] assms(1) unfolding conf_holds_def kmap_insert_def by blast
  have "conf_entry al k = Inr (True, k\<lparr>cf_src := 10 # t, cf_mapping := m\<rparr>)"
    unfolding conf_entry_def c1 bindE.simps Let_def
    unfolding src using c2 c3 c4 key m(1) ck parseVal_text [OF _ len(2), of "10 # t"] ok
    by (simp add: rd8_def)
  then show ?thesis
    using assms(1) m(2) by (auto simp: conf_holds_def)
qed

lemma conf_loop_step:
  "cf_src k = c # s \<Longrightarrow> c \<noteq> 0 \<Longrightarrow> conf_step al c k = Inr (True, k') \<Longrightarrow> conf_loop al k = conf_loop al k'"
  by (simp add: conf_loop.simps [of al k])

lemma conf_loop_newline: "cf_src k = 10 # t \<Longrightarrow> conf_loop al k = conf_loop al (k\<lparr>cf_src := t\<rparr>)"
  by (rule conf_loop_step [of k 10 t]) (simp_all add: conf_step_def conf_isWhitespace_def conf_isIdent_def isalpha_def isdigit_def)

text \<open>One item: the parser reads it, with the newline behind it, and goes on with what follows.\<close>

lemma conf_item_runs:
  assumes "conf_holds al k sec secs ps" and "cf_src k = item_text i @ t" and "citem_ok i"
    and "length (item_text i) < 2 ^ 31" and "length sec < 2 ^ 31" and "length ps < 2 ^ 26" and "length secs < 2 ^ 26"
  shows "\<exists>k' sec'. conf_loop al k = conf_loop al k' \<and> cf_src k' = t \<and> length sec' < 2 ^ 31 \<and>
    conf_holds al k' sec' (secs @ conf_sections [i]) (ps @ conf_entries sec [i]) \<and>
    (\<forall>its. conf_entries sec (i # its) = conf_entries sec [i] @ conf_entries sec' its)"
proof -
  have src: "conf_holds al (k'\<lparr>cf_src := t\<rparr>) sec' secs' ps'" if "conf_holds al k' sec' secs' ps'" for k' sec' secs' ps'
    using that by (simp add: conf_holds_def)
  have go: ?thesis
    if k': "conf_loop al k = conf_loop al k'" "cf_src k' = 10 # t"
        "conf_holds al k' sec' (secs @ conf_sections [i]) (ps @ conf_entries sec [i])"
      and sec': "length sec' < 2 ^ 31" "\<And>its. conf_entries sec (i # its) = conf_entries sec [i] @ conf_entries sec' its"
    for k' sec'
  proof (intro exI [of _ "k'\<lparr>cf_src := t\<rparr>"] exI [of _ sec'] conjI allI)
    show "conf_loop al k = conf_loop al (k'\<lparr>cf_src := t\<rparr>)"
      using trans [OF k'(1) conf_loop_newline [OF k'(2)]] .
  qed (use src [OF k'(3)] sec'(1) in simp_all, rule sec'(2))
  show ?thesis
  proof (cases i)
    case (CSection s)
    obtain k' where k': "conf_section al k = Inr (True, k')" "conf_holds al k' s (secs @ [s]) ps" "cf_src k' = 10 # t"
      using conf_section_runs [OF assms(1), of s t] assms(2-4,7) CSection by auto
    have "conf_loop al k = conf_loop al k'"
      by (rule conf_loop_step [of _ 91 "s @ 93 # 10 # t"]) (use assms(2) CSection k' in \<open>simp_all add: conf_step_def\<close>)
    then show ?thesis
      using k' assms(4) CSection by (intro go [of k' s]) auto
  next
    case (CEntry n w1 w2 v)
    obtain k' where k': "conf_entry al k = Inr (True, k')" "cf_src k' = 10 # t"
        "conf_holds al k' sec secs (ps @ [(cstr sec @ [46] @ n, cvalue_of v)])"
      using conf_entry_runs [OF assms(1), of n w1 w2 v t] assms(2-6) CEntry by auto
    obtain c r where c: "n = c # r" "conf_isIdent c"
      using assms(3) CEntry by (cases n) auto
    have "conf_loop al k = conf_loop al k'"
      by (rule conf_loop_step [of _ c "r @ w1 @ 61 # w2 @ dval_text v @ 10 # t"])
        (use assms(2) CEntry k'(1) c(1) conf_classes(1) [OF c(2)] c(2) in \<open>simp_all only: conf_step_def item_text.simps append.simps append_assoc if_False if_True simp_thms\<close>)
    then show ?thesis
      using k' assms(5) CEntry by (intro go [of k' sec]) auto
  next
    case (CComment u)
    have "count_while (\<lambda>c. c \<noteq> 10) (cf_src k) = Inr (Suc (length u))"
      using count_while_eq [of "\<lambda>c. c \<noteq> 10" "35 # u" 10 t] assms(2,3) CComment by simp
    then have "conf_comment k = Inr (True, k\<lparr>cf_src := 10 # t\<rparr>)"
      using assms(2) CComment by (simp add: conf_comment_def)
    then have "conf_loop al k = conf_loop al (k\<lparr>cf_src := 10 # t\<rparr>)"
      using assms(2) CComment by (intro conf_loop_step [of _ 35 "u @ 10 # t"]) (simp_all add: conf_step_def)
    moreover have "conf_holds al (k\<lparr>cf_src := 10 # t\<rparr>) sec secs ps"
      using assms(1) by (simp add: conf_holds_def)
    ultimately show ?thesis
      using assms(5) CComment by (intro go [of "k\<lparr>cf_src := 10 # t\<rparr>" sec]) simp_all
  next
    case CBlank
    then show ?thesis
      using assms(1,2,5) by (intro go [of k sec]) simp_all
  qed
qed

lemma conf_sections_Cons: "conf_sections (i # its) = conf_sections [i] @ conf_sections its"
  by (cases i) auto

lemma conf_lengths: "length (conf_entries sec [i]) \<le> 1" "length (conf_sections [i]) \<le> 1"
  by (cases i; simp)+

lemma conf_text_runs:
  "conf_holds al k sec secs ps \<Longrightarrow> cf_src k = conf_text its @ 0 # t \<Longrightarrow> list_all citem_ok its \<Longrightarrow>
   length (conf_text its) < 2 ^ 31 \<Longrightarrow> length sec < 2 ^ 31 \<Longrightarrow> length ps + length its \<le> 2 ^ 26 \<Longrightarrow>
   length secs + length its \<le> 2 ^ 26 \<Longrightarrow>
   \<exists>k' sec'. conf_loop al k = Inr k' \<and> conf_holds al k' sec' (secs @ conf_sections its) (ps @ conf_entries sec its)"
proof (induction its arbitrary: k sec secs ps)
  case Nil
  then show ?case
    by (subst conf_loop.simps) (auto simp: conf_text_def)
next
  case (Cons i js)
  have ct: "conf_text (i # js) = item_text i @ conf_text js"
    by (simp add: conf_text_def)
  have prems: "cf_src k = item_text i @ conf_text js @ 0 # t" "citem_ok i" "length (item_text i) < 2 ^ 31" "length sec < 2 ^ 31"
      "length ps < 2 ^ 26" "length secs < 2 ^ 26"
    using Cons.prems(2-7) ct by simp_all
  obtain k1 sec1 where k1: "conf_loop al k = conf_loop al k1" "cf_src k1 = conf_text js @ 0 # t" "length sec1 < 2 ^ 31"
      "conf_holds al k1 sec1 (secs @ conf_sections [i]) (ps @ conf_entries sec [i])"
      and ent: "\<forall>its. conf_entries sec (i # its) = conf_entries sec [i] @ conf_entries sec1 its"
    using conf_item_runs [OF Cons.prems(1) prems] by blast
  obtain k2 sec2 where "conf_loop al k1 = Inr k2"
      "conf_holds al k2 sec2 ((secs @ conf_sections [i]) @ conf_sections js) ((ps @ conf_entries sec [i]) @ conf_entries sec1 js)"
    using Cons.IH [OF k1(4,2) _ _ k1(3)] Cons.prems(3,4,6,7) ct conf_lengths(1) [of sec i] conf_lengths(2) [of i] by auto
  then show ?case
    unfolding k1(1) ent [rule_format, of js] conf_sections_Cons [of i js] by auto
qed

lemma parseSrc_eq:
  assumes "\<forall>n. al n" and "list_all citem_ok its" and "length (conf_text its) < 2 ^ 31" and "length its \<le> 2 ^ 26"
  obtains k sec where "parseSrc al (conf_new al (conf_text its @ 0 # t)) = Inr k"
    and "conf_holds al k sec (conf_sections its) (conf_entries [] its)"
proof -
  let ?k = "conf_new al (conf_text its @ 0 # t)"
  have "kernel_array al SIZEOF_CONFENTRY (kvec_new al SIZEOF_CONFENTRY) []" "kernel_array al SIZEOF_SV (kvec_new al SIZEOF_SV) []"
    using assms(1) by (auto intro!: kernel_array_new simp: SIZEOF_CONFENTRY_def SIZEOF_SV_def)
  then have "conf_holds al ?k [] [] []"
    by (simp add: conf_holds_def conf_new_def sv_valid_def sv_bytes_def)
  moreover have "?k\<lparr>cf_section := sv [0] 0\<rparr> = ?k" "cf_src ?k = conf_text its @ 0 # t"
    by (simp_all add: conf_new_def)
  ultimately show thesis
    using conf_text_runs [of al ?k "[]" "[]" "[]" its t] assms(2-4) that by (auto simp: parseSrc_def)
qed

section \<open>Sections of a configuration\<close>

lemma kvec_elems_eq:
  assumes "kvec_is ts v xs" and "length xs < 2 ^ 32"
  shows "j + n = length xs \<Longrightarrow> kvec_elems n (word_of_nat j) v = Inr (drop j xs)"
proof (induction n arbitrary: j)
  case (Suc n)
  have "kvec_elems n (word_of_nat (Suc j)) v = Inr (drop (Suc j) xs)"
    using Suc.IH [of "Suc j"] Suc.prems by simp
  moreover have "kvec_val v (word_of_nat j) = Inr (xs ! j)"
    using kvec_val_is [OF assms(1)] Suc.prems assms(2) by simp
  ultimately show ?case
    using Suc.prems by (simp add: Cons_nth_drop_Suc add.commute)
qed simp

lemma kvec_all_elems:
  assumes "kernel_array al ts v xs"
  shows "kvec_elems (unat (kv_len v)) 0 v = Inr xs"
proof -
  have "kvec_is ts v xs"
    using assms by (rule kernel_array_kvec)
  moreover from this have "unat (kv_len v) = length xs" "length xs < 2 ^ 32"
    using unsigned_less [of "kv_len v", where 'a = nat] by (auto simp: kvec_is_def)
  ultimately show ?thesis
    using kvec_elems_eq [of ts v xs 0 "unat (kv_len v)"] by simp
qed

lemma conf_subsections_eq:
  assumes "sv_valid m"
  shows "list_all sv_valid ss \<Longrightarrow> kernel_array al SIZEOF_SV ret rs \<Longrightarrow> length rs + length ss \<le> 2 ^ 26 \<Longrightarrow>
    \<exists>v. conf_subsections al ss m ret = Inr v \<and>
      kernel_array al SIZEOF_SV v (rs @ filter (\<lambda>s. take (length (sv_bytes m)) (sv_bytes s) = sv_bytes m) ss)"
proof (induction ss arbitrary: ret rs)
  case (Cons s ss)
  let ?b = "take (length (sv_bytes m)) (sv_bytes s) = sv_bytes m"
  have b: "sv_startsWith s m = Inr ?b"
    using sv_startsWith_spec [of s m] Cons.prems(1) assms by simp
  obtain r' where "(if ?b then kvec_pushBack al SIZEOF_SV ret s else Inr ret) = Inr r'"
      "kernel_array al SIZEOF_SV r' (rs @ (if ?b then [s] else []))"
    using kv.push_law [OF Cons.prems(2), of s] Cons.prems(2,3) by (cases ?b) auto
  then show ?case
    using Cons.IH [of r' "rs @ (if ?b then [s] else [])"] Cons.prems(1,3) by (auto simp: b split: if_splits)
qed simp

lemma getAllSubsections_eq:
  assumes "kernel_array al SIZEOF_SV (cf_all k) ss" and "list_all sv_valid ss" and "length ss \<le> 2 ^ 26" and "sv_valid m"
  shows "\<exists>v. getAllSubsections al k m = Inr v \<and>
    kernel_array al SIZEOF_SV v (filter (\<lambda>s. take (length (sv_bytes m)) (sv_bytes s) = sv_bytes m) ss)"
proof -
  have "kernel_array al SIZEOF_SV (kvec_new al SIZEOF_SV) []"
    using assms(1) by (intro kernel_array_new) (simp_all add: SIZEOF_SV_def kernel_array_def)
  then show ?thesis
    using conf_subsections_eq [OF assms(4,2), of al "kvec_new al SIZEOF_SV" "[]"] assms(3)
    by (simp add: getAllSubsections_def kvec_all_elems [OF assms(1)])
qed

section \<open>What the parser promises\<close>

text \<open>C40: a configuration written as sections of names with numbers, quoted strings and truth values,
  with blanks around the equals sign, comments and empty lines, is read without an error: every key
  \<^verbatim>\<open>section.name\<close> is bound to its first value, no other key is bound, and the sections are listed in order.\<close>

theorem conf_parse_print:
  assumes "\<forall>n. al n" and "list_all citem_ok its" and "length (conf_text its) < 2 ^ 31" and "length its \<le> 2 ^ 26"
  shows "\<exists>k ss. parseSrc al (conf_new al (conf_text its @ 0 # t)) = Inr k \<and> \<not> cf_isErr k \<and>
    (\<forall>key. kmap_exists (cf_mapping k) key = Inr (map_of (conf_entries [] its) key \<noteq> None) \<and>
      kmap_get (cf_mapping k) key = (case map_of (conf_entries [] its) key of
          None \<Rightarrow> Inl (Panic ''Called val() on an err value'') | Some v \<Rightarrow> Inr v)) \<and>
    kernel_array al SIZEOF_SV (cf_all k) ss \<and> List.map sv_bytes ss = conf_sections its"
proof -
  obtain k sec where k: "parseSrc al (conf_new al (conf_text its @ 0 # t)) = Inr k"
      "conf_holds al k sec (conf_sections its) (conf_entries [] its)"
    using parseSrc_eq [OF assms] by blast
  have m: "kvec_is SIZEOF_CONFENTRY (cf_mapping k) (conf_entries [] its)"
    using k(2) by (simp add: conf_holds_def kernel_array_def)
  obtain ss where "kernel_array al SIZEOF_SV (cf_all k) ss" "List.map sv_bytes ss = conf_sections its"
    using k(2) by (auto simp: conf_holds_def)
  then show ?thesis
    using k by (intro exI [of _ k] exI [of _ ss]) (simp add: conf_holds_def kmap_exists_eq [OF m] kmap_get_eq [OF m])
qed

text \<open>The file \<^verbatim>\<open>rootFs/krn/init.cfg\<close> of the repository.\<close>

definition init_items :: "citem list" where
  "init_items = [CSection (bytes ''kernel''), CEntry (bytes ''osname'') [32] [32] (DString (bytes ''RivOS'')),
     CEntry (bytes ''disableTerm'') [32] [32] (DBool False), CEntry (bytes ''bitness'') [32] [32] (DInt 32),
     CEntry (bytes ''dumpInitInfo'') [32] [32] (DBool True)]"

definition init_cfg :: "u8 list" where
  "init_cfg = bytes (''[kernel]'' @ [CHR 0x0A] @ ''osname = \"RivOS\"'' @ [CHR 0x0A] @ ''disableTerm = false'' @ [CHR 0x0A] @
     ''bitness = 32'' @ [CHR 0x0A] @ ''dumpInitInfo = true'' @ [CHR 0x0A])"

lemma init_items_text: "conf_text init_items = init_cfg"
  by (simp add: init_items_def init_cfg_def conf_text_def radix.simps digit_char_def)

lemma init_items_ok: "list_all citem_ok init_items"
  by (simp add: init_items_def conf_isIdent_def conf_isWhitespace_def isalpha_def isdigit_def)

lemma init_items_entries: "conf_entries [] init_items =
    [(bytes ''kernel.osname'', CString (sv (bytes ''RivOS'' @ [0]) 5)), (bytes ''kernel.disableTerm'', CBool False),
     (bytes ''kernel.bitness'', CInt 32), (bytes ''kernel.dumpInitInfo'', CBool True)]"
  by (simp add: init_items_def)

theorem conf_parse_print_witness:
  "\<exists>k. parseSrc (\<lambda>_. True) (conf_new (\<lambda>_. True) (init_cfg @ [0])) = Inr k \<and>
    kmap_get (cf_mapping k) (bytes ''kernel.osname'') = Inr (CString (sv (bytes ''RivOS'' @ [0]) 5)) \<and>
    kmap_get (cf_mapping k) (bytes ''kernel.bitness'') = Inr (CInt 32)"
proof -
  have "length (conf_text init_items) < 2 ^ 31" "length init_items \<le> 2 ^ 26"
    by (simp add: init_items_text init_cfg_def) (simp add: init_items_def)
  from conf_parse_print [of "\<lambda>_. True", OF _ init_items_ok this, of "[]"] show ?thesis
    unfolding init_items_text init_items_entries by fastforce
qed

text \<open>The loops of the parser do not look for the end of the file: a section without its bracket, a
  comment or an entry without a newline makes it read past the end of the buffer, whatever comes before
  the end.\<close>

theorem conf_unterminated_overreads:
  assumes "93 \<notin> set s" and "10 \<notin> set u" and "n \<noteq> []" and "list_all conf_isIdent n"
  shows "parseSrc al (conf_new al (91 # s)) = Inl OutOfBounds \<and>
    parseSrc al (conf_new al (35 # u)) = Inl OutOfBounds \<and>
    parseSrc al (conf_new al (n @ 61 # u)) = Inl OutOfBounds"
proof -
  have oob: "count_while P t = Inl OutOfBounds" if "list_all P t" for P t
    using that by (induction t) auto
  have all: "list_all (\<lambda>c. c \<noteq> x) t" if "x \<notin> set t" for x :: u8 and t
    using that by (auto simp: list_all_iff)
  have one: "parseSrc al (conf_new al (c # t)) = Inl OutOfBounds"
    if "c \<noteq> 0" "conf_step al c (conf_new al (c # t)) = Inl OutOfBounds" for c t
  proof -
    have "(conf_new al (c # t))\<lparr>cf_section := sv [0] 0\<rparr> = conf_new al (c # t)" "cf_src (conf_new al (c # t)) = c # t"
      by (simp_all add: conf_new_def)
    then show ?thesis
      using that by (simp add: parseSrc_def conf_loop.simps)
  qed
  have "conf_step al 91 (conf_new al (91 # s)) = Inl OutOfBounds"
    using oob [OF all [OF assms(1)]] by (simp add: conf_step_def conf_section_def conf_new_def)
  moreover have "conf_step al 35 (conf_new al (35 # u)) = Inl OutOfBounds"
    using oob [OF all [OF assms(2)]] by (simp add: conf_step_def conf_comment_def conf_new_def)
  moreover have "parseSrc al (conf_new al (n @ 61 # u)) = Inl OutOfBounds"
  proof -
    obtain c r where c: "n = c # r" "conf_isIdent c"
      using assms(3,4) by (cases n) auto
    have n: "count_while conf_isIdent (n @ 61 # u) = Inr (length n)"
      using assms(4) conf_classes(3) by (simp add: count_while_eq)
    have w: "count_while conf_isWhitespace (61 # u) = Inr 0"
      using conf_classes(4) by simp
    have "count_while (\<lambda>c. c \<noteq> 10) (drop m u) = Inl OutOfBounds" for m
      using oob [OF all, of 10 "drop m u"] assms(2) set_drop_subset [of m u] by blast
    moreover have "count_while P t = Inl OutOfBounds \<or> (\<exists>m. count_while P t = Inr m)" for P t
      by (induction t) auto
    ultimately have "conf_entry al (conf_new al (n @ 61 # u)) = Inl OutOfBounds"
      using n w unfolding conf_entry_def conf_new_def
      by (auto simp: rd8_def bindE_Inl_iff)
    then show ?thesis
      using one [of c "r @ 61 # u"] c conf_classes(1) [OF c(2)] by (simp add: conf_step_def)
  qed
  ultimately show ?thesis
    using one [of 91 s] one [of 35 u] by simp
qed

theorem conf_unterminated_overreads_witness:
  "parseSrc (\<lambda>_. True) (conf_new (\<lambda>_. True) (bytes ''[kernel'' @ [0])) = Inl OutOfBounds \<and>
   parseSrc (\<lambda>_. True) (conf_new (\<lambda>_. True) (bytes ''bitness=32'' @ [0])) = Inl OutOfBounds"
proof -
  have "list_all conf_isIdent (bytes ''bitness'')"
    by (simp add: conf_isIdent_def isalpha_def)
  from conf_unterminated_overreads [OF _ _ _ this, of "bytes ''kernel'' @ [0]" "bytes ''32'' @ [0]" "\<lambda>_. True"]
  show ?thesis
    by simp
qed

section \<open>The settings of the kernel\<close>

text \<open>
  What \<^verbatim>\<open>src/kernel.cpp\<close> does with the keys of \<^verbatim>\<open>/krn/init.cfg\<close>: a function for each key it knows,
  called for every entry in order. The endless loop in \<^verbatim>\<open>kernelMain\<close> in front of it keeps it from running.
\<close>

record ksettings =
  ks_term :: bool
  ks_osname :: "u8 list"
  ks_bitness :: u8

definition ks_new :: ksettings where
  "ks_new = \<lparr>ks_term = True, ks_osname = [0], ks_bitness = 32\<rparr>"

definition init_key :: "u8 list \<Rightarrow> cvalue \<Rightarrow> ksettings \<Rightarrow> ksettings exec" where
  "init_key key v s =
     (if key = bytes ''kernel.disableTerm'' then
        Inr (case v of CBool b \<Rightarrow> (if b then s\<lparr>ks_term := False\<rparr> else s) | _ \<Rightarrow> s)
      else if key = bytes ''kernel.osname'' then
        (case v of CString t \<Rightarrow> bindE (sv_toCStr t) (\<lambda>c. Inr (s\<lparr>ks_osname := c\<rparr>)) | _ \<Rightarrow> Inr s)
      else if key = bytes ''kernel.bitness'' then
        Inr (case v of CInt i \<Rightarrow> s\<lparr>ks_bitness := ucast i\<rparr> | _ \<Rightarrow> s)
      else Inr s)"

fun init_keys :: "(u8 list \<times> cvalue) list \<Rightarrow> ksettings \<Rightarrow> ksettings exec" where
  "init_keys [] s = Inr s"
| "init_keys (kv # kvs) s = bindE (init_key (fst kv) (snd kv) s) (init_keys kvs)"

text \<open>A configuration that cannot be read leaves the settings alone.\<close>

definition kernel_settings :: "(u32 \<Rightarrow> bool) \<Rightarrow> ('w, 'x) fsys \<Rightarrow> u8 list \<Rightarrow> ksettings exec" where
  "kernel_settings al fs fp =
     bindE (fromFile al fs (conf_new al []) fp) (\<lambda>(k, _).
     bindE (if cf_isErr k then Inr k else parseSrc al k) (\<lambda>k1.
     bindE (kvec_elems (unat (kv_len (cf_mapping k1))) 0 (cf_mapping k1)) (\<lambda>kvs. init_keys kvs ks_new)))"

lemma fromFile_eq:
  assumes "fs_open al s fp = Inr (fd, s1)" and "fd \<noteq> 0" and "fs_fileSize s1 fd = Inr (word_of_nat (length c))"
    and "fs_read s1 fd (word_of_nat (length c)) = Inr (r, c, s2)" and "length c + 1 < 2 ^ 32"
  shows "fromFile al s (conf_new al []) fp = Inr (conf_new al (c @ [0]), s2)"
proof -
  have n: "unat (word_of_nat (length c) + 1 :: u32) = Suc (length c)"
    using unat_plus_nat [of "word_of_nat (length c) :: u32" 1] assms(5) by simp
  have "drop m (replicate (Suc m) (0 :: u8)) = [0]" for m
    unfolding drop_replicate by simp
  then have "memcpy_loop (replicate (unat (word_of_nat (length c) + 1 :: u32)) 0) c (length c) = Inr (c @ [0])"
    unfolding n by (simp add: memcpy_loop_eq del: replicate_Suc)
  then show ?thesis
    using assms(1-4) by (simp add: fromFile_def conf_new_def)
qed

text \<open>A well-formed configuration file that the driver of its path opens and reads gives the kernel
  exactly the settings of its entries, applied in order.\<close>

theorem kernel_settings_from_file:
  assumes tab: "fd_table al s M" "card (dom M) < 2 ^ 26" "latestFd s \<noteq> - 1" and mps: "mounts_ok (mountpoints s)"
    and fp: "path_ok fp" "hd fp = 47" "chosen fp (mountpoints s) (mp, d)"
    and f: "drv_open d (devices s) fp = Inr (f, w)" "f_exists f" "f_size f = word_of_nat (length (conf_text its))"
      "drv_read d w f (f_size f) = Inr (r, conf_text its, w')"
    and its: "list_all citem_ok its" "length (conf_text its) < 2 ^ 31" "length its \<le> 2 ^ 26"
  shows "kernel_settings al s fp = init_keys (conf_entries [] its) ks_new"
proof -
  have al: "\<forall>n. al n"
    using tab(1) by (auto simp: fd_table_def kmap_is_def kernel_array_def)
  have fd: "latestFd s \<noteq> 0"
    using tab(1) by (simp add: fd_table_def)
  obtain s1 where s1: "fs_open al s fp = Inr (latestFd s, s1)" "devices s1 = w" "fd_table al s1 (M(latestFd s \<mapsto> (f, d)))"
    using fs_open_eq [OF tab mps fp(1,2,3), unfolded snd_conv, OF f(1)] f(2) by auto
  note look = s1(3) fun_upd_same fd
  have "fromFile al s (conf_new al []) fp = Inr (conf_new al (conf_text its @ [0]), s1\<lparr>devices := w'\<rparr>)"
    using fromFile_eq [OF s1(1) fd] fs_fileSize_eq [OF look] fs_read_eq [OF look, of "f_size f"] f(3,4) s1(2) its(2) by simp
  moreover obtain k sec where "parseSrc al (conf_new al (conf_text its @ [0])) = Inr k"
      "conf_holds al k sec (conf_sections its) (conf_entries [] its)"
    using parseSrc_eq [OF al its] by blast
  moreover from this have "kvec_elems (unat (kv_len (cf_mapping k))) 0 (cf_mapping k) = Inr (conf_entries [] its)"
    by (auto simp: conf_holds_def intro: kvec_all_elems)
  moreover have "\<not> cf_isErr (conf_new al (conf_text its @ [0]))"
    by (simp add: conf_new_def)
  ultimately show ?thesis
    by (simp add: kernel_settings_def)
qed

definition init_driver :: "(fat32, fatdata option) fsdriver" where
  "init_driver = demo_driver\<lparr>drv_open := (\<lambda>w fp. Inr (\<lparr>f_fsData = None, f_size = word_of_nat (length init_cfg), f_exists = True\<rparr>, w)),
     drv_read := (\<lambda>w f n. Inr (Sucess, init_cfg, w))\<rparr>"

theorem kernel_settings_from_file_witness:
  "kernel_settings (\<lambda>_. True) (demo_fs [(bytes ''/'' @ [0], init_driver)]) (bytes ''/krn/init.cfg'' @ [0]) =
     Inr \<lparr>ks_term = True, ks_osname = bytes ''RivOS'' @ [0], ks_bitness = 32\<rparr>"
proof -
  let ?ms = "[(bytes ''/'' @ [0], init_driver)]" and ?fp = "bytes ''/krn/init.cfg'' @ [0]"
  have len: "length (conf_text init_items) < 2 ^ 31" "length init_items \<le> 2 ^ 26"
    by (simp add: init_items_text init_cfg_def) (simp add: init_items_def)
  have ok: "mounts_ok ?ms" "path_ok ?fp" "hd ?fp = 47"
    by (simp_all add: mounts_ok_def mount_ok_def path_ok_def nestage_def)
  have ch: "chosen ?fp ?ms (bytes ''/'' @ [0], init_driver)"
    by (rule chosen_hd) (simp_all add: candidates_for_def mp_matches_def)
  have fs: "mountpoints (demo_fs ?ms) = ?ms" "latestFd (demo_fs ?ms) \<noteq> - 1" "devices (demo_fs ?ms) = demo_vol"
    by (simp_all add: demo_fs_def)
  have "sv_toCStr (sv (bytes ''RivOS'' @ [0]) 5) = Inr (bytes ''RivOS'' @ [0])"
    by code_simp
  then have keys: "init_keys (conf_entries [] init_items) ks_new =
      Inr \<lparr>ks_term = True, ks_osname = bytes ''RivOS'' @ [0], ks_bitness = 32\<rparr>"
    by (simp add: init_items_entries init_key_def ks_new_def)
  let ?f = "\<lparr>f_fsData = None, f_size = word_of_nat (length init_cfg), f_exists = True\<rparr>"
  have drv: "drv_open init_driver demo_vol ?fp = Inr (?f, demo_vol)" "drv_read init_driver demo_vol ?f (f_size ?f) = Inr (Sucess, init_cfg, demo_vol)"
    by (simp_all add: init_driver_def)
  show ?thesis
    unfolding keys [symmetric]
    by (rule kernel_settings_from_file [OF demo_fs_table, where d = init_driver and mp = "bytes ''/'' @ [0]" and f = ?f
          and w = demo_vol and r = Sucess and w' = demo_vol])
      (simp_all only: fs(1,3) init_items_text drv ok ch init_items_ok len [unfolded init_items_text], simp_all add: demo_fs_def)
qed

end
