(* ===== verification/KernRap.thy ===== *)
theory KernRap
  imports Rap KernConfig
begin

text \<open>
  The parser of function tables the kernel has itself, \<^verbatim>\<open>RapFile\<close> of \<^verbatim>\<open>src/rap/rap.hpp\<close>, with which it
  reads the \<^verbatim>\<open>fn.rap\<close> of a driver. The string views of the entries are their bytes: they point into a
  copy of the text that is never freed. \<^verbatim>\<open>dump\<close>, which prints the table, is left out, and so is
  \<^verbatim>\<open>getRapEntry\<close>, which nothing calls: its \<^verbatim>\<open>!=\<close> compares texts or addresses, depending on the
  version of the language the compiler defaults to.
\<close>

section \<open>The table and its parser\<close>

record krentry =
  ke_args :: "rparam option list"
  ke_addr :: u32

type_synonym krmap = "(u8 list, krentry) kmap"

text \<open>The sizes of a parameter and of an entry of the map.\<close>

definition SIZEOF_RAPPARAM :: u32 where "SIZEOF_RAPPARAM = 16"
definition SIZEOF_RAPENTRY :: u32 where "SIZEOF_RAPENTRY = 16"

text \<open>The loop over the parameters looks for blanks and the bracket only.\<close>

function krap_params :: "(u32 \<Rightarrow> bool) \<Rightarrow> u8 list \<Rightarrow> rparam kvec \<Rightarrow> (rparam kvec \<times> u8 list) exec" where
  "krap_params al s v =
     (case s of
        [] \<Rightarrow> Inl OutOfBounds
      | c # r \<Rightarrow>
          if c = 41 then Inr (v, s)
          else bindE (count_while (\<lambda>c. c \<noteq> 32) s) (\<lambda>n.
            let s1 = drop (Suc n) s in
            bindE (count_while (\<lambda>c. c \<noteq> 32) s1) (\<lambda>m.
            bindE (kvec_pushBack al SIZEOF_RAPPARAM v \<lparr>rp_type = take n s, rp_name = take m s1\<rparr>) (\<lambda>v'.
            krap_params al (drop (Suc m) s1) v'))))"
  by pat_completeness auto
termination
  by (relation "measure (\<lambda>(al, s, v). length s)") auto

declare krap_params.simps [simp del]

definition krap_entry :: "(u32 \<Rightarrow> bool) \<Rightarrow> u8 list \<Rightarrow> krmap \<Rightarrow> (krmap \<times> u8 list) exec" where
  "krap_entry al s m =
     bindE (strlenSpecChar s 40) (\<lambda>namelen.
     bindE (krap_params al (drop (Suc (unat namelen)) s) (kvec_new al SIZEOF_RAPPARAM)) (\<lambda>(paraml, s1).
     bindE (strlenSpecChar s1 41) (\<lambda>n.
     let s2 = drop (unat n + 2) s1 in
     bindE (strlenSpecChar s2 10) (\<lambda>distanceUntilNewline.
     bindE (stoi (take (unat distanceUntilNewline) s2 @ [0])) (\<lambda>addr.
     bindE (sv_toCStr (sv s namelen)) (\<lambda>name.
     bindE (kvec_copyPermanent al SIZEOF_RAPPARAM paraml) (\<lambda>args.
     bindE (kmap_insert al SIZEOF_RAPENTRY m (cstr name) \<lparr>ke_args = args, ke_addr = addr\<rparr>) (\<lambda>m'.
     Inr (m', drop (Suc (unat distanceUntilNewline)) s2)))))))))"

text \<open>At least one entry is parsed; the number says how many more there are newlines for.\<close>

fun krap_entries :: "(u32 \<Rightarrow> bool) \<Rightarrow> nat \<Rightarrow> u8 list \<Rightarrow> krmap \<Rightarrow> krmap exec" where
  "krap_entries al 0 s m = bindE (krap_entry al s m) (\<lambda>(m', _). Inr m')"
| "krap_entries al (Suc k) s m =
     bindE (krap_entry al s m) (\<lambda>(m', s').
     bindE (rd8 s' 0) (\<lambda>c. if c = 0 then Inr m' else krap_entries al k s' m'))"

definition parseFile :: "(u32 \<Rightarrow> bool) \<Rightarrow> sview \<Rightarrow> krmap exec" where
  "parseFile al src =
     bindE (sv_toCStr src) (\<lambda>cStr.
     bindE (countOccurence cStr 10) (\<lambda>rapEntriesCount.
     krap_entries al (unat rapEntriesCount - 1) cStr (kvec_new al SIZEOF_RAPENTRY)))"

section \<open>Parsing a printed table\<close>

definition krentry_of :: "rfunc \<Rightarrow> u8 list \<times> krentry" where
  "krentry_of f = (rf_name f, \<lparr>ke_args = List.map Some (rf_params f), ke_addr = rf_raw f\<rparr>)"

text \<open>A function the parser understands: it has parameters.\<close>

definition krfunc_ok :: "rfunc \<Rightarrow> bool" where
  "krfunc_ok f \<longleftrightarrow> func_ok f \<and> rf_params f \<noteq> []"

lemma kvec_copyPermanent_eq:
  assumes "kernel_array al ts v xs" and "ts \<noteq> 0" and "length xs \<le> 2 ^ 26"
  shows "kvec_copyPermanent al ts v = Inr (List.map Some xs)"
proof -
  obtain a where a: "kv_arr v = Some a" "take (length xs) a = List.map Some xs" "unat (kv_len v) = length xs" "length xs \<le> length a"
    using assms(1) by (auto simp: kernel_array_def kvec_is_def)
  have "length xs * unat ts \<le> 2 ^ 26 * 24"
    using assms(1,3) by (intro mult_le_mono) (simp_all add: kernel_array_def)
  then have "slots (kv_len v) ts = length xs"
    using slots_eq [OF assms(2), of "kv_len v"] a(3) by simp
  then show ?thesis
    using a assms(1) by (simp add: kvec_copyPermanent_def kv_block_def copy_slots_def kernel_array_def)
qed

lemma krap_params_text:
  "list_all param_ok ps \<Longrightarrow> kernel_array al SIZEOF_RAPPARAM v qs \<Longrightarrow> length qs + length ps \<le> 2 ^ 26 \<Longrightarrow>
   \<exists>v'. krap_params al (params_text ps @ 41 # r) v = Inr (v', 41 # r) \<and> kernel_array al SIZEOF_RAPPARAM v' (qs @ ps)"
proof (induction ps arbitrary: v qs)
  case Nil
  then show ?case
    by (simp add: params_text_def krap_params.simps)
next
  case (Cons p ps)
  let ?s1 = "rp_name p @ 32 # params_text ps @ 41 # r"
  let ?s = "rp_type p @ 32 # ?s1"
  have s: "params_text (p # ps) @ 41 # r = ?s"
    by (simp add: params_text_Cons)
  obtain c x where c: "rp_type p = c # x" "c \<noteq> 41"
    using Cons.prems(1) by (cases "rp_type p") (auto simp: param_ok_def)
  have all: "list_all (\<lambda>c. c \<noteq> 32) (rp_type p)" "list_all (\<lambda>c. c \<noteq> 32) (rp_name p)"
    using Cons.prems(1) by (auto simp: param_ok_def list_all_iff)
  have n: "count_while (\<lambda>c. c \<noteq> 32) ?s = Inr (length (rp_type p))" "count_while (\<lambda>c. c \<noteq> 32) ?s1 = Inr (length (rp_name p))"
    using all by (simp_all add: count_while_eq)
  have p: "\<lparr>rp_type = c # x, rp_name = rp_name p\<rparr> = p"
    by (simp add: c(1) [symmetric])
  obtain v1 where v1: "kvec_pushBack al SIZEOF_RAPPARAM v p = Inr v1" "kernel_array al SIZEOF_RAPPARAM v1 (qs @ [p])"
    using kv.push_law [OF Cons.prems(2), of p] Cons.prems(3) by auto
  have "krap_params al ?s v = krap_params al (params_text ps @ 41 # r) v1"
    using n v1(1) c by (subst krap_params.simps) (simp add: p)
  then show ?case
    using Cons.IH [OF _ v1(2)] Cons.prems(1,3) unfolding s by simp
qed

lemma takeWhile_found: "t \<notin> set a \<Longrightarrow> takeWhile (\<lambda>c. c \<noteq> t) (a @ t # b) = a"
  by (induction a) auto

lemma strlenSpecChar_found:
  assumes "t \<notin> set a" and "0 \<notin> set a" and "t \<noteq> 0" and "terminated s"
  shows "strlenSpecChar (a @ t # s) t = Inr (word_of_nat (length a))"
proof -
  have "cstr (a @ t # s) = a @ t # cstr s"
    using assms(2,3) by (induction a) auto
  then show ?thesis
    using assms strlenSpecChar_eq [of "a @ t # s" t] takeWhile_found [of t a "cstr s"] by simp
qed

lemma krap_entry_text:
  assumes ok: "krfunc_ok f" and len: "length (func_text f) < 2 ^ 26" and r: "terminated r"
    and m: "kernel_array al SIZEOF_RAPENTRY m es" "length es < 2 ^ 26"
  shows "\<exists>m'. krap_entry al (func_text f @ 10 # r) m = Inr (m', r) \<and> kernel_array al SIZEOF_RAPENTRY m' (es @ [krentry_of f])"
proof -
  let ?num = "radix 10 (unat (rf_raw f))" and ?n = "rf_name f"
  let ?s3 = "?num @ 10 # r" and ?ps = "params_text (rf_params f)"
  have s: "func_text f @ 10 # r = ?n @ 40 # ?ps @ 41 # 61 # ?s3"
    using ok by (simp add: func_text_def krfunc_ok_def)
  have f: "func_ok f" "40 \<notin> set ?n" "0 \<notin> set ?n" "list_all param_ok (rf_params f)" "length (rf_params f) \<le> 16"
    using ok by (auto simp: krfunc_ok_def func_ok_def list_all_iff)
  have nl: "length ?n < 2 ^ 26" "length ?num < 2 ^ 26"
    using len by (simp_all add: func_text_def)
  have t: "terminated ?s3" "terminated (?ps @ 41 # 61 # ?s3)"
    using r by simp_all
  have name: "strlenSpecChar (?n @ 40 # ?ps @ 41 # 61 # ?s3) 40 = Inr (word_of_nat (length ?n))"
    using f(2,3) t(2) by (intro strlenSpecChar_found) simp_all
  have num: "10 \<notin> set ?num" "0 \<notin> set ?num"
    using radix10_digit [of _ "unat (rf_raw f)"] by fastforce+
  have al: "\<forall>n. al n"
    using m(1) by (simp add: kernel_array_def)
  have "kernel_array al SIZEOF_RAPPARAM (kvec_new al SIZEOF_RAPPARAM) []"
    using al by (intro kernel_array_new) (simp_all add: SIZEOF_RAPPARAM_def)
  then obtain v where v: "krap_params al (?ps @ 41 # 61 # ?s3) (kvec_new al SIZEOF_RAPPARAM) = Inr (v, 41 # 61 # ?s3)"
      "kernel_array al SIZEOF_RAPPARAM v (rf_params f)"
    using krap_params_text [OF f(4), of al _ "[]" "61 # ?s3"] f(5) by auto
  have "strlenSpecChar (41 # 61 # ?s3) 41 = Inr 0"
    using strlenSpecChar_found [of 41 "[]" "61 # ?s3"] t by simp
  moreover have "strlenSpecChar ?s3 10 = Inr (word_of_nat (length ?num))"
    using num r by (intro strlenSpecChar_found) simp_all
  moreover have "kvec_copyPermanent al SIZEOF_RAPPARAM v = Inr (List.map Some (rf_params f))"
    using f(5) by (intro kvec_copyPermanent_eq [OF v(2)]) (simp_all add: SIZEOF_RAPPARAM_def)
  moreover have "sv_toCStr (sv (?n @ 40 # ?ps @ 41 # 61 # ?s3) (word_of_nat (length ?n))) = Inr (?n @ [0])"
    using nl(1) by (intro sv_toCStr_prefix) simp
  moreover have "cstr (?n @ [0]) = ?n"
    using cstr_append_nul [OF f(3), of "[]"] by simp
  moreover obtain m' where "kmap_insert al SIZEOF_RAPENTRY m ?n \<lparr>ke_args = List.map Some (rf_params f), ke_addr = rf_raw f\<rparr> = Inr m'"
      "kernel_array al SIZEOF_RAPENTRY m' (es @ [krentry_of f])"
    using kv.push_law [OF m, of "krentry_of f"] by (auto simp: kmap_insert_def krentry_of_def)
  moreover have "unat (word_of_nat (length ?n) :: u32) = length ?n" "unat (word_of_nat (length ?num) :: u32) = length ?num"
    using nl by simp_all
  ultimately show ?thesis
    unfolding s by (simp add: krap_entry_def name v(1) stoi_radix numeral_2_eq_2)
qed

lemma krap_entries_table:
  "list_all krfunc_ok fs \<Longrightarrow> fs \<noteq> [] \<Longrightarrow> length (table_text fs) < 2 ^ 26 \<Longrightarrow> kernel_array al SIZEOF_RAPENTRY m es \<Longrightarrow>
   length es + length fs \<le> 2 ^ 26 \<Longrightarrow>
   \<exists>m'. krap_entries al (length fs - 1) (table_text fs @ 0 # r) m = Inr m' \<and>
     kernel_array al SIZEOF_RAPENTRY m' (es @ List.map krentry_of fs)"
proof (induction fs arbitrary: m es)
  case (Cons f fs)
  have s: "table_text (f # fs) @ 0 # r = func_text f @ 10 # table_text fs @ 0 # r"
    by (simp add: table_text_Cons)
  obtain m1 where m1: "krap_entry al (func_text f @ 10 # table_text fs @ 0 # r) m = Inr (m1, table_text fs @ 0 # r)"
      "kernel_array al SIZEOF_RAPENTRY m1 (es @ [krentry_of f])"
    using krap_entry_text [of f "table_text fs @ 0 # r" al m es] Cons.prems by (auto simp: table_text_Cons)
  show ?case
  proof (cases fs)
    case Nil
    then show ?thesis
      using m1 s unfolding Nil by simp
  next
    case (Cons g gs)
    have "func_ok g"
      using Cons.prems(1) Cons by (simp add: krfunc_ok_def)
    then have "0 \<notin> set (func_text g)" "func_text g \<noteq> []"
      using func_text_plain [of g 0] by (simp_all add: func_text_def)
    then obtain c x where "table_text fs @ 0 # r = c # x" "c \<noteq> 0"
      using Cons by (cases "func_text g") (auto simp: table_text_Cons)
    then have c: "rd8 (table_text fs @ 0 # r) 0 = Inr c" "c \<noteq> 0"
      by (simp_all add: rd8_def)
    have "length fs = Suc (length gs)"
      by (simp add: Cons)
    then show ?thesis
      using Cons.IH [OF _ _ _ m1(2)] Cons.prems m1(1) c Cons by (auto simp: s table_text_Cons)
  qed
qed simp

lemma krap_reads_eq:
  assumes "\<forall>n. al n" and "list_all krfunc_ok fs" and "fs \<noteq> []" and "length (table_text fs) < 2 ^ 26"
  shows "\<exists>m. parseFile al (sv (table_text fs @ [0]) (word_of_nat (length (table_text fs)))) = Inr m \<and>
    kernel_array al SIZEOF_RAPENTRY m (List.map krentry_of fs)"
proof -
  let ?t = "table_text fs"
  have ok: "list_all func_ok fs"
    using assms(2) by (auto simp: list_all_iff krfunc_ok_def)
  have "sv_toCStr (sv (?t @ [0]) (word_of_nat (length ?t))) = Inr (?t @ [0])"
    using assms(4) by (intro sv_toCStr_prefix) simp
  moreover have n: "length fs \<le> length ?t"
    by (induction fs) (auto simp: table_text_def)
  moreover have "countOccurence (?t @ [0]) 10 = Inr (word_of_nat (length fs))"
    using countOccurence_eq [of "?t @ [0]" 10] cstr_append_nul [OF table_nul [OF ok], of "[]"] table_newlines [OF ok] by simp
  moreover have "unat (word_of_nat (length fs) :: u32) = length fs"
    using n assms(4) by simp
  moreover have "kernel_array al SIZEOF_RAPENTRY (kvec_new al SIZEOF_RAPENTRY) []"
    using assms(1) by (intro kernel_array_new) (simp_all add: SIZEOF_RAPENTRY_def)
  ultimately show ?thesis
    using krap_entries_table [OF assms(2,3,4), of al "kvec_new al SIZEOF_RAPENTRY" "[]" "[]"] n assms(4)
    by (simp add: parseFile_def)
qed

section \<open>What the parser promises\<close>

text \<open>The kernel reads a table printed in the format of its own \<^verbatim>\<open>/krn/virt/func.rap\<close> back, entry for
  entry, as long as every function has a parameter.\<close>

theorem krap_reads_table:
  assumes "\<forall>n. al n" and "list_all krfunc_ok fs" and "fs \<noteq> []" and "length (table_text fs) < 2 ^ 26"
  shows "\<exists>m. parseFile al (sv (table_text fs @ [0]) (word_of_nat (length (table_text fs)))) = Inr m \<and>
    kernel_array al SIZEOF_RAPENTRY m (List.map krentry_of fs)"
  by (rule krap_reads_eq [OF assms])

text \<open>A function without parameters is printed with a blank between the brackets, which the kernel takes
  for the end of an empty type: it then reads past the end of the text in search of the end of the name.\<close>

theorem krap_overreads_no_parameters:
  assumes "func_ok f" and "rf_params f = []" and "length (func_text f) < 2 ^ 26"
  shows "parseFile al (sv (func_text f @ [10, 0]) (word_of_nat (length (func_text f) + 1))) = Inl OutOfBounds"
proof -
  let ?n = "rf_name f" and ?num = "radix 10 (unat (rf_raw f))"
  let ?s = "?n @ 40 # 32 # 41 # 61 # ?num @ [10, 0]"
  have s: "func_text f @ [10, 0] = ?s"
    using assms(2) by (simp add: func_text_def params_text_def)
  have f: "40 \<notin> set ?n" "0 \<notin> set ?n"
    using assms(1) by (auto simp: func_ok_def list_all_iff)
  have "0 \<notin> set (func_text f @ [10])"
    using func_text_plain [OF assms(1), of 0] by simp
  then have c: "cstr ((func_text f @ [10]) @ [0]) = func_text f @ [10]"
    by (rule cstr_append_nul)
  have nl: "length ?n < 2 ^ 26"
    using assms(3) by (simp add: func_text_def)
  have "sv_toCStr (sv ((func_text f @ [10]) @ [0]) (word_of_nat (length (func_text f @ [10])))) = Inr ((func_text f @ [10]) @ [0])"
    using assms(3) by (intro sv_toCStr_prefix) simp
  then have src: "sv_toCStr (sv (func_text f @ [10, 0]) (word_of_nat (length (func_text f) + 1))) = Inr ?s"
    using s by simp
  have "count_list (func_text f @ [10]) 10 = 1"
    using func_text_plain [OF assms(1), of 10] by (simp add: count_list_0_iff)
  then have cnt: "countOccurence ?s 10 = Inr 1"
    using countOccurence_eq [of "(func_text f @ [10]) @ [0]" 10] s c by simp
  have name: "strlenSpecChar ?s 40 = Inr (word_of_nat (length ?n))"
    using f by (intro strlenSpecChar_found) simp_all
  have "list_all (\<lambda>c. c \<noteq> 32) (41 # 61 # ?num @ [10, 0])"
    using radix10_digit [of _ "unat (rf_raw f)"] by (fastforce simp: list_all_iff)
  moreover have "list_all P t \<Longrightarrow> count_while P t = Inl OutOfBounds" for P t
    by (induction t) auto
  ultimately have "count_while (\<lambda>c. c \<noteq> 32) (41 # 61 # ?num @ [10, 0]) = Inl OutOfBounds"
    by blast
  then have "krap_params al (32 # 41 # 61 # ?num @ [10, 0]) v = Inl OutOfBounds" for v
    by (subst krap_params.simps) simp
  then have "krap_entry al ?s m = Inl OutOfBounds" for m
    using nl by (simp add: krap_entry_def name)
  then show ?thesis
    unfolding parseFile_def src by (simp add: cnt)
qed

definition demo_fn :: rfunc where
  "demo_fn = \<lparr>rf_raw = 4096, rf_name = bytes ''open'', rf_params = [\<lparr>rp_type = bytes ''str'', rp_name = bytes ''fp''\<rparr>]\<rparr>"

theorem krap_reads_table_witness:
  "\<exists>m. parseFile (\<lambda>_. True) (sv (bytes ''open(str fp )=4096'' @ [10, 0]) 19) = Inr m \<and>
     kernel_array (\<lambda>_. True) SIZEOF_RAPENTRY m
       [(bytes ''open'', \<lparr>ke_args = [Some \<lparr>rp_type = bytes ''str'', rp_name = bytes ''fp''\<rparr>], ke_addr = 4096\<rparr>)]"
proof -
  have t: "table_text [demo_fn] = bytes ''open(str fp )=4096'' @ [10]"
    by (simp add: demo_fn_def table_text_def func_text_def params_text_def radix.simps digit_char_def)
  have "list_all krfunc_ok [demo_fn]" "length (table_text [demo_fn]) < 2 ^ 26"
    unfolding t by (simp_all add: krfunc_ok_def demo_fn_def func_ok_def param_ok_def)
  then show ?thesis
    using krap_reads_table [of "\<lambda>_. True" "[demo_fn]"] unfolding t by (simp add: krentry_of_def demo_fn_def)
qed

theorem krap_overreads_no_parameters_witness:
  "parseFile (\<lambda>_. True) (sv (bytes ''getpid( )=10'' @ [10, 0]) 13) = Inl OutOfBounds"
proof -
  let ?f = "\<lparr>rf_raw = 10, rf_name = bytes ''getpid'', rf_params = []\<rparr>"
  have t: "func_text ?f = bytes ''getpid( )=10''"
    by (simp add: func_text_def params_text_def radix.simps digit_char_def)
  have "func_ok ?f" "length (func_text ?f) < 2 ^ 26"
    unfolding t by (simp_all add: func_ok_def)
  then show ?thesis
    using krap_overreads_no_parameters [of ?f "\<lambda>_. True"] unfolding t by simp
qed

end
