(* ===== verification/KernVfs.thy ===== *)
theory KernVfs
  imports KernConfig Str
begin

text \<open>
  The table of drives of the virtual file system, \<^verbatim>\<open>VFS::initFromSrc\<close> of \<^verbatim>\<open>src/vfs/vfs.hpp\<close>, filled
  from the sections \<^verbatim>\<open>[drives.*]\<close> of \<^verbatim>\<open>/etc/fs.cfg\<close>. \<open>al\<close> is the allocator of the vectors and \<open>sal\<close>
  that of the strings.
\<close>

record drive_entry =
  dr_id :: u8
  dr_fsName :: "u8 list"

text \<open>The value of the key \<open>section.field\<close>; a key that is not there stops the kernel.\<close>

definition vfs_field :: "(nat \<Rightarrow> u8 list) \<Rightarrow> kconf \<Rightarrow> u8 list \<Rightarrow> string \<Rightarrow> cvalue exec" where
  "vfs_field sal k driveSectionCStr field =
     bindE (str_from sal driveSectionCStr) (\<lambda>name.
     bindE (str_add sal name (bytes field @ [0])) (\<lambda>name'. kmap_get (cf_mapping k) (cstr (s_buf name'))))"

text \<open>The identifier is cut to a byte, and the name is copied to the heap.\<close>

definition vfs_drive :: "(nat \<Rightarrow> u8 list) \<Rightarrow> kconf \<Rightarrow> sview \<Rightarrow> drive_entry exec" where
  "vfs_drive sal k driveSection =
     bindE (sv_toCStr driveSection) (\<lambda>driveSectionCStr.
     bindE (vfs_field sal k driveSectionCStr ''.drive'') (\<lambda>driveVal.
     bindE (vfs_field sal k driveSectionCStr ''.fs'') (\<lambda>fsVal.
     case driveVal of CInt driveId \<Rightarrow>
       (case fsVal of CString fsName \<Rightarrow>
          bindE (sv_toCStr fsName) (\<lambda>s. Inr \<lparr>dr_id = ucast driveId, dr_fsName = s\<rparr>)
        | _ \<Rightarrow> Inl (Panic ''Invalid field (drives.*.fs)''))
     | _ \<Rightarrow> Inl (Panic ''Invalid field (drives.*.drive)''))))"

definition SIZEOF_DRIVEENTRY :: u32 where "SIZEOF_DRIVEENTRY = 8"

fun vfs_drives :: "(u32 \<Rightarrow> bool) \<Rightarrow> (nat \<Rightarrow> u8 list) \<Rightarrow> kconf \<Rightarrow> sview list \<Rightarrow> drive_entry kvec \<Rightarrow> drive_entry kvec exec" where
  "vfs_drives al sal k [] driveEntries = Inr driveEntries"
| "vfs_drives al sal k (s # ss) driveEntries =
     bindE (vfs_drive sal k s) (\<lambda>d.
     bindE (kvec_pushBack al SIZEOF_DRIVEENTRY driveEntries d) (vfs_drives al sal k ss))"

definition initFromSrc :: "(u32 \<Rightarrow> bool) \<Rightarrow> (nat \<Rightarrow> u8 list) \<Rightarrow> drive_entry kvec \<Rightarrow> u8 list \<Rightarrow> drive_entry kvec exec" where
  "initFromSrc al sal driveEntries srcFsconf =
     bindE (parseSrc al (conf_new al srcFsconf)) (\<lambda>k.
     if cf_isErr k then Inl (Panic ''Invalid filesystem config'')
     else bindE (sv_of_cstr (bytes ''drives.'' @ [0])) (\<lambda>m.
       bindE (getAllSubsections al k m) (\<lambda>v.
       bindE (kvec_elems (unat (kv_len v)) 0 v) (\<lambda>allDriveConfigs.
       vfs_drives al sal k allDriveConfigs driveEntries))))"

definition vfs_open :: "u8 list \<Rightarrow> u32" where
  "vfs_open fp = - 1"

definition errFromFd :: "u32 \<Rightarrow> string" where
  "errFromFd fd = (if 0 \<le> sint fd then ''NoError'' else if sint fd = - 1 then ''FileNotFound'' else ''ErrorUnknown'')"

section \<open>The drives a configuration describes\<close>

text \<open>
  The specification: the entries of the sections in order, over the configuration as a function from
  keys to values.
\<close>

definition drive_of :: "(u8 list \<rightharpoonup> cvalue) \<Rightarrow> u8 list \<Rightarrow> drive_entry exec" where
  "drive_of M s =
     (case (M (cstr s @ bytes ''.drive''), M (cstr s @ bytes ''.fs'')) of
        (Some (CInt i), Some (CString t)) \<Rightarrow> Inr \<lparr>dr_id = ucast i, dr_fsName = sv_bytes t @ [0]\<rparr>
      | (Some d, Some f) \<Rightarrow>
          Inl (Panic (if \<exists>i. d = CInt i then ''Invalid field (drives.*.fs)'' else ''Invalid field (drives.*.drive)''))
      | _ \<Rightarrow> Inl (Panic ''Called val() on an err value''))"

fun drives_of :: "(u8 list \<rightharpoonup> cvalue) \<Rightarrow> u8 list list \<Rightarrow> drive_entry list exec" where
  "drives_of M [] = Inr []"
| "drives_of M (s # ss) = bindE (drive_of M s) (\<lambda>d. bindE (drives_of M ss) (\<lambda>ds. Inr (d # ds)))"

definition is_drive_section :: "u8 list \<Rightarrow> bool" where
  "is_drive_section s \<longleftrightarrow> take 7 s = bytes ''drives.''"

text \<open>The strings of a configuration are views of copies that are a byte longer.\<close>

lemma conf_entries_strings:
  "(key, CString v) \<in> set (conf_entries sec its) \<Longrightarrow> length (conf_text its) < 2 ^ 31 \<Longrightarrow> sv_valid v"
proof (induction sec its rule: conf_entries.induct)
  case (3 sec n w1 w2 d its)
  then have "length (dval_text d) + length (conf_text its) < 2 ^ 31"
    by (simp add: conf_text_def)
  then show ?case
    using 3 by (cases d) (auto simp: sv_valid_def)
qed (auto simp: conf_text_def)

lemma vfs_field_eq:
  assumes "sane_alloc sal" and "kvec_is ts (cf_mapping k) ps" and "terminated s"
    and "length (cstr s) + length field < STR_MAX" and "0 \<notin> set (bytes field)"
  shows "vfs_field sal k s field = (case map_of ps (cstr s @ bytes field) of
     None \<Rightarrow> Inl (Panic ''Called val() on an err value'') | Some v \<Rightarrow> Inr v)"
proof -
  obtain st where st: "str_from sal s = Inr st" "str_inv st" "content st = cstr s"
    using str_from_spec [OF assms(1,3)] assms(4) by auto
  have c: "cstr (bytes field @ [0]) = bytes field"
    using cstr_append_nul [OF assms(5), of "[]"] by simp
  obtain st' where "str_add sal st (bytes field @ [0]) = Inr st'" "content st' = cstr s @ bytes field"
    using str_add_spec [OF assms(1) st(2), of "bytes field @ [0]"] assms(4) st(3) c by auto
  then show ?thesis
    using st(1) kmap_get_eq [OF assms(2)] by (simp add: vfs_field_def content_def)
qed

lemma vfs_drive_eq:
  assumes "sane_alloc sal" and "kvec_is ts (cf_mapping k) ps" and "sv_valid s" and "length (sv_bytes s) < 2 ^ 29"
    and "\<And>key v. (key, CString v) \<in> set ps \<Longrightarrow> sv_valid v"
  shows "vfs_drive sal k s = drive_of (map_of ps) (sv_bytes s)"
proof -
  have t: "sv_toCStr s = Inr (sv_bytes s @ [0])"
    by (rule sv_toCStr_spec [OF assms(3)])
  have f: "vfs_field sal k (sv_bytes s @ [0]) field = (case map_of ps (cstr (sv_bytes s) @ bytes field) of
     None \<Rightarrow> Inl (Panic ''Called val() on an err value'') | Some v \<Rightarrow> Inr v)"
    if "length field \<le> 6" "0 \<notin> set (bytes field)" for field
    using vfs_field_eq [OF assms(1,2), of "sv_bytes s @ [0]" field] assms(4) that cstr_length_le [of "sv_bytes s"]
    by (simp add: cstr_snoc)
  have v: "sv_toCStr u = Inr (sv_bytes u @ [0])" if "map_of ps key = Some (CString u)" for key u
    using assms(5) map_of_SomeD [OF that] sv_toCStr_spec by blast
  show ?thesis
    using f [of "''.drive''"] f [of "''.fs''"] v
    by (auto simp: vfs_drive_def t drive_of_def split: option.split cvalue.split)
qed

lemma vfs_drives_eq:
  assumes "sane_alloc sal" and "kvec_is ts (cf_mapping k) ps" and "\<And>key v. (key, CString v) \<in> set ps \<Longrightarrow> sv_valid v"
  shows "list_all (\<lambda>s. sv_valid s \<and> length (sv_bytes s) < 2 ^ 29) ss \<Longrightarrow>
    kernel_array al SIZEOF_DRIVEENTRY v ds \<Longrightarrow> length ds + length ss \<le> 2 ^ 26 \<Longrightarrow>
    (case drives_of (map_of ps) (List.map sv_bytes ss) of
       Inl e \<Rightarrow> vfs_drives al sal k ss v = Inl e
     | Inr ds' \<Rightarrow> \<exists>v'. vfs_drives al sal k ss v = Inr v' \<and> kernel_array al SIZEOF_DRIVEENTRY v' (ds @ ds'))"
proof (induction ss arbitrary: v ds)
  case (Cons s ss)
  note eq = vfs_drive_eq [OF assms(1,2) _ _ assms(3), of s]
  show ?case
  proof (cases "drive_of (map_of ps) (sv_bytes s)")
    case (Inr d)
    obtain v1 where "kvec_pushBack al SIZEOF_DRIVEENTRY v d = Inr v1" "kernel_array al SIZEOF_DRIVEENTRY v1 (ds @ [d])"
      using kv.push_law [OF Cons.prems(2), of d] Cons.prems(3) by auto
    then show ?thesis
      using Cons.IH [of v1 "ds @ [d]"] Cons.prems(1,3) eq Inr by (auto split: sum.split sum.split_asm)
  qed (use eq Cons.prems(1) in simp)
qed simp

lemma conf_sections_length: "s \<in> set (conf_sections its) \<Longrightarrow> length s \<le> length (conf_text its)"
  by (induction its rule: conf_sections.induct) (auto simp: conf_text_def)

lemma length_conf_sections: "length (conf_sections its) \<le> length its"
  by (induction its rule: conf_sections.induct) auto

lemma initFromSrc_eq:
  assumes "\<forall>n. al n" and "sane_alloc sal" and "list_all citem_ok its" and "length (conf_text its) < 2 ^ 29"
    and "kernel_array al SIZEOF_DRIVEENTRY v ds" and "length ds + length its \<le> 2 ^ 26"
  shows "case drives_of (map_of (conf_entries [] its)) (filter is_drive_section (conf_sections its)) of
       Inl e \<Rightarrow> initFromSrc al sal v (conf_text its @ 0 # t) = Inl e
     | Inr ds' \<Rightarrow> \<exists>v'. initFromSrc al sal v (conf_text its @ 0 # t) = Inr v' \<and>
         kernel_array al SIZEOF_DRIVEENTRY v' (ds @ ds')"
proof -
  obtain k sec where k: "parseSrc al (conf_new al (conf_text its @ 0 # t)) = Inr k"
      "conf_holds al k sec (conf_sections its) (conf_entries [] its)"
    using parseSrc_eq [OF assms(1,3)] assms(4,6) by auto
  then obtain ss where ss: "kernel_array al SIZEOF_SV (cf_all k) ss" "list_all sv_valid ss" "List.map sv_bytes ss = conf_sections its"
      and m: "kvec_is SIZEOF_CONFENTRY (cf_mapping k) (conf_entries [] its)" and ok: "\<not> cf_isErr k"
    by (auto simp: conf_holds_def kernel_array_def)
  have len: "length ss \<le> 2 ^ 26"
    using arg_cong [OF ss(3), of length] length_conf_sections [of its] assms(6) by simp
  let ?p = "sv (bytes ''drives.'' @ [0]) 7" and ?P = "\<lambda>s. is_drive_section (sv_bytes s)"
  have pre: "sv_of_cstr (bytes ''drives.'' @ [0]) = Inr ?p" "sv_valid ?p" "sv_bytes ?p = bytes ''drives.''"
    by (simp_all add: sv_of_cstr_def strlen_eq sv_valid_def sv_bytes_def)
  have P: "(\<lambda>s. take (length (sv_bytes ?p)) (sv_bytes s) = sv_bytes ?p) = ?P"
    unfolding pre(3) length_bytes is_drive_section_def by (simp add: numeral_eq_Suc)
  obtain w where w: "getAllSubsections al k ?p = Inr w" "kernel_array al SIZEOF_SV w (filter ?P ss)"
    using getAllSubsections_eq [OF ss(1,2) len pre(2)] unfolding P by blast
  have run: "initFromSrc al sal v (conf_text its @ 0 # t) = vfs_drives al sal k (filter ?P ss) v"
    using k(1) ok pre(1) w(1) kvec_all_elems [OF w(2)] by (simp add: initFromSrc_def)
  have "filter is_drive_section (conf_sections its) = List.map sv_bytes (filter ?P ss)"
    unfolding ss(3) [symmetric] by (simp add: filter_map comp_def)
  moreover have "list_all (\<lambda>s. sv_valid s \<and> length (sv_bytes s) < 2 ^ 29) (filter ?P ss)"
    using ss(2) conf_sections_length [of _ its] assms(4) unfolding ss(3) [symmetric] by (fastforce simp: list_all_iff)
  moreover have "length ds + length (filter ?P ss) \<le> 2 ^ 26"
    using length_filter_le [of ?P ss] arg_cong [OF ss(3), of length] length_conf_sections [of its] assms(6)
    by (simp only: length_map)
  ultimately show ?thesis
    unfolding run using vfs_drives_eq [OF assms(2) m _ _ assms(5)] conf_entries_strings [of _ _ "[]" its] assms(4) by simp
qed

section \<open>What the drive table promises\<close>

text \<open>C33: reading a well-formed \<^verbatim>\<open>/etc/fs.cfg\<close> appends one entry for each section whose name begins with
  \<^verbatim>\<open>drives.\<close>, in their order, with the low byte of its \<^verbatim>\<open>drive\<close> and its \<^verbatim>\<open>fs\<close>; the first section that
  lacks a field or has one of the wrong kind stops the kernel.\<close>

theorem vfs_mounts_configured_drives:
  assumes "\<forall>n. al n" and "sane_alloc sal" and "list_all citem_ok its" and "length (conf_text its) < 2 ^ 29"
    and "kernel_array al SIZEOF_DRIVEENTRY v ds" and "length ds + length its \<le> 2 ^ 26"
  shows "case drives_of (map_of (conf_entries [] its)) (filter is_drive_section (conf_sections its)) of
       Inl e \<Rightarrow> initFromSrc al sal v (conf_text its @ 0 # t) = Inl e
     | Inr ds' \<Rightarrow> \<exists>v'. initFromSrc al sal v (conf_text its @ 0 # t) = Inr v' \<and>
         kernel_array al SIZEOF_DRIVEENTRY v' (ds @ ds')"
  by (rule initFromSrc_eq [OF assms])

definition demo_fs_items :: "citem list" where
  "demo_fs_items = [CSection (bytes ''drives.main''), CEntry (bytes ''drive'') [] [] (DInt 256),
     CEntry (bytes ''fs'') [32] [32] (DString (bytes ''fat32'')), CSection (bytes ''other'')]"

theorem vfs_mounts_configured_drives_witness:
  "\<exists>v. initFromSrc (\<lambda>_. True) zeros (kvec_new (\<lambda>_. True) SIZEOF_DRIVEENTRY) (conf_text demo_fs_items @ [0]) = Inr v \<and>
     kernel_array (\<lambda>_. True) SIZEOF_DRIVEENTRY v [\<lparr>dr_id = 0, dr_fsName = bytes ''fat32'' @ [0]\<rparr>]"
proof -
  have ok: "list_all citem_ok demo_fs_items"
    by (simp add: demo_fs_items_def conf_isIdent_def conf_isWhitespace_def isalpha_def isdigit_def)
  have len: "length (conf_text demo_fs_items) < 2 ^ 29" "length demo_fs_items \<le> 2 ^ 26"
    by (simp_all add: demo_fs_items_def conf_text_def radix.simps)
  have new: "kernel_array (\<lambda>_. True) SIZEOF_DRIVEENTRY (kvec_new (\<lambda>_. True) SIZEOF_DRIVEENTRY) []"
    by (intro kernel_array_new) (simp_all add: SIZEOF_DRIVEENTRY_def)
  have "drives_of (map_of (conf_entries [] demo_fs_items)) (filter is_drive_section (conf_sections demo_fs_items)) =
      Inr [\<lparr>dr_id = 0, dr_fsName = bytes ''fat32'' @ [0]\<rparr>]"
    by (simp add: demo_fs_items_def is_drive_section_def drive_of_def sv_bytes_def)
  then show ?thesis
    using vfs_mounts_configured_drives [OF _ sample_inv(1) ok len(1) new, of "[]"] len(2) by simp
qed

end
