(* ===== verification/InitRamfs.thy ===== *)
theory InitRamfs
  imports KernRap KernVfs Process RivFsRoundtrip Heap
begin

text \<open>
  The start of the drivers in the initramfs, \<^verbatim>\<open>InitRamFs::init\<close> of \<^verbatim>\<open>src/initramfs/init.hpp\<close> with
  \<^verbatim>\<open>VFS::registerForFs\<close> of \<^verbatim>\<open>src/vfs/vfs.hpp\<close>: the image the boot loader left in memory is found, and for
  every directory \<^verbatim>\<open>/drv/fs/*.drv\<close> in it the configuration is read, the executable becomes a process of
  the kernel, the function table is parsed and the drives of \<^verbatim>\<open>/etc/fs.cfg\<close> are entered. \<open>al\<close> is the
  allocator of the vectors, \<open>sal\<close> that of the strings and \<open>ebuf\<close> that of the buffer of the executable.
  What is written to the serial log and the terminal is left out.
\<close>

section \<open>Reading files of the image\<close>

text \<open>A path is read up to its terminator, which it must have.\<close>

definition ramfs_open :: "rivfs \<Rightarrow> u8 list \<Rightarrow> rfile option exec" where
  "ramfs_open fs path = bindE (strlen path) (\<lambda>_. rivfs_open fs (Some (cstr path @ [0])))"

text \<open>A file that is read into a zeroed buffer of one byte more than its size.\<close>

definition ramfs_slurp :: "rivfs \<Rightarrow> rfile \<Rightarrow> u8 list exec" where
  "ramfs_slurp fs f = bindE (filesize fs f) (\<lambda>n. rivfs_read fs f (replicate (unat (n + 1)) 0))"

definition ramfs_need :: "rivfs \<Rightarrow> u8 list \<Rightarrow> string \<Rightarrow> rfile exec" where
  "ramfs_need fs path msg =
     bindE (ramfs_open fs path) (\<lambda>r. case r of None \<Rightarrow> Inl (Panic msg) | Some f \<Rightarrow> Inr f)"

section \<open>One driver\<close>

text \<open>The path of the configuration, in a zeroed buffer.\<close>

definition drv_conf_path :: "sview \<Rightarrow> u8 list exec" where
  "drv_conf_path dirname =
     (let len = 8 + sv_len dirname + 9 + 2 in
      bindE (strcat (replicate (unat len) 0) (bytes ''/drv/fs/'' @ [0])) (\<lambda>b1.
      bindE (sv_toCStr dirname) (\<lambda>tmp.
      bindE (strcat b1 tmp) (\<lambda>b2. strcat b2 (bytes ''/conf.cfg'' @ [0])))))"

definition drv_conf :: "(u32 \<Rightarrow> bool) \<Rightarrow> rivfs \<Rightarrow> sview \<Rightarrow> kconf exec" where
  "drv_conf al fs dirname =
     bindE (drv_conf_path dirname) (\<lambda>filenameBuf.
     bindE (ramfs_need fs filenameBuf ''Driver module did not contain /conf.cfg'') (\<lambda>f.
     bindE (ramfs_slurp fs f) (\<lambda>buf.
     bindE (parseSrc al (conf_new al buf)) (\<lambda>conf.
     if cf_isErr conf then Inl (Panic ''Config in driver was invalid!'') else Inr conf))))"

definition REQUIRED_FIELDS :: "string list" where
  "REQUIRED_FIELDS = [''gen.name'', ''gen.vers'', ''gen.execfp'', ''custom.fstype'']"

fun drv_required :: "kconf \<Rightarrow> string list \<Rightarrow> unit exec" where
  "drv_required conf [] = Inr ()"
| "drv_required conf (f # fnames) =
     bindE (kmap_exists (cf_mapping conf) (bytes f)) (\<lambda>b.
     if b then drv_required conf fnames else Inl (Panic ''Missing field in driver''))"

text \<open>
  The string of a value, whose kind is not looked at: the length of a number or truth value read as a
  string view is not set.
\<close>

definition drv_string :: "kconf \<Rightarrow> string \<Rightarrow> u8 list exec" where
  "drv_string conf field =
     bindE (kmap_get (cf_mapping conf) (bytes field)) (\<lambda>v. case v of CString s \<Rightarrow> sv_toCStr s | _ \<Rightarrow> Inl OutOfBounds)"

text \<open>A path that is put together from its parts with the string class.\<close>

fun str_adds :: "(nat \<Rightarrow> u8 list) \<Rightarrow> kstr \<Rightarrow> u8 list list \<Rightarrow> kstr exec" where
  "str_adds sal st [] = Inr st"
| "str_adds sal st (p # ps) = bindE (str_add sal st p) (\<lambda>st'. str_adds sal st' ps)"

definition drv_exec_path :: "(nat \<Rightarrow> u8 list) \<Rightarrow> sview \<Rightarrow> u8 list \<Rightarrow> kstr exec" where
  "drv_exec_path sal dirname drvExecFp =
     bindE (str_from sal (bytes ''/drv/fs/'' @ [0])) (\<lambda>p. bindE (sv_toCStr dirname) (\<lambda>tmp.
     str_adds sal p [tmp, [47, 0], drvExecFp]))"

text \<open>
  The executable: its buffer has the size of the file, and reading it writes a terminator behind it.
\<close>

definition drv_load :: "(nat \<Rightarrow> u8 list) \<Rightarrow> (nat \<Rightarrow> u8 list) \<Rightarrow> rivfs \<Rightarrow> sview \<Rightarrow> u8 list \<Rightarrow> u8 list \<Rightarrow> kstate \<Rightarrow>
    (process \<times> kstate) exec" where
  "drv_load sal ebuf fs dirname drvExecFp drvName k =
     bindE (drv_exec_path sal dirname drvExecFp) (\<lambda>drvFullFp.
     bindE (ramfs_need fs (s_buf drvFullFp) ''Executable file in driver was incorrect (did not exist!)'') (\<lambda>f.
     bindE (filesize fs f) (\<lambda>elfFilesize.
     bindE (rivfs_read fs f (ebuf (unat elfFilesize))) (\<lambda>elfbuf.
     bindE (elf_isValid elfbuf) (\<lambda>ok.
     if \<not> ok then Inl (Panic ''Executable file in driver was incorrect (is not a valid ELF!)'')
     else bindE (str_from sal (bytes ''__DriverSystem_Fs_'' @ [0])) (\<lambda>n0.
       bindE (str_add sal n0 drvName) (\<lambda>procname.
       elf_load (content drvFullFp) elfbuf k (content procname) Kernel)))))))"

definition drv_rap_path :: "(nat \<Rightarrow> u8 list) \<Rightarrow> sview \<Rightarrow> kstr exec" where
  "drv_rap_path sal dirname =
     bindE (str_from sal (bytes ''/drv/fs/'' @ [0])) (\<lambda>p.
     bindE (str_addcs sal p (sv_bytes dirname)) (\<lambda>p1. str_add sal p1 (bytes ''/fn.rap'' @ [0])))"

definition drv_rap :: "(u32 \<Rightarrow> bool) \<Rightarrow> rivfs \<Rightarrow> u8 list \<Rightarrow> string \<Rightarrow> krmap exec" where
  "drv_rap al fs path msg =
     bindE (ramfs_need fs path msg) (\<lambda>f.
     bindE (ramfs_slurp fs f) (\<lambda>rapBuf. bindE (sv_of_cstr rapBuf) (parseFile al)))"

definition registerForFs :: "(u32 \<Rightarrow> bool) \<Rightarrow> (nat \<Rightarrow> u8 list) \<Rightarrow> rivfs \<Rightarrow> u8 list \<Rightarrow> krmap exec" where
  "registerForFs al sal fs drvfp =
     bindE (str_from sal drvfp) (\<lambda>p. bindE (str_add sal p (bytes ''/fn.rap'' @ [0])) (\<lambda>fullRapFp.
     drv_rap al fs (s_buf fullRapFp) ''Rap File not found for registering in driver module''))"

definition drv_mount :: "(u32 \<Rightarrow> bool) \<Rightarrow> (nat \<Rightarrow> u8 list) \<Rightarrow> rivfs \<Rightarrow> drive_entry kvec \<Rightarrow> drive_entry kvec exec" where
  "drv_mount al sal fs driveEntries =
     bindE (ramfs_need fs (bytes ''/etc/fs.cfg'' @ [0]) ''No /etc/fs.cfg found, unable to mount fs'') (\<lambda>f.
     bindE (ramfs_slurp fs f) (\<lambda>fsConfBuf. initFromSrc al sal driveEntries fsConfBuf))"

text \<open>The kernel and the drive table, which the drivers change.\<close>

record rstate =
  rs_kernel :: kstate
  rs_drives :: "drive_entry kvec"

definition drv_start :: "(u32 \<Rightarrow> bool) \<Rightarrow> (nat \<Rightarrow> u8 list) \<Rightarrow> (nat \<Rightarrow> u8 list) \<Rightarrow> rivfs \<Rightarrow> sview \<Rightarrow> rstate \<Rightarrow> rstate exec" where
  "drv_start al sal ebuf fs dirname s =
     bindE (drv_conf al fs dirname) (\<lambda>conf.
     bindE (drv_required conf REQUIRED_FIELDS) (\<lambda>_.
     bindE (drv_string conf ''gen.name'') (\<lambda>drvName. bindE (drv_string conf ''gen.vers'') (\<lambda>drvVers.
     bindE (drv_string conf ''gen.execfp'') (\<lambda>drvExecFp. bindE (drv_string conf ''custom.fstype'') (\<lambda>drvFsType.
     bindE (drv_load sal ebuf fs dirname drvExecFp drvName (rs_kernel s)) (\<lambda>(proc, k).
     bindE (drv_rap_path sal dirname) (\<lambda>rapFullFp.
     bindE (drv_rap al fs (s_buf rapFullFp) ''File in driver was not found: fn.rap'') (\<lambda>rapf.
     bindE (drv_mount al sal fs (rs_drives s)) (\<lambda>drives.
     bindE (str_from sal (bytes ''/drv/fs/'' @ [0])) (\<lambda>p. bindE (str_addcs sal p (sv_bytes dirname)) (\<lambda>drvDirFp.
     bindE (registerForFs al sal fs (s_buf drvDirFp)) (\<lambda>_.
     Inr \<lparr>rs_kernel = k, rs_drives = drives\<rparr>)))))))))))))"

section \<open>All drivers\<close>

definition drv_suffix :: sview where "drv_suffix = sv (bytes ''.drv'' @ [0]) 4"

text \<open>The loop over the directories ends when the iterator has no further one.\<close>

fun drv_loop :: "nat \<Rightarrow> (u32 \<Rightarrow> bool) \<Rightarrow> (nat \<Rightarrow> u8 list) \<Rightarrow> (nat \<Rightarrow> u8 list) \<Rightarrow> rivfs \<Rightarrow> dirIterator \<Rightarrow> rstate \<Rightarrow> rstate exec" where
  "drv_loop 0 al sal ebuf fs it s = Inl Hang"
| "drv_loop (Suc n) al sal ebuf fs it s =
     bindE (dirItGetNextDir fs it) (\<lambda>(r, it'). case r of
       None \<Rightarrow> Inr s
     | Some (dirname, _) \<Rightarrow>
         bindE (sv_endsWith dirname drv_suffix) (\<lambda>b.
         bindE (if b then drv_start al sal ebuf fs dirname s else Inr s) (\<lambda>s'.
         drv_loop n al sal ebuf fs it' s')))"

definition ramfs_drivers :: "(u32 \<Rightarrow> bool) \<Rightarrow> (nat \<Rightarrow> u8 list) \<Rightarrow> (nat \<Rightarrow> u8 list) \<Rightarrow> rivfs \<Rightarrow> rstate \<Rightarrow> rstate exec" where
  "ramfs_drivers al sal ebuf rfs s =
     bindE (checkCorrectness rfs) (\<lambda>(ok, fs).
     if \<not> ok then Inl (Panic ''Corrrupt initramfs. Serial log might have more information as to why.'')
     else bindE (getDirIt fs (bytes ''/drv/fs'' @ [0])) (\<lambda>r. case r of
       None \<Rightarrow> Inl (Panic ''Corrupt initramfs: /drv/fs did not exist'')
     | Some it \<Rightarrow> drv_loop (Suc (unat (dirsRemaining it))) al sal ebuf fs it s))"

section \<open>Finding the image\<close>

text \<open>
  The information of the boot loader: tags of a type and a size, the next at the size rounded up to
  eight. The memory is a function of the address, and a tag of size 0 is looked at for ever.
\<close>

definition mem32 :: "(u32 \<Rightarrow> u8) \<Rightarrow> u32 \<Rightarrow> u32" where
  "mem32 mem p = le32 (mem p) (mem (p + 1)) (mem (p + 2)) (mem (p + 3))"

definition mem_bytes :: "(u32 \<Rightarrow> u8) \<Rightarrow> u32 \<Rightarrow> nat \<Rightarrow> u8 list" where
  "mem_bytes mem p n = List.map (\<lambda>i. mem (p + word_of_nat i)) [0..<n]"

fun find_module :: "nat \<Rightarrow> (u32 \<Rightarrow> u8) \<Rightarrow> u32 \<Rightarrow> u32 option exec" where
  "find_module 0 mem tag = Inl Hang"
| "find_module (Suc n) mem tag =
     (if mem32 mem tag = 0 then Inr None
      else if mem32 mem tag = 3 then Inr (Some tag)
      else find_module n mem (tag + ((mem32 mem (tag + 4) + 7) AND NOT 7)))"

definition ramfs_init :: "nat \<Rightarrow> (u32 \<Rightarrow> bool) \<Rightarrow> (nat \<Rightarrow> u8 list) \<Rightarrow> (nat \<Rightarrow> u8 list) \<Rightarrow> (u32 \<Rightarrow> u8) \<Rightarrow> u32 \<Rightarrow> rstate \<Rightarrow> rstate exec" where
  "ramfs_init n al sal ebuf mem mbiAddr s =
     bindE (find_module n mem (mbiAddr + 8)) (\<lambda>t. case t of
       None \<Rightarrow> Inl (Panic ''Unable to find initramfs module!'')
     | Some tag \<Rightarrow>
         bindE (streq (mem_bytes mem (tag + 16) 13) (bytes ''IS_INITRAMFS'' @ [0])) (\<lambda>named.
         if \<not> named then Inl (Panic ''A module was found, however the command line does NOT eq IS_INITRAMFS.'')
         else (let modStart = mem32 mem (tag + 8); modEnd = mem32 mem (tag + 12) in
           ramfs_drivers al sal ebuf (RivFs_new modStart (mem_bytes mem modStart (unat (modEnd - modStart)))) s)))"

section \<open>Files of an image that genfs built\<close>

abbreviation path_name_ok :: "u8 list \<Rightarrow> bool" where "path_name_ok \<equiv> RivFsRoundtrip.name_ok"

definition image_fs :: "u32 \<Rightarrow> (u32 \<Rightarrow> u32) \<Rightarrow> fsnode list \<Rightarrow> rivfs" where
  "image_fs base junk es = \<lparr>rawFsMemloc = base, rawFs = genfs_image junk es, fphOff = Some 19\<rparr>"

definition image_ok :: "(u32 \<Rightarrow> u32) \<Rightarrow> fsnode list \<Rightarrow> bool" where
  "image_ok junk es \<longleftrightarrow> tree_ok es \<and> length (genfs_image junk es) < 2 ^ 32"

definition path_is :: "u8 list \<Rightarrow> u8 list list \<Rightarrow> bool" where
  "path_is path cs \<longleftrightarrow> terminated path \<and> cstr path = SLASH # join cs \<and> cs \<noteq> [] \<and> list_all path_name_ok cs \<and>
     length (join cs) < 2 ^ 30"

definition holds_file :: "rivfs \<Rightarrow> rfile \<Rightarrow> u8 list \<Rightarrow> bool" where
  "holds_file fs f d \<longleftrightarrow> filesize fs f = Inr (word_of_nat (length d)) \<and> (\<forall>obuf. rivfs_read fs f obuf =
     (if length d < length obuf then Inr (d @ 0 # drop (Suc (length d)) obuf) else Inl OutOfBounds))"

lemma ramfs_need_eq:
  assumes "image_ok junk es" and "path_is path cs"
  shows "case lookup_path es cs of None \<Rightarrow> ramfs_need (image_fs base junk es) path msg = Inl (Panic msg)
    | Some d \<Rightarrow> \<exists>f. ramfs_need (image_fs base junk es) path msg = Inr f \<and> holds_file (image_fs base junk es) f d"
proof -
  have "length (join cs) + 2 < 2 ^ 32"
    using assms(2) by (simp add: path_is_def)
  then obtain r where r: "rivfs_open (image_fs base junk es) (Some (SLASH # join cs @ [0])) = Inr r"
      "case lookup_path es cs of None \<Rightarrow> r = None
      | Some d \<Rightarrow> \<exists>f. r = Some f \<and> holds_file (image_fs base junk es) f d"
    using genfs_open_eq [OF _ _ _ _ _ image_fs_def, of es junk cs] assms
    unfolding image_ok_def path_is_def holds_file_def by blast
  have "ramfs_open (image_fs base junk es) path = Inr r"
    using assms(2) r(1) by (simp add: ramfs_open_def path_is_def strlen_eq)
  then show ?thesis
    using r(2) by (auto simp: ramfs_need_def split: option.splits)
qed

lemma ramfs_need_found:
  assumes "image_ok junk es" and "path_is path cs" and "lookup_path es cs = Some d"
  obtains f where "ramfs_need (image_fs base junk es) path msg = Inr f" and "holds_file (image_fs base junk es) f d"
  using ramfs_need_eq [OF assms(1,2), of base msg] assms(3) by auto

lemma ramfs_slurp_eq:
  assumes "holds_file fs f d" and "length d + 1 < 2 ^ 32"
  shows "ramfs_slurp fs f = Inr (d @ [0])"
proof -
  have n: "unat (word_of_nat (length d) + 1 :: u32) = Suc (length d)"
    using unat_plus_nat [of "word_of_nat (length d) :: u32" 1] assms(2) by simp
  have "drop (Suc (length d)) (replicate (Suc (length d)) (0 :: u8)) = []"
    by simp
  then show ?thesis
    using assms(1) by (simp add: ramfs_slurp_def holds_file_def n del: replicate_Suc)
qed

section \<open>The paths of a driver\<close>

definition drv_dir :: "u8 list \<Rightarrow> u8 list list" where
  "drv_dir name = [bytes ''drv'', bytes ''fs'', name]"

lemma join_snoc: "cs \<noteq> [] \<Longrightarrow> join (cs @ [n]) = join cs @ SLASH # n"
  by (induction cs rule: join.induct) auto

lemma drv_path_is:
  assumes "path_name_ok name" and "path_name_ok n" and "length name < 2 ^ 20" and "length n < 2 ^ 20"
    and "terminated path" and "cstr path = bytes ''/drv/fs/'' @ name @ SLASH # n"
  shows "path_is path (drv_dir name @ [n])"
  using assms by (simp add: path_is_def drv_dir_def RivFsRoundtrip.name_ok_def SLASH_def)

definition is_dirname :: "sview \<Rightarrow> u8 list \<Rightarrow> bool" where
  "is_dirname v name \<longleftrightarrow> sv_valid v \<and> sv_bytes v = name \<and> path_name_ok name \<and> length name < 2 ^ 20"

lemma dirname_cstr: "is_dirname v name \<Longrightarrow> sv_toCStr v = Inr (name @ [0]) \<and> cstr (name @ [0]) = name"
  using sv_toCStr_spec [of v] cstr_append_nul [of name "[]"] by (simp add: is_dirname_def RivFsRoundtrip.name_ok_def)

text \<open>Appending to a buffer of zeros behind what is there.\<close>

lemma strcat_zeros:
  assumes "0 \<notin> set a" and "0 \<notin> set b" and "length b < n"
  shows "strcat (a @ replicate n 0) (b @ [0]) = Inr ((a @ b) @ replicate (n - length b) 0)"
proof -
  obtain m where n: "n = Suc m"
    using assms(3) by (cases n) auto
  have c: "cstr (a @ 0 # replicate m 0) = a" "cstr (b @ [0]) = b"
    using cstr_append_nul assms(1,2) by blast+
  obtain k where k: "n - length b = Suc k"
    using assms(3) by (metis Suc_diff_Suc)
  show ?thesis
    using strcat_eq [of "a @ 0 # replicate m 0" "b @ [0]"] c assms(3) k by (simp add: n Suc_diff_le)
qed

lemma drv_conf_path_eq:
  assumes "is_dirname v name"
  obtains buf where "drv_conf_path v = Inr buf" and "path_is buf (drv_dir name @ [bytes ''conf.cfg''])"
proof -
  have name: "0 \<notin> set name" "length name < 2 ^ 20" "path_name_ok name" "unat (sv_len v) = length name"
    using assms length_sv_bytes [of v] by (auto simp: is_dirname_def RivFsRoundtrip.name_ok_def)
  have "8 + sv_len v + 9 + 2 = sv_len v + word_of_nat 19"
    by simp
  then have len: "unat (8 + sv_len v + 9 + 2) = length name + 19"
    using unat_plus_nat [of "sv_len v" 19] name(2,4) by (simp add: add.commute [of 19])
  let ?a = "bytes ''/drv/fs/''" and ?b = "bytes ''/conf.cfg''"
  have "strcat (replicate (length name + 19) 0) (?a @ [0]) = Inr (?a @ replicate (length name + 11) 0)"
    using strcat_zeros [of "[]" ?a "length name + 19"] by simp
  moreover have "strcat (?a @ replicate (length name + 11) 0) (name @ [0]) = Inr ((?a @ name) @ replicate 11 0)"
    using strcat_zeros [of ?a name "length name + 11"] name(1) by simp
  moreover have "strcat ((?a @ name) @ replicate 11 0) (?b @ [0]) = Inr (((?a @ name) @ ?b) @ replicate 2 0)"
    using strcat_zeros [of "?a @ name" ?b 11] name(1) by simp
  ultimately have run: "drv_conf_path v = Inr (((?a @ name) @ ?b) @ replicate 2 0)"
    using dirname_cstr [OF assms] by (simp only: drv_conf_path_def Let_def len bindE.simps)
  have c: "cstr (((?a @ name) @ ?b) @ replicate 2 0) = ?a @ name @ SLASH # bytes ''conf.cfg''"
  proof -
    have "replicate 2 (0 :: u8) = 0 # [0]"
      by (simp add: numeral_eq_Suc)
    moreover have "cstr (((?a @ name) @ ?b) @ 0 # [0]) = (?a @ name) @ ?b"
      using name(1) by (intro cstr_append_nul) simp
    ultimately show ?thesis
      by (simp add: SLASH_def)
  qed
  have "path_is (((?a @ name) @ ?b) @ replicate 2 0) (drv_dir name @ [bytes ''conf.cfg''])"
    by (rule drv_path_is [OF name(3) _ name(2) _ _ c]) (simp_all add: RivFsRoundtrip.name_ok_def SLASH_def)
  then show thesis
    using that run by blast
qed

lemma str_adds_eq:
  assumes "sane_alloc sal"
  shows "str_inv st \<Longrightarrow> list_all (\<lambda>p. terminated p \<and> length (cstr p) < 2 ^ 20) ps \<Longrightarrow>
    length (content st) + length ps * 2 ^ 20 < STR_MAX \<Longrightarrow>
    \<exists>st'. str_adds sal st ps = Inr st' \<and> str_inv st' \<and> content st' = content st @ concat (List.map cstr ps)"
proof (induction ps arbitrary: st)
  case (Cons p ps)
  obtain st1 where st1: "str_add sal st p = Inr st1" "str_inv st1" "content st1 = content st @ cstr p"
    using str_add_spec [OF assms Cons.prems(1), of p] Cons.prems(2,3) by auto
  then show ?case
    using Cons.IH [OF st1(2)] Cons.prems(2,3) by auto
qed simp

lemma drv_prefix:
  assumes "sane_alloc sal"
  obtains st where "str_from sal (bytes ''/drv/fs/'' @ [0]) = Inr st" and "str_inv st" and "content st = bytes ''/drv/fs/''"
proof -
  have "cstr (bytes ''/drv/fs/'' @ [0]) = bytes ''/drv/fs/''"
    by simp
  then show thesis
    using str_from_spec [OF assms, of "bytes ''/drv/fs/'' @ [0]"] that by auto
qed

lemma str_path_is:
  assumes "str_inv st" and "content st = bytes ''/drv/fs/'' @ name @ SLASH # n"
    and "path_name_ok name" and "path_name_ok n" and "length name < 2 ^ 20" and "length n < 2 ^ 20"
  shows "path_is (s_buf st) (drv_dir name @ [n])"
  using assms by (intro drv_path_is) (simp_all add: str_inv_def content_def)

lemma drv_exec_path_eq:
  assumes "sane_alloc sal" and "is_dirname v name" and "path_name_ok n" and "length n < 2 ^ 20"
  obtains st where "drv_exec_path sal v (n @ [0]) = Inr st" and "content st = bytes ''/drv/fs/'' @ name @ SLASH # n"
    and "path_is (s_buf st) (drv_dir name @ [n])"
proof -
  obtain st0 where st0: "str_from sal (bytes ''/drv/fs/'' @ [0]) = Inr st0" "str_inv st0" "content st0 = bytes ''/drv/fs/''"
    by (rule drv_prefix [OF assms(1)])
  have c: "cstr (name @ [0]) = name" "cstr (n @ [0]) = n" "path_name_ok name" "length name < 2 ^ 20"
    using dirname_cstr [OF assms(2)] assms(2,3) cstr_append_nul [of n "[]"]
    by (auto simp: is_dirname_def RivFsRoundtrip.name_ok_def)
  obtain st where st: "str_adds sal st0 [name @ [0], [47, 0], n @ [0]] = Inr st" "str_inv st"
      "content st = bytes ''/drv/fs/'' @ name @ SLASH # n"
    using str_adds_eq [OF assms(1) st0(2), of "[name @ [0], [47, 0], n @ [0]]"] st0(3) c assms(4)
    by (auto simp: SLASH_def)
  moreover have "drv_exec_path sal v (n @ [0]) = Inr st"
    using st0(1) st(1) dirname_cstr [OF assms(2)] by (simp add: drv_exec_path_def)
  ultimately show thesis
    using that str_path_is [OF st(2,3) c(3) assms(3) c(4) assms(4)] by blast
qed

lemma drv_dir_path_eq:
  assumes "sane_alloc sal" and "is_dirname v name"
  obtains st p where "str_from sal (bytes ''/drv/fs/'' @ [0]) = Inr p" and "str_addcs sal p (sv_bytes v) = Inr st"
    and "str_inv st" and "content st = bytes ''/drv/fs/'' @ name"
proof -
  obtain st0 where st0: "str_from sal (bytes ''/drv/fs/'' @ [0]) = Inr st0" "str_inv st0" "content st0 = bytes ''/drv/fs/''"
    by (rule drv_prefix [OF assms(1)])
  then show thesis
    using that str_addcs_spec [OF assms(1) st0(2), of name] assms(2)
    by (auto simp: is_dirname_def RivFsRoundtrip.name_ok_def)
qed

lemma fn_rap:
  "cstr (bytes ''/fn.rap'' @ [0]) = SLASH # bytes ''fn.rap''" "path_name_ok (bytes ''fn.rap'')"
  "terminated (bytes ''/fn.rap'' @ [0])"
  by (simp_all add: SLASH_def RivFsRoundtrip.name_ok_def)

lemma drv_rap_path_eq:
  assumes "sane_alloc sal" and "is_dirname v name"
  obtains st where "drv_rap_path sal v = Inr st" and "path_is (s_buf st) (drv_dir name @ [bytes ''fn.rap''])"
proof -
  obtain st1 p where p: "str_from sal (bytes ''/drv/fs/'' @ [0]) = Inr p" "str_addcs sal p (sv_bytes v) = Inr st1"
      "str_inv st1" "content st1 = bytes ''/drv/fs/'' @ name"
    by (rule drv_dir_path_eq [OF assms])
  have n: "path_name_ok name" "length name < 2 ^ 20"
    using assms(2) by (auto simp: is_dirname_def)
  obtain st where st: "str_add sal st1 (bytes ''/fn.rap'' @ [0]) = Inr st" "str_inv st"
      "content st = bytes ''/drv/fs/'' @ name @ SLASH # bytes ''fn.rap''"
    using str_add_spec [OF assms(1) p(3) fn_rap(3)] n(2) unfolding fn_rap(1) p(4) by auto
  then show thesis
    using that p(1,2) str_path_is [OF st(2,3) n(1) fn_rap(2) n(2)] by (simp add: drv_rap_path_def)
qed

section \<open>Starting a driver\<close>

text \<open>The files of a driver and what they say.\<close>

record driver =
  dv_dir :: "u8 list"
  dv_conf :: "citem list"
  dv_name :: "u8 list"
  dv_vers :: "u8 list"
  dv_exec :: "u8 list"
  dv_fstype :: "u8 list"
  dv_elf :: "u8 list"
  dv_fns :: "rfunc list"
  dv_mounts :: "citem list"

definition conf_small :: "citem list \<Rightarrow> bool" where
  "conf_small its \<longleftrightarrow> list_all citem_ok its \<and> length (conf_text its) < 2 ^ 29 \<and> length its \<le> 2 ^ 25"

definition conf_says :: "citem list \<Rightarrow> string \<Rightarrow> u8 list \<Rightarrow> bool" where
  "conf_says its field t \<longleftrightarrow> map_of (conf_entries [] its) (bytes field) = Some (cvalue_of (DString t)) \<and>
     0 \<notin> set t \<and> length t < 2 ^ 20"

definition driver_in :: "fsnode list \<Rightarrow> driver \<Rightarrow> bool" where
  "driver_in es d \<longleftrightarrow> path_name_ok (dv_dir d) \<and> length (dv_dir d) < 2 ^ 20 \<and>
     lookup_path es (drv_dir (dv_dir d) @ [bytes ''conf.cfg'']) = Some (conf_text (dv_conf d)) \<and> conf_small (dv_conf d) \<and>
     conf_says (dv_conf d) ''gen.name'' (dv_name d) \<and> conf_says (dv_conf d) ''gen.vers'' (dv_vers d) \<and>
     conf_says (dv_conf d) ''gen.execfp'' (dv_exec d) \<and> conf_says (dv_conf d) ''custom.fstype'' (dv_fstype d) \<and>
     path_name_ok (dv_exec d) \<and> lookup_path es (drv_dir (dv_dir d) @ [dv_exec d]) = Some (dv_elf d) \<and>
     length (dv_elf d) < 2 ^ 32 \<and>
     lookup_path es (drv_dir (dv_dir d) @ [bytes ''fn.rap'']) = Some (table_text (dv_fns d)) \<and>
     list_all krfunc_ok (dv_fns d) \<and> dv_fns d \<noteq> [] \<and> length (table_text (dv_fns d)) < 2 ^ 26 \<and>
     lookup_path es [bytes ''etc'', bytes ''fs.cfg''] = Some (conf_text (dv_mounts d)) \<and> conf_small (dv_mounts d)"

lemma drv_conf_eq:
  assumes "image_ok junk es" and "is_dirname v name" and "\<forall>n. al n" and "conf_small its"
    and "lookup_path es (drv_dir name @ [bytes ''conf.cfg'']) = Some (conf_text its)"
  obtains k where "drv_conf al (image_fs base junk es) v = Inr k" and "kvec_is SIZEOF_CONFENTRY (cf_mapping k) (conf_entries [] its)"
proof -
  obtain buf where buf: "drv_conf_path v = Inr buf" "path_is buf (drv_dir name @ [bytes ''conf.cfg''])"
    by (rule drv_conf_path_eq [OF assms(2)])
  obtain f where f: "ramfs_need (image_fs base junk es) buf ''Driver module did not contain /conf.cfg'' = Inr f"
      "holds_file (image_fs base junk es) f (conf_text its)"
    by (rule ramfs_need_found [OF assms(1) buf(2) assms(5)])
  have its: "list_all citem_ok its" "length (conf_text its) < 2 ^ 31" "length its \<le> 2 ^ 26"
    using assms(4) by (auto simp: conf_small_def)
  obtain k sec where k: "parseSrc al (conf_new al (conf_text its @ 0 # [])) = Inr k"
      "conf_holds al k sec (conf_sections its) (conf_entries [] its)"
    by (rule parseSrc_eq [OF assms(3) its])
  have "ramfs_slurp (image_fs base junk es) f = Inr (conf_text its @ [0])"
    using its(2) by (intro ramfs_slurp_eq [OF f(2)]) simp
  then have "drv_conf al (image_fs base junk es) v = Inr k"
    using buf(1) f(1) k by (simp add: drv_conf_def conf_holds_def)
  moreover have "kvec_is SIZEOF_CONFENTRY (cf_mapping k) (conf_entries [] its)"
    using k(2) by (simp add: conf_holds_def kernel_array_def)
  ultimately show thesis
    by (rule that)
qed

lemma drv_string_eq:
  assumes "kvec_is ts (cf_mapping k) (conf_entries [] its)" and "conf_says its field t"
  shows "drv_string k field = Inr (t @ [0])" and "kmap_exists (cf_mapping k) (bytes field) = Inr True"
proof -
  have "sv_toCStr (sv (t @ [0]) (word_of_nat (length t))) = Inr (t @ [0])"
    using assms(2) by (intro sv_toCStr_prefix) (simp add: conf_says_def)
  then show "drv_string k field = Inr (t @ [0])"
    using kmap_get_eq [OF assms(1)] assms(2) by (simp add: drv_string_def conf_says_def)
  show "kmap_exists (cf_mapping k) (bytes field) = Inr True"
    using kmap_exists_eq [OF assms(1)] assms(2) by (simp add: conf_says_def)
qed

text \<open>The process of the executable, with the buffer it was read into.\<close>

definition drv_process :: "(nat \<Rightarrow> u8 list) \<Rightarrow> driver \<Rightarrow> kstate \<Rightarrow> (process \<times> kstate) exec" where
  "drv_process ebuf d k =
     (let buf = ebuf (length (dv_elf d)); e = dv_elf d @ 0 # drop (Suc (length (dv_elf d))) buf in
      if length buf \<le> length (dv_elf d) then Inl OutOfBounds
      else bindE (elf_isValid e) (\<lambda>ok.
        if \<not> ok then Inl (Panic ''Executable file in driver was incorrect (is not a valid ELF!)'')
        else elf_load (bytes ''/drv/fs/'' @ dv_dir d @ SLASH # dv_exec d) e k (bytes ''__DriverSystem_Fs_'' @ dv_name d) Kernel))"

lemma drv_load_eq:
  assumes "image_ok junk es" and "driver_in es d" and "is_dirname v (dv_dir d)" and "sane_alloc sal"
  shows "drv_load sal ebuf (image_fs base junk es) v (dv_exec d @ [0]) (dv_name d @ [0]) k = drv_process ebuf d k"
proof -
  let ?fs = "image_fs base junk es"
  have ex: "path_name_ok (dv_exec d)" "length (dv_exec d) < 2 ^ 20"
      "lookup_path es (drv_dir (dv_dir d) @ [dv_exec d]) = Some (dv_elf d)" "length (dv_elf d) < 2 ^ 32"
    and nm: "0 \<notin> set (dv_name d)" "length (dv_name d) < 2 ^ 20"
    using assms(2) by (auto simp: driver_in_def conf_says_def)
  obtain st where st: "drv_exec_path sal v (dv_exec d @ [0]) = Inr st" "path_is (s_buf st) (drv_dir (dv_dir d) @ [dv_exec d])"
      "content st = bytes ''/drv/fs/'' @ dv_dir d @ SLASH # dv_exec d"
    using drv_exec_path_eq [OF assms(4,3) ex(1,2)] .
  obtain f where f: "ramfs_need ?fs (s_buf st) ''Executable file in driver was incorrect (did not exist!)'' = Inr f"
      "holds_file ?fs f (dv_elf d)"
    by (rule ramfs_need_found [OF assms(1) st(2) ex(3)])
  let ?p = "bytes ''__DriverSystem_Fs_'' @ [0]"
  have c: "cstr ?p = bytes ''__DriverSystem_Fs_''" "cstr (dv_name d @ [0]) = dv_name d" "terminated ?p"
    using cstr_append_nul [OF nm(1), of "[]"] by simp_all
  obtain n0 where n0: "str_from sal ?p = Inr n0" "str_inv n0" "content n0 = bytes ''__DriverSystem_Fs_''"
    using str_from_spec [OF assms(4) c(3)] c(1) by auto
  obtain pn where pn: "str_add sal n0 (dv_name d @ [0]) = Inr pn" "content pn = bytes ''__DriverSystem_Fs_'' @ dv_name d"
    using str_add_spec [OF assms(4) n0(2), of "dv_name d @ [0]"] c(2) n0(3) nm(2) by auto
  show ?thesis
    unfolding drv_load_def st(1) bindE.simps f(1)
    using f(2) ex(4) n0(1) pn st(3) by (auto simp: holds_file_def drv_process_def Let_def intro!: bindE_cong)
qed

lemma drv_rap_eq:
  assumes "image_ok junk es" and "driver_in es d" and "\<forall>n. al n"
    and "path_is path (drv_dir (dv_dir d) @ [bytes ''fn.rap''])"
  shows "\<exists>m. drv_rap al (image_fs base junk es) path msg = Inr m \<and>
    kernel_array al SIZEOF_RAPENTRY m (List.map krentry_of (dv_fns d))"
proof -
  let ?t = "table_text (dv_fns d)"
  have d: "lookup_path es (drv_dir (dv_dir d) @ [bytes ''fn.rap'']) = Some ?t" "list_all krfunc_ok (dv_fns d)" "dv_fns d \<noteq> []"
      "length ?t < 2 ^ 26"
    using assms(2) by (simp_all add: driver_in_def)
  obtain f where f: "ramfs_need (image_fs base junk es) path msg = Inr f" "holds_file (image_fs base junk es) f ?t"
    by (rule ramfs_need_found [OF assms(1,4) d(1)])
  have "list_all func_ok (dv_fns d)"
    using d(2) by (auto simp: list_all_iff krfunc_ok_def)
  then have "cstr (?t @ [0]) = ?t"
    using cstr_append_nul [OF table_nul, of _ "[]"] by simp
  then have "sv_of_cstr (?t @ [0]) = Inr (sv (?t @ [0]) (word_of_nat (length ?t)))"
    by (simp add: sv_of_cstr_def strlen_eq)
  moreover have "ramfs_slurp (image_fs base junk es) f = Inr (?t @ [0])"
    using d(4) by (intro ramfs_slurp_eq [OF f(2)]) simp
  ultimately show ?thesis
    using f(1) krap_reads_eq [OF assms(3) d(2-4)] by (simp add: drv_rap_def)
qed

lemma registerForFs_eq:
  assumes "image_ok junk es" and "driver_in es d" and "\<forall>n. al n" and "sane_alloc sal"
    and "terminated path" and "cstr path = bytes ''/drv/fs/'' @ dv_dir d"
  shows "\<exists>m. registerForFs al sal (image_fs base junk es) path = Inr m \<and>
    kernel_array al SIZEOF_RAPENTRY m (List.map krentry_of (dv_fns d))"
proof -
  have n: "path_name_ok (dv_dir d)" "length (dv_dir d) < 2 ^ 20"
    using assms(2) by (simp_all add: driver_in_def)
  obtain p where p: "str_from sal path = Inr p" "str_inv p" "content p = cstr path"
    using str_from_spec [OF assms(4,5)] n(2) unfolding assms(6) by auto
  obtain q where q: "str_add sal p (bytes ''/fn.rap'' @ [0]) = Inr q" "str_inv q"
      "content q = bytes ''/drv/fs/'' @ dv_dir d @ SLASH # bytes ''fn.rap''"
    using str_add_spec [OF assms(4) p(2) fn_rap(3)] n(2) unfolding fn_rap(1) p(3) assms(6) by auto
  have "path_is (s_buf q) (drv_dir (dv_dir d) @ [bytes ''fn.rap''])"
    using n by (intro str_path_is [OF q(2,3)] fn_rap(2)) simp_all
  from drv_rap_eq [OF assms(1-3) this] show ?thesis
    using p(1) q(1) by (simp add: registerForFs_def)
qed

lemma drv_mount_eq:
  assumes "image_ok junk es" and "driver_in es d" and "\<forall>n. al n" and "sane_alloc sal"
    and "kernel_array al SIZEOF_DRIVEENTRY v ds" and "length ds \<le> 2 ^ 25"
    and "drives_of (map_of (conf_entries [] (dv_mounts d))) (filter is_drive_section (conf_sections (dv_mounts d))) = Inr ds'"
  shows "\<exists>v'. drv_mount al sal (image_fs base junk es) v = Inr v' \<and> kernel_array al SIZEOF_DRIVEENTRY v' (ds @ ds')"
proof -
  let ?c = "conf_text (dv_mounts d)" and ?p = "bytes ''/etc/fs.cfg'' @ [0]"
  have c: "list_all citem_ok (dv_mounts d)" "length ?c < 2 ^ 29" "length ds + length (dv_mounts d) \<le> 2 ^ 26"
    and l: "lookup_path es [bytes ''etc'', bytes ''fs.cfg''] = Some ?c"
    using assms(2,6) by (auto simp: driver_in_def conf_small_def)
  have "path_is ?p [bytes ''etc'', bytes ''fs.cfg'']"
    by (simp add: path_is_def RivFsRoundtrip.name_ok_def SLASH_def)
  then obtain f where f: "ramfs_need (image_fs base junk es) ?p ''No /etc/fs.cfg found, unable to mount fs'' = Inr f"
      "holds_file (image_fs base junk es) f ?c"
    using ramfs_need_found [OF assms(1) _ l] by blast
  have "ramfs_slurp (image_fs base junk es) f = Inr (?c @ 0 # [])"
    using c(2) by (intro ramfs_slurp_eq [OF f(2)]) simp
  then show ?thesis
    using f(1) initFromSrc_eq [OF assms(3,4) c(1,2) assms(5) c(3), of "[]"] assms(7) by (simp add: drv_mount_def)
qed

lemma drv_start_up_to_load:
  assumes "image_ok junk es" and "driver_in es d" and "is_dirname v (dv_dir d)" and "\<forall>n. al n" and "sane_alloc sal"
  shows "\<exists>rest. drv_start al sal ebuf (image_fs base junk es) v s = bindE (drv_process ebuf d (rs_kernel s)) rest \<and>
    rest = (\<lambda>(proc, k).
     bindE (drv_rap_path sal v) (\<lambda>rapFullFp.
     bindE (drv_rap al (image_fs base junk es) (s_buf rapFullFp) ''File in driver was not found: fn.rap'') (\<lambda>rapf.
     bindE (drv_mount al sal (image_fs base junk es) (rs_drives s)) (\<lambda>drives.
     bindE (str_from sal (bytes ''/drv/fs/'' @ [0])) (\<lambda>p. bindE (str_addcs sal p (sv_bytes v)) (\<lambda>drvDirFp.
     bindE (registerForFs al sal (image_fs base junk es) (s_buf drvDirFp)) (\<lambda>_.
     Inr \<lparr>rs_kernel = k, rs_drives = drives\<rparr>)))))))"
proof -
  have c: "conf_small (dv_conf d)" "lookup_path es (drv_dir (dv_dir d) @ [bytes ''conf.cfg'']) = Some (conf_text (dv_conf d))"
    and says: "conf_says (dv_conf d) ''gen.name'' (dv_name d)" "conf_says (dv_conf d) ''gen.vers'' (dv_vers d)"
      "conf_says (dv_conf d) ''gen.execfp'' (dv_exec d)" "conf_says (dv_conf d) ''custom.fstype'' (dv_fstype d)"
    using assms(2) by (simp_all add: driver_in_def)
  obtain k where k: "drv_conf al (image_fs base junk es) v = Inr k" "kvec_is SIZEOF_CONFENTRY (cf_mapping k) (conf_entries [] (dv_conf d))"
    by (rule drv_conf_eq [OF assms(1,3,4) c])
  note str = drv_string_eq [OF k(2)]
  have "drv_required k REQUIRED_FIELDS = Inr ()"
    unfolding REQUIRED_FIELDS_def drv_required.simps str(2) [OF says(1)] str(2) [OF says(2)] str(2) [OF says(3)] str(2) [OF says(4)]
    by simp
  then show ?thesis
    unfolding drv_start_def k(1) bindE.simps
    by (simp only: bindE.simps str(1) [OF says(1)] str(1) [OF says(2)] str(1) [OF says(3)] str(1) [OF says(4)]
        drv_load_eq [OF assms(1,2,3,5)]) blast
qed

lemma drv_start_eq:
  assumes "image_ok junk es" and "driver_in es d" and "is_dirname v (dv_dir d)" and "\<forall>n. al n" and "sane_alloc sal"
    and "kernel_array al SIZEOF_DRIVEENTRY (rs_drives s) ds" and "length ds \<le> 2 ^ 25"
    and "drives_of (map_of (conf_entries [] (dv_mounts d))) (filter is_drive_section (conf_sections (dv_mounts d))) = Inr ds'"
  shows "\<exists>drives. kernel_array al SIZEOF_DRIVEENTRY drives (ds @ ds') \<and> drv_start al sal ebuf (image_fs base junk es) v s =
    bindE (drv_process ebuf d (rs_kernel s)) (\<lambda>(p, k). Inr \<lparr>rs_kernel = k, rs_drives = drives\<rparr>)"
proof -
  obtain rp where rp: "drv_rap_path sal v = Inr rp" "path_is (s_buf rp) (drv_dir (dv_dir d) @ [bytes ''fn.rap''])"
    by (rule drv_rap_path_eq [OF assms(5,3)])
  obtain m where m: "drv_rap al (image_fs base junk es) (s_buf rp) ''File in driver was not found: fn.rap'' = Inr m"
    using drv_rap_eq [OF assms(1,2,4) rp(2)] by blast
  obtain st p0 where st: "str_from sal (bytes ''/drv/fs/'' @ [0]) = Inr p0" "str_addcs sal p0 (sv_bytes v) = Inr st"
      "str_inv st" "content st = bytes ''/drv/fs/'' @ dv_dir d"
    by (rule drv_dir_path_eq [OF assms(5,3)])
  obtain m' where m': "registerForFs al sal (image_fs base junk es) (s_buf st) = Inr m'"
    using registerForFs_eq [OF assms(1,2,4,5), of "s_buf st"] st(3,4) by (auto simp: str_inv_def content_def)
  obtain dr where dr: "drv_mount al sal (image_fs base junk es) (rs_drives s) = Inr dr" "kernel_array al SIZEOF_DRIVEENTRY dr (ds @ ds')"
    using drv_mount_eq [OF assms(1,2,4,5,6-8)] by blast
  obtain rest where "drv_start al sal ebuf (image_fs base junk es) v s = bindE (drv_process ebuf d (rs_kernel s)) rest"
      "rest = (\<lambda>(p, k). Inr \<lparr>rs_kernel = k, rs_drives = dr\<rparr>)"
    using drv_start_up_to_load [OF assms(1-5), of ebuf base s] rp(1) m st(1,2) m' dr(1) by auto
  then show ?thesis
    using dr(2) by blast
qed

section \<open>What the start of the drivers promises\<close>

text \<open>
  The bytes the loader sees: the buffer starts with the executable and the terminator that reading wrote.
\<close>

definition loaded_elf :: "(nat \<Rightarrow> u8 list) \<Rightarrow> driver \<Rightarrow> u8 list" where
  "loaded_elf ebuf d = dv_elf d @ 0 # drop (Suc (length (dv_elf d))) (ebuf (length (dv_elf d)))"

text \<open>C4: the kernel allocates exactly the size of the executable and reading it writes one byte more. When
  the block that the heap \<open>h\<close> answers ends right there, before the header of the next block, starting the driver
  writes out of bounds. Otherwise a driver directory in an image that genfs built, with a well-formed
  configuration, function table and \<^verbatim>\<open>/etc/fs.cfg\<close>, is started as far as its executable is good: one that is not
  a valid ELF image stops the kernel, and the drives of the configuration are entered behind those that were
  there when the loader succeeds, with the process it makes as the last process, a process of the
  kernel that carries the name of the driver; when the loader fails, so does the start.\<close>

theorem ramfs_starts_driver:
  assumes "image_ok junk es" and "driver_in es d" and "is_dirname v (dv_dir d)" and "\<forall>n. al n" and "sane_alloc sal"
    and heap: "heap_inv h" "n = length (dv_elf d)" "sane_size h (word_of_nat n)" "kalloc h (word_of_nat n) = Inr (q, h')" "q \<noteq> 0"
      "length (ebuf n) = heap_room h' q"
    and drives: "kernel_array al SIZEOF_DRIVEENTRY (rs_drives s) ds" "length ds \<le> 2 ^ 25"
      "drives_of (map_of (conf_entries [] (dv_mounts d))) (filter is_drive_section (conf_sections (dv_mounts d))) = Inr ds'"
  shows "n \<le> heap_room h' q \<and> (\<exists>dr. kernel_array al SIZEOF_DRIVEENTRY dr (ds @ ds') \<and>
     drv_start al sal ebuf (image_fs base junk es) v s =
      (if heap_room h' q = n then Inl OutOfBounds
       else bindE (elf_isValid (loaded_elf ebuf d)) (\<lambda>ok.
         if \<not> ok then Inl (Panic ''Executable file in driver was incorrect (is not a valid ELF!)'')
         else bindE (elf_load (bytes ''/drv/fs/'' @ dv_dir d @ SLASH # dv_exec d) (loaded_elf ebuf d) (rs_kernel s)
             (bytes ''__DriverSystem_Fs_'' @ dv_name d) Kernel) (\<lambda>(p, k). Inr \<lparr>rs_kernel = k, rs_drives = dr\<rparr>)))) \<and>
     (\<forall>p k. elf_load (bytes ''/drv/fs/'' @ dv_dir d @ SLASH # dv_exec d) (loaded_elf ebuf d) (rs_kernel s)
          (bytes ''__DriverSystem_Fs_'' @ dv_name d) Kernel = Inr (p, k) \<longrightarrow>
        processes k = processes (rs_kernel s) @ [p] \<and> pname p = bytes ''__DriverSystem_Fs_'' @ dv_name d \<and> priv p = Kernel)"
proof (intro conjI allI impI)
  have "n < 2 ^ 32"
    using assms(2) heap(2) by (simp add: driver_in_def)
  then show n: "n \<le> heap_room h' q"
    using kalloc_room [OF heap(1,3-5)] unat_of_nat32 [of n] by simp
  obtain dr where dr: "kernel_array al SIZEOF_DRIVEENTRY dr (ds @ ds')"
      "drv_start al sal ebuf (image_fs base junk es) v s = bindE (drv_process ebuf d (rs_kernel s)) (\<lambda>(p, k). Inr \<lparr>rs_kernel = k, rs_drives = dr\<rparr>)"
    using drv_start_eq [OF assms(1-5) drives] by blast
  then show "\<exists>dr. kernel_array al SIZEOF_DRIVEENTRY dr (ds @ ds') \<and>
     drv_start al sal ebuf (image_fs base junk es) v s =
      (if heap_room h' q = n then Inl OutOfBounds
       else bindE (elf_isValid (loaded_elf ebuf d)) (\<lambda>ok.
         if \<not> ok then Inl (Panic ''Executable file in driver was incorrect (is not a valid ELF!)'')
         else bindE (elf_load (bytes ''/drv/fs/'' @ dv_dir d @ SLASH # dv_exec d) (loaded_elf ebuf d) (rs_kernel s)
             (bytes ''__DriverSystem_Fs_'' @ dv_name d) Kernel) (\<lambda>(p, k). Inr \<lparr>rs_kernel = k, rs_drives = dr\<rparr>)))"
    using n heap(2,6) by (intro exI [of _ dr] conjI)
      (auto simp: drv_process_def Let_def loaded_elf_def bindE_assoc intro!: bindE_cong)
qed (use elf_load_registers in blast)+

text \<open>The buffer for the executable is allocated with the size of the file, and reading a file writes a
  terminator behind it: with a buffer of exactly that size every driver makes the kernel write out of
  bounds.\<close>

theorem ramfs_executable_overflows:
  assumes "image_ok junk es" and "driver_in es d" and "is_dirname v (dv_dir d)" and "\<forall>n. al n" and "sane_alloc sal"
    and "length (ebuf (length (dv_elf d))) = length (dv_elf d)"
  shows "drv_start al sal ebuf (image_fs base junk es) v s = Inl OutOfBounds"
  using drv_start_up_to_load [OF assms(1-5), of ebuf base s] assms(6) by (auto simp: drv_process_def Let_def)

section \<open>A driver\<close>

definition demo_conf :: "citem list" where
  "demo_conf = [CSection (bytes ''gen''), CEntry (bytes ''name'') [] [] (DString (bytes ''fat'')),
     CEntry (bytes ''vers'') [] [] (DString (bytes ''1'')), CEntry (bytes ''execfp'') [] [] (DString (bytes ''x'')),
     CSection (bytes ''custom''), CEntry (bytes ''fstype'') [] [] (DString (bytes ''fat32''))]"

definition demo_drv :: driver where
  "demo_drv = \<lparr>dv_dir = bytes ''fat.drv'', dv_conf = demo_conf, dv_name = bytes ''fat'', dv_vers = bytes ''1'',
     dv_exec = bytes ''x'', dv_fstype = bytes ''fat32'', dv_elf = sample_elf, dv_fns = [demo_fn], dv_mounts = demo_fs_items\<rparr>"

definition demo_tree :: "fsnode list" where
  "demo_tree = [FDir (bytes ''drv'') [FDir (bytes ''fs'') [FDir (bytes ''fat.drv'')
       [FFile (bytes ''conf.cfg'') (conf_text demo_conf), FFile (bytes ''x'') sample_elf,
        FFile (bytes ''fn.rap'') (table_text [demo_fn])]]],
     FDir (bytes ''etc'') [FFile (bytes ''fs.cfg'') (conf_text demo_fs_items)]]"

lemma demo_sizes:
  "length (conf_text demo_conf) < 100" "length (table_text [demo_fn]) < 100" "length (conf_text demo_fs_items) < 100"
  "length sample_elf = 52"
  by (simp_all add: demo_conf_def conf_text_def demo_fn_def table_text_def func_text_def params_text_def radix.simps
      demo_fs_items_def sample_elf_def ELF_MAGIC_def)

lemma demo_image_ok: "image_ok (\<lambda>_. 0) demo_tree"
proof -
  have "length (genfs_image (\<lambda>_. 0) demo_tree) < 2 ^ 32"
    using demo_sizes by (simp add: length_image demo_tree_def)
  then show ?thesis
    by (simp add: image_ok_def demo_tree_def tree_ok_def RivFsRoundtrip.name_ok_def SLASH_def)
qed

lemma demo_conf_ok: "conf_small demo_conf" "conf_small demo_fs_items" "list_all krfunc_ok [demo_fn]"
  using demo_sizes
  by (simp_all add: conf_small_def demo_conf_def demo_fs_items_def conf_isIdent_def conf_isWhitespace_def isalpha_def isdigit_def
      krfunc_ok_def demo_fn_def func_ok_def param_ok_def)

lemma demo_driver_in: "driver_in demo_tree demo_drv"
proof -
  have "conf_says demo_conf ''gen.name'' (bytes ''fat'')" "conf_says demo_conf ''gen.vers'' (bytes ''1'')"
    "conf_says demo_conf ''gen.execfp'' (bytes ''x'')" "conf_says demo_conf ''custom.fstype'' (bytes ''fat32'')"
    by (simp_all add: conf_says_def demo_conf_def)
  moreover have "lookup_path demo_tree (drv_dir (bytes ''fat.drv'') @ [bytes ''conf.cfg'']) = Some (conf_text demo_conf)"
    "lookup_path demo_tree (drv_dir (bytes ''fat.drv'') @ [bytes ''x'']) = Some sample_elf"
    "lookup_path demo_tree (drv_dir (bytes ''fat.drv'') @ [bytes ''fn.rap'']) = Some (table_text [demo_fn])"
    "lookup_path demo_tree [bytes ''etc'', bytes ''fs.cfg''] = Some (conf_text demo_fs_items)"
    by (simp_all add: demo_tree_def drv_dir_def)
  moreover have "path_name_ok (bytes ''fat.drv'')" "path_name_ok (bytes ''x'')"
    by (simp_all add: RivFsRoundtrip.name_ok_def SLASH_def)
  ultimately show ?thesis
    unfolding driver_in_def demo_drv_def driver.simps using demo_conf_ok demo_sizes by simp
qed

definition demo_dirname :: sview where "demo_dirname = sv (bytes ''fat.drv'') 7"

lemma demo_is_dirname: "is_dirname demo_dirname (dv_dir demo_drv)"
  by (simp add: is_dirname_def demo_dirname_def demo_drv_def sv_valid_def sv_bytes_def RivFsRoundtrip.name_ok_def SLASH_def)

lemma demo_drives:
  "drives_of (map_of (conf_entries [] demo_fs_items)) (filter is_drive_section (conf_sections demo_fs_items)) =
     Inr [\<lparr>dr_id = 0, dr_fsName = bytes ''fat32'' @ [0]\<rparr>]"
  by (simp add: demo_fs_items_def is_drive_section_def drive_of_def sv_bytes_def)

definition demo_start :: rstate where
  "demo_start = \<lparr>rs_kernel = kernel1, rs_drives = kvec_new (\<lambda>_. True) SIZEOF_DRIVEENTRY\<rparr>"

text \<open>A heap with one byte to spare behind the executable.\<close>

definition demo_heap :: kheap where "demo_heap = heap_init 0x100000 0x100047"

lemma demo_heap_alloc:
  "heap_inv demo_heap" "sane_size demo_heap (word_of_nat 52)"
  "\<exists>h'. kalloc demo_heap (word_of_nat 52) = Inr (0x100012, h') \<and> heap_room h' 0x100012 = 53"
  using heap_init_inv [of "0x100000" "0x100047"]
  by (simp_all add: demo_heap_def sane_size_def heap_init_def kalloc_def HEAPBLOCK_SIZE_def heap_room_def hb_payload_def)

theorem ramfs_starts_driver_witness:
  "\<exists>dr p k. drv_start (\<lambda>_. True) zeros (\<lambda>n. zeros (n + 1)) (image_fs 0 (\<lambda>_. 0) demo_tree) demo_dirname demo_start =
      Inr \<lparr>rs_kernel = k, rs_drives = dr\<rparr> \<and> processes k = [p0, p] \<and> pname p = bytes ''__DriverSystem_Fs_fat'' \<and>
      kernel_array (\<lambda>_. True) SIZEOF_DRIVEENTRY dr [\<lparr>dr_id = 0, dr_fsName = bytes ''fat32'' @ [0]\<rparr>]"
proof -
  let ?e = "sample_elf @ [0]"
  obtain m where m: "createAddressSpace (ks_mmu kernel1) = Inr (0x120000, m)"
    by (rule kernel1_space)
  have hdr: "elf_phoff ?e = Inr 52" "elf_phnum ?e = Inr 0" "elf_phentsize ?e = Inr 0"
    "elf_programEntry ?e = Inr 0x08048054" "elf_isValid ?e = Inr True"
    by code_simp+
  obtain p k where r: "elf_load (bytes ''/drv/fs/'' @ bytes ''fat.drv'' @ SLASH # bytes ''x'') ?e kernel1
      (bytes ''__DriverSystem_Fs_'' @ bytes ''fat'') Kernel = Inr (p, k)"
    using m hdr by (simp add: elf_load_def getNewPid_def Let_def)
  define eb where "eb = (\<lambda>n. zeros (n + 1))"
  have e: "loaded_elf eb demo_drv = ?e" and len: "length (eb 52) = 53"
    by (simp_all add: demo_drv_def zeros_def loaded_elf_def eb_def)
  have load: "elf_load (bytes ''/drv/fs/'' @ dv_dir demo_drv @ SLASH # dv_exec demo_drv) ?e
      (rs_kernel demo_start) (bytes ''__DriverSystem_Fs_'' @ dv_name demo_drv) Kernel = Inr (p, k)"
    using r by (simp add: demo_drv_def demo_start_def)
  have n: "52 = length (dv_elf demo_drv)"
    using demo_sizes by (simp add: demo_drv_def)
  obtain h' where h': "kalloc demo_heap (word_of_nat 52) = Inr (0x100012, h')" "heap_room h' 0x100012 = 53"
    using demo_heap_alloc(3) by blast
  have arr: "kernel_array (\<lambda>_. True) SIZEOF_DRIVEENTRY (rs_drives demo_start) []"
    unfolding demo_start_def rstate.simps by (intro kernel_array_new) (simp_all add: SIZEOF_DRIVEENTRY_def)
  have drives: "drives_of (map_of (conf_entries [] (dv_mounts demo_drv)))
      (filter is_drive_section (conf_sections (dv_mounts demo_drv))) = Inr [\<lparr>dr_id = 0, dr_fsName = bytes ''fat32'' @ [0]\<rparr>]"
    using demo_drives by (simp add: demo_drv_def)
  have triv: "\<forall>n. (\<lambda>_. True) (n :: u32)" "(0x100012 :: u32) \<noteq> 0" "length ([] :: drive_entry list) \<le> 2 ^ 25"
    by simp_all
  note t = ramfs_starts_driver [where ebuf = eb and base = 0 and n = 52, OF demo_image_ok demo_driver_in demo_is_dirname triv(1)
      sample_inv(1) demo_heap_alloc(1) n demo_heap_alloc(2) h'(1) triv(2) len [folded h'(2)] arr triv(3) drives]
  obtain dr where dr: "kernel_array (\<lambda>_. True) SIZEOF_DRIVEENTRY dr ([] @ [\<lparr>dr_id = 0, dr_fsName = bytes ''fat32'' @ [0]\<rparr>])"
      "drv_start (\<lambda>_. True) zeros eb (image_fs 0 (\<lambda>_. 0) demo_tree) demo_dirname demo_start =
        (if heap_room h' 0x100012 = 52 then Inl OutOfBounds
         else bindE (elf_isValid (loaded_elf eb demo_drv)) (\<lambda>ok.
           if \<not> ok then Inl (Panic ''Executable file in driver was incorrect (is not a valid ELF!)'')
           else bindE (elf_load (bytes ''/drv/fs/'' @ dv_dir demo_drv @ SLASH # dv_exec demo_drv) (loaded_elf eb demo_drv) (rs_kernel demo_start)
             (bytes ''__DriverSystem_Fs_'' @ dv_name demo_drv) Kernel) (\<lambda>(p, k). Inr \<lparr>rs_kernel = k, rs_drives = dr\<rparr>)))"
    using conjunct1 [OF conjunct2 [OF t]] by blast
  have "drv_start (\<lambda>_. True) zeros eb (image_fs 0 (\<lambda>_. 0) demo_tree) demo_dirname demo_start = Inr \<lparr>rs_kernel = k, rs_drives = dr\<rparr>"
    unfolding dr(2) h'(2) e hdr(5) load by simp
  moreover have "processes k = processes (rs_kernel demo_start) @ [p]" "pname p = bytes ''__DriverSystem_Fs_'' @ dv_name demo_drv"
    using conjunct2 [OF conjunct2 [OF t]] load unfolding e by blast+
  moreover have "processes (rs_kernel demo_start) = [p0]" "bytes ''__DriverSystem_Fs_'' @ dv_name demo_drv = bytes ''__DriverSystem_Fs_fat''"
    by (simp_all add: demo_start_def kernel1_def kernel0_def demo_drv_def)
  ultimately show ?thesis
    using dr(1) by (simp only: eb_def append_Nil append_Cons) blast
qed

theorem ramfs_executable_overflows_witness:
  "drv_start (\<lambda>_. True) zeros zeros (image_fs 0 (\<lambda>_. 0) demo_tree) demo_dirname demo_start = Inl OutOfBounds"
  by (rule ramfs_executable_overflows [OF demo_image_ok demo_driver_in demo_is_dirname _ sample_inv(1)]) (simp_all add: zeros_def)

end
