(* ===== verification/LiveSysc.thy ===== *)
theory LiveSysc
  imports Heap Containers
begin

text \<open>
  The system calls of the drivers that run in the kernel, \<^verbatim>\<open>src/initramfs/sysclayer.cpp\<close>: a driver
  registers a function under a number of the enumeration and every later interrupt with that number is
  handed to it; memory comes from the kernel heap. The registered functions are code of the drivers: the
  parameter \<open>fn\<close> says what a call of the function at an address does to the state. \<open>al\<close> is the
  allocator of the table, and what goes to the serial log is left out.
\<close>

section \<open>The interrupt\<close>

record live_frame =
  lf_eax :: u32
  lf_edi :: u32
  lf_esi :: u32
  lf_edx :: u32

record lstate =
  ls_heap :: kheap
  syscLayerMapping :: "(u32, u32) kmap"

type_synonym live_fn = "u32 \<Rightarrow> u32 \<Rightarrow> u32 \<Rightarrow> u32 \<Rightarrow> lstate \<Rightarrow> (u32 \<times> lstate) exec"

definition REG_SYSCALL :: u32 where "REG_SYSCALL = 0"
definition REG_FS :: u32 where "REG_FS = 1"
definition LIVE_ALLOC :: u32 where "LIVE_ALLOC = 2"
definition LIVE_FREE :: u32 where "LIVE_FREE = 3"
definition KRN_SYSC_END_SPEC :: u32 where "KRN_SYSC_END_SPEC = 4"
definition SIZESPEC :: u32 where "SIZESPEC = 21"

lemmas live_numbers = REG_SYSCALL_def REG_FS_def LIVE_ALLOC_def LIVE_FREE_def KRN_SYSC_END_SPEC_def SIZESPEC_def

definition SIZEOF_SYSCENTRY :: u32 where "SIZEOF_SYSCENTRY = 8"

definition live_register :: "(u32 \<Rightarrow> bool) \<Rightarrow> u32 \<Rightarrow> u32 \<Rightarrow> lstate \<Rightarrow> lstate exec" where
  "live_register al n addr s =
     (if n \<ge> SIZESPEC \<or> n < KRN_SYSC_END_SPEC then Inr s
      else bindE (kmap_exists (syscLayerMapping s) n) (\<lambda>b.
        bindE (if b then kmap_rmkey (syscLayerMapping s) n else Inr (syscLayerMapping s)) (\<lambda>m.
        bindE (kmap_insert al SIZEOF_SYSCENTRY m n addr) (\<lambda>m'.
        Inr (s\<lparr>syscLayerMapping := m'\<rparr>)))))"

definition liveSyscHandlr :: "(u32 \<Rightarrow> bool) \<Rightarrow> live_fn \<Rightarrow> live_frame \<Rightarrow> lstate \<Rightarrow> (u32 \<times> lstate) exec" where
  "liveSyscHandlr al fn f s =
     (if lf_eax f = REG_SYSCALL then bindE (live_register al (lf_edi f) (lf_esi f) s) (\<lambda>s'. Inr (0, s'))
      else if lf_eax f = LIVE_ALLOC then bindE (kalloc (ls_heap s) (lf_edi f)) (\<lambda>(p, h). Inr (p, s\<lparr>ls_heap := h\<rparr>))
      else if lf_eax f = LIVE_FREE then bindE (kfree (ls_heap s) (lf_edi f)) (\<lambda>h. Inr (0, s\<lparr>ls_heap := h\<rparr>))
      else if lf_eax f \<ge> SIZESPEC then Inl (Panic ''Invalid syscall in driver'')
      else bindE (kmap_get (syscLayerMapping s) (lf_eax f)) (\<lambda>addr. fn addr (lf_edi f) (lf_esi f) (lf_edx f) s))"

text \<open>\<^verbatim>\<open>liveSyscall3\<close> raises the interrupt with its arguments in the registers.\<close>

definition liveSyscall3 :: "(u32 \<Rightarrow> bool) \<Rightarrow> live_fn \<Rightarrow> u32 \<Rightarrow> u32 \<Rightarrow> u32 \<Rightarrow> u32 \<Rightarrow> lstate \<Rightarrow> (u32 \<times> lstate) exec" where
  "liveSyscall3 al fn n a b c s = liveSyscHandlr al fn \<lparr>lf_eax = n, lf_edi = a, lf_esi = b, lf_edx = c\<rparr> s"

text \<open>The two calls at the end of \<^verbatim>\<open>InitRamFs::init\<close>, which try the interrupt.\<close>

definition live_selftest :: "(u32 \<Rightarrow> bool) \<Rightarrow> live_fn \<Rightarrow> u32 \<Rightarrow> lstate \<Rightarrow> lstate exec" where
  "live_selftest al fn tinyStub s =
     bindE (liveSyscall3 al fn 0 4 tinyStub 0 s) (\<lambda>(_, s1).
     bindE (liveSyscall3 al fn 4 0xDEADBEEF 0xAF 0xEAF s1) (\<lambda>(_, s2). Inr s2))"

definition live_init :: "(u32 \<Rightarrow> bool) \<Rightarrow> kheap \<Rightarrow> lstate" where
  "live_init al h = \<lparr>ls_heap = h, syscLayerMapping = kvec_new al SIZEOF_SYSCENTRY\<rparr>"

section \<open>The table as a function\<close>

definition live_ok :: "u32 \<Rightarrow> bool" where
  "live_ok n \<longleftrightarrow> KRN_SYSC_END_SPEC \<le> n \<and> n < SIZESPEC"

definition live_table :: "(u32 \<Rightarrow> bool) \<Rightarrow> lstate \<Rightarrow> (u32 \<rightharpoonup> u32) \<Rightarrow> bool" where
  "live_table al s M \<longleftrightarrow> kmap_is al SIZEOF_SYSCENTRY (syscLayerMapping s) M \<and> dom M \<subseteq> Collect live_ok"

lemma live_table_init: "\<forall>n. al n \<Longrightarrow> live_table al (live_init al h) Map.empty"
  using kernel_array_new [of al SIZEOF_SYSCENTRY]
  by (auto simp: live_table_def live_init_def kmap_is_def SIZEOF_SYSCENTRY_def intro!: exI [of _ "[]"])

lemma live_ok_less: "live_ok n \<Longrightarrow> unat n < 21"
  by (simp add: live_ok_def SIZESPEC_def word_less_nat_alt)

lemma live_dom_small:
  assumes "live_table al s M"
  shows "card (dom M) < 2 ^ 26"
proof -
  have "dom M \<subseteq> word_of_nat ` {..<21}"
  proof
    fix n assume "n \<in> dom M"
    then have "unat n < 21"
      using assms by (auto simp: live_table_def intro: live_ok_less)
    then show "n \<in> word_of_nat ` {..<21}"
      by (intro image_eqI [of _ _ "unat n"]) simp_all
  qed
  then have "card (dom M) \<le> card (word_of_nat ` {..<21} :: u32 set)"
    by (intro card_mono) simp_all
  also have "\<dots> \<le> 21"
    using card_image_le [of "{..<21 :: nat}" "word_of_nat :: nat \<Rightarrow> u32"] by simp
  finally show ?thesis
    by simp
qed

lemma live_register_new:
  assumes "live_table al s M" and "M n = None"
  shows "\<exists>s'. live_register al n addr s = Inr s' \<and> ls_heap s' = ls_heap s \<and>
    live_table al s' (if live_ok n then M(n \<mapsto> addr) else M)"
proof (cases "live_ok n")
  case True
  obtain m' where "kmap_insert al SIZEOF_SYSCENTRY (syscLayerMapping s) n addr = Inr m'"
      "kmap_is al SIZEOF_SYSCENTRY m' (M(n \<mapsto> addr))"
    using km.put_law [OF _ assms(2) live_dom_small [OF assms(1)]] assms(1) unfolding live_table_def by blast
  moreover have "kmap_exists (syscLayerMapping s) n = Inr False"
    using km.has_law assms unfolding live_table_def by fastforce
  ultimately show ?thesis
    using True assms(1) by (auto simp: live_register_def live_ok_def live_table_def not_le not_less)
next
  case False
  then show ?thesis
    using assms(1) by (auto simp: live_register_def live_ok_def)
qed

lemma live_register_again:
  assumes "live_table al s M" and "M n = Some a" and "kv_len (syscLayerMapping s) < kv_capacity (syscLayerMapping s)"
  shows "\<exists>s'. live_register al n addr s = Inr s' \<and> ls_heap s' = ls_heap s \<and> live_table al s' (M(n \<mapsto> addr))"
proof -
  have ok: "live_ok n"
    using assms(1,2) by (auto simp: live_table_def)
  obtain m where m: "kmap_rmkey (syscLayerMapping s) n = Inr m" "kmap_is al SIZEOF_SYSCENTRY m (M(n := None))"
    using kmap_rmkey_law [OF _ live_dom_small [OF assms(1)] assms(3)] assms(1) unfolding live_table_def by blast
  have "dom (M(n := None)) \<subseteq> Collect live_ok"
    using assms(1) by (auto simp: live_table_def)
  then have "card (dom (M(n := None))) < 2 ^ 26"
    using m(2) by (intro live_dom_small [of al "s\<lparr>syscLayerMapping := m\<rparr>"]) (simp add: live_table_def)
  then obtain m' where "kmap_insert al SIZEOF_SYSCENTRY m n addr = Inr m'" "kmap_is al SIZEOF_SYSCENTRY m' (M(n \<mapsto> addr))"
    using km.put_law [OF m(2), of n addr] by auto
  moreover have "kmap_exists (syscLayerMapping s) n = Inr True"
    using km.has_law assms(1,2) unfolding live_table_def by fastforce
  ultimately show ?thesis
    using ok m(1) assms(1) by (auto simp: live_register_def live_ok_def live_table_def not_le not_less)
qed

lemma live_call:
  assumes "live_table al s M" and "lf_eax f \<notin> {REG_SYSCALL, LIVE_ALLOC, LIVE_FREE}"
  shows "liveSyscHandlr al fn f s = (case M (lf_eax f) of
      Some addr \<Rightarrow> fn addr (lf_edi f) (lf_esi f) (lf_edx f) s
    | None \<Rightarrow> Inl (Panic (if lf_eax f \<ge> SIZESPEC then ''Invalid syscall in driver'' else ''Called val() on an err value'')))"
proof -
  have "M n = None" if "n \<ge> SIZESPEC" for n
    using assms(1) live_ok_less [of n] that by (fastforce simp: live_table_def live_ok_def)
  moreover have "kmap_get (syscLayerMapping s) (lf_eax f) =
      (case M (lf_eax f) of None \<Rightarrow> Inl (Panic ''Called val() on an err value'') | Some v \<Rightarrow> Inr v)"
    using assms(1) unfolding live_table_def by (intro km.lookup_law) blast
  ultimately show ?thesis
    using assms(2) by (cases "SIZESPEC \<le> lf_eax f") (auto simp: liveSyscHandlr_def split: option.split)
qed

section \<open>Histories of registrations\<close>

fun live_registers :: "(u32 \<Rightarrow> bool) \<Rightarrow> live_fn \<Rightarrow> (u32 \<times> u32) list \<Rightarrow> lstate \<Rightarrow> lstate exec" where
  "live_registers al fn [] s = Inr s"
| "live_registers al fn ((n, addr) # rs) s =
     bindE (liveSyscall3 al fn REG_SYSCALL n addr 0 s) (\<lambda>(_, s'). live_registers al fn rs s')"

lemma live_registers_eq:
  "live_table al s M \<Longrightarrow> distinct (List.map fst rs) \<Longrightarrow> \<forall>n \<in> fst ` set rs. M n = None \<Longrightarrow>
   \<exists>s'. live_registers al fn rs s = Inr s' \<and> ls_heap s' = ls_heap s \<and>
     live_table al s' (M ++ map_of (filter (\<lambda>r. live_ok (fst r)) rs))"
proof (induction rs arbitrary: s M)
  case (Cons r rs)
  obtain n addr where r: "r = (n, addr)"
    by force
  obtain s1 where s1: "live_register al n addr s = Inr s1" "ls_heap s1 = ls_heap s"
      "live_table al s1 (if live_ok n then M(n \<mapsto> addr) else M)"
    using live_register_new [OF Cons.prems(1), of n addr] Cons.prems(3) r by auto
  have "n \<notin> fst ` set rs"
    using Cons.prems(2) r by (auto simp: image_iff)
  then have "\<forall>k \<in> fst ` set rs. (if live_ok n then M(n \<mapsto> addr) else M) k = None"
    using Cons.prems(3) by auto
  then obtain s2 where s2: "live_registers al fn rs s1 = Inr s2" "ls_heap s2 = ls_heap s1"
      "live_table al s2 ((if live_ok n then M(n \<mapsto> addr) else M) ++ map_of (filter (\<lambda>r. live_ok (fst r)) rs))"
    using Cons.IH [OF s1(3)] Cons.prems(2) by auto
  have "map_of (filter (\<lambda>r. live_ok (fst r)) rs) n = None"
    using \<open>n \<notin> fst ` set rs\<close> by (auto simp: map_of_eq_None_iff)
  then have "(if live_ok n then M(n \<mapsto> addr) else M) ++ map_of (filter (\<lambda>r. live_ok (fst r)) rs) =
      M ++ map_of (filter (\<lambda>r. live_ok (fst r)) (r # rs))"
    by (auto simp: r map_add_def fun_eq_iff split: option.split)
  then show ?case
    using s1(1,2) s2 by (auto simp: r liveSyscall3_def liveSyscHandlr_def)
qed simp

section \<open>What the system calls of the drivers promise\<close>

text \<open>C15: After any registrations of different numbers, a call with a number that is neither of the
  three the kernel answers itself runs the function registered under it with the arguments of the call;
  the numbers of the kernel and those behind the enumeration are never registered, and a number without a
  function panics the kernel.\<close>

theorem live_syscalls_dispatch:
  assumes "\<forall>n. al n" and "distinct (List.map fst rs)"
  shows "\<exists>s. live_registers al fn rs (live_init al h) = Inr s \<and> ls_heap s = h \<and>
    (\<forall>f. lf_eax f \<notin> {REG_SYSCALL, LIVE_ALLOC, LIVE_FREE} \<longrightarrow>
      liveSyscHandlr al fn f s = (case map_of (filter (\<lambda>r. live_ok (fst r)) rs) (lf_eax f) of
        Some addr \<Rightarrow> fn addr (lf_edi f) (lf_esi f) (lf_edx f) s
      | None \<Rightarrow> Inl (Panic (if lf_eax f \<ge> SIZESPEC then ''Invalid syscall in driver''
                            else ''Called val() on an err value''))))"
  using live_registers_eq [OF live_table_init [OF assms(1)] assms(2), of fn h] live_call
  by (fastforce simp: live_init_def)

theorem live_syscalls_dispatch_witness:
  "\<exists>s. live_registers (\<lambda>_. True) (\<lambda>a x y z s. Inr (a + x, s)) [(5, 100), (1, 200), (21, 300)]
       (live_init (\<lambda>_. True) (heap_init 0x100000 0x200000)) = Inr s \<and>
     liveSyscall3 (\<lambda>_. True) (\<lambda>a x y z s. Inr (a + x, s)) 5 7 0 0 s = Inr (107, s) \<and>
     liveSyscall3 (\<lambda>_. True) (\<lambda>a x y z s. Inr (a + x, s)) 1 7 0 0 s = Inl (Panic ''Called val() on an err value'')"
proof -
  have d: "distinct (List.map fst [(5 :: u32, 100 :: u32), (1, 200), (21, 300)])" and al: "\<forall>n :: u32. (\<lambda>_. True) n"
    by simp_all
  obtain s where s: "live_registers (\<lambda>_. True) (\<lambda>a x y z s. Inr (a + x, s)) [(5, 100), (1, 200), (21, 300)]
       (live_init (\<lambda>_. True) (heap_init 0x100000 0x200000)) = Inr s"
      "\<And>f. lf_eax f \<notin> {REG_SYSCALL, LIVE_ALLOC, LIVE_FREE} \<Longrightarrow>
        liveSyscHandlr (\<lambda>_. True) (\<lambda>a x y z s. Inr (a + x, s)) f s =
        (case map_of (filter (\<lambda>r. live_ok (fst r)) [(5 :: u32, 100 :: u32), (1, 200), (21, 300)]) (lf_eax f) of
          Some addr \<Rightarrow> Inr (addr + lf_edi f, s)
        | None \<Rightarrow> Inl (Panic (if lf_eax f \<ge> SIZESPEC then ''Invalid syscall in driver''
                              else ''Called val() on an err value'')))"
    using live_syscalls_dispatch [OF al d, of "\<lambda>a x y z s. Inr (a + x, s)" "heap_init 0x100000 0x200000"] by blast
  note call = s(2) [of "\<lparr>lf_eax = 5, lf_edi = 7, lf_esi = 0, lf_edx = 0\<rparr>"]
    s(2) [of "\<lparr>lf_eax = 1, lf_edi = 7, lf_esi = 0, lf_edx = 0\<rparr>"]
  show ?thesis
    using s(1) call by (intro exI [of _ s] conjI) (simp_all only: liveSyscall3_def, simp_all add: live_numbers live_ok_def word_le_nat_alt)
qed

text \<open>A driver that registers a number again replaces its function, except when the table is full: with
  exactly as many functions as the table has room for the removal of the old one reads behind the table.\<close>

theorem live_register_replaces:
  assumes "live_table al s M" and "M n = Some old"
  shows "if kv_len (syscLayerMapping s) < kv_capacity (syscLayerMapping s)
    then \<exists>s'. liveSyscall3 al fn REG_SYSCALL n addr 0 s = Inr (0, s') \<and> live_table al s' (M(n \<mapsto> addr)) \<and> ls_heap s' = ls_heap s
    else liveSyscall3 al fn REG_SYSCALL n addr 0 s = Inl OutOfBounds"
proof (cases "kv_len (syscLayerMapping s) < kv_capacity (syscLayerMapping s)")
  case True
  then show ?thesis
    using live_register_again [OF assms True, of addr] by (auto simp: liveSyscall3_def liveSyscHandlr_def)
next
  case False
  have "kmap_rmkey (syscLayerMapping s) n = Inl OutOfBounds"
    using assms False live_dom_small [OF assms(1)] unfolding live_table_def by (blast intro: kmap_rmkey_full)
  moreover have "live_ok n" "kmap_exists (syscLayerMapping s) n = Inr True"
    using km.has_law assms unfolding live_table_def by (auto, fastforce)
  ultimately show ?thesis
    using False by (auto simp: liveSyscall3_def liveSyscHandlr_def live_register_def live_ok_def not_le not_less)
qed

text \<open>A table of the size a vector begins with, full.\<close>

definition full_table :: lstate where
  "full_table = \<lparr>ls_heap = heap_init 0x100000 0x200000,
     syscLayerMapping = \<lparr>kv_arr = Some (List.map Some [(5, 1), (6, 2), (7, 3), (8, 4), (9, 5)]), kv_len = 5, kv_capacity = 5\<rparr>\<rparr>"

theorem live_register_replaces_witness:
  "liveSyscall3 (\<lambda>_. True) (\<lambda>a x y z s. Inr (a, s)) REG_SYSCALL 7 6 0 full_table = Inl OutOfBounds"
proof -
  let ?ps = "[(5, 1), (6, 2), (7, 3), (8, 4), (9, 5)] :: (u32 \<times> u32) list"
  have "kernel_array (\<lambda>_. True) SIZEOF_SYSCENTRY (syscLayerMapping full_table) ?ps"
    by (simp add: kernel_array_def kvec_is_def full_table_def SIZEOF_SYSCENTRY_def)
  then have "kmap_is (\<lambda>_. True) SIZEOF_SYSCENTRY (syscLayerMapping full_table) (map_of ?ps)"
    unfolding kmap_is_def by (intro exI [of _ ?ps]) simp
  then have t: "live_table (\<lambda>_. True) full_table (map_of ?ps)"
    by (auto simp: live_table_def live_ok_def KRN_SYSC_END_SPEC_def SIZESPEC_def split: if_splits)
  have "map_of ?ps 7 = Some 3"
    by simp
  from live_register_replaces [OF t this, of "\<lambda>a x y z s. Inr (a, s)" 6] show ?thesis
    by (simp add: full_table_def)
qed

text \<open>The memory calls of a driver are the kernel heap: an allocation in a well-formed heap answers null or a
  block that was free, and giving a block back removes it and no other; the table stays as it is.\<close>

theorem live_memory_is_the_heap:
  assumes "heap_inv (ls_heap s)" and "sane_size (ls_heap s) n"
  shows "\<exists>p s1. liveSyscall3 al fn LIVE_ALLOC n b c s = Inr (p, s1) \<and> heap_inv (ls_heap s1) \<and>
    syscLayerMapping s1 = syscLayerMapping s \<and> (p = 0 \<longrightarrow> s1 = s) \<and>
    (p \<noteq> 0 \<longrightarrow> live (ls_heap s) p = None \<and> (\<exists>m \<ge> n. live (ls_heap s1) = (live (ls_heap s))(p \<mapsto> m)) \<and>
      (\<exists>s2. liveSyscall3 al fn LIVE_FREE p b c s1 = Inr (0, s2) \<and> heap_inv (ls_heap s2) \<and>
        live (ls_heap s2) = live (ls_heap s) \<and> syscLayerMapping s2 = syscLayerMapping s))"
proof -
  obtain p h where p: "kalloc (ls_heap s) n = Inr (p, h)" "heap_inv h" "p = 0 \<longrightarrow> h = ls_heap s"
      "p \<noteq> 0 \<longrightarrow> live (ls_heap s) p = None \<and> (\<exists>m \<ge> n. live h = (live (ls_heap s))(p \<mapsto> m))"
    using kh.alloc_law [OF assms] by blast
  then have a: "liveSyscall3 al fn LIVE_ALLOC n b c s = Inr (p, s\<lparr>ls_heap := h\<rparr>)"
    by (simp add: liveSyscall3_def liveSyscHandlr_def live_numbers)
  have f: "\<exists>h2. kfree h p = Inr h2 \<and> heap_inv h2 \<and> live h2 = live (ls_heap s)" if "p \<noteq> 0"
    using kh.scratch [OF assms p(1) that] .
  show ?thesis
    using a p f by (intro exI [of _ p] exI [of _ "s\<lparr>ls_heap := h\<rparr>"])
      (auto simp: liveSyscall3_def liveSyscHandlr_def live_numbers)
qed

theorem live_memory_is_the_heap_witness:
  "\<exists>p s1. liveSyscall3 (\<lambda>_. True) (\<lambda>a x y z s. Inr (a, s)) LIVE_ALLOC 16 0 0 full_table = Inr (p, s1) \<and>
     heap_inv (ls_heap s1)"
proof -
  have "heap_inv (ls_heap full_table)" "sane_size (ls_heap full_table) 16"
    by (simp_all add: full_table_def heap_init_inv) (simp add: sane_size_def heap_init_def)
  from live_memory_is_the_heap [OF this, of "\<lambda>_. True" "\<lambda>a x y z s. Inr (a, s)" 0 0] show ?thesis
    by blast
qed

section \<open>The test at the end of the start of the drivers\<close>

text \<open>It registers a function under the first free number and calls it.\<close>

lemma live_selftest_eq:
  assumes "\<forall>n. al n"
  shows "\<exists>s. live_selftest al fn tinyStub (live_init al h) =
      bindE (fn tinyStub 0xDEADBEEF 0xAF 0xEAF s) (\<lambda>(_, s2). Inr s2) \<and> live_table al s [4 \<mapsto> tinyStub] \<and> ls_heap s = h"
proof -
  obtain s where s: "live_register al 4 tinyStub (live_init al h) = Inr s" "ls_heap s = h" "live_table al s [4 \<mapsto> tinyStub]"
    using live_register_new [OF live_table_init [OF assms], of 4 tinyStub h] by (auto simp: live_ok_def live_numbers live_init_def)
  have "liveSyscHandlr al fn \<lparr>lf_eax = 4, lf_edi = 0xDEADBEEF, lf_esi = 0xAF, lf_edx = 0xEAF\<rparr> s =
      fn tinyStub 0xDEADBEEF 0xAF 0xEAF s"
    using live_call [OF s(3), of "\<lparr>lf_eax = 4, lf_edi = 0xDEADBEEF, lf_esi = 0xAF, lf_edx = 0xEAF\<rparr>" fn]
    by (simp add: live_numbers)
  moreover have "liveSyscHandlr al fn \<lparr>lf_eax = 0, lf_edi = 4, lf_esi = tinyStub, lf_edx = 0\<rparr> (live_init al h) = Inr (0, s)"
    using s(1) by (simp add: liveSyscHandlr_def live_numbers)
  ultimately show ?thesis
    using s(2,3) by (auto simp: live_selftest_def liveSyscall3_def)
qed

end
