(* ===== verification/Ata.thy ===== *)
theory Ata
  imports Fat32 Heap
begin

text \<open>
  The disk driver of the kernel, \<^verbatim>\<open>src/drivers/storage/ATA_PIO/ata_pio.hpp\<close>, and the layer
  \<^verbatim>\<open>src/drivers/storage/storage.hpp\<close> over it. The drive is hardware: \<open>io\<close> says what the instructions of
  \<^verbatim>\<open>src/gen/io.hpp\<close> do to a state of the hardware and what they read, and \<open>ata_drive\<close> states what the
  standard documents of a drive behind them. The loops that wait for the drive have fuel. Buffers are
  their bytes; a word of the data port is stored with its low byte first.
\<close>

section \<open>The driver\<close>

record 'h io =
  inb :: "u16 \<Rightarrow> 'h \<Rightarrow> u8 \<times> 'h"
  inw :: "u16 \<Rightarrow> 'h \<Rightarrow> u16 \<times> 'h"
  outb :: "u16 \<Rightarrow> u8 \<Rightarrow> 'h \<Rightarrow> 'h"
  outw :: "u16 \<Rightarrow> u16 \<Rightarrow> 'h \<Rightarrow> 'h"

definition DATA_PORT :: u16 where "DATA_PORT = 0x1F0"
definition SECTOR_COUNT_PORT :: u16 where "SECTOR_COUNT_PORT = 0x1F2"
definition LBA_LO_PORT :: u16 where "LBA_LO_PORT = 0x1F3"
definition LBA_MI_PORT :: u16 where "LBA_MI_PORT = 0x1F4"
definition LBA_HI_PORT :: u16 where "LBA_HI_PORT = 0x1F5"
definition DRIVE_SELECT_PORT :: u16 where "DRIVE_SELECT_PORT = 0x1F6"
definition STATUS_PORT :: u16 where "STATUS_PORT = 0x1F7"
definition DRIVE_SELECT_MASTERDRIVE :: u8 where "DRIVE_SELECT_MASTERDRIVE = 0xE0"
definition DRIVE_SELECT_SLAVEDRIVE :: u8 where "DRIVE_SELECT_SLAVEDRIVE = 0xF0"

lemmas ata_ports = DATA_PORT_def SECTOR_COUNT_PORT_def LBA_LO_PORT_def LBA_MI_PORT_def LBA_HI_PORT_def
  DRIVE_SELECT_PORT_def STATUS_PORT_def

text \<open>Selecting the drive and the sector and giving the command.\<close>

definition ata_delay :: "'h io \<Rightarrow> 'h \<Rightarrow> 'h" where
  "ata_delay io h = snd (inb io STATUS_PORT (snd (inb io STATUS_PORT (snd (inb io STATUS_PORT (snd (inb io STATUS_PORT h)))))))"

definition ata_command :: "'h io \<Rightarrow> u8 \<Rightarrow> u32 \<Rightarrow> u8 \<Rightarrow> 'h \<Rightarrow> 'h" where
  "ata_command io driveSelect sector cmd h =
     (let h1 = ata_delay io (outb io DRIVE_SELECT_PORT (driveSelect OR (ucast (drop_bit 24 sector) AND 0x0F)) h);
          h2 = outb io SECTOR_COUNT_PORT 1 h1;
          h3 = outb io LBA_LO_PORT (ucast (sector AND 0xFF)) h2;
          h4 = outb io LBA_MI_PORT (ucast (drop_bit 8 sector AND 0xFF)) h3;
          h5 = outb io LBA_HI_PORT (ucast (drop_bit 16 sector AND 0xFF)) h4
      in outb io STATUS_PORT cmd h5)"

fun ata_wait_bsy :: "nat \<Rightarrow> 'h io \<Rightarrow> 'h \<Rightarrow> 'h exec" where
  "ata_wait_bsy 0 io h = Inl Hang"
| "ata_wait_bsy (Suc n) io h =
     (let (v, h') = inb io STATUS_PORT h in if v AND 0x80 \<noteq> 0 then ata_wait_bsy n io h' else Inr h')"

fun ata_wait_drq :: "nat \<Rightarrow> 'h io \<Rightarrow> 'h \<Rightarrow> 'h exec" where
  "ata_wait_drq 0 io h = Inl Hang"
| "ata_wait_drq (Suc n) io h =
     (let (v, h') = inb io STATUS_PORT h in if v AND 0x08 = 0 then ata_wait_drq n io h' else Inr h')"

fun ata_in :: "'h io \<Rightarrow> nat \<Rightarrow> nat \<Rightarrow> u8 list \<Rightarrow> 'h \<Rightarrow> (u8 list \<times> 'h) exec" where
  "ata_in io i 0 buf h = Inr (buf, h)"
| "ata_in io i (Suc k) buf h =
     (let (w, h') = inw io DATA_PORT h in
      bindE (write_at buf (2 * i) (bytes16 w)) (\<lambda>buf'. ata_in io (Suc i) k buf' h'))"

text \<open>The length counts words.\<close>

definition ata_readSector :: "nat \<Rightarrow> 'h io \<Rightarrow> u8 \<Rightarrow> u8 list \<Rightarrow> u32 \<Rightarrow> u32 \<Rightarrow> 'h \<Rightarrow> (u8 list \<times> 'h) exec" where
  "ata_readSector n io driveSelect buf buflen sector h =
     (let (v, h1) = inb io STATUS_PORT (ata_command io driveSelect sector 0x20 h) in
      if v = 0 then Inl (Panic ''Drive did not exist'')
      else bindE (ata_wait_bsy n io h1) (\<lambda>h2. bindE (ata_wait_drq n io h2) (\<lambda>h3.
           ata_in io 0 (min 256 (unat buflen)) buf h3)))"

fun ata_out :: "'h io \<Rightarrow> nat \<Rightarrow> nat \<Rightarrow> u8 list \<Rightarrow> 'h \<Rightarrow> 'h exec" where
  "ata_out io i 0 conts h = Inr h"
| "ata_out io i (Suc k) conts h =
     bindE (rd16 conts (word_of_nat (2 * i))) (\<lambda>w. ata_out io (Suc i) k conts (outw io DATA_PORT w h))"

text \<open>
  Here the length counts bytes: fewer than 512 are put in front of what the sector holds. All of the
  local buffer is overwritten by the read.
\<close>

definition ata_writeSector :: "nat \<Rightarrow> 'h io \<Rightarrow> u8 \<Rightarrow> u8 list \<Rightarrow> u32 \<Rightarrow> u32 \<Rightarrow> 'h \<Rightarrow> 'h exec" where
  "ata_writeSector n io driveSelect conts len sector h =
     bindE (if len < 512
            then bindE (ata_readSector n io driveSelect (replicate 512 0) 512 sector h) (\<lambda>(sectorBuf, h1).
              if unat len \<le> length conts then Inr (take (unat len) conts @ drop (unat len) sectorBuf, h1) else Inl OutOfBounds)
            else Inr (conts, h)) (\<lambda>(src, h1).
     bindE (ata_wait_bsy n io (ata_command io driveSelect sector 0x30 h1)) (\<lambda>h2.
     bindE (ata_wait_drq n io h2) (\<lambda>h3.
     bindE (ata_out io 0 256 src h3) (\<lambda>h4.
     bindE (ata_wait_bsy n io h4) (\<lambda>h5.
     let (v, h6) = inb io STATUS_PORT h5 in
     if v AND 0x01 \<noteq> 0 then Inl (Panic ''ATA write error.'') else Inr h6)))))"

definition ata_selectNextDrive :: "u8 \<Rightarrow> u8" where
  "ata_selectNextDrive driveSelect =
     (if driveSelect = DRIVE_SELECT_SLAVEDRIVE then DRIVE_SELECT_MASTERDRIVE else DRIVE_SELECT_SLAVEDRIVE)"

text \<open>
  The start of the driver: the buffer is allocated on the heap of the kernel, and its pointer is moved by
  one word before it is freed.
\<close>

definition ata_init :: "nat \<Rightarrow> 'h io \<Rightarrow> u8 \<Rightarrow> kheap \<Rightarrow> 'h \<Rightarrow> (u8 \<times> kheap \<times> 'h) exec" where
  "ata_init n io driveSelect heap h =
     bindE (kalloc heap 512) (\<lambda>(p, heap1).
     if p = 0 then Inl OutOfBounds
     else bindE (ata_readSector n io driveSelect (replicate 512 0) 256 0 h) (\<lambda>(buf, h1).
       bindE (streq (drop 2 buf) (bytes ''RivBoot'' @ [0])) (\<lambda>b.
       bindE (kfree heap1 (p + 2)) (\<lambda>heap2.
       Inr (if b then DRIVE_SELECT_SLAVEDRIVE else driveSelect, heap2, h1)))))"

section \<open>What a drive is\<close>

text \<open>
  The registers of the drive, what it is doing and the sectors of the master and of the slave.
  \<open>Sending n ws\<close> is busy for \<open>n\<close> more readings of the status and then hands out the words,
  \<open>Receiving n ws\<close> has taken the words so far, \<open>Storing n\<close> is busy writing them.
\<close>

datatype ata_phase = Idle | Sending nat "u16 list" | Receiving nat "u16 list" | Storing nat

record ata_view =
  av_sel :: u8
  av_count :: u8
  av_lo :: u8
  av_mi :: u8
  av_hi :: u8
  av_phase :: ata_phase
  av_disks :: "bool \<Rightarrow> u32 \<Rightarrow> u8 list"

definition ata_lba :: "ata_view \<Rightarrow> u32" where
  "ata_lba v = ucast (av_lo v) OR push_bit 8 (ucast (av_mi v)) OR push_bit 16 (ucast (av_hi v)) OR
     push_bit 24 (ucast (av_sel v AND 0x0F))"

definition ata_slave :: "ata_view \<Rightarrow> bool" where
  "ata_slave v = bit (av_sel v) 4"

definition sector_words :: "u8 list \<Rightarrow> u16 list" where
  "sector_words s = List.map (\<lambda>i. le16 (s ! (2 * i)) (s ! (2 * i + 1))) [0..<256]"

definition words_bytes :: "u16 list \<Rightarrow> u8 list" where
  "words_bytes ws = concat (List.map bytes16 ws)"

definition put_sector :: "ata_view \<Rightarrow> u8 list \<Rightarrow> bool \<Rightarrow> u32 \<Rightarrow> u8 list" where
  "put_sector v s = (av_disks v)(ata_slave v := (av_disks v (ata_slave v))(ata_lba v := s))"

text \<open>
  A drive that is never busy for more than \<open>N\<close> readings of its status. Only what the registers do while
  no command is running is stated.
\<close>

definition ata_registers :: "'h io \<Rightarrow> ('h \<Rightarrow> ata_view) \<Rightarrow> bool" where
  "ata_registers io view \<longleftrightarrow> (\<forall>h v. av_phase (view h) = Idle \<longrightarrow>
     view (outb io 0x1F6 v h) = (view h)\<lparr>av_sel := v\<rparr> \<and> view (outb io 0x1F2 v h) = (view h)\<lparr>av_count := v\<rparr> \<and>
     view (outb io 0x1F3 v h) = (view h)\<lparr>av_lo := v\<rparr> \<and> view (outb io 0x1F4 v h) = (view h)\<lparr>av_mi := v\<rparr> \<and>
     view (outb io 0x1F5 v h) = (view h)\<lparr>av_hi := v\<rparr> \<and>
     view (snd (inb io 0x1F7 h)) = view h \<and> fst (inb io 0x1F7 h) AND 0x80 = 0 \<and> fst (inb io 0x1F7 h) AND 0x01 = 0)"

definition ata_commands :: "nat \<Rightarrow> 'h io \<Rightarrow> ('h \<Rightarrow> ata_view) \<Rightarrow> bool" where
  "ata_commands N io view \<longleftrightarrow> (\<forall>h. av_phase (view h) = Idle \<and> av_count (view h) = 1 \<longrightarrow>
     (\<exists>n \<le> N. view (outb io 0x1F7 0x20 h) =
        (view h)\<lparr>av_phase := Sending n (sector_words (av_disks (view h) (ata_slave (view h)) (ata_lba (view h))))\<rparr>) \<and>
     (\<exists>n \<le> N. view (outb io 0x1F7 0x30 h) = (view h)\<lparr>av_phase := Receiving n []\<rparr>))"

definition ata_status :: "'h io \<Rightarrow> ('h \<Rightarrow> ata_view) \<Rightarrow> bool" where
  "ata_status io view \<longleftrightarrow> (\<forall>h n ws.
     (av_phase (view h) = Sending (Suc n) ws \<longrightarrow> fst (inb io 0x1F7 h) AND 0x80 \<noteq> 0 \<and>
        view (snd (inb io 0x1F7 h)) = (view h)\<lparr>av_phase := Sending n ws\<rparr>) \<and>
     (av_phase (view h) = Receiving (Suc n) ws \<longrightarrow> fst (inb io 0x1F7 h) AND 0x80 \<noteq> 0 \<and>
        view (snd (inb io 0x1F7 h)) = (view h)\<lparr>av_phase := Receiving n ws\<rparr>) \<and>
     (av_phase (view h) = Sending 0 ws \<or> av_phase (view h) = Receiving 0 ws \<longrightarrow>
        fst (inb io 0x1F7 h) AND 0x80 = 0 \<and> fst (inb io 0x1F7 h) AND 0x08 \<noteq> 0 \<and> view (snd (inb io 0x1F7 h)) = view h) \<and>
     (av_phase (view h) = Storing n \<longrightarrow> fst (inb io 0x1F7 h) AND 0x80 \<noteq> 0 \<and>
        view (snd (inb io 0x1F7 h)) = (view h)\<lparr>av_phase := (case n of 0 \<Rightarrow> Idle | Suc m \<Rightarrow> Storing m)\<rparr>))"

definition ata_data :: "nat \<Rightarrow> 'h io \<Rightarrow> ('h \<Rightarrow> ata_view) \<Rightarrow> bool" where
  "ata_data N io view \<longleftrightarrow> (\<forall>h w ws.
     (av_phase (view h) = Sending 0 (w # ws) \<longrightarrow> fst (inw io 0x1F0 h) = w \<and>
        view (snd (inw io 0x1F0 h)) = (view h)\<lparr>av_phase := (if ws = [] then Idle else Sending 0 ws)\<rparr>) \<and>
     (av_phase (view h) = Receiving 0 ws \<and> length ws < 255 \<longrightarrow>
        view (outw io 0x1F0 w h) = (view h)\<lparr>av_phase := Receiving 0 (ws @ [w])\<rparr>) \<and>
     (av_phase (view h) = Receiving 0 ws \<and> length ws = 255 \<longrightarrow>
        (\<exists>n \<le> N. view (outw io 0x1F0 w h) =
           (view h)\<lparr>av_phase := Storing n, av_disks := put_sector (view h) (words_bytes (ws @ [w]))\<rparr>)))"

definition ata_drive :: "nat \<Rightarrow> 'h io \<Rightarrow> ('h \<Rightarrow> ata_view) \<Rightarrow> bool" where
  "ata_drive N io view \<longleftrightarrow>
     ata_registers io view \<and> ata_commands N io view \<and> ata_status io view \<and> ata_data N io view"

lemma ata_drive_registers:
  assumes "ata_drive N io view" and "av_phase (view h) = Idle"
  shows "view (outb io DRIVE_SELECT_PORT v h) = (view h)\<lparr>av_sel := v\<rparr>" "view (outb io SECTOR_COUNT_PORT v h) = (view h)\<lparr>av_count := v\<rparr>"
    "view (outb io LBA_LO_PORT v h) = (view h)\<lparr>av_lo := v\<rparr>" "view (outb io LBA_MI_PORT v h) = (view h)\<lparr>av_mi := v\<rparr>"
    "view (outb io LBA_HI_PORT v h) = (view h)\<lparr>av_hi := v\<rparr>" "view (snd (inb io STATUS_PORT h)) = view h"
    "fst (inb io STATUS_PORT h) AND 0x80 = 0" "fst (inb io STATUS_PORT h) AND 0x01 = 0"
  using assms by (simp_all add: ata_drive_def ata_registers_def ata_ports)

section \<open>The protocol\<close>

lemma ata_delay_view:
  assumes "ata_drive N io view" and "av_phase (view h) = Idle"
  shows "view (ata_delay io h) = view h"
  using assms by (simp add: ata_delay_def ata_drive_registers(6) [OF assms(1)])

text \<open>The address that the registers hold is the number of the sector without its upper four bits.\<close>

definition drive_ok :: "u8 \<Rightarrow> bool" where
  "drive_ok driveSelect \<longleftrightarrow> driveSelect = DRIVE_SELECT_MASTERDRIVE \<or> driveSelect = DRIVE_SELECT_SLAVEDRIVE"

definition addressed :: "u8 \<Rightarrow> u32 \<Rightarrow> ata_view \<Rightarrow> ata_view" where
  "addressed driveSelect sector v = v\<lparr>av_sel := driveSelect OR (ucast (drop_bit 24 sector) AND 0x0F), av_count := 1,
     av_lo := ucast sector, av_mi := ucast (drop_bit 8 sector), av_hi := ucast (drop_bit 16 sector)\<rparr>"

lemma ata_command_view:
  assumes "ata_drive N io view" and "av_phase (view h) = Idle"
  shows "\<exists>h'. ata_command io driveSelect sector cmd h = outb io STATUS_PORT cmd h' \<and>
    view h' = addressed driveSelect sector (view h)"
  unfolding ata_command_def Let_def
  by (intro exI conjI, rule refl)
    (simp add: assms(2) addressed_def ata_drive_registers [OF assms(1)] ata_delay_view [OF assms(1)])

lemma nibble_mask: "(0x0F :: 'a::len word) = mask 4"
  by (simp add: mask_eq_exp_minus_1)

lemma low_nibble: "bit (0x0F :: 'a::len word) n \<longleftrightarrow> n < 4 \<and> n < LENGTH('a)"
  unfolding nibble_mask by (simp only: bit_mask_iff possible_bit_word) auto

lemma drive_nibble:
  assumes "drive_ok ds"
  shows "(ds OR (x AND 0x0F)) AND 0x0F = x AND (0x0F :: u8)" and "bit (ds OR (x AND 0x0F)) 4 = (ds = DRIVE_SELECT_SLAVEDRIVE)"
proof -
  have "ds AND 0x0F = 0"
    using assms by (auto simp: drive_ok_def DRIVE_SELECT_MASTERDRIVE_def DRIVE_SELECT_SLAVEDRIVE_def)
  then show "(ds OR (x AND 0x0F)) AND 0x0F = x AND (0x0F :: u8)"
    by (simp only: bit.conj_disj_distrib2 and.assoc and.idem) simp
  have "bit (0xF0 :: u8) 4" "\<not> bit (0xE0 :: u8) 4"
    by code_simp+
  then show "bit (ds OR (x AND 0x0F)) 4 = (ds = DRIVE_SELECT_SLAVEDRIVE)"
    using assms by (auto simp: drive_ok_def DRIVE_SELECT_MASTERDRIVE_def DRIVE_SELECT_SLAVEDRIVE_def bit_or_iff bit_and_iff low_nibble)
qed

lemma addressed_sector:
  assumes "drive_ok ds"
  shows "ata_lba (addressed ds sector v) = take_bit 28 sector" and "ata_slave (addressed ds sector v) = (ds = DRIVE_SELECT_SLAVEDRIVE)"
proof -
  have "ata_lba (addressed ds sector v) = ucast (ucast sector :: u8) OR push_bit 8 (ucast (ucast (drop_bit 8 sector) :: u8)) OR
      push_bit 16 (ucast (ucast (drop_bit 16 sector) :: u8)) OR push_bit 24 (ucast (ucast (drop_bit 24 sector) AND 0x0F :: u8))"
    by (simp add: ata_lba_def addressed_def drive_nibble(1) [OF assms])
  also have "\<dots> = take_bit 28 sector"
    unfolding nibble_mask
  proof (rule bit_word_eqI)
    fix n assume "n < LENGTH(32)"
    then consider "n < 8" | "8 \<le> n \<and> n < 16" | "16 \<le> n \<and> n < 24" | "24 \<le> n \<and> n < 32"
      by force
    then show "bit (ucast (ucast sector :: u8) OR push_bit 8 (ucast (ucast (drop_bit 8 sector) :: u8)) OR
      push_bit 16 (ucast (ucast (drop_bit 16 sector) :: u8)) OR
      push_bit 24 (ucast (ucast (drop_bit 24 sector) AND mask 4 :: u8)) :: u32) n = bit (take_bit 28 sector) n"
      by cases (auto simp: bit_simps)
  qed
  finally show "ata_lba (addressed ds sector v) = take_bit 28 sector" .
  show "ata_slave (addressed ds sector v) = (ds = DRIVE_SELECT_SLAVEDRIVE)"
    by (simp add: ata_slave_def addressed_def drive_nibble(2) [OF assms])
qed

lemma ata_drive_commands:
  assumes "ata_drive N io view" and "av_phase (view h) = Idle" and "av_count (view h) = 1"
  shows "\<exists>n \<le> N. view (outb io STATUS_PORT 0x20 h) =
      (view h)\<lparr>av_phase := Sending n (sector_words (av_disks (view h) (ata_slave (view h)) (ata_lba (view h))))\<rparr>"
    and "\<exists>n \<le> N. view (outb io STATUS_PORT 0x30 h) = (view h)\<lparr>av_phase := Receiving n []\<rparr>"
  using assms unfolding ata_drive_def ata_commands_def STATUS_PORT_def by blast+

lemma ata_drive_status:
  assumes "ata_drive N io view"
  shows "av_phase (view h) = Sending (Suc n) ws \<Longrightarrow> fst (inb io STATUS_PORT h) AND 0x80 \<noteq> 0 \<and>
      view (snd (inb io STATUS_PORT h)) = (view h)\<lparr>av_phase := Sending n ws\<rparr>"
    and "av_phase (view h) = Receiving (Suc n) ws \<Longrightarrow> fst (inb io STATUS_PORT h) AND 0x80 \<noteq> 0 \<and>
      view (snd (inb io STATUS_PORT h)) = (view h)\<lparr>av_phase := Receiving n ws\<rparr>"
    and "av_phase (view h) = Sending 0 ws \<or> av_phase (view h) = Receiving 0 ws \<Longrightarrow> fst (inb io STATUS_PORT h) AND 0x80 = 0 \<and>
      fst (inb io STATUS_PORT h) AND 0x08 \<noteq> 0 \<and> view (snd (inb io STATUS_PORT h)) = view h"
    and "av_phase (view h) = Storing n \<Longrightarrow> fst (inb io STATUS_PORT h) AND 0x80 \<noteq> 0 \<and>
      view (snd (inb io STATUS_PORT h)) = (view h)\<lparr>av_phase := (case n of 0 \<Rightarrow> Idle | Suc m \<Rightarrow> Storing m)\<rparr>"
  using assms unfolding ata_drive_def ata_status_def STATUS_PORT_def by blast+

lemma ata_drive_receives:
  assumes "ata_drive N io view" and "av_phase (view h) = Receiving 0 ws"
  shows "length ws < 255 \<Longrightarrow> view (outw io DATA_PORT w h) = (view h)\<lparr>av_phase := Receiving 0 (ws @ [w])\<rparr>"
    and "length ws = 255 \<Longrightarrow> \<exists>n \<le> N. view (outw io DATA_PORT w h) =
      (view h)\<lparr>av_phase := Storing n, av_disks := put_sector (view h) (words_bytes (ws @ [w]))\<rparr>"
  using assms unfolding ata_drive_def ata_data_def DATA_PORT_def by blast+

lemma wait_ready:
  assumes "ata_drive N io view" and "ph = Sending \<or> ph = Receiving"
  shows "av_phase (view h) = ph j ws \<Longrightarrow> j < n \<Longrightarrow>
    \<exists>h'. ata_wait_bsy n io h = Inr h' \<and> view h' = (view h)\<lparr>av_phase := ph 0 ws\<rparr>"
proof (induction n arbitrary: j h)
  case (Suc n)
  show ?case
  proof (cases j)
    case 0
    then have "fst (inb io STATUS_PORT h) AND 0x80 = 0" "view (snd (inb io STATUS_PORT h)) = view h"
      using ata_drive_status(3) [OF assms(1)] Suc.prems(1) assms(2) by blast+
    then show ?thesis
      using Suc.prems(1) 0 by (cases "inb io STATUS_PORT h") (auto intro!: ata_view.equality)
  next
    case (Suc m)
    then have b: "fst (inb io STATUS_PORT h) AND 0x80 \<noteq> 0" "view (snd (inb io STATUS_PORT h)) = (view h)\<lparr>av_phase := ph m ws\<rparr>"
      using ata_drive_status(1,2) [OF assms(1)] Suc.prems(1) assms(2) by blast+
    then have "av_phase (view (snd (inb io STATUS_PORT h))) = ph m ws"
      by simp
    from Suc.IH [OF this] Suc.prems(2) Suc b show ?thesis
      by (cases "inb io STATUS_PORT h") auto
  qed
qed simp

lemma wait_stored:
  assumes "ata_drive N io view"
  shows "av_phase (view h) = Storing j \<Longrightarrow> j + 2 \<le> n \<Longrightarrow>
    \<exists>h'. ata_wait_bsy n io h = Inr h' \<and> view h' = (view h)\<lparr>av_phase := Idle\<rparr>"
proof (induction n arbitrary: j h)
  case (Suc n)
  have b: "fst (inb io STATUS_PORT h) AND 0x80 \<noteq> 0"
      "view (snd (inb io STATUS_PORT h)) = (view h)\<lparr>av_phase := (case j of 0 \<Rightarrow> Idle | Suc m \<Rightarrow> Storing m)\<rparr>"
    using ata_drive_status(4) [OF assms Suc.prems(1)] by blast+
  show ?case
  proof (cases j)
    case 0
    then obtain n' where n': "n = Suc n'"
      using Suc.prems(2) by (cases n) auto
    have "av_phase (view (snd (inb io STATUS_PORT h))) = Idle"
      using b(2) 0 by simp
    note idle = ata_drive_registers(6,7) [OF assms this]
    then show ?thesis
      using b 0 n' by (cases "inb io STATUS_PORT h"; cases "inb io STATUS_PORT (snd (inb io STATUS_PORT h))") auto
  next
    case (Suc m)
    then have "av_phase (view (snd (inb io STATUS_PORT h))) = Storing m"
      using b(2) by simp
    from Suc.IH [OF this] Suc.prems(2) Suc b show ?thesis
      by (cases "inb io STATUS_PORT h") auto
  qed
qed simp

lemma wait_drq:
  assumes "ata_drive N io view" and "av_phase (view h) = Sending 0 ws \<or> av_phase (view h) = Receiving 0 ws" and "0 < n"
  shows "\<exists>h'. ata_wait_drq n io h = Inr h' \<and> view h' = view h"
  using ata_drive_status(3) [OF assms(1,2)] assms(3)
  by (cases n; cases "inb io STATUS_PORT h") auto

section \<open>Reading a sector\<close>

lemma words_bytes_simps [simp]:
  "words_bytes [] = []" "words_bytes (w # ws) = bytes16 w @ words_bytes ws" "length (words_bytes ws) = 2 * length ws"
  by (simp_all add: words_bytes_def length_concat o_def sum_list_triv)

lemma bytes16_le16 [simp]: "bytes16 (le16 a b) = [a, b]"
proof -
  have "(ucast (le16 a b) :: u8) = a" "(ucast (drop_bit 8 (le16 a b)) :: u8) = b"
    unfolding le16_def by (rule bit_word_eqI; auto simp: bit_simps dest: bit_imp_le_length)+
  then show ?thesis
    by (simp add: bytes16_def)
qed

lemma words_bytes_from:
  "2 * n \<le> length s \<Longrightarrow> i \<le> n \<Longrightarrow> words_bytes (List.map (\<lambda>j. le16 (s ! (2 * j)) (s ! (2 * j + 1))) [i..<n]) =
    take (2 * n - 2 * i) (drop (2 * i) s)"
proof (induction "n - i" arbitrary: i)
  case (Suc m)
  then have up: "[i..<n] = i # [Suc i..<n]"
    by (simp add: upt_rec)
  have "drop (2 * i) s = s ! (2 * i) # s ! (2 * i + 1) # drop (2 * Suc i) s"
    using Suc.hyps(2) Suc.prems by (simp add: Cons_nth_drop_Suc)
  moreover have "2 * n - 2 * i = Suc (Suc (2 * n - 2 * Suc i))"
    using Suc.hyps(2) by arith
  ultimately show ?case
    using Suc.hyps(1) [of "Suc i"] Suc.hyps(2) Suc.prems by (simp add: up)
qed simp

lemma words_bytes_sector: "512 \<le> length s \<Longrightarrow> words_bytes (sector_words s) = take 512 s"
  using words_bytes_from [of 256 s 0] by (simp add: sector_words_def)

lemma length_sector_words [simp]: "length (sector_words s) = 256"
  by (simp add: sector_words_def)

lemma ata_in_eq:
  assumes "ata_drive N io view"
  shows "av_phase (view h) = Sending 0 ws \<Longrightarrow> ws \<noteq> [] \<Longrightarrow> 2 * i + 2 * length ws \<le> length buf \<Longrightarrow>
    \<exists>h'. ata_in io i (length ws) buf h =
      Inr (take (2 * i) buf @ words_bytes ws @ drop (2 * i + 2 * length ws) buf, h') \<and> view h' = (view h)\<lparr>av_phase := Idle\<rparr>"
proof (induction ws arbitrary: i buf h)
  case (Cons w ws)
  have d: "fst (inw io DATA_PORT h) = w"
      "view (snd (inw io DATA_PORT h)) = (view h)\<lparr>av_phase := (if ws = [] then Idle else Sending 0 ws)\<rparr>"
    using assms Cons.prems(1) unfolding ata_drive_def ata_data_def DATA_PORT_def by blast+
  let ?b = "take (2 * i) buf @ bytes16 w @ drop (2 * i + 2) buf"
  have wr: "write_at buf (2 * i) (bytes16 w) = Inr ?b"
    using Cons.prems(3) by (simp add: write_at_def)
  show ?case
  proof (cases "ws = []")
    case True
    then show ?thesis
      using d wr by (cases "inw io DATA_PORT h") auto
  next
    case False
    have "av_phase (view (snd (inw io DATA_PORT h))) = Sending 0 ws"
      using d(2) False by simp
    moreover have len: "length ?b = length buf" "2 * Suc i + 2 * length ws \<le> length ?b"
      using Cons.prems(3) by simp_all
    ultimately obtain h' where "ata_in io (Suc i) (length ws) ?b (snd (inw io DATA_PORT h)) =
        Inr (take (2 * Suc i) ?b @ words_bytes ws @ drop (2 * Suc i + 2 * length ws) ?b, h')"
        "view h' = (view (snd (inw io DATA_PORT h)))\<lparr>av_phase := Idle\<rparr>"
      using Cons.IH False by blast
    then show ?thesis
      using d wr Cons.prems(3) by (cases "inw io DATA_PORT h") (auto simp: min_def)
  qed
qed simp

lemma ata_read_command:
  assumes "ata_drive N io view" and "av_phase (view h) = Idle" and "drive_ok ds" and "N < n"
  shows "\<exists>v h2 h3 h4. inb io STATUS_PORT (ata_command io ds sector 0x20 h) = (v, h2) \<and> v \<noteq> 0 \<and>
    ata_wait_bsy n io h2 = Inr h3 \<and> ata_wait_drq n io h3 = Inr h4 \<and>
    view h4 = (addressed ds sector (view h))\<lparr>av_phase :=
      Sending 0 (sector_words (av_disks (view h) (ds = DRIVE_SELECT_SLAVEDRIVE) (take_bit 28 sector)))\<rparr>"
proof -
  let ?v = "addressed ds sector (view h)" and ?s = "av_disks (view h) (ds = DRIVE_SELECT_SLAVEDRIVE) (take_bit 28 sector)"
  obtain h0 where h0: "ata_command io ds sector 0x20 h = outb io STATUS_PORT 0x20 h0" "view h0 = ?v"
    using ata_command_view [OF assms(1,2)] by blast
  have ph: "av_phase (view h0) = Idle" "av_count (view h0) = 1" "av_disks (view h0) = av_disks (view h)"
    using assms(2) by (simp_all add: h0(2) addressed_def)
  obtain j where j: "j \<le> N" "view (outb io STATUS_PORT 0x20 h0) = ?v\<lparr>av_phase := Sending j (sector_words ?s)\<rparr>"
    using ata_drive_commands(1) [OF assms(1) ph(1,2)] unfolding h0(2) ph(3) [unfolded h0(2)] addressed_sector [OF assms(3)] by blast
  let ?h1 = "outb io STATUS_PORT 0x20 h0" and ?w = "sector_words ?s"
  obtain v h2 where h2: "inb io STATUS_PORT ?h1 = (v, h2)"
    by force
  have st: "v \<noteq> 0 \<and> (\<exists>j' \<le> N. view h2 = ?v\<lparr>av_phase := Sending j' ?w\<rparr>)"
  proof (cases j)
    case 0
    then show ?thesis
      using ata_drive_status(3) [OF assms(1), of ?h1 ?w] j h2 by auto
  next
    case (Suc m)
    then show ?thesis
      using ata_drive_status(1) [OF assms(1), of ?h1 m ?w] j h2 by (auto intro!: exI [of _ m])
  qed
  then obtain j' where j': "v \<noteq> 0" "j' \<le> N" "view h2 = ?v\<lparr>av_phase := Sending j' ?w\<rparr>"
    by blast
  obtain h3 where h3: "ata_wait_bsy n io h2 = Inr h3" "view h3 = ?v\<lparr>av_phase := Sending 0 ?w\<rparr>"
    using wait_ready [OF assms(1), of Sending h2 j' ?w n] j' assms(4) by auto
  obtain h4 where "ata_wait_drq n io h3 = Inr h4" "view h4 = view h3"
    using wait_drq [OF assms(1), of h3 ?w n] h3(2) assms(4) by auto
  then show ?thesis
    using h2 j'(1) h3 unfolding h0(1) by auto
qed

lemma ata_readSector_eq:
  assumes "ata_drive N io view" and "av_phase (view h) = Idle" and "drive_ok ds" and "N < n"
    and "256 \<le> unat buflen" and "512 \<le> length buf" and "length (av_disks (view h) (ds = DRIVE_SELECT_SLAVEDRIVE) (take_bit 28 sector)) = 512"
  shows "\<exists>h'. ata_readSector n io ds buf buflen sector h =
      Inr (av_disks (view h) (ds = DRIVE_SELECT_SLAVEDRIVE) (take_bit 28 sector) @ drop 512 buf, h') \<and>
    view h' = addressed ds sector (view h)"
proof -
  let ?s = "av_disks (view h) (ds = DRIVE_SELECT_SLAVEDRIVE) (take_bit 28 sector)"
  obtain v h2 h3 h4 where r: "inb io STATUS_PORT (ata_command io ds sector 0x20 h) = (v, h2)" "v \<noteq> 0"
      "ata_wait_bsy n io h2 = Inr h3" "ata_wait_drq n io h3 = Inr h4"
      "view h4 = (addressed ds sector (view h))\<lparr>av_phase := Sending 0 (sector_words ?s)\<rparr>"
    using ata_read_command [OF assms(1-4)] by blast
  obtain h5 where h5: "ata_in io 0 256 buf h4 = Inr (words_bytes (sector_words ?s) @ drop 512 buf, h5)"
      "view h5 = (view h4)\<lparr>av_phase := Idle\<rparr>"
    using ata_in_eq [OF assms(1), of h4 "sector_words ?s" 0 buf] r(5) assms(6) by (auto simp: sector_words_def)
  have "view h5 = addressed ds sector (view h)"
    using h5(2) r(5) assms(2) by (auto simp: addressed_def)
  moreover have "min 256 (unat buflen) = 256"
    using assms(5) by simp
  ultimately show ?thesis
    using r(1-4) h5(1) words_bytes_sector [of ?s] assms(7) by (auto simp: ata_readSector_def)
qed

section \<open>Writing a sector\<close>

lemma put_sector_phase [simp]: "put_sector (v\<lparr>av_phase := p\<rparr>) s = put_sector v s"
  by (simp add: put_sector_def ata_slave_def ata_lba_def)

lemma rd16_word:
  assumes "512 \<le> length src" and "i < 256"
  shows "rd16 src (word_of_nat (2 * i)) = Inr (le16 (src ! (2 * i)) (src ! (2 * i + 1)))"
proof -
  have "unat (word_of_nat (2 * i) :: u32) = 2 * i"
    using assms(2) by (intro unat_of_nat32) simp
  then show ?thesis
    using assms by (simp add: rd16_def Let_def)
qed

lemma ata_out_eq:
  assumes "ata_drive N io view" and "512 \<le> length src"
  shows "av_phase (view h) = Receiving 0 ws \<Longrightarrow> length ws = i \<Longrightarrow> i + Suc k = 256 \<Longrightarrow>
    \<exists>h' n. ata_out io i (Suc k) src h = Inr h' \<and> n \<le> N \<and> view h' = (view h)\<lparr>av_phase := Storing n,
      av_disks := put_sector (view h) (words_bytes (ws @ List.map (\<lambda>j. le16 (src ! (2 * j)) (src ! (2 * j + 1))) [i..<256]))\<rparr>"
proof (induction k arbitrary: i h ws)
  case 0
  let ?w = "le16 (src ! (2 * i)) (src ! (2 * i + 1))"
  have "\<exists>n \<le> N. view (outw io DATA_PORT ?w h) =
      (view h)\<lparr>av_phase := Storing n, av_disks := put_sector (view h) (words_bytes (ws @ [?w]))\<rparr>"
    using 0 by (intro ata_drive_receives(2) [OF assms(1) 0(1)]) simp
  then show ?case
    using rd16_word [OF assms(2), of i] 0 by (auto simp: upt_rec)
next
  case (Suc k)
  let ?w = "le16 (src ! (2 * i)) (src ! (2 * i + 1))"
  have v: "view (outw io DATA_PORT ?w h) = (view h)\<lparr>av_phase := Receiving 0 (ws @ [?w])\<rparr>"
    using Suc.prems by (intro ata_drive_receives(1) [OF assms(1) Suc.prems(1)]) simp
  have up: "[i..<256] = i # [Suc i..<256]"
    using Suc.prems(3) by (simp add: upt_rec)
  show ?case
    using Suc.IH [of "outw io DATA_PORT ?w h" "ws @ [?w]" "Suc i"] Suc.prems v rd16_word [OF assms(2), of i]
    by (auto simp: up)
qed

lemma addressed_idem [simp]: "addressed ds sector (addressed ds sector v) = addressed ds sector v"
  by (simp add: addressed_def)

text \<open>What a write leaves in the sector.\<close>

definition written :: "u8 list \<Rightarrow> nat \<Rightarrow> u8 list \<Rightarrow> u8 list" where
  "written conts len old = (if len < 512 then take len conts @ drop len old else take 512 conts)"

definition write_disk :: "(bool \<Rightarrow> u32 \<Rightarrow> u8 list) \<Rightarrow> u8 \<Rightarrow> u32 \<Rightarrow> u8 list \<Rightarrow> bool \<Rightarrow> u32 \<Rightarrow> u8 list" where
  "write_disk disks ds sector s =
     disks((ds = DRIVE_SELECT_SLAVEDRIVE) := (disks (ds = DRIVE_SELECT_SLAVEDRIVE))(take_bit 28 sector := s))"

lemma put_sector_addressed:
  "drive_ok ds \<Longrightarrow> put_sector (addressed ds sector v) s = write_disk (av_disks v) ds sector s"
  by (simp add: put_sector_def write_disk_def addressed_sector) (simp add: addressed_def)

lemma ata_write_command:
  assumes "ata_drive N io view" and "av_phase (view h) = Idle" and "drive_ok ds" and "N + 3 \<le> n" and "512 \<le> length src"
  shows "\<exists>h2 h3 h4 h5 v h'. ata_wait_bsy n io (ata_command io ds sector 0x30 h) = Inr h2 \<and> ata_wait_drq n io h2 = Inr h3 \<and>
    ata_out io 0 256 src h3 = Inr h4 \<and> ata_wait_bsy n io h4 = Inr h5 \<and> inb io STATUS_PORT h5 = (v, h') \<and> v AND 0x01 = 0 \<and>
    view h' = (addressed ds sector (view h))\<lparr>av_disks := write_disk (av_disks (view h)) ds sector (take 512 src)\<rparr>"
proof -
  let ?v = "addressed ds sector (view h)"
  obtain h0 where h0: "ata_command io ds sector 0x30 h = outb io STATUS_PORT 0x30 h0" "view h0 = ?v"
    using ata_command_view [OF assms(1,2)] by blast
  have ph: "av_phase (view h0) = Idle" "av_count (view h0) = 1"
    using assms(2) by (simp_all add: h0(2) addressed_def)
  obtain j where j: "j \<le> N" "view (outb io STATUS_PORT 0x30 h0) = ?v\<lparr>av_phase := Receiving j []\<rparr>"
    using ata_drive_commands(2) [OF assms(1) ph] unfolding h0(2) by blast
  obtain h2 where h2: "ata_wait_bsy n io (outb io STATUS_PORT 0x30 h0) = Inr h2" "view h2 = ?v\<lparr>av_phase := Receiving 0 []\<rparr>"
    using wait_ready [OF assms(1), of Receiving "outb io STATUS_PORT 0x30 h0" j "[]" n] j assms(4) by auto
  obtain h3 where h3: "ata_wait_drq n io h2 = Inr h3" "view h3 = view h2"
    using wait_drq [OF assms(1), of h2 "[]" n] h2(2) assms(4) by auto
  obtain h4 m where h4: "ata_out io 0 (Suc 255) src h3 = Inr h4" "m \<le> N"
      "view h4 = (view h3)\<lparr>av_phase := Storing m, av_disks := put_sector (view h3) (words_bytes (sector_words src))\<rparr>"
    using ata_out_eq [OF assms(1,5), of h3 "[]" 0 255] h3(2) h2(2) by (auto simp: sector_words_def)
  obtain h5 where h5: "ata_wait_bsy n io h4 = Inr h5" "view h5 = (view h4)\<lparr>av_phase := Idle\<rparr>"
    using wait_stored [OF assms(1), of h4 m n] h4(2,3) assms(4) by auto
  have idle: "view h5 = ?v\<lparr>av_disks := write_disk (av_disks (view h)) ds sector (take 512 src)\<rparr>"
    using h5(2) h4(3) h3(2) h2(2) assms(2)
    by (simp add: words_bytes_sector [OF assms(5)] put_sector_addressed [OF assms(3)]) (simp add: addressed_def)
  then have "av_phase (view h5) = Idle"
    using assms(2) by (simp add: addressed_def)
  note st = ata_drive_registers(6,8) [OF assms(1) this]
  have "(256 :: nat) = Suc 255"
    by simp
  then have out: "ata_out io 0 256 src h3 = Inr h4"
    using h4(1) by (simp only:)
  obtain v h6 where "inb io STATUS_PORT h5 = (v, h6)"
    by force
  then show ?thesis
    using h2(1) h3(1) out h5(1) st idle unfolding h0(1) by auto
qed

lemma ata_writeSector_eq:
  assumes "ata_drive N io view" and "av_phase (view h) = Idle" and "drive_ok ds" and "N + 3 \<le> n"
    and "length (av_disks (view h) (ds = DRIVE_SELECT_SLAVEDRIVE) (take_bit 28 sector)) = 512"
    and "min 512 (unat len) \<le> length conts"
  shows "\<exists>h'. ata_writeSector n io ds conts len sector h = Inr h' \<and> view h' = (addressed ds sector (view h))
    \<lparr>av_disks := write_disk (av_disks (view h)) ds sector
       (written conts (unat len) (av_disks (view h) (ds = DRIVE_SELECT_SLAVEDRIVE) (take_bit 28 sector)))\<rparr>"
proof (cases "len < 512")
  case True
  let ?s = "av_disks (view h) (ds = DRIVE_SELECT_SLAVEDRIVE) (take_bit 28 sector)"
  let ?src = "take (unat len) conts @ drop (unat len) ?s"
  have l: "unat len < 512"
    using True by (simp add: word_less_nat_alt)
  then have src: "length ?src = 512"
    using assms(5,6) by simp
  obtain h1 where h1: "ata_readSector n io ds (replicate 512 0) 512 sector h = Inr (?s, h1)" "view h1 = addressed ds sector (view h)"
    using ata_readSector_eq [OF assms(1-3), of n 512 "replicate 512 0" sector] assms(4,5) by auto
  have "av_phase (view h1) = Idle"
    using h1(2) assms(2) by (simp add: addressed_def)
  then obtain h2 h3 h4 h5 v h' where w: "ata_wait_bsy n io (ata_command io ds sector 0x30 h1) = Inr h2" "ata_wait_drq n io h2 = Inr h3"
      "ata_out io 0 256 ?src h3 = Inr h4" "ata_wait_bsy n io h4 = Inr h5" "inb io STATUS_PORT h5 = (v, h')" "v AND 0x01 = 0"
      "view h' = (addressed ds sector (view h1))\<lparr>av_disks := write_disk (av_disks (view h1)) ds sector (take 512 ?src)\<rparr>"
    using ata_write_command [OF assms(1) _ assms(3,4), of h1 ?src sector] src by auto
  have "ata_writeSector n io ds conts len sector h = Inr h'"
    unfolding ata_writeSector_def using True h1(1) w(1-6) l assms(6) by simp
  moreover have "av_disks (view h1) = av_disks (view h)"
    by (simp add: h1(2) addressed_def)
  ultimately show ?thesis
    using w(7) l src h1(2) by (simp add: written_def)
next
  case False
  then have l: "\<not> unat len < 512" "512 \<le> length conts"
    using assms(6) by (simp_all add: word_less_nat_alt)
  obtain h2 h3 h4 h5 v h' where w: "ata_wait_bsy n io (ata_command io ds sector 0x30 h) = Inr h2" "ata_wait_drq n io h2 = Inr h3"
      "ata_out io 0 256 conts h3 = Inr h4" "ata_wait_bsy n io h4 = Inr h5" "inb io STATUS_PORT h5 = (v, h')" "v AND 0x01 = 0"
      "view h' = (addressed ds sector (view h))\<lparr>av_disks := write_disk (av_disks (view h)) ds sector (take 512 conts)\<rparr>"
    using ata_write_command [OF assms(1-4) l(2), of sector] by blast
  have "ata_writeSector n io ds conts len sector h = Inr h'"
    unfolding ata_writeSector_def using False w(1-6) by simp
  then show ?thesis
    using w(7) l(1) by (simp add: written_def)
qed

section \<open>Starting the driver\<close>

lemma strcmp_long: "length b \<le> length a \<Longrightarrow> 0 \<in> set b \<Longrightarrow> \<exists>r. strcmp a b = Inr r"
  by (induction a b rule: strcmp.induct) auto

lemma chain_spaced:
  "chain a bs e \<Longrightarrow> b \<in> set bs \<Longrightarrow> c \<in> set bs \<Longrightarrow> unat (hb_addr b) < unat (hb_addr c) \<Longrightarrow>
    unat (hb_addr b) + 9 \<le> unat (hb_addr c)"
proof (induction bs arbitrary: a)
  case (Cons x bs)
  then show ?case
    using chain_bounds [of "a + 9 + unat (hb_size x)" bs e b] chain_bounds [of "a + 9 + unat (hb_size x)" bs e c] by auto
qed simp

lemma free_walk_none: "\<forall>b \<in> set bs. hb_addr b \<noteq> mem - HEAPBLOCK_SIZE \<Longrightarrow> free_walk mem bs = Inl OutOfBounds"
  by (induction bs) auto

text \<open>No block begins two bytes behind the beginning of another one.\<close>

lemma kfree_shifted:
  assumes "heap_inv h" and "live h p = Some m"
  shows "kfree h (p + 2) = Inl OutOfBounds"
proof -
  obtain a where ch: "chain a (superBlock h) (unat (heapEnd h))"
    using assms(1) by (auto simp: heap_inv_def split: list.splits)
  obtain b where b: "b \<in> set (superBlock h)" "hb_payload b = p"
    using live_blocks_dom assms(2) unfolding Heap.live_def by blast
  have "unat (hb_addr b) + 9 \<le> unat (heapEnd h)"
    using chain_bounds [OF ch b(1)] by simp
  then have two: "unat (hb_addr b + 2) = unat (hb_addr b) + 2"
    using unat_plus_nat [of "hb_addr b" 2] unsigned_less [of "heapEnd h", where 'a = nat] by simp
  have "p + 2 - HEAPBLOCK_SIZE = hb_addr b + 2"
    using b(2) by (auto simp: hb_payload_def HEAPBLOCK_SIZE_def)
  moreover have "hb_addr c \<noteq> hb_addr b + 2" if "c \<in> set (superBlock h)" for c
    using chain_spaced [OF ch b(1) that] two by auto
  ultimately have "free_walk (p + 2) (superBlock h) = Inl OutOfBounds"
    by (intro free_walk_none) (simp only: not_False_eq_True ball_simps simp_thms, blast)
  then show ?thesis
    by (simp add: kfree_def)
qed

section \<open>What the driver promises\<close>

text \<open>With a drive as the standard has it, reading a sector puts its 512 bytes into the buffer and leaves
  the drives as they are. Of the number of the sector the low 28 bits count.\<close>

theorem ata_reads_sector:
  assumes "ata_drive N io view" and "av_phase (view h) = Idle" and "drive_ok ds" and "N < n"
    and "256 \<le> unat buflen" and "512 \<le> length buf" and "length (av_disks (view h) (ds = DRIVE_SELECT_SLAVEDRIVE) (take_bit 28 sector)) = 512"
  shows "\<exists>h'. ata_readSector n io ds buf buflen sector h =
      Inr (av_disks (view h) (ds = DRIVE_SELECT_SLAVEDRIVE) (take_bit 28 sector) @ drop 512 buf, h') \<and>
    av_phase (view h') = Idle \<and> av_disks (view h') = av_disks (view h)"
  using ata_readSector_eq [OF assms] assms(2) by (auto simp: addressed_def)

text \<open>C16: What was written to a sector is read back: the bytes of the buffer, and behind them, when they are
  fewer than 512, what the sector held before; every other sector of both drives is left as it was.\<close>

theorem ata_write_read_back:
  assumes "ata_drive N io view" and "av_phase (view h) = Idle" and "drive_ok ds" and "N + 3 \<le> n"
    and "length (av_disks (view h) (ds = DRIVE_SELECT_SLAVEDRIVE) (take_bit 28 sector)) = 512"
    and "min 512 (unat len) \<le> length conts"
  shows "\<exists>h1 h2. ata_writeSector n io ds conts len sector h = Inr h1 \<and>
    ata_readSector n io ds (replicate 512 0) 256 sector h1 =
      Inr (written conts (unat len) (av_disks (view h) (ds = DRIVE_SELECT_SLAVEDRIVE) (take_bit 28 sector)), h2) \<and>
    (\<forall>slave i. (slave, i) \<noteq> (ds = DRIVE_SELECT_SLAVEDRIVE, take_bit 28 sector) \<longrightarrow>
      av_disks (view h2) slave i = av_disks (view h) slave i)"
proof -
  let ?s = "av_disks (view h) (ds = DRIVE_SELECT_SLAVEDRIVE) (take_bit 28 sector)"
  obtain h1 where h1: "ata_writeSector n io ds conts len sector h = Inr h1"
      "view h1 = (addressed ds sector (view h))\<lparr>av_disks := write_disk (av_disks (view h)) ds sector (written conts (unat len) ?s)\<rparr>"
    using ata_writeSector_eq [OF assms] by blast
  have new: "av_disks (view h1) (ds = DRIVE_SELECT_SLAVEDRIVE) (take_bit 28 sector) = written conts (unat len) ?s"
    by (simp add: h1(2) write_disk_def)
  moreover have "length (written conts (unat len) ?s) = 512"
    using assms(5,6) by (simp add: written_def)
  moreover have "av_phase (view h1) = Idle"
    using assms(2) by (simp add: h1(2) addressed_def)
  ultimately obtain h2 where h2: "ata_readSector n io ds (replicate 512 0) 256 sector h1 = Inr (written conts (unat len) ?s, h2)"
      "view h2 = addressed ds sector (view h1)"
    using ata_readSector_eq [OF assms(1) _ assms(3), of h1 n 256 "replicate 512 0" sector] assms(4) by auto
  have "av_disks (view h2) = write_disk (av_disks (view h)) ds sector (written conts (unat len) ?s)"
    by (simp add: h2(2) addressed_def h1(2))
  then show ?thesis
    using h1(1) h2(1) by (auto simp: write_disk_def)
qed

text \<open>The start of the driver moves the pointer of its buffer before it gives it back: with any drive and
  any well-formed heap it writes outside every block of the heap.\<close>

theorem ata_init_frees_outside:
  assumes "ata_drive N io view" and "av_phase (view h) = Idle" and "drive_ok ds" and "N < n"
    and "length (av_disks (view h) (ds = DRIVE_SELECT_SLAVEDRIVE) 0) = 512"
    and "heap_inv heap" and "sane_size heap 512"
  shows "ata_init n io ds heap h = Inl OutOfBounds"
proof -
  obtain p heap1 where a: "kalloc heap 512 = Inr (p, heap1)" "heap_inv heap1" "p \<noteq> 0 \<longrightarrow> (\<exists>m. live heap1 = (live heap)(p \<mapsto> m))"
    using kh.alloc_law [OF assms(6,7)] by metis
  obtain h1 where r: "ata_readSector n io ds (replicate 512 0) 256 0 h = Inr (av_disks (view h) (ds = DRIVE_SELECT_SLAVEDRIVE) 0, h1)"
    using ata_readSector_eq [OF assms(1-4), of 256 "replicate 512 0" 0] assms(5) by auto
  have "kfree heap1 (p + 2) = Inl OutOfBounds" if "p \<noteq> 0"
    using a(2,3) that kfree_shifted by (metis fun_upd_same)
  moreover obtain b where "streq (drop 2 (av_disks (view h) (ds = DRIVE_SELECT_SLAVEDRIVE) 0)) (bytes ''RivBoot'' @ [0]) = Inr b"
    using strcmp_long [of "bytes ''RivBoot'' @ [0]" "drop 2 (av_disks (view h) (ds = DRIVE_SELECT_SLAVEDRIVE) 0)"] assms(5)
    by (auto simp: streq_def)
  ultimately show ?thesis
    using a(1) r by (simp add: ata_init_def)
qed

section \<open>A drive\<close>

text \<open>The registers themselves as hardware, which is busy for two readings of the status.\<close>

definition sim_inb :: "u16 \<Rightarrow> ata_view \<Rightarrow> u8 \<times> ata_view" where
  "sim_inb port v =
     (if port \<noteq> 0x1F7 then (0, v)
      else case av_phase v of
          Idle \<Rightarrow> (0x50, v)
        | Sending n ws \<Rightarrow> (case n of 0 \<Rightarrow> (0x58, v) | Suc m \<Rightarrow> (0x80, v\<lparr>av_phase := Sending m ws\<rparr>))
        | Receiving n ws \<Rightarrow> (case n of 0 \<Rightarrow> (0x58, v) | Suc m \<Rightarrow> (0x80, v\<lparr>av_phase := Receiving m ws\<rparr>))
        | Storing n \<Rightarrow> (0x80, v\<lparr>av_phase := (case n of 0 \<Rightarrow> Idle | Suc m \<Rightarrow> Storing m)\<rparr>))"

definition sim_inw :: "u16 \<Rightarrow> ata_view \<Rightarrow> u16 \<times> ata_view" where
  "sim_inw port v = (case av_phase v of
       Sending n ws \<Rightarrow> (hd ws, v\<lparr>av_phase := (if tl ws = [] then Idle else Sending 0 (tl ws))\<rparr>)
     | _ \<Rightarrow> (0, v))"

definition sim_outb :: "u16 \<Rightarrow> u8 \<Rightarrow> ata_view \<Rightarrow> ata_view" where
  "sim_outb port b v =
     (if port = 0x1F6 then v\<lparr>av_sel := b\<rparr> else if port = 0x1F2 then v\<lparr>av_count := b\<rparr>
      else if port = 0x1F3 then v\<lparr>av_lo := b\<rparr> else if port = 0x1F4 then v\<lparr>av_mi := b\<rparr>
      else if port = 0x1F5 then v\<lparr>av_hi := b\<rparr>
      else if b = 0x20 then v\<lparr>av_phase := Sending 2 (sector_words (av_disks v (ata_slave v) (ata_lba v)))\<rparr>
      else v\<lparr>av_phase := Receiving 2 []\<rparr>)"

definition sim_outw :: "u16 \<Rightarrow> u16 \<Rightarrow> ata_view \<Rightarrow> ata_view" where
  "sim_outw port w v = (case av_phase v of
       Receiving n ws \<Rightarrow>
         if length ws < 255 then v\<lparr>av_phase := Receiving 0 (ws @ [w])\<rparr>
         else v\<lparr>av_phase := Storing 2, av_disks := put_sector v (words_bytes (ws @ [w]))\<rparr>
     | _ \<Rightarrow> v)"

definition sim_io :: "ata_view io" where
  "sim_io = \<lparr>inb = sim_inb, inw = sim_inw, outb = sim_outb, outw = sim_outw\<rparr>"

definition sim_start :: ata_view where
  "sim_start = \<lparr>av_sel = 0, av_count = 0, av_lo = 0, av_mi = 0, av_hi = 0, av_phase = Idle,
     av_disks = (\<lambda>slave i. replicate 512 (if slave then 7 else ucast i))\<rparr>"

lemma sim_drive: "ata_drive 2 sim_io (\<lambda>v. v)"
proof -
  have "(0x80 :: u8) AND 0x80 \<noteq> 0" "(0x58 :: u8) AND 0x80 = 0" "(0x58 :: u8) AND 0x08 \<noteq> 0" "(0x50 :: u8) AND 0x80 = 0"
    "(0x50 :: u8) AND 0x01 = 0"
    by code_simp+
  note bits = this
  have "ata_registers sim_io (\<lambda>v. v)"
    by (simp add: ata_registers_def sim_io_def sim_outb_def sim_inb_def bits)
  moreover have "ata_commands 2 sim_io (\<lambda>v. v)"
    by (auto simp: ata_commands_def sim_io_def sim_outb_def)
  moreover have "ata_status sim_io (\<lambda>v. v)"
    by (auto simp: ata_status_def sim_io_def sim_inb_def bits)
  moreover have "ata_data 2 sim_io (\<lambda>v. v)"
    by (auto simp: ata_data_def sim_io_def sim_inw_def sim_outw_def)
  ultimately show ?thesis
    by (simp add: ata_drive_def)
qed

lemma sim_idle: "av_phase sim_start = Idle" "drive_ok 0xE0" "(0xE0 :: u8) \<noteq> DRIVE_SELECT_SLAVEDRIVE"
  "length (av_disks sim_start b i) = 512"
  by (simp_all add: sim_start_def drive_ok_def DRIVE_SELECT_MASTERDRIVE_def DRIVE_SELECT_SLAVEDRIVE_def)

theorem ata_reads_sector_witness:
  "\<exists>h'. ata_readSector 3 sim_io 0xE0 (replicate 512 0) 256 9 sim_start = Inr (replicate 512 9, h')"
proof -
  have "take_bit 28 (9 :: u32) = 9"
    by code_simp
  then show ?thesis
    using ata_reads_sector [where h = sim_start and ds = "0xE0" and n = 3 and buflen = 256 and buf = "replicate 512 0" and sector = 9,
        OF sim_drive] sim_idle by (auto simp: sim_start_def)
qed

theorem ata_write_read_back_witness:
  "\<exists>h1 h2. ata_writeSector 5 sim_io 0xE0 [1, 2, 3] 3 9 sim_start = Inr h1 \<and>
     ata_readSector 5 sim_io 0xE0 (replicate 512 0) 256 9 h1 = Inr ([1, 2, 3] @ replicate 509 9, h2)"
proof -
  have "take_bit 28 (9 :: u32) = 9"
    by code_simp
  moreover have "written [1, 2, 3] 3 (replicate 512 9) = [1, 2, 3] @ replicate 509 9"
    by (simp add: written_def)
  ultimately show ?thesis
    using ata_write_read_back [where h = sim_start and ds = "0xE0" and n = 5 and sector = 9 and len = 3 and conts = "[1, 2, 3]",
        OF sim_drive] sim_idle by (auto simp: sim_start_def)
qed

theorem ata_init_frees_outside_witness:
  "ata_init 3 sim_io 0xE0 (heap_init 0x100000 0x200000) sim_start = Inl OutOfBounds"
proof -
  have "heap_inv (heap_init 0x100000 0x200000)" "sane_size (heap_init 0x100000 0x200000) 512"
    by (simp_all add: heap_init_inv) (simp add: sane_size_def heap_init_def)
  then show ?thesis
    using ata_init_frees_outside [where h = sim_start and ds = "0xE0" and n = 3, OF sim_drive] sim_idle by simp
qed

end
