(* ===== verification/BootSector.thy ===== *)
theory BootSector
  imports Ata Radix
begin

text \<open>
  The layer over the disk driver, \<^verbatim>\<open>src/drivers/storage/storage.hpp\<close>, and the file system that shows the
  sectors of the other drive as the files \<^verbatim>\<open>/boot/sector=N\<close>, \<^verbatim>\<open>src/drivers/fs/boot/boot.hpp\<close>. The one
  driver there is is that of the theory Ata; its state is the drive it has selected and the hardware.
\<close>

record 'h storage =
  st_driveSelect :: u8
  st_hw :: 'h

definition SECTOR_SIZE :: u32 where "SECTOR_SIZE = 512"

text \<open>The driver with the highest priority, and among those the first, wins over the default one.\<close>

fun storage_winner :: "('d \<Rightarrow> int) \<Rightarrow> 'd \<Rightarrow> 'd list \<Rightarrow> 'd" where
  "storage_winner prio winner [] = winner"
| "storage_winner prio winner (driver # ds) =
     storage_winner prio (if prio driver > prio winner then driver else winner) ds"

definition storage_readSector :: "nat \<Rightarrow> 'h io \<Rightarrow> u8 list \<Rightarrow> u32 \<Rightarrow> u32 \<Rightarrow> 'h storage \<Rightarrow> (u8 list \<times> 'h storage) exec" where
  "storage_readSector n io buf len sector st =
     bindE (ata_readSector n io (st_driveSelect st) buf len sector (st_hw st)) (\<lambda>(b, h). Inr (b, st\<lparr>st_hw := h\<rparr>))"

definition storage_writeSector :: "nat \<Rightarrow> 'h io \<Rightarrow> u8 list \<Rightarrow> u32 \<Rightarrow> u32 \<Rightarrow> 'h storage \<Rightarrow> 'h storage exec" where
  "storage_writeSector n io buf len sector st =
     bindE (ata_writeSector n io (st_driveSelect st) buf len sector (st_hw st)) (\<lambda>h. Inr (st\<lparr>st_hw := h\<rparr>))"

definition storage_selectNextDrive :: "'h storage \<Rightarrow> 'h storage" where
  "storage_selectNextDrive st = st\<lparr>st_driveSelect := ata_selectNextDrive (st_driveSelect st)\<rparr>"

section \<open>The files\<close>

text \<open>The number of the sector; \<open>ok\<close> says whether the allocation of the file data succeeds.\<close>

definition bootfs_open :: "bool \<Rightarrow> u8 list \<Rightarrow> i32 option exec" where
  "bootfs_open ok fp =
     (let fp1 = drop 6 fp in
      bindE (strBeginsWith fp1 (bytes ''sector='' @ [0])) (\<lambda>b.
      if \<not> b then Inr None
      else let fp2 = drop 7 fp1 in
        bindE (strIsNumber fp2) (\<lambda>number.
        if \<not> number then Inr None
        else bindE (stoi fp2) (\<lambda>sector.
          if sint sector < 0 then Inr None else if ok then Inr (Some sector) else Inl OutOfBounds))))"

definition bootfs_write :: "nat \<Rightarrow> 'h io \<Rightarrow> i32 \<Rightarrow> u8 list \<Rightarrow> u32 \<Rightarrow> 'h storage \<Rightarrow> 'h storage exec" where
  "bootfs_write n io sector conts len st =
     bindE (storage_writeSector n io conts (len div 2) sector (storage_selectNextDrive st)) (\<lambda>st'.
     Inr (storage_selectNextDrive st'))"

definition bootfs_read :: "nat \<Rightarrow> 'h io \<Rightarrow> i32 \<Rightarrow> u8 list \<Rightarrow> u32 \<Rightarrow> 'h storage \<Rightarrow> (u8 list \<times> 'h storage) exec" where
  "bootfs_read n io sector out len st =
     bindE (storage_readSector n io out len sector (storage_selectNextDrive st)) (\<lambda>(b, st').
     Inr (b, storage_selectNextDrive st'))"

section \<open>Which driver wins\<close>

lemma storage_winner_highest:
  "storage_winner prio w ds \<in> insert w (set ds) \<and> (\<forall>d \<in> insert w (set ds). prio d \<le> prio (storage_winner prio w ds))"
proof (induction ds arbitrary: w)
  case (Cons d ds)
  then show ?case
    using Cons.IH [of "if prio d > prio w then d else w"] by (auto split: if_splits) force+
qed simp

section \<open>Reading and writing the files\<close>

lemma ata_in_short:
  assumes "ata_drive N io view"
  shows "av_phase (view h) = Sending 0 ws \<Longrightarrow> k \<le> length ws \<Longrightarrow> length buf < 2 * i + 2 * k \<Longrightarrow> 2 * i \<le> length buf \<Longrightarrow>
    ata_in io i k buf h = Inl OutOfBounds"
proof (induction k arbitrary: i buf h ws)
  case (Suc k)
  then obtain w ws' where ws: "ws = w # ws'"
    by (cases ws) auto
  obtain v h1 where v: "inw io DATA_PORT h = (v, h1)"
    by force
  have d: "view h1 = (view h)\<lparr>av_phase := (if ws' = [] then Idle else Sending 0 ws')\<rparr>"
    using assms Suc.prems(1) v ws unfolding ata_drive_def ata_data_def DATA_PORT_def by (metis snd_conv)
  show ?case
  proof (cases "2 * i + 2 \<le> length buf")
    case True
    then have "ws' \<noteq> []" and k: "k \<noteq> 0"
      using Suc.prems(2,3) ws by (cases k; auto)+
    then have "av_phase (view h1) = Sending 0 ws'"
      by (simp add: d)
    from Suc.IH [OF this, of "take (2 * i) buf @ bytes16 v @ drop (2 * i + 2) buf" "Suc i"] Suc.prems True ws
    show ?thesis
      by (simp add: v write_at_def)
  next
    case False
    then show ?thesis
      by (simp add: v write_at_def)
  qed
qed simp

text \<open>The drive the files are on: the one that is not selected.\<close>

definition other_slave :: "'h storage \<Rightarrow> bool" where
  "other_slave st \<longleftrightarrow> st_driveSelect st = DRIVE_SELECT_MASTERDRIVE"

definition other_sector :: "('h \<Rightarrow> ata_view) \<Rightarrow> 'h storage \<Rightarrow> u32 \<Rightarrow> u8 list" where
  "other_sector view st sector = av_disks (view (st_hw st)) (other_slave st) sector"

lemma select_next:
  assumes "drive_ok ds"
  shows "drive_ok (ata_selectNextDrive ds)" and "ata_selectNextDrive (ata_selectNextDrive ds) = ds"
    and "ata_selectNextDrive ds = DRIVE_SELECT_SLAVEDRIVE \<longleftrightarrow> ds = DRIVE_SELECT_MASTERDRIVE"
  using assms by (auto simp: drive_ok_def ata_selectNextDrive_def DRIVE_SELECT_MASTERDRIVE_def DRIVE_SELECT_SLAVEDRIVE_def)

lemma strIsNumber_digits:
  assumes "list_all isdigit s" and "s \<noteq> []"
  shows "strIsNumber (s @ [0]) = Inr True"
proof -
  have loop: "list_all isdigit t \<Longrightarrow> strIsNumber_loop (t @ [0]) = Inr True" for t
    by (induction t) (auto simp: isdigit_def)
  obtain c t where s: "s = c # t" "isdigit c"
    using assms by (cases s) auto
  then have "c \<noteq> 0" "c \<noteq> 45" "c \<noteq> 43"
    by (auto simp: isdigit_def)
  then show ?thesis
    using loop [OF assms(1)] s(1) by simp
qed

lemma decimal_not_Nil: "radix 10 n \<noteq> []"
  by (subst radix.simps) simp

lemma bootfs_open_eq:
  assumes "0 \<le> sint sector"
  shows "bootfs_open True (bytes ''/boot/sector='' @ radix 10 (unat sector) @ [0]) = Inr (Some sector)"
proof -
  let ?t = "radix 10 (unat sector) @ [0]"
  have d: "drop 6 (bytes ''/boot/sector='' @ ?t) = bytes ''sector='' @ ?t"
    by simp
  have "strBeginsWith (bytes ''sector='' @ ?t) (bytes ''sector='' @ [0]) = Inr True"
    by simp
  moreover have "drop 7 (bytes ''sector='' @ ?t) = ?t"
    by simp
  moreover have "strIsNumber ?t = Inr True"
    by (rule strIsNumber_digits [OF radix_digits decimal_not_Nil])
  ultimately show ?thesis
    using stoi_radix [of sector] assms unfolding bootfs_open_def Let_def d by simp
qed

lemma bootfs_read_eq:
  assumes "ata_drive N io view" and "av_phase (view (st_hw st)) = Idle" and "drive_ok (st_driveSelect st)" and "N < n"
    and "512 \<le> length out" and "256 \<le> unat len" and "length (other_sector view st (take_bit 28 sector)) = 512"
  shows "\<exists>st'. bootfs_read n io sector out len st = Inr (other_sector view st (take_bit 28 sector) @ drop 512 out, st') \<and>
    st_driveSelect st' = st_driveSelect st"
proof -
  let ?ds = "ata_selectNextDrive (st_driveSelect st)"
  note sel = select_next [OF assms(3)]
  have o: "other_sector view st (take_bit 28 sector) = av_disks (view (st_hw st)) (?ds = DRIVE_SELECT_SLAVEDRIVE) (take_bit 28 sector)"
    by (simp add: other_sector_def other_slave_def sel(3))
  obtain h' where "ata_readSector n io ?ds out len sector (st_hw st) = Inr (other_sector view st (take_bit 28 sector) @ drop 512 out, h')"
    using ata_readSector_eq [OF assms(1,2) sel(1) assms(4,6,5), of sector] assms(7) unfolding o by blast
  then show ?thesis
    by (simp add: bootfs_read_def storage_readSector_def storage_selectNextDrive_def sel(2))
qed

lemma bootfs_write_eq:
  assumes "ata_drive N io view" and "av_phase (view (st_hw st)) = Idle" and "drive_ok (st_driveSelect st)" and "N + 3 \<le> n"
    and "unat len \<le> length conts" and "length (other_sector view st (take_bit 28 sector)) = 512"
  shows "\<exists>st'. bootfs_write n io sector conts len st = Inr st' \<and> st_driveSelect st' = st_driveSelect st \<and>
    other_sector view st' (take_bit 28 sector) = written conts (unat len div 2) (other_sector view st (take_bit 28 sector)) \<and>
    (\<forall>x. x \<noteq> take_bit 28 sector \<longrightarrow> other_sector view st' x = other_sector view st x) \<and>
    av_disks (view (st_hw st')) (\<not> other_slave st) = av_disks (view (st_hw st)) (\<not> other_slave st)"
proof -
  let ?ds = "ata_selectNextDrive (st_driveSelect st)"
  note sel = select_next [OF assms(3)]
  have o: "other_sector view st (take_bit 28 sector) = av_disks (view (st_hw st)) (?ds = DRIVE_SELECT_SLAVEDRIVE) (take_bit 28 sector)"
    by (simp add: other_sector_def other_slave_def sel(3))
  have half: "unat (len div 2) = unat len div 2"
    by (simp add: unat_div)
  then have "min 512 (unat (len div 2)) \<le> length conts"
    using assms(5) by simp
  from ata_writeSector_eq [OF assms(1,2) sel(1) assms(4) _ this, of sector] assms(6) obtain h' where
    h': "ata_writeSector n io ?ds conts (len div 2) sector (st_hw st) = Inr h'"
      "view h' = (addressed ?ds sector (view (st_hw st)))\<lparr>av_disks := write_disk (av_disks (view (st_hw st))) ?ds sector
         (written conts (unat len div 2) (other_sector view st (take_bit 28 sector)))\<rparr>"
    unfolding o half by blast
  then show ?thesis
    by (simp add: bootfs_write_def storage_writeSector_def storage_selectNextDrive_def sel(2))
      (simp add: other_sector_def other_slave_def write_disk_def sel(3))
qed

section \<open>What the files promise\<close>

text \<open>C22: the file \<^verbatim>\<open>/boot/sector=N\<close>, for a number below \<open>2 ^ 31\<close>, is a sector of the drive that is not
  selected: the sector \<open>N\<close> for numbers below \<open>2 ^ 28\<close>, and the sector \<open>N mod 2 ^ 28\<close> for larger ones, of which the
  driver gives the drive the lower 28 bits only. Reading its 512 bytes leaves the selection as it was. Writing
  512 bytes stores only half of them: the last 256 bytes of the sector keep what was there, and so do
  all other sectors of both drives.\<close>

theorem bootfs_files_are_sectors:
  assumes "ata_drive N io view" and "av_phase (view (st_hw st)) = Idle" and "drive_ok (st_driveSelect st)" and "N + 3 \<le> n"
    and "length out = 512" and "length conts = 512" and "0 \<le> sint sector"
    and "x = (if sector < 2 ^ 28 then sector else sector mod 2 ^ 28)" and "length (other_sector view st x) = 512"
  shows "bootfs_open True (bytes ''/boot/sector='' @ radix 10 (unat sector) @ [0]) = Inr (Some sector) \<and>
    (\<exists>st'. bootfs_read n io sector out SECTOR_SIZE st = Inr (other_sector view st x, st') \<and>
      st_driveSelect st' = st_driveSelect st) \<and>
    (\<exists>st'. bootfs_write n io sector conts SECTOR_SIZE st = Inr st' \<and> st_driveSelect st' = st_driveSelect st \<and>
      other_sector view st' x = take 256 conts @ drop 256 (other_sector view st x) \<and>
      (\<forall>y. y \<noteq> x \<longrightarrow> other_sector view st' y = other_sector view st y) \<and>
      av_disks (view (st_hw st')) (\<not> other_slave st) = av_disks (view (st_hw st)) (\<not> other_slave st))"
proof -
  have x: "x = take_bit 28 sector"
    using assms(8) by (simp add: take_bit_eq_mod mod_word_less)
  show ?thesis
    using bootfs_open_eq [OF assms(7)] bootfs_read_eq [OF assms(1-3), of n out SECTOR_SIZE sector]
      bootfs_write_eq [OF assms(1-4), of SECTOR_SIZE conts sector] assms(4-6,9) unfolding x
    by (auto simp: SECTOR_SIZE_def written_def)
qed

text \<open>Reading takes the number of bytes for a number of words: a read of fewer than 512 bytes into a
  buffer of that size writes out of bounds.\<close>

theorem bootfs_short_read_overflows:
  assumes "ata_drive N io view" and "av_phase (view (st_hw st)) = Idle" and "drive_ok (st_driveSelect st)" and "N < n"
    and "length out = unat len" and "0 < unat len" and "unat len < 512"
  shows "bootfs_read n io sector out len st = Inl OutOfBounds"
proof -
  let ?ds = "ata_selectNextDrive (st_driveSelect st)"
  note sel = select_next [OF assms(3)]
  obtain v h2 h3 h4 s where r: "inb io STATUS_PORT (ata_command io ?ds sector 0x20 (st_hw st)) = (v, h2)" "v \<noteq> 0"
      "ata_wait_bsy n io h2 = Inr h3" "ata_wait_drq n io h3 = Inr h4" "av_phase (view h4) = Sending 0 (sector_words s)"
    using ata_read_command [OF assms(1,2) sel(1) assms(4), of sector] by auto
  have "ata_in io 0 (min 256 (unat len)) out h4 = Inl OutOfBounds"
    using assms(5-7) by (intro ata_in_short [OF assms(1) r(5)]) (auto simp: min_def)
  then show ?thesis
    using r(1-4) by (simp add: bootfs_read_def storage_readSector_def storage_selectNextDrive_def ata_readSector_def)
qed

definition sim_storage :: "ata_view storage" where
  "sim_storage = \<lparr>st_driveSelect = 0xE0, st_hw = sim_start\<rparr>"

lemma sim_other: "other_sector (\<lambda>v. v) sim_storage sector = replicate 512 7"
  by (simp add: other_sector_def other_slave_def sim_storage_def sim_start_def DRIVE_SELECT_MASTERDRIVE_def)

theorem bootfs_files_are_sectors_witness:
  "\<exists>st'. bootfs_write 5 sim_io 9 (replicate 512 1) SECTOR_SIZE sim_storage = Inr st' \<and>
     other_sector (\<lambda>v. v) st' 9 = replicate 256 1 @ replicate 256 7"
  using bootfs_files_are_sectors [where st = sim_storage and n = 5 and out = "replicate 512 0" and conts = "replicate 512 1"
      and sector = 9 and x = 9, OF sim_drive] sim_idle
  by (auto simp: sim_other) (auto simp: sim_storage_def)

theorem bootfs_short_read_overflows_witness:
  "bootfs_read 5 sim_io 9 (replicate 100 0) 100 sim_storage = Inl OutOfBounds"
  using bootfs_short_read_overflows [where st = sim_storage and n = 5 and out = "replicate 100 0" and len = 100, OF sim_drive]
    sim_idle by (simp add: sim_storage_def)

end
