(* ===== verification/Pci.thy ===== *)
theory Pci
  imports Containers
begin

text \<open>
  The search for devices on the PCI bus, \<^verbatim>\<open>src/PCI/pci.hpp\<close>, with the names of
  \<^verbatim>\<open>src/PCI/classes.hpp\<close>. The configuration space is hardware: \<open>conf\<close> is the double word that port
  \<^verbatim>\<open>0xCFC\<close> gives after an address was written to port \<^verbatim>\<open>0xCF8\<close>; reading it changes nothing. \<open>al\<close> is the
  allocator of the vector of devices, and what goes to the serial log is left out.
\<close>

section \<open>Names\<close>

definition vendors :: "(u16 \<times> string) list" where
  "vendors = [(0x8086, ''Intel''), (0x10DE, ''NVIDIA''), (0x1022, ''AMD''), (0x1AF4, ''Red Hat (virtio)''), (0x1234, ''QEMU'')]"

definition devices :: "(u16 \<times> string) list" where
  "devices = [(0x1237, ''Intel 82441FX Host Bridge''), (0x7000, ''Intel PIIX3 ISA Bridge''),
     (0x7010, ''Intel PIIX3 IDE Controller''), (0x1111, ''QEMU VGA Controller''),
     (0x100E, ''Intel PRO/1000 Ethernet Controller'')]"

definition getNameFromVendorId :: "u16 \<Rightarrow> string option" where
  "getNameFromVendorId vendor = map_of vendors vendor"

definition getNameFromDeviceId :: "u16 \<Rightarrow> string option" where
  "getNameFromDeviceId device = map_of devices device"

definition base_classes :: "(u8 \<times> string) list" where
  "base_classes = [(0, ''Unclassified''), (1, ''MassStorageControl''), (2, ''NetworkController''),
     (3, ''DisplayController''), (4, ''MultimediaController''), (5, ''MemoryController''), (6, ''Bridge''),
     (7, ''SimpleCommunicationController''), (8, ''BaseSystemPheripheral''), (9, ''InputDeviceController''),
     (10, ''DockingStation''), (11, ''Processor''), (12, ''SerialBusController''),
     (13, ''WirelessController''), (14, ''IntelligentController''), (15, ''SateliteCommunicationController''),
     (16, ''EncryptionController''), (17, ''SignalProcessController''), (18, ''ProcessingAccelerator''),
     (19, ''Non-EsentialInstrumentation''), (20, ''Reserved''), (64, ''Co-Processor''), (65, ''Reserved''),
     (255, ''Unasigned'')]"

definition baseclassToString :: "u8 \<Rightarrow> string" where
  "baseclassToString bcl = (case map_of base_classes bcl of None \<Rightarrow> ''UnknownBaseClass'' | Some s \<Rightarrow> s)"

definition sub_classes :: "(u8 \<times> (u8 \<times> string) list) list" where
  "sub_classes = [(1, [(0, ''SCSI_BusController''), (1, ''IDE_Controller''), (2, ''FloppyDiskController''),
        (3, ''IPI_BusController''), (4, ''RAID_Controller''), (5, ''ATA_Controller''),
        (6, ''SerialAtaController''), (7, ''SerialAtachedSCSI_Controller''),
        (8, ''NonVolatile-MemoryController'')]),
     (2, [(0, ''EthernetController''), (1, ''TokenRingController''), (2, ''FDDI_Controller''),
        (3, ''ATM_Controller''), (4, ''ISDN_Controller''), (5, ''WorldFlipController''),
        (6, ''PICMG 2.14 MultiComputingController''), (7, ''InfinibandController''), (8, ''FabricController'')]),
     (3, [(0, ''VgaCompatibleController''), (1, ''XGA_Controller''), (2, ''3D_Controller'')]),
     (4, [(0, ''MultimediaVideoController''), (1, ''MultimediaAudioController''),
        (2, ''ComputerTelephonyDevice''), (3, ''AudioDevice'')]),
     (5, [(0, ''MemoryController''), (1, ''FlashController'')]),
     (6, [(0, ''HostBridge''), (1, ''ISA_Bridge''), (2, ''EISA_Bridge''), (3, ''MCA_Bridge''),
        (4, ''PCI-to-PCI_Bridge''), (9, ''PCI-to-PCI_Bridge''), (5, ''PCMCIA_Bridge''), (6, ''NuBusBridge''),
        (7, ''CardBusBridge''), (8, ''RACEwayBridge''), (10, ''Infiniband-to-PCI_HostBridge'')]),
     (7, [(0, ''SerialController''), (1, ''ParallelController''), (2, ''MultiportSerialController''),
        (3, ''Modem''), (4, ''IEEE 488.1/2 (GPIB) Controller''), (5, ''SmartCardController'')]),
     (8, [(0, ''PIC''), (1, ''DMA_Controller''), (2, ''Timer''), (3, ''RTC_Controller''),
        (4, ''PCI_Hot-PlugController''), (5, ''SD_HostController''), (6, ''IOMMU'')]),
     (9, [(0, ''KeyboardController''), (1, ''DigitizerPen''), (2, ''MouseController''),
        (3, ''ScannerController''), (4, ''GamePortController'')]),
     (10, [(0, ''Generic'')])]"

definition subclassToString :: "u8 \<Rightarrow> u8 \<Rightarrow> string" where
  "subclassToString subcl basecl =
     (if subcl = 0x80 then ''Other''
      else if basecl = 0 then ''Unclassified''
      else case map_of sub_classes basecl of
          None \<Rightarrow> ''UnknownBaseClass''
        | Some names \<Rightarrow> (case map_of names subcl of None \<Rightarrow> ''Unknown'' | Some s \<Rightarrow> s))"

section \<open>The configuration space\<close>

definition pci_address :: "u8 \<Rightarrow> u8 \<Rightarrow> u8 \<Rightarrow> u8 \<Rightarrow> u32" where
  "pci_address bus slot func offset =
     push_bit 16 (ucast bus) OR push_bit 11 (ucast slot) OR push_bit 8 (ucast func) OR (ucast offset AND 0xFC) OR 0x80000000"

definition configReadWord :: "(u32 \<Rightarrow> u32) \<Rightarrow> u8 \<Rightarrow> u8 \<Rightarrow> u8 \<Rightarrow> u8 \<Rightarrow> u16" where
  "configReadWord conf bus slot func offset =
     ucast (drop_bit (unat (offset AND 2) * 8) (conf (pci_address bus slot func offset)) AND 0xFFFF)"

definition VENDOR_NONE :: u16 where "VENDOR_NONE = 0xFFFF"

definition getVendorFrom :: "(u32 \<Rightarrow> u32) \<Rightarrow> u8 \<Rightarrow> u8 \<Rightarrow> u16" where
  "getVendorFrom conf bus slot =
     (let vendor = configReadWord conf bus slot 0 0 in if vendor = VENDOR_NONE then 0 else vendor)"

definition getDeviceFrom :: "(u32 \<Rightarrow> u32) \<Rightarrow> u8 \<Rightarrow> u8 \<Rightarrow> u16" where
  "getDeviceFrom conf bus slot =
     (if getVendorFrom conf bus slot = 0 then 0 else configReadWord conf bus slot 0 2)"

definition getClassAndSubclass :: "(u32 \<Rightarrow> u32) \<Rightarrow> u8 \<Rightarrow> u8 \<Rightarrow> u8 \<Rightarrow> u8 \<times> u8" where
  "getClassAndSubclass conf bus slot func =
     (let classAndSubclass = configReadWord conf bus slot func 0x0A
      in (ucast (drop_bit 8 classAndSubclass AND 0xFF), ucast (classAndSubclass AND 0xFF)))"

section \<open>The search\<close>

record pci_device =
  pd_device :: u16
  pd_dname :: string
  pd_vendor :: u16
  pd_vname :: string
  pd_bus :: u8
  pd_slot :: u8
  pd_baseClass :: u8
  pd_subClass :: u8
  pd_baseName :: string
  pd_subName :: string

definition SIZEOF_PCIDEVICE :: u32 where "SIZEOF_PCIDEVICE = 32"

definition pci_device_at :: "(u32 \<Rightarrow> u32) \<Rightarrow> u8 \<Rightarrow> u8 \<Rightarrow> pci_device" where
  "pci_device_at conf bus slot =
     (let vendor = getVendorFrom conf bus slot; device = getDeviceFrom conf bus slot;
          (base, sub) = getClassAndSubclass conf bus slot 0
      in \<lparr>pd_device = device,
          pd_dname = (case getNameFromDeviceId device of None \<Rightarrow> ''Device not found'' | Some s \<Rightarrow> s),
          pd_vendor = vendor,
          pd_vname = (case getNameFromVendorId vendor of None \<Rightarrow> ''Vendor not found'' | Some s \<Rightarrow> s),
          pd_bus = bus, pd_slot = slot, pd_baseClass = base, pd_subClass = sub,
          pd_baseName = baseclassToString base, pd_subName = subclassToString sub base\<rparr>)"

fun pci_slots :: "(u32 \<Rightarrow> bool) \<Rightarrow> (u32 \<Rightarrow> u32) \<Rightarrow> u8 \<Rightarrow> u8 list \<Rightarrow> pci_device kvec \<Rightarrow> pci_device kvec exec" where
  "pci_slots al conf bus [] v = Inr v"
| "pci_slots al conf bus (slot # ss) v =
     bindE (if getVendorFrom conf bus slot \<noteq> 0
            then kvec_pushBack al SIZEOF_PCIDEVICE v (pci_device_at conf bus slot)
            else Inr v) (pci_slots al conf bus ss)"

fun pci_buses :: "(u32 \<Rightarrow> bool) \<Rightarrow> (u32 \<Rightarrow> u32) \<Rightarrow> u8 list \<Rightarrow> pci_device kvec \<Rightarrow> pci_device kvec exec" where
  "pci_buses al conf [] v = Inr v"
| "pci_buses al conf (bus # buses) v =
     bindE (pci_slots al conf bus (List.map word_of_nat [0..<32]) v) (pci_buses al conf buses)"

definition getAllPciDevices :: "(u32 \<Rightarrow> bool) \<Rightarrow> (u32 \<Rightarrow> u32) \<Rightarrow> pci_device kvec \<Rightarrow> pci_device kvec exec" where
  "getAllPciDevices al conf pciDeviceVec = pci_buses al conf (List.map word_of_nat [0..<255]) pciDeviceVec"

section \<open>Addresses\<close>

text \<open>The address of a register holds the numbers of the bus, the slot and the function apart.\<close>

lemma bit_0xFC: "bit (0xFC :: 'a::len word) n \<longleftrightarrow> 2 \<le> n \<and> n < 8 \<and> n < LENGTH('a)"
proof -
  have "(0xFC :: 'a word) = push_bit 2 (mask 6)"
    by (simp add: mask_eq_exp_minus_1 push_bit_eq_mult)
  then show ?thesis
    by (simp only: bit_push_bit_iff bit_mask_iff possible_bit_word) auto
qed

lemma bit_31: "bit (0x80000000 :: u32) n \<longleftrightarrow> n = 31"
proof -
  have "(0x80000000 :: u32) = push_bit 31 1"
    by (simp add: push_bit_eq_mult)
  then show ?thesis
    by (simp only: bit_push_bit_iff possible_bit_word bit_1_iff) auto
qed

lemma small_bits:
  fixes w :: u8
  assumes "unat w < 2 ^ k" and "bit w m"
  shows "m < k"
proof -
  have "take_bit k w = w"
    unfolding word_unat_eq_iff by (simp add: unsigned_take_bit_eq take_bit_nat_eq_self assms(1))
  then have "bit (take_bit k w) m"
    using assms(2) by simp
  then show ?thesis
    by (simp add: bit_take_bit_iff)
qed

lemma bit_pci_address:
  assumes "unat slot < 32" and "unat func < 8"
  shows "bit (pci_address bus slot func offset) n \<longleftrightarrow>
    (2 \<le> n \<and> n < 8 \<and> bit offset n) \<or> (8 \<le> n \<and> n < 11 \<and> bit func (n - 8)) \<or> (11 \<le> n \<and> n < 16 \<and> bit slot (n - 11)) \<or>
    (16 \<le> n \<and> n < 24 \<and> bit bus (n - 16)) \<or> n = 31"
proof -
  have f: "bit func m \<Longrightarrow> m < 3" and s: "bit slot m \<Longrightarrow> m < 5" for m
    using small_bits [of func 3 m] small_bits [of slot 5 m] assms by simp_all
  show ?thesis
    unfolding pci_address_def bit_or_iff bit_and_iff bit_0xFC bit_31 bit_push_bit_iff
    by (auto simp: bit_ucast_iff dest: bit_imp_le_length f s)
qed

definition addr_bus :: "u32 \<Rightarrow> u8" where "addr_bus a = ucast (drop_bit 16 a)"
definition addr_slot :: "u32 \<Rightarrow> u8" where "addr_slot a = ucast (take_bit 5 (drop_bit 11 a))"
definition addr_func :: "u32 \<Rightarrow> u8" where "addr_func a = ucast (take_bit 3 (drop_bit 8 a))"
definition addr_reg :: "u32 \<Rightarrow> u8" where "addr_reg a = ucast a AND 0xFC"

lemma pci_address_fields:
  assumes "unat slot < 32" and "unat func < 8"
  shows "bit (pci_address bus slot func offset) 31" and "addr_bus (pci_address bus slot func offset) = bus"
    and "addr_slot (pci_address bus slot func offset) = slot" and "addr_func (pci_address bus slot func offset) = func"
    and "addr_reg (pci_address bus slot func offset) = offset AND 0xFC"
proof -
  note b = bit_pci_address [OF assms]
  show "bit (pci_address bus slot func offset) 31"
    by (simp add: b)
  show "addr_bus (pci_address bus slot func offset) = bus"
    unfolding addr_bus_def by (rule bit_word_eqI) (auto simp: bit_ucast_iff bit_drop_bit_eq b)
  show "addr_slot (pci_address bus slot func offset) = slot"
    unfolding addr_slot_def
    by (rule bit_word_eqI) (use small_bits [of slot 5] assms(1) in \<open>auto simp: bit_ucast_iff bit_take_bit_iff bit_drop_bit_eq b\<close>)
  show "addr_func (pci_address bus slot func offset) = func"
    unfolding addr_func_def
    by (rule bit_word_eqI) (use small_bits [of func 3] assms(2) in \<open>auto simp: bit_ucast_iff bit_take_bit_iff bit_drop_bit_eq b\<close>)
  show "addr_reg (pci_address bus slot func offset) = offset AND 0xFC"
    unfolding addr_reg_def by (rule bit_word_eqI) (simp only: bit_and_iff bit_0xFC bit_ucast_iff b, auto)
qed

section \<open>What the search finds\<close>

text \<open>
  The registers of a device: its vendor and number in the first double word, its class in the upper half
  of the third. Where there is no device every bit is set.
\<close>

record pci_function =
  pf_vendor :: u16
  pf_device :: u16
  pf_base :: u8
  pf_sub :: u8
  pf_low :: u16

definition pci_space :: "(u32 \<Rightarrow> u32) \<Rightarrow> (u8 \<Rightarrow> u8 \<Rightarrow> pci_function option) \<Rightarrow> bool" where
  "pci_space conf devs \<longleftrightarrow> (\<forall>a. bit a 31 \<and> addr_func a = 0 \<longrightarrow>
     (case devs (addr_bus a) (addr_slot a) of
        None \<Rightarrow> conf a = 0xFFFFFFFF
      | Some p \<Rightarrow> pf_vendor p \<noteq> 0 \<and> pf_vendor p \<noteq> 0xFFFF \<and>
          (addr_reg a = 0 \<longrightarrow> conf a = ucast (pf_vendor p) OR push_bit 16 (ucast (pf_device p))) \<and>
          (addr_reg a = 8 \<longrightarrow> conf a = ucast (pf_low p) OR push_bit 16 (ucast (pf_sub p)) OR push_bit 24 (ucast (pf_base p)))))"

definition pci_entry :: "u8 \<Rightarrow> u8 \<Rightarrow> pci_function \<Rightarrow> pci_device" where
  "pci_entry bus slot p =
     \<lparr>pd_device = pf_device p,
      pd_dname = (case getNameFromDeviceId (pf_device p) of None \<Rightarrow> ''Device not found'' | Some s \<Rightarrow> s),
      pd_vendor = pf_vendor p,
      pd_vname = (case getNameFromVendorId (pf_vendor p) of None \<Rightarrow> ''Vendor not found'' | Some s \<Rightarrow> s),
      pd_bus = bus, pd_slot = slot, pd_baseClass = pf_base p, pd_subClass = pf_sub p,
      pd_baseName = baseclassToString (pf_base p), pd_subName = subclassToString (pf_sub p) (pf_base p)\<rparr>"

definition pci_entries :: "(u8 \<Rightarrow> u8 \<Rightarrow> pci_function option) \<Rightarrow> u8 \<Rightarrow> u8 list \<Rightarrow> pci_device list" where
  "pci_entries devs bus ss =
     concat (List.map (\<lambda>slot. case devs bus slot of None \<Rightarrow> [] | Some p \<Rightarrow> [pci_entry bus slot p]) ss)"

lemma mask_16: "(0xFFFF :: u32) = mask 16"
  by (simp add: mask_eq_exp_minus_1)

lemma mask_8: "(0xFF :: u16) = mask 8"
  by (simp add: mask_eq_exp_minus_1)

lemma word_halves:
  fixes a b :: u16
  shows "(ucast ((ucast a OR push_bit 16 (ucast b) :: u32) AND 0xFFFF) :: u16) = a"
    and "(ucast (drop_bit 16 (ucast a OR push_bit 16 (ucast b) :: u32) AND 0xFFFF) :: u16) = b"
  unfolding mask_16 by (rule bit_word_eqI; auto simp: bit_simps dest: bit_imp_le_length)+

lemma word_class:
  fixes a :: u16 and b c :: u8
  shows "ucast (drop_bit 8 (ucast (drop_bit 16 (ucast a OR push_bit 16 (ucast b) OR push_bit 24 (ucast c) :: u32) AND 0xFFFF) :: u16) AND 0xFF) = c"
    and "ucast ((ucast (drop_bit 16 (ucast a OR push_bit 16 (ucast b) OR push_bit 24 (ucast c) :: u32) AND 0xFFFF) :: u16) AND 0xFF) = b"
  unfolding mask_16 mask_8 by (rule bit_word_eqI; auto simp: bit_simps dest: bit_imp_le_length)+

lemma pci_space_at:
  assumes "pci_space conf devs" and "unat slot < 32"
  shows "devs bus slot = None \<Longrightarrow> conf (pci_address bus slot 0 offset) = 0xFFFFFFFF"
    and "devs bus slot = Some p \<Longrightarrow> pf_vendor p \<noteq> 0 \<and> pf_vendor p \<noteq> 0xFFFF \<and>
      (offset AND 0xFC = 0 \<longrightarrow> conf (pci_address bus slot 0 offset) = ucast (pf_vendor p) OR push_bit 16 (ucast (pf_device p))) \<and>
      (offset AND 0xFC = 8 \<longrightarrow> conf (pci_address bus slot 0 offset) =
        ucast (pf_low p) OR push_bit 16 (ucast (pf_sub p)) OR push_bit 24 (ucast (pf_base p)))"
proof -
  have "unat (0 :: u8) < 8"
    by simp
  note f = pci_address_fields [OF assms(2) this, of bus offset]
  from assms(1) [unfolded pci_space_def, rule_format, OF conjI, OF f(1,4)] show
    "devs bus slot = None \<Longrightarrow> conf (pci_address bus slot 0 offset) = 0xFFFFFFFF"
    "devs bus slot = Some p \<Longrightarrow> pf_vendor p \<noteq> 0 \<and> pf_vendor p \<noteq> 0xFFFF \<and>
      (offset AND 0xFC = 0 \<longrightarrow> conf (pci_address bus slot 0 offset) = ucast (pf_vendor p) OR push_bit 16 (ucast (pf_device p))) \<and>
      (offset AND 0xFC = 8 \<longrightarrow> conf (pci_address bus slot 0 offset) =
        ucast (pf_low p) OR push_bit 16 (ucast (pf_sub p)) OR push_bit 24 (ucast (pf_base p)))"
    unfolding f(2,3,5) by simp_all
qed

lemma pci_offsets:
  "(0 :: u8) AND 0xFC = 0" "(2 :: u8) AND 0xFC = 0" "(0x0A :: u8) AND 0xFC = 8"
  "unat ((0 :: u8) AND 2) * 8 = 0" "unat ((2 :: u8) AND 2) * 8 = 16" "unat ((0x0A :: u8) AND 2) * 8 = 16"
  by code_simp+

lemma pci_read_absent:
  assumes "pci_space conf devs" and "unat slot < 32" and "devs bus slot = None"
  shows "getVendorFrom conf bus slot = 0"
proof -
  have "(ucast (drop_bit 0 (0xFFFFFFFF :: u32) AND 0xFFFF) :: u16) = 0xFFFF"
    by code_simp
  then show ?thesis
    using pci_space_at(1) [OF assms(1,2,3)]
    by (simp only: getVendorFrom_def configReadWord_def pci_offsets Let_def VENDOR_NONE_def if_True simp_thms)
qed

lemma pci_read_present:
  assumes "pci_space conf devs" and "unat slot < 32" and "devs bus slot = Some p"
  shows "getVendorFrom conf bus slot = pf_vendor p" and "pf_vendor p \<noteq> 0" and "pci_device_at conf bus slot = pci_entry bus slot p"
proof -
  note at = pci_space_at(2) [OF assms]
  have v: "configReadWord conf bus slot 0 0 = pf_vendor p" "configReadWord conf bus slot 0 2 = pf_device p"
    using at [of 0] at [of 2] word_halves by (simp_all only: configReadWord_def pci_offsets drop_bit_0 id_apply simp_thms)
  have "getClassAndSubclass conf bus slot 0 = (pf_base p, pf_sub p)"
    using at [of "0x0A"] word_class
    by (simp only: getClassAndSubclass_def configReadWord_def pci_offsets Let_def simp_thms)
  then show "getVendorFrom conf bus slot = pf_vendor p" "pf_vendor p \<noteq> 0" "pci_device_at conf bus slot = pci_entry bus slot p"
    using v at by (simp_all add: getVendorFrom_def getDeviceFrom_def VENDOR_NONE_def pci_device_at_def pci_entry_def Let_def)
qed

lemma pci_slots_eq:
  assumes "pci_space conf devs" and "\<forall>n. al n"
  shows "list_all (\<lambda>slot. unat slot < 32) ss \<Longrightarrow> kvec_is SIZEOF_PCIDEVICE v xs \<Longrightarrow> length xs + length ss \<le> 2 ^ 14 \<Longrightarrow>
    \<exists>v'. pci_slots al conf bus ss v = Inr v' \<and> kvec_is SIZEOF_PCIDEVICE v' (xs @ pci_entries devs bus ss)"
proof (induction ss arbitrary: v xs)
  case Nil
  then show ?case
    by (simp add: pci_entries_def)
next
  case (Cons slot ss)
  have slot: "unat slot < 32" "list_all (\<lambda>slot. unat slot < 32) ss"
    using Cons.prems(1) by simp_all
  show ?case
  proof (cases "devs bus slot")
    case None
    then show ?thesis
      using Cons.IH [OF slot(2) Cons.prems(2)] Cons.prems(3) pci_read_absent [OF assms(1) slot(1) None]
      by (simp add: pci_entries_def)
  next
    case (Some p)
    note r = pci_read_present [OF assms(1) slot(1) Some]
    have "2 * Suc (length xs) * unat SIZEOF_PCIDEVICE \<le> 2 * 2 ^ 14 * 32"
      using Cons.prems(3) by (intro mult_le_mono) (simp_all add: SIZEOF_PCIDEVICE_def)
    then obtain v1 where v1: "kvec_pushBack al SIZEOF_PCIDEVICE v (pci_entry bus slot p) = Inr v1"
        "kvec_is SIZEOF_PCIDEVICE v1 (xs @ [pci_entry bus slot p])"
      using kvec_push_is [OF Cons.prems(2), of al "pci_entry bus slot p"] assms(2) by auto
    show ?thesis
      using Cons.IH [OF slot(2) v1(2)] Cons.prems(3) r v1(1) Some by (simp add: pci_entries_def)
  qed
qed

lemma length_pci_entries: "length (pci_entries devs bus ss) \<le> length ss"
  by (induction ss) (auto simp: pci_entries_def split: option.split)

lemma pci_all_slots: "list_all (\<lambda>slot :: u8. unat slot < 32) (List.map word_of_nat [0..<32])"
  by (auto simp: list_all_iff unat_of_nat)

lemma pci_buses_eq:
  assumes "pci_space conf devs" and "\<forall>n. al n"
  shows "kvec_is SIZEOF_PCIDEVICE v xs \<Longrightarrow> length xs + 32 * length bs \<le> 2 ^ 14 \<Longrightarrow>
    \<exists>v'. pci_buses al conf bs v = Inr v' \<and>
      kvec_is SIZEOF_PCIDEVICE v' (xs @ concat (List.map (\<lambda>bus. pci_entries devs bus (List.map word_of_nat [0..<32])) bs))"
proof (induction bs arbitrary: v xs)
  case (Cons bus bs)
  let ?ss = "List.map word_of_nat [0..<32] :: u8 list"
  have len: "length (pci_entries devs bus ?ss) \<le> 32"
    using length_pci_entries [of devs bus ?ss] by simp
  obtain v1 where v1: "pci_slots al conf bus ?ss v = Inr v1" "kvec_is SIZEOF_PCIDEVICE v1 (xs @ pci_entries devs bus ?ss)"
    using pci_slots_eq [OF assms pci_all_slots Cons.prems(1), of bus] Cons.prems(2) by auto
  have "length (xs @ pci_entries devs bus ?ss) + 32 * length bs \<le> 2 ^ 14"
    using Cons.prems(2) len by simp
  from Cons.IH [OF v1(2) this] show ?case
    using v1(1) by auto
qed simp

subsection \<open>The names, by position\<close>

text \<open>
  The names the device classes have, written down a second time and in another way: the names of the
  classes in the order of their numbers, and for the classes 1 to 10 the names of their subclasses in the
  order of theirs.
\<close>

definition class_name :: "nat \<Rightarrow> string" where
  "class_name b =
     (let names = [''Unclassified'', ''MassStorageControl'', ''NetworkController'', ''DisplayController'',
        ''MultimediaController'', ''MemoryController'', ''Bridge'', ''SimpleCommunicationController'',
        ''BaseSystemPheripheral'', ''InputDeviceController'', ''DockingStation'', ''Processor'',
        ''SerialBusController'', ''WirelessController'', ''IntelligentController'',
        ''SateliteCommunicationController'', ''EncryptionController'', ''SignalProcessController'',
        ''ProcessingAccelerator'', ''Non-EsentialInstrumentation'', ''Reserved'']
      in if b < 21 then names ! b
         else if b = 64 then ''Co-Processor'' else if b = 65 then ''Reserved''
         else if b = 255 then ''Unasigned'' else ''UnknownBaseClass'')"

definition subclass_names :: "string list list" where
  "subclass_names =
     [[''SCSI_BusController'', ''IDE_Controller'', ''FloppyDiskController'', ''IPI_BusController'', ''RAID_Controller'',
       ''ATA_Controller'', ''SerialAtaController'', ''SerialAtachedSCSI_Controller'', ''NonVolatile-MemoryController''],
      [''EthernetController'', ''TokenRingController'', ''FDDI_Controller'', ''ATM_Controller'', ''ISDN_Controller'',
       ''WorldFlipController'', ''PICMG 2.14 MultiComputingController'', ''InfinibandController'', ''FabricController''],
      [''VgaCompatibleController'', ''XGA_Controller'', ''3D_Controller''],
      [''MultimediaVideoController'', ''MultimediaAudioController'', ''ComputerTelephonyDevice'', ''AudioDevice''],
      [''MemoryController'', ''FlashController''],
      [''HostBridge'', ''ISA_Bridge'', ''EISA_Bridge'', ''MCA_Bridge'', ''PCI-to-PCI_Bridge'', ''PCMCIA_Bridge'',
       ''NuBusBridge'', ''CardBusBridge'', ''RACEwayBridge'', ''PCI-to-PCI_Bridge'', ''Infiniband-to-PCI_HostBridge''],
      [''SerialController'', ''ParallelController'', ''MultiportSerialController'', ''Modem'',
       ''IEEE 488.1/2 (GPIB) Controller'', ''SmartCardController''],
      [''PIC'', ''DMA_Controller'', ''Timer'', ''RTC_Controller'', ''PCI_Hot-PlugController'', ''SD_HostController'', ''IOMMU''],
      [''KeyboardController'', ''DigitizerPen'', ''MouseController'', ''ScannerController'', ''GamePortController''],
      [''Generic'']]"

definition subclass_name :: "nat \<Rightarrow> nat \<Rightarrow> string" where
  "subclass_name b sc =
     (if sc = 128 then ''Other'' else if b = 0 then ''Unclassified'' else if 10 < b then ''UnknownBaseClass''
      else if sc < length (subclass_names ! (b - 1)) then subclass_names ! (b - 1) ! sc else ''Unknown'')"

definition pci_named :: "pci_device \<Rightarrow> bool" where
  "pci_named x \<longleftrightarrow>
     pd_vname x = (if pd_vendor x = 0x8086 then ''Intel'' else if pd_vendor x = 0x10DE then ''NVIDIA''
       else if pd_vendor x = 0x1022 then ''AMD'' else if pd_vendor x = 0x1AF4 then ''Red Hat (virtio)''
       else if pd_vendor x = 0x1234 then ''QEMU'' else ''Vendor not found'') \<and>
     pd_dname x = (if pd_device x = 0x1237 then ''Intel 82441FX Host Bridge''
       else if pd_device x = 0x7000 then ''Intel PIIX3 ISA Bridge''
       else if pd_device x = 0x7010 then ''Intel PIIX3 IDE Controller''
       else if pd_device x = 0x1111 then ''QEMU VGA Controller''
       else if pd_device x = 0x100E then ''Intel PRO/1000 Ethernet Controller'' else ''Device not found'') \<and>
     pd_baseName x = class_name (unat (pd_baseClass x)) \<and>
     pd_subName x = subclass_name (unat (pd_baseClass x)) (unat (pd_subClass x))"

lemma map_of_numbers:
  "map_of xs (w :: 'a::len word) = map_of (List.map (\<lambda>(a, b). (unat a, b)) xs) (unat w)"
  by (induction xs) (auto simp: word_unat_eq_iff)

lemma map_of_tables:
  "map_of (List.map (\<lambda>(a :: 'a::len word, ns). (unat a, f ns)) xs) (unat w) = map_option f (map_of xs w)"
  by (induction xs) (auto simp: word_unat_eq_iff)

lemma class_name_eq: "baseclassToString w = class_name (unat w)"
proof -
  have all: "\<forall>n \<in> set [0..<256]. (case map_of (List.map (\<lambda>(a, b). (unat a, b)) base_classes) n of None \<Rightarrow> ''UnknownBaseClass'' | Some s \<Rightarrow> s) = class_name n"
    by code_simp
  have "unat w \<in> set [0..<256]"
    using unsigned_less [of w] by simp
  with all show ?thesis
    unfolding baseclassToString_def map_of_numbers [of base_classes w] by blast
qed

lemma subclass_name_eq: "subclassToString sc b = subclass_name (unat b) (unat sc)"
proof -
  let ?t = "List.map (\<lambda>(a, ns). (unat a, List.map (\<lambda>(c, s). (unat c, s)) ns)) sub_classes"
  have in_table: "\<forall>n \<in> set [1..<11]. case map_of ?t n of None \<Rightarrow> False
      | Some ns \<Rightarrow> length (subclass_names ! (n - 1)) = length ns \<and>
          list_all (\<lambda>(c, s). c < length ns \<and> subclass_names ! (n - 1) ! c = s) ns \<and>
          (\<forall>m \<in> set [0..<length ns]. map_of ns m \<noteq> None)"
    by code_simp
  have keys: "\<forall>n \<in> set (List.map fst ?t). 0 < n \<and> n < 11"
    by code_simp
  have t: "map_of ?t (unat b) = map_option (\<lambda>ns. List.map (\<lambda>(c, s). (unat c, s)) ns) (map_of sub_classes b)" for b :: u8
    by (rule map_of_tables)
  show ?thesis
  proof (cases "sc = 0x80 \<or> b = 0 \<or> 10 < unat b")
    case True
    have "10 < unat b \<Longrightarrow> map_of sub_classes b = None"
      using keys t [of b] map_of_eq_None_iff [of ?t "unat b"] by fastforce
    then show ?thesis
      using True by (auto simp: subclassToString_def subclass_name_def word_unat_eq_iff)
  next
    case False
    then have r: "unat b \<in> set [1..<11]"
      by (simp add: word_unat_eq_iff)
    obtain ns where ns: "map_of sub_classes b = Some ns"
      using in_table [rule_format, OF r] t [of b] by (cases "map_of sub_classes b") simp_all
    let ?ns = "List.map (\<lambda>(c, s). (unat c, s)) ns"
    have tab: "length (subclass_names ! (unat b - 1)) = length ns"
        "list_all (\<lambda>(c, s). c < length ns \<and> subclass_names ! (unat b - 1) ! c = s) ?ns"
        "\<forall>m \<in> set [0..<length ns]. map_of ?ns m \<noteq> None"
      using in_table [rule_format, OF r] unfolding t ns by simp_all
    note len = tab(1)
    have entries: "unat c < length ns \<and> subclass_names ! (unat b - 1) ! unat c = s" if e: "(c, s) \<in> set ns" for c s
      using tab(2) e unfolding list_all_iff by (force simp: image_iff)
    have dense: "map_of ?ns m \<noteq> None" if "m < length ns" for m
      using tab(3) that by simp
    have "(case map_of ns sc of None \<Rightarrow> ''Unknown'' | Some s \<Rightarrow> s) =
        (if unat sc < length ns then subclass_names ! (unat b - 1) ! unat sc else ''Unknown'')"
      using entries [OF map_of_SomeD, of sc] dense [of "unat sc", folded map_of_numbers]
      by (auto split: option.split)
    then show ?thesis
      using False ns len by (simp add: subclassToString_def subclass_name_def word_unat_eq_iff)
  qed
qed

lemma pci_entry_named: "pci_named (pci_entry bus slot p)"
  by (simp add: pci_named_def pci_entry_def class_name_eq subclass_name_eq getNameFromVendorId_def
      getNameFromDeviceId_def vendors_def devices_def)

definition pci_numbers :: "pci_device \<Rightarrow> u8 \<times> u8 \<times> u16 \<times> u16 \<times> u8 \<times> u8" where
  "pci_numbers x = (pd_bus x, pd_slot x, pd_vendor x, pd_device x, pd_baseClass x, pd_subClass x)"

lemma pci_entries_numbers:
  "List.map pci_numbers (pci_entries devs bus ss) =
     [(bus, slot, pf_vendor p, pf_device p, pf_base p, pf_sub p). slot \<leftarrow> ss, Some p \<leftarrow> [devs bus slot]]"
  by (induction ss) (auto simp: pci_entries_def pci_entry_def pci_numbers_def split: option.split)

lemma pci_entries_named: "\<forall>x \<in> set (pci_entries devs bus ss). pci_named x"
  by (auto simp: pci_entries_def pci_entry_named split: option.splits)

lemma getAllPciDevices_eq:
  assumes "pci_space conf devs" and "\<forall>n. al n"
  shows "\<exists>v. getAllPciDevices al conf (kvec_new al SIZEOF_PCIDEVICE) = Inr v \<and> kvec_is SIZEOF_PCIDEVICE v
    (concat (List.map (\<lambda>bus. pci_entries devs bus (List.map word_of_nat [0..<32])) (List.map word_of_nat [0..<255])))"
proof -
  have "kvec_is SIZEOF_PCIDEVICE (kvec_new al SIZEOF_PCIDEVICE :: pci_device kvec) []"
    using assms(2) by (intro kvec_new_is) (simp_all add: SIZEOF_PCIDEVICE_def)
  from pci_buses_eq [OF assms this, of "List.map word_of_nat [0..<255]"] show ?thesis
    by (simp add: getAllPciDevices_def)
qed

text \<open>C23: The search fills the vector with one entry for every slot of the buses 0 to 254 whose function 0 is
  there, in the order of the buses and slots, and with nothing else: the numbers of an entry are those the
  function's registers hold, and its four names are the ones the lists by position give these numbers. Bus 255 and the
  further functions of a device are not looked at, so what is there is not found.\<close>

theorem pci_finds_devices:
  assumes "pci_space conf devs" and "\<forall>n. al n"
  shows "\<exists>v xs. getAllPciDevices al conf (kvec_new al SIZEOF_PCIDEVICE) = Inr v \<and> kvec_is SIZEOF_PCIDEVICE v xs \<and>
    (\<forall>x \<in> set xs. pci_named x) \<and>
    List.map pci_numbers xs =
      [(bus, slot, pf_vendor p, pf_device p, pf_base p, pf_sub p).
         bus \<leftarrow> List.map word_of_nat [0..<255], slot \<leftarrow> List.map word_of_nat [0..<32], Some p \<leftarrow> [devs bus slot]]"
proof -
  let ?xs = "concat (List.map (\<lambda>bus. pci_entries devs bus (List.map word_of_nat [0..<32])) (List.map word_of_nat [0..<255]))"
  have "\<forall>x \<in> set ?xs. pci_named x"
    using pci_entries_named by fastforce
  moreover have "List.map pci_numbers ?xs =
      [(bus, slot, pf_vendor p, pf_device p, pf_base p, pf_sub p).
         bus \<leftarrow> List.map word_of_nat [0..<255], slot \<leftarrow> List.map word_of_nat [0..<32], Some p \<leftarrow> [devs bus slot]]"
    by (simp only: map_concat list.map_comp o_def pci_entries_numbers)
  ultimately show ?thesis
    using getAllPciDevices_eq [OF assms] by blast
qed

text \<open>A machine with a display controller in slot 2 of bus 0.\<close>

definition demo_pci :: "u32 \<Rightarrow> u32" where
  "demo_pci a = (if addr_bus a \<noteq> 0 \<or> addr_slot a \<noteq> 2 then 0xFFFFFFFF
     else if addr_reg a = 0 then 0x11111234 else if addr_reg a = 8 then 0x03000000 else 0)"

definition demo_devs :: "u8 \<Rightarrow> u8 \<Rightarrow> pci_function option" where
  "demo_devs bus slot = (if bus \<noteq> 0 \<or> slot \<noteq> 2 then None
     else Some \<lparr>pf_vendor = 0x1234, pf_device = 0x1111, pf_base = 3, pf_sub = 0, pf_low = 0\<rparr>)"

theorem pci_finds_devices_witness:
  "\<exists>v x. getAllPciDevices (\<lambda>_. True) demo_pci (kvec_new (\<lambda>_. True) SIZEOF_PCIDEVICE) = Inr v \<and>
     kvec_is SIZEOF_PCIDEVICE v [x] \<and> pci_numbers x = (0, 2, 0x1234, 0x1111, 3, 0) \<and>
     pd_vname x = ''QEMU'' \<and> pd_dname x = ''QEMU VGA Controller'' \<and>
     pd_baseName x = ''DisplayController'' \<and> pd_subName x = ''VgaCompatibleController''"
proof -
  have "(0x11111234 :: u32) = ucast (0x1234 :: u16) OR push_bit 16 (ucast (0x1111 :: u16))"
    "(0x03000000 :: u32) = ucast (0 :: u16) OR push_bit 16 (ucast (0 :: u8)) OR push_bit 24 (ucast (3 :: u8))"
    by code_simp+
  then have space: "pci_space demo_pci demo_devs"
    by (auto simp: pci_space_def demo_pci_def demo_devs_def split: option.split)
  have one: "[(bus, slot, pf_vendor p, pf_device p, pf_base p, pf_sub p).
      bus \<leftarrow> List.map word_of_nat [0..<255], slot \<leftarrow> List.map word_of_nat [0..<32], Some p \<leftarrow> [demo_devs bus slot]] =
      [(0, 2, 0x1234, 0x1111, 3, 0)]"
    by code_simp
  note ex = pci_finds_devices [OF space, of "\<lambda>_. True", OF allI, OF TrueI, unfolded one]
  from ex obtain v xs where found: "getAllPciDevices (\<lambda>_. True) demo_pci (kvec_new (\<lambda>_. True) SIZEOF_PCIDEVICE) = Inr v"
      "kvec_is SIZEOF_PCIDEVICE v xs" "\<forall>x \<in> set xs. pci_named x" "List.map pci_numbers xs = [(0, 2, 0x1234, 0x1111, 3, 0)]"
    by (elim exE conjE) (rule that)
  then obtain x where x: "xs = [x]" "pci_numbers x = (0, 2, 0x1234, 0x1111, 3, 0)"
    by auto
  then have "pci_named x"
    using found(3) by simp
  then have "pd_vname x = ''QEMU'' \<and> pd_dname x = ''QEMU VGA Controller'' \<and>
      pd_baseName x = ''DisplayController'' \<and> pd_subName x = ''VgaCompatibleController''"
    using x(2) by (simp add: pci_named_def pci_numbers_def class_name_def subclass_name_def subclass_names_def Let_def)
  then show ?thesis
    using found(1,2) x by blast
qed

end
