(* ===== verification/BootFat.thy ===== *)
theory BootFat
  imports Fat32
begin

text \<open>
  The file system of the boot loader, \<^verbatim>\<open>src/boot/fs/fs.c\<close> with \<^verbatim>\<open>fs.h\<close>: a second reader of FAT32
  volumes, in C, beside the driver of the kernel. The drive is the function that gives the 512 bytes of a
  sector, as for the kernel; the allocator of the boot loader never refuses and \<open>al\<close> gives the buffer for
  a size. The helpers of \<^verbatim>\<open>src/boot/string.h\<close> are those of the kernel. Its directory entries are not the
  32 bytes of the format: the member \<^verbatim>\<open>creationTime\<close> has one byte instead of two, so that an entry has 31
  bytes and every member behind it lies one byte too low. What follows from that is proved at the end.
\<close>

type_synonym boot_allocator = "nat \<Rightarrow> u8 list"

section \<open>The volume\<close>

definition boot_clusterToSector :: "fat32 \<Rightarrow> u32 \<Rightarrow> u32" where
  "boot_clusterToSector s cluster = dataRegionStart s + (cluster - 2) * sectorsPerCluster (bootSector s)"

definition boot_readFatEntry :: "disk \<Rightarrow> fat32 \<Rightarrow> u32 \<Rightarrow> u32 exec" where
  "boot_readFatEntry d s cluster =
     (let fatOffset = cluster * 4; bps = bytesPerSector (bootSector s) in
      if bps = 0 then Inl (Trap ''divide error'')
      else let fatSector = reservedSectors (bootSector s) + fatOffset div bps;
               entryOffsetInSector = fatOffset mod bps
           in bindE (rd32 (d fatSector) entryOffsetInSector) (\<lambda>entry. Inr (entry AND 0x0FFFFFFF)))"

definition boot_readCluster :: "disk \<Rightarrow> fat32 \<Rightarrow> u32 \<Rightarrow> u8 list \<Rightarrow> u8 list exec" where
  "boot_readCluster d s cluster buf =
     readCluster_loop d (boot_clusterToSector s cluster) [0..<unat (sectorsPerCluster (bootSector s))] buf"

definition BOOT_SIZEOF_BOOTSECTOR :: nat where "BOOT_SIZEOF_BOOTSECTOR = 504"

text \<open>A volume whose signature is wrong stops the boot loader in an endless loop.\<close>

definition fsInit :: "disk \<Rightarrow> fat32 exec" where
  "fsInit d =
     (let b = take BOOT_SIZEOF_BOOTSECTOR (d 0) in
      if bs_signature b \<noteq> 0x28 \<and> bs_signature b \<noteq> 0x29 then Inl Hang
      else Inr \<lparr>bootSector = b, dataRegionStart = reservedSectors b + fatsOnMedia b * sectorsPerFat32 b\<rparr>)"

section \<open>Names\<close>

text \<open>
  The name as far as it was read, and whether the loop ended at the end of its part; a longer part ends
  \<^verbatim>\<open>makeFatName\<close> on the spot, with the characters so far and without the change to upper case.
\<close>

fun boot_base :: "u8 list \<Rightarrow> u8 list \<Rightarrow> (u8 list \<times> u8 list option) exec" where
  "boot_base acc [] = Inl OutOfBounds"
| "boot_base acc (c # s) =
     (if c \<noteq> 0 \<and> \<not> is_sep c \<and> c \<noteq> 46
      then (if length acc \<ge> 8 then Inr (acc, None) else boot_base (acc @ [c]) s)
      else Inr (acc, Some (c # s)))"

fun boot_ext :: "u8 list \<Rightarrow> u8 list \<Rightarrow> (u8 list \<times> bool) exec" where
  "boot_ext acc [] = Inl OutOfBounds"
| "boot_ext acc (c # s) =
     (if c \<noteq> 0 \<and> \<not> is_sep c
      then (if length acc \<ge> 3 then Inr (acc, False) else boot_ext (acc @ [c]) s)
      else Inr (acc, True))"

definition boot_makeFatName :: "u8 list \<Rightarrow> u8 list exec" where
  "boot_makeFatName normalName =
     bindE (boot_base [] normalName) (\<lambda>(name, r). case r of
         None \<Rightarrow> Inr (pad 8 name @ pad 3 [] @ [0])
       | Some rest \<Rightarrow>
           if name = [] then Inr (pad 8 [] @ pad 3 [] @ [0])
           else bindE (if hd rest = 46 then boot_ext [] (tl rest) else Inr ([], True)) (\<lambda>(ext, done).
             if done then strToUpper (pad 8 name @ pad 3 ext @ [0])
             else Inr (pad 8 name @ pad 3 ext @ [0])))"

section \<open>Directories\<close>

text \<open>The members of an entry up to the attributes are where the format has them.\<close>

definition BOOT_SIZEOF_DIRENTRY :: nat where "BOOT_SIZEOF_DIRENTRY = 31"
definition be_firstClusterHigh :: "u8 list \<Rightarrow> u16" where "be_firstClusterHigh e = field16 e 19"
definition be_firstClusterLow :: "u8 list \<Rightarrow> u16" where "be_firstClusterLow e = field16 e 25"
definition be_filesize :: "u8 list \<Rightarrow> u32" where "be_filesize e = field32 e 27"

definition boot_clusterOf :: "u8 list \<Rightarrow> u32" where
  "boot_clusterOf e = push_bit 16 (ucast (be_firstClusterHigh e)) OR ucast (be_firstClusterLow e)"

fun boot_scan :: "u8 list \<Rightarrow> u8 list \<Rightarrow> nat \<Rightarrow> scan exec" where
  "boot_scan fatName buf 0 = Inr NextCluster"
| "boot_scan fatName buf (Suc n) =
     (let e = take BOOT_SIZEOF_DIRENTRY buf; rest = drop BOOT_SIZEOF_DIRENTRY buf in
      if e ! 0 = 0 then Inr EndOfDir
      else if e ! 0 = 0xE5 then boot_scan fatName rest n
      else if de_attributes e AND 0x0F = 0x0F then boot_scan fatName rest n
      else bindE (strToUpper (de_name e @ de_ext e @ [0])) (\<lambda>onDiskName.
           bindE (streqi onDiskName fatName) (\<lambda>eq.
           if eq then Inr (Found e) else boot_scan fatName rest n)))"

fun boot_walk :: "nat \<Rightarrow> disk \<Rightarrow> fat32 \<Rightarrow> u8 list \<Rightarrow> u32 \<Rightarrow> u8 list \<Rightarrow> u8 list option exec" where
  "boot_walk 0 d s fatName cluster buf = Inl Hang"
| "boot_walk (Suc k) d s fatName cluster buf =
     bindE (boot_readCluster d s cluster buf) (\<lambda>buf'.
     bindE (boot_scan fatName buf' (unat (bytesPerCluster s) div BOOT_SIZEOF_DIRENTRY)) (\<lambda>r. case r of
         EndOfDir \<Rightarrow> Inr None
       | Found e \<Rightarrow> Inr (Some e)
       | NextCluster \<Rightarrow>
           bindE (boot_readFatEntry d s cluster) (\<lambda>next_cluster.
           if next_cluster \<ge> 0x0FFFFFF8 then Inr None
           else boot_walk k d s fatName next_cluster buf')))"

definition boot_findDirEntryInDir :: "nat \<Rightarrow> boot_allocator \<Rightarrow> disk \<Rightarrow> fat32 \<Rightarrow> u32 \<Rightarrow> u8 list \<Rightarrow> u8 list option exec" where
  "boot_findDirEntryInDir k al d s startCluster filename =
     bindE (boot_makeFatName filename) (\<lambda>fatName.
     boot_walk k d s fatName startCluster (al (unat (bytesPerCluster s))))"

section \<open>Paths and files\<close>

definition boot_splitNextPathComponent :: "u8 list \<Rightarrow> (u8 list \<times> u8 list) option exec" where
  "boot_splitNextPathComponent path =
     bindE (skip_seps path) (\<lambda>p. if hd p = 0 then Inr None else take_component [] p)"

fun boot_resolve :: "nat \<Rightarrow> nat \<Rightarrow> boot_allocator \<Rightarrow> disk \<Rightarrow> fat32 \<Rightarrow> u32 \<Rightarrow> u8 list \<Rightarrow> u8 list option exec" where
  "boot_resolve k 0 al d s dir p = Inl Hang"
| "boot_resolve k (Suc n) al d s dir p =
     bindE (boot_splitNextPathComponent p) (\<lambda>r. case r of
         None \<Rightarrow> Inr None
       | Some (component, p1) \<Rightarrow>
           bindE (boot_findDirEntryInDir k al d s dir component) (\<lambda>found. case found of
               None \<Rightarrow> Inr None
             | Some e \<Rightarrow>
                 bindE (skip_seps p1) (\<lambda>p2.
                 if hd p2 = 0 then Inr (Some e)
                 else if de_attributes e AND 0x10 = 0 then Inr None
                 else boot_resolve k n al d s (boot_clusterOf e) p2)))"

definition boot_resolvePath :: "nat \<Rightarrow> boot_allocator \<Rightarrow> disk \<Rightarrow> fat32 \<Rightarrow> u8 list \<Rightarrow> u8 list option exec" where
  "boot_resolvePath k al d s fp =
     bindE (rd8 fp 0) (\<lambda>c.
     if c = 0 then Inr None
     else boot_resolve k (length fp) al d s (rootDirClusterNum (bootSector s)) fp)"

definition boot_isRootPath :: "u8 list \<Rightarrow> bool exec" where
  "boot_isRootPath fp =
     bindE (rd8 fp 0) (\<lambda>c. if c = 0 then Inr True else bindE (skip_seps fp) (\<lambda>p. Inr (hd p = 0)))"

text \<open>
  The members of the file data, which the allocator does not clear, are \<open>junk\<close> when nothing is found.
\<close>

definition boot_open :: "nat \<Rightarrow> boot_allocator \<Rightarrow> fatdata \<Rightarrow> disk \<Rightarrow> fat32 \<Rightarrow> u8 list \<Rightarrow> fatfile exec" where
  "boot_open k al junk d s fp =
     bindE (boot_isRootPath fp) (\<lambda>root.
     if root then Inr \<lparr>ff_fsData = Some \<lparr>fd_cluster = rootDirClusterNum (bootSector s), fd_isDirectory = True\<rparr>,
                       ff_size = 0, ff_exists = True\<rparr>
     else bindE (boot_resolvePath k al d s fp) (\<lambda>r. case r of
         None \<Rightarrow> Inr \<lparr>ff_fsData = Some junk, ff_size = 0, ff_exists = False\<rparr>
       | Some e \<Rightarrow> Inr \<lparr>ff_fsData = Some \<lparr>fd_cluster = boot_clusterOf e,
                          fd_isDirectory = (de_attributes e AND 0x10 \<noteq> 0)\<rparr>,
                        ff_size = be_filesize e, ff_exists = True\<rparr>))"

text \<open>
  The start of the boot loader: it opens a file and then stops in an endless loop in front of the search
  for a kernel.
\<close>

definition startBoot :: "nat \<Rightarrow> boot_allocator \<Rightarrow> fatdata \<Rightarrow> disk \<Rightarrow> unit exec" where
  "startBoot k al junk d =
     bindE (fsInit d) (\<lambda>s. bindE (boot_open k al junk d s (bytes ''/hi.txt'' @ [0])) (\<lambda>f.
     if \<not> ff_exists f then Inl (Panic ''F didnt exist'') else Inl Hang))"

section \<open>The directory as the boot loader sees it\<close>

lemma boot_readFatEntry_eq: "boot_readFatEntry = readFatEntry"
  by (intro ext) (simp add: boot_readFatEntry_def readFatEntry_def)

lemma boot_readCluster_eq: "boot_readCluster = readCluster"
  by (intro ext) (simp add: boot_readCluster_def readCluster_def boot_clusterToSector_def clusterToSector_def)

lemma boot_isRootPath_eq: "boot_isRootPath = isRootPath"
  by (intro ext) (simp add: boot_isRootPath_def isRootPath_def)

lemma boot_split_eq: "boot_splitNextPathComponent = splitNextPathComponent"
  by (intro ext) (simp add: boot_splitNextPathComponent_def splitNextPathComponent_def)

lemmas boot_same = boot_readFatEntry_eq boot_readCluster_eq boot_isRootPath_eq boot_split_eq

definition boot_buffers :: "boot_allocator \<Rightarrow> bool" where
  "boot_buffers al \<longleftrightarrow> (\<forall>n. length (al n) = n)"

fun boot_entries :: "nat \<Rightarrow> u8 list \<Rightarrow> u8 list list" where
  "boot_entries 0 b = []"
| "boot_entries (Suc n) b = take BOOT_SIZEOF_DIRENTRY b # boot_entries n (drop BOOT_SIZEOF_DIRENTRY b)"

definition boot_directory :: "disk \<Rightarrow> fat32 \<Rightarrow> u32 list \<Rightarrow> u8 list list" where
  "boot_directory d s cs =
     concat (List.map (\<lambda>c. boot_entries (clusterSize s div BOOT_SIZEOF_DIRENTRY) (cluster_bytes d s c)) cs)"

lemma boot_directory_Cons:
  "boot_directory d s (c # cs) =
    boot_entries (clusterSize s div BOOT_SIZEOF_DIRENTRY) (cluster_bytes d s c) @ boot_directory d s cs"
  by (simp add: boot_directory_def)

lemma boot_scan_eq:
  assumes "terminated fatName" and "List.map toUpper (cstr fatName) = name"
  shows "boot_scan fatName buf n =
    Inr (case dir_search name (boot_entries n buf) of
           Some e \<Rightarrow> Found e
         | None \<Rightarrow> if list_all (\<lambda>e. e ! 0 \<noteq> 0) (boot_entries n buf) then NextCluster else EndOfDir)"
proof (induction n arbitrary: buf)
  case (Suc n)
  let ?e = "take BOOT_SIZEOF_DIRENTRY buf"
  obtain up where up: "strToUpper (de_name ?e @ de_ext ?e @ [0]) = Inr up" "terminated up" "cstr up = disk_name ?e"
    using strToUpper_snoc [of "de_name ?e @ de_ext ?e"] by (auto simp: disk_name_def)
  have "streqi up fatName = Inr (disk_name ?e = name)"
    using streqi_eq [OF up(2) assms(1)] up(3) assms(2) by (simp add: disk_name_def o_def)
  then show ?case
    using Suc.IH up(1) by (simp add: Let_def dir_search_def live_def)
qed (simp add: dir_search_def)

lemma boot_walk_eq:
  assumes vol: "fat_volume d s" and name: "terminated fatName" "List.map toUpper (cstr fatName) = name"
  shows "fat_chain d s (c # cs) \<Longrightarrow> length (c # cs) \<le> k \<Longrightarrow> length buf = clusterSize s \<Longrightarrow>
     boot_walk k d s fatName c buf = Inr (dir_search name (boot_directory d s (c # cs)))"
proof (induction cs arbitrary: c k buf)
  case (Nil c)
  then obtain k' where k: "k = Suc k'"
    by (cases k) auto
  have "\<exists>n. readFatEntry d s c = Inr n \<and> n \<ge> 0x0FFFFFF8"
    using Nil.prems(1) by (auto split: sum.splits if_splits)
  then show ?case
    using Nil.prems(3) unat_bytesPerCluster [OF vol]
    by (auto simp: k boot_same boot_directory_def readCluster_eq [OF vol] boot_scan_eq [OF name] split: option.splits)
next
  case (Cons c' cs c)
  then obtain k' where k: "k = Suc k'"
    by (cases k) auto
  have n: "readFatEntry d s c = Inr c'" "\<not> c' \<ge> 0x0FFFFFF8" "fat_chain d s (c' # cs)"
    using Cons.prems(1) by (auto split: sum.splits if_splits)
  have ih: "boot_walk k' d s fatName c' (cluster_bytes d s c) = Inr (dir_search name (boot_directory d s (c' # cs)))"
    using Cons.IH [OF n(3)] Cons.prems(2) length_cluster_bytes [OF vol, of c] by (simp add: k)
  show ?case
    using Cons.prems(3) unat_bytesPerCluster [OF vol] n ih
    by (simp add: k boot_same boot_directory_Cons [of _ _ c] dir_search_append readCluster_eq [OF vol] boot_scan_eq [OF name]
        split: option.split)
qed

lemma boot_base_eq:
  "plain s \<Longrightarrow> stop = 0 \<or> is_sep stop \<or> stop = 46 \<Longrightarrow> length acc + length s \<le> 8 \<Longrightarrow>
     boot_base acc (s @ stop # t) = Inr (acc @ s, Some (stop # t))"
  by (induction s arbitrary: acc) (auto simp: plain_def)

lemma boot_ext_eq:
  "list_all (\<lambda>c. c \<noteq> 0 \<and> \<not> is_sep c) s \<Longrightarrow> stop = 0 \<or> is_sep stop \<Longrightarrow> length acc + length s \<le> 3 \<Longrightarrow>
     boot_ext acc (s @ stop # t) = Inr (acc @ s, True)"
  by (induction s arbitrary: acc) auto

lemma boot_makeFatName_eq:
  assumes "name_ok base ext"
  shows "boot_makeFatName (file_name base ext @ [0]) = Inr (fat_name base ext @ [0])"
proof -
  have up: "strToUpper (pad 8 base @ pad 3 ext @ [0]) = Inr (fat_name base ext @ [0])"
    by (rule strToUpper_fat_name [OF assms])
  show ?thesis
  proof (cases "ext = []")
    case True
    then show ?thesis
      using assms up boot_base_eq [of base 0 "[]" "[]"] by (simp add: boot_makeFatName_def file_name_def name_ok_def)
  next
    case False
    then show ?thesis
      using assms up boot_base_eq [of base 46 "[]" "ext @ [0]"] boot_ext_eq [of ext 0 "[]" "[]"]
      by (simp add: boot_makeFatName_def file_name_def name_ok_def plain_def list_all_iff)
  qed
qed

lemma boot_findDirEntry_eq:
  assumes "fat_volume d s" and "boot_buffers al" and "fat_chain d s cs" and "length cs \<le> k" and "name_ok base ext"
  shows "boot_findDirEntryInDir k al d s (hd cs) (file_name base ext @ [0]) =
    Inr (dir_search (fat_name base ext) (boot_directory d s cs))"
proof -
  obtain c cs' where cs: "cs = c # cs'"
    using assms(3) by (cases cs) auto
  have "length (al (unat (bytesPerCluster s))) = clusterSize s"
    using assms(2) unat_bytesPerCluster [OF assms(1)] by (simp add: boot_buffers_def)
  from boot_walk_eq [OF assms(1) _ cstr_fat_name [OF assms(5)] assms(3) [unfolded cs] _ this] show ?thesis
    using assms(4) by (simp add: boot_findDirEntryInDir_def boot_makeFatName_eq [OF assms(5)] cs)
qed

section \<open>The first entry\<close>

lemma clusterSize_ge: "fat_volume d s \<Longrightarrow> 512 \<le> clusterSize s"
  using clusterSize_pos [of d s] by (auto simp: clusterSize_def)

lemma clusterSize_boot: "fat_volume d s \<Longrightarrow> \<exists>m. clusterSize s div BOOT_SIZEOF_DIRENTRY = Suc (Suc m)"
proof -
  assume "fat_volume d s"
  then have "512 \<le> clusterSize s"
    by (rule clusterSize_ge)
  then have "2 \<le> clusterSize s div BOOT_SIZEOF_DIRENTRY"
    unfolding BOOT_SIZEOF_DIRENTRY_def by linarith
  then show ?thesis
    by (metis Suc_le_D numeral_2_eq_2 Suc_le_mono)
qed

lemma clusterSize_entries: "fat_volume d s \<Longrightarrow> \<exists>m. clusterSize s div SIZEOF_DIRENTRY = Suc m"
proof -
  assume "fat_volume d s"
  then have "512 \<le> clusterSize s"
    by (rule clusterSize_ge)
  then have "clusterSize s div SIZEOF_DIRENTRY \<noteq> 0"
    unfolding SIZEOF_DIRENTRY_def by simp
  then show ?thesis
    using not0_implies_Suc by blast
qed

text \<open>The second entry the boot loader sees begins with the last byte of the first.\<close>

lemma boot_directory_first:
  assumes "fat_volume d s" and "cs \<noteq> []" and "e = hd (directory d s cs)"
  obtains f fs where "boot_directory d s cs = take 31 e # f # fs" and "f ! 0 = e ! 31" and "length e = 32"
proof -
  obtain c cs' where cs: "cs = c # cs'"
    using assms(2) by (cases cs) auto
  obtain m where m: "clusterSize s div BOOT_SIZEOF_DIRENTRY = Suc (Suc m)"
    using clusterSize_boot [OF assms(1)] by blast
  obtain n where n: "clusterSize s div SIZEOF_DIRENTRY = Suc n"
    using clusterSize_entries [OF assms(1)] by blast
  let ?b = "cluster_bytes d s c"
  have len: "512 \<le> length ?b"
    using clusterSize_ge [OF assms(1)] length_cluster_bytes [OF assms(1), of c] by simp
  have e: "e = take 32 ?b"
    unfolding assms(3) cs directory_Cons n by (simp add: SIZEOF_DIRENTRY_def)
  have "boot_directory d s cs = take 31 e # take 31 (drop 31 ?b) # boot_entries m (drop 31 (drop 31 ?b)) @ boot_directory d s cs'"
    unfolding cs boot_directory_Cons m by (simp add: BOOT_SIZEOF_DIRENTRY_def e)
  moreover have "take 31 (drop 31 ?b) ! 0 = e ! 31"
    using len by (simp add: e)
  ultimately show thesis
    using that len by (simp add: e)
qed

lemma boot_search_first:
  assumes "fat_volume d s" and "cs \<noteq> []" and "e = hd (directory d s cs)" and "e ! 0 \<noteq> 0" and "e ! 31 = 0"
  shows "dir_search name (boot_directory d s cs) = (if live e \<and> disk_name e = name then Some (take 31 e) else None)"
proof -
  obtain f fs where f: "boot_directory d s cs = take 31 e # f # fs" "f ! 0 = 0"
    using boot_directory_first [OF assms(1-3)] assms(5) by metis
  have "live (take 31 e) = live e" "disk_name (take 31 e) = disk_name e" "take 31 e ! 0 = e ! 0"
    by (simp_all add: live_def disk_name_def de_attributes_def de_name_def de_ext_def min_def drop_take)
  then show ?thesis
    using assms(4) f by (simp add: dir_search_def)
qed

lemma le32_shift: "le32 a b c x = push_bit 8 (le32 b c x 0) OR ucast a"
  unfolding le32_def by (rule bit_word_eqI) (auto simp: bit_simps)

lemma boot_resolve_name:
  assumes "fat_volume d s" and "boot_buffers al" and "fat_chain d s cs" and "length cs \<le> k" and "name_ok base ext"
    and "hd cs = rootDirClusterNum (bootSector s)"
  shows "boot_resolvePath k al d s (path_text [(base, ext)]) = Inr (dir_search (fat_name base ext) (boot_directory d s cs))"
proof -
  note nm = file_name_chars [OF assms(5)]
  let ?p = "path_text [(base, ext)]" and ?c = "rootDirClusterNum (bootSector s)"
  have p: "?p = 47 # file_name base ext @ path_text []"
    by (simp add: path_text_Cons)
  have split: "boot_splitNextPathComponent ?p = Inr (Some (file_name base ext @ [0], path_text []))"
    using split_component [OF nm(1,3), of "[]"] nm(2) by (simp add: boot_split_eq p split_component_sep)
  have find: "boot_findDirEntryInDir k al d s ?c (file_name base ext @ [0]) =
      Inr (dir_search (fat_name base ext) (boot_directory d s cs))"
    using boot_findDirEntry_eq [OF assms(1-5)] assms(6) by simp
  obtain m where m: "length ?p = Suc m"
    by (simp add: p)
  have "skip_seps (path_text []) = Inr [0]"
    by (simp add: path_text_def is_sep_def)
  then have "boot_resolve k (Suc m) al d s ?c ?p = Inr (dir_search (fat_name base ext) (boot_directory d s cs))"
    unfolding boot_resolve.simps split bindE.simps option.case prod.case find by (simp split: option.split)
  moreover have "rd8 ?p 0 = Inr 47"
    by (simp add: rd8_def p)
  ultimately show ?thesis
    by (simp add: boot_resolvePath_def m del: boot_resolve.simps)
qed

lemma boot_open_eq:
  assumes "fat_volume d s" and "boot_buffers al" and "fat_chain d s cs" and "length cs \<le> k" and "name_ok base ext"
    and "hd cs = rootDirClusterNum (bootSector s)"
    and "e = hd (directory d s cs)" and "e ! 0 \<noteq> 0" and "e ! 31 = 0"
  shows "boot_open k al junk d s (path_text [(base, ext)]) = Inr (if live e \<and> disk_name e = fat_name base ext
    then \<lparr>ff_fsData = Some \<lparr>fd_cluster = boot_clusterOf e, fd_isDirectory = (de_attributes e AND 0x10 \<noteq> 0)\<rparr>,
          ff_size = push_bit 8 (de_filesize e) OR ucast (e ! 27), ff_exists = True\<rparr>
    else \<lparr>ff_fsData = Some junk, ff_size = 0, ff_exists = False\<rparr>)"
proof -
  note nm = file_name_chars [OF assms(5)]
  have cs: "cs \<noteq> []"
    using assms(3) by auto
  have "boot_isRootPath (path_text [(base, ext)]) = Inr False"
    using skip_seps_name [OF nm(1,3)] nm(3)
    by (simp add: boot_isRootPath_eq isRootPath_def rd8_def path_text_Cons is_sep_def hd_append)
  moreover have "be_filesize (take 31 e) = push_bit 8 (de_filesize e) OR ucast (e ! 27)"
    using le32_shift [of "e ! 27" "e ! 28" "e ! 29" "e ! 30"] assms(9)
    by (simp add: be_filesize_def de_filesize_def field32_def)
  moreover have "boot_clusterOf (take 31 e) = boot_clusterOf e" "de_attributes (take 31 e) = de_attributes e"
    by (simp_all add: boot_clusterOf_def be_firstClusterHigh_def be_firstClusterLow_def field16_def de_attributes_def)
  ultimately show ?thesis
    using boot_search_first [OF assms(1) cs assms(7-9)] boot_resolve_name [OF assms(1-6)]
    by (simp add: boot_open_def)
qed

section \<open>What the boot loader finds\<close>

text \<open>C10: Where the kernel finds every file of the root directory, the boot loader finds at most the first
  entry, when that is of a file below 16 MiB: the last byte of its size is zero and is taken for the
  beginning of an entry that was never used. The size it reports for this file is 256 times the size and
  more.\<close>

theorem boot_sees_first_file_only:
  assumes "fat_volume d s" and "boot_buffers al" and "gives_buffers kal" and "fat_chain d s cs" and "length cs \<le> k"
    and "hd cs = rootDirClusterNum (bootSector s)" and "name_ok base ext"
    and "e = hd (directory d s cs)" and "e ! 0 \<noteq> 0" and "e ! 31 = 0"
  shows "fat_open k kal d s (path_text [(base, ext)]) =
      Inr (file_of (dir_search (fat_name base ext) (directory d s cs))) \<and>
    boot_open k al junk d s (path_text [(base, ext)]) = Inr (if live e \<and> disk_name e = fat_name base ext
      then \<lparr>ff_fsData = Some \<lparr>fd_cluster = boot_clusterOf e, fd_isDirectory = (de_attributes e AND 0x10 \<noteq> 0)\<rparr>,
            ff_size = push_bit 8 (de_filesize e) OR ucast (e ! 27), ff_exists = True\<rparr>
      else \<lparr>ff_fsData = Some junk, ff_size = 0, ff_exists = False\<rparr>)"
proof
  show "boot_open k al junk d s (path_text [(base, ext)]) = Inr (if live e \<and> disk_name e = fat_name base ext
      then \<lparr>ff_fsData = Some \<lparr>fd_cluster = boot_clusterOf e, fd_isDirectory = (de_attributes e AND 0x10 \<noteq> 0)\<rparr>,
            ff_size = push_bit 8 (de_filesize e) OR ucast (e ! 27), ff_exists = True\<rparr>
      else \<lparr>ff_fsData = Some junk, ff_size = 0, ff_exists = False\<rparr>)"
    using assms by (intro boot_open_eq) auto
  have "dirs_ok d s k (\<lambda>_. cs) (rootDirClusterNum (bootSector s)) [(base, ext)]"
    using assms(4-6) by (simp split: option.split)
  from fat_open_eq [OF assms(1,3) _ _ this] assms(7)
  show "fat_open k kal d s (path_text [(base, ext)]) = Inr (file_of (dir_search (fat_name base ext) (directory d s cs)))"
    by (simp split: option.split)
qed

text \<open>A volume whose root directory holds the file \<^verbatim>\<open>A.TXT\<close> and then the \<^verbatim>\<open>HI.TXT\<close> the boot loader opens.\<close>

definition hi_entry :: "u8 list" where
  "hi_entry = bytes ''HI      TXT'' @ 0x20 # replicate 14 0 @ [4, 0, 5, 0, 0, 0]"

definition hi_disk :: disk where
  "hi_disk i = (if i = 0 then (replicate 512 0)[12 := 2, 13 := 1, 14 := 1, 16 := 1, 36 := 1, 44 := 2, 66 := 0x29]
     else if i = 2 then demo_entry @ hi_entry @ replicate 448 0 else demo_disk i)"

text \<open>The boot loader panics at its start, though the file is there for the kernel.\<close>

theorem boot_sees_first_file_only_witness:
  "fat_open 1 demo_alloc hi_disk demo_vol (bytes ''/hi.txt'' @ [0]) = Inr (file_of (Some hi_entry)) \<and>
   boot_open 1 (\<lambda>n. replicate n 0) \<lparr>fd_cluster = 0, fd_isDirectory = False\<rparr> hi_disk demo_vol (bytes ''/hi.txt'' @ [0]) =
     Inr \<lparr>ff_fsData = Some \<lparr>fd_cluster = 0, fd_isDirectory = False\<rparr>, ff_size = 0, ff_exists = False\<rparr>"
proof -
  have vol: "fat_volume hi_disk demo_vol"
    using demo_volume(1) by (simp add: fat_volume_def hi_disk_def demo_entry_def hi_entry_def)
  have nxt: "fat_chain hi_disk demo_vol [2]"
    using demo_next(1) by (simp add: readFatEntry_def demo_vol_def demo_fields hi_disk_def)
  have b: "cluster_bytes hi_disk demo_vol 2 = demo_entry @ hi_entry @ replicate 448 0"
    by (simp add: cluster_bytes_def demo_vol_def demo_fields clusterToSector_def hi_disk_def)
  have "clusterSize demo_vol div SIZEOF_DIRENTRY = 16"
    by (simp add: clusterSize_def demo_vol_def demo_fields SIZEOF_DIRENTRY_def)
  moreover have "dir_entries 16 x = take 32 x # take 32 (drop 32 x) # dir_entries 14 (drop 32 (drop 32 x))" for x
    using dir_entries.simps(2) [of 15 x] dir_entries.simps(2) [of 14 "drop 32 x"] by (simp add: SIZEOF_DIRENTRY_def)
  moreover have "length demo_entry = 32" "length hi_entry = 32"
    by (simp_all add: demo_entry_def hi_entry_def)
  ultimately have dir: "\<exists>es. directory hi_disk demo_vol [2] = demo_entry # hi_entry # es"
    by (simp add: directory_def b)
  have e: "demo_entry ! 0 \<noteq> 0" "demo_entry ! 31 = 0" "live hi_entry" "hi_entry ! 0 \<noteq> 0"
    "disk_name hi_entry = fat_name (bytes ''hi'') (bytes ''txt'')" "disk_name demo_entry \<noteq> fat_name (bytes ''hi'') (bytes ''txt'')"
    by code_simp+
  have search: "dir_search (fat_name (bytes ''hi'') (bytes ''txt'')) (directory hi_disk demo_vol [2]) = Some hi_entry"
    using dir e by (auto simp: dir_search_def)
  have path: "path_text [(bytes ''hi'', bytes ''txt'')] = bytes ''/hi.txt'' @ [0]"
    by (simp add: path_text_def file_name_def)
  have ok: "name_ok (bytes ''hi'') (bytes ''txt'')" "boot_buffers (\<lambda>n. replicate n 0)" "demo_entry = hd (directory hi_disk demo_vol [2])"
    using dir by (auto simp: name_ok_def plain_def is_sep_def boot_buffers_def)
  show ?thesis
    using boot_sees_first_file_only [OF vol ok(2) demo_volume(2) nxt _ _ ok(1) ok(3) e(1,2)] e(6)
    unfolding path search by (simp add: demo_root)
qed

end
