(* ===== verification/Interrupts.thy ===== *)
theory Interrupts
  imports Ata
begin

text \<open>
  The interrupt machinery of the kernel: the descriptor table \<^verbatim>\<open>src/sys/IDT/idt.hpp\<close>, what becomes of an
  exception, \<^verbatim>\<open>src/sys/IDT/idt.cpp\<close>, and the two interrupt controllers, \<^verbatim>\<open>src/sys/PIC/pic.hpp\<close>. The
  controllers are hardware: \<open>pic_hardware\<close> states what the data sheet says of them.
\<close>

section \<open>The descriptor table\<close>

record idt_entry =
  isr_low :: u16
  kernel_cs :: u16
  ie_reserved :: u8
  ie_attributes :: u8
  isr_high :: u16

record idt_state =
  idt :: "u8 \<Rightarrow> idt_entry"
  idt_vectors :: "u8 \<Rightarrow> bool"
  idtr_limit :: u16
  idtr_base :: u32

definition IDT_MAX_DESCRIPTORS :: u32 where "IDT_MAX_DESCRIPTORS = 256"

definition setDescriptor :: "u8 \<Rightarrow> u32 \<Rightarrow> u8 \<Rightarrow> idt_state \<Rightarrow> idt_state" where
  "setDescriptor vector isr flags s = s\<lparr>idt := (idt s)(vector :=
     \<lparr>isr_low = ucast (isr AND 0xFFFF), kernel_cs = 0x08, ie_reserved = 0, ie_attributes = flags,
      isr_high = ucast (drop_bit 16 isr)\<rparr>)\<rparr>"

fun idt_stubs :: "(nat \<Rightarrow> u32) \<Rightarrow> nat list \<Rightarrow> idt_state \<Rightarrow> idt_state" where
  "idt_stubs isr_stub_table [] s = s"
| "idt_stubs isr_stub_table (vector # vs) s =
     (let s' = setDescriptor (word_of_nat vector) (isr_stub_table vector) 0x8E s
      in idt_stubs isr_stub_table vs (s'\<lparr>idt_vectors := (idt_vectors s')(word_of_nat vector := True)\<rparr>))"

text \<open>\<open>idt_addr\<close> is where the table lies; an entry has eight bytes.\<close>

definition idt_init :: "u32 \<Rightarrow> (nat \<Rightarrow> u32) \<Rightarrow> idt_state \<Rightarrow> idt_state" where
  "idt_init idt_addr isr_stub_table s =
     idt_stubs isr_stub_table [0..<32] (s\<lparr>idtr_base := idt_addr, idtr_limit := ucast (8 * IDT_MAX_DESCRIPTORS - 1)\<rparr>)"

section \<open>Exceptions\<close>

datatype interrupt_type = Abort | IntTrap | Fault | Regular

definition interruptToType :: "u32 \<Rightarrow> interrupt_type" where
  "interruptToType vector =
     (if vector \<in> {0, 4, 5, 6, 7, 10, 11, 12, 13, 14, 17, 21, 28, 29, 30} then Fault
      else if vector \<in> {1, 3} then IntTrap else if vector \<in> {8, 18} then Abort else Regular)"

definition exception_names :: "(u32 \<times> string) list" where
  "exception_names = [(0, ''DE''), (1, ''DB''), (3, ''BP''), (4, ''OF''), (5, ''BR''), (6, ''UD''), (7, ''NM''), (8, ''DF''),
     (10, ''TS''), (11, ''NP''), (12, ''SS''), (13, ''GP''), (14, ''PF''), (15, ''RESERVED''), (16, ''MF''), (17, ''AC''),
     (18, ''MC''), (19, ''XM/#XF''), (20, ''VE''), (28, ''RV''), (29, ''VC''), (30, ''SX'')]"

definition vectorToExceptionName :: "u32 \<Rightarrow> string" where
  "vectorToExceptionName vector = (case map_of exception_names vector of None \<Rightarrow> ''UNKNOWN'' | Some s \<Rightarrow> s)"

definition interruptTypeToStr :: "interrupt_type \<Rightarrow> string" where
  "interruptTypeToStr t = (case t of Abort \<Rightarrow> ''Abort'' | IntTrap \<Rightarrow> ''Trap'' | Fault \<Rightarrow> ''Fault'' | Regular \<Rightarrow> ''Regular'')"

text \<open>
  \<open>keys\<close> are the answers of \<^verbatim>\<open>getc\<close>, and the reboot does not return. The loop of a trap has the reboot
  as its body: it reboots when there is no key, and a key lets it go on.
\<close>

datatype outcome = Reboot | Stopped string

fun handleAbort :: "nat \<Rightarrow> (nat \<Rightarrow> u8) \<Rightarrow> nat \<Rightarrow> outcome exec" where
  "handleAbort 0 keys i = Inl Hang"
| "handleAbort (Suc n) keys i = (if keys i = 0 then handleAbort n keys (i + 1) else Inr Reboot)"

definition handleTrap :: "(nat \<Rightarrow> u8) \<Rightarrow> outcome option" where
  "handleTrap keys = (if keys 0 = 0 then Some Reboot else None)"

definition exceptionHandler :: "nat \<Rightarrow> (nat \<Rightarrow> u8) \<Rightarrow> u32 \<Rightarrow> u32 \<Rightarrow> outcome exec" where
  "exceptionHandler n keys activeProcessPid vector =
     (let stop = (if activeProcessPid = 0 then Inr (Stopped ''An unhandled IDT interrupt fired.'')
                  else Inr (Stopped ''an unhandled IDT interrupt fired in a user process''))
      in case interruptToType vector of
           Abort \<Rightarrow> handleAbort n keys 0
         | IntTrap \<Rightarrow> (case handleTrap keys of Some r \<Rightarrow> Inr r | None \<Rightarrow> stop)
         | _ \<Rightarrow> stop)"

section \<open>The interrupt controllers\<close>

definition PIC1_CMD :: u16 where "PIC1_CMD = 0x20"
definition PIC1_DATA :: u16 where "PIC1_DATA = 0x21"
definition PIC2_CMD :: u16 where "PIC2_CMD = 0xA0"
definition PIC2_DATA :: u16 where "PIC2_DATA = 0xA1"
definition PIC_EOI :: u8 where "PIC_EOI = 0x20"
definition CASCADE_IRQ :: u8 where "CASCADE_IRQ = 2"

lemmas pic_ports = PIC1_CMD_def PIC1_DATA_def PIC2_CMD_def PIC2_DATA_def

definition ioWait :: "'h io \<Rightarrow> 'h \<Rightarrow> 'h" where
  "ioWait io h = outb io 0x80 0 h"

definition pic_remap :: "'h io \<Rightarrow> u32 \<Rightarrow> u32 \<Rightarrow> 'h \<Rightarrow> 'h" where
  "pic_remap io offset1 offset2 h =
     (let h = ioWait io (outb io PIC1_CMD 0x11 h);
          h = ioWait io (outb io PIC2_CMD 0x11 h);
          h = ioWait io (outb io PIC1_DATA (ucast offset1) h);
          h = ioWait io (outb io PIC2_DATA (ucast offset2) h);
          h = ioWait io (outb io PIC1_DATA (push_bit (unat CASCADE_IRQ) 1) h);
          h = ioWait io (outb io PIC2_DATA CASCADE_IRQ h);
          h = ioWait io (outb io PIC1_DATA 0x01 h);
          h = ioWait io (outb io PIC2_DATA 0x01 h)
      in outb io PIC2_DATA 0 (outb io PIC1_DATA 0 h))"

definition pic_init :: "'h io \<Rightarrow> 'h \<Rightarrow> 'h" where
  "pic_init io h = outb io PIC2_DATA 0xFF (outb io PIC1_DATA 0xFF (pic_remap io 0x20 0x28 h))"

definition pic_disable :: "'h io \<Rightarrow> 'h \<Rightarrow> 'h" where
  "pic_disable io h = outb io PIC2_DATA 0xFF (outb io PIC1_DATA 0xFF h)"

definition irqSetMask :: "'h io \<Rightarrow> u8 \<Rightarrow> 'h \<Rightarrow> 'h" where
  "irqSetMask io IRQline h =
     (let (port, line) = (if IRQline < 8 then (PIC1_DATA, IRQline) else (PIC2_DATA, IRQline - 8));
          (v, h1) = inb io port h
      in outb io port (v OR push_bit (unat line) 1) h1)"

definition irqClearMask :: "'h io \<Rightarrow> u8 \<Rightarrow> 'h \<Rightarrow> 'h" where
  "irqClearMask io IRQline h =
     (let (port, line) = (if IRQline < 8 then (PIC1_DATA, IRQline) else (PIC2_DATA, IRQline - 8));
          (v, h1) = inb io port h
      in outb io port (v AND NOT (push_bit (unat line) 1)) h1)"

definition sendEoi :: "'h io \<Rightarrow> u8 \<Rightarrow> 'h \<Rightarrow> 'h" where
  "sendEoi io irq h = outb io PIC1_CMD PIC_EOI (if irq \<ge> 8 then outb io PIC2_CMD PIC_EOI h else h)"

section \<open>The timer chip and the start of the hardware interrupts\<close>

definition BASE_FREQ :: u32 where "BASE_FREQ = 1193182"

definition pit_init :: "'h io \<Rightarrow> u32 \<Rightarrow> 'h \<Rightarrow> ('h \<times> u32) exec" where
  "pit_init io freqInputted h =
     (if freqInputted = 0 then Inl (Trap ''divide error'')
      else let divisor = BASE_FREQ div freqInputted;
               h1 = outb io 0x43 0x36 h;
               h2 = outb io 0x40 (ucast (divisor AND 0xFF)) h1
           in Inr (outb io 0x40 (ucast (drop_bit 8 divisor)) h2, freqInputted))"

text \<open>\<open>ticks k\<close> is what the counter of the timer handler holds at the reading \<open>k\<close>.\<close>

fun pit_wait :: "nat \<Rightarrow> (nat \<Rightarrow> u64) \<Rightarrow> nat \<Rightarrow> u64 \<Rightarrow> u64 \<Rightarrow> nat exec" where
  "pit_wait 0 ticks k start targetTicks = Inl Hang"
| "pit_wait (Suc n) ticks k start targetTicks =
     (if ticks k - start < targetTicks then pit_wait n ticks (k + 1) start targetTicks else Inr k)"

definition pit_sleepMs :: "nat \<Rightarrow> u32 \<Rightarrow> (nat \<Rightarrow> u64) \<Rightarrow> u64 \<Rightarrow> nat exec" where
  "pit_sleepMs n frequency ticks ms = pit_wait n ticks 1 (ticks 0) ((ms * ucast frequency + 999) div 1000)"

definition keyboard_irq_enable :: "'h io \<Rightarrow> 'h \<Rightarrow> 'h" where
  "keyboard_irq_enable io h =
     (let (config, h1) = inb io 0x60 (outb io 0x64 0x20 h)
      in outb io 0x60 (config OR 1) (outb io 0x64 0x60 h1))"

definition hw_interrupts_init :: "'h io \<Rightarrow> u32 \<Rightarrow> u32 \<Rightarrow> u32 \<Rightarrow> idt_state \<Rightarrow> 'h \<Rightarrow> idt_state \<times> 'h" where
  "hw_interrupts_init io pitStub keyboardStub syscallStub s h =
     (let s1 = setDescriptor 0x20 pitStub 0x8E s;
          s2 = setDescriptor 0x21 keyboardStub 0x8E s1;
          s3 = setDescriptor 0x80 syscallStub 0x8E s2
      in (s3, irqClearMask io 1 (irqClearMask io 0 (keyboard_irq_enable io h))))"

section \<open>The gates\<close>

text \<open>The processor puts the address of a handler together from the two halves of its gate.\<close>

definition gate_handler :: "idt_entry \<Rightarrow> u32" where
  "gate_handler e = push_bit 16 (ucast (isr_high e)) OR ucast (isr_low e)"

lemma halves_join: "push_bit 16 (ucast (ucast (drop_bit 16 a) :: u16)) OR ucast (ucast (a AND 0xFFFF) :: u16) = (a :: u32)"
proof (rule bit_word_eqI)
  have m: "(0xFFFF :: u32) = mask 16"
    by (simp add: mask_eq_exp_minus_1)
  fix n assume n: "n < LENGTH(32)"
  show "bit (push_bit 16 (ucast (ucast (drop_bit 16 a) :: u16)) OR ucast (ucast (a AND 0xFFFF) :: u16) :: u32) n = bit a n"
    using n unfolding m by (cases "n < 16") (auto simp: bit_simps)
qed

lemma setDescriptor_handler [simp]:
  "gate_handler (idt (setDescriptor v a f s) w) = (if w = v then a else gate_handler (idt s w))"
  by (simp add: setDescriptor_def gate_handler_def halves_join)

lemma setDescriptor_attributes [simp]:
  "ie_attributes (idt (setDescriptor v a f s) w) = (if w = v then f else ie_attributes (idt s w))"
  by (simp add: setDescriptor_def)

lemma idt_stubs_other: "w \<notin> word_of_nat ` set vs \<Longrightarrow> idt (idt_stubs st vs s) w = idt s w"
  by (induction vs arbitrary: s) (auto simp: Let_def setDescriptor_def)

lemma byte_of_nat_inj: "x < 256 \<Longrightarrow> y < 256 \<Longrightarrow> (word_of_nat x :: u8) = word_of_nat y \<longleftrightarrow> x = y"
  by (simp add: word_of_nat_eq_iff take_bit_nat_def)

lemma idt_stubs_handler:
  "set vs \<subseteq> {..<256} \<Longrightarrow> v < 256 \<Longrightarrow>
   gate_handler (idt (idt_stubs st vs s) (word_of_nat v)) = (if v \<in> set vs then st v else gate_handler (idt s (word_of_nat v)))"
  by (induction vs arbitrary: s) (auto simp: Let_def byte_of_nat_inj)

lemma idt_init_handler: "v < 32 \<Longrightarrow> gate_handler (idt (idt_init addr st s) (word_of_nat v)) = st v"
  unfolding idt_init_def by (subst idt_stubs_handler) auto

section \<open>What becomes of an exception\<close>

lemma handleAbort_eq: "handleAbort n keys i = (if \<exists>k < n. keys (i + k) \<noteq> 0 then Inr Reboot else Inl Hang)"
proof (induction n arbitrary: i)
  case (Suc n)
  have "(\<exists>k < Suc n. keys (i + k) \<noteq> 0) \<longleftrightarrow> keys i \<noteq> 0 \<or> (\<exists>k < n. keys (i + 1 + k) \<noteq> 0)"
    by (simp add: Ex_less_Suc2)
  then show ?case
    by (simp add: Suc)
qed simp

section \<open>What the controllers are\<close>

text \<open>
  One chip: the first vector of its lines, which lines are masked and which are in service, and where it
  is in its initialisation. The three words of the initialisation come at the data port after the
  command that starts it; later writes there set the mask. An end of interrupt takes the line of highest
  priority, the lowest one, out of service.
\<close>

datatype pic_stage = PicReady | WantIcw2 | WantIcw3 | WantIcw4

record chip =
  ch_base :: u8
  ch_mask :: u8
  ch_service :: u8
  ch_stage :: pic_stage

definition chip_start :: "chip \<Rightarrow> chip" where
  "chip_start c = c\<lparr>ch_mask := 0, ch_service := 0, ch_stage := WantIcw2\<rparr>"

definition chip_eoi :: "chip \<Rightarrow> chip" where
  "chip_eoi c = c\<lparr>ch_service := ch_service c AND (ch_service c - 1)\<rparr>"

definition chip_data :: "u8 \<Rightarrow> chip \<Rightarrow> chip" where
  "chip_data v c = (case ch_stage c of
     PicReady \<Rightarrow> c\<lparr>ch_mask := v\<rparr>
   | WantIcw2 \<Rightarrow> c\<lparr>ch_base := v AND 0xF8, ch_stage := WantIcw3\<rparr>
   | WantIcw3 \<Rightarrow> c\<lparr>ch_stage := WantIcw4\<rparr>
   | WantIcw4 \<Rightarrow> c\<lparr>ch_stage := PicReady\<rparr>)"

definition pic_cmd_port :: "bool \<Rightarrow> u16" where "pic_cmd_port slave = (if slave then 0xA0 else 0x20)"
definition pic_data_port :: "bool \<Rightarrow> u16" where "pic_data_port slave = (if slave then 0xA1 else 0x21)"

text \<open>Nothing is stated of commands that the kernel does not give.\<close>

definition pic_writes :: "'h io \<Rightarrow> ('h \<Rightarrow> bool \<Rightarrow> chip) \<Rightarrow> bool" where
  "pic_writes io view \<longleftrightarrow> (\<forall>h b v.
     view (outb io (pic_cmd_port b) 0x11 h) = (view h)(b := chip_start (view h b)) \<and>
     view (outb io (pic_cmd_port b) 0x20 h) = (view h)(b := chip_eoi (view h b)) \<and>
     view (outb io (pic_data_port b) v h) = (view h)(b := chip_data v (view h b)))"

definition pic_hardware :: "'h io \<Rightarrow> ('h \<Rightarrow> bool \<Rightarrow> chip) \<Rightarrow> bool" where
  "pic_hardware io view \<longleftrightarrow> pic_writes io view \<and> (\<forall>h p v.
     view (snd (inb io p h)) = view h \<and> (p \<notin> {0x20, 0x21, 0xA0, 0xA1} \<longrightarrow> view (outb io p v h) = view h)) \<and>
     (\<forall>h b. ch_stage (view h b) = PicReady \<longrightarrow> fst (inb io (pic_data_port b) h) = ch_mask (view h b))"

lemma pic_hardware_write:
  assumes "pic_hardware io view"
  shows "view (outb io 0x20 0x11 h) = (view h)(False := chip_start (view h False))"
    and "view (outb io 0xA0 0x11 h) = (view h)(True := chip_start (view h True))"
    and "view (outb io 0x20 0x20 h) = (view h)(False := chip_eoi (view h False))"
    and "view (outb io 0xA0 0x20 h) = (view h)(True := chip_eoi (view h True))"
    and "view (outb io 0x21 v h) = (view h)(False := chip_data v (view h False))"
    and "view (outb io 0xA1 v h) = (view h)(True := chip_data v (view h True))"
  using assms unfolding pic_hardware_def pic_writes_def
  by (metis pic_cmd_port_def pic_data_port_def)+

lemma pic_hardware_else:
  assumes "pic_hardware io view"
  shows "view (snd (inb io p h)) = view h"
    and "p \<notin> {0x20, 0x21, 0xA0, 0xA1} \<Longrightarrow> view (outb io p v h) = view h"
  using assms unfolding pic_hardware_def by blast+

lemma pic_hardware_mask:
  assumes "pic_hardware io view" and "ch_stage (view h b) = PicReady"
  shows "fst (inb io (pic_data_port b) h) = ch_mask (view h b)"
  using assms unfolding pic_hardware_def by blast

text \<open>The lines of the two controllers: eight of the first one, then eight of the second.\<close>

definition line_masked :: "(bool \<Rightarrow> chip) \<Rightarrow> u8 \<Rightarrow> bool" where
  "line_masked c irq = bit (ch_mask (c (8 \<le> irq))) (if 8 \<le> irq then unat irq - 8 else unat irq)"

definition line_vector :: "(bool \<Rightarrow> chip) \<Rightarrow> u8 \<Rightarrow> u8" where
  "line_vector c irq = (if 8 \<le> irq then ch_base (c True) + (irq - 8) else ch_base (c False) + irq)"

definition pic_ready :: "(bool \<Rightarrow> chip) \<Rightarrow> bool" where
  "pic_ready c \<longleftrightarrow> (\<forall>b. ch_stage (c b) = PicReady) \<and> ch_base (c False) = 0x20 \<and> ch_base (c True) = 0x28"

text \<open>A sequence of writes, seen at the chips.\<close>

fun outs :: "'h io \<Rightarrow> (u16 \<times> u8) list \<Rightarrow> 'h \<Rightarrow> 'h" where
  "outs io [] h = h"
| "outs io ((p, v) # ws) h = outs io ws (outb io p v h)"

fun chips_write :: "u16 \<times> u8 \<Rightarrow> chip \<times> chip \<Rightarrow> chip \<times> chip" where
  "chips_write (p, v) (m, s) =
     (if p = 0x20 then (if v = 0x11 then chip_start m else chip_eoi m, s)
      else if p = 0xA0 then (m, if v = 0x11 then chip_start s else chip_eoi s)
      else if p = 0x21 then (chip_data v m, s) else if p = 0xA1 then (m, chip_data v s) else (m, s))"

definition chips :: "(bool \<Rightarrow> chip) \<Rightarrow> chip \<times> chip" where
  "chips c = (c False, c True)"

lemma chips_write_ok:
  assumes "pic_hardware io view" and "p = 0x20 \<or> p = 0xA0 \<longrightarrow> v = 0x11 \<or> v = 0x20"
  shows "chips (view (outb io p v h)) = chips_write (p, v) (chips (view h))"
proof (cases "p \<in> {0x20, 0x21, 0xA0, 0xA1}")
  case True
  then show ?thesis
    using assms(2) by (auto simp: chips_def pic_hardware_write [OF assms(1)])
next
  case False
  then show ?thesis
    by (simp add: chips_def pic_hardware_else(2) [OF assms(1) False])
qed

lemma chips_outs:
  assumes "pic_hardware io view"
  shows "\<forall>(p, v) \<in> set ws. p = 0x20 \<or> p = 0xA0 \<longrightarrow> v = 0x11 \<or> v = 0x20 \<Longrightarrow>
    chips (view (outs io ws h)) = fold chips_write ws (chips (view h))"
proof (induction ws arbitrary: h)
  case (Cons w ws)
  obtain p v where "w = (p, v)"
    by (cases w)
  then show ?case
    using Cons by (simp add: chips_write_ok [OF assms])
qed simp

definition pic_init_writes :: "(u16 \<times> u8) list" where
  "pic_init_writes = [(0x20, 0x11), (0x80, 0), (0xA0, 0x11), (0x80, 0), (0x21, 0x20), (0x80, 0), (0xA1, 0x28), (0x80, 0),
     (0x21, 4), (0x80, 0), (0xA1, 2), (0x80, 0), (0x21, 1), (0x80, 0), (0xA1, 1), (0x80, 0), (0x21, 0), (0xA1, 0),
     (0x21, 0xFF), (0xA1, 0xFF)]"

lemma pic_init_outs: "pic_init io h = outs io pic_init_writes h"
  by (simp add: pic_init_def pic_remap_def ioWait_def pic_ports pic_init_writes_def CASCADE_IRQ_def Let_def push_bit_eq_mult)

lemma chips_init:
  "fold chips_write pic_init_writes (m, s) =
    (m\<lparr>ch_base := 0x20, ch_mask := 0xFF, ch_service := 0, ch_stage := PicReady\<rparr>,
     s\<lparr>ch_base := 0x28, ch_mask := 0xFF, ch_service := 0, ch_stage := PicReady\<rparr>)"
  by (cases m; cases s) (simp add: pic_init_writes_def chip_start_def chip_data_def)

lemma pic_init_view:
  assumes "pic_hardware io view"
  shows "pic_ready (view (pic_init io h))" and "ch_mask (view (pic_init io h) b) = 0xFF"
    and "ch_service (view (pic_init io h) b) = 0"
proof -
  have "chips (view (pic_init io h)) = fold chips_write pic_init_writes (chips (view h))"
    unfolding pic_init_outs by (rule chips_outs [OF assms]) (simp add: pic_init_writes_def)
  then have "view (pic_init io h) False = (view h False)\<lparr>ch_base := 0x20, ch_mask := 0xFF, ch_service := 0, ch_stage := PicReady\<rparr>"
      "view (pic_init io h) True = (view h True)\<lparr>ch_base := 0x28, ch_mask := 0xFF, ch_service := 0, ch_stage := PicReady\<rparr>"
    by (simp_all add: chips_def chips_init)
  then show "pic_ready (view (pic_init io h))" "ch_mask (view (pic_init io h) b) = 0xFF" "ch_service (view (pic_init io h) b) = 0"
    by (cases b; simp add: pic_ready_def all_bool_eq)+
qed

text \<open>Masking and unmasking change one line.\<close>

datatype irq_op = SetMask u8 | ClearMask u8

fun irq_step :: "'h io \<Rightarrow> irq_op \<Rightarrow> 'h \<Rightarrow> 'h" where
  "irq_step io (SetMask l) h = irqSetMask io l h"
| "irq_step io (ClearMask l) h = irqClearMask io l h"

fun irq_line :: "irq_op \<Rightarrow> u8" where
  "irq_line (SetMask l) = l"
| "irq_line (ClearMask l) = l"

fun masked_after :: "irq_op list \<Rightarrow> u8 \<Rightarrow> bool \<Rightarrow> bool" where
  "masked_after [] irq m = m"
| "masked_after (op # ops) irq m = masked_after ops irq (if irq_line op = irq then (case op of SetMask _ \<Rightarrow> True | ClearMask _ \<Rightarrow> False) else m)"

definition irq_chip :: "u8 \<Rightarrow> bool" where "irq_chip l = (8 \<le> l)"
definition irq_pin :: "u8 \<Rightarrow> nat" where "irq_pin l = (if 8 \<le> l then unat l - 8 else unat l)"

lemma irq_port: "(if l < 8 then (PIC1_DATA, l) else (PIC2_DATA, l - 8)) = (pic_data_port (irq_chip l), if l < 8 then l else l - 8)"
  by (auto simp: pic_ports pic_data_port_def irq_chip_def)

lemma irq_pin: "unat (if l < 8 then l else l - 8) = irq_pin l"
  by (simp add: irq_pin_def word_le_nat_alt word_less_nat_alt unat_sub)

lemma irq_pin_inj: "l < 16 \<Longrightarrow> irq < 16 \<Longrightarrow> irq_chip l = irq_chip irq \<Longrightarrow> irq_pin l = irq_pin irq \<longleftrightarrow> l = irq"
  by (auto simp: irq_chip_def irq_pin_def word_le_nat_alt word_less_nat_alt word_unat_eq_iff split: if_splits)

lemma irq_pin_less: "l < 16 \<Longrightarrow> irq_pin l < 8"
  by (auto simp: irq_pin_def word_le_nat_alt word_less_nat_alt)

lemma line_masked_pin: "line_masked c irq = bit (ch_mask (c (irq_chip irq))) (irq_pin irq)"
  by (simp add: line_masked_def irq_chip_def irq_pin_def)

lemma irq_mask_write:
  assumes "pic_hardware io view" and "pic_ready (view h)"
  shows "view (outb io (pic_data_port b) v (snd (inb io p h))) = (view h)(b := (view h b)\<lparr>ch_mask := v\<rparr>)"
    and "fst (inb io (pic_data_port b) h) = ch_mask (view h b)"
proof -
  have r: "ch_stage (view h b) = PicReady" for b
    using assms(2) by (simp add: pic_ready_def)
  show "view (outb io (pic_data_port b) v (snd (inb io p h))) = (view h)(b := (view h b)\<lparr>ch_mask := v\<rparr>)"
    by (cases b) (simp_all add: pic_data_port_def pic_hardware_write [OF assms(1)] pic_hardware_else(1) [OF assms(1)] chip_data_def r)
  show "fst (inb io (pic_data_port b) h) = ch_mask (view h b)"
    by (rule pic_hardware_mask [OF assms(1) r])
qed

text \<open>The mask after one operation.\<close>

definition op_mask :: "irq_op \<Rightarrow> u8 \<Rightarrow> u8" where
  "op_mask op v = (case op of SetMask l \<Rightarrow> v OR push_bit (irq_pin l) 1 | ClearMask l \<Rightarrow> v AND NOT (push_bit (irq_pin l) 1))"

lemma op_mask_bit: "n < 8 \<Longrightarrow> bit (op_mask op v) n =
    (if n = irq_pin (irq_line op) then (case op of SetMask _ \<Rightarrow> True | ClearMask _ \<Rightarrow> False) else bit v n)"
  by (cases op) (auto simp: op_mask_def bit_simps)

lemma irq_step_mask:
  assumes "pic_hardware io view" and "pic_ready (view h)"
  shows "view (irq_step io op h) = (view h)(irq_chip (irq_line op) :=
    (view h (irq_chip (irq_line op)))\<lparr>ch_mask := op_mask op (ch_mask (view h (irq_chip (irq_line op))))\<rparr>)"
  by (cases op) (simp_all add: irqSetMask_def irqClearMask_def irq_port irq_pin op_mask_def Let_def case_prod_unfold
      irq_mask_write [OF assms])

lemma irq_step_view:
  assumes "pic_hardware io view" and "pic_ready (view h)" and "irq_line op < 16"
  shows "pic_ready (view (irq_step io op h))"
    and "irq < 16 \<Longrightarrow> line_masked (view (irq_step io op h)) irq = masked_after [op] irq (line_masked (view h) irq)"
proof -
  show "pic_ready (view (irq_step io op h))"
    using assms(2) by (auto simp: irq_step_mask [OF assms(1,2)] pic_ready_def)
  assume "irq < 16"
  then show "line_masked (view (irq_step io op h)) irq = masked_after [op] irq (line_masked (view h) irq)"
    using irq_pin_inj [OF assms(3), of irq]
    by (auto simp: line_masked_pin irq_step_mask [OF assms(1,2)] op_mask_bit irq_pin_less)
qed

lemma irq_steps_view:
  assumes "pic_hardware io view" and "irq < 16"
  shows "\<forall>op \<in> set ops. irq_line op < 16 \<Longrightarrow> pic_ready (view h) \<Longrightarrow>
    pic_ready (view (fold (irq_step io) ops h)) \<and>
    line_masked (view (fold (irq_step io) ops h)) irq = masked_after ops irq (line_masked (view h) irq)"
  by (induction ops arbitrary: h) (simp_all add: irq_step_view [OF assms(1)] assms(2))

lemma masked_after_unless: "irq \<notin> irq_line ` set ops \<Longrightarrow> masked_after ops irq m = m"
  by (induction ops arbitrary: m) auto

lemma ready_vector: "pic_ready c \<Longrightarrow> line_vector c irq = 0x20 + irq"
  by (simp add: pic_ready_def line_vector_def)

lemma init_masks:
  assumes "pic_hardware io view" and "irq < 16"
  shows "line_masked (view (pic_init io h)) irq"
proof -
  have "(0xFF :: u8) = mask 8"
    by (simp add: mask_eq_exp_minus_1)
  then show ?thesis
    using irq_pin_less [OF assms(2)] by (simp only: line_masked_pin pic_init_view(2) [OF assms(1)] bit_mask_iff) simp
qed

lemma pic_lines_eq:
  assumes "pic_hardware io view" and "\<forall>op \<in> set ops. irq_line op < 16" and "irq < 16"
  shows "line_masked (view (fold (irq_step io) ops (pic_init io h))) irq = masked_after ops irq True \<and>
    line_vector (view (fold (irq_step io) ops (pic_init io h))) irq = 0x20 + irq"
  using irq_steps_view [OF assms(1,3,2) pic_init_view(1) [OF assms(1)]]
  by (simp add: ready_vector init_masks [OF assms(1,3)])

text \<open>A chip to run it on: it does what is asked of the hardware.\<close>

definition sim_pic :: "(chip \<times> chip) io" where
  "sim_pic = \<lparr>inb = (\<lambda>p c. (if p = 0x21 then ch_mask (fst c) else if p = 0xA1 then ch_mask (snd c) else 0, c)),
     inw = (\<lambda>p c. (0, c)), outb = (\<lambda>p v c. chips_write (p, v) c), outw = (\<lambda>p v c. c)\<rparr>"

definition sim_pic_view :: "chip \<times> chip \<Rightarrow> bool \<Rightarrow> chip" where
  "sim_pic_view c b = (if b then snd c else fst c)"

lemma sim_pic_ok: "pic_hardware sim_pic sim_pic_view"
  unfolding pic_hardware_def pic_writes_def
  by (auto simp: sim_pic_def sim_pic_view_def pic_cmd_port_def pic_data_port_def fun_eq_iff all_bool_eq)

text \<open>
  \<^verbatim>\<open>PIC::init\<close>, \<^verbatim>\<open>PIC::irqSetMask\<close>, \<^verbatim>\<open>PIC::irqClearMask\<close>: the initialisation moves the sixteen lines
  to the vectors 0x20 to 0x2f, and after any masking and unmasking of lines a line is masked exactly when
  the last operation on it masked it or there was none.
\<close>

theorem pic_line_is_as_last_set:
  assumes "pic_hardware io view" and "\<forall>op \<in> set ops. irq_line op < 16" and "irq < 16"
  shows "line_masked (view (fold (irq_step io) ops (pic_init io h))) irq = masked_after ops irq True \<and>
    line_vector (view (fold (irq_step io) ops (pic_init io h))) irq = 0x20 + irq"
  by (rule pic_lines_eq [OF assms])

theorem pic_line_is_as_last_set_witness:
  "\<not> line_masked (sim_pic_view (fold (irq_step sim_pic) [ClearMask 1, SetMask 9, ClearMask 9, SetMask 2] (pic_init sim_pic (\<lparr>ch_base = 8, ch_mask = 0, ch_service = 0, ch_stage = PicReady\<rparr>, \<lparr>ch_base = 0x70, ch_mask = 0, ch_service = 0, ch_stage = PicReady\<rparr>)))) 9"
  by (subst conjunct1 [OF pic_line_is_as_last_set [OF sim_pic_ok]]) simp_all

section \<open>Interrupts that reach their handlers\<close>

lemma keyboard_irq_enable_view:
  assumes "pic_hardware io view"
  shows "view (keyboard_irq_enable io h) = view h"
  by (simp add: keyboard_irq_enable_def case_prod_unfold Let_def pic_hardware_else [OF assms])

lemma hw_interrupts_init_steps:
  "snd (hw_interrupts_init io p k c s h) = fold (irq_step io) [ClearMask 0, ClearMask 1] (keyboard_irq_enable io h)"
  by (simp add: hw_interrupts_init_def Let_def)

lemma hw_interrupts_init_masks:
  assumes "pic_hardware io view" and "irq < 16"
  shows "line_masked (view (snd (hw_interrupts_init io p k c s (pic_init io h)))) irq = (irq \<noteq> 0 \<and> irq \<noteq> 1)"
    and "line_vector (view (snd (hw_interrupts_init io p k c s (pic_init io h)))) irq = 0x20 + irq"
  using irq_steps_view [OF assms, of "[ClearMask 0, ClearMask 1]" "keyboard_irq_enable io (pic_init io h)"]
    pic_init_view(1) [OF assms(1)] init_masks [OF assms]
  unfolding hw_interrupts_init_steps by (auto simp: keyboard_irq_enable_view [OF assms(1)] ready_vector)

lemma hw_interrupts_init_gates:
  "gate_handler (idt (fst (hw_interrupts_init io p k c s h)) v) =
    (if v = 0x80 then c else if v = 0x21 then k else if v = 0x20 then p else gate_handler (idt s v))"
  by (simp add: hw_interrupts_init_def Let_def)

lemma hw_interrupts_eq:
  assumes "pic_hardware io view"
    and "hw_interrupts_init io pitStub keyboardStub syscallStub (idt_init addr isr_stub_table s) (pic_init io h) = (s', h')"
  shows "(\<forall>irq. irq < 16 \<longrightarrow> \<not> line_masked (view h') irq \<longrightarrow>
      gate_handler (idt s' (line_vector (view h') irq)) = (if irq = 0 then pitStub else keyboardStub)) \<and>
    gate_handler (idt s' 0x80) = syscallStub \<and>
    (\<forall>v < 32. gate_handler (idt s' (word_of_nat v)) = isr_stub_table v)"
proof (intro conjI allI impI)
  have s': "s' = fst (hw_interrupts_init io pitStub keyboardStub syscallStub (idt_init addr isr_stub_table s) (pic_init io h))"
    and h': "h' = snd (hw_interrupts_init io pitStub keyboardStub syscallStub (idt_init addr isr_stub_table s) (pic_init io h))"
    by (simp_all add: assms(2))
  show "gate_handler (idt s' 0x80) = syscallStub"
    by (simp add: s' hw_interrupts_init_gates)
  fix irq :: u8 assume "irq < 16" and "\<not> line_masked (view h') irq"
  then show "gate_handler (idt s' (line_vector (view h') irq)) = (if irq = 0 then pitStub else keyboardStub)"
    by (auto simp: s' h' hw_interrupts_init_masks [OF assms(1)] hw_interrupts_init_gates)
next
  fix v :: nat assume v: "v < 32"
  then have "(word_of_nat v :: u8) \<noteq> word_of_nat 0x80" "(word_of_nat v :: u8) \<noteq> word_of_nat 0x21" "(word_of_nat v :: u8) \<noteq> word_of_nat 0x20"
    by (simp_all add: byte_of_nat_inj del: of_nat_numeral)
  then have "gate_handler (idt (fst (hw_interrupts_init io pitStub keyboardStub syscallStub (idt_init addr isr_stub_table s) (pic_init io h)))
      (word_of_nat v)) = isr_stub_table v"
    by (simp add: hw_interrupts_init_gates idt_init_handler [OF v])
  then show "gate_handler (idt s' (word_of_nat v)) = isr_stub_table v"
    by (simp add: assms(2))
qed

text \<open>C24: \<^verbatim>\<open>HardwareInterrupts::init\<close> with \<^verbatim>\<open>Idt\<close> and \<^verbatim>\<open>PIC\<close>: after the start of the kernel each line that is not
  masked has a vector whose gate holds the handler of its device, the timer's for line 0 and the
  keyboard's otherwise; the gate 0x80 holds the system calls, and the first 32 hold the stubs of the exceptions.
\<close>

theorem hardware_interrupts_reach_handlers:
  assumes "pic_hardware io view"
    and "hw_interrupts_init io pitStub keyboardStub syscallStub (idt_init addr isr_stub_table s) (pic_init io h) = (s', h')"
  shows "(\<forall>irq. irq < 16 \<longrightarrow> \<not> line_masked (view h') irq \<longrightarrow>
      gate_handler (idt s' (line_vector (view h') irq)) = (if irq = 0 then pitStub else keyboardStub)) \<and>
    gate_handler (idt s' 0x80) = syscallStub \<and>
    (\<forall>v < 32. gate_handler (idt s' (word_of_nat v)) = isr_stub_table v)"
  by (rule hw_interrupts_eq [OF assms])

theorem hardware_interrupts_reach_handlers_witness:
  "gate_handler (idt (fst (hw_interrupts_init sim_pic 0x1000 0x2000 0x3000 (idt_init 0x500 (\<lambda>v. 0x100) (\<lparr>idt = (\<lambda>_. \<lparr>isr_low = 0, kernel_cs = 0, ie_reserved = 0, ie_attributes = 0, isr_high = 0\<rparr>), idt_vectors = (\<lambda>_. False), idtr_limit = 0, idtr_base = 0\<rparr>))
     (pic_init sim_pic (\<lparr>ch_base = 8, ch_mask = 0, ch_service = 0, ch_stage = PicReady\<rparr>, \<lparr>ch_base = 0x70, ch_mask = 0, ch_service = 0, ch_stage = PicReady\<rparr>)))) 0x80) = 0x3000"
  using hardware_interrupts_reach_handlers [OF sim_pic_ok surjective_pairing] by blast

section \<open>Sleeping\<close>

text \<open>
  The wait ends at the first reading at which the counter is far enough from where it was, if the counter
  gets there within the fuel. Each tick of the timer is one reading at least.
\<close>

lemma pit_wait_ends:
  assumes "k \<le> j" and "j < k + n" and "\<not> ticks j - start < t" and "\<forall>i. k \<le> i \<and> i < j \<longrightarrow> ticks i - start < t"
  shows "pit_wait n ticks k start t = Inr j"
  using assms
proof (induction n arbitrary: k)
  case (Suc n)
  then show ?case
    by (cases "k = j") auto
qed simp

lemma pit_wait_result:
  "pit_wait n ticks k start t = Inr j \<Longrightarrow> k \<le> j \<and> t \<le> ticks j - start"
  by (induction n arbitrary: k) (auto split: if_splits dest: Suc_leD)

lemma pit_sleep_long_enough:
  assumes "pit_sleepMs n f ticks ms = Inr j" and "unat ms * unat f + 999 < 2 ^ 64"
  shows "unat ms * unat f \<le> 1000 * unat (ticks j - ticks 0)"
proof -
  have "unat (ucast f :: u64) = unat f"
    using unsigned_less [of f] by (simp add: unsigned_ucast_eq unsigned_take_bit_eq take_bit_nat_def)
  then have "unat ((ms * ucast f + 999) div 1000) = (unat ms * unat f + 999) div 1000"
    using assms(2) by (simp add: unat_div unat_word_ariths)
  moreover have "(ms * ucast f + 999) div 1000 \<le> ticks j - ticks 0"
    using pit_wait_result [of n ticks 1] assms(1) by (simp add: pit_sleepMs_def)
  ultimately have "(unat ms * unat f + 999) div 1000 \<le> unat (ticks j - ticks 0)"
    by (metis word_le_nat_alt)
  then show ?thesis
    by linarith
qed

section \<open>What an exception does\<close>

text \<open>
  \<^verbatim>\<open>exceptionHandler\<close>: the machine reboots on an abort when a key comes, and on a trap when there is
  \<^emph>\<open>no\<close> key at its first look; every other exception stops the kernel.
\<close>

theorem exception_reboots:
  "exceptionHandler n keys pid v = Inr Reboot \<longleftrightarrow>
    v \<in> {8, 18} \<and> (\<exists>k < n. keys k \<noteq> 0) \<or> v \<in> {1, 3} \<and> keys 0 = 0"
  by (auto simp: exceptionHandler_def interruptToType_def handleTrap_def handleAbort_eq Let_def)

end
