(* ===== verification/Handle.thy ===== *)
theory Handle
  imports Heap
begin

text \<open>
  The counted references of the kernel and the bounded accesses to their data, \<^verbatim>\<open>src/obj/handle/handle.hpp\<close>.
  A handle is an object at an address of its own that points to a block shared by its copies; the block
  holds the count and the pointer to the data. Both blocks come from the heap of the kernel. Using a block
  after it was freed is an access out of bounds.
\<close>

section \<open>Readers and writers\<close>

text \<open>A reader and a writer have the bytes they point to and the length they were made with.\<close>

record window =
  w_bytes :: "u8 list"
  w_len :: u32

text \<open>The loop of \<^verbatim>\<open>write\<close>, with the bytes that are left to copy at most as its fuel.\<close>

fun writer_loop :: "nat \<Rightarrow> u32 \<Rightarrow> u8 list \<Rightarrow> u32 \<Rightarrow> window \<Rightarrow> window exec" where
  "writer_loop 0 i datastream ilen w = Inr w"
| "writer_loop (Suc n) i datastream ilen w =
     (if i < ilen \<and> i < w_len w
      then bindE (rd8 datastream i) (\<lambda>b.
           if unat i < length (w_bytes w)
           then writer_loop n (i + 1) datastream ilen (w\<lparr>w_bytes := (w_bytes w)[unat i := b]\<rparr>)
           else Inl OutOfBounds)
      else Inr w)"

definition writer_write :: "window \<Rightarrow> u8 list \<Rightarrow> u32 \<Rightarrow> (bool \<times> window) exec" where
  "writer_write w datastream ilen =
     bindE (writer_loop (unat ilen) 0 datastream ilen w) (\<lambda>w'.
     if ilen > w_len w then Inr (False, w') else Inr (True, w'))"

definition reader_read :: "window \<Rightarrow> window \<Rightarrow> u32 \<Rightarrow> (bool \<times> window) exec" where
  "reader_read r out ilen =
     (if ilen > w_len r then bindE (writer_write out (w_bytes r) (w_len r)) (\<lambda>(b, out'). Inr (False, out'))
      else writer_write out (w_bytes r) ilen)"

section \<open>Handles\<close>

record shared_data =
  rcount :: u32
  allocatorInfo_size :: u32
  usrData :: u32

record hstore =
  hs_heap :: kheap
  hs_data :: "u32 \<rightharpoonup> shared_data"
  hs_objs :: "u32 \<rightharpoonup> u32"

definition SIZEOF_SHAREDDATA :: u32 where "SIZEOF_SHAREDDATA = 12"

definition obj_data :: "hstore \<Rightarrow> u32 \<Rightarrow> (u32 \<times> shared_data) exec" where
  "obj_data s i = (case hs_objs s i of None \<Rightarrow> Inl OutOfBounds
     | Some p \<Rightarrow> (case hs_data s p of None \<Rightarrow> Inl OutOfBounds | Some d \<Rightarrow> Inr (p, d)))"

text \<open>A handle to \<open>n\<close> bytes at the object \<open>i\<close>. Neither pointer is tested.\<close>

definition handle_new :: "u32 \<Rightarrow> u32 \<Rightarrow> hstore \<Rightarrow> hstore exec" where
  "handle_new i n s = bindE (kalloc (hs_heap s) SIZEOF_SHAREDDATA) (\<lambda>(p, h1).
     if p = 0 then Inl OutOfBounds
     else bindE (kalloc h1 n) (\<lambda>(q, h2).
       Inr (s\<lparr>hs_heap := h2, hs_data := (hs_data s)(p \<mapsto> \<lparr>rcount = 1, allocatorInfo_size = 0, usrData = q\<rparr>),
              hs_objs := (hs_objs s)(i \<mapsto> p)\<rparr>)))"

definition handle_copy :: "u32 \<Rightarrow> u32 \<Rightarrow> hstore \<Rightarrow> hstore exec" where
  "handle_copy i other s = bindE (obj_data s other) (\<lambda>(p, d).
     Inr (s\<lparr>hs_data := (hs_data s)(p \<mapsto> d\<lparr>rcount := rcount d + 1\<rparr>), hs_objs := (hs_objs s)(i \<mapsto> p)\<rparr>))"

definition handle_assign :: "u32 \<Rightarrow> u32 \<Rightarrow> hstore \<Rightarrow> hstore exec" where
  "handle_assign i other s = (if i = other then Inr s else handle_copy i other s)"

text \<open>
  The blocks are freed when the count becomes zero. The null that is written into the shared block after
  that is seen by nobody.
\<close>

definition handle_free :: "u32 \<Rightarrow> shared_data \<Rightarrow> hstore \<Rightarrow> hstore exec" where
  "handle_free p d s = bindE (kfree (hs_heap s) (usrData d)) (\<lambda>h1. bindE (kfree h1 p) (\<lambda>h2.
     Inr (s\<lparr>hs_heap := h2, hs_data := (hs_data s)(p := None)\<rparr>)))"

definition handle_release :: "u32 \<Rightarrow> hstore \<Rightarrow> hstore exec" where
  "handle_release i s = bindE (obj_data s i) (\<lambda>(p, d).
     let d' = d\<lparr>rcount := rcount d - 1\<rparr>; s' = s\<lparr>hs_data := (hs_data s)(p \<mapsto> d')\<rparr>
     in if rcount d' = 0 then handle_free p d' s' else Inr s')"

definition handle_destroy :: "u32 \<Rightarrow> hstore \<Rightarrow> hstore exec" where
  "handle_destroy i s = bindE (handle_release i s) (\<lambda>s'. Inr (s'\<lparr>hs_objs := (hs_objs s')(i := None)\<rparr>))"

definition handle_getPtr :: "u32 \<Rightarrow> hstore \<Rightarrow> u32 exec" where
  "handle_getPtr i s = bindE (obj_data s i) (\<lambda>(p, d).
     if usrData d = 0 then Inl (Panic ''NULL usage of shrdData->usrData in handle'') else Inr (usrData d))"

section \<open>Bounded accesses\<close>

lemma take_update_drop: "k < length xs \<Longrightarrow> k < length ys \<Longrightarrow>
    (take k ys @ drop k xs)[k := ys ! k] = take (Suc k) ys @ drop (Suc k) xs"
  by (simp add: take_Suc_conv_app_nth list_update_append Cons_nth_drop_Suc [symmetric])

lemma writer_loop_ok:
  assumes "unat (w_len w) \<le> length (w_bytes w)" and "min (unat ilen) (unat (w_len w)) \<le> length ds"
  shows "n = unat ilen - k \<Longrightarrow> k \<le> min (unat ilen) (unat (w_len w)) \<Longrightarrow>
    writer_loop n (word_of_nat k) ds ilen (w\<lparr>w_bytes := take k ds @ drop k (w_bytes w)\<rparr>) =
    Inr (w\<lparr>w_bytes := take (min (unat ilen) (unat (w_len w))) ds @ drop (min (unat ilen) (unat (w_len w))) (w_bytes w)\<rparr>)"
proof (induction n arbitrary: k)
  case (Suc n)
  have "unat ilen < 2 ^ 32"
    using unsigned_less [of ilen] by simp
  then have u: "unat (word_of_nat k :: u32) = k"
    using Suc.prems(2) by (intro unat_of_nat32) simp
  show ?case
  proof (cases "k < unat (w_len w)")
    case True
    then have k: "k < unat ilen" "k < length ds" "k < length (w_bytes w)"
      using Suc.prems assms by auto
    have "(word_of_nat k :: u32) + 1 = word_of_nat (Suc k)"
      by simp
    moreover have "n = unat ilen - Suc k" "Suc k \<le> min (unat ilen) (unat (w_len w))"
      using Suc.prems(1) True k(1) by simp_all
    ultimately show ?thesis
      using Suc.IH [of "Suc k"] True k
      by (simp add: word_less_nat_alt u rd8_def take_update_drop del: of_nat_Suc)
  next
    case False
    then have "k = unat (w_len w)" "\<not> (word_of_nat k :: u32) < w_len w" "unat (w_len w) < unat ilen"
      using Suc.prems by (simp_all add: word_less_nat_alt u)
    then show ?thesis
      by simp
  qed
qed (auto simp: min_def)

lemma writer_write_ok:
  assumes "unat (w_len w) \<le> length (w_bytes w)" and "min (unat ilen) (unat (w_len w)) \<le> length ds"
  shows "writer_write w ds ilen = Inr (ilen \<le> w_len w,
    w\<lparr>w_bytes := take (min (unat ilen) (unat (w_len w))) ds @ drop (min (unat ilen) (unat (w_len w))) (w_bytes w)\<rparr>)"
  using writer_loop_ok [OF assms, of "unat ilen" 0] by (auto simp: writer_write_def not_less not_le)

lemma reader_read_ok:
  assumes "unat (w_len r) \<le> length (w_bytes r)" and "unat (w_len out) \<le> length (w_bytes out)"
    and "n = min (unat ilen) (min (unat (w_len r)) (unat (w_len out)))"
  shows "reader_read r out ilen = Inr (ilen \<le> w_len r \<and> ilen \<le> w_len out,
    out\<lparr>w_bytes := take n (w_bytes r) @ drop n (w_bytes out)\<rparr>)"
proof -
  have "min (unat k) (unat (w_len out)) \<le> length (w_bytes r)" if "k \<le> w_len r" for k
    using that assms(1) by (auto simp: word_le_nat_alt)
  note w = writer_write_ok [OF assms(2) this]
  show ?thesis
    using w [of ilen] w [of "w_len r"] assms(3)
    by (auto simp: reader_read_def not_less word_le_nat_alt word_less_nat_alt min_def)
qed

section \<open>Counting\<close>

text \<open>
  The objects that share a block, the blocks the handles own, and what holds of them: the count of every
  block is the number of its objects, and the heap holds what it held before, \<open>base\<close>, and the two blocks
  of each handle. No object lies at address 0.
\<close>

definition holders :: "hstore \<Rightarrow> u32 \<Rightarrow> u32 set" where
  "holders s p = {i. hs_objs s i = Some p}"

definition entry_ok :: "(u32 \<rightharpoonup> u32) \<Rightarrow> (u32 \<rightharpoonup> shared_data) \<Rightarrow> u32 \<Rightarrow> shared_data \<Rightarrow> bool" where
  "entry_ok base D p d \<longleftrightarrow> p \<notin> dom base \<and> usrData d \<notin> dom base \<and> usrData d \<noteq> 0 \<and> D (usrData d) = None \<and>
     (\<forall>q e. D q = Some e \<longrightarrow> usrData e = usrData d \<longrightarrow> q = p)"

definition blocks_ok :: "(u32 \<rightharpoonup> u32) \<Rightarrow> hstore \<Rightarrow> bool" where
  "blocks_ok base s \<longleftrightarrow> heap_inv (hs_heap s) \<and>
     (\<forall>p d. hs_data s p = Some d \<longrightarrow> entry_ok base (hs_data s) p d) \<and>
     (\<forall>q. q \<in> dom (live (hs_heap s)) \<longleftrightarrow> q \<in> dom base \<or> q \<in> dom (hs_data s) \<or> (\<exists>p d. hs_data s p = Some d \<and> usrData d = q)) \<and>
     (\<forall>q \<in> dom base. live (hs_heap s) q = base q)"

definition counts_ok :: "hstore \<Rightarrow> bool" where
  "counts_ok s \<longleftrightarrow> hs_objs s 0 = None \<and> ran (hs_objs s) = dom (hs_data s) \<and>
     (\<forall>p d. hs_data s p = Some d \<longrightarrow> rcount d = word_of_nat (card (holders s p)))"

lemma blocks_okD:
  assumes "blocks_ok base s"
  shows "heap_inv (hs_heap s)" and "hs_data s p = Some d \<Longrightarrow> entry_ok base (hs_data s) p d"
    and "q \<in> dom (live (hs_heap s)) \<longleftrightarrow> q \<in> dom base \<or> q \<in> dom (hs_data s) \<or> (\<exists>p d. hs_data s p = Some d \<and> usrData d = q)"
    and "q \<in> dom base \<Longrightarrow> live (hs_heap s) q = base q"
  using assms unfolding blocks_ok_def by blast+

lemma entry_ok_del: "entry_ok base D x e \<Longrightarrow> entry_ok base (D(p := None)) x e"
  by (auto simp: entry_ok_def)

lemma entry_ok_same:
  assumes "D p = Some d" and "usrData d' = usrData d" and "entry_ok base D x e" and "usrData e' = usrData e"
  shows "entry_ok base (D(p \<mapsto> d')) x e'"
  using assms by (auto simp: entry_ok_def split: if_splits)

lemma entry_ok_new:
  assumes "entry_ok base D x e" and "D p = None" and "p \<noteq> usrData e" and "usrData d \<noteq> usrData e"
  shows "entry_ok base (D(p \<mapsto> d)) x e"
  using assms by (auto simp: entry_ok_def split: if_splits)

lemma usr_del:
  assumes "entry_ok base D p d" and "D p = Some d"
  shows "(\<exists>x e. (D(p := None)) x = Some e \<and> usrData e = q) \<longleftrightarrow> q \<noteq> usrData d \<and> (\<exists>x e. D x = Some e \<and> usrData e = q)"
proof
  assume "\<exists>x e. (D(p := None)) x = Some e \<and> usrData e = q"
  then obtain x e where x: "x \<noteq> p" "D x = Some e" "usrData e = q"
    by (auto split: if_splits)
  then show "q \<noteq> usrData d \<and> (\<exists>x e. D x = Some e \<and> usrData e = q)"
    using assms(1) unfolding entry_ok_def by blast
next
  assume r: "q \<noteq> usrData d \<and> (\<exists>x e. D x = Some e \<and> usrData e = q)"
  then obtain x e where x: "D x = Some e" "usrData e = q"
    by blast
  then have "x \<noteq> p"
    using r assms(2) by auto
  then show "\<exists>x e. (D(p := None)) x = Some e \<and> usrData e = q"
    using x by (intro exI [of _ x] exI [of _ e]) simp
qed

lemma ran_del:
  assumes "\<And>j. m j = Some p \<Longrightarrow> j = i" and "m i = Some p"
  shows "ran (m(i := None)) = ran m - {p}"
proof
  show "ran (m(i := None)) \<subseteq> ran m - {p}"
    using assms(1) by (auto simp: ran_def split: if_splits)
  show "ran m - {p} \<subseteq> ran (m(i := None))"
  proof
    fix x assume "x \<in> ran m - {p}"
    then obtain j where "m j = Some x" "x \<noteq> p"
      by (auto simp: ran_def)
    then have "(m(i := None)) j = Some x"
      using assms(2) by auto
    then show "x \<in> ran (m(i := None))"
      by (rule ranI)
  qed
qed

lemma ran_del_shared:
  assumes "m i = Some p" and "m j = Some p" and "j \<noteq> i"
  shows "ran (m(i := None)) = ran m"
proof
  show "ran (m(i := None)) \<subseteq> ran m"
    by (auto simp: ran_def split: if_splits)
  show "ran m \<subseteq> ran (m(i := None))"
  proof
    fix x assume "x \<in> ran m"
    then obtain k where k: "m k = Some x"
      by (auto simp: ran_def)
    then have "(m(i := None)) (if k = i then j else k) = Some x"
      using assms by auto
    then show "x \<in> ran (m(i := None))"
      by (rule ranI)
  qed
qed

lemma obj_data_ok:
  assumes "counts_ok s" and "hs_objs s i = Some p"
  obtains d where "hs_data s p = Some d" and "obj_data s i = Inr (p, d)"
proof -
  have "p \<in> dom (hs_data s)"
    using assms by (auto simp: counts_ok_def ran_def)
  then show ?thesis
    using that assms(2) by (auto simp: obj_data_def)
qed

lemma card_holders: "hs_objs s 0 = None \<Longrightarrow> unat (word_of_nat (card (holders s p)) :: u32) = card (holders s p)"
proof -
  assume "hs_objs s 0 = None"
  then have "holders s p \<subseteq> UNIV - {0}"
    by (auto simp: holders_def)
  then have "card (holders s p) \<le> card (UNIV - {0 :: u32})"
    by (intro card_mono) auto
  then show ?thesis
    by (intro unat_of_nat32) (simp add: card_word)
qed

text \<open>A new handle.\<close>

definition handle_room :: "hstore \<Rightarrow> u32 \<Rightarrow> bool" where
  "handle_room s n \<longleftrightarrow> sane_size (hs_heap s) SIZEOF_SHAREDDATA \<and> sane_size (hs_heap s) n \<and>
     (case kalloc (hs_heap s) SIZEOF_SHAREDDATA of Inl e \<Rightarrow> False
      | Inr (p, h1) \<Rightarrow> p \<noteq> 0 \<and> (case kalloc h1 n of Inl e \<Rightarrow> False | Inr (q, h2) \<Rightarrow> q \<noteq> 0))"

lemma handle_new_ok:
  assumes b: "blocks_ok base s" and c: "counts_ok s" and r: "handle_room s n" and i: "i \<noteq> 0" "hs_objs s i = None"
  shows "\<exists>s'. handle_new i n s = Inr s' \<and> blocks_ok base s' \<and> counts_ok s' \<and> dom (hs_objs s') = insert i (dom (hs_objs s))"
proof -
  obtain p h1 where a1: "kalloc (hs_heap s) SIZEOF_SHAREDDATA = Inr (p, h1)" "p \<noteq> 0"
    using r by (cases "kalloc (hs_heap s) SIZEOF_SHAREDDATA") (auto simp: handle_room_def)
  obtain q h2 where a2: "kalloc h1 n = Inr (q, h2)" "q \<noteq> 0"
    using r a1 by (cases "kalloc h1 n") (auto simp: handle_room_def)
  note a = a1 a2
  have h: "heap_inv (hs_heap s)" and sane: "sane_size (hs_heap s) SIZEOF_SHAREDDATA" "sane_size (hs_heap s) n"
    using b r by (simp_all add: blocks_ok_def handle_room_def)
  obtain m1 where m1: "heap_inv h1" "sane_size h1 = sane_size (hs_heap s)" "live (hs_heap s) p = None" "live h1 = (live (hs_heap s))(p \<mapsto> m1)"
    using kh.alloc_fresh [OF h sane(1) a(1,2)] by metis
  obtain m2 where m2: "heap_inv h2" "live h1 q = None" "live h2 = (live h1)(q \<mapsto> m2)"
    using kh.alloc_fresh [OF m1(1) _ a(3,4)] m1(2) sane(2) by metis
  let ?d = "\<lparr>rcount = 1, allocatorInfo_size = 0, usrData = q\<rparr>"
  let ?s = "s\<lparr>hs_heap := h2, hs_data := (hs_data s)(p \<mapsto> ?d), hs_objs := (hs_objs s)(i \<mapsto> p)\<rparr>"
  have new: "handle_new i n s = Inr ?s"
    using a by (simp add: handle_new_def)
  have pq: "p \<noteq> q" "live (hs_heap s) q = None"
    using m1(4) m2(2) by (auto split: if_splits)
  have "p \<notin> dom (live (hs_heap s))" "q \<notin> dom (live (hs_heap s))"
    using m1(3) pq(2) by auto
  then have out: "p \<notin> dom base \<and> q \<notin> dom base \<and> hs_data s p = None \<and> hs_data s q = None \<and>
      (\<forall>x d. hs_data s x = Some d \<longrightarrow> usrData d \<noteq> p \<and> usrData d \<noteq> q)"
    unfolding blocks_okD(3) [OF b] by blast
  have "blocks_ok base ?s"
    unfolding blocks_ok_def
  proof (intro conjI allI ballI)
    fix x
    note blocks_okD(3) [OF b, of x]
    moreover have "(\<exists>p' d. hs_data ?s p' = Some d \<and> usrData d = x) \<longleftrightarrow> x = q \<or> (\<exists>p' d. hs_data s p' = Some d \<and> usrData d = x)"
      using out by auto (metis option.distinct(1))
    ultimately show "x \<in> dom (live (hs_heap ?s)) \<longleftrightarrow> x \<in> dom base \<or> x \<in> dom (hs_data ?s) \<or> (\<exists>p' d. hs_data ?s p' = Some d \<and> usrData d = x)"
      by (simp add: m2(3) m1(4)) blast
  next
    fix x assume "x \<in> dom base"
    then show "live (hs_heap ?s) x = base x"
      using blocks_okD(4) [OF b] out by (auto simp: m2(3) m1(4))
  next
    fix x d
    show "hs_data ?s x = Some d \<longrightarrow> entry_ok base (hs_data ?s) x d"
    proof (cases "x = p")
      case True
      then show ?thesis
        using out pq(1) a(4) by (auto simp: entry_ok_def)
    next
      case False
      then show ?thesis
        using out blocks_okD(2) [OF b, of x d] entry_ok_new [of base "hs_data s" x d p ?d] by auto
    qed
  qed (simp add: m2(1))
  moreover have hold: "holders ?s x = (if x = p then {i} else holders s x)" for x
    using c i(2) out unfolding holders_def counts_ok_def by (auto simp: ran_def domIff)
  have "ran ((hs_objs s)(i \<mapsto> p)) = insert p (ran (hs_objs s))"
    using i(2) by (rule ran_map_upd)
  then have "counts_ok ?s"
    using c i(1) unfolding counts_ok_def hold by simp
  ultimately show ?thesis
    using new by fastforce
qed

text \<open>A change of a count keeps the blocks.\<close>

lemma blocks_ok_count:
  assumes "blocks_ok base s" and "hs_data s p = Some d"
  shows "blocks_ok base (s\<lparr>hs_data := (hs_data s)(p \<mapsto> d\<lparr>rcount := c\<rparr>), hs_objs := os\<rparr>)"
proof -
  let ?s = "s\<lparr>hs_data := (hs_data s)(p \<mapsto> d\<lparr>rcount := c\<rparr>), hs_objs := os\<rparr>"
  have up: "hs_data ?s x = Some e \<Longrightarrow> \<exists>e'. hs_data s x = Some e' \<and> usrData e' = usrData e"
    and down: "hs_data s x = Some e' \<Longrightarrow> \<exists>e. hs_data ?s x = Some e \<and> usrData e = usrData e'" for x e e'
    using assms(2) by (auto split: if_splits)
  have "(\<exists>x e. hs_data ?s x = Some e \<and> usrData e = q) \<longleftrightarrow> (\<exists>x e. hs_data s x = Some e \<and> usrData e = q)" for q
    using up down by metis
  moreover have "dom (hs_data ?s) = dom (hs_data s)"
    using assms(2) by auto
  moreover have "hs_data ?s x = Some e \<longrightarrow> entry_ok base (hs_data ?s) x e" for x e
  proof
    assume "hs_data ?s x = Some e"
    then obtain e' where "hs_data s x = Some e'" "usrData e' = usrData e"
      using up by blast
    with entry_ok_same [of "hs_data s", OF assms(2), of "d\<lparr>rcount := c\<rparr>" base x e' e] blocks_okD(2) [OF assms(1)]
    show "entry_ok base (hs_data ?s) x e" by simp
  qed
  ultimately show ?thesis
    unfolding blocks_ok_def using blocks_okD(1,3,4) [OF assms(1)] by simp
qed

lemma handle_copy_ok:
  assumes b: "blocks_ok base s" and c: "counts_ok s" and o: "hs_objs s j = Some p" and i: "i \<noteq> 0" "hs_objs s i = None"
  shows "\<exists>s'. handle_copy i j s = Inr s' \<and> blocks_ok base s' \<and> counts_ok s' \<and> dom (hs_objs s') = insert i (dom (hs_objs s))"
proof -
  obtain d where d: "hs_data s p = Some d" "obj_data s j = Inr (p, d)"
    using obj_data_ok [OF c o] by blast
  let ?s = "s\<lparr>hs_data := (hs_data s)(p \<mapsto> d\<lparr>rcount := rcount d + 1\<rparr>), hs_objs := (hs_objs s)(i \<mapsto> p)\<rparr>"
  have hold: "holders ?s x = (if x = p then insert i (holders s p) else holders s x)" for x
    using i(2) by (auto simp: holders_def)
  have "i \<notin> holders s p"
    using i(2) by (simp add: holders_def)
  then have card: "card (insert i (holders s p)) = Suc (card (holders s p))"
    by simp
  have "ran ((hs_objs s)(i \<mapsto> p)) = dom (hs_data s)"
    using c i(2) d(1) by (auto simp: ran_map_upd counts_ok_def)
  then have "counts_ok ?s"
    using c i(1) d(1) unfolding counts_ok_def hold by (auto simp: card)
  then show ?thesis
    using blocks_ok_count [OF b d(1)] d(2) by (auto simp: handle_copy_def)
qed

lemma handle_free_ok:
  assumes b: "blocks_ok base s" and d: "hs_data s p = Some d"
  shows "\<exists>s'. handle_free p d s = Inr s' \<and> blocks_ok base s' \<and> hs_data s' = (hs_data s)(p := None) \<and> hs_objs s' = hs_objs s"
proof -
  have e: "entry_ok base (hs_data s) p d" and h: "heap_inv (hs_heap s)"
    using blocks_okD(1,2) [OF b] d by blast+
  have "usrData d \<in> dom (live (hs_heap s))" "p \<in> dom (live (hs_heap s))"
    using blocks_okD(3) [OF b, of "usrData d"] blocks_okD(3) [OF b, of p] d by auto
  then obtain m k where l: "live (hs_heap s) (usrData d) = Some m" "live (hs_heap s) p = Some k"
    by blast
  obtain h1 where h1: "kfree (hs_heap s) (usrData d) = Inr h1" "heap_inv h1" "live h1 = (live (hs_heap s))(usrData d := None)"
    using kh.release_law [OF h l(1)] by blast
  have free: "hs_data s (usrData d) = None" "p \<notin> dom base" "usrData d \<notin> dom base"
    using e unfolding entry_ok_def by blast+
  then have "usrData d \<noteq> p"
    using d by auto
  then have "live h1 p = Some k"
    using l(2) h1(3) by simp
  then obtain h2 where h2: "kfree h1 p = Inr h2" "heap_inv h2" "live h2 = (live h1)(p := None)"
    using kh.release_law [OF h1(2)] by blast
  let ?s = "s\<lparr>hs_heap := h2, hs_data := (hs_data s)(p := None)\<rparr>"
  have "blocks_ok base ?s"
    unfolding blocks_ok_def
  proof (intro conjI allI ballI)
    fix x
    note blocks_okD(3) [OF b, of x]
    moreover have "(\<exists>p' e. hs_data ?s p' = Some e \<and> usrData e = x) \<longleftrightarrow> x \<noteq> usrData d \<and> (\<exists>p' e. hs_data s p' = Some e \<and> usrData e = x)"
      using usr_del [OF e d] by simp
    moreover have "usrData e' \<noteq> p" if "hs_data s p' = Some e'" for p' e'
    proof -
      have "hs_data s (usrData e') = None"
        using blocks_okD(2) [OF b that] unfolding entry_ok_def by blast
      then show ?thesis
        using d by auto
    qed
    ultimately show "x \<in> dom (live (hs_heap ?s)) \<longleftrightarrow> x \<in> dom base \<or> x \<in> dom (hs_data ?s) \<or> (\<exists>p' e. hs_data ?s p' = Some e \<and> usrData e = x)"
      using free by (auto simp: h2(3) h1(3))
  next
    fix x assume "x \<in> dom base"
    then show "live (hs_heap ?s) x = base x"
      using blocks_okD(4) [OF b] free by (auto simp: h2(3) h1(3))
  next
    fix x e'
    show "hs_data ?s x = Some e' \<longrightarrow> entry_ok base (hs_data ?s) x e'"
      using blocks_okD(2) [OF b, of x e'] by (auto intro!: entry_ok_del)
  qed (simp add: h2(2))
  then show ?thesis
    using h1(1) h2(1) by (simp add: handle_free_def)
qed

lemma handle_destroy_ok:
  assumes b: "blocks_ok base s" and c: "counts_ok s" and o: "hs_objs s i = Some p"
  shows "\<exists>s'. handle_destroy i s = Inr s' \<and> blocks_ok base s' \<and> counts_ok s' \<and> dom (hs_objs s') = dom (hs_objs s) - {i}"
proof -
  obtain d where d: "hs_data s p = Some d" "obj_data s i = Inr (p, d)"
    using obj_data_ok [OF c o] by blast
  let ?d = "d\<lparr>rcount := rcount d - 1\<rparr>"
  let ?s = "s\<lparr>hs_data := (hs_data s)(p \<mapsto> ?d)\<rparr>"
  have z: "hs_objs s 0 = None" and ran: "ran (hs_objs s) = dom (hs_data s)" and rc: "rcount d = word_of_nat (card (holders s p))"
    using c d(1) by (simp_all add: counts_ok_def)
  have i: "i \<in> holders s p"
    using o by (simp add: holders_def)
  then have card: "card (holders s p - {i}) = card (holders s p) - 1" and pos: "0 < card (holders s p)"
    by (auto simp: card_gt_0_iff)
  then have rc': "rcount ?d = word_of_nat (card (holders s p - {i}))"
    by (simp add: rc of_nat_diff)
  have b1: "blocks_ok base (?s\<lparr>hs_objs := os\<rparr>)" for os
    using blocks_ok_count [OF b d(1), where os = os] by simp
  show ?thesis
  proof (cases "holders s p = {i}")
    case True
    have one: "rcount ?d = 0"
      using rc' by (simp add: True)
    obtain s2 where s2: "handle_free p ?d ?s = Inr s2" "blocks_ok base s2" "hs_data s2 = (hs_data ?s)(p := None)" "hs_objs s2 = hs_objs ?s"
      using handle_free_ok [of base ?s p ?d] b1 [of "hs_objs s"] by auto
    let ?r = "s2\<lparr>hs_objs := (hs_objs s2)(i := None)\<rparr>"
    have hold: "holders ?r x = (if x = p then {} else holders s x)" for x
      using True s2(4) o by (auto simp: holders_def)
    have "ran (hs_objs ?r) = dom (hs_data s) - {p}"
    proof -
      have "ran ((hs_objs s)(i := None)) = ran (hs_objs s) - {p}"
        using True o by (intro ran_del) (auto simp: holders_def)
      then show ?thesis
        by (simp add: s2(4) ran)
    qed
    then have "counts_ok ?r"
      using c z unfolding counts_ok_def hold by (auto simp: s2(3,4))
    moreover have "blocks_ok base ?r"
      using s2(2) unfolding blocks_ok_def by simp
    ultimately show ?thesis
      using s2 d(2) one by (auto simp: handle_destroy_def handle_release_def Let_def)
  next
    case False
    then have "holders s p - {i} \<noteq> {}"
      using i by auto
    then have "card (holders s p - {i}) \<noteq> 0"
      by (simp only: card_eq_0_iff) simp
    moreover have "unat (rcount ?d) = card (holders s p - {i})"
    proof -
      have "holders (s\<lparr>hs_objs := (hs_objs s)(i := None)\<rparr>) p = holders s p - {i}"
        by (auto simp: holders_def)
      then show ?thesis
        using card_holders [of "s\<lparr>hs_objs := (hs_objs s)(i := None)\<rparr>" p] z rc' by simp
    qed
    ultimately have more: "rcount ?d \<noteq> 0"
      by (metis unat_0)
    let ?r = "?s\<lparr>hs_objs := (hs_objs s)(i := None)\<rparr>"
    have hold: "holders ?r x = (if x = p then holders s p - {i} else holders s x)" for x
      using o by (auto simp: holders_def)
    obtain j where j: "j \<noteq> i" "hs_objs s j = Some p"
      using False i by (auto simp: holders_def)
    have "ran (hs_objs ?r) = dom (hs_data s)"
      using ran_del_shared [OF o j(2,1)] ran by simp
    then have "counts_ok ?r"
      using c z d(1) rc' unfolding counts_ok_def hold by auto
    moreover have "handle_destroy i s = Inr ?r"
      using more d(2) by (simp add: handle_destroy_def handle_release_def Let_def)
    moreover have "blocks_ok base ?r" "dom (hs_objs ?r) = dom (hs_objs s) - {i}"
      using b1 by (simp, auto)
    ultimately show ?thesis
      by blast
  qed
qed

section \<open>Runs\<close>

text \<open>
  What the compiler lets a program do with handles: make one at a new object, copy one to a new object,
  and let the destructor run on one. A run is allowed when the objects are new or alive as the operation
  needs it and the heap has room for the new handles.
\<close>

datatype handle_op = HNew u32 u32 | HCopy u32 u32 | HDestroy u32

fun handle_step :: "handle_op \<Rightarrow> hstore \<Rightarrow> hstore exec" where
  "handle_step (HNew i n) s = handle_new i n s"
| "handle_step (HCopy i j) s = handle_copy i j s"
| "handle_step (HDestroy i) s = handle_destroy i s"

fun handle_allowed :: "handle_op \<Rightarrow> hstore \<Rightarrow> bool" where
  "handle_allowed (HNew i n) s \<longleftrightarrow> i \<noteq> 0 \<and> hs_objs s i = None \<and> handle_room s n"
| "handle_allowed (HCopy i j) s \<longleftrightarrow> i \<noteq> 0 \<and> hs_objs s i = None \<and> hs_objs s j \<noteq> None"
| "handle_allowed (HDestroy i) s \<longleftrightarrow> hs_objs s i \<noteq> None"

fun handle_run :: "handle_op list \<Rightarrow> hstore \<Rightarrow> hstore exec" where
  "handle_run [] s = Inr s"
| "handle_run (op # ops) s = bindE (handle_step op s) (handle_run ops)"

fun run_allowed :: "handle_op list \<Rightarrow> hstore \<Rightarrow> bool" where
  "run_allowed [] s = True"
| "run_allowed (op # ops) s \<longleftrightarrow> handle_allowed op s \<and>
     (case handle_step op s of Inl e \<Rightarrow> False | Inr s' \<Rightarrow> run_allowed ops s')"

definition handles_start :: "kheap \<Rightarrow> hstore" where
  "handles_start h = \<lparr>hs_heap = h, hs_data = Map.empty, hs_objs = Map.empty\<rparr>"

lemma handles_start_ok: "heap_inv h \<Longrightarrow> blocks_ok (live h) (handles_start h) \<and> counts_ok (handles_start h)"
  by (simp add: blocks_ok_def counts_ok_def handles_start_def)

lemma handle_step_ok:
  assumes "blocks_ok base s" and "counts_ok s" and "handle_allowed op s"
  shows "\<exists>s'. handle_step op s = Inr s' \<and> blocks_ok base s' \<and> counts_ok s'"
proof (cases op)
  case (HNew i n)
  then show ?thesis
    using handle_new_ok [OF assms(1,2), of n i] assms(3) by auto
next
  case (HCopy i j)
  then show ?thesis
    using handle_copy_ok [OF assms(1,2), of j _ i] assms(3) by auto
next
  case (HDestroy i)
  then show ?thesis
    using handle_destroy_ok [OF assms(1,2), of i] assms(3) by auto
qed

lemma handle_run_ok:
  "blocks_ok base s \<Longrightarrow> counts_ok s \<Longrightarrow> run_allowed ops s \<Longrightarrow>
    \<exists>s'. handle_run ops s = Inr s' \<and> blocks_ok base s' \<and> counts_ok s'"
proof (induction ops arbitrary: s)
  case (Cons op ops)
  obtain s1 where s1: "handle_step op s = Inr s1" "blocks_ok base s1" "counts_ok s1"
    using handle_step_ok [OF Cons.prems(1,2)] Cons.prems(3) by auto
  then show ?case
    using Cons.IH [OF s1(2,3)] Cons.prems(3) by simp
qed simp

text \<open>What the invariant says of a handle, and of a state without handles.\<close>

lemma handle_alive:
  assumes "blocks_ok base s" and "counts_ok s" and "hs_objs s i = Some p"
  shows "\<exists>d. hs_data s p = Some d \<and> unat (rcount d) = card (holders s p) \<and> live (hs_heap s) p \<noteq> None \<and>
    live (hs_heap s) (usrData d) \<noteq> None \<and> handle_getPtr i s = Inr (usrData d)"
proof -
  obtain d where d: "hs_data s p = Some d" "obj_data s i = Inr (p, d)"
    using obj_data_ok [OF assms(2,3)] by blast
  have "p \<in> dom (live (hs_heap s))" "usrData d \<in> dom (live (hs_heap s))"
    using blocks_okD(3) [OF assms(1), of p] blocks_okD(3) [OF assms(1), of "usrData d"] d(1) by auto
  moreover have "usrData d \<noteq> 0"
    using blocks_okD(2) [OF assms(1) d(1)] unfolding entry_ok_def by blast
  moreover have "unat (rcount d) = card (holders s p)"
    using assms(2) d(1) card_holders [of s p] by (simp add: counts_ok_def)
  ultimately show ?thesis
    using d by (auto simp: handle_getPtr_def)
qed

lemma no_handles_left:
  assumes "blocks_ok base s" and "counts_ok s" and "hs_objs s = Map.empty"
  shows "live (hs_heap s) = base"
proof
  fix q
  have "dom (hs_data s) = {}"
    using assms(2,3) unfolding counts_ok_def by (metis ran_empty)
  then have data: "hs_data s = Map.empty"
    by simp
  show "live (hs_heap s) q = base q"
  proof (cases "q \<in> dom base")
    case True
    then show ?thesis
      by (rule blocks_okD(4) [OF assms(1)])
  next
    case False
    then have "q \<notin> dom (live (hs_heap s))"
      using blocks_okD(3) [OF assms(1), of q] by (simp add: data)
    then show ?thesis
      using False by (simp add: domIff)
  qed
qed

lemma handles_eq:
  assumes "heap_inv h" and "run_allowed ops (handles_start h)"
  shows "\<exists>s. handle_run ops (handles_start h) = Inr s \<and>
    (\<forall>i p. hs_objs s i = Some p \<longrightarrow> (\<exists>d. hs_data s p = Some d \<and> unat (rcount d) = card (holders s p) \<and>
       live (hs_heap s) p \<noteq> None \<and> live (hs_heap s) (usrData d) \<noteq> None \<and> handle_getPtr i s = Inr (usrData d))) \<and>
    (hs_objs s = Map.empty \<longrightarrow> live (hs_heap s) = live h)"
proof -
  obtain s where s: "handle_run ops (handles_start h) = Inr s" "blocks_ok (live h) s" "counts_ok s"
    using handle_run_ok [OF _ _ assms(2)] handles_start_ok [OF assms(1)] by blast
  show ?thesis
    using s(1) handle_alive [OF s(2,3)] no_handles_left [OF s(2,3)] by blast
qed

text \<open>C20: \<^verbatim>\<open>Handle\<close>: whatever a program does with new handles, copies and destructors, the count of a
  shared block is the number of the objects that point to it, both blocks of every object that is alive
  are still allocated and \<^verbatim>\<open>getPtr\<close> answers the data, and when the last object is gone the heap has
  the allocations it had at the start.
\<close>

theorem handles_are_counted:
  assumes "heap_inv h" and "run_allowed ops (handles_start h)"
  shows "\<exists>s. handle_run ops (handles_start h) = Inr s \<and>
    (\<forall>i p. hs_objs s i = Some p \<longrightarrow> (\<exists>d. hs_data s p = Some d \<and> unat (rcount d) = card (holders s p) \<and>
       live (hs_heap s) p \<noteq> None \<and> live (hs_heap s) (usrData d) \<noteq> None \<and> handle_getPtr i s = Inr (usrData d))) \<and>
    (hs_objs s = Map.empty \<longrightarrow> live (hs_heap s) = live h)"
  by (rule handles_eq [OF assms])

theorem handles_are_counted_witness:
  "\<exists>s. handle_run [HNew 0x500 8, HCopy 0x600 0x500, HDestroy 0x500] (handles_start (heap_init 0x100000 0x200000)) = Inr s"
  using handles_are_counted [of "heap_init 0x100000 0x200000" "[HNew 0x500 8, HCopy 0x600 0x500, HDestroy 0x500]"]
    heap_init_inv [of "0x100000" "0x200000"]
  by (force simp: handles_start_def handle_room_def sane_size_def heap_init_def kalloc_def HEAPBLOCK_SIZE_def SIZEOF_SHAREDDATA_def
      hb_payload_def handle_new_def handle_copy_def handle_destroy_def handle_release_def obj_data_def Let_def)

text \<open>
  The assignment does not give up what the object held: the block of its only handle stays allocated,
  its count stays as it was, and no object points to it any more.
\<close>

theorem handle_assign_leaks:
  assumes "blocks_ok base s" and "counts_ok s" and "holders s p = {i}" and "hs_objs s j = Some q" and "q \<noteq> p"
  shows "\<exists>s'. handle_assign i j s = Inr s' \<and> holders s' p = {} \<and> hs_data s' p = hs_data s p \<and> live (hs_heap s') p \<noteq> None"
proof -
  obtain d where d: "obj_data s j = Inr (q, d)"
    using obj_data_ok [OF assms(2,4)] by blast
  have i: "hs_objs s i = Some p"
    using assms(3) by (auto simp: holders_def)
  then have "i \<noteq> j" "live (hs_heap s) p \<noteq> None"
    using assms(4,5) handle_alive [OF assms(1,2)] by auto
  moreover have "holders (s\<lparr>hs_data := D, hs_objs := (hs_objs s)(i \<mapsto> q)\<rparr>) p = {}" for D
  proof -
    have "k = i" if "hs_objs s k = Some p" for k
      using assms(3) that unfolding holders_def by blast
    then show ?thesis
      using assms(5) by (auto simp: holders_def)
  qed
  ultimately show ?thesis
    using d assms(5) by (simp add: handle_assign_def handle_copy_def)
qed

text \<open>
  \<^verbatim>\<open>Reader::read\<close> and \<^verbatim>\<open>Writer::write\<close>: reading any number of bytes from a reader into a writer copies
  as many of them as both lengths allow, touches nothing behind them, and says whether that was all.
\<close>

theorem reader_stays_in_bounds:
  assumes "unat (w_len r) \<le> length (w_bytes r)" and "unat (w_len out) \<le> length (w_bytes out)"
    and "n = min (unat ilen) (min (unat (w_len r)) (unat (w_len out)))"
  shows "reader_read r out ilen = Inr (ilen \<le> w_len r \<and> ilen \<le> w_len out,
    out\<lparr>w_bytes := take n (w_bytes r) @ drop n (w_bytes out)\<rparr>)"
  by (rule reader_read_ok [OF assms])

theorem reader_stays_in_bounds_witness:
  "reader_read \<lparr>w_bytes = [1, 2, 3], w_len = 3\<rparr> \<lparr>w_bytes = [7, 8, 9, 9], w_len = 2\<rparr> 5 =
    Inr (False, \<lparr>w_bytes = [1, 2, 9, 9], w_len = 2\<rparr>)"
  by (subst reader_stays_in_bounds [where n = 2]) (simp_all add: word_le_nat_alt)

end
