(* ===== verification/Spec2Isabelle.thy ===== *)
theory Spec2Isabelle
  imports Heap RivFsTermination RivFsIterate Process SerialLog Rap VelaVector VelaTypes FileSystem Terminal InitList Keyboard Syscall InitRamfs LiveSysc BootSector Pci BootFat Interrupts Handle
begin

text \<open>
  A verification development for RivOS, a kernel for 32-bit x86 machines in C++ with its boot loader, the
  program that builds its initramfs, and two user programs: the scheduler and a desktop with a small Lisp
  for shaders, Vela. The repository is described from its root: the kernel is \<^verbatim>\<open>src/\<close>, the user programs are
  \<^verbatim>\<open>sbinSrc/de\<close> and \<^verbatim>\<open>sbinSrc/sched\<close>, the image builder is \<^verbatim>\<open>initramfs/genfs\<close>.

  \<^bold>\<open>How the program works.\<close> \<^verbatim>\<open>kernelMain\<close> of \<^verbatim>\<open>src/kernel.cpp\<close> sets up the descriptor tables, the framebuffer, the
  physical frames, the heap, the disk, PCI, the interrupt controllers and paging. It finds the initramfs that
  the boot loader left in memory and loads the drivers in it. The file system layer asks the mount points for
  drivers: FAT32 for the disk, \<^verbatim>\<open>/dev\<close> for the console, \<^verbatim>\<open>/boot\<close> for raw sectors, \<^verbatim>\<open>/krn/virt\<close> for the table of
  functions that the kernel offers (RAP). User programs reach all of it through interrupt 0x80. The timer
  interrupt calls the function of the process that owns the timer module, the scheduler, which
  resumes the next process; the owner of the framebuffer module may paint.

  \<^bold>\<open>How it is modelled.\<close> Every operation of the code is a function that returns its result and the state after
  it. The theory \<open>Prelude\<close> has the sum type \<open>exec\<close>: its left side is an access outside an object, a panic, a
  loop that does not end, an exception of the processor or the end of the process. Machine integers are words of
  their width, so they wrap around as in the code. Memory that a pointer reaches is a list of bytes with an
  offset; pointers that are only compared or stored are words. The allocator of the kernel is modelled in
  \<open>Heap\<close>; components that only need to know whether it answers null take that answer as an argument.

  \<^bold>\<open>Memory and processes\<close>
  \<^item> \<open>Heap\<close>: \<^verbatim>\<open>src/mem/alloc.hpp\<close>. The chain of block headers is a list. The invariant says that the blocks lie
    one behind the other; allocation gives fresh blocks, fails only when there is no room, and freeing
    makes room again.
  \<^item> \<open>Frames\<close>: \<^verbatim>\<open>src/mem/page.hpp\<close>, the bitmap of physical frames: allocation takes the lowest free one.
  \<^item> \<open>Mmu\<close>: \<^verbatim>\<open>src/mem/mmu/mmu.hpp\<close>. Directories and tables are lists of words at physical addresses;
    \<open>translate\<close> is the processor's walk through them, and the lemmas state each operation as its effect on
    \<open>translate\<close>.
  \<^item> \<open>Process\<close>: \<^verbatim>\<open>src/proc\<close> and the system call \<^verbatim>\<open>Mmap\<close>: the checks of an ELF image, loading its segments, the
    stack, what the new process reads where, and the switch of contexts.
  \<^item> \<open>Handle\<close>: \<^verbatim>\<open>src/obj/handle/handle.hpp\<close>, counted references over the heap and bounded reads and writes.

  \<^bold>\<open>Characters, texts and containers\<close>
  \<^item> \<open>CString\<close>, \<open>StringView\<close>, \<open>Str\<close>: \<^verbatim>\<open>src/gen/alpha.hpp\<close>, \<^verbatim>\<open>src/lib/cstring.hpp\<close>, \<^verbatim>\<open>src/mem/utils.cpp\<close>, \<^verbatim>\<open>src/lib/sv.hpp\<close>,
    \<^verbatim>\<open>src/lib/str.hpp\<close>. \<open>Radix\<close> has the digits of numbers that the formatting routines share.
  \<^item> \<open>Containers\<close>: \<^verbatim>\<open>src/gen/vec.hpp\<close>, \<^verbatim>\<open>map.hpp\<close> and \<^verbatim>\<open>err.hpp\<close>, as a list and a list of pairs, the first of which counts. \<open>GrowingArray\<close>
    has the contract of the two growing arrays of the system.
  \<^item> \<open>SerialLog\<close>, \<open>Stdio\<close>, \<open>Terminal\<close>: the formatted output to the serial line (\<^verbatim>\<open>src/gen/serial.hpp\<close>), of the
    user programs (\<^verbatim>\<open>sys/stdio.c\<close>) and on the screen (\<^verbatim>\<open>src/terminal\<close>, \<^verbatim>\<open>src/vis\<close>).

  \<^bold>\<open>Files\<close>
  \<^item> \<open>GenFs\<close>, \<open>RivFs\<close>, \<open>RivFsRoundtrip\<close>, \<open>RivFsTermination\<close>, \<open>RivFsIterate\<close>: the image builder and the reader
    \<^verbatim>\<open>src/drivers/fs/rivfs/rivfs.hpp\<close>. The specification is lookup in the tree of directories the image was
    built from; the reader ends on every image, well formed or not.
  \<^item> \<open>Fat32\<close>: \<^verbatim>\<open>src/drivers/fs/FAT32/fat.hpp\<close> over a disk that is a function from sectors to bytes: names,
    directories as a search in the entries of a chain of clusters, paths, and reading as the bytes of the chain.
  \<^item> \<open>BootSector\<close>, \<open>DevFs\<close>, \<open>Rap\<close>: the drivers of \<^verbatim>\<open>/boot\<close>, \<^verbatim>\<open>/dev\<close> and \<^verbatim>\<open>/krn/virt\<close>; \<open>Rap\<close> has the parser of
    the user programs as well and \<open>KernRap\<close> the kernel's own, \<^verbatim>\<open>src/rap/rap.hpp\<close>.
  \<^item> \<open>FileSystem\<close>: \<^verbatim>\<open>src/drivers/fs/fs.hpp\<close>. A driver is a record of its operations, as the class with virtual
    functions is; the choice of the mount point, the descriptors, and a whole open, read and close on FAT32.
  \<^item> \<open>KernConfig\<close>, \<open>KernVfs\<close>, \<open>InitRamfs\<close>, \<open>LiveSysc\<close>: configuration files (\<^verbatim>\<open>src/gen/conf/conf.hpp\<close>) and the settings
    the kernel takes from them, the table of drives (\<^verbatim>\<open>src/vfs/vfs.hpp\<close>), the start of the drivers
    (\<^verbatim>\<open>src/initramfs/init.hpp\<close>) and their system calls (\<^verbatim>\<open>sysclayer.cpp\<close>).
  \<^item> \<open>BootFat\<close>: the second FAT32 reader, \<^verbatim>\<open>src/boot/fs/fs.c\<close>, of the boot loader, compared with the first.

  \<^bold>\<open>Hardware\<close>
  \<^item> \<open>Ata\<close>: \<^verbatim>\<open>ata_pio.hpp\<close> and \<^verbatim>\<open>src/gen/io.hpp\<close>. The instructions for ports are a record of functions on an
    unknown state; \<open>ata_drive\<close> states what the standard says of a drive behind the ports.
  \<^item> \<open>Interrupts\<close>: \<^verbatim>\<open>src/sys/IDT\<close>, \<^verbatim>\<open>src/sys/PIC\<close>, \<^verbatim>\<open>src/sys/PIT\<close> and \<^verbatim>\<open>src/drivers/interrupts/init.cpp\<close>;
    \<open>pic_hardware\<close> states what the data sheet says of the two controllers.
  \<^item> \<open>Pci\<close>: \<^verbatim>\<open>src/PCI\<close>; the configuration space is an argument. What the search finds is compared with lists of the
    names by position, what \<open>Keyboard\<close> types with a table of the keys, both written down apart from those of the code.
  \<^item> \<open>Keyboard\<close>, \<open>Syscall\<close>: the keyboard and system call interrupts of \<^verbatim>\<open>src/drivers/interrupts\<close>.
  The two hardware predicates are hypotheses of the theorems that need them, and each is shown of a
  concrete simulated device, on which the theorems are then run.

  \<^bold>\<open>Processes that own parts of the system\<close>
  \<^item> \<open>SysMod\<close>: \<^verbatim>\<open>src/sys/sysmod.hpp\<close>, who owns which module, over all sequences of requests.
  \<^item> \<open>Scheduler\<close>, \<open>InitList\<close>: the timer interrupt with the handler of the scheduler process
    (\<^verbatim>\<open>sbinSrc/sched/scheduling\<close>), and the list of processes it starts (\<^verbatim>\<open>sched.c\<close>).

  \<^bold>\<open>The shader language\<close>, \<^verbatim>\<open>sbinSrc/de/lisp/lisp.c\<close>
  \<^item> \<open>VelaVector\<close>, \<open>VelaSyntax\<close>, \<open>VelaEval\<close>, \<open>VelaShader\<close>: the vector, the tokenizer and the parser with the
    printer they invert, the interpreter, and what programs do, the one of \<^verbatim>\<open>docs/shaderlang.md\<close> included.
  \<^item> \<open>VelaTypes\<close>: a type system, which the language does not have, and that typed programs neither stop nor raise an
    exception.

  \<^bold>\<open>Interfaces.\<close> \<open>block_allocator\<close> (interpreted for the heap as \<open>kh\<close>), \<open>growing_array\<close> (\<open>kv\<close> for the kernel,
  \<open>va\<close> for Vela), \<open>key_table\<close> (\<open>km\<close>, the map of the kernel), \<open>frame_provider\<close> (\<open>pf\<close>, the frames) and
  \<open>text_builder\<close> (\<open>sb\<close>, the kernel strings) have the laws that the clients use.

  \<^bold>\<open>Loops and fuel.\<close> Loops over a counted range or a list are structural recursion. The others have fuel and
  answer \<open>Hang\<close> without it. The parser of Vela gets twice the number of tokens, which is always enough
  (\<open>parse_fuel_enough\<close>): what keeps it from returning is only the endless loop behind its messages, a \<open>Panic\<close> here; the evaluator's fuel is the depth of the recursion, and expressions without calls need
  no more than their depth. The lookup in an initramfs gets the length of the path. Walks along a chain
  of clusters get the number of steps as an argument: the theorems that a file is read give
  the length of its chain, and for a cyclic chain no fuel is enough. The waits for the disk need as many
  steps as the drive is busy, which \<open>ata_drive\<close> bounds; the waits for a key or for the timer have the sequence of
  readings as an argument. The digits of a number and the bytes that a writer copies bound their own loops.

  \<^bold>\<open>Not modelled.\<close>
  \<^item> Assembly and what only the processor sees: the entry stubs, \<^verbatim>\<open>gdtFlush\<close> (all of \<^verbatim>\<open>src/sys/GDT/gdt.hpp\<close>), the change
    of registers and stacks in \<^verbatim>\<open>resumeProcess\<close>, the TLB.
  \<^item> The menu, the text terminal, the disk access and the kernel loader of the boot loader
    (\<^verbatim>\<open>src/boot/menu\<close>, \<^verbatim>\<open>term\<close>, \<^verbatim>\<open>storage\<close>, \<^verbatim>\<open>enter.c\<close>, \<^verbatim>\<open>utils.c\<close>): \<^verbatim>\<open>enter.c\<close> stops in an endless loop
    after it has shown a file, so that the menu and the loading of a kernel are never reached.
  \<^item> \<^verbatim>\<open>src/drivers/fs/ext2/ext2.hpp\<close>, a stub: it reads a super block and the group descriptors and returns a
    file that it never fills in. In \<open>FileSystem\<close> it is an argument, like every driver.
  \<^item> \<^verbatim>\<open>kernelMain\<close> as one function: its calls are the initialisers modelled above, and an endless loop stands
    in front of the settings and the scheduler; the settings and the loops over pages are modelled.
  \<^item> \<^verbatim>\<open>sbinSrc/de/main.c\<close>, a sequence of calls of modelled functions, and \<^verbatim>\<open>sbinSrc/de/mem/utils.c\<close>.
  \<^item> The copies of \<^verbatim>\<open>sys/stdio.c\<close>, \<^verbatim>\<open>rap/rap.c\<close> and the headers of \<^verbatim>\<open>gen\<close> under \<^verbatim>\<open>sbinSrc/sched\<close>: they are those
    under \<^verbatim>\<open>sbinSrc/de\<close> but for one blank.
  \<^item> The command line and the directory walk of the image builder, which are calls of the C++ library.
  \<^item> Log lines, debugging aids and tests, and the test driver \<^verbatim>\<open>initramfs/src/fat32\<close>.
\<close>

end
